(* ===== verification/Depot_Prelude.thy ===== *)
theory Depot_Prelude
  imports Main "HOL-Library.Word"
begin

text \<open>
  Shared vocabulary of the development: the machine integers and byte strings of the Rust
  code, the outcome type every fallible operation returns, and the generic facts on lists,
  options and words the component theories use.

  A Rust call ends in one of three ways: it returns a value, it returns an error value, or it
  panics.  \<open>outcome\<close> keeps the three apart, because some callers (the NFS back end) turn a
  panic into a reply and some (the readers) must not panic at all.
\<close>

section \<open>Machine types\<close>

type_synonym u8 = "8 word"
type_synonym u16 = "16 word"
type_synonym u32 = "32 word"
type_synonym u64 = "64 word"
type_synonym bytes = "u8 list"

section \<open>Outcomes\<close>

datatype ('e, 'a) outcome = Ok 'a | Err 'e | Panic

fun is_ok :: "('e, 'a) outcome \<Rightarrow> bool" where
  "is_ok (Ok _) = True"
| "is_ok _ = False"

text \<open>The question-mark operator: an error or a panic ends the caller as well.\<close>

fun obind :: "('e, 'a) outcome \<Rightarrow> ('a \<Rightarrow> ('e, 'b) outcome) \<Rightarrow> ('e, 'b) outcome" where
  "obind (Ok a) f = f a"
| "obind (Err e) f = Err e"
| "obind Panic f = Panic"

fun omap :: "('a \<Rightarrow> 'b) \<Rightarrow> ('e, 'a) outcome \<Rightarrow> ('e, 'b) outcome" where
  "omap f (Ok a) = Ok (f a)"
| "omap f (Err e) = Err e"
| "omap f Panic = Panic"

fun omap_err :: "('e \<Rightarrow> 'f) \<Rightarrow> ('e, 'a) outcome \<Rightarrow> ('f, 'a) outcome" where
  "omap_err g (Ok a) = Ok a"
| "omap_err g (Err e) = Err (g e)"
| "omap_err g Panic = Panic"

text \<open>\<open>Result::ok\<close>; a panic has no value to keep, so it is not an option.\<close>

fun ok_or :: "'a option \<Rightarrow> 'e \<Rightarrow> ('e, 'a) outcome" where
  "ok_or None e = Err e"
| "ok_or (Some a) e = Ok a"

lemma is_ok_iff: "is_ok x \<longleftrightarrow> (\<exists>a. x = Ok a)"
  by (cases x) auto

lemma obind_Ok_iff [simp]: "obind x f = Ok b \<longleftrightarrow> (\<exists>a. x = Ok a \<and> f a = Ok b)"
  by (cases x) auto

lemma obind_Panic_iff: "obind x f = Panic \<longleftrightarrow> x = Panic \<or> (\<exists>a. x = Ok a \<and> f a = Panic)"
  by (cases x) auto

lemma omap_Ok_iff [simp]: "omap f x = Ok b \<longleftrightarrow> (\<exists>a. x = Ok a \<and> b = f a)"
  by (cases x) auto

lemma omap_Panic_iff [simp]: "omap f x = Panic \<longleftrightarrow> x = Panic"
  by (cases x) auto

lemma omap_err_Ok_iff [simp]: "omap_err g x = Ok b \<longleftrightarrow> x = Ok b"
  by (cases x) auto

lemma omap_err_Panic_iff [simp]: "omap_err g x = Panic \<longleftrightarrow> x = Panic"
  by (cases x) auto

lemma ok_or_Ok_iff [simp]: "ok_or x e = Ok a \<longleftrightarrow> x = Some a"
  by (cases x) auto

lemma ok_or_not_Panic [simp]: "ok_or x e \<noteq> Panic"
  by (cases x) auto

section \<open>Words and lengths\<close>

text \<open>A list length as a \<open>u64\<close>, and what is lost when it does not fit.\<close>

definition len64 :: "'a list \<Rightarrow> u64" where
  "len64 xs = word_of_nat (length xs)"

lemma unat_len64: "length xs < 2 ^ 64 \<Longrightarrow> unat (len64 xs) = length xs"
  by (simp add: len64_def unat_of_nat take_bit_nat_eq_self)

lemma unat_plus_fits:
  fixes a b :: "'a::len word"
  shows "unat a + unat b < 2 ^ LENGTH('a) \<Longrightarrow> unat (a + b) = unat a + unat b"
  by (simp add: unat_word_ariths)

lemma unat_minus_le:
  fixes a b :: "'a::len word"
  shows "b \<le> a \<Longrightarrow> unat (a - b) = unat a - unat b"
  by (rule unat_sub)

lemma unat_min: "unat (min a b) = min (unat a) (unat b)"
  by (simp add: min_def word_le_nat_alt)

definition saturating_sub :: "'a::len word \<Rightarrow> 'a word \<Rightarrow> 'a word" where
  "saturating_sub a b = (if b \<le> a then a - b else 0)"

lemma unat_saturating_sub: "unat (saturating_sub a b) = unat a - unat b"
  by (auto simp: saturating_sub_def unat_minus_le word_le_nat_alt)

lemma unat_ucast_u32_u64: "unat (ucast (x :: u32) :: u64) = unat x"
proof -
  have "unat x < 2 ^ 32" using unsigned_less [of x, where 'a = nat] by simp
  then have "unat x < 2 ^ 64" by simp
  then show ?thesis by (simp add: unsigned_ucast_eq take_bit_nat_eq_self)
qed

section \<open>Lists\<close>

text \<open>The slice \<open>xs[a..b]\<close>, defined when Rust would not panic on it.\<close>

definition sub_slice :: "'a list \<Rightarrow> nat \<Rightarrow> nat \<Rightarrow> 'a list option" where
  "sub_slice xs a b = (if a \<le> b \<and> b \<le> length xs then Some (take (b - a) (drop a xs)) else None)"

definition get_at :: "'a list \<Rightarrow> nat \<Rightarrow> 'a option" where
  "get_at xs i = (if i < length xs then Some (xs ! i) else None)"

lemma get_at_Some_iff: "get_at xs i = Some x \<longleftrightarrow> i < length xs \<and> xs ! i = x"
  by (auto simp: get_at_def)

lemma sub_slice_length: "sub_slice xs a b = Some ys \<Longrightarrow> length ys = b - a"
  by (auto simp: sub_slice_def split: if_splits)

lemma take_drop_append:
  "take n (drop k (xs @ ys)) =
     take n (drop k xs) @ take (n - (length xs - k)) (drop (k - length xs) ys)"
  by simp

end
