(* ===== verification/Rust_Std.thy ===== *)
theory Rust_Std
  imports Depot_Prelude "HOL-Library.Char_ord" "HOL-Library.List_Lexorder"
begin

text \<open>
  The pieces of the Rust standard library the program leans on, each as the documentation of
  the standard library describes it: searching and splitting a \<open>str\<close>, reading and printing
  integers, little-endian bytes, \<open>Path::file_name\<close>, \<open>partition_point\<close>.

  A \<open>str\<close> is the list of its UTF-8 bytes, so \<open>length\<close> is \<open>str::len\<close> and the order of
  strings is the byte order that \<open>str::cmp\<close> uses.
\<close>

section \<open>Strings\<close>

fun str_find :: "char \<Rightarrow> string \<Rightarrow> nat option" where
  "str_find c [] = None"
| "str_find c (x # xs) = (if x = c then Some 0 else map_option Suc (str_find c xs))"

fun str_rfind :: "char \<Rightarrow> string \<Rightarrow> nat option" where
  "str_rfind c [] = None"
| "str_rfind c (x # xs) =
     (case str_rfind c xs of Some i \<Rightarrow> Some (Suc i) | None \<Rightarrow> if x = c then Some 0 else None)"

fun strip_prefix :: "char \<Rightarrow> string \<Rightarrow> string option" where
  "strip_prefix c [] = None"
| "strip_prefix c (x # xs) = (if x = c then Some xs else None)"

definition split_once :: "char \<Rightarrow> string \<Rightarrow> (string \<times> string) option" where
  "split_once c s = map_option (\<lambda>i. (take i s, drop (Suc i) s)) (str_find c s)"

fun split_on :: "char \<Rightarrow> string \<Rightarrow> string list" where
  "split_on c [] = [[]]"
| "split_on c (x # xs) =
     (if x = c then [] # split_on c xs
      else (case split_on c xs of [] \<Rightarrow> [[x]] | w # ws \<Rightarrow> (x # w) # ws))"

text \<open>\<open>Iterator::join\<close> on a slice of strings.\<close>

fun join_with :: "string \<Rightarrow> string list \<Rightarrow> string" where
  "join_with sep [] = []"
| "join_with sep [w] = w"
| "join_with sep (w # ws) = w @ sep @ join_with sep ws"

definition strip_suffix :: "string \<Rightarrow> string \<Rightarrow> string option" where
  "strip_suffix suf s =
     (if length suf \<le> length s \<and> drop (length s - length suf) s = suf
      then Some (take (length s - length suf) s) else None)"

lemma str_find_None_iff: "str_find c s = None \<longleftrightarrow> c \<notin> set s"
  by (induction s) auto

lemma str_find_SomeD:
  "str_find c s = Some i \<Longrightarrow> i < length s \<and> s ! i = c \<and> c \<notin> set (take i s)"
  by (induction s arbitrary: i) (auto split: if_splits)

lemma str_find_append: "c \<notin> set a \<Longrightarrow> str_find c (a @ c # b) = Some (length a)"
  by (induction a) auto

lemma str_rfind_None_iff: "str_rfind c s = None \<longleftrightarrow> c \<notin> set s"
  by (induction s) (auto split: option.splits)

lemma str_rfind_append: "c \<notin> set b \<Longrightarrow> str_rfind c (a @ c # b) = Some (length a)"
  by (induction a) (auto simp: str_rfind_None_iff split: option.splits)

lemma str_rfind_SomeD:
  "str_rfind c s = Some i \<Longrightarrow> i < length s \<and> s ! i = c \<and> c \<notin> set (drop (Suc i) s)"
proof (induction s arbitrary: i)
  case (Cons x xs)
  show ?case
  proof (cases "str_rfind c xs")
    case None
    with Cons.prems show ?thesis by (auto simp: str_rfind_None_iff split: if_splits)
  next
    case (Some j)
    with Cons.prems Cons.IH [of j] show ?thesis by auto
  qed
qed simp

lemma split_once_append: "c \<notin> set a \<Longrightarrow> split_once c (a @ c # b) = Some (a, b)"
  by (simp add: split_once_def str_find_append)

lemma split_once_None_iff: "split_once c s = None \<longleftrightarrow> c \<notin> set s"
  by (simp add: split_once_def str_find_None_iff)

lemma split_on_nonempty [simp]: "split_on c s \<noteq> []"
  by (cases s) (auto split: list.splits)

lemma join_split_on: "join_with [c] (split_on c s) = s"
proof (induction s)
  case (Cons x xs)
  obtain w ws where "split_on c xs = w # ws"
    by (cases "split_on c xs") auto
  with Cons show ?case by (cases ws) auto
qed simp

section \<open>Character boundaries\<close>

text \<open>
  A byte index into a \<open>str\<close> is a character boundary unless it points at a UTF-8 continuation
  byte (\<open>10xxxxxx\<close>).  Slicing a \<open>str\<close> at any other index panics: \<open>None\<close>.
\<close>

definition is_continuation :: "char \<Rightarrow> bool" where
  "is_continuation c = (let n = of_char c :: nat in 128 \<le> n \<and> n < 192)"

definition is_char_boundary :: "string \<Rightarrow> nat \<Rightarrow> bool" where
  "is_char_boundary s i =
     (i = 0 \<or> i = length s \<or> (i < length s \<and> \<not> is_continuation (s ! i)))"

definition str_slice :: "string \<Rightarrow> nat \<Rightarrow> nat \<Rightarrow> string option" where
  "str_slice s a b =
     (if is_char_boundary s a \<and> is_char_boundary s b then sub_slice s a b else None)"

definition is_ascii :: "string \<Rightarrow> bool" where
  "is_ascii s = list_all (\<lambda>c. (of_char c :: nat) < 128) s"

lemma is_ascii_boundary: "is_ascii s \<Longrightarrow> i \<le> length s \<Longrightarrow> is_char_boundary s i"
  by (cases "i = length s")
    (simp_all add: is_ascii_def is_char_boundary_def is_continuation_def list_all_length Let_def
      linorder_not_le)

lemma str_slice_ascii:
  "is_ascii s \<Longrightarrow> a \<le> b \<Longrightarrow> b \<le> length s \<Longrightarrow> str_slice s a b = Some (take (b - a) (drop a s))"
  by (simp add: str_slice_def is_ascii_boundary sub_slice_def)

section \<open>Integers as text\<close>

definition digit_of :: "nat \<Rightarrow> char \<Rightarrow> nat option" where
  "digit_of radix c =
     (let n = of_char c :: nat;
          d = (if 48 \<le> n \<and> n \<le> 57 then Some (n - 48)
               else if 97 \<le> n \<and> n \<le> 122 then Some (n - 87)
               else if 65 \<le> n \<and> n \<le> 90 then Some (n - 55)
               else None)
      in (case d of Some v \<Rightarrow> if v < radix then Some v else None | None \<Rightarrow> None))"

text \<open>The digit loop of \<open>from_str_radix\<close>: an overflow of the target type is an error.\<close>

fun digits_val :: "nat \<Rightarrow> nat \<Rightarrow> nat \<Rightarrow> string \<Rightarrow> nat option" where
  "digits_val radix bound acc [] = Some acc"
| "digits_val radix bound acc (c # cs) =
     (case digit_of radix c of
        None \<Rightarrow> None
      | Some d \<Rightarrow>
          (let acc' = acc * radix + d
           in if acc' < bound then digits_val radix bound acc' cs else None))"

text \<open>
  \<open>from_str_radix\<close> of an unsigned type with \<open>bound\<close> values: the empty string and a lone sign
  are errors, and one leading plus sign is accepted.
\<close>

definition from_str_radix :: "nat \<Rightarrow> nat \<Rightarrow> string \<Rightarrow> nat option" where
  "from_str_radix radix bound s =
     (case s of
        [] \<Rightarrow> None
      | c # cs \<Rightarrow>
          if c = CHR ''+'' then (if cs = [] then None else digits_val radix bound 0 cs)
          else digits_val radix bound 0 s)"

definition parse_u32 :: "string \<Rightarrow> u32 option" where
  "parse_u32 s = map_option word_of_nat (from_str_radix 10 (2 ^ 32) s)"

definition parse_u64 :: "string \<Rightarrow> u64 option" where
  "parse_u64 s = map_option word_of_nat (from_str_radix 10 (2 ^ 64) s)"

definition digit_char :: "nat \<Rightarrow> char" where
  "digit_char d = char_of (48 + d)"

fun dec_digits :: "nat \<Rightarrow> string" where
  "dec_digits n =
     (if n < 10 then [digit_char n] else dec_digits (n div 10) @ [digit_char (n mod 10)])"

declare dec_digits.simps [simp del]

text \<open>\<open>to_string\<close> of an unsigned integer.\<close>

definition to_dec :: "'a::len word \<Rightarrow> string" where
  "to_dec w = dec_digits (unat w)"

lemma of_char_digit_char: "d < 10 \<Longrightarrow> (of_char (digit_char d) :: nat) = 48 + d"
  by (simp add: digit_char_def)

lemma digit_of_digit_char: "d < 10 \<Longrightarrow> digit_of 10 (digit_char d) = Some d"
  by (simp add: digit_of_def of_char_digit_char Let_def)

lemma digit_chars: "c \<in> set (dec_digits n) \<Longrightarrow> 48 \<le> (of_char c :: nat) \<and> (of_char c :: nat) \<le> 57"
proof (induction n rule: dec_digits.induct)
  case (1 n)
  show ?case
  proof (cases "n < 10")
    case True
    with "1.prems" show ?thesis by (simp add: dec_digits.simps [of n] of_char_digit_char)
  next
    case False
    have "n mod 10 < 10" by simp
    with False "1.prems" "1.IH" show ?thesis
      by (auto simp: dec_digits.simps [of n] of_char_digit_char)
  qed
qed

lemma dec_digits_nonempty [simp]: "dec_digits n \<noteq> []"
  by (subst dec_digits.simps) simp

lemma digits_val_append:
  "digits_val radix bound acc (xs @ ys) =
     Option.bind (digits_val radix bound acc xs) (\<lambda>a. digits_val radix bound a ys)"
  by (induction xs arbitrary: acc) (auto simp: Let_def split: option.splits)

lemma digits_val_dec: "n < bound \<Longrightarrow> digits_val 10 bound 0 (dec_digits n) = Some n"
proof (induction n rule: dec_digits.induct)
  case (1 n)
  show ?case
  proof (cases "n < 10")
    case True
    with "1.prems" show ?thesis
      by (simp add: dec_digits.simps [of n] digit_of_digit_char)
  next
    case False
    have "n mod 10 < 10" and "n div 10 < bound" using "1.prems" by auto
    with False "1.IH" "1.prems" show ?thesis
      by (simp add: dec_digits.simps [of n] digits_val_append digit_of_digit_char)
  qed
qed

lemma from_str_radix_dec: "n < bound \<Longrightarrow> from_str_radix 10 bound (dec_digits n) = Some n"
proof -
  assume "n < bound"
  then have v: "digits_val 10 bound 0 (dec_digits n) = Some n" by (rule digits_val_dec)
  obtain c cs where d: "dec_digits n = c # cs"
    by (cases "dec_digits n") auto
  then have "48 \<le> (of_char c :: nat)" using digit_chars [of c n] by simp
  then have "c \<noteq> CHR ''+''" by auto
  with v d show ?thesis by (simp add: from_str_radix_def)
qed

lemma parse_u32_to_dec: "parse_u32 (to_dec (w :: u32)) = Some w"
  using unsigned_less [of w, where 'a = nat]
  by (simp add: parse_u32_def to_dec_def from_str_radix_dec)

lemma parse_u64_to_dec: "parse_u64 (to_dec (w :: u64)) = Some w"
  using unsigned_less [of w, where 'a = nat]
  by (simp add: parse_u64_def to_dec_def from_str_radix_dec)

lemma to_dec_inject_u32: "to_dec (a :: u32) = to_dec b \<longleftrightarrow> a = b"
  by (metis option.inject parse_u32_to_dec)

lemma to_dec_inject_u64: "to_dec (a :: u64) = to_dec b \<longleftrightarrow> a = b"
  by (metis option.inject parse_u64_to_dec)

lemma to_dec_nonempty [simp]: "to_dec w \<noteq> []"
  by (simp add: to_dec_def)

lemma to_dec_no_dot: "CHR ''.'' \<notin> set (to_dec w)"
  unfolding to_dec_def using digit_chars [of "CHR ''.''"] by auto

lemma to_dec_no_slash: "CHR ''/'' \<notin> set (to_dec w)"
proof
  assume "CHR ''/'' \<in> set (to_dec w)"
  then have "48 \<le> (of_char CHR ''/'' :: nat)"
    unfolding to_dec_def by (rule digit_chars [THEN conjunct1])
  then show False by simp
qed

section \<open>Little-endian bytes\<close>

text \<open>\<open>u64::to_le_bytes\<close> and \<open>u64::from_le_bytes\<close>.\<close>

definition to_le_bytes :: "u64 \<Rightarrow> bytes" where
  "to_le_bytes w = map (\<lambda>i. word_of_nat (unat w div 256 ^ i)) [0..<8]"

definition le_value :: "bytes \<Rightarrow> nat" where
  "le_value bs = foldr (\<lambda>b acc. unat b + 256 * acc) bs 0"

definition from_le_bytes :: "bytes \<Rightarrow> u64" where
  "from_le_bytes bs = word_of_nat (le_value bs)"

lemma length_to_le_bytes [simp]: "length (to_le_bytes w) = 8"
  by (simp add: to_le_bytes_def)

lemma le_value_digits:
  "le_value (map (\<lambda>i. word_of_nat (n div 256 ^ i)) [0..<k]) = n mod 256 ^ k"
proof (induction k arbitrary: n)
  case 0
  then show ?case by (simp add: le_value_def)
next
  case (Suc k)
  have "[0..<Suc k] = 0 # map Suc [0..<k]"
    by (simp only: upt_conv_Cons map_Suc_upt zero_less_Suc)
  then have "le_value (map (\<lambda>i. word_of_nat (n div 256 ^ i)) [0..<Suc k]) =
      n mod 256 + 256 * le_value (map (\<lambda>i. word_of_nat (n div 256 div 256 ^ i)) [0..<k])"
    by (simp add: le_value_def comp_def div_mult2_eq unat_of_nat)
  also have "\<dots> = n mod 256 + 256 * (n div 256 mod 256 ^ k)"
    by (simp add: Suc.IH)
  also have "\<dots> = n mod 256 ^ Suc k"
    by (simp add: mod_mult2_eq)
  finally show ?case .
qed

lemma from_to_le_bytes: "from_le_bytes (to_le_bytes w) = w"
proof -
  have "unat w < 256 ^ 8" using unsigned_less [of w, where 'a = nat] by simp
  then show ?thesis
    by (simp add: from_le_bytes_def to_le_bytes_def le_value_digits)
qed

section \<open>Paths and slices\<close>

text \<open>
  \<open>Path::file_name\<close> of a slash-separated path: the last component, unless it is \<open>..\<close>;
  empty components and \<open>.\<close> are normalised away.
\<close>

definition path_file_name :: "string \<Rightarrow> string option" where
  "path_file_name p =
     (case rev (filter (\<lambda>w. w \<noteq> [] \<and> w \<noteq> ''.'') (split_on (CHR ''/'') p)) of
        [] \<Rightarrow> None
      | w # _ \<Rightarrow> if w = ''..'' then None else Some w)"

text \<open>
  \<open>slice::partition_point\<close>: on a slice partitioned by the predicate (all the elements that
  satisfy it first), the index of the first element that does not.
\<close>

definition partition_point :: "('a \<Rightarrow> bool) \<Rightarrow> 'a list \<Rightarrow> nat" where
  "partition_point P xs = length (takeWhile P xs)"

definition checked_sub :: "nat \<Rightarrow> nat \<Rightarrow> nat option" where
  "checked_sub a b = (if b \<le> a then Some (a - b) else None)"

lemma split_on_append:
  "split_on c (a @ c # b) = split_on c a @ split_on c b"
proof (induction a)
  case (Cons x xs)
  obtain w ws where "split_on c xs = w # ws"
    by (cases "split_on c xs") auto
  with Cons show ?case by simp
qed simp

lemma split_on_no_sep: "c \<notin> set s \<Longrightarrow> split_on c s = [s]"
  by (induction s) auto

text \<open>
  A name without a slash that is not a dot name is the file name of every path that ends in it.
\<close>

definition plain_name :: "string \<Rightarrow> bool" where
  "plain_name w \<longleftrightarrow> w \<noteq> [] \<and> w \<noteq> ''.'' \<and> w \<noteq> ''..'' \<and> CHR ''/'' \<notin> set w"

lemma path_file_name_plain: "plain_name w \<Longrightarrow> path_file_name w = Some w"
  by (simp add: path_file_name_def plain_name_def split_on_no_sep)

lemma path_file_name_append: "plain_name w \<Longrightarrow> path_file_name (d @ CHR ''/'' # w) = Some w"
  by (simp add: path_file_name_def plain_name_def split_on_append split_on_no_sep)

lemma partition_point_le: "partition_point P xs \<le> length xs"
  by (simp add: partition_point_def length_takeWhile_le)

lemma partition_point_sorted:
  assumes "sorted (map f xs)" and "i < length xs"
  shows "i < partition_point (\<lambda>x. f x \<le> k) xs \<longleftrightarrow> f (xs ! i) \<le> (k :: 'b::linorder)"
proof
  assume "i < partition_point (\<lambda>x. f x \<le> k) xs"
  then show "f (xs ! i) \<le> k"
    unfolding partition_point_def by (metis nth_mem set_takeWhileD takeWhile_nth)
next
  assume le: "f (xs ! i) \<le> k"
  show "i < partition_point (\<lambda>x. f x \<le> k) xs"
  proof (rule ccontr)
    assume "\<not> i < partition_point (\<lambda>x. f x \<le> k) xs"
    then have pi: "partition_point (\<lambda>x. f x \<le> k) xs \<le> i" by simp
    with assms(2) have "length (takeWhile (\<lambda>x. f x \<le> k) xs) < length xs"
      by (simp add: partition_point_def)
    then have "\<not> f (xs ! length (takeWhile (\<lambda>x. f x \<le> k) xs)) \<le> k"
      by (rule nth_length_takeWhile)
    moreover have "f (xs ! length (takeWhile (\<lambda>x. f x \<le> k) xs)) \<le> f (xs ! i)"
      using assms pi sorted_nth_mono [of "map f xs" "partition_point (\<lambda>x. f x \<le> k) xs" i]
      by (simp add: partition_point_def)
    ultimately show False using le by simp
  qed
qed

section \<open>Hexadecimal\<close>

text \<open>The lowercase hex form of a byte string, two digits to the byte.\<close>

definition hex_char :: "nat \<Rightarrow> char" where
  "hex_char n = char_of (if n < 10 then 48 + n else 87 + n)"

definition hex_byte :: "u8 \<Rightarrow> string" where
  "hex_byte b = [hex_char (unat b div 16), hex_char (unat b mod 16)]"

fun to_hex :: "bytes \<Rightarrow> string" where
  "to_hex [] = []"
| "to_hex (b # bs) = hex_byte b @ to_hex bs"

lemma of_char_hex_char: "n < 16 \<Longrightarrow> of_char (hex_char n) = (if n < 10 then 48 + n else 87 + n)"
  by (simp add: hex_char_def)

lemma digit_of_hex_char: "n < 16 \<Longrightarrow> digit_of 16 (hex_char n) = Some n"
  by (auto simp: digit_of_def of_char_hex_char Let_def)

lemma hex_char_not: "n < 16 \<Longrightarrow> of_char c < (48 :: nat) \<Longrightarrow> hex_char n \<noteq> c"
  using of_char_hex_char [of n] by (auto split: if_splits)

lemma unat_nibbles: "unat (b :: u8) div 16 < 16" "unat b mod 16 < 16"
  using unsigned_less [of b, where 'a = nat] by simp_all

lemma hex_byte_parse: "from_str_radix 16 256 (hex_byte b) = Some (unat b)"
proof -
  have "hex_char (unat b div 16) \<noteq> CHR ''+''" by (rule hex_char_not) (simp_all add: unat_nibbles)
  moreover have "unat b < 256" using unsigned_less [of b, where 'a = nat] by simp
  ultimately show ?thesis
    by (simp add: from_str_radix_def hex_byte_def digit_of_hex_char unat_nibbles Let_def)
qed

lemma hex_byte_inject: "hex_byte a = hex_byte b \<longleftrightarrow> a = b"
  using hex_byte_parse by (metis option.inject unsigned_word_eqI)

lemma length_to_hex [simp]: "length (to_hex bs) = 2 * length bs"
  by (induction bs) (simp_all add: hex_byte_def)

lemma to_hex_inject: "to_hex a = to_hex b \<longleftrightarrow> a = b"
proof (induction a arbitrary: b)
  case Nil
  then show ?case by (cases b) (simp_all add: hex_byte_def)
next
  case (Cons x xs)
  then show ?case
  proof (cases b)
    case (Cons y ys)
    have "length (hex_byte x) = length (hex_byte y)" by (simp add: hex_byte_def)
    then show ?thesis using Cons.IH [of ys] by (simp add: Cons hex_byte_inject)
  qed (simp add: hex_byte_def)
qed

lemma to_hex_chars: "c \<in> set (to_hex bs) \<Longrightarrow> \<exists>n < 16. c = hex_char n"
proof (induction bs)
  case (Cons b bs)
  have "\<exists>n < 16. hex_char (unat b div 16) = hex_char n" "\<exists>n < 16. hex_char (unat b mod 16) = hex_char n"
    using unat_nibbles by blast+
  with Cons show ?case by (auto simp: hex_byte_def)
qed simp

lemma to_hex_no_dot: "CHR ''.'' \<notin> set (to_hex bs)"
  using to_hex_chars hex_char_not [of _ "CHR ''.''"] by fastforce

lemma to_hex_ascii: "is_ascii (to_hex bs)"
proof -
  have "(of_char c :: nat) < 128" if c: "c \<in> set (to_hex bs)" for c
  proof -
    obtain n where "n < 16" "c = hex_char n" using to_hex_chars [OF c] by blast
    then show ?thesis using of_char_hex_char [of n] by (auto split: if_splits)
  qed
  then show ?thesis by (simp add: is_ascii_def list_all_iff)
qed

lemma to_hex_slice: "i < length bs \<Longrightarrow> take 2 (drop (2 * i) (to_hex bs)) = hex_byte (bs ! i)"
proof (induction bs arbitrary: i)
  case (Cons b bs)
  then show ?case by (cases i) (simp_all add: hex_byte_def numeral_2_eq_2)
qed simp

end
