(* ===== verification/Manifest_Types.thy ===== *)
theory Manifest_Types
  imports Rust_Std
begin

text \<open>
  The depot data model the whole program is about, and its error types.

  The manifest types belong to the \<open>steam_vent_depot\<close> crate, which is not part of the
  repository; their shape is the one \<open>manifest_cache.rs\<close> mirrors field by field.  The
  crate's accessor methods on a file (\<open>file_type\<close>, \<open>is_file\<close>, \<open>chunks\<close>,
  \<open>linktarget\<close>, \<open>executable\<close>) are the parameter \<open>depot_api\<close> of every definition that calls
  them; \<open>depot_api_ok\<close> is what their documentation says, and \<open>std_depot_api\<close> satisfies it.
\<close>

section \<open>Manifests\<close>

text \<open>\<open>ChunkHash([u8; 20])\<close> and \<open>FileHash([u8; 20])\<close>.\<close>

datatype chunk_hash = ChunkHash (hash_bytes: bytes)

datatype file_hash = FileHash bytes

record chunk =
  c_sha :: chunk_hash
  c_crc :: u32
  c_offset :: u64
  c_size_uncompressed :: u32
  c_size_compressed :: u32

datatype depot_file_kind =
    File file_hash bool "chunk list"  \<comment> \<open>sha, executable, chunks\<close>
  | Directory
  | Symlink string

record depot_file =
  f_path :: string
  f_size :: u64
  f_kind :: depot_file_kind

record manifest =
  m_depot_id :: u32
  m_manifest_id :: u64
  m_creation_time :: u32
  m_size_uncompressed :: u64
  m_size_compressed :: u64
  m_files :: "depot_file list"

datatype file_type = FtFile | FtDirectory | FtSymlink

record depot_api =
  api_file_type :: "depot_file \<Rightarrow> file_type"
  api_is_file :: "depot_file \<Rightarrow> bool"
  api_chunks :: "depot_file \<Rightarrow> chunk list"
  api_linktarget :: "depot_file \<Rightarrow> string option"
  api_executable :: "depot_file \<Rightarrow> bool"

definition depot_api_ok :: "depot_api \<Rightarrow> bool" where
  "depot_api_ok api \<longleftrightarrow>
     (\<forall>f. case f_kind f of
        File h x cs \<Rightarrow> api_file_type api f = FtFile \<and> api_is_file api f \<and> api_chunks api f = cs \<and>
          api_linktarget api f = None \<and> api_executable api f = x
      | Directory \<Rightarrow> api_file_type api f = FtDirectory \<and> \<not> api_is_file api f \<and>
          api_chunks api f = [] \<and> api_linktarget api f = None \<and> \<not> api_executable api f
      | Symlink t \<Rightarrow> api_file_type api f = FtSymlink \<and> \<not> api_is_file api f \<and>
          api_chunks api f = [] \<and> api_linktarget api f = Some t \<and> \<not> api_executable api f)"

definition std_depot_api :: depot_api where
  "std_depot_api = \<lparr>
     api_file_type = (\<lambda>f. case f_kind f of File _ _ _ \<Rightarrow> FtFile | Directory \<Rightarrow> FtDirectory
                                         | Symlink _ \<Rightarrow> FtSymlink),
     api_is_file = (\<lambda>f. case f_kind f of File _ _ _ \<Rightarrow> True | _ \<Rightarrow> False),
     api_chunks = (\<lambda>f. case f_kind f of File _ _ cs \<Rightarrow> cs | _ \<Rightarrow> []),
     api_linktarget = (\<lambda>f. case f_kind f of Symlink t \<Rightarrow> Some t | _ \<Rightarrow> None),
     api_executable = (\<lambda>f. case f_kind f of File _ x _ \<Rightarrow> x | _ \<Rightarrow> False) \<rparr>"

lemma std_depot_api_ok: "depot_api_ok std_depot_api"
  by (simp add: depot_api_ok_def std_depot_api_def split: depot_file_kind.split)

section \<open>Errors\<close>

text \<open>
  \<open>VfsError\<close> of \<open>error.rs\<close>, \<open>CacheError\<close> of \<open>manifest_cache.rs\<close>, and the
  \<open>std::io::Error\<close> values the program builds itself, one constructor for each place, with the
  values its message prints; \<open>OsError\<close> is an error of the operating system.  The three types
  refer to each other, so the first two are over the error that a boxed one carries.
\<close>

datatype io_kind = KNotFound | KInvalidInput | KInvalidData | KUnsupported | KOther | KOs string

datatype 'v io_error_of =
    OsError io_kind
  | PathNotFound string "string option"      \<comment> \<open>requested path, first missing component\<close>
  | NotRegularFile string
  | ReadPastEnd u64 u64                       \<comment> \<open>size, offset\<close>
  | ShortChunk chunk_hash string nat u32      \<comment> \<open>sha, path, bytes got, bytes promised\<close>
  | NoChunkCovers u64 string
  | SeekBeforeStart
  | NotDepotPath
  | SnapshotNotFound
  | OtherError 'v                             \<comment> \<open>\<open>std::io::Error::other\<close>\<close>

datatype 'v cache_error_of =
    CacheIo string "string list" "'v io_error_of"
  | CacheEncode

datatype vfs_error =
    VfsNotFound string
  | VfsNotAFile string
  | OutOfRange u64 u64
  | ChunkNotInManifest chunk_hash
  | VfsOther string
  | VfsDepot string
  | ServerDiscoveryError string
  | ConnectionError string
  | VfsManifestCache "vfs_error cache_error_of"
  | VfsIo "vfs_error io_error_of"

type_synonym io_error = "vfs_error io_error_of"
type_synonym cache_error = "vfs_error cache_error_of"

fun io_kind_of :: "io_error \<Rightarrow> io_kind" where
  "io_kind_of (OsError k) = k"
| "io_kind_of (PathNotFound _ _) = KNotFound"
| "io_kind_of (NotRegularFile _) = KInvalidInput"
| "io_kind_of (ReadPastEnd _ _) = KInvalidInput"
| "io_kind_of (ShortChunk _ _ _ _) = KOther"
| "io_kind_of (NoChunkCovers _ _) = KInvalidData"
| "io_kind_of SeekBeforeStart = KInvalidInput"
| "io_kind_of NotDepotPath = KNotFound"
| "io_kind_of SnapshotNotFound = KNotFound"
| "io_kind_of (OtherError _) = KOther"

end
