(* ===== verification/Rust_Fs.thy ===== *)
theory Rust_Fs
  imports Manifest_Types
begin

text \<open>
  The file system as \<open>std::fs\<close> and \<open>tokio::fs\<close> show it to one process: files by path, a path
  being its list of components, so that joining a name appends it.  Any operation may fail:
  \<open>fs_faults\<close> lists what befalls the next operations, \<open>None\<close> for "goes well" and
  \<open>Some (k, n)\<close> for an error of kind \<open>k\<close>, before which a write has put \<open>n\<close> bytes into the
  file.  Past the end of the list nothing fails.
\<close>

type_synonym path = "string list"

record fsys =
  fs_files :: "path \<rightharpoonup> bytes"
  fs_faults :: "(io_kind \<times> nat) option list"

definition next_fault :: "fsys \<Rightarrow> (io_kind \<times> nat) option \<times> fsys" where
  "next_fault fs =
     (case fs_faults fs of [] \<Rightarrow> (None, fs) | x # xs \<Rightarrow> (x, fs\<lparr>fs_faults := xs\<rparr>))"

definition fs_read :: "path \<Rightarrow> fsys \<Rightarrow> (io_error, bytes) outcome \<times> fsys" where
  "fs_read p fs =
     (case next_fault fs of
        (Some (k, _), fs') \<Rightarrow> (Err (OsError k), fs')
      | (None, fs') \<Rightarrow> (ok_or (fs_files fs' p) (OsError KNotFound), fs'))"

definition fs_try_exists :: "path \<Rightarrow> fsys \<Rightarrow> (io_error, bool) outcome \<times> fsys" where
  "fs_try_exists p fs =
     (case next_fault fs of
        (Some (k, _), fs') \<Rightarrow> (Err (OsError k), fs')
      | (None, fs') \<Rightarrow> (Ok (fs_files fs' p \<noteq> None), fs'))"

definition fs_remove_file :: "path \<Rightarrow> fsys \<Rightarrow> (io_error, unit) outcome \<times> fsys" where
  "fs_remove_file p fs =
     (case next_fault fs of
        (Some (k, _), fs') \<Rightarrow> (Err (OsError k), fs')
      | (None, fs') \<Rightarrow>
          (case fs_files fs' p of
             None \<Rightarrow> (Err (OsError KNotFound), fs')
           | Some _ \<Rightarrow> (Ok (), fs'\<lparr>fs_files := (fs_files fs')(p := None)\<rparr>)))"

text \<open>\<open>File::create\<close> truncates; \<open>write_all\<close> appends to the file just created.\<close>

definition fs_create :: "path \<Rightarrow> fsys \<Rightarrow> (io_error, unit) outcome \<times> fsys" where
  "fs_create p fs =
     (case next_fault fs of
        (Some (k, _), fs') \<Rightarrow> (Err (OsError k), fs')
      | (None, fs') \<Rightarrow> (Ok (), fs'\<lparr>fs_files := (fs_files fs')(p \<mapsto> [])\<rparr>))"

definition fs_write_all :: "path \<Rightarrow> bytes \<Rightarrow> fsys \<Rightarrow> (io_error, unit) outcome \<times> fsys" where
  "fs_write_all p data fs =
     (case next_fault fs of
        (Some (k, n), fs') \<Rightarrow>
          (Err (OsError k), fs'\<lparr>fs_files := (fs_files fs')(p \<mapsto> take n data)\<rparr>)
      | (None, fs') \<Rightarrow> (Ok (), fs'\<lparr>fs_files := (fs_files fs')(p \<mapsto> data)\<rparr>))"

definition fs_rename :: "path \<Rightarrow> path \<Rightarrow> fsys \<Rightarrow> (io_error, unit) outcome \<times> fsys" where
  "fs_rename src dst fs =
     (case next_fault fs of
        (Some (k, _), fs') \<Rightarrow> (Err (OsError k), fs')
      | (None, fs') \<Rightarrow>
          (case fs_files fs' src of
             None \<Rightarrow> (Err (OsError KNotFound), fs')
           | Some b \<Rightarrow> (Ok (), fs'\<lparr>fs_files := (fs_files fs')(src := None, dst \<mapsto> b)\<rparr>)))"

text \<open>\<open>create_dir_all\<close> makes no file; \<open>fs::write\<close> is \<open>create\<close> and \<open>write_all\<close> in one call.\<close>

definition fs_create_dir_all :: "path \<Rightarrow> fsys \<Rightarrow> (io_error, unit) outcome \<times> fsys" where
  "fs_create_dir_all p fs =
     (case next_fault fs of
        (Some (k, _), fs') \<Rightarrow> (Err (OsError k), fs')
      | (None, fs') \<Rightarrow> (Ok (), fs'))"

definition fs_write :: "path \<Rightarrow> bytes \<Rightarrow> fsys \<Rightarrow> (io_error, unit) outcome \<times> fsys" where
  "fs_write p data fs =
     (case fs_create p fs of
        (Ok _, fs1) \<Rightarrow> fs_write_all p data fs1
      | (Err e, fs1) \<Rightarrow> (Err e, fs1)
      | (Panic, fs1) \<Rightarrow> (Panic, fs1))"

text \<open>\<open>Path::with_extension\<close>: what follows the last dot of the file name, unless it leads it, is replaced.\<close>

definition file_stem :: "string \<Rightarrow> string" where
  "file_stem name =
     (case str_rfind (CHR ''.'') name of
        None \<Rightarrow> name
      | Some i \<Rightarrow> if i = 0 then name else take i name)"

definition with_extension :: "path \<Rightarrow> string \<Rightarrow> path" where
  "with_extension p ext =
     (if p = [] then [] else butlast p @ [file_stem (last p) @ ''.'' @ ext])"

named_theorems fs_defs
lemmas fs_op_defs [fs_defs] =
  next_fault_def fs_read_def fs_try_exists_def fs_remove_file_def fs_create_def
  fs_write_all_def fs_rename_def

lemma next_fault_files [simp]: "next_fault fs = (x, fs') \<Longrightarrow> fs_files fs' = fs_files fs"
  by (auto simp: next_fault_def split: list.splits)

lemma next_fault_quiet: "fs_faults fs = [] \<Longrightarrow> next_fault fs = (None, fs)"
  by (simp add: next_fault_def)

text \<open>Reads and existence checks leave the files alone.\<close>

lemma fs_read_files: "fs_read p fs = (r, fs') \<Longrightarrow> fs_files fs' = fs_files fs"
  by (auto simp: fs_read_def split: prod.splits option.splits)

lemma fs_read_Ok: "fs_read p fs = (Ok b, fs') \<Longrightarrow> fs_files fs p = Some b"
  by (auto simp: fs_read_def split: prod.splits option.splits)

lemma fs_read_no_panic: "fs_read p fs \<noteq> (Panic, fs')"
  by (auto simp: fs_read_def split: prod.splits option.splits)

lemma fs_try_exists_files: "fs_try_exists p fs = (r, fs') \<Longrightarrow> fs_files fs' = fs_files fs"
  by (auto simp: fs_try_exists_def split: prod.splits option.splits)

lemma fs_remove_files:
  "fs_remove_file p fs = (r, fs') \<Longrightarrow> fs_files fs' = fs_files fs \<or> fs_files fs' = (fs_files fs)(p := None)"
  by (auto simp: fs_remove_file_def split: prod.splits option.splits)

lemma fs_create_files:
  assumes "fs_create p fs = (r, fs')"
  shows "q \<noteq> p \<Longrightarrow> fs_files fs' q = fs_files fs q" and "r \<noteq> Panic"
  using assms by (auto simp: fs_create_def split: prod.splits option.splits)

lemma fs_write_all_files:
  assumes "fs_write_all p d fs = (r, fs')"
  shows "q \<noteq> p \<Longrightarrow> fs_files fs' q = fs_files fs q" and "r \<noteq> Panic"
    and "r = Ok u \<Longrightarrow> fs_files fs' p = Some d"
  using assms by (auto simp: fs_write_all_def split: prod.splits option.splits)

lemma fs_rename_files:
  assumes "fs_rename s d fs = (r, fs')"
  shows "r \<noteq> Panic" and "r = Ok u \<Longrightarrow> fs_files fs' = (fs_files fs)(s := None, d := fs_files fs s)"
    and "r = Err e \<Longrightarrow> fs_files fs' = fs_files fs"
  using assms by (auto simp: fs_rename_def split: prod.splits option.splits)

lemma fs_create_dir_all_files:
  assumes "fs_create_dir_all p fs = (r, fs')"
  shows "fs_files fs' = fs_files fs" and "r \<noteq> Panic"
  using assms by (auto simp: fs_create_dir_all_def split: prod.splits option.splits)

lemma fs_write_files:
  assumes "fs_write p d fs = (r, fs')"
  shows "q \<noteq> p \<Longrightarrow> fs_files fs' q = fs_files fs q" and "r \<noteq> Panic"
    and "r = Ok u \<Longrightarrow> fs_files fs' p = Some d"
  using assms fs_create_files [of p fs] fs_write_all_files [of p d]
  by (auto simp: fs_write_def split: prod.splits outcome.splits)

end
