(* ===== verification/Manifest_Cache.thy ===== *)
theory Manifest_Cache
  imports Rust_Fs
begin

text \<open>
  \<open>manifest_cache.rs\<close>: the mirror types a manifest is stored in, the conversions, and the cache
  itself, run by one caller; the lock that keeps two callers of one key apart is the subject of
  theory \<open>Single_Flight\<close>.  The \<open>postcard\<close> encoding is the parameter \<open>postcard\<close>, of which
  only the round trip is used.
\<close>

section \<open>The mirror types\<close>

record cached_chunk =
  cc_sha :: bytes
  cc_crc :: u32
  cc_offset :: u64
  cc_size_uncompressed :: u32
  cc_size_compressed :: u32

datatype cached_file_kind =
    CFile bytes bool "cached_chunk list"
  | CDirectory
  | CSymlink string

record cached_file =
  cf_path :: string
  cf_size :: u64
  cf_kind :: cached_file_kind

record cached_manifest =
  cm_depot_id :: u32
  cm_manifest_id :: u64
  cm_creation_time :: u32
  cm_size_uncompressed :: u64
  cm_size_compressed :: u64
  cm_files :: "cached_file list"

definition cached_of_chunk :: "chunk \<Rightarrow> cached_chunk" where
  "cached_of_chunk c =
     \<lparr>cc_sha = hash_bytes (c_sha c), cc_crc = c_crc c, cc_offset = c_offset c,
      cc_size_uncompressed = c_size_uncompressed c, cc_size_compressed = c_size_compressed c\<rparr>"

definition chunk_of_cached :: "cached_chunk \<Rightarrow> chunk" where
  "chunk_of_cached c =
     \<lparr>c_sha = ChunkHash (cc_sha c), c_crc = cc_crc c, c_offset = cc_offset c,
      c_size_uncompressed = cc_size_uncompressed c, c_size_compressed = cc_size_compressed c\<rparr>"

fun cached_of_kind :: "depot_file_kind \<Rightarrow> cached_file_kind" where
  "cached_of_kind (File (FileHash sha) executable chunks) =
     CFile sha executable (map cached_of_chunk chunks)"
| "cached_of_kind Directory = CDirectory"
| "cached_of_kind (Symlink target) = CSymlink target"

fun kind_of_cached :: "cached_file_kind \<Rightarrow> depot_file_kind" where
  "kind_of_cached (CFile sha executable chunks) =
     File (FileHash sha) executable (map chunk_of_cached chunks)"
| "kind_of_cached CDirectory = Directory"
| "kind_of_cached (CSymlink target) = Symlink target"

definition cached_of_file :: "depot_file \<Rightarrow> cached_file" where
  "cached_of_file f =
     \<lparr>cf_path = f_path f, cf_size = f_size f, cf_kind = cached_of_kind (f_kind f)\<rparr>"

definition file_of_cached :: "cached_file \<Rightarrow> depot_file" where
  "file_of_cached c =
     \<lparr>f_path = cf_path c, f_size = cf_size c, f_kind = kind_of_cached (cf_kind c)\<rparr>"

definition cached_of_manifest :: "manifest \<Rightarrow> cached_manifest" where
  "cached_of_manifest m =
     \<lparr>cm_depot_id = m_depot_id m, cm_manifest_id = m_manifest_id m,
      cm_creation_time = m_creation_time m, cm_size_uncompressed = m_size_uncompressed m,
      cm_size_compressed = m_size_compressed m, cm_files = map cached_of_file (m_files m)\<rparr>"

definition manifest_of_cached :: "cached_manifest \<Rightarrow> manifest" where
  "manifest_of_cached c =
     \<lparr>m_depot_id = cm_depot_id c, m_manifest_id = cm_manifest_id c,
      m_creation_time = cm_creation_time c, m_size_uncompressed = cm_size_uncompressed c,
      m_size_compressed = cm_size_compressed c, m_files = map file_of_cached (cm_files c)\<rparr>"

lemma chunk_cached [simp]: "chunk_of_cached (cached_of_chunk c) = c" "cached_of_chunk (chunk_of_cached d) = d"
  by (simp_all add: chunk_of_cached_def cached_of_chunk_def)

lemma chunks_cached [simp]: "chunk_of_cached \<circ> cached_of_chunk = id" "cached_of_chunk \<circ> chunk_of_cached = id"
  by (simp_all add: fun_eq_iff)

lemma kind_cached [simp]: "kind_of_cached (cached_of_kind k) = k"
  by (induction k rule: cached_of_kind.induct) (simp_all add: comp_def)

lemma cached_kind [simp]: "cached_of_kind (kind_of_cached c) = c"
  by (cases c) (simp_all add: comp_def)

lemma file_cached [simp]: "file_of_cached (cached_of_file f) = f" "cached_of_file (file_of_cached c) = c"
  by (simp_all add: file_of_cached_def cached_of_file_def)

section \<open>The cache\<close>

record postcard =
  pc_encode :: "cached_manifest \<Rightarrow> bytes option"
  pc_decode :: "bytes \<Rightarrow> cached_manifest option"

definition postcard_ok :: "postcard \<Rightarrow> bool" where
  "postcard_ok pc \<longleftrightarrow> (\<forall>c b. pc_encode pc c = Some b \<longrightarrow> pc_decode pc b = Some c)"

type_synonym manifest_key = "u32 \<times> u32 \<times> u64"

record manifest_cache =
  mc_root :: path
  mc_pid :: nat

record 'w manifest_world =
  mcw_fs :: fsys
  mcw_in_flight :: "manifest_key list"
  mcw_net :: 'w

definition manifest_cache_new :: "path \<Rightarrow> nat \<Rightarrow> manifest_cache" where
  "manifest_cache_new root pid = \<lparr>mc_root = root, mc_pid = pid\<rparr>"

definition manifest_path :: "manifest_cache \<Rightarrow> manifest_key \<Rightarrow> path" where
  "manifest_path mc key =
     (case key of (app_id, depot_id, manifest_id) \<Rightarrow>
        mc_root mc @ [to_dec app_id, to_dec depot_id, to_dec manifest_id @ ''.postcard''])"

definition manifest_load ::
  "postcard \<Rightarrow> manifest_cache \<Rightarrow> manifest_key \<Rightarrow> fsys \<Rightarrow> (cache_error, manifest option) outcome \<times> fsys" where
  "manifest_load pc mc key fs =
     (let p = manifest_path mc key in
      case fs_read p fs of
        (Ok bs, fs1) \<Rightarrow>
          (case pc_decode pc bs of
             Some c \<Rightarrow> (Ok (Some (manifest_of_cached c)), fs1)
           | None \<Rightarrow>
               (case fs_remove_file p fs1 of
                  (Err e, fs2) \<Rightarrow> (Err (CacheIo ''removing'' p e), fs2)
                | (Panic, fs2) \<Rightarrow> (Panic, fs2)
                | (Ok _, fs2) \<Rightarrow> (Ok None, fs2)))
      | (Err e, fs1) \<Rightarrow>
          (if io_kind_of e = KNotFound then (Ok None, fs1)
           else (Err (CacheIo ''reading'' p e), fs1))
      | (Panic, fs1) \<Rightarrow> (Panic, fs1))"

definition manifest_save ::
  "postcard \<Rightarrow> manifest_cache \<Rightarrow> u32 \<Rightarrow> manifest \<Rightarrow> fsys \<Rightarrow> (cache_error, unit) outcome \<times> fsys" where
  "manifest_save pc mc app_id m fs =
     (let p = manifest_path mc (app_id, m_depot_id m, m_manifest_id m);
          tmp = with_extension p (''tmp.'' @ dec_digits (mc_pid mc))
      in case fs_create_dir_all (butlast p) fs of
           (Err e, fs1) \<Rightarrow> (Err (CacheIo ''creating'' (butlast p) e), fs1)
         | (Panic, fs1) \<Rightarrow> (Panic, fs1)
         | (Ok _, fs1) \<Rightarrow>
             (case pc_encode pc (cached_of_manifest m) of
                None \<Rightarrow> (Err CacheEncode, fs1)
              | Some bs \<Rightarrow>
                  (case fs_write tmp bs fs1 of
                     (Err e, fs2) \<Rightarrow> (Err (CacheIo ''writing'' tmp e), fs2)
                   | (Panic, fs2) \<Rightarrow> (Panic, fs2)
                   | (Ok _, fs2) \<Rightarrow>
                       (case fs_rename tmp p fs2 of (r, fs3) \<Rightarrow>
                          (omap_err (CacheIo ''renaming to'' p) r, fs3)))))"

text \<open>
  \<open>get_or_fetch\<close> run by one caller.  The key's entry in the in-flight table is made on the way
  to the lock and dropped only after a successful save.
\<close>

definition get_or_fetch ::
  "postcard \<Rightarrow> manifest_cache \<Rightarrow> manifest_key \<Rightarrow>
     ('w \<Rightarrow> (vfs_error, manifest) outcome \<times> 'w) \<Rightarrow> 'w manifest_world \<Rightarrow>
     (vfs_error, manifest) outcome \<times> 'w manifest_world" where
  "get_or_fetch pc mc key fetch w =
     (case manifest_load pc mc key (mcw_fs w) of
        (Err e, fs1) \<Rightarrow> (Err (VfsManifestCache e), w\<lparr>mcw_fs := fs1\<rparr>)
      | (Panic, fs1) \<Rightarrow> (Panic, w\<lparr>mcw_fs := fs1\<rparr>)
      | (Ok (Some m), fs1) \<Rightarrow> (Ok m, w\<lparr>mcw_fs := fs1\<rparr>)
      | (Ok None, fs1) \<Rightarrow>
          (let w1 = w\<lparr>mcw_fs := fs1, mcw_in_flight := List.insert key (mcw_in_flight w)\<rparr> in
           case manifest_load pc mc key (mcw_fs w1) of
             (Err e, fs2) \<Rightarrow> (Err (VfsManifestCache e), w1\<lparr>mcw_fs := fs2\<rparr>)
           | (Panic, fs2) \<Rightarrow> (Panic, w1\<lparr>mcw_fs := fs2\<rparr>)
           | (Ok (Some m), fs2) \<Rightarrow> (Ok m, w1\<lparr>mcw_fs := fs2\<rparr>)
           | (Ok None, fs2) \<Rightarrow>
               (case fetch (mcw_net w1) of
                  (Err e, n) \<Rightarrow> (Err e, w1\<lparr>mcw_fs := fs2, mcw_net := n\<rparr>)
                | (Panic, n) \<Rightarrow> (Panic, w1\<lparr>mcw_fs := fs2, mcw_net := n\<rparr>)
                | (Ok m, n) \<Rightarrow>
                    (case manifest_save pc mc (fst key) m fs2 of
                       (Err e, fs3) \<Rightarrow> (Err (VfsManifestCache e), w1\<lparr>mcw_fs := fs3, mcw_net := n\<rparr>)
                     | (Panic, fs3) \<Rightarrow> (Panic, w1\<lparr>mcw_fs := fs3, mcw_net := n\<rparr>)
                     | (Ok _, fs3) \<Rightarrow>
                         (Ok m, w1\<lparr>mcw_fs := fs3, mcw_net := n,
                                  mcw_in_flight := removeAll key (mcw_in_flight w1)\<rparr>)))))"

section \<open>Paths\<close>

lemma manifest_path_inject: "manifest_path mc k = manifest_path mc k' \<longleftrightarrow> k = k'"
  by (cases k; cases k') (auto simp: manifest_path_def to_dec_inject_u32 to_dec_inject_u64)

lemma file_stem_ext: "CHR ''.'' \<notin> set e \<Longrightarrow> s \<noteq> [] \<Longrightarrow> file_stem (s @ ''.'' @ e) = s"
  using str_rfind_append [of "CHR ''.''" e s] by (simp add: file_stem_def)

lemma manifest_tmp:
  "with_extension (manifest_path mc (a, d, g)) x = mc_root mc @ [to_dec a, to_dec d, to_dec g @ ''.'' @ x]"
  using file_stem_ext [of "''postcard''" "to_dec g"]
  by (simp add: with_extension_def manifest_path_def butlast_append)

lemma tmp_not_manifest: "with_extension (manifest_path mc k) (''tmp.'' @ x) \<noteq> manifest_path mc k'"
proof
  obtain a d g where k: "k = (a, d, g)" by (cases k)
  obtain a' d' g' where k': "k' = (a', d', g')" by (cases k')
  assume "with_extension (manifest_path mc k) (''tmp.'' @ x) = manifest_path mc k'"
  then have "to_dec g @ CHR ''.'' # ''tmp.'' @ x = to_dec g' @ CHR ''.'' # ''postcard''"
    by (simp add: k k' manifest_tmp) (simp add: manifest_path_def)
  then have "''tmp.'' @ x = ''postcard''"
    using append_Cons_eq_iff [of "CHR ''.''" "to_dec g'" "''postcard''" "to_dec g" "''tmp.'' @ x"]
      to_dec_no_dot [of g'] by simp
  then show False by simp
qed

section \<open>What the cache holds\<close>

text \<open>
  Relative to the manifests the service has for each key: every cached file that decodes is the
  manifest of its key.
\<close>

definition manifests_inv ::
  "postcard \<Rightarrow> manifest_cache \<Rightarrow> (manifest_key \<Rightarrow> manifest) \<Rightarrow> fsys \<Rightarrow> bool" where
  "manifests_inv pc mc truth fs \<longleftrightarrow>
     (\<forall>key bs c. fs_files fs (manifest_path mc key) = Some bs \<and> pc_decode pc bs = Some c \<longrightarrow>
        manifest_of_cached c = truth key)"

definition fetch_ok :: "(manifest_key \<Rightarrow> manifest) \<Rightarrow> manifest_key \<Rightarrow> ('w \<Rightarrow> (vfs_error, manifest) outcome \<times> 'w) \<Rightarrow> bool" where
  "fetch_ok truth key fetch \<longleftrightarrow>
     (\<forall>n r n'. fetch n = (r, n') \<longrightarrow> r \<noteq> Panic \<and>
        (\<forall>m. r = Ok m \<longrightarrow> m = truth key \<and> snd key = (m_depot_id m, m_manifest_id m)))"

lemma manifests_inv_files:
  assumes "manifests_inv pc mc truth fs"
    and "\<And>k. fs_files fs' (manifest_path mc k) = fs_files fs (manifest_path mc k) \<or>
      fs_files fs' (manifest_path mc k) = None"
  shows "manifests_inv pc mc truth fs'"
  using assms unfolding manifests_inv_def by (metis option.distinct(1))

lemma manifest_load_sound:
  assumes l: "manifest_load pc mc key fs = (r, fs')" and inv: "manifests_inv pc mc truth fs"
  shows "manifests_inv pc mc truth fs'" and "r \<noteq> Panic" and "r = Ok (Some m) \<Longrightarrow> m = truth key"
proof -
  let ?p = "manifest_path mc key"
  obtain g fs1 where g: "fs_read ?p fs = (g, fs1)" by fastforce
  have f1: "fs_files fs1 = fs_files fs" using fs_read_files [OF g] .
  have inv1: "manifests_inv pc mc truth fs1" using inv f1 by (simp add: manifests_inv_def)
  obtain q fs2 where q: "fs_remove_file ?p fs1 = (q, fs2)" by fastforce
  have inv2: "manifests_inv pc mc truth fs2"
    using fs_remove_files [OF q] by (intro manifests_inv_files [OF inv1]) (auto split: if_splits)
  have qp: "q \<noteq> Panic" using q by (auto simp: fs_remove_file_def split: prod.splits option.splits)
  have "manifests_inv pc mc truth fs' \<and> r \<noteq> Panic \<and> (\<forall>m. r = Ok (Some m) \<longrightarrow> m = truth key)"
  proof (cases g)
    case (Ok bs)
    then have b: "fs_files fs ?p = Some bs" using g fs_read_Ok by blast
    show ?thesis
    proof (cases "pc_decode pc bs")
      case None
      then show ?thesis using l g Ok q inv2 qp
        by (cases q) (auto simp: manifest_load_def Let_def)
    next
      case (Some c)
      then have "manifest_of_cached c = truth key" using inv b unfolding manifests_inv_def by blast
      then show ?thesis using l g Ok Some inv1 by (auto simp: manifest_load_def Let_def)
    qed
  next
    case (Err e)
    then show ?thesis using l g inv1 by (auto simp: manifest_load_def Let_def split: if_splits)
  qed (use g fs_read_no_panic in metis)
  then show "manifests_inv pc mc truth fs'" "r \<noteq> Panic" "r = Ok (Some m) \<Longrightarrow> m = truth key" by auto
qed

lemma manifest_save_sound:
  assumes s: "manifest_save pc mc a m fs = (r, fs')" and inv: "manifests_inv pc mc truth fs"
    and pc: "postcard_ok pc" and m: "m = truth (a, m_depot_id m, m_manifest_id m)"
  shows "manifests_inv pc mc truth fs'" and "r \<noteq> Panic"
    and "r = Ok u \<Longrightarrow> \<exists>bs. fs_files fs' (manifest_path mc (a, m_depot_id m, m_manifest_id m)) = Some bs \<and>
      pc_decode pc bs = Some (cached_of_manifest m)"
proof -
  let ?k = "(a, m_depot_id m, m_manifest_id m)"
  let ?p = "manifest_path mc ?k"
  let ?t = "with_extension ?p (''tmp.'' @ dec_digits (mc_pid mc))"
  have nt: "manifest_path mc k \<noteq> ?t" for k using tmp_not_manifest by metis
  obtain q1 fs1 where c1: "fs_create_dir_all (butlast ?p) fs = (q1, fs1)" by fastforce
  note c1' = fs_create_dir_all_files [OF c1]
  have i1: "manifests_inv pc mc truth fs1" using inv c1'(1) by (simp add: manifests_inv_def)
  have "manifests_inv pc mc truth fs' \<and> r \<noteq> Panic \<and> (r = Ok () \<longrightarrow> (\<exists>bs. fs_files fs' ?p = Some bs \<and>
      pc_decode pc bs = Some (cached_of_manifest m)))"
  proof (cases "\<exists>bs. q1 = Ok () \<and> pc_encode pc (cached_of_manifest m) = Some bs")
    case False
    then show ?thesis using s c1 c1'(2) i1
      by (cases q1) (auto simp: manifest_save_def Let_def split: option.splits)
  next
    case True
    then obtain bs where bs: "q1 = Ok ()" "pc_encode pc (cached_of_manifest m) = Some bs" by blast
    then have dec: "pc_decode pc bs = Some (cached_of_manifest m)" using pc by (simp add: postcard_ok_def)
    obtain q2 fs2 where c2: "fs_write ?t bs fs1 = (q2, fs2)" by fastforce
    note c2' = fs_write_files [OF c2]
    have f2: "fs_files fs2 (manifest_path mc k) = fs_files fs1 (manifest_path mc k)" for k
      using c2'(1) nt by blast
    have i2: "manifests_inv pc mc truth fs2" using i1 f2 by (simp add: manifests_inv_def)
    obtain q3 fs3 where c3: "fs_rename ?t ?p fs2 = (q3, fs3)" by fastforce
    note c3' = fs_rename_files [OF c3]
    show ?thesis
    proof (cases "q2 = Ok () \<and> q3 = Ok ()")
      case False
      then show ?thesis using s c1 bs c2 c2'(2) c3 c3'(1,3) i2
        by (cases q2; cases q3) (auto simp: manifest_save_def Let_def manifests_inv_def)
    next
      case True
      then have f3: "fs_files fs3 = (fs_files fs2)(?t := None, ?p := Some bs)"
        using c3'(2) c2'(3) by auto
      have "manifests_inv pc mc truth fs3"
        unfolding manifests_inv_def
      proof (intro allI impI)
        fix key x c assume a: "fs_files fs3 (manifest_path mc key) = Some x \<and> pc_decode pc x = Some c"
        show "manifest_of_cached c = truth key"
        proof (cases "key = ?k")
          case True
          then have "c = cached_of_manifest m" using a f3 dec by simp
          moreover have "manifest_of_cached (cached_of_manifest m) = m"
            by (simp add: manifest_of_cached_def cached_of_manifest_def comp_def)
          ultimately show ?thesis using m True by simp
        next
          case False
          then have "fs_files fs2 (manifest_path mc key) = Some x"
            using a f3 nt manifest_path_inject by (auto split: if_splits)
          then show ?thesis using i2 a unfolding manifests_inv_def by blast
        qed
      qed
      then show ?thesis using s c1 bs c2 c3 True f3 dec by (auto simp: manifest_save_def Let_def)
    qed
  qed
  then show "manifests_inv pc mc truth fs'" "r \<noteq> Panic"
    "r = Ok u \<Longrightarrow> \<exists>bs. fs_files fs' ?p = Some bs \<and> pc_decode pc bs = Some (cached_of_manifest m)" by auto
qed

lemma manifest_save_writes:
  assumes s: "manifest_save pc mc a m fs = (r, fs')" and "r = Ok ()" and pc: "postcard_ok pc"
  shows "\<exists>bs. fs_files fs' (manifest_path mc (a, m_depot_id m, m_manifest_id m)) = Some bs \<and>
      pc_decode pc bs = Some (cached_of_manifest m)"
proof -
  let ?p = "manifest_path mc (a, m_depot_id m, m_manifest_id m)"
  let ?t = "with_extension ?p (''tmp.'' @ dec_digits (mc_pid mc))"
  obtain q1 fs1 where c1: "fs_create_dir_all (butlast ?p) fs = (q1, fs1)" by fastforce
  then obtain bs where bs: "q1 = Ok ()" "pc_encode pc (cached_of_manifest m) = Some bs"
    using s assms(2) by (cases q1) (auto simp: manifest_save_def Let_def split: option.splits)
  obtain q2 fs2 where c2: "fs_write ?t bs fs1 = (q2, fs2)" by fastforce
  then have q2: "q2 = Ok ()" using s c1 bs assms(2) by (cases q2) (auto simp: manifest_save_def Let_def)
  obtain q3 fs3 where c3: "fs_rename ?t ?p fs2 = (q3, fs3)" by fastforce
  then have q3: "q3 = Ok ()" "fs' = fs3"
    using s c1 bs c2 q2 assms(2) by (auto simp: manifest_save_def Let_def)
  have "fs_files fs' ?p = Some bs"
    using fs_rename_files(2) [OF c3 q3(1)] fs_write_files(3) [OF c2 q2] q3(2) by simp
  then show ?thesis using bs pc by (auto simp: postcard_ok_def)
qed

section \<open>Properties of the manifest cache\<close>

text \<open>
  A manifest survives the cache's mirror types: converting to the stored form and back is
  the identity, in both directions.
\<close>

theorem mirror_roundtrip:
  "manifest_of_cached (cached_of_manifest m) = m \<and> cached_of_manifest (manifest_of_cached c) = c"
  by (simp add: manifest_of_cached_def cached_of_manifest_def comp_def)

text \<open>
  \<open>get_or_fetch\<close> returns only the manifest of the key asked for.  If the service keeps its
  manifests immutable and answers with the right ids, then whatever fails on the disk, a result
  is the manifest of the key and every file the cache holds remains that of its key.
\<close>

theorem get_or_fetch_sound:
  assumes "get_or_fetch pc mc key fetch w = (r, w')" and "postcard_ok pc"
    and "manifests_inv pc mc truth (mcw_fs w)" and "fetch_ok truth key fetch"
  shows "manifests_inv pc mc truth (mcw_fs w') \<and> r \<noteq> Panic \<and> (\<forall>m. r = Ok m \<longrightarrow> m = truth key)"
proof -
  obtain g1 fs1 where g1: "manifest_load pc mc key (mcw_fs w) = (g1, fs1)" by fastforce
  note l1 = manifest_load_sound [OF g1 assms(3)]
  obtain g2 fs2 where g2: "manifest_load pc mc key fs1 = (g2, fs2)" by fastforce
  note l2 = manifest_load_sound [OF g2 l1(1)]
  obtain f n where f: "fetch (mcw_net w) = (f, n)" by fastforce
  have fo: "f \<noteq> Panic" "\<And>m. f = Ok m \<Longrightarrow> m = truth key \<and> snd key = (m_depot_id m, m_manifest_id m)"
    using assms(4) f unfolding fetch_ok_def by blast+
  consider (hit) "g1 \<noteq> Ok None" | (hit2) "g1 = Ok None" "g2 \<noteq> Ok None"
    | (no) "g1 = Ok None" "g2 = Ok None" "\<And>m. f \<noteq> Ok m"
    | (yes) m where "g1 = Ok None" "g2 = Ok None" "f = Ok m" by blast
  then show ?thesis
  proof cases
    case hit
    then show ?thesis using assms(1) g1 l1
      by (cases g1) (auto simp: get_or_fetch_def split: option.splits)
  next
    case hit2
    then show ?thesis using assms(1) g1 g2 l2
      by (cases g2) (auto simp: get_or_fetch_def Let_def split: option.splits)
  next
    case no
    then show ?thesis using assms(1) g1 g2 l2(1) f fo(1)
      by (cases f) (auto simp: get_or_fetch_def Let_def)
  next
    case yes
    obtain q fs3 where q: "manifest_save pc mc (fst key) m fs2 = (q, fs3)" by fastforce
    have key: "key = (fst key, m_depot_id m, m_manifest_id m)" using fo(2) [OF yes(3)] by (metis prod.collapse)
    then have "m = truth (fst key, m_depot_id m, m_manifest_id m)" using fo(2) [OF yes(3)] by metis
    note s = manifest_save_sound [OF q l2(1) assms(2) this]
    show ?thesis using assms(1) g1 g2 f yes q s(1,2) fo(2) [OF yes(3)]
      by (cases q) (auto simp: get_or_fetch_def Let_def)
  qed
qed

text \<open>
  A manifest is fetched once: after \<open>get_or_fetch\<close> has fetched and saved one on a working
  disk, any later call for the key returns the same manifest from the cache and leaves the
  network alone.
\<close>

theorem fetched_manifest_is_cached:
  assumes "get_or_fetch pc mc (a, m_depot_id m, m_manifest_id m) fetch w = (Ok m, w')" and "postcard_ok pc"
    and "fs_faults (mcw_fs w') = []"
    and "manifest_load pc mc (a, m_depot_id m, m_manifest_id m) (mcw_fs w) = (Ok None, fs1)"
    and "manifest_load pc mc (a, m_depot_id m, m_manifest_id m) fs1 = (Ok None, fs2)"
    and "mcw_fs w'' = mcw_fs w'"
  shows "get_or_fetch pc mc (a, m_depot_id m, m_manifest_id m) fetch' w'' = (Ok m, w'')"
proof -
  let ?k = "(a, m_depot_id m, m_manifest_id m)"
  obtain f n where f: "fetch (mcw_net w) = (f, n)" by fastforce
  obtain q fs3 where fm: "f = Ok m" and q: "manifest_save pc mc a m fs2 = (q, fs3)" "q = Ok ()" "mcw_fs w' = fs3"
    using assms(1,4,5) f
    by (auto simp: get_or_fetch_def Let_def split: prod.splits outcome.splits)
  have "\<exists>bs. fs_files fs3 (manifest_path mc ?k) = Some bs \<and> pc_decode pc bs = Some (cached_of_manifest m)"
    using manifest_save_writes [OF q(1) q(2) assms(2)] .
  then obtain bs where bs: "fs_files fs3 (manifest_path mc ?k) = Some bs"
    "pc_decode pc bs = Some (cached_of_manifest m)" by blast
  have "manifest_of_cached (cached_of_manifest m) = m"
    by (simp add: manifest_of_cached_def cached_of_manifest_def comp_def)
  then have "manifest_load pc mc ?k fs3 = (Ok (Some m), fs3)"
    using bs assms(3) q(3) by (simp add: manifest_load_def fs_read_def next_fault_quiet Let_def)
  then show ?thesis using assms(6) q(3) by (simp add: get_or_fetch_def)
qed

section \<open>A small instance\<close>

definition demo_cached :: cached_manifest where
  "demo_cached = \<lparr>cm_depot_id = 2, cm_manifest_id = 3, cm_creation_time = 4,
     cm_size_uncompressed = 0, cm_size_compressed = 0, cm_files = []\<rparr>"

definition demo_postcard :: postcard where
  "demo_postcard = \<lparr>pc_encode = (\<lambda>c. if c = demo_cached then Some [1] else None),
     pc_decode = (\<lambda>b. if b = [1] then Some demo_cached else None)\<rparr>"

definition demo_fetch :: "nat \<Rightarrow> (vfs_error, manifest) outcome \<times> nat" where
  "demo_fetch n = (Ok (manifest_of_cached demo_cached), n + 1)"

definition demo_manifest_world :: "(io_kind \<times> nat) option list \<Rightarrow> nat manifest_world" where
  "demo_manifest_world faults =
     \<lparr>mcw_fs = \<lparr>fs_files = Map.empty, fs_faults = faults\<rparr>, mcw_in_flight = [], mcw_net = 0\<rparr>"

lemma demo_postcard_ok: "postcard_ok demo_postcard"
  by (simp add: postcard_ok_def demo_postcard_def)

theorem get_or_fetch_sound_witness:
  "fst (get_or_fetch demo_postcard (manifest_cache_new [''m''] 7) (1, 2, 3) demo_fetch
     (demo_manifest_world [None, None, None, Some (KOther, 1)])) \<noteq> Panic"
proof -
  let ?mc = "manifest_cache_new [''m''] 7"
  let ?w = "demo_manifest_world [None, None, None, Some (KOther, 1)]"
  let ?r = "get_or_fetch demo_postcard ?mc (1, 2, 3) demo_fetch ?w"
  have i: "manifests_inv demo_postcard ?mc (\<lambda>_. manifest_of_cached demo_cached) (mcw_fs ?w)"
    by (simp add: manifests_inv_def demo_manifest_world_def)
  have f: "fetch_ok (\<lambda>_. manifest_of_cached demo_cached) (1, 2, 3) demo_fetch"
    by (simp add: fetch_ok_def demo_fetch_def manifest_of_cached_def demo_cached_def)
  have "?r = (fst ?r, snd ?r)" by simp
  from get_or_fetch_sound [OF this demo_postcard_ok i f] show ?thesis by blast
qed

theorem fetched_manifest_is_cached_witness:
  "\<exists>w'. get_or_fetch demo_postcard (manifest_cache_new [''m''] 7) (1, 2, 3) demo_fetch
      (demo_manifest_world []) = (Ok (manifest_of_cached demo_cached), w') \<and>
    get_or_fetch demo_postcard (manifest_cache_new [''m''] 7) (1, 2, 3) (\<lambda>n. (Err (VfsOther ''offline''), n)) w' =
      (Ok (manifest_of_cached demo_cached), w')"
proof -
  let ?mc = "manifest_cache_new [''m''] 7" and ?m = "manifest_of_cached demo_cached"
  have ids: "m_depot_id ?m = 2" "m_manifest_id ?m = 3"
    by (simp_all add: manifest_of_cached_def demo_cached_def)
  have enc: "pc_encode demo_postcard (cached_of_manifest ?m) = Some [1]"
    by (simp add: demo_postcard_def manifest_of_cached_def cached_of_manifest_def demo_cached_def)
  let ?fs = "\<lparr>fs_files = Map.empty, fs_faults = []\<rparr>"
  have l: "manifest_load demo_postcard ?mc (1, 2, 3) ?fs = (Ok None, ?fs)"
    by (simp add: manifest_load_def fs_read_def next_fault_def Let_def)
  obtain fs3 where s: "manifest_save demo_postcard ?mc 1 ?m ?fs = (Ok (), fs3)" "fs_faults fs3 = []"
    by (simp add: manifest_save_def Let_def enc fs_create_dir_all_def fs_write_def fs_create_def
        fs_write_all_def fs_rename_def next_fault_def)
  define w' where "w' = (demo_manifest_world [])\<lparr>mcw_fs := fs3, mcw_net := 1\<rparr>"
  have g: "get_or_fetch demo_postcard ?mc (1, 2, 3) demo_fetch (demo_manifest_world []) = (Ok ?m, w')"
    using l s by (simp add: get_or_fetch_def demo_manifest_world_def demo_fetch_def Let_def w'_def)
  have "get_or_fetch demo_postcard ?mc (1, 2, 3) (\<lambda>n. (Err (VfsOther ''offline''), n)) w' = (Ok ?m, w')"
    using fetched_manifest_is_cached [of demo_postcard ?mc 1 ?m demo_fetch "demo_manifest_world []" w' ?fs ?fs w'
        "\<lambda>n. (Err (VfsOther ''offline''), n)"] g l s(2) demo_postcard_ok
    by (simp add: ids) (simp add: w'_def demo_manifest_world_def)
  with g show ?thesis by blast
qed

end
