(* ===== verification/Manifest_Race.thy ===== *)
theory Manifest_Race
  imports Manifest_Cache
begin

text \<open>
  Callers racing on the manifest cache of \<open>manifest_cache.rs\<close>.  Every call of \<open>get_or_fetch\<close> is a
  task; the locks of the in-flight table, the files and the network are shared.  A task does one
  file operation, one fetch or one visit to the table at a time, and between two of them the
  others may do anything.
\<close>

section \<open>A caller\<close>

text \<open>
  Where a call stands.  From \<open>GWait\<close> on it has an \<open>Arc\<close> of its key's lock, from \<open>GLoadAgain\<close> on
  the lock itself; both go when it returns.
\<close>

datatype get_pc =
    GLoad
  | GDiscard                             \<comment> \<open>the file read does not decode\<close>
  | GEnter                               \<comment> \<open>not cached: to the in-flight table\<close>
  | GWait nat
  | GLoadAgain nat
  | GDiscardAgain nat
  | GFetch nat
  | GMakeDir nat manifest
  | GWrite nat manifest bytes
  | GRename nat manifest
  | GForget nat manifest                 \<comment> \<open>saved: the table entry goes\<close>
  | GDone "(vfs_error, manifest) outcome"

fun get_keeps :: "get_pc \<Rightarrow> nat option" where
  "get_keeps (GWait l) = Some l"
| "get_keeps (GLoadAgain l) = Some l"
| "get_keeps (GDiscardAgain l) = Some l"
| "get_keeps (GFetch l) = Some l"
| "get_keeps (GMakeDir l m) = Some l"
| "get_keeps (GWrite l m bs) = Some l"
| "get_keeps (GRename l m) = Some l"
| "get_keeps (GForget l m) = Some l"
| "get_keeps _ = None"

definition get_holds :: "get_pc \<Rightarrow> nat option" where
  "get_holds p = (case p of GWait l \<Rightarrow> None | _ \<Rightarrow> get_keeps p)"

record 'w get_race =
  gr_fs :: fsys
  gr_net :: 'w
  gr_locks :: "manifest_key \<Rightarrow> nat option"
  gr_next :: nat
  gr_tasks :: "(manifest_key \<times> get_pc) list"
  gr_fetches :: "manifest_key list"

section \<open>Steps\<close>

definition load_step ::
  "postcard \<Rightarrow> manifest_cache \<Rightarrow> manifest_key \<Rightarrow> get_pc \<Rightarrow> get_pc \<Rightarrow> fsys \<Rightarrow> get_pc \<times> fsys" where
  "load_step pc mc key missing stale fs =
     (let p = manifest_path mc key in
      case fs_read p fs of
        (Ok bs, fs1) \<Rightarrow>
          (case pc_decode pc bs of
             Some c \<Rightarrow> (GDone (Ok (manifest_of_cached c)), fs1)
           | None \<Rightarrow> (stale, fs1))
      | (Err e, fs1) \<Rightarrow>
          (if io_kind_of e = KNotFound then (missing, fs1)
           else (GDone (Err (VfsManifestCache (CacheIo ''reading'' p e))), fs1))
      | (Panic, fs1) \<Rightarrow> (GDone Panic, fs1))"

definition discard_step :: "manifest_cache \<Rightarrow> manifest_key \<Rightarrow> get_pc \<Rightarrow> fsys \<Rightarrow> get_pc \<times> fsys" where
  "discard_step mc key missing fs =
     (let p = manifest_path mc key in
      case fs_remove_file p fs of
        (Err e, fs1) \<Rightarrow> (GDone (Err (VfsManifestCache (CacheIo ''removing'' p e))), fs1)
      | (Panic, fs1) \<Rightarrow> (GDone Panic, fs1)
      | (Ok _, fs1) \<Rightarrow> (missing, fs1))"

definition manifest_tmp_path :: "manifest_cache \<Rightarrow> path \<Rightarrow> path" where
  "manifest_tmp_path mc p = with_extension p (''tmp.'' @ dec_digits (mc_pid mc))"

fun get_file_step ::
  "postcard \<Rightarrow> manifest_cache \<Rightarrow> manifest_key \<Rightarrow> get_pc \<Rightarrow> fsys \<Rightarrow> get_pc \<times> fsys" where
  "get_file_step pc mc key GLoad fs = load_step pc mc key GEnter GDiscard fs"
| "get_file_step pc mc key GDiscard fs = discard_step mc key GEnter fs"
| "get_file_step pc mc key (GLoadAgain l) fs = load_step pc mc key (GFetch l) (GDiscardAgain l) fs"
| "get_file_step pc mc key (GDiscardAgain l) fs = discard_step mc key (GFetch l) fs"
| "get_file_step pc mc key (GMakeDir l m) fs =
     (let p = manifest_path mc (fst key, m_depot_id m, m_manifest_id m) in
      case fs_create_dir_all (butlast p) fs of
        (Err e, fs1) \<Rightarrow> (GDone (Err (VfsManifestCache (CacheIo ''creating'' (butlast p) e))), fs1)
      | (Panic, fs1) \<Rightarrow> (GDone Panic, fs1)
      | (Ok _, fs1) \<Rightarrow>
          (case pc_encode pc (cached_of_manifest m) of
             None \<Rightarrow> (GDone (Err (VfsManifestCache CacheEncode)), fs1)
           | Some bs \<Rightarrow> (GWrite l m bs, fs1)))"
| "get_file_step pc mc key (GWrite l m bs) fs =
     (let tmp = manifest_tmp_path mc (manifest_path mc (fst key, m_depot_id m, m_manifest_id m)) in
      case fs_write tmp bs fs of
        (Err e, fs1) \<Rightarrow> (GDone (Err (VfsManifestCache (CacheIo ''writing'' tmp e))), fs1)
      | (Panic, fs1) \<Rightarrow> (GDone Panic, fs1)
      | (Ok _, fs1) \<Rightarrow> (GRename l m, fs1))"
| "get_file_step pc mc key (GRename l m) fs =
     (let p = manifest_path mc (fst key, m_depot_id m, m_manifest_id m) in
      case fs_rename (manifest_tmp_path mc p) p fs of
        (Err e, fs1) \<Rightarrow> (GDone (Err (VfsManifestCache (CacheIo ''renaming to'' p e))), fs1)
      | (Panic, fs1) \<Rightarrow> (GDone Panic, fs1)
      | (Ok _, fs1) \<Rightarrow> (GForget l m, fs1))"
| "get_file_step pc mc key p fs = (p, fs)"

definition set_task :: "nat \<Rightarrow> manifest_key \<Rightarrow> get_pc \<Rightarrow> 'w get_race \<Rightarrow> 'w get_race" where
  "set_task i key p s = s\<lparr>gr_tasks := (gr_tasks s)[i := (key, p)]\<rparr>"

definition lock_is_free :: "'w get_race \<Rightarrow> nat \<Rightarrow> bool" where
  "lock_is_free s l = list_all (\<lambda>t. get_holds (snd t) \<noteq> Some l) (gr_tasks s)"

text \<open>A step of task \<open>i\<close>; \<open>None\<close> when it has returned or has to wait.\<close>

definition get_task_step ::
  "postcard \<Rightarrow> manifest_cache \<Rightarrow> (manifest_key \<Rightarrow> 'w \<Rightarrow> (vfs_error, manifest) outcome \<times> 'w) \<Rightarrow>
     nat \<Rightarrow> 'w get_race \<Rightarrow> 'w get_race option" where
  "get_task_step pc mc fetch i s =
     (case gr_tasks s ! i of (key, p) \<Rightarrow>
        (case p of
           GDone r \<Rightarrow> None
         | GEnter \<Rightarrow>
             (case gr_locks s key of
                Some l \<Rightarrow> Some (set_task i key (GWait l) s)
              | None \<Rightarrow>
                  Some (set_task i key (GWait (gr_next s))
                    (s\<lparr>gr_locks := (gr_locks s)(key \<mapsto> gr_next s), gr_next := Suc (gr_next s)\<rparr>)))
         | GWait l \<Rightarrow> if lock_is_free s l then Some (set_task i key (GLoadAgain l) s) else None
         | GFetch l \<Rightarrow>
             (case fetch key (gr_net s) of (r, n) \<Rightarrow>
                Some (set_task i key (case r of Ok m \<Rightarrow> GMakeDir l m | Err e \<Rightarrow> GDone (Err e) | Panic \<Rightarrow> GDone Panic)
                  (s\<lparr>gr_net := n, gr_fetches := key # gr_fetches s\<rparr>)))
         | GForget l m \<Rightarrow>
             Some (set_task i key (GDone (Ok m)) (s\<lparr>gr_locks := (gr_locks s)(key := None)\<rparr>))
         | _ \<Rightarrow>
             (case get_file_step pc mc key p (gr_fs s) of (p1, fs1) \<Rightarrow>
                Some (set_task i key p1 (s\<lparr>gr_fs := fs1\<rparr>)))))"

inductive race_step ::
  "postcard \<Rightarrow> manifest_cache \<Rightarrow> (manifest_key \<Rightarrow> 'w \<Rightarrow> (vfs_error, manifest) outcome \<times> 'w) \<Rightarrow>
     'w get_race \<Rightarrow> 'w get_race \<Rightarrow> bool"
  for pc mc fetch where
  "i < length (gr_tasks s) \<Longrightarrow> get_task_step pc mc fetch i s = Some s' \<Longrightarrow> race_step pc mc fetch s s'"

inductive_cases race_stepE: "race_step pc mc fetch s s'"

text \<open>Any number of callers at their start, over a disk and an empty table.\<close>

definition race_start :: "manifest_key list \<Rightarrow> fsys \<Rightarrow> 'w \<Rightarrow> 'w get_race" where
  "race_start keys fs n =
     \<lparr>gr_fs = fs, gr_net = n, gr_locks = (\<lambda>_. None), gr_next = 0,
      gr_tasks = map (\<lambda>k. (k, GLoad)) keys, gr_fetches = []\<rparr>"

section \<open>The invariant\<close>

definition on_disk :: "manifest_cache \<Rightarrow> 'w get_race \<Rightarrow> manifest_key \<Rightarrow> bytes option" where
  "on_disk mc s key = fs_files (gr_fs s) (manifest_path mc key)"

definition tmp_of :: "manifest_cache \<Rightarrow> 'w get_race \<Rightarrow> manifest_key \<Rightarrow> bytes option" where
  "tmp_of mc s key = fs_files (gr_fs s) (manifest_tmp_path mc (manifest_path mc key))"

text \<open>Every manifest file on the disk is the manifest of its key.\<close>

definition disk_clean :: "postcard \<Rightarrow> manifest_cache \<Rightarrow> (manifest_key \<Rightarrow> manifest) \<Rightarrow> fsys \<Rightarrow> bool" where
  "disk_clean pc mc truth fs \<longleftrightarrow>
     (\<forall>key bs. fs_files fs (manifest_path mc key) = Some bs \<longrightarrow>
        (\<exists>c. pc_decode pc bs = Some c \<and> manifest_of_cached c = truth key))"

text \<open>A disk may fail in any way but one: it does not deny a file that is there.\<close>

definition disk_honest :: "fsys \<Rightarrow> bool" where
  "disk_honest fs \<longleftrightarrow> (\<forall>n. Some (KNotFound, n) \<notin> set (fs_faults fs))"

fun saving :: "get_pc \<Rightarrow> bool" where
  "saving (GFetch l) = True"
| "saving (GMakeDir l m) = True"
| "saving (GWrite l m bs) = True"
| "saving (GRename l m) = True"
| "saving _ = False"

definition right_manifest :: "(manifest_key \<Rightarrow> manifest) \<Rightarrow> manifest_key \<Rightarrow> manifest \<Rightarrow> bool" where
  "right_manifest truth key m \<longleftrightarrow> m = truth key \<and> snd key = (m_depot_id m, m_manifest_id m)"

text \<open>
  What holds of a task on its own key: \<open>d\<close> is the file of the key, \<open>t\<close> the temporary file and \<open>k\<close>
  the entry in the table.
\<close>

fun payload_ok ::
  "postcard \<Rightarrow> (manifest_key \<Rightarrow> manifest) \<Rightarrow> manifest_key \<Rightarrow> bytes option \<Rightarrow> get_pc \<Rightarrow> bool" where
  "payload_ok pc truth key t GDiscard = False"
| "payload_ok pc truth key t (GDiscardAgain l) = False"
| "payload_ok pc truth key t (GMakeDir l m) = right_manifest truth key m"
| "payload_ok pc truth key t (GWrite l m bs) =
     (right_manifest truth key m \<and> pc_encode pc (cached_of_manifest m) = Some bs)"
| "payload_ok pc truth key t (GRename l m) =
     (right_manifest truth key m \<and> t \<noteq> None \<and> pc_encode pc (cached_of_manifest m) = t)"
| "payload_ok pc truth key t (GForget l m) = right_manifest truth key m"
| "payload_ok pc truth key t (GDone r) = (r \<noteq> Panic \<and> (\<forall>m. r = Ok m \<longrightarrow> m = truth key))"
| "payload_ok pc truth key t p = True"

definition task_ok ::
  "postcard \<Rightarrow> (manifest_key \<Rightarrow> manifest) \<Rightarrow> manifest_key \<Rightarrow> bytes option \<Rightarrow> bytes option \<Rightarrow>
     nat option \<Rightarrow> nat \<Rightarrow> get_pc \<Rightarrow> bool" where
  "task_ok pc truth key d t k next p \<longleftrightarrow>
     payload_ok pc truth key t p \<and> (saving p \<longrightarrow> d = None) \<and>
     (\<forall>l m. p = GForget l m \<longrightarrow> d \<noteq> None) \<and>
     (\<forall>l. get_keeps p = Some l \<longrightarrow> l < next \<and> (d = None \<longrightarrow> k = Some l))"

definition race_inv ::
  "postcard \<Rightarrow> manifest_cache \<Rightarrow> (manifest_key \<Rightarrow> manifest) \<Rightarrow> 'w get_race \<Rightarrow> bool" where
  "race_inv pc mc truth s \<longleftrightarrow>
     disk_clean pc mc truth (gr_fs s) \<and> disk_honest (gr_fs s) \<and>
     (\<forall>key l. gr_locks s key = Some l \<longrightarrow> l < gr_next s) \<and>
     (\<forall>i < length (gr_tasks s). case gr_tasks s ! i of (key, p) \<Rightarrow>
        task_ok pc truth key (on_disk mc s key) (tmp_of mc s key) (gr_locks s key) (gr_next s) p) \<and>
     (\<forall>i j l. i < length (gr_tasks s) \<and> j < length (gr_tasks s) \<and>
        get_holds (snd (gr_tasks s ! i)) = Some l \<and> get_holds (snd (gr_tasks s ! j)) = Some l \<longrightarrow> i = j)"


subsection \<open>File operations\<close>

lemma next_fault_in: "next_fault fs = (Some x, fs') \<Longrightarrow> Some x \<in> set (fs_faults fs)"
  by (cases "fs_faults fs") (simp_all add: next_fault_def)

lemma fs_ops_faults:
  "fs_read p fs = (r, fs') \<Longrightarrow> set (fs_faults fs') \<subseteq> set (fs_faults fs)"
  "fs_create_dir_all p fs = (u, fs') \<Longrightarrow> set (fs_faults fs') \<subseteq> set (fs_faults fs)"
  "fs_write p b fs = (u, fs') \<Longrightarrow> set (fs_faults fs') \<subseteq> set (fs_faults fs)"
  "fs_rename p q fs = (u, fs') \<Longrightarrow> set (fs_faults fs') \<subseteq> set (fs_faults fs)"
proof -
  show "fs_read p fs = (r, fs') \<Longrightarrow> set (fs_faults fs') \<subseteq> set (fs_faults fs)"
    by (cases "fs_faults fs") (auto simp: fs_read_def next_fault_def split: option.splits prod.splits)
  show "fs_create_dir_all p fs = (u, fs') \<Longrightarrow> set (fs_faults fs') \<subseteq> set (fs_faults fs)"
    by (cases "fs_faults fs") (auto simp: fs_create_dir_all_def next_fault_def split: option.splits prod.splits)
  have c: "fs_create p fs = (r, fs') \<Longrightarrow> set (fs_faults fs') \<subseteq> set (fs_faults fs)" for r fs'
    by (cases "fs_faults fs") (auto simp: fs_create_def next_fault_def split: option.splits prod.splits)
  have w: "fs_write_all p b fs = (r, fs') \<Longrightarrow> set (fs_faults fs') \<subseteq> set (fs_faults fs)" for r fs' fs
    by (cases "fs_faults fs") (auto simp: fs_write_all_def next_fault_def split: option.splits prod.splits)
  show "set (fs_faults fs') \<subseteq> set (fs_faults fs)" if wr: "fs_write p b fs = (u, fs')"
  proof -
    obtain g fs1 where g: "fs_create p fs = (g, fs1)" by fastforce
    then show ?thesis using wr c [OF g] w [of fs1 u fs'] by (cases g) (auto simp: fs_write_def)
  qed
  show "fs_rename p q fs = (u, fs') \<Longrightarrow> set (fs_faults fs') \<subseteq> set (fs_faults fs)"
    by (cases "fs_faults fs") (auto simp: fs_rename_def next_fault_def split: option.splits prod.splits)
qed

lemma honest_sub: "disk_honest fs \<Longrightarrow> set (fs_faults fs') \<subseteq> set (fs_faults fs) \<Longrightarrow> disk_honest fs'"
  by (auto simp: disk_honest_def)

lemma honest_read:
  assumes "disk_honest fs" and "fs_read p fs = (Err e, fs')" and "io_kind_of e = KNotFound"
  shows "fs_files fs p = None"
  using assms next_fault_in [of fs]
  by (cases "fs_files fs p") (auto simp: fs_read_def disk_honest_def split: prod.splits option.splits)

lemma tmp_paths:
  "manifest_tmp_path mc (manifest_path mc k) \<noteq> manifest_path mc k'"
  "manifest_tmp_path mc (manifest_path mc k) = manifest_tmp_path mc (manifest_path mc k') \<longleftrightarrow> k = k'"
proof -
  show "manifest_tmp_path mc (manifest_path mc k) \<noteq> manifest_path mc k'"
    unfolding manifest_tmp_path_def by (rule tmp_not_manifest)
  show "manifest_tmp_path mc (manifest_path mc k) = manifest_tmp_path mc (manifest_path mc k') \<longleftrightarrow> k = k'"
    by (cases k; cases k') (auto simp: manifest_tmp_path_def manifest_tmp to_dec_inject_u32 to_dec_inject_u64)
qed

lemma load_step_spec:
  assumes "load_step pc mc key missing stale fs = (p, fs')"
    and c: "disk_clean pc mc truth fs" and h: "disk_honest fs"
  shows "fs_files fs' = fs_files fs" and "disk_honest fs'"
    and "p = missing \<and> fs_files fs (manifest_path mc key) = None \<or>
      (\<exists>r. p = GDone r \<and> r \<noteq> Panic \<and> (\<forall>m. r = Ok m \<longrightarrow> m = truth key))"
proof -
  let ?p = "manifest_path mc key"
  obtain g fs1 where g: "fs_read ?p fs = (g, fs1)" by fastforce
  have e: "fs' = fs1" using assms(1) g
    by (cases g) (auto simp: load_step_def Let_def split: option.splits if_splits)
  show "fs_files fs' = fs_files fs" using fs_read_files [OF g] e by simp
  show "disk_honest fs'" using honest_sub [OF h fs_ops_faults(1) [OF g]] e by simp
  show "p = missing \<and> fs_files fs ?p = None \<or>
      (\<exists>r. p = GDone r \<and> r \<noteq> Panic \<and> (\<forall>m. r = Ok m \<longrightarrow> m = truth key))"
  proof (cases g)
    case (Ok bs)
    then obtain d where "pc_decode pc bs = Some d" "manifest_of_cached d = truth key"
      using fs_read_Ok g c unfolding disk_clean_def by blast
    then show ?thesis using assms(1) g Ok by (auto simp: load_step_def Let_def)
  next
    case (Err e)
    then show ?thesis using assms(1) g honest_read [OF h, of ?p e fs1]
      by (auto simp: load_step_def Let_def split: if_splits)
  qed (use g fs_read_no_panic in metis)
qed

subsection \<open>One step of one task\<close>

lemma disk_clean_files:
  "disk_clean pc mc truth fs \<Longrightarrow> (\<And>k. fs_files fs' (manifest_path mc k) = fs_files fs (manifest_path mc k)) \<Longrightarrow>
     disk_clean pc mc truth fs'"
  by (simp add: disk_clean_def)

lemma payload_tmp: "\<not> saving p \<Longrightarrow> payload_ok pc truth key t p = payload_ok pc truth key t' p"
  by (cases p) auto

lemma right_key: "right_manifest truth key m \<Longrightarrow> (fst key, m_depot_id m, m_manifest_id m) = key"
proof -
  assume "right_manifest truth key m"
  then have "snd key = (m_depot_id m, m_manifest_id m)" unfolding right_manifest_def by (rule conjunct2)
  then show ?thesis by (cases key) (simp only: fst_conv snd_conv)
qed

text \<open>A file step of a task, seen from its own key and from the others.\<close>

lemma file_step_spec:
  assumes st: "get_file_step pc mc key p fs = (p', fs')"
    and c: "disk_clean pc mc truth fs" and h: "disk_honest fs" and pc: "postcard_ok pc"
    and ok: "task_ok pc truth key (fs_files fs (manifest_path mc key))
      (fs_files fs (manifest_tmp_path mc (manifest_path mc key))) k next p"
    and pf: "p \<in> {GLoad, GDiscard} \<or> (\<exists>l m bs. p \<in> {GLoadAgain l, GDiscardAgain l, GMakeDir l m, GWrite l m bs, GRename l m})"
  shows "disk_clean pc mc truth fs' \<and> disk_honest fs' \<and>
    task_ok pc truth key (fs_files fs' (manifest_path mc key))
      (fs_files fs' (manifest_tmp_path mc (manifest_path mc key))) k next p' \<and>
    (\<forall>k'. k' \<noteq> key \<longrightarrow> fs_files fs' (manifest_path mc k') = fs_files fs (manifest_path mc k') \<and>
       fs_files fs' (manifest_tmp_path mc (manifest_path mc k')) =
         fs_files fs (manifest_tmp_path mc (manifest_path mc k'))) \<and>
    (saving p \<or> fs_files fs' = fs_files fs) \<and>
    (fs_files fs (manifest_path mc key) \<noteq> None \<longrightarrow> fs_files fs' (manifest_path mc key) \<noteq> None) \<and>
    (get_holds p' = None \<or> get_holds p' = get_holds p)"
proof -
  let ?p = "manifest_path mc key"
  let ?t = "manifest_tmp_path mc ?p"
  from pf ok consider (load) "p = GLoad" | (again) l where "p = GLoadAgain l" | (dir) l m where "p = GMakeDir l m"
    | (wr) l m bs where "p = GWrite l m bs" | (ren) l m where "p = GRename l m"
    by (auto simp: task_ok_def)
  then show ?thesis
  proof cases
    case load
    from load_step_spec [OF _ c h] st load have
      "fs_files fs' = fs_files fs" "disk_honest fs'"
      "p' = GEnter \<or> (\<exists>r. p' = GDone r \<and> r \<noteq> Panic \<and> (\<forall>m. r = Ok m \<longrightarrow> m = truth key))"
      by (auto, metis+)
    then show ?thesis using c by (auto simp: task_ok_def get_holds_def disk_clean_def)
  next
    case (again l)
    note ls = load_step_spec [OF _ c h, of key "GFetch l" "GDiscardAgain l" p' fs']
    have f: "fs_files fs' = fs_files fs" "disk_honest fs'"
      and p': "p' = GFetch l \<and> fs_files fs ?p = None \<or>
        (\<exists>r. p' = GDone r \<and> r \<noteq> Panic \<and> (\<forall>m. r = Ok m \<longrightarrow> m = truth key))"
      using ls st again by simp_all
    show ?thesis using f p' c ok again by (auto simp: task_ok_def get_holds_def disk_clean_def)
  next
    case (dir l m)
    then have rm: "right_manifest truth key m" using ok by (simp add: task_ok_def)
    then have key: "(fst key, m_depot_id m, m_manifest_id m) = key"
      by (intro right_key)
    obtain g fs1 where g: "fs_create_dir_all (butlast ?p) fs = (g, fs1)" by fastforce
    note gf = fs_create_dir_all_files [OF g]
    have e: "fs' = fs1" using st g dir key
      by (cases g) (auto simp: Let_def split: option.splits)
    have hon: "disk_honest fs'" using honest_sub [OF h fs_ops_faults(2) [OF g]] e by simp
    have "(\<exists>r. p' = GDone (Err r)) \<or> (\<exists>bs. p' = GWrite l m bs \<and> pc_encode pc (cached_of_manifest m) = Some bs)"
      using st g dir key gf(2) by (cases g) (auto simp: Let_def split: option.splits)
    then show ?thesis using gf(1) e hon c ok dir rm by (auto simp: task_ok_def get_holds_def disk_clean_def)
  next
    case (wr l m bs)
    then have rm: "right_manifest truth key m" "pc_encode pc (cached_of_manifest m) = Some bs"
      using ok by (auto simp: task_ok_def)
    then have key: "(fst key, m_depot_id m, m_manifest_id m) = key"
      by (intro right_key)
    obtain g fs1 where g: "fs_write ?t bs fs = (g, fs1)" by fastforce
    note gf = fs_write_files [OF g]
    have e: "fs' = fs1" using st g wr key by (cases g) (auto simp: Let_def)
    have hon: "disk_honest fs'" using honest_sub [OF h fs_ops_faults(3) [OF g]] e by simp
    have "(\<exists>r. p' = GDone (Err r)) \<or> p' = GRename l m \<and> fs_files fs' ?t = Some bs"
      using st g wr key gf(2,3) e by (cases g) (auto simp: Let_def)
    moreover have "fs_files fs' (manifest_path mc k') = fs_files fs (manifest_path mc k')"
      "k' \<noteq> key \<Longrightarrow> fs_files fs' (manifest_tmp_path mc (manifest_path mc k')) =
         fs_files fs (manifest_tmp_path mc (manifest_path mc k'))" for k'
      using gf(1) e tmp_paths by metis+
    ultimately show ?thesis using hon c ok wr rm
      by (auto simp: task_ok_def get_holds_def disk_clean_def)
  next
    case (ren l m)
    then have rm: "right_manifest truth key m"
      and t: "fs_files fs ?t \<noteq> None" "pc_encode pc (cached_of_manifest m) = fs_files fs ?t"
      using ok by (auto simp: task_ok_def)
    then have key: "(fst key, m_depot_id m, m_manifest_id m) = key"
      by (intro right_key)
    obtain bs where bs: "fs_files fs ?t = Some bs" using t by blast
    then have dec: "pc_decode pc bs = Some (cached_of_manifest m)" using t(2) pc by (simp add: postcard_ok_def)
    have "manifest_of_cached (cached_of_manifest m) = truth key"
      using rm by (simp add: manifest_of_cached_def cached_of_manifest_def comp_def right_manifest_def)
    note good = dec this
    obtain g fs1 where g: "fs_rename ?t ?p fs = (g, fs1)" by fastforce
    note gf = fs_rename_files [OF g]
    have e: "fs' = fs1" using st g ren key by (cases g) (auto simp: Let_def)
    have hon: "disk_honest fs'" using honest_sub [OF h fs_ops_faults(4) [OF g]] e by simp
    show ?thesis
    proof (cases g)
      case (Ok u)
      then have f: "fs_files fs' = (fs_files fs)(?t := None, ?p := Some bs)" using gf(2) e bs by auto
      have p': "p' = GForget l m" using st g ren key Ok by (simp add: Let_def)
      have o: "fs_files fs' (manifest_path mc k') = fs_files fs (manifest_path mc k')"
        "fs_files fs' (manifest_tmp_path mc (manifest_path mc k')) =
           fs_files fs (manifest_tmp_path mc (manifest_path mc k'))" if "k' \<noteq> key" for k'
        using f that tmp_paths manifest_path_inject by (metis fun_upd_apply)+
      have d: "fs_files fs' ?p = Some bs" using f by simp
      have "disk_clean pc mc truth fs'"
        using c good o(1) d unfolding disk_clean_def by (metis option.inject)
      then show ?thesis using hon ok ren p' rm o d by (auto simp: task_ok_def get_holds_def)
    next
      case (Err x)
      then have "p' = GDone (Err (VfsManifestCache (CacheIo ''renaming to'' ?p x)))" using st g ren key by (simp add: Let_def)
      then show ?thesis using hon c ok ren gf(3) [OF Err] e
        by (auto simp: task_ok_def get_holds_def disk_clean_def)
    qed (use gf(1) in simp)
  qed
qed


subsection \<open>The invariant is kept\<close>

lemma task_ok_mono: "task_ok pc truth key d t k n p \<Longrightarrow> n \<le> n' \<Longrightarrow> task_ok pc truth key d t k n' p"
  by (fastforce simp: task_ok_def)

definition service_ok ::
  "(manifest_key \<Rightarrow> manifest) \<Rightarrow> (manifest_key \<Rightarrow> 'w \<Rightarrow> (vfs_error, manifest) outcome \<times> 'w) \<Rightarrow> bool" where
  "service_ok truth fetch \<longleftrightarrow> (\<forall>key. fetch_ok truth key (fetch key))"

text \<open>What the step of task \<open>i\<close> has to show for the invariant to be kept.\<close>

lemma race_inv_update:
  assumes inv: "race_inv pc mc truth s" and i: "i < length (gr_tasks s)" and key: "gr_tasks s ! i = (key, p)"
    and s': "gr_tasks s' = (gr_tasks s)[i := (key, p')]"
    and fs: "disk_clean pc mc truth (gr_fs s')" "disk_honest (gr_fs s')"
    and locks: "\<And>k l. gr_locks s' k = Some l \<Longrightarrow> l < gr_next s'" and nx: "gr_next s \<le> gr_next s'"
    and own: "task_ok pc truth key (on_disk mc s' key) (tmp_of mc s' key) (gr_locks s' key) (gr_next s') p'"
    and others: "\<And>k. k \<noteq> key \<Longrightarrow> on_disk mc s' k = on_disk mc s k \<and> tmp_of mc s' k = tmp_of mc s k \<and>
      gr_locks s' k = gr_locks s k"
    and same: "saving p \<or> tmp_of mc s' key = tmp_of mc s key \<and> on_disk mc s' key = on_disk mc s key"
    and grow: "on_disk mc s key \<noteq> None \<Longrightarrow> on_disk mc s' key \<noteq> None"
    and entry: "on_disk mc s' key \<noteq> None \<or> gr_locks s key = None \<or> gr_locks s' key = gr_locks s key"
    and lock: "\<And>l. get_holds p' = Some l \<Longrightarrow> get_holds p = Some l \<or> lock_is_free s l"
  shows "race_inv pc mc truth s'"
proof -
  have tk: "task_ok pc truth k (on_disk mc s k) (tmp_of mc s k) (gr_locks s k) (gr_next s) q"
    if "j < length (gr_tasks s)" "gr_tasks s ! j = (k, q)" for j k q
    using inv that unfolding race_inv_def by fastforce
  have mu: "j = j'" if "j < length (gr_tasks s)" "j' < length (gr_tasks s)"
    "get_holds (snd (gr_tasks s ! j)) = Some l" "get_holds (snd (gr_tasks s ! j')) = Some l" for j j' l
    using inv that unfolding race_inv_def by blast
  have hold: "get_holds q = get_keeps q" if "saving q" for q using that by (cases q) (auto simp: get_holds_def)
  have kept: "\<exists>l. get_keeps q = Some l" if "saving q" for q using that by (cases q) auto
  have each: "task_ok pc truth k (on_disk mc s' k) (tmp_of mc s' k) (gr_locks s' k) (gr_next s') q"
    if j: "j < length (gr_tasks s')" "gr_tasks s' ! j = (k, q)" for j k q
  proof (cases "j = i")
    case True
    then show ?thesis using own j i s' by auto
  next
    case False
    then have jt: "j < length (gr_tasks s)" "gr_tasks s ! j = (k, q)" using j s' by auto
    note o = tk [OF jt]
    show ?thesis
    proof (cases "k = key")
      case False
      then show ?thesis using o others [OF False] task_ok_mono [OF o nx] by simp
    next
      case True
      have ns: "\<not> saving q" if sp: "saving p"
      proof
        assume sq: "saving q"
        obtain l where l: "get_keeps p = Some l" using kept [OF sp] by blast
        obtain l' where l': "get_keeps q = Some l'" using kept [OF sq] by blast
        have "gr_locks s key = Some l" "gr_locks s key = Some l'"
          using tk [OF i key] o l l' sp sq True by (auto simp: task_ok_def)
        then have "get_holds p = Some l" "get_holds q = Some l" using hold sp sq l l' by simp_all
        then show False using mu [OF i jt(1), of l] key jt(2) \<open>j \<noteq> i\<close> by simp
      qed
      have pay: "payload_ok pc truth key (tmp_of mc s' key) q"
        using o same ns payload_tmp [of q pc truth key "tmp_of mc s' key" "tmp_of mc s key"] True
        by (auto simp: task_ok_def)
      have "saving q \<Longrightarrow> on_disk mc s' key = None" using o same ns True by (auto simp: task_ok_def)
      moreover have "on_disk mc s' key \<noteq> None" if "q = GForget l m" for l m
        using that o True grow by (auto simp: task_ok_def)
      moreover have "l < gr_next s' \<and> (on_disk mc s' key = None \<longrightarrow> gr_locks s' key = Some l)"
        if "get_keeps q = Some l" for l
        using that o True grow entry nx by (fastforce simp: task_ok_def)
      ultimately show ?thesis using pay True by (auto simp: task_ok_def)
    qed
  qed
  have mutex: "j = j'" if jj: "j < length (gr_tasks s')" "j' < length (gr_tasks s')"
    "get_holds (snd (gr_tasks s' ! j)) = Some l" "get_holds (snd (gr_tasks s' ! j')) = Some l" for j j' l
  proof -
    have len: "length (gr_tasks s') = length (gr_tasks s)" using s' by simp
    have fr: "get_holds (snd (gr_tasks s ! m)) \<noteq> Some l" if "lock_is_free s l" "m < length (gr_tasks s)" for m
      using that by (auto simp: lock_is_free_def list_all_length)
    show ?thesis
    proof (rule ccontr)
      assume ne: "j \<noteq> j'"
      consider "j = i" "j' \<noteq> i" | "j' = i" "j \<noteq> i" | "j \<noteq> i" "j' \<noteq> i" using ne by blast
      then show False
      proof cases
        case 1
        then have "get_holds p' = Some l" "get_holds (snd (gr_tasks s ! j')) = Some l" using jj s' i by auto
        then show False using lock [of l] mu [OF i, of j' l] fr [of j'] jj(2) len key 1 by auto
      next
        case 2
        then have "get_holds p' = Some l" "get_holds (snd (gr_tasks s ! j)) = Some l" using jj s' i by auto
        then show False using lock [of l] mu [OF i, of j l] fr [of j] jj(1) len key 2 by auto
      next
        case 3
        then show False using mu [of j j' l] jj s' len ne by simp
      qed
    qed
  qed
  show ?thesis
    unfolding race_inv_def using fs locks each mutex by (auto split: prod.split)
qed

lemma set_task_simps [simp]:
  "gr_tasks (set_task i k p s) = (gr_tasks s)[i := (k, p)]" "gr_fs (set_task i k p s) = gr_fs s"
  "gr_locks (set_task i k p s) = gr_locks s" "gr_next (set_task i k p s) = gr_next s"
  "gr_fetches (set_task i k p s) = gr_fetches s" "gr_net (set_task i k p s) = gr_net s"
  "on_disk mc (set_task i k p s) = on_disk mc s" "tmp_of mc (set_task i k p s) = tmp_of mc s"
  by (simp_all add: set_task_def fun_eq_iff on_disk_def tmp_of_def)

lemma race_inv_task:
  assumes "race_inv pc mc truth s" and "i < length (gr_tasks s)" and "gr_tasks s ! i = (key, p)"
  shows "task_ok pc truth key (on_disk mc s key) (tmp_of mc s key) (gr_locks s key) (gr_next s) p"
  using assms unfolding race_inv_def by fastforce

text \<open>A step of a task that touches the files only.\<close>

definition file_pc :: "get_pc \<Rightarrow> bool" where
  "file_pc p \<longleftrightarrow> p \<in> {GLoad, GDiscard} \<or>
     (\<exists>l m bs. p \<in> {GLoadAgain l, GDiscardAgain l, GMakeDir l m, GWrite l m bs, GRename l m})"

lemma get_pc_kinds:
  obtains (ended) r where "p = GDone r" | (enter) "p = GEnter" | (wait) l where "p = GWait l"
  | (fetch) l where "p = GFetch l" | (forget) l m where "p = GForget l m" | (disk) "file_pc p"
  by (cases p) (auto simp: file_pc_def)

lemma file_task_step:
  "gr_tasks s ! i = (key, p) \<Longrightarrow> file_pc p \<Longrightarrow> get_task_step pc mc fetch i s =
     (case get_file_step pc mc key p (gr_fs s) of (p1, fs1) \<Rightarrow> Some (set_task i key p1 (s\<lparr>gr_fs := fs1\<rparr>)))"
  by (cases p) (auto simp: get_task_step_def file_pc_def)

lemma race_step_inv:
  assumes st: "race_step pc mc fetch s s'" and inv: "race_inv pc mc truth s"
    and pc: "postcard_ok pc" and sv: "service_ok truth fetch"
  shows "race_inv pc mc truth s'"
proof -
  obtain i where 1: "i < length (gr_tasks s)" "get_task_step pc mc fetch i s = Some s'"
    using st by (elim race_stepE)
  note i = 1(1)
  obtain key p where k: "gr_tasks s ! i = (key, p)" by fastforce
  note own = race_inv_task [OF inv i k]
  have clean: "disk_clean pc mc truth (gr_fs s)" "disk_honest (gr_fs s)"
    and lt: "\<And>k l. gr_locks s k = Some l \<Longrightarrow> l < gr_next s" using inv by (auto simp: race_inv_def)
  show ?thesis
  proof (cases p rule: get_pc_kinds)
    case (ended r)
    then show ?thesis using 1(2) k by (simp add: get_task_step_def)
  next
    case enter
    show ?thesis
    proof (cases "gr_locks s key")
      case None
      then have s': "s' = set_task i key (GWait (gr_next s))
          (s\<lparr>gr_locks := (gr_locks s)(key \<mapsto> gr_next s), gr_next := Suc (gr_next s)\<rparr>)"
        using 1(2) k enter by (simp add: get_task_step_def)
      show ?thesis
        by (rule race_inv_update [OF inv i k, where p' = "GWait (gr_next s)"])
          (use clean lt None in \<open>auto simp: s' on_disk_def tmp_of_def task_ok_def get_holds_def less_SucI split: if_splits\<close>)
    next
      case (Some l)
      then have s': "s' = set_task i key (GWait l) s" using 1(2) k enter by (simp add: get_task_step_def)
      show ?thesis
        by (rule race_inv_update [OF inv i k, where p' = "GWait l"])
          (use clean lt Some in \<open>auto simp: s' task_ok_def get_holds_def\<close>)
    qed
  next
    case (wait l)
    then have f: "lock_is_free s l" and s': "s' = set_task i key (GLoadAgain l) s"
      using 1(2) k by (auto simp: get_task_step_def split: if_splits)
    show ?thesis
      by (rule race_inv_update [OF inv i k, where p' = "GLoadAgain l"])
        (use clean lt f own wait in \<open>auto simp: s' task_ok_def get_holds_def\<close>)
  next
    case (fetch l)
    obtain r n where r: "fetch key (gr_net s) = (r, n)" by fastforce
    have fo: "r \<noteq> Panic" "\<And>m. r = Ok m \<Longrightarrow> right_manifest truth key m"
      using sv r unfolding service_ok_def fetch_ok_def right_manifest_def by blast+
    define p' where "p' = (case r of Ok m \<Rightarrow> GMakeDir l m | Err e \<Rightarrow> GDone (Err e) | Panic \<Rightarrow> GDone Panic)"
    have s': "s' = set_task i key p' (s\<lparr>gr_net := n, gr_fetches := key # gr_fetches s\<rparr>)"
      using 1(2) k fetch r by (simp add: get_task_step_def p'_def)
    have "task_ok pc truth key (on_disk mc s key) (tmp_of mc s key) (gr_locks s key) (gr_next s) p'"
      using own fetch fo by (cases r) (auto simp: p'_def task_ok_def)
    moreover have "get_holds p' = Some x \<Longrightarrow> get_holds p = Some x" for x
      using fetch by (cases r) (auto simp: p'_def get_holds_def)
    ultimately show ?thesis
      by (intro race_inv_update [OF inv i k, where p' = p'])
        (use clean lt in \<open>auto simp: s' on_disk_def tmp_of_def\<close>)
  next
    case (forget l m)
    then have s': "s' = set_task i key (GDone (Ok m)) (s\<lparr>gr_locks := (gr_locks s)(key := None)\<rparr>)"
      using 1(2) k by (simp add: get_task_step_def)
    have "on_disk mc s key \<noteq> None" "m = truth key"
      using own forget by (auto simp: task_ok_def right_manifest_def)
    then show ?thesis
      by (intro race_inv_update [OF inv i k, where p' = "GDone (Ok m)"])
        (use clean lt in \<open>auto simp: s' on_disk_def tmp_of_def task_ok_def get_holds_def split: if_splits\<close>)
  next
    case disk
    obtain p' fs' where f: "get_file_step pc mc key p (gr_fs s) = (p', fs')" by fastforce
    have s': "s' = set_task i key p' (s\<lparr>gr_fs := fs'\<rparr>)"
      using 1(2) file_task_step [OF k disk, of pc mc fetch] f by simp
    note spec = file_step_spec [OF f clean pc own [unfolded on_disk_def tmp_of_def] disk [unfolded file_pc_def]]
    have sp: "disk_clean pc mc truth fs'" "disk_honest fs'"
      "task_ok pc truth key (fs_files fs' (manifest_path mc key))
        (fs_files fs' (manifest_tmp_path mc (manifest_path mc key))) (gr_locks s key) (gr_next s) p'"
      "\<And>k'. k' \<noteq> key \<Longrightarrow> fs_files fs' (manifest_path mc k') = fs_files (gr_fs s) (manifest_path mc k') \<and>
         fs_files fs' (manifest_tmp_path mc (manifest_path mc k')) =
           fs_files (gr_fs s) (manifest_tmp_path mc (manifest_path mc k'))"
      "saving p \<or> fs_files fs' = fs_files (gr_fs s)"
      "fs_files (gr_fs s) (manifest_path mc key) \<noteq> None \<Longrightarrow> fs_files fs' (manifest_path mc key) \<noteq> None"
      "get_holds p' = None \<or> get_holds p' = get_holds p"
      using spec by blast+
    show ?thesis
      by (rule race_inv_update [OF inv i k, where p' = p'])
        (use sp lt in \<open>auto simp: s' on_disk_def tmp_of_def\<close>)
  qed
qed

lemma race_start_inv:
  assumes "disk_clean pc mc truth fs" and "disk_honest fs"
  shows "race_inv pc mc truth (race_start keys fs n)"
  using assms by (auto simp: race_inv_def race_start_def task_ok_def get_holds_def on_disk_def)

lemma race_run_inv:
  assumes "(race_step pc mc fetch)\<^sup>*\<^sup>* (race_start keys fs n) s"
    and "disk_clean pc mc truth fs" and "disk_honest fs" and "postcard_ok pc" and "service_ok truth fetch"
  shows "race_inv pc mc truth s"
  using assms(1)
  by (induction rule: rtranclp_induct)
    (auto intro: race_start_inv [OF assms(2,3)] race_step_inv [OF _ _ assms(4,5)])

section \<open>One fetch\<close>

lemma saving_unique:
  assumes inv: "race_inv pc mc truth s" and "i < length (gr_tasks s)" and "j < length (gr_tasks s)"
    and "gr_tasks s ! i = (key, p)" and "gr_tasks s ! j = (key, q)" and "saving p" and "saving q"
  shows "i = j"
proof -
  have h: "get_holds x = get_keeps x \<and> (\<exists>l. get_keeps x = Some l)" if "saving x" for x
    using that by (cases x) (auto simp: get_holds_def)
  obtain l l' where l: "get_keeps p = Some l" "get_keeps q = Some l'" using h assms(6,7) by blast
  have "gr_locks s key = Some l" "gr_locks s key = Some l'"
    using race_inv_task [OF inv assms(2,4)] race_inv_task [OF inv assms(3,5)] assms(6,7) l
    by (auto simp: task_ok_def)
  then have "get_holds (snd (gr_tasks s ! i)) = Some l" "get_holds (snd (gr_tasks s ! j)) = Some l"
    using h assms(4-7) l by simp_all
  then show ?thesis using inv assms(2,3) unfolding race_inv_def by blast
qed

text \<open>A disk that works, a service that answers, manifests that can be encoded.\<close>

definition race_calm ::
  "postcard \<Rightarrow> (manifest_key \<Rightarrow> manifest) \<Rightarrow> (manifest_key \<Rightarrow> 'w \<Rightarrow> (vfs_error, manifest) outcome \<times> 'w) \<Rightarrow> bool" where
  "race_calm pc truth fetch \<longleftrightarrow>
     (\<forall>key n. is_ok (fst (fetch key n))) \<and> (\<forall>key. pc_encode pc (cached_of_manifest (truth key)) \<noteq> None)"

fun fetched :: "get_pc \<Rightarrow> bool" where
  "fetched (GMakeDir l m) = True"
| "fetched (GWrite l m bs) = True"
| "fetched (GRename l m) = True"
| "fetched _ = False"

lemma fetched_saving: "fetched p \<Longrightarrow> saving p"
  by (cases p) auto

fun not_failed :: "get_pc \<Rightarrow> bool" where
  "not_failed (GDone r) = is_ok r"
| "not_failed _ = True"

lemma calm_file_step:
  assumes st: "get_file_step pc mc key p fs = (p', fs')" and q: "fs_faults fs = []"
    and ok: "task_ok pc truth key d (fs_files fs (manifest_tmp_path mc (manifest_path mc key))) k next p"
    and enc: "pc_encode pc (cached_of_manifest (truth key)) \<noteq> None" and f: "file_pc p"
  shows "fs_faults fs' = [] \<and> not_failed p' \<and>
    (fetched p \<longrightarrow> fetched p' \<or> fs_files fs' (manifest_path mc key) \<noteq> None)"
proof -
  note nf = next_fault_quiet [OF q]
  have ld: "fs_faults fs' = [] \<and> not_failed p'"
    if "load_step pc mc key a b fs = (p', fs')" "not_failed a" "not_failed b" for a b
    using that q by (cases "fs_files fs (manifest_path mc key)")
      (auto simp: load_step_def fs_read_def nf Let_def split: option.splits)
  have key: "right_manifest truth key m \<Longrightarrow> (fst key, m_depot_id m, m_manifest_id m) = key" for m
    by (rule right_key)
  from f ok consider (load) "p = GLoad" | (again) l where "p = GLoadAgain l" | (dir) l m where "p = GMakeDir l m"
    | (wr) l m bs where "p = GWrite l m bs" | (ren) l m where "p = GRename l m"
    by (auto simp: task_ok_def file_pc_def)
  then show ?thesis
  proof cases
    case load
    then show ?thesis using ld [of GEnter GDiscard] st by simp
  next
    case (again l)
    then show ?thesis using ld [of "GFetch l" "GDiscardAgain l"] st by simp
  next
    case (dir l m)
    then have rm: "right_manifest truth key m" using ok by (simp add: task_ok_def)
    then obtain bs where "pc_encode pc (cached_of_manifest m) = Some bs"
      using enc unfolding right_manifest_def by blast
    then show ?thesis using st dir q key [OF rm] by (auto simp: fs_create_dir_all_def nf Let_def)
  next
    case (wr l m bs)
    then have rm: "right_manifest truth key m" using ok by (simp add: task_ok_def)
    then show ?thesis using st wr q key [OF rm]
      by (auto simp: fs_write_def fs_create_def fs_write_all_def next_fault_def Let_def)
  next
    case (ren l m)
    then have rm: "right_manifest truth key m"
      and "fs_files fs (manifest_tmp_path mc (manifest_path mc key)) \<noteq> None"
      using ok by (auto simp: task_ok_def)
    then show ?thesis using st ren q key [OF rm] by (auto simp: fs_rename_def nf Let_def)
  qed
qed

definition once_inv :: "manifest_cache \<Rightarrow> 'w get_race \<Rightarrow> bool" where
  "once_inv mc s \<longleftrightarrow>
     fs_faults (gr_fs s) = [] \<and> distinct (gr_fetches s) \<and>
     (\<forall>i < length (gr_tasks s). not_failed (snd (gr_tasks s ! i))) \<and>
     (\<forall>key \<in> set (gr_fetches s). on_disk mc s key \<noteq> None \<or>
        (\<exists>i < length (gr_tasks s). fst (gr_tasks s ! i) = key \<and> fetched (snd (gr_tasks s ! i))))"

lemma once_update:
  assumes o: "once_inv mc s" and i: "i < length (gr_tasks s)" and key: "gr_tasks s ! i = (key, p)"
    and s': "gr_tasks s' = (gr_tasks s)[i := (key, p')]" and q: "fs_faults (gr_fs s') = []"
    and nf: "not_failed p'" and d: "\<And>k. on_disk mc s k \<noteq> None \<Longrightarrow> on_disk mc s' k \<noteq> None"
    and f: "gr_fetches s' = gr_fetches s \<and> (fetched p \<longrightarrow> fetched p' \<or> on_disk mc s' key \<noteq> None) \<or>
      gr_fetches s' = key # gr_fetches s \<and> key \<notin> set (gr_fetches s) \<and> fetched p'"
  shows "once_inv mc s'"
proof -
  have nn: "not_failed (snd (gr_tasks s' ! j))" if "j < length (gr_tasks s')" for j
    using o that nf i s' unfolding once_inv_def by (cases "j = i") auto
  have each: "on_disk mc s' k \<noteq> None \<or>
      (\<exists>j < length (gr_tasks s'). fst (gr_tasks s' ! j) = k \<and> fetched (snd (gr_tasks s' ! j)))"
    if k: "k \<in> set (gr_fetches s')" for k
  proof (cases "k \<in> set (gr_fetches s)")
    case True
    then consider "on_disk mc s k \<noteq> None"
      | j where "j < length (gr_tasks s)" "fst (gr_tasks s ! j) = k" "fetched (snd (gr_tasks s ! j))"
      using o unfolding once_inv_def by blast
    then show ?thesis
    proof cases
      case (2 j)
      show ?thesis
      proof (cases "j = i")
        case True
        then have "fetched p' \<or> on_disk mc s' key \<noteq> None" "k = key" using 2 key f by auto
        then show ?thesis using i s' by (metis fst_conv length_list_update nth_list_update_eq snd_conv)
      next
        case False
        then show ?thesis using 2 s' by (metis length_list_update nth_list_update_neq)
      qed
    qed (use d in blast)
  next
    case False
    then have "k = key" "fetched p'" using k f by auto
    then show ?thesis using i s' by (metis fst_conv length_list_update nth_list_update_eq snd_conv)
  qed
  have "distinct (gr_fetches s')" using o f unfolding once_inv_def by auto
  then show ?thesis unfolding once_inv_def using q nn each by blast
qed

lemma once_step:
  assumes st: "race_step pc mc fetch s s'" and inv: "race_inv pc mc truth s" and o: "once_inv mc s"
    and pc: "postcard_ok pc" and calm: "race_calm pc truth fetch"
  shows "once_inv mc s'"
proof -
  obtain i where 1: "i < length (gr_tasks s)" "get_task_step pc mc fetch i s = Some s'"
    using st by (elim race_stepE)
  note i = 1(1)
  obtain key p where k: "gr_tasks s ! i = (key, p)" by fastforce
  note own = race_inv_task [OF inv i k]
  have q: "fs_faults (gr_fs s) = []" using o by (simp add: once_inv_def)
  show ?thesis
  proof (cases p rule: get_pc_kinds)
    case (ended r)
    then show ?thesis using 1(2) k by (simp add: get_task_step_def)
  next
    case enter
    then obtain x where "gr_tasks s' = (gr_tasks s)[i := (key, GWait x)]" "gr_fs s' = gr_fs s"
      "gr_fetches s' = gr_fetches s"
      using 1(2) k by (auto simp: get_task_step_def split: option.splits)
    then show ?thesis
      by (intro once_update [OF o i k, where p' = "GWait x"]) (use q enter in \<open>auto simp: on_disk_def\<close>)
  next
    case (wait l)
    then have s': "s' = set_task i key (GLoadAgain l) s"
      using 1(2) k by (auto simp: get_task_step_def split: if_splits)
    then show ?thesis
      by (intro once_update [OF o i k, where p' = "GLoadAgain l"]) (use q wait in auto)
  next
    case (fetch l)
    obtain r n where r: "fetch key (gr_net s) = (r, n)" by fastforce
    then obtain m where m: "r = Ok m" using calm unfolding race_calm_def by (metis fst_conv is_ok_iff)
    have s': "s' = set_task i key (GMakeDir l m) (s\<lparr>gr_net := n, gr_fetches := key # gr_fetches s\<rparr>)"
      using 1(2) k fetch r m by (simp add: get_task_step_def)
    have "key \<notin> set (gr_fetches s)"
    proof
      assume "key \<in> set (gr_fetches s)"
      moreover have "on_disk mc s key = None" using own fetch by (simp add: task_ok_def)
      ultimately obtain j where j: "j < length (gr_tasks s)" "fst (gr_tasks s ! j) = key"
        "fetched (snd (gr_tasks s ! j))" using o unfolding once_inv_def by blast
      obtain q where t: "gr_tasks s ! j = (key, q)" using j(2) by (cases "gr_tasks s ! j") auto
      have "i = j" using saving_unique [OF inv i j(1) k t] fetched_saving j(3) t fetch by auto
      then show False using j(3) k fetch by simp
    qed
    then show ?thesis
      by (intro once_update [OF o i k, where p' = "GMakeDir l m"]) (use q in \<open>auto simp: s' on_disk_def\<close>)
  next
    case (forget l m)
    then have s': "s' = set_task i key (GDone (Ok m)) (s\<lparr>gr_locks := (gr_locks s)(key := None)\<rparr>)"
      using 1(2) k by (simp add: get_task_step_def)
    then show ?thesis
      by (intro once_update [OF o i k, where p' = "GDone (Ok m)"]) (use q forget in \<open>auto simp: on_disk_def\<close>)
  next
    case disk
    obtain p' fs' where f: "get_file_step pc mc key p (gr_fs s) = (p', fs')" by fastforce
    have s': "s' = set_task i key p' (s\<lparr>gr_fs := fs'\<rparr>)"
      using 1(2) file_task_step [OF k disk, of pc mc fetch] f by simp
    have clean: "disk_clean pc mc truth (gr_fs s)" "disk_honest (gr_fs s)" using inv by (auto simp: race_inv_def)
    note spec = file_step_spec [OF f clean pc own [unfolded on_disk_def tmp_of_def] disk [unfolded file_pc_def]]
    have "pc_encode pc (cached_of_manifest (truth key)) \<noteq> None" using calm unfolding race_calm_def by blast
    note c = calm_file_step [OF f q own [unfolded on_disk_def tmp_of_def] this disk]
    have sp: "k \<noteq> key \<Longrightarrow> fs_files fs' (manifest_path mc k) = fs_files (gr_fs s) (manifest_path mc k)"
      "fs_files (gr_fs s) (manifest_path mc key) \<noteq> None \<Longrightarrow> fs_files fs' (manifest_path mc key) \<noteq> None" for k
      using spec by blast+
    have grow: "on_disk mc s k \<noteq> None \<Longrightarrow> on_disk mc s' k \<noteq> None" for k
      using sp by (cases "k = key") (simp_all add: s' on_disk_def)
    show ?thesis
      by (intro once_update [OF o i k, where p' = p']) (use c grow in \<open>auto simp: s' on_disk_def\<close>)
  qed
qed


section \<open>Every race ends\<close>

fun get_rank :: "get_pc \<Rightarrow> nat" where
  "get_rank GLoad = 11"
| "get_rank GDiscard = 10"
| "get_rank GEnter = 9"
| "get_rank (GWait l) = 8"
| "get_rank (GLoadAgain l) = 7"
| "get_rank (GDiscardAgain l) = 6"
| "get_rank (GFetch l) = 5"
| "get_rank (GMakeDir l m) = 4"
| "get_rank (GWrite l m bs) = 3"
| "get_rank (GRename l m) = 2"
| "get_rank (GForget l m) = 1"
| "get_rank (GDone r) = 0"

definition race_work :: "'w get_race \<Rightarrow> nat" where
  "race_work s = sum_list (map (\<lambda>t. get_rank (snd t)) (gr_tasks s))"

lemma file_step_rank:
  assumes "get_file_step pc mc key p fs = (p', fs')" and "file_pc p"
  shows "get_rank p' < get_rank p"
proof -
  have load: "get_rank x < n"
    if "load_step pc mc key a b fs = (x, y)" "get_rank a < n" "get_rank b < n" for a b x y n
    using that by (cases "fs_read (manifest_path mc key) fs"; cases "fst (fs_read (manifest_path mc key) fs)")
      (auto simp: load_step_def Let_def split: option.splits if_splits)
  have disc: "get_rank x < n" if "discard_step mc key a fs = (x, y)" "get_rank a < n" for a x y n
    using that by (cases "fs_remove_file (manifest_path mc key) fs"; cases "fst (fs_remove_file (manifest_path mc key) fs)")
      (auto simp: discard_step_def Let_def)
  from assms show ?thesis
    by (cases p) (auto simp: file_pc_def Let_def split: prod.splits outcome.splits option.splits
        dest: load [where n = 11] load [where n = 7] disc [where n = 10] disc [where n = 6])
qed

lemma race_step_work:
  assumes "race_step pc mc fetch s s'"
  shows "race_work s' < race_work s" and "length (gr_tasks s') = length (gr_tasks s)"
proof -
  obtain i where 1: "i < length (gr_tasks s)" "get_task_step pc mc fetch i s = Some s'"
    using assms by (elim race_stepE)
  obtain key p where k: "gr_tasks s ! i = (key, p)" by fastforce
  have "\<exists>p'. gr_tasks s' = (gr_tasks s)[i := (key, p')] \<and> get_rank p' < get_rank p"
  proof (cases p rule: get_pc_kinds)
    case (fetch l)
    obtain r n where r: "fetch key (gr_net s) = (r, n)" by fastforce
    then show ?thesis using 1(2) k fetch by (cases r) (auto simp: get_task_step_def)
  next
    case disk
    obtain p' fs' where f: "get_file_step pc mc key p (gr_fs s) = (p', fs')" by fastforce
    then show ?thesis using 1(2) file_task_step [OF k disk, of pc mc fetch] file_step_rank [OF f disk] by auto
  qed (use 1(2) k in \<open>auto simp: get_task_step_def split: option.splits if_splits\<close>)
  then obtain p' where p': "gr_tasks s' = (gr_tasks s)[i := (key, p')]" "get_rank p' < get_rank p" by blast
  let ?ws = "map (\<lambda>t. get_rank (snd t)) (gr_tasks s)"
  have "race_work s' = sum_list (?ws[i := get_rank p'])" by (simp add: race_work_def p'(1) map_update)
  moreover have "get_rank p \<le> sum_list ?ws"
    using 1(1) k member_le_sum_list [of "get_rank p" ?ws] by (force simp: in_set_conv_nth)
  ultimately show "race_work s' < race_work s"
    using 1(1) k p'(2) by (simp add: race_work_def sum_list_update)
  show "length (gr_tasks s') = length (gr_tasks s)" using p'(1) by simp
qed

lemma race_steps_work:
  assumes "(race_step pc mc fetch ^^ n) s s'"
  shows "race_work s' + n \<le> race_work s \<and> length (gr_tasks s') = length (gr_tasks s)"
  using assms
proof (induction n arbitrary: s')
  case (Suc n)
  then obtain u where u: "(race_step pc mc fetch ^^ n) s u" "race_step pc mc fetch u s'" by auto
  then show ?case using Suc.IH [OF u(1)] race_step_work [OF u(2)] by simp
qed simp

lemma race_progress:
  assumes "\<nexists>s'. race_step pc mc fetch s s'" and "i < length (gr_tasks s)"
  shows "\<exists>r. snd (gr_tasks s ! i) = GDone r"
proof -
  have no: "get_task_step pc mc fetch j s = None" if "j < length (gr_tasks s)" for j
    using assms(1) race_step.intros [OF that, of pc mc fetch] by (cases "get_task_step pc mc fetch j s") auto
  have w: "(\<exists>r. snd (gr_tasks s ! j) = GDone r) \<or> (\<exists>l. snd (gr_tasks s ! j) = GWait l)"
    if j: "j < length (gr_tasks s)" for j
  proof -
    obtain key p where k: "gr_tasks s ! j = (key, p)" by fastforce
    show ?thesis
      using no [OF j] k file_task_step [OF k, of pc mc fetch]
      by (cases p rule: get_pc_kinds)
        (auto simp: get_task_step_def split: option.splits prod.splits if_splits)
  qed
  have "lock_is_free s l" for l
    using w by (fastforce simp: lock_is_free_def list_all_length get_holds_def split: get_pc.splits)
  moreover obtain key p where k: "gr_tasks s ! i = (key, p)" by fastforce
  ultimately have "p \<noteq> GWait l" for l using no [OF assms(2)] by (auto simp: get_task_step_def)
  then show ?thesis using w [OF assms(2)] k by auto
qed

section \<open>Right answers whatever is on the disk\<close>

text \<open>
  A manifest file, whole or cut short, never passes for the manifest of another key: what it
  decodes to, if anything, is the manifest of its key.
\<close>

definition true_bytes :: "postcard \<Rightarrow> (manifest_key \<Rightarrow> manifest) \<Rightarrow> manifest_key \<Rightarrow> bytes option \<Rightarrow> bool" where
  "true_bytes pc truth key d \<longleftrightarrow>
     (\<forall>bs c. d = Some bs \<longrightarrow> pc_decode pc bs = Some c \<longrightarrow> manifest_of_cached c = truth key)"

text \<open>An encoding that was cut short does not decode to something else.\<close>

definition postcard_cut :: "postcard \<Rightarrow> bool" where
  "postcard_cut pc \<longleftrightarrow>
     (\<forall>c bs n c'. pc_encode pc c = Some bs \<longrightarrow> pc_decode pc (take n bs) = Some c' \<longrightarrow> c' = c)"

fun carries ::
  "postcard \<Rightarrow> (manifest_key \<Rightarrow> manifest) \<Rightarrow> manifest_key \<Rightarrow> bytes option \<Rightarrow> get_pc \<Rightarrow> bool" where
  "carries pc truth key t (GMakeDir l m) = right_manifest truth key m"
| "carries pc truth key t (GWrite l m bs) =
     (right_manifest truth key m \<and> pc_encode pc (cached_of_manifest m) = Some bs)"
| "carries pc truth key t (GRename l m) = (right_manifest truth key m \<and> true_bytes pc truth key t)"
| "carries pc truth key t (GForget l m) = right_manifest truth key m"
| "carries pc truth key t (GDone r) = (r \<noteq> Panic \<and> (\<forall>m. r = Ok m \<longrightarrow> m = truth key))"
| "carries pc truth key t p = True"

definition truth_inv ::
  "postcard \<Rightarrow> manifest_cache \<Rightarrow> (manifest_key \<Rightarrow> manifest) \<Rightarrow> 'w get_race \<Rightarrow> bool" where
  "truth_inv pc mc truth s \<longleftrightarrow>
     manifests_inv pc mc truth (gr_fs s) \<and>
     list_all (\<lambda>(key, p). carries pc truth key (tmp_of mc s key) p) (gr_tasks s)"

lemma true_bytes_None [simp]: "true_bytes pc truth key None"
  by (simp add: true_bytes_def)

lemma carries_tmp: "carries pc truth key t p \<Longrightarrow> true_bytes pc truth key t' \<or> t' = t \<Longrightarrow> carries pc truth key t' p"
  by (cases p) auto

lemma cached_back: "manifest_of_cached (cached_of_manifest m) = m"
  by (simp add: manifest_of_cached_def cached_of_manifest_def comp_def)

lemma true_bytes_cut:
  assumes "postcard_cut pc" and "pc_encode pc (cached_of_manifest m) = Some bs" and "right_manifest truth key m"
  shows "true_bytes pc truth key (Some (take n bs))"
  using assms cached_back unfolding true_bytes_def postcard_cut_def right_manifest_def by (metis option.inject)

lemma true_bytes_whole:
  assumes "postcard_cut pc" and "pc_encode pc (cached_of_manifest m) = Some bs" and "right_manifest truth key m"
  shows "true_bytes pc truth key (Some bs)"
  using true_bytes_cut [of pc m bs truth key "length bs"] assms by simp

lemma fs_remove_no_panic: "fs_remove_file p fs \<noteq> (Panic, fs')"
  by (auto simp: fs_remove_file_def split: prod.splits option.splits)

lemma fs_write_cut:
  assumes "fs_write p bs fs = (r, fs')"
  shows "fs_files fs' p = fs_files fs p \<or> (\<exists>n. fs_files fs' p = Some (take n bs))"
    using assms
  by (auto simp: fs_write_def fs_create_def fs_write_all_def split: prod.splits option.splits)
   (metis take_all order_refl take0 | metis take_0)+

lemma manifests_inv_true:
  "manifests_inv pc mc truth fs \<longleftrightarrow> (\<forall>key. true_bytes pc truth key (fs_files fs (manifest_path mc key)))"
  by (auto simp: manifests_inv_def true_bytes_def)

lemma load_carries:
  assumes "load_step pc mc key missing stale fs = (p, fs')" and "manifests_inv pc mc truth fs"
  shows "fs_files fs' = fs_files fs \<and> (p = missing \<or> p = stale \<or> carries pc truth key t p)"
proof -
  obtain g fs1 where g: "fs_read (manifest_path mc key) fs = (g, fs1)" by fastforce
  note f = fs_read_files [OF g]
  show ?thesis
  proof (cases g)
    case (Ok bs)
    have "manifest_of_cached x = truth key" if "pc_decode pc bs = Some x" for x
      using assms(2) g Ok fs_read_Ok that unfolding manifests_inv_def by blast
    then show ?thesis using assms(1) f g Ok by (auto simp: load_step_def Let_def split: option.splits)
  next
    case (Err e)
    then show ?thesis using assms f g by (auto simp: load_step_def Let_def split: if_splits)
  qed (use g fs_read_no_panic in metis)
qed

lemma discard_carries:
  assumes "discard_step mc key missing fs = (p, fs')"
  shows "(fs_files fs' = fs_files fs \<or> fs_files fs' = (fs_files fs)(manifest_path mc key := None)) \<and>
    (p = missing \<or> carries pc truth key t p)"
proof -
  obtain g fs1 where g: "fs_remove_file (manifest_path mc key) fs = (g, fs1)" by fastforce
  with fs_remove_files [OF g] show ?thesis using assms fs_remove_no_panic
    by (cases g) (auto simp: discard_step_def Let_def)
qed

lemma file_step_truth:
  assumes st: "get_file_step pc mc key p fs = (p', fs')"
    and d: "manifests_inv pc mc truth fs" and c: "postcard_cut pc"
    and ok: "carries pc truth key (fs_files fs (manifest_tmp_path mc (manifest_path mc key))) p"
  shows "manifests_inv pc mc truth fs' \<and>
    carries pc truth key (fs_files fs' (manifest_tmp_path mc (manifest_path mc key))) p' \<and>
    (\<forall>k. true_bytes pc truth k (fs_files fs' (manifest_tmp_path mc (manifest_path mc k))) \<or>
         fs_files fs' (manifest_tmp_path mc (manifest_path mc k)) =
           fs_files fs (manifest_tmp_path mc (manifest_path mc k)))"
proof -
  let ?p = "manifest_path mc key"
  let ?t = "manifest_tmp_path mc ?p"
  note tp = tmp_paths [of mc] tmp_paths(1) [of mc, symmetric] manifest_path_inject
  have load: ?thesis if "load_step pc mc key missing stale fs = (p', fs')"
    "\<And>t. carries pc truth key t missing" "\<And>t. carries pc truth key t stale" for missing stale
    using load_carries [OF that(1) d, of "fs_files fs ?t"] that(2,3) d by (auto simp: manifests_inv_true)
  have discard: ?thesis if "discard_step mc key missing fs = (p', fs')"
    "\<And>t. carries pc truth key t missing" for missing
    using discard_carries [OF that(1), of pc truth "fs_files fs' ?t"] that(2) d tp
    by (auto simp: manifests_inv_true)
  show ?thesis
  proof (cases p)
    case GLoad
    then show ?thesis using st by (intro load [of GEnter GDiscard]) simp_all
  next
    case (GLoadAgain l)
    then show ?thesis using st by (intro load [of "GFetch l" "GDiscardAgain l"]) simp_all
  next
    case GDiscard
    then show ?thesis using st by (intro discard [of GEnter]) simp_all
  next
    case (GDiscardAgain l)
    then show ?thesis using st by (intro discard [of "GFetch l"]) simp_all
  next
    case (GMakeDir l m)
    then have m: "right_manifest truth key m" using ok by simp
    obtain q fs1 where q: "fs_create_dir_all (butlast ?p) fs = (q, fs1)" by fastforce
    then show ?thesis using st GMakeDir m d fs_create_dir_all_files [OF q]
      by (cases q) (auto simp: Let_def right_key [OF m] manifests_inv_true split: option.splits)
  next
    case (GWrite l m bs)
    then have m: "right_manifest truth key m" "pc_encode pc (cached_of_manifest m) = Some bs" using ok by simp_all
    obtain q fs1 where q: "fs_write ?t bs fs = (q, fs1)" by fastforce
    note f = fs_write_files [OF q]
    have e: "fs' = fs1" "p' = (case q of Ok u \<Rightarrow> GRename l m
        | Err e \<Rightarrow> GDone (Err (VfsManifestCache (CacheIo ''writing'' ?t e))) | Panic \<Rightarrow> GDone Panic)"
      using st GWrite q by (cases q; simp add: Let_def right_key [OF m(1)])+
    have t: "true_bytes pc truth key (fs_files fs1 ?t) \<or> fs_files fs1 ?t = fs_files fs ?t"
      using fs_write_cut [OF q] true_bytes_cut [OF c m(2,1)] by metis
    have g: "true_bytes pc truth key (fs_files fs1 ?t)" if "q = Ok u" for u
      using f(3) [OF that] true_bytes_whole [OF c m(2,1)] by simp
    have k: "k = key \<or> fs_files fs1 (manifest_tmp_path mc (manifest_path mc k)) =
        fs_files fs (manifest_tmp_path mc (manifest_path mc k))" for k
      using f(1) tp by metis
    have "manifests_inv pc mc truth fs1" using d f(1) tp by (simp add: manifests_inv_true)
    moreover have "carries pc truth key (fs_files fs1 ?t) p'"
      using g m(1) f(2) by (cases q) (simp_all add: e(2))
    moreover have "true_bytes pc truth k (fs_files fs1 (manifest_tmp_path mc (manifest_path mc k))) \<or>
        fs_files fs1 (manifest_tmp_path mc (manifest_path mc k)) =
          fs_files fs (manifest_tmp_path mc (manifest_path mc k))" for k using t k [of k] by metis
    ultimately show ?thesis unfolding e(1) by blast
  next
    case (GRename l m)
    then have m: "right_manifest truth key m" "true_bytes pc truth key (fs_files fs ?t)" using ok by simp_all
    obtain q fs1 where q: "fs_rename ?t ?p fs = (q, fs1)" by fastforce
    then show ?thesis using st GRename m d fs_rename_files [OF q] tp
      by (cases q) (auto simp: Let_def right_key [OF m(1)] manifests_inv_true)
  qed (use st ok d in auto)
qed

lemma race_step_truth:
  assumes "race_step pc mc fetch s s'" and inv: "truth_inv pc mc truth s"
    and c: "postcard_cut pc" and sv: "service_ok truth fetch"
  shows "truth_inv pc mc truth s'"
  using assms(1)
proof (rule race_stepE)
  fix i assume i: "i < length (gr_tasks s)" and st: "get_task_step pc mc fetch i s = Some s'"
  obtain key p where k: "gr_tasks s ! i = (key, p)" by fastforce
  have d: "manifests_inv pc mc truth (gr_fs s)" using inv by (simp add: truth_inv_def)
  have all: "carries pc truth key' (tmp_of mc s key') q" if "(key', q) \<in> set (gr_tasks s)" for key' q
    using inv that by (auto simp: truth_inv_def list_all_iff)
  have ok: "carries pc truth key (tmp_of mc s key) p" using all i k nth_mem by metis
  have keep: "truth_inv pc mc truth (set_task i key p' u)"
    if "gr_tasks u = gr_tasks s" "gr_fs u = gr_fs s" "carries pc truth key (tmp_of mc s key) p'" for p' u
    using that d all by (auto simp: truth_inv_def list_all_iff set_task_def tmp_of_def dest!: set_update_subset_insert [THEN subsetD])
  have filest: "truth_inv pc mc truth s'"
    if f: "get_file_step pc mc key p (gr_fs s) = (p1, fs1)" "s' = set_task i key p1 (s\<lparr>gr_fs := fs1\<rparr>)" for p1 fs1
  proof -
    have t: "carries pc truth key (fs_files (gr_fs s) (manifest_tmp_path mc (manifest_path mc key))) p"
      using ok by (simp add: tmp_of_def)
    note fs = file_step_truth [OF f(1) d c t]
    have "carries pc truth key' (tmp_of mc s' key') q" if "(key', q) \<in> set (gr_tasks s')" for key' q
    proof -
      have "(key', q) = (key, p1) \<or> (key', q) \<in> set (gr_tasks s)"
        using that set_update_subset_insert by (fastforce simp: f(2) set_task_def)
      then show ?thesis
      proof
        assume "(key', q) = (key, p1)"
        then show ?thesis using fs by (simp add: f(2) tmp_of_def set_task_def)
      next
        assume "(key', q) \<in> set (gr_tasks s)"
        from carries_tmp [OF all [OF this]] show ?thesis
          using conjunct2 [OF conjunct2 [OF fs]] unfolding f(2) tmp_of_def set_task_def by (simp del: split_paired_All)
      qed
    qed
    then show ?thesis using fs by (auto simp: truth_inv_def list_all_iff f(2) set_task_def)
  qed
  show ?thesis
  proof (cases p)
    case GEnter
    then show ?thesis using st k by (auto simp: get_task_step_def split: option.splits intro!: keep)
  next
    case (GWait l)
    then show ?thesis using st k by (auto simp: get_task_step_def split: if_splits intro!: keep)
  next
    case (GFetch l)
    obtain r n where r: "fetch key (gr_net s) = (r, n)" by fastforce
    have "r \<noteq> Panic \<and> (\<forall>m. r = Ok m \<longrightarrow> right_manifest truth key m)"
      using sv r unfolding service_ok_def fetch_ok_def right_manifest_def by blast
    then show ?thesis using st k r GFetch
      by (cases r) (auto simp: get_task_step_def intro!: keep)
  next
    case (GForget l m)
    then show ?thesis using st k ok by (auto simp: get_task_step_def right_manifest_def intro!: keep)
  next
    case (GDone r)
    then show ?thesis using st k by (simp add: get_task_step_def)
  qed (use st k filest in \<open>auto simp: get_task_step_def split: prod.splits\<close>)
qed

lemma race_run_truth:
  assumes "(race_step pc mc fetch)\<^sup>*\<^sup>* (race_start keys fs n) s" and "manifests_inv pc mc truth fs"
    and "postcard_cut pc" and "service_ok truth fetch"
  shows "truth_inv pc mc truth s"
  using assms(1)
proof (induction rule: rtranclp_induct)
  case base
  show ?case using assms(2) by (simp add: truth_inv_def race_start_def list_all_iff)
next
  case (step u v)
  then show ?case using race_step_truth [OF step.hyps(2) _ assms(3,4)] by blast
qed

section \<open>Properties of racing callers\<close>

text \<open>
  C15: Callers that race on the manifest cache are never handed a wrong manifest.  Whatever files the
  cache starts with, stale, cut short or undecodable ones included, as long as none decodes to
  the manifest of another key, whatever fails on the disk and on the network, a false "not
  found" included, and however the steps of the callers interleave: a call that returns a
  manifest returns the one of its key, none panics, and no file of the cache ever decodes to the
  manifest of another key.  The codec is relied on not to read an encoding that was cut short as
  another manifest, the service to answer with the manifest it was asked for.
\<close>

theorem racing_gets_sound:
  assumes "(race_step pc mc fetch)\<^sup>*\<^sup>* (race_start keys fs n) s"
    and "manifests_inv pc mc truth fs" and "postcard_cut pc" and "service_ok truth fetch"
  shows "manifests_inv pc mc truth (gr_fs s) \<and>
    (\<forall>i < length (gr_tasks s). \<forall>key r. gr_tasks s ! i = (key, GDone r) \<longrightarrow>
       r \<noteq> Panic \<and> (\<forall>m. r = Ok m \<longrightarrow> m = truth key))"
proof -
  have inv: "truth_inv pc mc truth s" using race_run_truth [OF assms] .
  have "carries pc truth key (tmp_of mc s key) (GDone r)"
    if "i < length (gr_tasks s)" "gr_tasks s ! i = (key, GDone r)" for i key r
    using inv nth_mem [OF that(1)] that(2) by (auto simp: truth_inv_def list_all_iff)
  then show ?thesis using inv by (auto simp: truth_inv_def)
qed

text \<open>
  C16: The lock of a key excludes.  On a disk that starts with whole manifests only (no file that is
  stale, cut short or undecodable) and may fail in any way but one, denying a file that is there,
  however the callers interleave: the manifest files stay whole and right, and at any time at
  most one caller of a key is between the start of its fetch and the end of its save.  A file that
  does not decode has to be excluded, because the code removes it without the lock, by then
  perhaps the good file of another caller (\<open>stale_load_deletes_fresh\<close>).
\<close>

theorem racing_saves_exclusive:
  assumes "(race_step pc mc fetch)\<^sup>*\<^sup>* (race_start keys fs n) s"
    and "disk_clean pc mc truth fs" and "disk_honest fs" and "postcard_ok pc" and "service_ok truth fetch"
  shows "disk_clean pc mc truth (gr_fs s) \<and>
    (\<forall>i j key p q. i < length (gr_tasks s) \<and> j < length (gr_tasks s) \<and> gr_tasks s ! i = (key, p) \<and>
       gr_tasks s ! j = (key, q) \<and> saving p \<and> saving q \<longrightarrow> i = j)"
proof -
  have inv: "race_inv pc mc truth s" using race_run_inv [OF assms] .
  then have "disk_clean pc mc truth (gr_fs s)" by (simp add: race_inv_def)
  then show ?thesis using saving_unique [OF inv] by blast
qed

text \<open>
  C14: A manifest is fetched once however many callers want it at the same time: on a disk that
  works and holds no stale, cut short or undecodable manifest file to begin with, and with a
  service that answers, no key is fetched twice, and every call that has returned has the
  manifest of its key.  With an undecodable file at the start a caller can delete what another
  has just saved (\<open>stale_load_deletes_fresh\<close>); a run over \<open>stale_fs\<close> at the end of this theory
  fetches one manifest twice.
\<close>

theorem racing_gets_fetch_once:
  assumes "(race_step pc mc fetch)\<^sup>*\<^sup>* (race_start keys fs n) s"
    and "disk_clean pc mc truth fs" and "fs_faults fs = []" and "postcard_ok pc" and "service_ok truth fetch"
    and "race_calm pc truth fetch"
  shows "distinct (gr_fetches s) \<and>
    (\<forall>i < length (gr_tasks s). \<forall>key r. gr_tasks s ! i = (key, GDone r) \<longrightarrow> r = Ok (truth key))"
proof -
  have h: "disk_honest fs" using assms(3) by (simp add: disk_honest_def)
  have "race_inv pc mc truth s \<and> once_inv mc s"
    using assms(1)
  proof (induction rule: rtranclp_induct)
    case base
    have "once_inv mc (race_start keys fs n)" using assms(3) by (simp add: once_inv_def race_start_def)
    then show ?case using race_start_inv [OF assms(2) h, of keys n] by blast
  next
    case (step u v)
    then show ?case using race_step_inv [OF step.hyps(2) _ assms(4,5)] once_step [OF step.hyps(2) _ _ assms(4,6)]
      by blast
  qed
  then have inv: "race_inv pc mc truth s" and o: "once_inv mc s" by blast+
  have "r = Ok (truth key)" if i: "i < length (gr_tasks s)" "gr_tasks s ! i = (key, GDone r)" for i key r
  proof -
    have "\<forall>m. r = Ok m \<longrightarrow> m = truth key" using race_inv_task [OF inv i] by (simp add: task_ok_def)
    moreover have "is_ok r" using o i unfolding once_inv_def by (metis not_failed.simps(1) snd_conv)
    ultimately show ?thesis by (auto simp: is_ok_iff)
  qed
  then show ?thesis using o unfolding once_inv_def by blast
qed

text \<open>
  Racing callers all return: a run has at most eleven steps for each of them, and where no step
  is left every call has returned.  The locks cannot block each other.
\<close>

theorem racing_gets_finish:
  assumes "(race_step pc mc fetch ^^ steps) (race_start keys fs n) s"
  shows "steps \<le> 11 * length keys \<and>
    ((\<exists>s'. race_step pc mc fetch s s') \<or>
     (length (gr_tasks s) = length keys \<and> (\<forall>i < length keys. \<exists>r. snd (gr_tasks s ! i) = GDone r)))"
proof -
  have "race_work (race_start keys fs n) = 11 * length keys"
    by (simp add: race_work_def race_start_def comp_def sum_list_triv)
  moreover have "length (gr_tasks (race_start keys fs n)) = length keys" by (simp add: race_start_def)
  ultimately show ?thesis
    using race_steps_work [OF assms] race_progress [of pc mc fetch s] by auto
qed

section \<open>A caller alone\<close>

definition solo ::
  "manifest_key \<Rightarrow> get_pc \<Rightarrow> fsys \<Rightarrow> 'w \<Rightarrow> (manifest_key \<Rightarrow> nat option) \<Rightarrow> nat \<Rightarrow> manifest_key list \<Rightarrow> 'w get_race" where
  "solo key p fs n lk nx log =
     \<lparr>gr_fs = fs, gr_net = n, gr_locks = lk, gr_next = nx, gr_tasks = [(key, p)], gr_fetches = log\<rparr>"

lemma solo_step:
  "get_task_step pc mc fetch 0 (solo key p fs n lk nx log) = Some s' \<Longrightarrow>
     race_step pc mc fetch (solo key p fs n lk nx log) s'"
  by (rule race_step.intros [where i = 0]) (simp add: solo_def)

lemma solo_file:
  assumes "file_pc p" and "get_file_step pc mc key p fs = (p1, fs1)"
  shows "race_step pc mc fetch (solo key p fs n lk nx log) (solo key p1 fs1 n lk nx log)"
  using file_task_step [of "solo key p fs n lk nx log" 0 key p pc mc fetch] assms
  by (intro solo_step) (simp add: solo_def set_task_def)

text \<open>What a load and a save come to in the terms of the steps.\<close>

fun load_answer :: "get_pc \<Rightarrow> (cache_error, manifest option) outcome \<Rightarrow> get_pc" where
  "load_answer missing (Ok (Some m)) = GDone (Ok m)"
| "load_answer missing (Ok None) = missing"
| "load_answer missing (Err e) = GDone (Err (VfsManifestCache e))"
| "load_answer missing Panic = GDone Panic"

fun save_answer :: "nat \<Rightarrow> manifest \<Rightarrow> (cache_error, unit) outcome \<Rightarrow> get_pc" where
  "save_answer l m (Ok u) = GForget l m"
| "save_answer l m (Err e) = GDone (Err (VfsManifestCache e))"
| "save_answer l m Panic = GDone Panic"

lemma solo_load:
  assumes p: "p = GLoad \<and> missing = GEnter \<and> stale = GDiscard \<or>
      p = GLoadAgain l \<and> missing = GFetch l \<and> stale = GDiscardAgain l"
    and ld: "manifest_load pc mc key fs = (r, fs')"
  shows "(race_step pc mc fetch)\<^sup>*\<^sup>* (solo key p fs n lk nx log) (solo key (load_answer missing r) fs' n lk nx log)"
proof -
  obtain g fs1 where g: "fs_read (manifest_path mc key) fs = (g, fs1)" by fastforce
  have fp: "file_pc p" "file_pc stale" using p by (auto simp: file_pc_def)
  have st: "get_file_step pc mc key p fs = load_step pc mc key missing stale fs"
    "get_file_step pc mc key stale fs1 = discard_step mc key missing fs1"
    using p by auto
  show ?thesis
  proof (cases "\<exists>bs. g = Ok bs \<and> pc_decode pc bs = None")
    case True
    then have "load_step pc mc key missing stale fs = (stale, fs1)" using g by (auto simp: load_step_def Let_def)
    then have 1: "race_step pc mc fetch (solo key p fs n lk nx log) (solo key stale fs1 n lk nx log)"
      using solo_file [OF fp(1)] st(1) by metis
    obtain q fs2 where q: "fs_remove_file (manifest_path mc key) fs1 = (q, fs2)" by fastforce
    have "discard_step mc key missing fs1 = (load_answer missing r, fs')"
      using ld g q True by (cases q) (auto simp: manifest_load_def discard_step_def Let_def)
    then have "race_step pc mc fetch (solo key stale fs1 n lk nx log) (solo key (load_answer missing r) fs' n lk nx log)"
      using solo_file [OF fp(2)] st(2) by metis
    with 1 show ?thesis by simp
  next
    case False
    then have "load_step pc mc key missing stale fs = (load_answer missing r, fs')"
      using ld g by (cases g) (auto simp: manifest_load_def load_step_def Let_def split: option.splits if_splits)
    then have "race_step pc mc fetch (solo key p fs n lk nx log) (solo key (load_answer missing r) fs' n lk nx log)"
      using solo_file [OF fp(1)] st(1) by metis
    then show ?thesis by simp
  qed
qed

lemma solo_save:
  assumes sv: "manifest_save pc mc (fst key) m fs = (r, fs')"
  shows "(race_step pc mc fetch)\<^sup>*\<^sup>* (solo key (GMakeDir l m) fs n lk nx log)
    (solo key (save_answer l m r) fs' n lk nx log)"
proof -
  let ?p = "manifest_path mc (fst key, m_depot_id m, m_manifest_id m)"
  let ?s = "\<lambda>p fs. solo key p fs n lk nx log"
  have fp: "file_pc (GMakeDir l m)" "file_pc (GWrite l m bs)" "file_pc (GRename l m)" for bs
    by (auto simp: file_pc_def)
  note one = r_into_rtranclp [of "race_step pc mc fetch"]
  obtain g1 fs1 where 1: "fs_create_dir_all (butlast ?p) fs = (g1, fs1)" by fastforce
  show ?thesis
  proof (cases "\<exists>bs. g1 = Ok () \<and> pc_encode pc (cached_of_manifest m) = Some bs")
    case False
    then have "get_file_step pc mc key (GMakeDir l m) fs = (save_answer l m r, fs')"
      using sv 1 by (cases g1) (auto simp: manifest_save_def Let_def split: option.splits)
    then show ?thesis by (intro one solo_file [OF fp(1)])
  next
    case True
    then obtain bs where bs: "g1 = Ok ()" "pc_encode pc (cached_of_manifest m) = Some bs" by blast
    have a: "race_step pc mc fetch (?s (GMakeDir l m) fs) (?s (GWrite l m bs) fs1)"
      using 1 bs by (intro solo_file [OF fp(1)]) (simp add: Let_def)
    obtain g2 fs2 where 2: "fs_write (manifest_tmp_path mc ?p) bs fs1 = (g2, fs2)" by fastforce
    show ?thesis
    proof (cases "g2 = Ok ()")
      case False
      then have "get_file_step pc mc key (GWrite l m bs) fs1 = (save_answer l m r, fs')"
        using sv 1 2 bs by (cases g2) (auto simp: manifest_save_def Let_def manifest_tmp_path_def)
      then have "race_step pc mc fetch (?s (GWrite l m bs) fs1) (?s (save_answer l m r) fs')"
        by (intro solo_file [OF fp(2)])
      with a show ?thesis by simp
    next
      case True
      have b: "race_step pc mc fetch (?s (GWrite l m bs) fs1) (?s (GRename l m) fs2)"
        using 2 True by (intro solo_file [OF fp(2)]) (simp add: Let_def)
      obtain g3 fs3 where 3: "fs_rename (manifest_tmp_path mc ?p) ?p fs2 = (g3, fs3)" by fastforce
      have "get_file_step pc mc key (GRename l m) fs2 = (save_answer l m r, fs')"
        using sv 1 2 3 bs True by (cases g3) (auto simp: manifest_save_def Let_def manifest_tmp_path_def)
      then have "race_step pc mc fetch (?s (GRename l m) fs2) (?s (save_answer l m r) fs')"
        by (intro solo_file [OF fp(3)])
      with a b show ?thesis by simp
    qed
  qed
qed

text \<open>
  A call that runs alone does what \<open>get_or_fetch\<close> does: it ends with the same result and the
  same disk and network, and the same keys are left in the in-flight table.
\<close>

lemma lone_get_is_sequential:
  assumes "get_or_fetch pc mc key (fetch key) w = (r, w')" and "dom lk = set (mcw_in_flight w)"
  shows "\<exists>lk' nx' log'. (race_step pc mc fetch)\<^sup>*\<^sup>* (solo key GLoad (mcw_fs w) (mcw_net w) lk nx log)
      (solo key (GDone r) (mcw_fs w') (mcw_net w') lk' nx' log') \<and> dom lk' = set (mcw_in_flight w')"
proof -
  let ?n = "mcw_net w"
  obtain g1 fs1 where 1: "manifest_load pc mc key (mcw_fs w) = (g1, fs1)" by fastforce
  note s1 = solo_load [of GLoad GEnter GDiscard 0, OF _ 1, of fetch ?n lk nx log]
  show ?thesis
  proof (cases "g1 = Ok None")
    case False
    then have "load_answer GEnter g1 = GDone r" "mcw_fs w' = fs1" "mcw_net w' = ?n"
      "mcw_in_flight w' = mcw_in_flight w"
      using assms(1) 1 by (cases g1; auto simp: get_or_fetch_def split: option.splits)+
    then show ?thesis using s1 assms(2) by auto
  next
    case True
    define l where "l = (case lk key of Some l \<Rightarrow> l | None \<Rightarrow> nx)"
    define lk1 where "lk1 = lk(key \<mapsto> l)"
    define nx1 where "nx1 = (case lk key of Some l \<Rightarrow> nx | None \<Rightarrow> Suc nx)"
    have "lk key = Some x \<Longrightarrow> lk(key \<mapsto> x) = lk" for x by auto
    then have e: "race_step pc mc fetch (solo key GEnter fs1 ?n lk nx log) (solo key (GWait l) fs1 ?n lk1 nx1 log)"
      by (intro solo_step) (simp add: solo_def get_task_step_def set_task_def l_def lk1_def nx1_def split: option.split)
    have "lock_is_free (solo key (GWait l) fs1 ?n lk1 nx1 log) l" by (simp add: lock_is_free_def solo_def get_holds_def)
    then have wt: "race_step pc mc fetch (solo key (GWait l) fs1 ?n lk1 nx1 log) (solo key (GLoadAgain l) fs1 ?n lk1 nx1 log)"
      by (intro solo_step) (simp add: solo_def get_task_step_def set_task_def)
    have d1: "dom lk1 = set (List.insert key (mcw_in_flight w))" using assms(2) by (simp add: lk1_def)
    obtain g2 fs2 where 2: "manifest_load pc mc key fs1 = (g2, fs2)" by fastforce
    note s2 = solo_load [of "GLoadAgain l" "GFetch l" "GDiscardAgain l" l, OF _ 2, of fetch ?n lk1 nx1 log]
    have pre: "(race_step pc mc fetch)\<^sup>*\<^sup>* (solo key GLoad (mcw_fs w) ?n lk nx log)
        (solo key (load_answer (GFetch l) g2) fs2 ?n lk1 nx1 log)"
    proof -
      have "(race_step pc mc fetch)\<^sup>*\<^sup>* (solo key GLoad (mcw_fs w) ?n lk nx log) (solo key GEnter fs1 ?n lk nx log)"
        using s1 True by simp
      also have "(race_step pc mc fetch)\<^sup>*\<^sup>* (solo key GEnter fs1 ?n lk nx log) (solo key (GLoadAgain l) fs1 ?n lk1 nx1 log)"
        using e wt by simp
      also (rtranclp_trans) have "(race_step pc mc fetch)\<^sup>*\<^sup>* (solo key (GLoadAgain l) fs1 ?n lk1 nx1 log)
          (solo key (load_answer (GFetch l) g2) fs2 ?n lk1 nx1 log)" using s2 by simp
      finally (rtranclp_trans) show ?thesis .
    qed
    show ?thesis
    proof (cases "g2 = Ok None")
      case False
      then have "load_answer (GFetch l) g2 = GDone r" "mcw_fs w' = fs2" "mcw_net w' = ?n"
        "mcw_in_flight w' = List.insert key (mcw_in_flight w)"
        using assms(1) 1 2 True by (cases g2; auto simp: get_or_fetch_def Let_def split: option.splits)+
      then show ?thesis using pre d1 by auto
    next
      case none: True
      obtain g3 n3 where 3: "fetch key ?n = (g3, n3)" by fastforce
      define p3 where "p3 = (case g3 of Ok m \<Rightarrow> GMakeDir l m | Err e \<Rightarrow> GDone (Err e) | Panic \<Rightarrow> GDone Panic)"
      have f: "race_step pc mc fetch (solo key (GFetch l) fs2 ?n lk1 nx1 log) (solo key p3 fs2 n3 lk1 nx1 (key # log))"
        using 3 by (intro solo_step) (simp add: solo_def get_task_step_def set_task_def p3_def)
      have pre3: "(race_step pc mc fetch)\<^sup>*\<^sup>* (solo key GLoad (mcw_fs w) ?n lk nx log) (solo key p3 fs2 n3 lk1 nx1 (key # log))"
        using pre f none by (simp add: rtranclp.rtrancl_into_rtrancl)
      show ?thesis
      proof (cases "\<exists>m. g3 = Ok m")
        case False
        then have "p3 = GDone r" "mcw_fs w' = fs2" "mcw_net w' = n3"
          "mcw_in_flight w' = List.insert key (mcw_in_flight w)"
          using assms(1) 1 2 3 True none by (cases g3; auto simp: get_or_fetch_def Let_def p3_def)+
        then show ?thesis using pre3 d1 by auto
      next
        case ok: True
        then obtain m where m: "g3 = Ok m" by blast
        obtain g4 fs4 where 4: "manifest_save pc mc (fst key) m fs2 = (g4, fs4)" by fastforce
        have pre4: "(race_step pc mc fetch)\<^sup>*\<^sup>* (solo key GLoad (mcw_fs w) ?n lk nx log)
            (solo key (save_answer l m g4) fs4 n3 lk1 nx1 (key # log))"
          using pre3 solo_save [OF 4, of fetch l n3 lk1 nx1 "key # log"] m
          by (simp add: p3_def)
        show ?thesis
        proof (cases "g4 = Ok ()")
          case Ok: True
          have "race_step pc mc fetch (solo key (GForget l m) fs4 n3 lk1 nx1 (key # log))
              (solo key (GDone (Ok m)) fs4 n3 (lk1(key := None)) nx1 (key # log))"
            by (intro solo_step) (simp add: solo_def get_task_step_def set_task_def)
          with pre4 Ok have "(race_step pc mc fetch)\<^sup>*\<^sup>* (solo key GLoad (mcw_fs w) ?n lk nx log)
              (solo key (GDone (Ok m)) fs4 n3 (lk1(key := None)) nx1 (key # log))"
            by (simp add: rtranclp.rtrancl_into_rtrancl)
          moreover have "r = Ok m" "mcw_fs w' = fs4" "mcw_net w' = n3"
            "mcw_in_flight w' = removeAll key (List.insert key (mcw_in_flight w))"
            using assms(1) 1 2 3 4 True none m Ok by (auto simp: get_or_fetch_def Let_def)
          moreover have "dom (lk1(key := None)) = set (removeAll key (List.insert key (mcw_in_flight w)))"
            using d1 by auto
          ultimately show ?thesis
            by (intro exI [of _ "lk1(key := None)"] exI [of _ nx1] exI [of _ "key # log"]) simp
        next
          case False
          then have "save_answer l m g4 = GDone r" "mcw_fs w' = fs4" "mcw_net w' = n3"
            "mcw_in_flight w' = List.insert key (mcw_in_flight w)"
            using assms(1) 1 2 3 4 True none m by (cases g4; auto simp: get_or_fetch_def Let_def)+
          then show ?thesis using pre4 d1
            by (intro exI [of _ lk1] exI [of _ nx1] exI [of _ "key # log"]) simp
        qed
      qed
    qed
  qed
qed

section \<open>A stale file\<close>

text \<open>A run along a schedule: which task steps next.\<close>

fun run_schedule ::
  "postcard \<Rightarrow> manifest_cache \<Rightarrow> (manifest_key \<Rightarrow> 'w \<Rightarrow> (vfs_error, manifest) outcome \<times> 'w) \<Rightarrow>
     nat list \<Rightarrow> 'w get_race \<Rightarrow> 'w get_race option" where
  "run_schedule pc mc fetch [] s = Some s"
| "run_schedule pc mc fetch (i # is) s =
     (if i < length (gr_tasks s) then Option.bind (get_task_step pc mc fetch i s) (run_schedule pc mc fetch is)
      else None)"

lemma run_schedule_steps:
  "run_schedule pc mc fetch is s = Some s' \<Longrightarrow> (race_step pc mc fetch)\<^sup>*\<^sup>* s s'"
proof (induction "is" arbitrary: s)
  case (Cons i "is")
  then obtain u where u: "i < length (gr_tasks s)" "get_task_step pc mc fetch i s = Some u"
    "run_schedule pc mc fetch is u = Some s'" by (auto split: if_splits bind_splits)
  show ?case
    using converse_rtranclp_into_rtranclp [of "race_step pc mc fetch", OF race_step.intros [OF u(1,2)] Cons.IH [OF u(3)]] .
qed simp

definition demo_get :: "manifest_key \<Rightarrow> nat \<Rightarrow> (vfs_error, manifest) outcome \<times> nat" where
  "demo_get key n = (Ok (manifest_of_cached demo_cached), n + 1)"


text \<open>
  The exclusion of the callers rests on the disk holding no stale file.  With one that does not
  decode, a caller that has read it deletes, without the lock and after another caller has
  replaced it, the good file: the second caller has returned, the manifest is gone from the disk,
  and the first goes on to fetch it again.
\<close>

lemma stale_load_deletes_fresh:
  "\<exists>s. (race_step demo_postcard (manifest_cache_new [''m''] 7) demo_get)\<^sup>*\<^sup>*
       (race_start [(1, 2, 3), (1, 2, 3)]
          \<lparr>fs_files = [manifest_path (manifest_cache_new [''m''] 7) (1, 2, 3) \<mapsto> [0]], fs_faults = []\<rparr> 0) s \<and>
     gr_tasks s = [((1, 2, 3), GEnter), ((1, 2, 3), GDone (Ok (manifest_of_cached demo_cached)))] \<and>
     on_disk (manifest_cache_new [''m''] 7) s (1, 2, 3) = None"
proof -
  let ?mc = "manifest_cache_new [''m''] 7" and ?m = "manifest_of_cached demo_cached"
  let ?s = "race_start [(1, 2, 3), (1, 2, 3)] \<lparr>fs_files = [manifest_path ?mc (1, 2, 3) \<mapsto> [0]], fs_faults = []\<rparr> 0"
  have enc: "pc_encode demo_postcard (cached_of_manifest ?m) = Some [1]"
    "pc_decode demo_postcard [0] = None"
    by (simp_all add: demo_postcard_def manifest_of_cached_def cached_of_manifest_def demo_cached_def)
  have ids: "m_depot_id ?m = 2" "m_manifest_id ?m = 3"
    by (simp_all add: manifest_of_cached_def demo_cached_def)
  have "\<exists>s. run_schedule demo_postcard ?mc demo_get [0, 1, 1, 1, 1, 1, 1, 1, 1, 1, 1, 0] ?s = Some s \<and>
     gr_tasks s = [((1, 2, 3), GEnter), ((1, 2, 3), GDone (Ok ?m))] \<and> on_disk ?mc s (1, 2, 3) = None"
    by (simp add: race_start_def get_task_step_def load_step_def discard_step_def set_task_def enc ids
        fs_read_def fs_remove_file_def fs_create_dir_all_def fs_write_def fs_create_def fs_write_all_def
        fs_rename_def next_fault_def lock_is_free_def get_holds_def demo_get_def on_disk_def Let_def
        tmp_paths tmp_paths(1) [symmetric])
  then show ?thesis using run_schedule_steps by blast
qed


section \<open>A small service\<close>

text \<open>Empty manifests, one for each key, stored as two numbers in unary.\<close>

definition bare :: "u32 \<Rightarrow> u64 \<Rightarrow> cached_manifest" where
  "bare d g = \<lparr>cm_depot_id = d, cm_manifest_id = g, cm_creation_time = 0, cm_size_uncompressed = 0,
     cm_size_compressed = 0, cm_files = []\<rparr>"

definition bare_postcard :: postcard where
  "bare_postcard =
     \<lparr>pc_encode = (\<lambda>c. if c = bare (cm_depot_id c) (cm_manifest_id c)
        then Some (replicate (unat (cm_manifest_id c)) 0 @ 1 # replicate (unat (cm_depot_id c)) 0) else None),
      pc_decode = (\<lambda>b. Some (bare (word_of_nat (length (dropWhile (\<lambda>x. x = 0) b) - 1))
        (word_of_nat (length (takeWhile (\<lambda>x. x = 0) b)))))\<rparr>"

definition bare_truth :: "manifest_key \<Rightarrow> manifest" where
  "bare_truth key = manifest_of_cached (bare (fst (snd key)) (snd (snd key)))"

definition bare_fetch :: "manifest_key \<Rightarrow> nat \<Rightarrow> (vfs_error, manifest) outcome \<times> nat" where
  "bare_fetch key n = (Ok (bare_truth key), n + 1)"

lemma bare_ok: "postcard_ok bare_postcard" "service_ok bare_truth bare_fetch"
  "race_calm bare_postcard bare_truth bare_fetch"
proof -
  have z: "takeWhile (\<lambda>x. x = 0) (replicate n 0 @ 1 # xs) = replicate n 0"
    "dropWhile (\<lambda>x. x = 0) (replicate n 0 @ 1 # xs) = 1 # xs" for n and xs :: bytes
    by (induction n) simp_all
  have ids: "m_depot_id (bare_truth key) = fst (snd key)" "m_manifest_id (bare_truth key) = snd (snd key)"
    "cached_of_manifest (bare_truth key) = bare (fst (snd key)) (snd (snd key))" for key
    by (simp_all add: bare_truth_def bare_def manifest_of_cached_def cached_of_manifest_def)
  have b: "cm_depot_id (bare d g) = d" "cm_manifest_id (bare d g) = g" for d g by (simp_all add: bare_def)
  show "postcard_ok bare_postcard"
    by (auto simp: postcard_ok_def bare_postcard_def z split: if_splits)
  show "service_ok bare_truth bare_fetch"
    by (auto simp: service_ok_def fetch_ok_def bare_fetch_def ids)
  show "race_calm bare_postcard bare_truth bare_fetch"
    by (auto simp: race_calm_def bare_fetch_def ids b bare_postcard_def)
qed

definition blank_fs :: "(io_kind \<times> nat) option list \<Rightarrow> fsys" where
  "blank_fs faults = \<lparr>fs_files = Map.empty, fs_faults = faults\<rparr>"

lemma blank_clean: "disk_clean pc mc truth (blank_fs faults)"
  by (simp add: disk_clean_def blank_fs_def)

text \<open>Two callers of one key in turns: the second waits while the first fetches.\<close>

theorem racing_gets_fetch_once_witness:
  "\<exists>s. run_schedule bare_postcard (manifest_cache_new [''m''] 7) bare_fetch
        [0, 1, 0, 1, 0, 0, 0, 0, 0, 0, 0, 1, 1] (race_start [(1, 2, 3), (1, 2, 3)] (blank_fs []) 0) = Some s \<and>
     gr_fetches s = [(1, 2, 3)] \<and>
     gr_tasks s = [((1, 2, 3), GDone (Ok (bare_truth (1, 2, 3)))), ((1, 2, 3), GDone (Ok (bare_truth (1, 2, 3))))]"
proof -
  let ?mc = "manifest_cache_new [''m''] 7" and ?m = "bare_truth (1, 2, 3)"
  let ?s = "race_start [(1, 2, 3), (1, 2, 3)] (blank_fs []) 0"
  have ids: "m_depot_id ?m = 2" "m_manifest_id ?m = 3"
    by (simp_all add: bare_truth_def bare_def manifest_of_cached_def)
  obtain bs where enc: "pc_encode bare_postcard (cached_of_manifest ?m) = Some bs"
    using bare_ok(3) unfolding race_calm_def by blast
  then have "pc_decode bare_postcard bs = Some (cached_of_manifest ?m)"
    using bare_ok(1) by (simp add: postcard_ok_def)
  moreover have "manifest_of_cached (cached_of_manifest ?m) = ?m"
    by (simp add: manifest_of_cached_def cached_of_manifest_def comp_def)
  ultimately obtain s where s: "run_schedule bare_postcard ?mc bare_fetch
      [0, 1, 0, 1, 0, 0, 0, 0, 0, 0, 0, 1, 1] ?s = Some s" "gr_fetches s = [(1, 2, 3)]"
    "gr_tasks s = [((1, 2, 3), GDone (Ok ?m)), ((1, 2, 3), GDone (Ok ?m))]"
    using enc
    by (simp add: race_start_def get_task_step_def load_step_def set_task_def ids blank_fs_def
        fs_read_def fs_create_dir_all_def fs_write_def fs_create_def fs_write_all_def
        fs_rename_def next_fault_def lock_is_free_def get_holds_def bare_fetch_def Let_def
        tmp_paths tmp_paths(1) [symmetric])
  have "fs_faults (blank_fs []) = []" by (simp add: blank_fs_def)
  from racing_gets_fetch_once [OF run_schedule_steps [OF s(1)] blank_clean this bare_ok]
  have "distinct (gr_fetches s)" by blast
  with s show ?thesis by blast
qed

definition demo_truth :: "manifest_key \<Rightarrow> manifest" where
  "demo_truth key = manifest_of_cached demo_cached"

definition demo_serve :: "manifest_key \<Rightarrow> nat \<Rightarrow> (vfs_error, manifest) outcome \<times> nat" where
  "demo_serve key n =
     (if snd key = (2, 3) then (Ok (demo_truth key), n + 1) else (Err (VfsOther ''no such manifest''), n))"

text \<open>A disk that holds one file that does not decode, and fails in the middle of the second save.\<close>

definition stale_fs :: fsys where
  "stale_fs = \<lparr>fs_files = [manifest_path (manifest_cache_new [''m''] 7) (1, 2, 3) \<mapsto> [0]],
     fs_faults = [None, None, None, None, None, None, None, None, None, None, None, None, Some (KOther, 0)]\<rparr>"

lemma demo_service:
  "postcard_cut demo_postcard" "service_ok demo_truth demo_serve"
  "manifests_inv demo_postcard mc demo_truth stale_fs"
  by (auto simp: postcard_cut_def demo_postcard_def service_ok_def fetch_ok_def demo_serve_def demo_truth_def
      manifest_of_cached_def demo_cached_def manifests_inv_def split: if_splits)

text \<open>
  The stale file is read by the first caller, replaced by the second and its replacement deleted by
  the first, whose own save then fails: still the second caller has the right manifest and
  nothing wrong is on the disk.
\<close>

theorem racing_gets_sound_witness:
  "\<exists>s e. run_schedule demo_postcard (manifest_cache_new [''m''] 7) demo_serve
        [0, 1, 1, 1, 1, 1, 1, 1, 1, 1, 1, 0, 0, 0, 0, 0, 0, 0]
        (race_start [(1, 2, 3), (1, 2, 3)] stale_fs 0) = Some s \<and>
     gr_tasks s = [((1, 2, 3), GDone (Err e)), ((1, 2, 3), GDone (Ok (demo_truth (1, 2, 3))))] \<and>
     gr_fetches s = [(1, 2, 3), (1, 2, 3)] \<and>
     manifests_inv demo_postcard (manifest_cache_new [''m''] 7) demo_truth (gr_fs s)"
proof -
  let ?mc = "manifest_cache_new [''m''] 7" and ?m = "demo_truth (1, 2, 3)"
  have enc: "pc_encode demo_postcard (cached_of_manifest ?m) = Some [1]" "pc_decode demo_postcard [0] = None"
    by (simp_all add: demo_postcard_def demo_truth_def manifest_of_cached_def cached_of_manifest_def demo_cached_def)
  have ids: "m_depot_id ?m = 2" "m_manifest_id ?m = 3"
    by (simp_all add: demo_truth_def manifest_of_cached_def demo_cached_def)
  obtain s e where s: "run_schedule demo_postcard ?mc demo_serve
        [0, 1, 1, 1, 1, 1, 1, 1, 1, 1, 1, 0, 0, 0, 0, 0, 0, 0]
        (race_start [(1, 2, 3), (1, 2, 3)] stale_fs 0) = Some s"
     "gr_tasks s = [((1, 2, 3), GDone (Err e)), ((1, 2, 3), GDone (Ok ?m))]" "gr_fetches s = [(1, 2, 3), (1, 2, 3)]"
    by (simp add: race_start_def get_task_step_def load_step_def discard_step_def set_task_def enc ids
        fs_read_def fs_remove_file_def fs_create_dir_all_def fs_write_def fs_create_def fs_write_all_def
        fs_rename_def next_fault_def lock_is_free_def get_holds_def demo_serve_def stale_fs_def Let_def
        tmp_paths tmp_paths(1) [symmetric])
  from racing_gets_sound [OF run_schedule_steps [OF s(1)] demo_service(3,1,2)] s show ?thesis by blast
qed

text \<open>The first of two callers fails to save; then the second, which waited for the lock, saves.\<close>

theorem racing_saves_exclusive_witness:
  "\<exists>s e l. run_schedule bare_postcard (manifest_cache_new [''m''] 7) bare_fetch
        [0, 1, 0, 1, 0, 0, 0, 0, 0, 1, 1, 1, 1, 1] (race_start [(1, 2, 3), (1, 2, 3)]
          (blank_fs [None, None, None, None, None, Some (KOther, 1)]) 0) = Some s \<and>
     gr_tasks s = [((1, 2, 3), GDone (Err e)), ((1, 2, 3), GRename l (bare_truth (1, 2, 3)))] \<and>
     disk_clean bare_postcard (manifest_cache_new [''m''] 7) bare_truth (gr_fs s)"
proof -
  let ?mc = "manifest_cache_new [''m''] 7" and ?m = "bare_truth (1, 2, 3)"
  let ?fs = "blank_fs [None, None, None, None, None, Some (KOther, 1)]"
  have ids: "m_depot_id ?m = 2" "m_manifest_id ?m = 3"
    by (simp_all add: bare_truth_def bare_def manifest_of_cached_def)
  obtain bs where enc: "pc_encode bare_postcard (cached_of_manifest ?m) = Some bs"
    using bare_ok(3) unfolding race_calm_def by blast
  then obtain s e l where s: "run_schedule bare_postcard ?mc bare_fetch
        [0, 1, 0, 1, 0, 0, 0, 0, 0, 1, 1, 1, 1, 1] (race_start [(1, 2, 3), (1, 2, 3)] ?fs 0) = Some s"
     "gr_tasks s = [((1, 2, 3), GDone (Err e)), ((1, 2, 3), GRename l ?m)]"
    by (simp add: race_start_def get_task_step_def load_step_def set_task_def ids blank_fs_def
        fs_read_def fs_create_dir_all_def fs_write_def fs_create_def fs_write_all_def
        next_fault_def lock_is_free_def get_holds_def bare_fetch_def Let_def
        tmp_paths tmp_paths(1) [symmetric])
  have h: "disk_honest ?fs" by (simp add: disk_honest_def blank_fs_def)
  from racing_saves_exclusive [OF run_schedule_steps [OF s(1)] blank_clean h bare_ok(1,2)] s
  show ?thesis by blast
qed

theorem racing_gets_finish_witness:
  "\<exists>s. (race_step bare_postcard (manifest_cache_new [''m''] 7) bare_fetch ^^ 0)
        (race_start [(1, 2, 3)] (blank_fs []) 0) s \<and>
     (\<exists>s'. race_step bare_postcard (manifest_cache_new [''m''] 7) bare_fetch s s')"
proof -
  let ?s = "race_start [(1, 2, 3)] (blank_fs []) (0 :: nat)"
  have r: "(race_step bare_postcard (manifest_cache_new [''m''] 7) bare_fetch ^^ 0) ?s ?s" by simp
  from racing_gets_finish [OF r] have "\<exists>s'. race_step bare_postcard (manifest_cache_new [''m''] 7) bare_fetch ?s s'"
    by (auto simp: race_start_def)
  with r show ?thesis by blast
qed

lemma lone_get_alone:
  "\<exists>r w' s'. get_or_fetch bare_postcard (manifest_cache_new [''m''] 7) (1, 2, 3) (bare_fetch (1, 2, 3))
        \<lparr>mcw_fs = blank_fs [], mcw_in_flight = [], mcw_net = 0\<rparr> = (r, w') \<and>
     (race_step bare_postcard (manifest_cache_new [''m''] 7) bare_fetch)\<^sup>*\<^sup>*
       (race_start [(1, 2, 3)] (blank_fs []) 0) s' \<and> gr_tasks s' = [((1, 2, 3), GDone r)] \<and> gr_fs s' = mcw_fs w'"
proof -
  let ?mc = "manifest_cache_new [''m''] 7"
  let ?w = "\<lparr>mcw_fs = blank_fs [], mcw_in_flight = [], mcw_net = (0 :: nat)\<rparr>"
  obtain r w' where g: "get_or_fetch bare_postcard ?mc (1, 2, 3) (bare_fetch (1, 2, 3)) ?w = (r, w')" by fastforce
  have d: "dom (\<lambda>_ :: manifest_key. None :: nat option) = set (mcw_in_flight ?w)" by auto
  from lone_get_is_sequential [where fetch = bare_fetch and nx = 0 and log = "[]", OF g d] obtain lk' nx' log' where
    "(race_step bare_postcard ?mc bare_fetch)\<^sup>*\<^sup>* (solo (1, 2, 3) GLoad (blank_fs []) 0 (\<lambda>_. None) 0 [])
      (solo (1, 2, 3) (GDone r) (mcw_fs w') (mcw_net w') lk' nx' log')" by auto
  then have "(race_step bare_postcard ?mc bare_fetch)\<^sup>*\<^sup>* (race_start [(1, 2, 3)] (blank_fs []) 0)
      (solo (1, 2, 3) (GDone r) (mcw_fs w') (mcw_net w') lk' nx' log')"
    by (simp add: race_start_def solo_def)
  moreover have "gr_tasks (solo (1, 2, 3) (GDone r) (mcw_fs w') (mcw_net w') lk' nx' log') = [((1, 2, 3), GDone r)]"
    "gr_fs (solo (1, 2, 3) (GDone r) (mcw_fs w') (mcw_net w') lk' nx' log') = mcw_fs w'"
    by (simp_all add: solo_def)
  ultimately show ?thesis using g by blast
qed

end
