(* ===== verification/Chunk_Store.thy ===== *)
theory Chunk_Store
  imports Manifest_Types
begin

text \<open>
  The \<open>ChunkStore\<close> trait (\<open>chunk_store/mod.rs\<close>): a source of plaintext chunks keyed by
  SHA-1.  A store is a pair of operations over an explicit state, because the stores behind
  the trait fetch, cache and write to disk.

  The interface \<open>chunk_source\<close> is what a reader of a store relies on: a chunk that is
  returned is the plaintext of that name.  \<open>full_source\<close> adds that the chunks of a set can
  really be had.
\<close>

record 's chunk_store =
  cs_get :: "chunk_hash \<Rightarrow> 's \<Rightarrow> (vfs_error, bytes) outcome \<times> 's"
  cs_ensure :: "chunk_hash \<Rightarrow> 's \<Rightarrow> (vfs_error, unit) outcome \<times> 's"

text \<open>The trait's default \<open>ensure\<close>: get the chunk and discard the bytes.\<close>

definition default_ensure ::
  "(chunk_hash \<Rightarrow> 's \<Rightarrow> (vfs_error, bytes) outcome \<times> 's) \<Rightarrow>
     chunk_hash \<Rightarrow> 's \<Rightarrow> (vfs_error, unit) outcome \<times> 's" where
  "default_ensure get sha s = (case get sha s of (r, s') \<Rightarrow> (omap (\<lambda>_. ()) r, s'))"

locale chunk_source =
  fixes get :: "chunk_hash \<Rightarrow> 's \<Rightarrow> (vfs_error, bytes) outcome \<times> 's"
    and inv :: "'s \<Rightarrow> bool"
    and plain :: "chunk_hash \<Rightarrow> bytes"
  assumes get_sound: "inv s \<Longrightarrow> get h s = (Ok b, s') \<Longrightarrow> b = plain h"
    and get_inv: "inv s \<Longrightarrow> get h s = (r, s') \<Longrightarrow> inv s'"
begin

lemma ensure_inv: "inv s \<Longrightarrow> default_ensure get h s = (r, s') \<Longrightarrow> inv s'"
  by (auto simp: default_ensure_def intro: get_inv split: prod.splits)

end

locale full_source = chunk_source get inv plain
  for get :: "chunk_hash \<Rightarrow> 's \<Rightarrow> (vfs_error, bytes) outcome \<times> 's"
    and inv :: "'s \<Rightarrow> bool"
    and plain :: "chunk_hash \<Rightarrow> bytes" +
  fixes avail :: "chunk_hash set"
  assumes get_avail: "inv s \<Longrightarrow> h \<in> avail \<Longrightarrow> \<exists>b s'. get h s = (Ok b, s')"

end
