(* ===== verification/Depot_Fs.thy ===== *)
theory Depot_Fs
  imports Chunk_Store
begin

text \<open>
  \<open>fs.rs\<close>, first half: the file-system view over one manifest.  A \<open>depot_store\<close> is the
  manifest, the two indexes \<open>DepotManifestStore::new\<close> builds over it, and the chunk store it
  reads from.  The lemmas say what the indexes hold, that a listing and a lookup agree, and
  which component a not-found error names.
\<close>

section \<open>Paths\<close>

definition parent_of :: "string \<Rightarrow> string option" where
  "parent_of path = map_option (\<lambda>i. take i path) (str_rfind (CHR ''/'') path)"

definition parent_key :: "string \<Rightarrow> string" where
  "parent_key path = (case parent_of path of Some p \<Rightarrow> p | None \<Rightarrow> [])"

definition strip_leading_slash :: "string \<Rightarrow> string" where
  "strip_leading_slash p = (case strip_prefix (CHR ''/'') p of Some q \<Rightarrow> q | None \<Rightarrow> p)"

section \<open>The store and its indexes\<close>

record file_meta =
  fm_size :: u64
  fm_kind :: file_type
  fm_linktarget :: "string option"

record dir_entry =
  e_name :: string
  e_meta :: file_meta

record 's depot_store =
  ds_manifest :: manifest
  ds_by_path :: "string \<rightharpoonup> nat"
  ds_children :: "string \<rightharpoonup> nat list"
  ds_chunks :: "'s chunk_store"

text \<open>One turn of the indexing loop of \<open>new\<close>.\<close>

definition index_step ::
  "nat \<times> depot_file \<Rightarrow> (string \<rightharpoonup> nat) \<times> (string \<rightharpoonup> nat list) \<Rightarrow>
     (string \<rightharpoonup> nat) \<times> (string \<rightharpoonup> nat list)" where
  "index_step x idx =
     (case x of (i, f) \<Rightarrow> case idx of (by_path, children) \<Rightarrow>
        let parent = parent_key (f_path f)
        in (by_path(f_path f \<mapsto> i),
            children(parent \<mapsto> (case children parent of Some v \<Rightarrow> v | None \<Rightarrow> []) @ [i])))"

definition build_index ::
  "depot_file list \<Rightarrow> (string \<rightharpoonup> nat) \<times> (string \<rightharpoonup> nat list)" where
  "build_index files = fold index_step (enumerate 0 files) (Map.empty, Map.empty)"

definition depot_store_new :: "manifest \<Rightarrow> 's chunk_store \<Rightarrow> 's depot_store" where
  "depot_store_new m chunks =
     (case build_index (m_files m) of (by_path, children) \<Rightarrow>
        \<lparr>ds_manifest = m, ds_by_path = by_path, ds_children = children, ds_chunks = chunks\<rparr>)"

definition index_of :: "'s depot_store \<Rightarrow> string \<Rightarrow> nat option" where
  "index_of st path = ds_by_path st (strip_leading_slash path)"

definition path_known :: "'s depot_store \<Rightarrow> string \<Rightarrow> bool" where
  "path_known st p \<longleftrightarrow> ds_by_path st p \<noteq> None \<or> ds_children st p \<noteq> None"

text \<open>The loop of \<open>first_missing_component\<close>, from byte position \<open>pos\<close>.\<close>

function missing_from :: "'s depot_store \<Rightarrow> string \<Rightarrow> nat \<Rightarrow> string option" where
  "missing_from st path pos =
     (let nxt = (case str_find (CHR ''/'') (drop pos path) of
                   Some i \<Rightarrow> pos + i | None \<Rightarrow> length path);
          prefix = take nxt path
      in if \<not> path_known st prefix then Some prefix
         else if nxt = length path then None
         else missing_from st path (nxt + 1))"
  by pat_completeness auto
termination
  by (relation "measure (\<lambda>(st, path, pos). Suc (length path) - pos)")
    (auto dest!: str_find_SomeD split: option.splits)

declare missing_from.simps [simp del]

definition first_missing_component :: "'s depot_store \<Rightarrow> string \<Rightarrow> string option" where
  "first_missing_component st path = (if path = [] then None else missing_from st path 0)"

definition not_found_error :: "'s depot_store \<Rightarrow> string \<Rightarrow> string \<Rightarrow> io_error" where
  "not_found_error st requested stripped =
     PathNotFound requested (first_missing_component st stripped)"

section \<open>Metadata and directory listings\<close>

definition meta_of :: "depot_api \<Rightarrow> depot_file \<Rightarrow> file_meta" where
  "meta_of api f =
     \<lparr>fm_size = f_size f, fm_kind = api_file_type api f, fm_linktarget = api_linktarget api f\<rparr>"

definition metadata ::
  "depot_api \<Rightarrow> 's depot_store \<Rightarrow> string \<Rightarrow> (io_error, file_meta) outcome" where
  "metadata api st path =
     (if path = [] \<or> path = ''/'' then
        Ok \<lparr>fm_size = 0, fm_kind = FtDirectory, fm_linktarget = None\<rparr>
      else
        let stripped = strip_leading_slash path in
        case ds_by_path st stripped of
          None \<Rightarrow> Err (not_found_error st path stripped)
        | Some idx \<Rightarrow>
            (case get_at (m_files (ds_manifest st)) idx of
               None \<Rightarrow> Panic
             | Some f \<Rightarrow> Ok (meta_of api f)))"

fun list_entries ::
  "depot_api \<Rightarrow> depot_file list \<Rightarrow> nat list \<Rightarrow> (io_error, dir_entry list) outcome" where
  "list_entries api files [] = Ok []"
| "list_entries api files (i # is) =
     (case get_at files i of
        None \<Rightarrow> Panic
      | Some f \<Rightarrow>
          (let name = (case path_file_name (f_path f) of Some w \<Rightarrow> w | None \<Rightarrow> f_path f)
           in omap (\<lambda>es. \<lparr>e_name = name, e_meta = meta_of api f\<rparr> # es)
                (list_entries api files is)))"

definition list_dir ::
  "depot_api \<Rightarrow> 's depot_store \<Rightarrow> string \<Rightarrow> (io_error, dir_entry list) outcome" where
  "list_dir api st path =
     (let key = (if path = [] \<or> path = ''/'' then [] else strip_leading_slash path) in
      case ds_children st key of
        None \<Rightarrow> Err (not_found_error st path key)
      | Some idxs \<Rightarrow> list_entries api (m_files (ds_manifest st)) idxs)"

section \<open>What the indexes hold\<close>

lemma build_index_Nil: "build_index [] = (Map.empty, Map.empty)"
  by (simp add: build_index_def)

lemma build_index_snoc:
  "build_index (fs @ [f]) = index_step (length fs, f) (build_index fs)"
  by (simp add: build_index_def enumerate_append_eq)

text \<open>A path is looked up at the last file of that path; a directory at all its children.\<close>

lemma by_path_iff:
  "fst (build_index fs) p = Some i \<longleftrightarrow>
     i < length fs \<and> f_path (fs ! i) = p \<and> (\<forall>j. i < j \<and> j < length fs \<longrightarrow> f_path (fs ! j) \<noteq> p)"
proof (induction fs arbitrary: i rule: rev_induct)
  case Nil
  then show ?case by (simp add: build_index_Nil)
next
  case (snoc f fs)
  obtain bp ch where b: "build_index fs = (bp, ch)" by fastforce
  show ?case
  proof (cases "f_path f = p")
    case True
    then show ?thesis
      by (auto simp: build_index_snoc b index_step_def Let_def nth_append not_less_eq
          dest: spec [of _ "length fs"])
  next
    case False
    with snoc [of i] show ?thesis
      by (auto simp: build_index_snoc b index_step_def Let_def nth_append less_Suc_eq)
  qed
qed

definition child_indices :: "depot_file list \<Rightarrow> string \<Rightarrow> nat list" where
  "child_indices fs d = filter (\<lambda>i. parent_key (f_path (fs ! i)) = d) [0..<length fs]"

lemma child_indices_snoc:
  "child_indices (fs @ [f]) d =
     child_indices fs d @ (if parent_key (f_path f) = d then [length fs] else [])"
proof -
  have "filter (\<lambda>i. parent_key (f_path ((fs @ [f]) ! i)) = d) [0..<length fs] =
      filter (\<lambda>i. parent_key (f_path (fs ! i)) = d) [0..<length fs]"
    by (rule filter_cong) (auto simp: nth_append)
  then show ?thesis by (simp add: child_indices_def)
qed

lemma children_eq:
  "snd (build_index fs) d =
     (if child_indices fs d = [] then None else Some (child_indices fs d))"
proof (induction fs rule: rev_induct)
  case Nil
  then show ?case by (simp add: build_index_Nil child_indices_def)
next
  case (snoc f fs)
  obtain bp ch where "build_index fs = (bp, ch)" by fastforce
  with snoc show ?case
    by (auto simp: build_index_snoc child_indices_snoc index_step_def Let_def)
qed

lemma ds_new_simps [simp]:
  "ds_manifest (depot_store_new m c) = m"
  "ds_chunks (depot_store_new m c) = c"
  "ds_by_path (depot_store_new m c) = fst (build_index (m_files m))"
  "ds_children (depot_store_new m c) = snd (build_index (m_files m))"
  by (simp_all add: depot_store_new_def split: prod.split)

lemma by_path_lt: "fst (build_index fs) p = Some i \<Longrightarrow> i < length fs"
  by (simp add: by_path_iff)

lemma by_path_distinct:
  assumes "distinct (map f_path fs)"
  shows "fst (build_index fs) p = Some i \<longleftrightarrow> i < length fs \<and> f_path (fs ! i) = p"
proof -
  have "f_path (fs ! j) \<noteq> p" if "i < j" "j < length fs" "f_path (fs ! i) = p" for j
    using that assms nth_eq_iff_index_eq [OF assms, of i j] by auto
  then show ?thesis by (auto simp: by_path_iff)
qed

lemma by_path_None_iff: "fst (build_index fs) p = None \<longleftrightarrow> p \<notin> f_path ` set fs"
proof (induction fs rule: rev_induct)
  case Nil
  then show ?case by (simp add: build_index_Nil)
next
  case (snoc f fs)
  obtain bp ch where "build_index fs = (bp, ch)" by fastforce
  with snoc show ?case
    by (auto simp: build_index_snoc index_step_def Let_def)
qed

section \<open>The first missing component\<close>

text \<open>
  Reference for \<open>first_missing_component\<close>: the prefixes of a path that end before a slash, and
  the path itself, shortest first.
\<close>

definition prefixes_from :: "string \<Rightarrow> nat \<Rightarrow> string list" where
  "prefixes_from path pos =
     map (\<lambda>i. take i path) (filter (\<lambda>i. path ! i = CHR ''/'') [pos..<length path]) @ [path]"

lemma prefixes_from_find:
  assumes "str_find (CHR ''/'') (drop pos path) = Some i"
  shows "prefixes_from path pos = take (pos + i) path # prefixes_from path (pos + i + 1)"
proof -
  from str_find_SomeD [OF assms] have i: "pos + i < length path" "path ! (pos + i) = CHR ''/''"
    and no: "CHR ''/'' \<notin> set (take i (drop pos path))" by auto
  have "[pos..<length path] = [pos..<pos + i] @ (pos + i) # [pos + i + 1..<length path]"
    using i(1) upt_add_eq_append [of pos "pos + i" "length path - (pos + i)"]
    by (simp add: upt_conv_Cons)
  moreover have "filter (\<lambda>j. path ! j = CHR ''/'') [pos..<pos + i] = []"
  proof -
    have "path ! j \<noteq> CHR ''/''" if "pos \<le> j" "j < pos + i" for j
    proof
      assume "path ! j = CHR ''/''"
      moreover have "take i (drop pos path) ! (j - pos) = path ! j"
        using that i(1) by simp
      moreover have "j - pos < length (take i (drop pos path))" using that i(1) by simp
      ultimately show False using no nth_mem by metis
    qed
    then show ?thesis by (auto simp: filter_empty_conv)
  qed
  ultimately show ?thesis using i(2) by (simp add: prefixes_from_def)
qed

lemma prefixes_from_last:
  assumes "str_find (CHR ''/'') (drop pos path) = None"
  shows "prefixes_from path pos = [path]"
proof -
  have "CHR ''/'' \<notin> set (drop pos path)" using assms by (simp add: str_find_None_iff)
  then have "path ! j \<noteq> CHR ''/''" if "pos \<le> j" "j < length path" for j
    using that by (auto simp: in_set_conv_nth dest: spec [of _ "j - pos"])
  then show ?thesis by (auto simp: prefixes_from_def filter_empty_conv)
qed

lemma missing_from_eq:
  "missing_from st path pos = find (\<lambda>q. \<not> path_known st q) (prefixes_from path pos)"
proof (induction st path pos rule: missing_from.induct)
  case (1 st path pos)
  show ?case
  proof (cases "str_find (CHR ''/'') (drop pos path)")
    case None
    then show ?thesis
      by (simp add: missing_from.simps [of st path pos] prefixes_from_last)
  next
    case (Some i)
    from str_find_SomeD [OF Some] have "pos + i \<noteq> length path" by auto
    with Some 1 show ?thesis
      by (simp add: missing_from.simps [of st path pos] prefixes_from_find)
  qed
qed

section \<open>Well-formed manifests\<close>

text \<open>
  A manifest Steam publishes names each file once, by a relative path whose components are
  plain names.
\<close>

definition wf_path :: "string \<Rightarrow> bool" where
  "wf_path p \<longleftrightarrow> list_all plain_name (split_on (CHR ''/'') p)"

definition wf_files :: "depot_file list \<Rightarrow> bool" where
  "wf_files fs \<longleftrightarrow> distinct (map f_path fs) \<and> list_all (\<lambda>f. wf_path (f_path f)) fs"

definition entry_name :: "depot_file \<Rightarrow> string" where
  "entry_name f = (case path_file_name (f_path f) of Some w \<Rightarrow> w | None \<Rightarrow> f_path f)"

definition child_path :: "string \<Rightarrow> string \<Rightarrow> string" where
  "child_path d w = (if d = [] then w else d @ ''/'' @ w)"

lemma wf_path_cases:
  assumes "wf_path p"
  obtains w where "plain_name w" and "path_file_name p = Some w" and "p = child_path (parent_key p) w"
proof (cases "str_rfind (CHR ''/'') p")
  case None
  then have no: "CHR ''/'' \<notin> set p" by (simp add: str_rfind_None_iff)
  with assms have "plain_name p" by (simp add: wf_path_def split_on_no_sep)
  moreover have "parent_key p = []" using None by (simp add: parent_key_def parent_of_def)
  ultimately show ?thesis using that by (simp add: path_file_name_plain child_path_def)
next
  case (Some i)
  define d w where "d = take i p" and "w = drop (Suc i) p"
  from str_rfind_SomeD [OF Some] have p: "p = d @ CHR ''/'' # w" and no: "CHR ''/'' \<notin> set w"
    unfolding d_def w_def using id_take_nth_drop [of i p] by auto
  have "split_on (CHR ''/'') p = split_on (CHR ''/'') d @ [w]"
    by (simp add: p split_on_append split_on_no_sep no)
  with assms have "plain_name w" and "d \<noteq> []"
    by (auto simp: wf_path_def plain_name_def)
  moreover have "parent_key p = d" using Some by (simp add: parent_key_def parent_of_def d_def)
  ultimately show ?thesis
    using that [of w] p by (simp add: path_file_name_append child_path_def)
qed

lemma wf_path_entry_name:
  assumes "wf_path (f_path f)"
  shows "child_path (parent_key (f_path f)) (entry_name f) = f_path f"
  using assms by (rule wf_path_cases) (simp add: entry_name_def)

lemma wf_path_no_lead:
  assumes "wf_path p"
  shows "strip_leading_slash p = p" and "p \<noteq> []" and "p \<noteq> ''/''"
proof -
  obtain x xs where "p = x # xs"
    using assms by (cases p) (auto simp: wf_path_def plain_name_def)
  moreover have "x \<noteq> CHR ''/''"
    using assms \<open>p = x # xs\<close> by (auto simp: wf_path_def plain_name_def)
  ultimately show "strip_leading_slash p = p" "p \<noteq> []" "p \<noteq> ''/''"
    by (auto simp: strip_leading_slash_def)
qed

section \<open>Listings\<close>

lemma list_entries_Ok:
  assumes "\<forall>i \<in> set is. i < length files"
  shows "list_entries api files is =
    Ok (map (\<lambda>i. \<lparr>e_name = entry_name (files ! i), e_meta = meta_of api (files ! i)\<rparr>) is)"
  using assms by (induction "is") (auto simp: get_at_def entry_name_def Let_def)

lemma child_indices_lt: "i \<in> set (child_indices fs d) \<Longrightarrow> i < length fs"
  by (simp add: child_indices_def)

lemma list_dir_new:
  "list_dir api (depot_store_new m c) path =
     (let key = (if path = [] \<or> path = ''/'' then [] else strip_leading_slash path) in
      if child_indices (m_files m) key = []
      then Err (not_found_error (depot_store_new m c) path key)
      else Ok (map (\<lambda>i. \<lparr>e_name = entry_name (m_files m ! i), e_meta = meta_of api (m_files m ! i)\<rparr>)
                 (child_indices (m_files m) key)))"
  by (simp add: list_dir_def children_eq list_entries_Ok child_indices_lt Let_def)

text \<open>The names in one listing are distinct, and each leads back to the listed file.\<close>

lemma entry_index:
  assumes "wf_files fs" and "i \<in> set (child_indices fs d)"
  shows "fst (build_index fs) (child_path d (entry_name (fs ! i))) = Some i"
proof -
  from assms(2) have i: "i < length fs" and d: "parent_key (f_path (fs ! i)) = d"
    by (auto simp: child_indices_def)
  with assms(1) have "child_path d (entry_name (fs ! i)) = f_path (fs ! i)"
    using wf_path_entry_name [of "fs ! i"] by (auto simp: wf_files_def list_all_length)
  with assms(1) i show ?thesis by (simp add: wf_files_def by_path_distinct)
qed

lemma entry_names_distinct:
  assumes "wf_files fs"
  shows "distinct (map (\<lambda>i. entry_name (fs ! i)) (child_indices fs d))"
proof -
  have "inj_on (\<lambda>i. entry_name (fs ! i)) (set (child_indices fs d))"
    by (rule inj_onI) (metis assms entry_index option.inject)
  moreover have "distinct (child_indices fs d)"
    by (simp add: child_indices_def)
  ultimately show ?thesis by (simp add: distinct_map)
qed

lemma metadata_at:
  assumes "wf_path p" and "fst (build_index (m_files m)) p = Some i"
  shows "metadata api (depot_store_new m c) p = Ok (meta_of api (m_files m ! i))"
  using assms wf_path_no_lead [OF assms(1)] by_path_lt [OF assms(2)]
  by (simp add: metadata_def Let_def get_at_def)

section \<open>Properties of the view\<close>

text \<open>A store without chunks, for the witnesses.\<close>

definition no_chunks :: "unit chunk_store" where
  "no_chunks = \<lparr>cs_get = (\<lambda>h s. (Err (ChunkNotInManifest h), s)),
     cs_ensure = default_ensure (\<lambda>h s. (Err (ChunkNotInManifest h), s))\<rparr>"

lemma find_rev_index:
  assumes "i < length fs" "P (fs ! i)" "\<forall>j. i < j \<and> j < length fs \<longrightarrow> \<not> P (fs ! j)"
  shows "find P (rev fs) = Some (fs ! i)"
proof -
  let ?k = "length fs - Suc i"
  have "?k < length (rev fs)" "P (rev fs ! ?k)" using assms(1,2) by (simp_all add: rev_nth)
  moreover have "\<not> P (rev fs ! j)" if "j < ?k" for j
  proof -
    have "i < length fs - Suc j" "length fs - Suc j < length fs" "j < length fs" using that by linarith+
    with assms(3) show ?thesis by (simp add: rev_nth)
  qed
  moreover have "rev fs ! ?k = fs ! i" using assms(1) by (simp add: rev_nth)
  ultimately show ?thesis unfolding find_Some_iff by (metis (no_types, lifting))
qed

text \<open>
  A lookup by path finds the last manifest entry of that path, with a leading slash allowed;
  the root is always there; anything else is a not-found error.  It never panics.
\<close>

theorem metadata_correct:
  "metadata api (depot_store_new m c) path =
    (if path = [] \<or> path = ''/'' then
       Ok \<lparr>fm_size = 0, fm_kind = FtDirectory, fm_linktarget = None\<rparr>
     else
       (case find (\<lambda>f. f_path f = strip_leading_slash path) (rev (m_files m)) of
          Some f \<Rightarrow> Ok (meta_of api f)
        | None \<Rightarrow>
            Err (PathNotFound path
              (first_missing_component (depot_store_new m c) (strip_leading_slash path)))))"
proof (cases "fst (build_index (m_files m)) (strip_leading_slash path)")
  case None
  then have "find (\<lambda>f. f_path f = strip_leading_slash path) (rev (m_files m)) = None"
    by (simp add: by_path_None_iff find_None_iff image_iff) metis
  with None show ?thesis by (simp add: metadata_def Let_def not_found_error_def)
next
  case (Some i)
  then have "find (\<lambda>f. f_path f = strip_leading_slash path) (rev (m_files m)) = Some (m_files m ! i)"
    by (intro find_rev_index) (auto simp: by_path_iff)
  with Some show ?thesis
    using by_path_lt [OF Some] by (simp add: metadata_def Let_def get_at_def)
qed

text \<open>
  The component a not-found error names is the shortest prefix of the path, cut before a
  slash or the whole path, that is neither an entry nor the parent of one.
\<close>

theorem first_missing_correct:
  "first_missing_component st path =
    (if path = [] then None else find (\<lambda>q. \<not> path_known st q) (prefixes_from path 0))"
  by (simp add: first_missing_component_def missing_from_eq)

text \<open>
  C10: A directory listing is complete and exact: it has one entry for each file of the manifest
  whose parent is that directory, in manifest order, under distinct names, and looking up the
  path of an entry gives the metadata the listing gave.
\<close>

theorem listing_agrees_with_lookup:
  assumes "wf_files (m_files m)" and "list_dir api (depot_store_new m c) path = Ok es"
    and "d = (if path = ''/'' then [] else strip_leading_slash path)"
  shows "map (\<lambda>e. child_path d (e_name e)) es =
      map f_path (filter (\<lambda>f. parent_key (f_path f) = d) (m_files m)) \<and>
    distinct (map e_name es) \<and>
    (\<forall>e \<in> set es. metadata api (depot_store_new m c) (child_path d (e_name e)) = Ok (e_meta e))"
proof -
  let ?fs = "m_files m"
  have d: "d = (if path = [] \<or> path = ''/'' then [] else strip_leading_slash path)"
    using assms(3) by (auto simp: strip_leading_slash_def)
  have es: "es = map (\<lambda>i. \<lparr>e_name = entry_name (?fs ! i), e_meta = meta_of api (?fs ! i)\<rparr>)
      (child_indices ?fs d)"
    using assms(2) unfolding list_dir_new Let_def d [symmetric] by (simp split: if_splits)
  have path: "child_path d (entry_name (?fs ! i)) = f_path (?fs ! i)" if "i \<in> set (child_indices ?fs d)" for i
    using that assms(1) wf_path_entry_name [of "?fs ! i"]
    by (auto simp: child_indices_def wf_files_def list_all_length)
  have "map (\<lambda>e. child_path d (e_name e)) es = map (\<lambda>i. f_path (?fs ! i)) (child_indices ?fs d)"
    using path by (simp add: es)
  also have "\<dots> = map f_path (map (\<lambda>i. ?fs ! i) (child_indices ?fs d))" by simp
  also have "map (\<lambda>i. ?fs ! i) (child_indices ?fs d) = filter (\<lambda>f. parent_key (f_path f) = d) ?fs"
    using filter_map [of "\<lambda>f. parent_key (f_path f) = d" "\<lambda>i. ?fs ! i" "[0..<length ?fs]"]
    by (simp add: child_indices_def map_nth o_def)
  finally have 1: "map (\<lambda>e. child_path d (e_name e)) es =
      map f_path (filter (\<lambda>f. parent_key (f_path f) = d) ?fs)" .
  have 2: "distinct (map e_name es)"
    using entry_names_distinct [OF assms(1), of d] by (simp add: es o_def)
  have "metadata api (depot_store_new m c) (f_path (?fs ! i)) = Ok (meta_of api (?fs ! i))"
    if "i \<in> set (child_indices ?fs d)" for i
  proof (rule metadata_at)
    have "i < length ?fs" using that by (rule child_indices_lt)
    then show "wf_path (f_path (?fs ! i))" using assms(1) by (simp add: wf_files_def list_all_length)
    show "fst (build_index ?fs) (f_path (?fs ! i)) = Some i"
      using entry_index [OF assms(1) that] path [OF that] by simp
  qed
  with path have "\<forall>e \<in> set es. metadata api (depot_store_new m c) (child_path d (e_name e)) = Ok (e_meta e)"
    by (auto simp: es)
  with 1 2 show ?thesis by blast
qed

theorem listing_agrees_with_lookup_witness:
  "map (\<lambda>e. child_path ''d'' (e_name e)) [\<lparr>e_name = ''f'', e_meta = \<lparr>fm_size = 3, fm_kind = FtSymlink, fm_linktarget = Some ''x''\<rparr>\<rparr>] = [''d/f''] \<and>
   metadata std_depot_api
     (depot_store_new \<lparr>m_depot_id = 1, m_manifest_id = 2, m_creation_time = 3, m_size_uncompressed = 7,
        m_size_compressed = 7, m_files = [\<lparr>f_path = ''d/f'', f_size = 3, f_kind = Symlink ''x''\<rparr>]\<rparr>
      no_chunks) ''d/f'' =
   Ok \<lparr>fm_size = 3, fm_kind = FtSymlink, fm_linktarget = Some ''x''\<rparr>"
proof -
  let ?m = "\<lparr>m_depot_id = 1, m_manifest_id = 2, m_creation_time = 3, m_size_uncompressed = 7,
        m_size_compressed = 7, m_files = [\<lparr>f_path = ''d/f'', f_size = 3, f_kind = Symlink ''x''\<rparr>]\<rparr>"
  let ?c = no_chunks
  let ?e = "\<lparr>e_name = ''f'', e_meta = \<lparr>fm_size = 3, fm_kind = FtSymlink, fm_linktarget = Some ''x''\<rparr>\<rparr>"
  have wf: "wf_files (m_files ?m)"
    by (simp add: wf_files_def wf_path_def split_on.simps plain_name_def)
  have "parent_key ''d/f'' = ''d''" "path_file_name ''d/f'' = Some ''f''" by code_simp+
  then have ls: "list_dir std_depot_api (depot_store_new ?m ?c) ''/d'' = Ok [?e]"
    by (simp add: list_dir_def Let_def build_index_def index_step_def strip_leading_slash_def
        get_at_def meta_of_def std_depot_api_def)
  from listing_agrees_with_lookup [OF wf ls refl]
  show ?thesis
    by (simp add: strip_leading_slash_def child_path_def)
qed

text \<open>
  An empty directory of the manifest is known to \<open>metadata\<close> as a directory, but listing it
  is a not-found error: only directories that are the parent of some file are indexed.
\<close>

theorem empty_directory_not_listed:
  assumes "wf_files (m_files m)" and "f \<in> set (m_files m)" and "api_file_type api f = FtDirectory"
    and "\<forall>g \<in> set (m_files m). parent_key (f_path g) \<noteq> f_path f"
  shows "(\<exists>meta. metadata api (depot_store_new m c) (f_path f) = Ok meta \<and> fm_kind meta = FtDirectory) \<and>
    (\<exists>e. list_dir api (depot_store_new m c) (f_path f) = Err e \<and> io_kind_of e = KNotFound)"
proof -
  from assms(2) obtain i where i: "i < length (m_files m)" "m_files m ! i = f"
    by (auto simp: in_set_conv_nth)
  then have ix: "fst (build_index (m_files m)) (f_path f) = Some i"
    using assms(1) by (simp add: wf_files_def by_path_distinct)
  have wf: "wf_path (f_path f)" using assms(1,2) by (simp add: wf_files_def list_all_iff)
  have "child_indices (m_files m) (f_path f) = []"
    using assms(4) by (auto simp: child_indices_def filter_empty_conv)
  then have "list_dir api (depot_store_new m c) (f_path f) =
      Err (not_found_error (depot_store_new m c) (f_path f) (f_path f))"
    using wf_path_no_lead [OF wf] by (simp add: list_dir_new Let_def)
  moreover have "metadata api (depot_store_new m c) (f_path f) = Ok (meta_of api f)"
    using metadata_at [OF wf ix] i(2) by simp
  ultimately show ?thesis using assms(3) by (simp add: meta_of_def not_found_error_def)
qed

theorem empty_directory_not_listed_witness:
  "\<exists>e. list_dir std_depot_api
     (depot_store_new \<lparr>m_depot_id = 1, m_manifest_id = 2, m_creation_time = 3, m_size_uncompressed = 0,
        m_size_compressed = 0, m_files = [\<lparr>f_path = ''logs'', f_size = 0, f_kind = Directory\<rparr>]\<rparr>
      no_chunks) ''logs'' = Err e \<and> io_kind_of e = KNotFound"
proof -
  let ?f = "\<lparr>f_path = ''logs'', f_size = 0, f_kind = Directory\<rparr>"
  let ?m = "\<lparr>m_depot_id = 1, m_manifest_id = 2, m_creation_time = 3, m_size_uncompressed = 0,
        m_size_compressed = 0, m_files = [?f]\<rparr>"
  have wf: "wf_files (m_files ?m)" "?f \<in> set (m_files ?m)"
    by (simp_all add: wf_files_def wf_path_def split_on.simps plain_name_def)
  have ft: "api_file_type std_depot_api ?f = FtDirectory" by (simp add: std_depot_api_def)
  have "parent_key ''logs'' = ''''" by code_simp
  then have "\<forall>g \<in> set (m_files ?m). parent_key (f_path g) \<noteq> f_path ?f" by simp
  from empty_directory_not_listed [OF wf ft this, of no_chunks] show ?thesis by simp
qed

end
