(* ===== verification/Depot_Read.thy ===== *)
theory Depot_Read
  imports Depot_Fs
begin

text \<open>
  \<open>fs.rs\<close>, second half: reading byte ranges of a file out of its chunks, and the synchronous
  reader with its one-chunk cache.  Arithmetic on offsets is on \<open>u64\<close> and wraps, as in a
  release build.
\<close>

section \<open>Reading\<close>

text \<open>
  The chunk loop of \<open>read_into\<close>.  The buffer is extended in place, so what has been appended
  before an error stays in it.
\<close>

fun read_chunks ::
  "(chunk_hash \<Rightarrow> 's \<Rightarrow> (vfs_error, bytes) outcome \<times> 's) \<Rightarrow> string \<Rightarrow> u64 \<Rightarrow> u64 \<Rightarrow>
     chunk list \<Rightarrow> bytes \<Rightarrow> 's \<Rightarrow> (io_error, unit) outcome \<times> bytes \<times> 's" where
  "read_chunks get fpath offset stop [] out s = (Ok (), out, s)"
| "read_chunks get fpath offset stop (c # cs) out s =
     (let c_start = c_offset c;
          c_end = c_offset c + ucast (c_size_uncompressed c)
      in if c_end \<le> offset then read_chunks get fpath offset stop cs out s
         else if c_start \<ge> stop then (Ok (), out, s)
         else
           (case get (c_sha c) s of
              (Err e, s') \<Rightarrow> (Err (OtherError e), out, s')
            | (Panic, s') \<Rightarrow> (Panic, out, s')
            | (Ok bs, s') \<Rightarrow>
                (let slice_start = unat (saturating_sub offset c_start);
                     slice_end = unat (min stop c_end - c_start)
                 in if length bs < slice_end then
                      (Err (ShortChunk (c_sha c) fpath (length bs) (c_size_uncompressed c)), out, s')
                    else
                      (case sub_slice bs slice_start slice_end of
                         None \<Rightarrow> (Panic, out, s')
                       | Some x \<Rightarrow> read_chunks get fpath offset stop cs (out @ x) s'))))"

text \<open>\<open>Vec::reserve\<close> panics when the new length would pass \<open>isize::MAX\<close>.\<close>

definition reserve_fits :: "bytes \<Rightarrow> u64 \<Rightarrow> bool" where
  "reserve_fits out additional \<longleftrightarrow> length out + unat additional < 2 ^ 63"

definition read_into ::
  "depot_api \<Rightarrow> 's depot_store \<Rightarrow> string \<Rightarrow> u64 \<Rightarrow> u64 \<Rightarrow> bytes \<Rightarrow> 's \<Rightarrow>
     (io_error, unit) outcome \<times> bytes \<times> 's" where
  "read_into api st path offset len out s =
     (let p = strip_leading_slash path in
      case ds_by_path st p of
        None \<Rightarrow> (Err (not_found_error st path p), out, s)
      | Some idx \<Rightarrow>
          (case get_at (m_files (ds_manifest st)) idx of
             None \<Rightarrow> (Panic, out, s)
           | Some f \<Rightarrow>
               if \<not> api_is_file api f then (Err (NotRegularFile path), out, s)
               else if offset > f_size f then (Err (ReadPastEnd (f_size f) offset), out, s)
               else
                 (let stop = min (offset + len) (f_size f);
                      want_len = stop - offset
                  in if \<not> reserve_fits out want_len then (Panic, out, s)
                     else read_chunks (cs_get (ds_chunks st)) (f_path f) offset stop
                            (api_chunks api f) out s)))"

definition read ::
  "depot_api \<Rightarrow> 's depot_store \<Rightarrow> string \<Rightarrow> u64 \<Rightarrow> u64 \<Rightarrow> 's \<Rightarrow>
     (io_error, bytes) outcome \<times> 's" where
  "read api st path offset len s =
     (case read_into api st path offset len [] s of (r, out, s') \<Rightarrow> (omap (\<lambda>_. out) r, s'))"

definition read_full ::
  "depot_api \<Rightarrow> 's depot_store \<Rightarrow> string \<Rightarrow> 's \<Rightarrow> (io_error, bytes) outcome \<times> 's" where
  "read_full api st path s =
     (case metadata api st path of
        Err e \<Rightarrow> (Err e, s)
      | Panic \<Rightarrow> (Panic, s)
      | Ok meta \<Rightarrow>
          if fm_kind meta \<noteq> FtFile then (Err (NotRegularFile path), s)
          else read api st path 0 (fm_size meta) s)"

section \<open>The synchronous reader\<close>

text \<open>
  \<open>DepotFileReader\<close>: a position in one file and the chunk touched last, with its index.
  \<open>reader_read n\<close> is \<open>read\<close> into a buffer of \<open>n\<close> bytes; its value is the bytes copied to the
  front of the buffer, whose number the code returns.
\<close>

record reader =
  r_file_idx :: nat
  r_size :: u64
  r_pos :: u64
  r_cached :: "(nat \<times> bytes) option"

definition open_reader ::
  "depot_api \<Rightarrow> 's depot_store \<Rightarrow> string \<Rightarrow> (io_error, reader) outcome" where
  "open_reader api st path =
     (let stripped = strip_leading_slash path in
      case ds_by_path st stripped of
        None \<Rightarrow> Err (not_found_error st path stripped)
      | Some idx \<Rightarrow>
          (case get_at (m_files (ds_manifest st)) idx of
             None \<Rightarrow> Panic
           | Some f \<Rightarrow>
               if \<not> api_is_file api f then Err (NotRegularFile path)
               else Ok \<lparr>r_file_idx = idx, r_size = f_size f, r_pos = 0, r_cached = None\<rparr>))"

text \<open>The chunk the reader needs: the one it holds, or a fetch that replaces it.\<close>

definition reader_fetch ::
  "'s depot_store \<Rightarrow> nat \<Rightarrow> chunk_hash \<Rightarrow> reader \<Rightarrow> 's \<Rightarrow>
     (io_error, bytes) outcome \<times> reader \<times> 's" where
  "reader_fetch st chunk_i sha rd s =
     (case r_cached rd of
        Some (i, b) \<Rightarrow>
          if i = chunk_i then (Ok b, rd, s)
          else (case cs_get (ds_chunks st) sha s of
                  (Ok b', s') \<Rightarrow> (Ok b', rd\<lparr>r_cached := Some (chunk_i, b')\<rparr>, s')
                | (Err e, s') \<Rightarrow> (Err (OtherError e), rd, s')
                | (Panic, s') \<Rightarrow> (Panic, rd, s'))
      | None \<Rightarrow>
          (case cs_get (ds_chunks st) sha s of
             (Ok b', s') \<Rightarrow> (Ok b', rd\<lparr>r_cached := Some (chunk_i, b')\<rparr>, s')
           | (Err e, s') \<Rightarrow> (Err (OtherError e), rd, s')
           | (Panic, s') \<Rightarrow> (Panic, rd, s')))"

definition reader_read ::
  "depot_api \<Rightarrow> 's depot_store \<Rightarrow> nat \<Rightarrow> reader \<Rightarrow> 's \<Rightarrow>
     (io_error, bytes) outcome \<times> reader \<times> 's" where
  "reader_read api st n rd s =
     (if n = 0 \<or> r_pos rd \<ge> r_size rd then (Ok [], rd, s)
      else
        (case get_at (m_files (ds_manifest st)) (r_file_idx rd) of
           None \<Rightarrow> (Panic, rd, s)
         | Some f \<Rightarrow>
             (case checked_sub (partition_point (\<lambda>c. c_offset c \<le> r_pos rd) (api_chunks api f)) 1 of
                None \<Rightarrow> (Err (NoChunkCovers (r_pos rd) (f_path f)), rd, s)
              | Some chunk_i \<Rightarrow>
                  (case get_at (api_chunks api f) chunk_i of
                     None \<Rightarrow> (Panic, rd, s)
                   | Some c \<Rightarrow>
                       if r_pos rd \<ge> c_offset c + ucast (c_size_uncompressed c) then
                         (Err (NoChunkCovers (r_pos rd) (f_path f)), rd, s)
                       else
                         (case reader_fetch st chunk_i (c_sha c) rd s of
                            (Err e, rd', s') \<Rightarrow> (Err e, rd', s')
                          | (Panic, rd', s') \<Rightarrow> (Panic, rd', s')
                          | (Ok bs, rd', s') \<Rightarrow>
                              (let chunk_off = unat (r_pos rd - c_offset c);
                                   available = length bs - chunk_off;
                                   to_copy = min available n
                               in case sub_slice bs chunk_off (chunk_off + to_copy) of
                                    None \<Rightarrow> (Panic, rd', s')
                                  | Some x \<Rightarrow>
                                      (Ok x, rd'\<lparr>r_pos := r_pos rd' + word_of_nat to_copy\<rparr>, s')))))))"

text \<open>\<open>SeekFrom\<close> and \<open>seek\<close>: the sum is taken in \<open>i128\<close> and cut back to \<open>u64\<close>.\<close>

datatype seek_from = SeekStart u64 | SeekEnd "64 word" | SeekCurrent "64 word"

definition seek_target :: "reader \<Rightarrow> seek_from \<Rightarrow> int" where
  "seek_target rd p =
     (case p of
        SeekStart n \<Rightarrow> uint n
      | SeekEnd n \<Rightarrow> uint (r_size rd) + sint n
      | SeekCurrent n \<Rightarrow> uint (r_pos rd) + sint n)"

definition seek :: "reader \<Rightarrow> seek_from \<Rightarrow> (io_error, u64) outcome \<times> reader" where
  "seek rd p =
     (let new_pos = seek_target rd p in
      if new_pos < 0 then (Err SeekBeforeStart, rd)
      else (Ok (word_of_int new_pos), rd\<lparr>r_pos := word_of_int new_pos\<rparr>))"

text \<open>\<open>Read::read_to_end\<close> over the reader: reads of up to \<open>n\<close> bytes until one returns nothing.\<close>

fun read_loop ::
  "nat \<Rightarrow> depot_api \<Rightarrow> 's depot_store \<Rightarrow> nat \<Rightarrow> reader \<Rightarrow> 's \<Rightarrow>
     ((io_error, bytes) outcome \<times> reader \<times> 's) option" where
  "read_loop 0 api st n rd s = None"
| "read_loop (Suc fuel) api st n rd s =
     (case reader_read api st n rd s of
        (Err e, rd', s') \<Rightarrow> Some (Err e, rd', s')
      | (Panic, rd', s') \<Rightarrow> Some (Panic, rd', s')
      | (Ok x, rd', s') \<Rightarrow>
          if x = [] then Some (Ok [], rd', s')
          else map_option (\<lambda>(r, rd'', s''). (omap (\<lambda>y. x @ y) r, rd'', s''))
                 (read_loop fuel api st n rd' s'))"

section \<open>Files tiled by their chunks\<close>

text \<open>
  \<open>tiles a cs b\<close>: the chunks cover the bytes from \<open>a\<close> to \<open>b\<close> one after the other.
  \<open>file_content\<close> is the file they spell out.
\<close>

abbreviation csize :: "chunk \<Rightarrow> nat" where
  "csize c \<equiv> unat (c_size_uncompressed c)"

abbreviation coff :: "chunk \<Rightarrow> nat" where
  "coff c \<equiv> unat (c_offset c)"

fun tiles :: "nat \<Rightarrow> chunk list \<Rightarrow> nat \<Rightarrow> bool" where
  "tiles a [] b \<longleftrightarrow> a = b"
| "tiles a (c # cs) b \<longleftrightarrow> coff c = a \<and> tiles (a + csize c) cs b"

definition sizes_ok :: "(chunk_hash \<Rightarrow> bytes) \<Rightarrow> chunk list \<Rightarrow> bool" where
  "sizes_ok plain cs \<longleftrightarrow> list_all (\<lambda>c. length (plain (c_sha c)) = csize c) cs"

definition file_content :: "(chunk_hash \<Rightarrow> bytes) \<Rightarrow> chunk list \<Rightarrow> bytes" where
  "file_content plain cs = concat (map (\<lambda>c. plain (c_sha c)) cs)"

lemma file_content_Cons [simp]:
  "file_content plain (c # cs) = plain (c_sha c) @ file_content plain cs"
  "file_content plain [] = []"
  by (simp_all add: file_content_def)

lemma sizes_ok_Cons [simp]:
  "sizes_ok plain (c # cs) \<longleftrightarrow> length (plain (c_sha c)) = csize c \<and> sizes_ok plain cs"
  by (simp add: sizes_ok_def)

lemma tiles_le: "tiles a cs b \<Longrightarrow> a \<le> b"
  by (induction cs arbitrary: a) (fastforce simp: le_trans)+

lemma tiles_length: "tiles a cs b \<Longrightarrow> sizes_ok plain cs \<Longrightarrow> length (file_content plain cs) = b - a"
proof (induction cs arbitrary: a)
  case (Cons c cs)
  then have "tiles (a + csize c) cs b" "sizes_ok plain cs" by auto
  from Cons.IH [OF this] tiles_le [OF this(1)] Cons.prems show ?case by simp
qed simp

lemma chunk_end_unat:
  assumes "tiles a (c # cs) b" and "b < 2 ^ 64"
  shows "unat (c_offset c + ucast (c_size_uncompressed c)) = a + csize c"
proof -
  have "a + csize c \<le> b" using assms(1) tiles_le by auto
  then show ?thesis
    using assms by (simp add: unat_plus_fits unat_ucast_u32_u64)
qed

text \<open>A list split at a point inside its front part.\<close>

lemma window_split:
  assumes "length p = n" and "a < st" and "off < a + n" and "off \<le> st"
  shows "take (st - max off a) (drop (off - a) (p @ q)) =
    take (min st (a + n) - a - (off - a)) (drop (off - a) p) @ take (st - (a + n)) q"
proof -
  have "drop (off - a) (p @ q) = drop (off - a) p @ q" using assms by simp
  moreover have "st - max off a - (n - (off - a)) = st - (a + n)" using assms by auto
  moreover have "take (st - max off a) (drop (off - a) p) =
      take (min st (a + n) - a - (off - a)) (drop (off - a) p)"
  proof (cases "st \<le> a + n")
    case True
    then show ?thesis using assms by (intro arg_cong2 [where f = take]) auto
  next
    case False
    then show ?thesis using assms by simp
  qed
  ultimately show ?thesis using assms(1) by simp
qed

context chunk_source
begin

lemma read_chunks_sound:
  assumes "tiles a cs b" and "b < 2 ^ 64" and "sizes_ok plain cs"
    and "unat offset \<le> unat stop" and "inv s"
    and "read_chunks get p offset stop cs out s = (r, out', s')"
  shows "inv s' \<and> (r = Ok () \<longrightarrow>
    out' = out @ take (unat stop - max (unat offset) a)
      (drop (unat offset - a) (file_content plain cs)))"
  using assms
proof (induction cs arbitrary: a out s)
  case Nil
  then show ?case by auto
next
  case (Cons c cs)
  let ?off = "unat offset" and ?st = "unat stop" and ?n = "csize c"
  have t: "tiles (a + ?n) cs b" and off: "coff c = a" and lp: "length (plain (c_sha c)) = ?n"
    and so: "sizes_ok plain cs" using Cons.prems by auto
  have ce: "unat (c_offset c + ucast (c_size_uncompressed c)) = a + ?n"
    using Cons.prems(1,2) by (rule chunk_end_unat)
  note IH = Cons.IH [OF t Cons.prems(2) so Cons.prems(4)]
  show ?case
  proof (cases "a + ?n \<le> ?off")
    case True
    then have "read_chunks get p offset stop cs out s = (r, out', s')"
      using Cons.prems(6) ce by (simp add: Let_def word_le_nat_alt)
    from IH [OF Cons.prems(5) this] show ?thesis
      using True lp by (cases "?off = a") (auto simp: max_def)
  next
    case skip: False
    show ?thesis
    proof (cases "?st \<le> a")
      case True
      then show ?thesis using Cons.prems(5,6) skip ce off by (simp add: Let_def word_le_nat_alt)
    next
      case False
      obtain g s1 where g: "get (c_sha c) s = (g, s1)" by fastforce
      have inv1: "inv s1" using get_inv [OF Cons.prems(5) g] .
      have se: "unat (min stop (c_offset c + ucast (c_size_uncompressed c)) - c_offset c) =
          min ?st (a + ?n) - a"
        using False ce off
        by (subst unat_minus_le) (simp_all add: word_le_nat_alt unat_min min_def)
      have ss: "unat (saturating_sub offset (c_offset c)) = ?off - a"
        using off by (simp add: unat_saturating_sub)
      show ?thesis
      proof (cases g)
        case (Ok bs)
        with g have bs: "bs = plain (c_sha c)" using get_sound [OF Cons.prems(5)] by simp
        have nl: "\<not> ?n < min ?st (a + ?n) - a" by linarith
        have sl: "sub_slice bs (?off - a) (min ?st (a + ?n) - a) =
            Some (take (min ?st (a + ?n) - a - (?off - a)) (drop (?off - a) bs))"
          using skip False Cons.prems(4) bs lp by (simp add: sub_slice_def) linarith
        have "read_chunks get p offset stop cs
            (out @ take (min ?st (a + ?n) - a - (?off - a)) (drop (?off - a) bs)) s1 = (r, out', s')"
          using Cons.prems(6) skip False ce off g Ok bs lp sl nl
          by (simp add: Let_def word_le_nat_alt se ss not_less)
        from IH [OF inv1 this] show ?thesis
          using window_split [of "plain (c_sha c)" ?n a ?st ?off "file_content plain cs"]
            skip False Cons.prems(4) bs lp by (auto simp: max_def)
      qed (use Cons.prems(6) skip False ce off g inv1 in
          \<open>auto simp: Let_def word_le_nat_alt\<close>)
    qed
  qed
qed

end

text \<open>With every chunk to be had, the chunk loop returns.\<close>

context full_source
begin

lemma read_chunks_returns:
  assumes "tiles a cs b" and "b < 2 ^ 64" and "sizes_ok plain cs"
    and "unat offset \<le> unat stop" and "inv s" and "\<forall>c \<in> set cs. c_sha c \<in> avail"
  shows "fst (read_chunks get p offset stop cs out s) = Ok ()"
  using assms
proof (induction cs arbitrary: a out s)
  case (Cons c cs)
  let ?off = "unat offset" and ?st = "unat stop" and ?n = "csize c"
  have t: "tiles (a + ?n) cs b" and off: "coff c = a" and lp: "length (plain (c_sha c)) = ?n"
    and so: "sizes_ok plain cs" and av: "\<forall>c \<in> set cs. c_sha c \<in> avail" "c_sha c \<in> avail"
    using Cons.prems by auto
  have ce: "unat (c_offset c + ucast (c_size_uncompressed c)) = a + ?n"
    using Cons.prems(1,2) by (rule chunk_end_unat)
  note IH = Cons.IH [OF t Cons.prems(2) so Cons.prems(4) _ av(1)]
  obtain bs s1 where g: "get (c_sha c) s = (Ok bs, s1)"
    using get_avail [OF Cons.prems(5) av(2)] by blast
  have bs: "bs = plain (c_sha c)" using get_sound [OF Cons.prems(5) g] .
  have inv1: "inv s1" using get_inv [OF Cons.prems(5) g] .
  show ?case
  proof (cases "a + ?n \<le> ?off \<or> ?st \<le> a")
    case True
    then show ?thesis using IH [OF Cons.prems(5)] ce off by (auto simp: Let_def word_le_nat_alt)
  next
    case False
    have se: "unat (min stop (c_offset c + ucast (c_size_uncompressed c)) - c_offset c) =
        min ?st (a + ?n) - a"
      using False ce off by (subst unat_minus_le) (simp_all add: word_le_nat_alt unat_min min_def)
    have ss: "unat (saturating_sub offset (c_offset c)) = ?off - a"
      using off by (simp add: unat_saturating_sub)
    have nl: "\<not> ?n < min ?st (a + ?n) - a" by linarith
    have "\<exists>x. sub_slice bs (?off - a) (min ?st (a + ?n) - a) = Some x"
      using False Cons.prems(4) bs lp by (simp add: sub_slice_def) linarith
    then obtain x where "sub_slice bs (?off - a) (min ?st (a + ?n) - a) = Some x" ..
    then show ?thesis
      using IH [OF inv1] False ce off g bs lp nl by (simp add: Let_def word_le_nat_alt se ss)
  qed
qed simp

end

section \<open>Whatever the store answers\<close>

text \<open>
  The slice the chunk loop takes is always in range, even for offsets that wrap and chunks of
  the wrong length: the loop panics only when the store does.
\<close>

lemma chunk_slice_in_range:
  fixes c_start size :: u64
  assumes "\<not> c_start + size \<le> offset" and "\<not> stop \<le> c_start" and "offset \<le> stop"
  shows "unat (saturating_sub offset c_start) \<le> unat (min stop (c_start + size) - c_start)"
proof (cases "c_start \<le> c_start + size")
  case True
  then have "c_start \<le> min stop (c_start + size)" using assms by (auto simp: min_def)
  then have "unat (min stop (c_start + size) - c_start) =
      min (unat stop) (unat (c_start + size)) - unat c_start"
    by (simp add: unat_minus_le unat_min)
  then show ?thesis using assms by (simp add: unat_saturating_sub word_le_nat_alt)
next
  case False
  then show ?thesis using assms by (simp add: unat_saturating_sub word_le_nat_alt)
qed

lemma read_chunks_no_panic:
  assumes "\<And>h s. fst (get h s) \<noteq> Panic" and "offset \<le> stop"
  shows "fst (read_chunks get p offset stop cs out s) \<noteq> Panic"
proof (induction cs arbitrary: out s)
  case (Cons c cs)
  obtain g s1 where g: "get (c_sha c) s = (g, s1)" by fastforce
  then have "g \<noteq> Panic" using assms(1) [of "c_sha c" s] by simp
  show ?case
  proof (cases "c_offset c + ucast (c_size_uncompressed c) \<le> offset \<or> stop \<le> c_offset c")
    case True
    then show ?thesis using Cons.IH by (auto simp: Let_def)
  next
    case False
    note r = chunk_slice_in_range [of "c_offset c" "ucast (c_size_uncompressed c)" offset stop]
    show ?thesis
      using Cons.IH False g \<open>g \<noteq> Panic\<close> r assms(2)
      by (cases g) (auto simp: Let_def sub_slice_def)
  qed
qed simp

text \<open>Whatever the store answers, the loop only appends.\<close>

lemma read_chunks_appends:
  "read_chunks get p offset stop cs out s = (r, out', s') \<Longrightarrow> \<exists>x. out' = out @ x"
proof (induction cs arbitrary: out s)
  case (Cons c cs)
  obtain g s1 where g: "get (c_sha c) s = (g, s1)" by fastforce
  show ?case
    using Cons.prems g
    by (cases g) (auto simp: Let_def dest!: Cons.IH split: if_splits option.splits)
qed simp

section \<open>The call around the loop\<close>

lemma read_into_new:
  assumes "fst (build_index (m_files m)) (strip_leading_slash path) = Some i"
    and "f = m_files m ! i"
  shows "read_into api (depot_store_new m ch) path offset len out s =
    (if \<not> api_is_file api f then (Err (NotRegularFile path), out, s)
     else if offset > f_size f then (Err (ReadPastEnd (f_size f) offset), out, s)
     else if \<not> reserve_fits out (min (offset + len) (f_size f) - offset) then (Panic, out, s)
     else read_chunks (cs_get ch) (f_path f) offset (min (offset + len) (f_size f))
            (api_chunks api f) out s)"
  using assms by_path_lt [OF assms(1)] by (simp add: read_into_def get_at_def Let_def)

lemma read_range:
  fixes offset len size :: u64
  assumes "\<not> offset > size" and "unat offset + unat len < 2 ^ 64"
  shows "offset \<le> min (offset + len) size"
    and "unat (min (offset + len) size) = min (unat offset + unat len) (unat size)"
    and "unat (min (offset + len) size - offset) = min (unat len) (unat size - unat offset)"
proof -
  have u: "unat (offset + len) = unat offset + unat len" using assms(2) by (simp add: unat_plus_fits)
  show le: "offset \<le> min (offset + len) size"
    using assms(1) u by (simp add: word_le_nat_alt unat_min not_less)
  show m: "unat (min (offset + len) size) = min (unat offset + unat len) (unat size)"
    by (simp add: unat_min u)
  show "unat (min (offset + len) size - offset) = min (unat len) (unat size - unat offset)"
    using le m by (simp add: unat_minus_le) 
qed

context chunk_source
begin

lemma read_into_sound:
  assumes ix: "fst (build_index (m_files m)) (strip_leading_slash path) = Some i"
    and f: "f = m_files m ! i" and get: "cs_get ch = get"
    and t: "tiles 0 (api_chunks api f) (unat (f_size f))" and so: "sizes_ok plain (api_chunks api f)"
    and nw: "unat offset + unat len < 2 ^ 64" and inv: "inv s"
    and rd: "read_into api (depot_store_new m ch) path offset len out s = (r, out', s')"
  shows "inv s' \<and> (r = Ok () \<longrightarrow>
    out' = out @ take (unat len) (drop (unat offset) (file_content plain (api_chunks api f))))"
proof (cases "api_is_file api f \<and> \<not> offset > f_size f \<and>
    reserve_fits out (min (offset + len) (f_size f) - offset)")
  case True
  then have "read_chunks get (f_path f) offset (min (offset + len) (f_size f))
      (api_chunks api f) out s = (r, out', s')"
    using rd by (simp add: read_into_new [OF ix f] get)
  moreover have "\<not> offset > f_size f" using True by simp
  note rr = read_range [OF this nw]
  have b: "unat (f_size f) < 2 ^ 64" using unsigned_less [of "f_size f", where 'a = nat] by simp
  ultimately have "inv s' \<and> (r = Ok () \<longrightarrow>
      out' = out @ take (unat (min (offset + len) (f_size f)) - max (unat offset) 0)
        (drop (unat offset - 0) (file_content plain (api_chunks api f))))"
    using read_chunks_sound [OF t b so _ inv] rr(1) by (simp add: word_le_nat_alt)
  moreover have "unat (min (offset + len) (f_size f)) - unat offset =
      min (unat len) (unat (f_size f) - unat offset)"
    using rr(2) by simp
  ultimately show ?thesis
    using tiles_length [OF t so] by (auto simp: min_def)
next
  case False
  then show ?thesis using rd inv by (auto simp: read_into_new [OF ix f] split: if_splits)
qed

end

context full_source
begin

lemma read_into_returns:
  assumes ix: "fst (build_index (m_files m)) (strip_leading_slash path) = Some i"
    and f: "f = m_files m ! i" and get: "cs_get ch = get" and fi: "api_is_file api f"
    and t: "tiles 0 (api_chunks api f) (unat (f_size f))" and so: "sizes_ok plain (api_chunks api f)"
    and av: "\<forall>c \<in> set (api_chunks api f). c_sha c \<in> avail"
    and nw: "unat offset + unat len < 2 ^ 64" and le: "offset \<le> f_size f"
    and fits: "length out + unat (f_size f) < 2 ^ 63" and inv: "inv s"
  shows "fst (read_into api (depot_store_new m ch) path offset len out s) = Ok ()"
proof -
  have nl: "\<not> offset > f_size f" using le by simp
  note rr = read_range [OF nl nw]
  have b: "unat (f_size f) < 2 ^ 64" using unsigned_less [of "f_size f", where 'a = nat] by simp
  have "reserve_fits out (min (offset + len) (f_size f) - offset)"
    using rr(3) fits by (simp add: reserve_fits_def)
  then show ?thesis
    using read_chunks_returns [OF t b so _ inv av] rr(1) fi nl
    by (simp add: read_into_new [OF ix f] get word_le_nat_alt)
qed

end

section \<open>The chunk under a position\<close>

lemma tiles_append: "tiles a (xs @ ys) b \<longleftrightarrow> (\<exists>m. tiles a xs m \<and> tiles m ys b)"
  by (induction xs arbitrary: a) auto

lemma tiles_nth:
  assumes "tiles a cs b" and "i < length cs"
  shows "tiles a (take i cs) (coff (cs ! i))"
    and "tiles (coff (cs ! i) + csize (cs ! i)) (drop (Suc i) cs) b"
proof -
  have "tiles a (take i cs @ cs ! i # drop (Suc i) cs) b"
    using assms by (simp add: id_take_nth_drop [symmetric])
  then show "tiles a (take i cs) (coff (cs ! i))"
    and "tiles (coff (cs ! i) + csize (cs ! i)) (drop (Suc i) cs) b"
    by (auto simp: tiles_append)
qed

lemma tiles_next:
  assumes "tiles a cs b" and "Suc i < length cs"
  shows "coff (cs ! Suc i) = coff (cs ! i) + csize (cs ! i)"
  using tiles_nth(2) [OF assms(1), of i] assms(2) by (simp add: Cons_nth_drop_Suc [symmetric])

lemma tiles_sorted:
  assumes "tiles a cs b"
  shows "sorted (map c_offset cs)"
  unfolding sorted_iff_nth_Suc
proof (intro allI impI)
  fix i assume "Suc i < length (map c_offset cs)"
  then show "map c_offset cs ! i \<le> map c_offset cs ! Suc i"
    using tiles_next [OF assms, of i] by (simp add: word_le_nat_alt)
qed

lemma content_at:
  assumes "tiles 0 cs b" and "sizes_ok plain cs" and "i < length cs"
  shows "drop (coff (cs ! i)) (file_content plain cs) =
    plain (c_sha (cs ! i)) @ file_content plain (drop (Suc i) cs)"
proof -
  have "file_content plain cs = file_content plain (take i cs) @
      plain (c_sha (cs ! i)) @ file_content plain (drop (Suc i) cs)"
    using assms(3) by (subst id_take_nth_drop [OF assms(3)]) (simp add: file_content_def)
  moreover have "length (file_content plain (take i cs)) = coff (cs ! i)"
  proof -
    have "sizes_ok plain (take i cs)"
      using assms(2) by (auto simp: sizes_ok_def list_all_iff dest: in_set_takeD)
    from tiles_length [OF tiles_nth(1) [OF assms(1,3)] this] show ?thesis by simp
  qed
  ultimately show ?thesis by simp
qed

lemma chunk_under:
  assumes "tiles 0 cs (unat fsize)" and "pos < fsize"
  shows "\<exists>i. checked_sub (partition_point (\<lambda>c. c_offset c \<le> pos) cs) 1 = Some i \<and>
    i < length cs \<and> c_offset (cs ! i) \<le> pos \<and>
    unat pos < coff (cs ! i) + csize (cs ! i) \<and> coff (cs ! i) + csize (cs ! i) \<le> unat fsize"
proof -
  let ?pp = "partition_point (\<lambda>c. c_offset c \<le> pos) cs"
  have ps: "unat pos < unat fsize" using assms(2) by (simp add: word_less_nat_alt)
  note sorted = tiles_sorted [OF assms(1)]
  have ne: "0 < length cs" using assms(1) ps by (cases cs) auto
  then have "coff (cs ! 0) = 0" using assms(1) by (cases cs) auto
  then have "c_offset (cs ! 0) \<le> pos" by (simp add: word_le_nat_alt)
  with partition_point_sorted [OF sorted ne, of pos] have pp: "0 < ?pp" by simp
  have le: "?pp \<le> length cs" by (rule partition_point_le)
  let ?i = "?pp - 1"
  have i: "?i < length cs" using pp le by simp
  have at: "c_offset (cs ! ?i) \<le> pos"
    using partition_point_sorted [OF sorted i, of pos] pp by simp
  have end_le: "coff (cs ! ?i) + csize (cs ! ?i) \<le> unat fsize"
    using tiles_le [OF tiles_nth(2) [OF assms(1) i]] .
  have "unat pos < coff (cs ! ?i) + csize (cs ! ?i)"
  proof (cases "?pp < length cs")
    case True
    then have "\<not> c_offset (cs ! ?pp) \<le> pos"
      using partition_point_sorted [OF sorted True, of pos] by simp
    then show ?thesis
      using tiles_next [OF assms(1), of ?i] pp True by (simp add: word_le_nat_alt)
  next
    case False
    then have "drop (Suc ?i) cs = []" using pp by simp
    then show ?thesis using tiles_nth(2) [OF assms(1) i] ps by simp
  qed
  with pp i at end_le show ?thesis by (intro exI [of _ ?i]) (simp add: checked_sub_def)
qed

section \<open>What the reader returns\<close>

text \<open>
  The reader is at rest on a file when its cached chunk, if it has one, is the plaintext of the
  chunk at that index.
\<close>

definition reader_ok :: "(chunk_hash \<Rightarrow> bytes) \<Rightarrow> depot_api \<Rightarrow> manifest \<Rightarrow> reader \<Rightarrow> bool" where
  "reader_ok plain api m rd \<longleftrightarrow>
     (\<exists>f. get_at (m_files m) (r_file_idx rd) = Some f \<and> r_size rd = f_size f \<and>
        tiles 0 (api_chunks api f) (unat (f_size f)) \<and> sizes_ok plain (api_chunks api f) \<and>
        (\<forall>i b. r_cached rd = Some (i, b) \<longrightarrow>
           i < length (api_chunks api f) \<and> b = plain (c_sha (api_chunks api f ! i))))"

definition reader_content :: "(chunk_hash \<Rightarrow> bytes) \<Rightarrow> depot_api \<Rightarrow> manifest \<Rightarrow> reader \<Rightarrow> bytes" where
  "reader_content plain api m rd =
     (case get_at (m_files m) (r_file_idx rd) of
        None \<Rightarrow> [] | Some f \<Rightarrow> file_content plain (api_chunks api f))"

context chunk_source
begin

lemma reader_fetch_sound:
  assumes "reader_fetch st i sha rd s = (r, rd', s')" and "cs_get (ds_chunks st) = get" and "inv s"
    and "\<And>b. r_cached rd = Some (i, b) \<Longrightarrow> b = plain sha"
  shows "inv s'" and "\<And>b. r = Ok b \<Longrightarrow> b = plain sha"
    and "rd' = rd \<or> rd' = rd\<lparr>r_cached := Some (i, plain sha)\<rparr>"
    and "is_ok r \<or> \<not> is_ok (fst (get sha s))"
proof -
  have "inv s' \<and> (\<forall>b. r = Ok b \<longrightarrow> b = plain sha) \<and>
      (rd' = rd \<or> rd' = rd\<lparr>r_cached := Some (i, plain sha)\<rparr>) \<and>
      (is_ok r \<or> \<not> is_ok (fst (get sha s)))"
    using assms get_inv [OF assms(3), of sha] get_sound [OF assms(3), of sha]
    by (fastforce simp: reader_fetch_def
        split: option.splits prod.splits outcome.splits if_splits)
  then show "inv s'" "\<And>b. r = Ok b \<Longrightarrow> b = plain sha"
    "rd' = rd \<or> rd' = rd\<lparr>r_cached := Some (i, plain sha)\<rparr>"
    "is_ok r \<or> \<not> is_ok (fst (get sha s))" by auto
qed

lemma reader_read_sound:
  assumes ok: "reader_ok plain api m rd" and inv: "inv s" and get: "cs_get ch = get"
    and rd: "reader_read api (depot_store_new m ch) n rd s = (r, rd', s')"
  shows "inv s' \<and> reader_ok plain api m rd' \<and> r_size rd' = r_size rd \<and>
    r_file_idx rd' = r_file_idx rd \<and>
    (\<forall>x. r = Ok x \<longrightarrow>
       x = take (length x) (drop (unat (r_pos rd)) (reader_content plain api m rd)) \<and>
       unat (r_pos rd') = unat (r_pos rd) + length x \<and> length x \<le> n \<and>
       (x = [] \<longleftrightarrow> n = 0 \<or> r_size rd \<le> r_pos rd)) \<and>
    (is_ok r \<or> (\<exists>f c. get_at (m_files m) (r_file_idx rd) = Some f \<and>
       c \<in> set (api_chunks api f) \<and> \<not> is_ok (fst (get (c_sha c) s))))"
proof (cases "n = 0 \<or> r_size rd \<le> r_pos rd")
  case True
  then show ?thesis using rd inv ok by (auto simp: reader_read_def)
next
  case go: False
  from ok obtain f where f: "get_at (m_files m) (r_file_idx rd) = Some f" and sz: "r_size rd = f_size f"
    and t: "tiles 0 (api_chunks api f) (unat (f_size f))" and so: "sizes_ok plain (api_chunks api f)"
    and ca: "\<And>i b. r_cached rd = Some (i, b) \<Longrightarrow>
      i < length (api_chunks api f) \<and> b = plain (c_sha (api_chunks api f ! i))"
    by (auto simp: reader_ok_def)
  let ?cs = "api_chunks api f" and ?pos = "unat (r_pos rd)"
  have "r_pos rd < f_size f" using go sz by (simp add: not_le)
  from chunk_under [OF t this] obtain i where
    ci: "checked_sub (partition_point (\<lambda>c. c_offset c \<le> r_pos rd) ?cs) 1 = Some i"
    and i: "i < length ?cs" and at: "c_offset (?cs ! i) \<le> r_pos rd"
    and lo: "?pos < coff (?cs ! i) + csize (?cs ! i)"
    and hi: "coff (?cs ! i) + csize (?cs ! i) \<le> unat (f_size f)" by blast
  let ?c = "?cs ! i"
  let ?p = "plain (c_sha ?c)" and ?k = "?pos - coff ?c"
  have b: "unat (f_size f) < 2 ^ 64" using unsigned_less [of "f_size f", where 'a = nat] by simp
  have "unat (c_offset ?c + ucast (c_size_uncompressed ?c)) = coff ?c + csize ?c"
    using hi b by (simp add: unat_plus_fits unat_ucast_u32_u64)
  then have nc: "\<not> r_pos rd \<ge> c_offset ?c + ucast (c_size_uncompressed ?c)"
    using lo by (simp add: word_le_nat_alt)
  have k: "unat (r_pos rd - c_offset ?c) = ?k" using at by (rule unat_minus_le)
  have kl: "?k < csize ?c" using lo at by (simp add: word_le_nat_alt)
  have lp: "length ?p = csize ?c" using so i by (simp add: sizes_ok_def list_all_length)
  obtain g rd1 s1 where fe: "reader_fetch (depot_store_new m ch) i (c_sha ?c) rd s = (g, rd1, s1)"
    by (metis prod_cases3)
  have sound: "inv s1" "\<And>b. g = Ok b \<Longrightarrow> b = ?p"
    "rd1 = rd \<or> rd1 = rd\<lparr>r_cached := Some (i, ?p)\<rparr>"
    "is_ok g \<or> \<not> is_ok (fst (get (c_sha ?c) s))"
    using reader_fetch_sound [OF fe _ inv] get ca by auto
  then have ok1: "reader_ok plain api m (rd1\<lparr>r_pos := q\<rparr>)" "reader_ok plain api m rd1"
    "r_pos rd1 = r_pos rd" "r_size rd1 = r_size rd" "r_file_idx rd1 = r_file_idx rd" for q
    using f sz t so ca i by (auto simp: reader_ok_def)
  have eq: "reader_read api (depot_store_new m ch) n rd s =
      (case reader_fetch (depot_store_new m ch) i (c_sha ?c) rd s of
         (Err e, rd', s') \<Rightarrow> (Err e, rd', s')
       | (Panic, rd', s') \<Rightarrow> (Panic, rd', s')
       | (Ok bs, rd', s') \<Rightarrow>
           (case sub_slice bs ?k (?k + min (length bs - ?k) n) of
              None \<Rightarrow> (Panic, rd', s')
            | Some x \<Rightarrow> (Ok x, rd'\<lparr>r_pos := r_pos rd' + word_of_nat (min (length bs - ?k) n)\<rparr>, s')))"
    using go f i ci nc by (simp add: reader_read_def get_at_def k Let_def split: prod.split outcome.split)
  show ?thesis
  proof (cases g)
    case (Ok bs)
    let ?n = "min (csize ?c - ?k) n"
    have bs: "bs = ?p" using sound(2) Ok by simp
    have sl: "sub_slice bs ?k (?k + min (length bs - ?k) n) = Some (take ?n (drop ?k ?p))"
      using kl lp bs by (simp add: sub_slice_def)
    have r: "r = Ok (take ?n (drop ?k ?p))" "s' = s1"
      "rd' = rd1\<lparr>r_pos := r_pos rd1 + word_of_nat ?n\<rparr>"
      using rd eq fe Ok sl lp bs by auto
    have len: "length (take ?n (drop ?k ?p)) = ?n" using lp by simp
    have "?pos + ?n < 2 ^ 64" using kl hi b at by (simp add: word_le_nat_alt)
    then have pos: "unat (r_pos rd1 + word_of_nat ?n) = ?pos + ?n"
      using ok1(3) by (simp add: unat_word_ariths unat_of_nat)
    have "drop ?pos (file_content plain ?cs) = drop ?k (drop (coff ?c) (file_content plain ?cs))"
      using at by (simp add: word_le_nat_alt)
    also have "\<dots> = drop ?k ?p @ file_content plain (drop (Suc i) ?cs)"
      using content_at [OF t so i] kl lp by simp
    finally have "take ?n (drop ?k ?p) = take ?n (drop ?pos (file_content plain ?cs))"
      using lp by simp
    then have x: "take ?n (drop ?k ?p) =
        take (length (take ?n (drop ?k ?p))) (drop ?pos (reader_content plain api m rd))"
      using f len by (simp add: reader_content_def)
    have e: "take ?n (drop ?k ?p) = [] \<longleftrightarrow> n = 0 \<or> r_size rd \<le> r_pos rd"
      using go kl len by (metis length_0_conv min_def neq0_conv zero_less_diff)
    have rd': "inv s' \<and> reader_ok plain api m rd' \<and> r_size rd' = r_size rd \<and>
        r_file_idx rd' = r_file_idx rd" "is_ok r"
      "unat (r_pos rd') = ?pos + length (take ?n (drop ?k ?p))"
      "length (take ?n (drop ?k ?p)) \<le> n"
      using r(1) ok1 sound(1) pos len unfolding r(2,3) by simp_all
    have "\<forall>y. r = Ok y \<longrightarrow>
        y = take (length y) (drop ?pos (reader_content plain api m rd)) \<and>
        unat (r_pos rd') = ?pos + length y \<and> length y \<le> n \<and>
        (y = [] \<longleftrightarrow> n = 0 \<or> r_size rd \<le> r_pos rd)"
    proof (intro allI impI)
      fix y assume "r = Ok y"
      then have y: "y = take ?n (drop ?k ?p)" using r(1) by simp
      show "y = take (length y) (drop ?pos (reader_content plain api m rd)) \<and>
          unat (r_pos rd') = ?pos + length y \<and> length y \<le> n \<and>
          (y = [] \<longleftrightarrow> n = 0 \<or> r_size rd \<le> r_pos rd)"
        unfolding y by (intro conjI) (rule x e rd'(3,4))+
    qed
    with rd'(1,2) show ?thesis by blast
  qed (use rd eq fe sound(1,4) ok1 f i in \<open>auto intro!: exI [of _ "?cs ! i"]\<close>)
qed

end

context full_source
begin

lemma read_loop_returns:
  assumes "reader_ok plain api m rd" and "inv s" and "cs_get ch = get" and "0 < n"
    and "unat (r_size rd) - unat (r_pos rd) < fuel"
    and "\<forall>f c. get_at (m_files m) (r_file_idx rd) = Some f \<and> c \<in> set (api_chunks api f) \<longrightarrow>
      c_sha c \<in> avail"
  shows "\<exists>rd' s'. read_loop fuel api (depot_store_new m ch) n rd s =
    Some (Ok (drop (unat (r_pos rd)) (reader_content plain api m rd)), rd', s')"
  using assms
proof (induction fuel arbitrary: rd s)
  case (Suc fuel)
  let ?C = "reader_content plain api m rd"
  obtain r rd1 s1 where rr: "reader_read api (depot_store_new m ch) n rd s = (r, rd1, s1)"
    by (metis prod_cases3)
  note sound = reader_read_sound [OF Suc.prems(1,2,3) rr]
  have "is_ok r" using sound Suc.prems(2,6) get_avail by fastforce
  then obtain x where r: "r = Ok x" by (auto simp: is_ok_iff)
  from sound r have s1: "inv s1" "reader_ok plain api m rd1" "r_size rd1 = r_size rd"
    "r_file_idx rd1 = r_file_idx rd"
    and x: "x = take (length x) (drop (unat (r_pos rd)) ?C)"
    and pos: "unat (r_pos rd1) = unat (r_pos rd) + length x"
    and e: "x = [] \<longleftrightarrow> n = 0 \<or> r_size rd \<le> r_pos rd" by auto
  have C: "reader_content plain api m rd1 = ?C" using s1(4) by (simp add: reader_content_def)
  show ?case
  proof (cases "x = []")
    case True
    have "length ?C = unat (r_size rd)"
      using Suc.prems(1) tiles_length by (fastforce simp: reader_ok_def reader_content_def)
    then show ?thesis using True e Suc.prems(4) rr r by (simp add: word_le_nat_alt)
  next
    case False
    then have "unat (r_size rd1) - unat (r_pos rd1) < fuel"
      using Suc.prems(4,5) e pos s1(3) by (simp add: word_le_nat_alt) (cases x; simp)
    from Suc.IH [OF s1(2,1) Suc.prems(3,4) this] Suc.prems(6) s1(4) obtain rd' s' where
      "read_loop fuel api (depot_store_new m ch) n rd1 s1 =
        Some (Ok (drop (unat (r_pos rd1)) ?C), rd', s')" by (auto simp: C)
    moreover have "x @ drop (unat (r_pos rd1)) ?C = drop (unat (r_pos rd)) ?C"
      using x pos by (metis append_take_drop_id drop_drop add.commute)
    ultimately show ?thesis using rr r False by simp
  qed
qed simp

end

end
