(* ===== verification/Chunk_Cache.thy ===== *)
theory Chunk_Cache
  imports Depot_Read Rust_Fs
begin

text \<open>
  \<open>chunk_store/cache.rs\<close>: the frame format of a cached chunk and the write-through disk cache
  \<open>FsCacheStore\<close> in front of another chunk store.

  What the code takes from other crates is the parameter \<open>chunk_env\<close>: SHA-1, zstd, the
  hex form of a hash, the \<open>lru\<close> cache of decoded chunks.  \<open>env_ok\<close> is what their
  documentation promises.  The mutable state is explicit: the disk, the decoded chunks, the
  counter of temporary names and the state of the inner store.

  The theory stands on \<open>Depot_Read\<close> so that interpreting the chunk-source interface for the cache
  also gives the facts about reads that were proved against the interface there.
\<close>

section \<open>The environment\<close>

record 'l chunk_env =
  ce_sha1 :: "bytes \<Rightarrow> bytes"
  ce_compress :: "bytes \<Rightarrow> string + bytes"          \<comment> \<open>zstd at level 9, content checksum on\<close>
  ce_decompress :: "bytes \<Rightarrow> nat \<Rightarrow> bytes option"     \<comment> \<open>input, capacity of the output\<close>
  ce_hex :: "chunk_hash \<Rightarrow> string"                   \<comment> \<open>\<open>to_string\<close>\<close>
  ce_lru_new :: "nat \<Rightarrow> 'l"
  ce_lru_get :: "chunk_hash \<Rightarrow> 'l \<Rightarrow> bytes option \<times> 'l"
  ce_lru_put :: "chunk_hash \<Rightarrow> bytes \<Rightarrow> 'l \<Rightarrow> 'l"
  ce_lru_map :: "'l \<Rightarrow> chunk_hash \<rightharpoonup> bytes"          \<comment> \<open>what the cache holds\<close>
  ce_pid :: nat

definition zstd_ok :: "'l chunk_env \<Rightarrow> bool" where
  "zstd_ok env \<longleftrightarrow> (\<forall>p c n. ce_compress env p = Inr c \<and> length p \<le> n \<longrightarrow> ce_decompress env c n = Some p)"

definition lru_ok :: "'l chunk_env \<Rightarrow> bool" where
  "lru_ok env \<longleftrightarrow>
     (\<forall>n. ce_lru_map env (ce_lru_new env n) = Map.empty) \<and>
     (\<forall>h l. fst (ce_lru_get env h l) = ce_lru_map env l h) \<and>
     (\<forall>h l. ce_lru_map env (snd (ce_lru_get env h l)) = ce_lru_map env l) \<and>
     (\<forall>h b l. ce_lru_map env (ce_lru_put env h b l) \<subseteq>\<^sub>m (ce_lru_map env l)(h \<mapsto> b)) \<and>
     (\<forall>h b l. ce_lru_map env (ce_lru_put env h b l) h = Some b)"

text \<open>A hash prints as hex digits, so without a dot, and two hashes print differently.\<close>

definition hex_ok :: "'l chunk_env \<Rightarrow> bool" where
  "hex_ok env \<longleftrightarrow> inj (ce_hex env) \<and> (\<forall>h. CHR ''.'' \<notin> set (ce_hex env h))"

definition env_ok :: "'l chunk_env \<Rightarrow> bool" where
  "env_ok env \<longleftrightarrow> zstd_ok env \<and> lru_ok env \<and> hex_ok env \<and> (\<forall>b. length (ce_sha1 env b) = 20)"

section \<open>Frames\<close>

definition FRAME_HEADER_LEN :: nat where
  "FRAME_HEADER_LEN = 8 + 20"

definition MAX_PLAIN_LEN :: nat where
  "MAX_PLAIN_LEN = 64 * 2 ^ 20"

definition encode_frame_as ::
  "'l chunk_env \<Rightarrow> bytes \<Rightarrow> bytes \<Rightarrow> (vfs_error, bytes) outcome" where
  "encode_frame_as env plain digest =
     (case ce_compress env plain of
        Inl msg \<Rightarrow> Err (VfsOther msg)
      | Inr compressed \<Rightarrow> Ok (to_le_bytes (len64 plain) @ digest @ compressed))"

definition encode_frame :: "'l chunk_env \<Rightarrow> bytes \<Rightarrow> (vfs_error, bytes) outcome" where
  "encode_frame env plain = encode_frame_as env plain (ce_sha1 env plain)"

definition decode_frame :: "'l chunk_env \<Rightarrow> bytes \<Rightarrow> (chunk_hash \<times> bytes) option" where
  "decode_frame env frame =
     (if length frame < 8 then None
      else
        let plain_len = unat (from_le_bytes (take 8 frame)) in
        if plain_len > MAX_PLAIN_LEN then None
        else if length frame < FRAME_HEADER_LEN then None
        else
          (case ce_decompress env (drop FRAME_HEADER_LEN frame) plain_len of
             None \<Rightarrow> None
           | Some plain \<Rightarrow>
               if length plain \<noteq> plain_len then None
               else Some (ChunkHash (take 20 (drop 8 frame)), plain)))"

section \<open>The store\<close>

record chunk_dir =
  cd_root :: path

record ('l, 'i) cache_world =
  cw_fs :: fsys
  cw_decoded :: 'l
  cw_nonce :: u64
  cw_inner :: 'i

definition DECODED_CACHE_ENTRIES :: nat where
  "DECODED_CACHE_ENTRIES = 160"

definition chunk_dir_new :: "path \<Rightarrow> chunk_dir" where
  "chunk_dir_new root = \<lparr>cd_root = root\<rparr>"

text \<open>The state a store over a directory starts in: nothing decoded yet.\<close>

definition cache_start :: "'l chunk_env \<Rightarrow> fsys \<Rightarrow> 'i \<Rightarrow> ('l, 'i) cache_world" where
  "cache_start env fs i =
     \<lparr>cw_fs = fs, cw_decoded = ce_lru_new env DECODED_CACHE_ENTRIES, cw_nonce = 0, cw_inner = i\<rparr>"

text \<open>
  \<open>ChunkDir::new\<close> makes the directory; whether that went well is not looked at.
\<close>

definition chunk_dir_open ::
  "'l chunk_env \<Rightarrow> path \<Rightarrow> fsys \<Rightarrow> 'i \<Rightarrow> chunk_dir \<times> ('l, 'i) cache_world" where
  "chunk_dir_open env root fs i =
     (chunk_dir_new root, cache_start env (snd (fs_create_dir_all root fs)) i)"

definition path_for :: "'l chunk_env \<Rightarrow> chunk_dir \<Rightarrow> chunk_hash \<Rightarrow> path" where
  "path_for env dir sha = cd_root dir @ [ce_hex env sha]"

definition cache_hit ::
  "'l chunk_env \<Rightarrow> chunk_hash \<Rightarrow> ('l, 'i) cache_world \<Rightarrow> bytes option \<times> ('l, 'i) cache_world" where
  "cache_hit env sha w =
     (case ce_lru_get env sha (cw_decoded w) of (r, l) \<Rightarrow> (r, w\<lparr>cw_decoded := l\<rparr>))"

definition cache_decoded ::
  "'l chunk_env \<Rightarrow> chunk_hash \<Rightarrow> bytes \<Rightarrow> ('l, 'i) cache_world \<Rightarrow> ('l, 'i) cache_world" where
  "cache_decoded env sha b w = w\<lparr>cw_decoded := ce_lru_put env sha b (cw_decoded w)\<rparr>"

text \<open>A temporary name: the file's own name, the process and a counter that only grows.\<close>

definition tmp_name :: "nat \<Rightarrow> string \<Rightarrow> u64 \<Rightarrow> string" where
  "tmp_name pid name nonce = name @ ''.tmp.'' @ dec_digits pid @ ''.'' @ to_dec nonce"

definition tmp_path ::
  "'l chunk_env \<Rightarrow> path \<Rightarrow> ('l, 'i) cache_world \<Rightarrow> path \<times> ('l, 'i) cache_world" where
  "tmp_path env p w =
     (let nonce = cw_nonce w;
          name = (if p = [] then [] else last p)
      in (butlast p @ [tmp_name (ce_pid env) name nonce], w\<lparr>cw_nonce := nonce + 1\<rparr>))"

definition write_atomic ::
  "'l chunk_env \<Rightarrow> path \<Rightarrow> bytes \<Rightarrow> ('l, 'i) cache_world \<Rightarrow>
     (vfs_error, unit) outcome \<times> ('l, 'i) cache_world" where
  "write_atomic env p data w =
     (case tmp_path env p w of (tmp, w1) \<Rightarrow>
        (case fs_create tmp (cw_fs w1) of
           (Err e, fs2) \<Rightarrow> (Err (VfsIo e), w1\<lparr>cw_fs := fs2\<rparr>)
         | (Panic, fs2) \<Rightarrow> (Panic, w1\<lparr>cw_fs := fs2\<rparr>)
         | (Ok _, fs2) \<Rightarrow>
             (case fs_write_all tmp data fs2 of
                (Err e, fs3) \<Rightarrow> (Err (VfsIo e), w1\<lparr>cw_fs := fs3\<rparr>)
              | (Panic, fs3) \<Rightarrow> (Panic, w1\<lparr>cw_fs := fs3\<rparr>)
              | (Ok _, fs3) \<Rightarrow>
                  (case fs_rename tmp p fs3 of (r, fs4) \<Rightarrow>
                     (omap_err VfsIo r, w1\<lparr>cw_fs := fs4\<rparr>)))))"

definition delete_corrupt :: "path \<Rightarrow> ('l, 'i) cache_world \<Rightarrow> ('l, 'i) cache_world" where
  "delete_corrupt p w = w\<lparr>cw_fs := snd (fs_remove_file p (cw_fs w))\<rparr>"

definition read_verified ::
  "'l chunk_env \<Rightarrow> chunk_hash \<Rightarrow> path \<Rightarrow> ('l, 'i) cache_world \<Rightarrow>
     bytes option \<times> ('l, 'i) cache_world" where
  "read_verified env sha p w =
     (case fs_read p (cw_fs w) of
        (Ok frame, fs1) \<Rightarrow>
          (let w1 = w\<lparr>cw_fs := fs1\<rparr> in
           case decode_frame env frame of
             None \<Rightarrow> (None, delete_corrupt p w1)
           | Some (claimed, plain) \<Rightarrow>
               if claimed \<noteq> sha then (None, delete_corrupt p w1) else (Some plain, w1))
      | (_, fs1) \<Rightarrow> (None, w\<lparr>cw_fs := fs1\<rparr>))"

definition fetch_and_persist ::
  "'l chunk_env \<Rightarrow> 'i chunk_store \<Rightarrow> chunk_hash \<Rightarrow> path \<Rightarrow> ('l, 'i) cache_world \<Rightarrow>
     (vfs_error, bytes) outcome \<times> ('l, 'i) cache_world" where
  "fetch_and_persist env inner sha p w =
     (case cs_get inner sha (cw_inner w) of
        (Err e, i1) \<Rightarrow> (Err e, w\<lparr>cw_inner := i1\<rparr>)
      | (Panic, i1) \<Rightarrow> (Panic, w\<lparr>cw_inner := i1\<rparr>)
      | (Ok b, i1) \<Rightarrow>
          (let w1 = w\<lparr>cw_inner := i1\<rparr>;
               digest = ce_sha1 env b
           in if digest \<noteq> hash_bytes sha then
                (Err (VfsOther ''fetched chunk does not hash to its name''), w1)
              else
                (case encode_frame_as env b digest of
                   Err e \<Rightarrow> (Err e, w1)
                 | Panic \<Rightarrow> (Panic, w1)
                 | Ok frame \<Rightarrow>
                     (case write_atomic env p frame w1 of
                        (Err e, w2) \<Rightarrow> (Err e, w2)
                      | (Panic, w2) \<Rightarrow> (Panic, w2)
                      | (Ok _, w2) \<Rightarrow> (Ok b, cache_decoded env sha b w2)))))"

text \<open>
  \<open>get\<close> and \<open>ensure\<close>, run without a rival: the second look at the cache, under the chunk's
  lock, is the one that matters when tasks race (theory \<open>Single_Flight\<close>).
\<close>

definition fs_cache_get ::
  "'l chunk_env \<Rightarrow> chunk_dir \<Rightarrow> 'i chunk_store \<Rightarrow> chunk_hash \<Rightarrow> ('l, 'i) cache_world \<Rightarrow>
     (vfs_error, bytes) outcome \<times> ('l, 'i) cache_world" where
  "fs_cache_get env dir inner sha w =
     (case cache_hit env sha w of
        (Some b, w1) \<Rightarrow> (Ok b, w1)
      | (None, w1) \<Rightarrow>
          (let p = path_for env dir sha in
           case cache_hit env sha w1 of
             (Some b, w2) \<Rightarrow> (Ok b, w2)
           | (None, w2) \<Rightarrow>
               (case read_verified env sha p w2 of
                  (Some b, w3) \<Rightarrow> (Ok b, cache_decoded env sha b w3)
                | (None, w3) \<Rightarrow> fetch_and_persist env inner sha p w3)))"

definition exists_or_false :: "path \<Rightarrow> ('l, 'i) cache_world \<Rightarrow> bool \<times> ('l, 'i) cache_world" where
  "exists_or_false p w =
     (case fs_try_exists p (cw_fs w) of (r, fs1) \<Rightarrow> (r = Ok True, w\<lparr>cw_fs := fs1\<rparr>))"

definition fs_cache_ensure ::
  "'l chunk_env \<Rightarrow> chunk_dir \<Rightarrow> 'i chunk_store \<Rightarrow> chunk_hash \<Rightarrow> ('l, 'i) cache_world \<Rightarrow>
     (vfs_error, unit) outcome \<times> ('l, 'i) cache_world" where
  "fs_cache_ensure env dir inner sha w =
     (let p = path_for env dir sha in
      case exists_or_false p w of
        (True, w1) \<Rightarrow> (Ok (), w1)
      | (False, w1) \<Rightarrow>
          (case exists_or_false p w1 of
             (True, w2) \<Rightarrow> (Ok (), w2)
           | (False, w2) \<Rightarrow>
               (case fetch_and_persist env inner sha p w2 of (r, w3) \<Rightarrow> (omap (\<lambda>_. ()) r, w3))))"

definition fs_cache_store ::
  "'l chunk_env \<Rightarrow> chunk_dir \<Rightarrow> 'i chunk_store \<Rightarrow> ('l, 'i) cache_world chunk_store" where
  "fs_cache_store env dir inner =
     \<lparr>cs_get = fs_cache_get env dir inner, cs_ensure = fs_cache_ensure env dir inner\<rparr>"

section \<open>Frames\<close>

lemma decode_encode_as:
  assumes "encode_frame_as env p d = Ok fr" and "zstd_ok env" and "length d = 20"
    and "length p < 2 ^ 64"
  shows "decode_frame env fr = (if length p \<le> MAX_PLAIN_LEN then Some (ChunkHash d, p) else None)"
proof -
  from assms(1) obtain c where c: "ce_compress env p = Inr c"
    and fr: "fr = to_le_bytes (len64 p) @ d @ c"
    by (auto simp: encode_frame_as_def split: sum.splits)
  have "ce_decompress env c (length p) = Some p"
    using assms(2) c by (auto simp: zstd_ok_def)
  moreover have "unat (from_le_bytes (to_le_bytes (len64 p))) = length p"
    using assms(4) by (simp add: from_to_le_bytes unat_len64)
  ultimately show ?thesis
    using assms(3) fr by (simp add: decode_frame_def FRAME_HEADER_LEN_def Let_def)
qed

lemma encode_frame_as_no_panic: "encode_frame_as env p d \<noteq> Panic"
  by (simp add: encode_frame_as_def split: sum.split)

section \<open>Temporary files\<close>

lemma tmp_path_simps [simp]:
  "fst (tmp_path env p w) =
     butlast p @ [tmp_name (ce_pid env) (if p = [] then [] else last p) (cw_nonce w)]"
  "snd (tmp_path env p w) = w\<lparr>cw_nonce := cw_nonce w + 1\<rparr>"
  by (simp_all add: tmp_path_def Let_def)

lemma tmp_name_nonce: "tmp_name pid name a = tmp_name pid name b \<longleftrightarrow> a = b"
  by (simp add: tmp_name_def to_dec_inject_u64)

lemma tmp_name_dot: "CHR ''.'' \<in> set (tmp_name pid name nonce)"
  by (simp add: tmp_name_def)

lemma tmp_not_chunk: "hex_ok env \<Longrightarrow> fst (tmp_path env p w) \<noteq> path_for env dir h"
  using tmp_name_dot [of "ce_pid env" "if p = [] then [] else last p" "cw_nonce w"]
  by (metis append1_eq_conv hex_ok_def path_for_def tmp_path_simps(1))

lemma path_for_inject: "hex_ok env \<Longrightarrow> path_for env dir h = path_for env dir h' \<longleftrightarrow> h = h'"
  by (auto simp: path_for_def hex_ok_def inj_def)

section \<open>Writing\<close>

text \<open>
  Whatever fails on the way, the target of \<open>write_atomic\<close> holds the whole data afterwards or
  what it held before, and no file but the target and the temporary one is touched.
\<close>

lemma write_atomic_files:
  assumes w: "write_atomic env p data w = (r, w')" and q: "q \<noteq> fst (tmp_path env p w)"
  shows "fs_files (cw_fs w') q = (if r = Ok () \<and> q = p then Some data else fs_files (cw_fs w) q)"
    and "r \<noteq> Panic"
proof -
  obtain tmp w1 where t: "tmp_path env p w = (tmp, w1)" by fastforce
  have w1: "cw_fs w1 = cw_fs w" using t by (auto simp: tmp_path_def Let_def)
  have qt: "q \<noteq> tmp" using q t by simp
  obtain rc f2 where c: "fs_create tmp (cw_fs w) = (rc, f2)" by fastforce
  note c' = fs_create_files [OF c]
  obtain rw f3 where wr: "fs_write_all tmp data f2 = (rw, f3)" by fastforce
  note wr' = fs_write_all_files [OF wr]
  obtain rr f4 where rn: "fs_rename tmp p f3 = (rr, f4)" by fastforce
  note rn' = fs_rename_files [OF rn]
  have "fs_files (cw_fs w') q = (if r = Ok () \<and> q = p then Some data else fs_files (cw_fs w) q) \<and>
      r \<noteq> Panic"
  proof (cases rc)
    case (Err e)
    then show ?thesis using w t c w1 c'(1) [OF qt] by (auto simp: write_atomic_def)
  next
    case rc: (Ok u)
    show ?thesis
    proof (cases rw)
      case (Err e)
      then show ?thesis
        using w t c w1 c'(1) [OF qt] wr'(1) [OF qt] rc wr by (auto simp: write_atomic_def)
    next
      case rw: (Ok u)
      show ?thesis
        using w t c w1 c'(1) [OF qt] wr'(1) [OF qt] rc wr rw wr'(3) rn rn' qt
        by (cases rr) (auto simp: write_atomic_def)
    qed (use wr'(2) in simp)
  qed (use c'(2) in simp)
  then show "fs_files (cw_fs w') q = (if r = Ok () \<and> q = p then Some data else fs_files (cw_fs w) q)"
    and "r \<noteq> Panic" by simp_all
qed

lemma write_atomic_frame:
  assumes "write_atomic env p data w = (r, w')"
  shows "cw_decoded w' = cw_decoded w" and "cw_inner w' = cw_inner w"
    and "cw_nonce w' = cw_nonce w + 1"
  using assms
  by (auto simp: write_atomic_def tmp_path_def Let_def
      split: prod.splits option.splits outcome.splits)

lemma write_atomic_quiet:
  assumes "fs_faults (cw_fs w) = []"
  shows "write_atomic env p data w =
    (Ok (), w\<lparr>cw_nonce := cw_nonce w + 1,
       cw_fs := (cw_fs w)\<lparr>fs_files := (fs_files (cw_fs w))
         (fst (tmp_path env p w) := None, p \<mapsto> data)\<rparr>\<rparr>)"
  using assms
  by (simp add: write_atomic_def tmp_path_def Let_def fs_create_def fs_write_all_def fs_rename_def
      next_fault_quiet)

section \<open>The cache invariant\<close>

text \<open>
  Relative to a notion \<open>A\<close> of which bytes belong to which name: every decoded chunk is of its
  name, and so is every file under a chunk's name that decodes and claims that name.  Torn,
  rotten or foreign files are allowed: they do not decode or claim another name.
\<close>

definition cache_inv ::
  "'l chunk_env \<Rightarrow> chunk_dir \<Rightarrow> (chunk_hash \<Rightarrow> bytes \<Rightarrow> bool) \<Rightarrow> ('l, 'i) cache_world \<Rightarrow> bool" where
  "cache_inv env dir A w \<longleftrightarrow>
     (\<forall>h b. ce_lru_map env (cw_decoded w) h = Some b \<longrightarrow> A h b) \<and>
     (\<forall>h fr b. fs_files (cw_fs w) (path_for env dir h) = Some fr \<and>
        decode_frame env fr = Some (h, b) \<longrightarrow> A h b)"

definition inner_ok ::
  "'l chunk_env \<Rightarrow> (chunk_hash \<Rightarrow> bytes \<Rightarrow> bool) \<Rightarrow> ('i \<Rightarrow> bool) \<Rightarrow> 'i chunk_store \<Rightarrow> bool" where
  "inner_ok env A iinv inner \<longleftrightarrow>
     (\<forall>h i r i'. iinv i \<and> cs_get inner h i = (r, i') \<longrightarrow>
        iinv i' \<and> (\<forall>b. r = Ok b \<and> ce_sha1 env b = hash_bytes h \<longrightarrow> A h b \<and> length b < 2 ^ 64))"

lemma lruD:
  assumes "lru_ok env"
  shows "ce_lru_get env h l = (r, l') \<Longrightarrow> r = ce_lru_map env l h \<and> ce_lru_map env l' = ce_lru_map env l"
    and "ce_lru_map env (ce_lru_put env h b l) k = Some v \<Longrightarrow>
      (k = h \<and> v = b) \<or> ce_lru_map env l k = Some v"
    and "ce_lru_map env (ce_lru_put env h b l) h = Some b"
proof -
  show "ce_lru_get env h l = (r, l') \<Longrightarrow> r = ce_lru_map env l h \<and> ce_lru_map env l' = ce_lru_map env l"
    using assms unfolding lru_ok_def by (metis fst_conv snd_conv)
  show "ce_lru_map env (ce_lru_put env h b l) h = Some b"
    using assms by (simp add: lru_ok_def)
  assume k: "ce_lru_map env (ce_lru_put env h b l) k = Some v"
  have "ce_lru_map env (ce_lru_put env h b l) \<subseteq>\<^sub>m (ce_lru_map env l)(h \<mapsto> b)"
    using assms by (simp add: lru_ok_def)
  with k have "((ce_lru_map env l)(h \<mapsto> b)) k = Some v" by (force simp: map_le_def dom_def)
  then show "(k = h \<and> v = b) \<or> ce_lru_map env l k = Some v" by (auto split: if_splits)
qed

lemma cache_hit_sound:
  assumes "cache_hit env h w = (r, w')" and "lru_ok env"
  shows "r = ce_lru_map env (cw_decoded w) h" and "cw_fs w' = cw_fs w" and "cw_inner w' = cw_inner w"
    and "ce_lru_map env (cw_decoded w') = ce_lru_map env (cw_decoded w)"
    and "cache_inv env dir A w' = cache_inv env dir A w"
  using assms lruD(1) [OF assms(2), of h "cw_decoded w"]
  by (auto simp: cache_hit_def cache_inv_def split: prod.splits)

lemma cache_decoded_inv:
  assumes "lru_ok env" and "cache_inv env dir A w" and "A h b"
  shows "cache_inv env dir A (cache_decoded env h b w)"
  using assms lruD(2) [OF assms(1)] by (fastforce simp: cache_inv_def cache_decoded_def)

text \<open>A step that only forgets files, or leaves files without a chunk's name, keeps the invariant.\<close>

lemma cache_inv_files:
  assumes "cache_inv env dir A w" and "cw_decoded w' = cw_decoded w"
    and "\<And>h. fs_files (cw_fs w') (path_for env dir h) = fs_files (cw_fs w) (path_for env dir h) \<or>
           fs_files (cw_fs w') (path_for env dir h) = None"
  shows "cache_inv env dir A w'"
  using assms unfolding cache_inv_def by (metis option.distinct(1))

lemma delete_corrupt_inv:
  "cache_inv env dir A w \<Longrightarrow> cache_inv env dir A (delete_corrupt p w)"
  using fs_remove_files [of p "cw_fs w" "fst (fs_remove_file p (cw_fs w))"
      "snd (fs_remove_file p (cw_fs w))"]
  by (elim cache_inv_files) (auto simp: delete_corrupt_def split: if_splits)

lemma read_verified_sound:
  assumes "read_verified env h (path_for env dir h) w = (r, w')" and "cache_inv env dir A w"
  shows "cache_inv env dir A w'" and "\<And>b. r = Some b \<Longrightarrow> A h b"
    and "cw_inner w' = cw_inner w" and "cw_decoded w' = cw_decoded w"
proof -
  let ?p = "path_for env dir h"
  obtain g fs1 where rd: "fs_read ?p (cw_fs w) = (g, fs1)" by fastforce
  have i1: "cache_inv env dir A (w\<lparr>cw_fs := fs1\<rparr>)"
    using assms(2) fs_read_files [OF rd] by (elim cache_inv_files) auto
  have "cache_inv env dir A w' \<and> (\<forall>b. r = Some b \<longrightarrow> A h b) \<and>
      cw_inner w' = cw_inner w \<and> cw_decoded w' = cw_decoded w"
  proof (cases g)
    case (Ok fr)
    then have "fs_files (cw_fs w) ?p = Some fr" using rd fs_read_Ok by blast
    then have "A h b" if "decode_frame env fr = Some (h, b)" for b
      using that assms(2) by (auto simp: cache_inv_def)
    then show ?thesis
      using assms(1) rd Ok i1 delete_corrupt_inv [OF i1]
      by (auto simp: read_verified_def delete_corrupt_def Let_def split: option.splits prod.splits if_splits)
  qed (use assms(1) rd i1 in \<open>auto simp: read_verified_def\<close>)
  then show "cache_inv env dir A w'" "\<And>b. r = Some b \<Longrightarrow> A h b"
    "cw_inner w' = cw_inner w" "cw_decoded w' = cw_decoded w" by auto
qed

lemma write_atomic_inv:
  assumes w: "write_atomic env p fr w = (r, w')" and p: "p = path_for env dir h"
    and env: "env_ok env" and inv: "cache_inv env dir A w"
    and fr: "\<And>b. decode_frame env fr = Some (h, b) \<Longrightarrow> A h b"
  shows "cache_inv env dir A w'"
proof -
  have hex: "hex_ok env" using env by (simp add: env_ok_def)
  have files: "fs_files (cw_fs w') (path_for env dir k) =
      (if r = Ok () \<and> k = h then Some fr else fs_files (cw_fs w) (path_for env dir k))" for k
    using write_atomic_files(1) [OF w tmp_not_chunk [OF hex, symmetric]] p path_for_inject [OF hex]
    by metis
  show ?thesis
    using inv fr write_atomic_frame(1) [OF w] files
    unfolding cache_inv_def by (metis option.inject)
qed

text \<open>
  The fetch: only bytes that hash to the name are returned, written or remembered; everything
  else leaves the cache as it was.
\<close>

lemma fetch_and_persist_sound:
  assumes f: "fetch_and_persist env inner h (path_for env dir h) w = (r, w')"
    and env: "env_ok env" and inner: "inner_ok env A iinv inner"
    and inv: "cache_inv env dir A w" and iinv: "iinv (cw_inner w)"
  shows "cache_inv env dir A w'" and "iinv (cw_inner w')" and "r = Ok b \<Longrightarrow> A h b"
    and "r = Ok b \<Longrightarrow> ce_sha1 env b = hash_bytes h"
    and "\<lbrakk>\<And>i. fst (cs_get inner h i) \<noteq> Panic\<rbrakk> \<Longrightarrow> r \<noteq> Panic"
proof -
  obtain g i1 where g: "cs_get inner h (cw_inner w) = (g, i1)" by fastforce
  have i1: "iinv i1" and gA: "\<And>b. g = Ok b \<Longrightarrow> ce_sha1 env b = hash_bytes h \<Longrightarrow> A h b \<and> length b < 2 ^ 64"
    using inner iinv g unfolding inner_ok_def by blast+
  let ?w1 = "w\<lparr>cw_inner := i1\<rparr>"
  have inv1: "cache_inv env dir A ?w1" using inv by (auto simp: cache_inv_def)
  have "cache_inv env dir A w' \<and> iinv (cw_inner w') \<and>
    (\<forall>b. r = Ok b \<longrightarrow> A h b \<and> ce_sha1 env b = hash_bytes h) \<and>
    (fst (cs_get inner h (cw_inner w)) \<noteq> Panic \<longrightarrow> r \<noteq> Panic)"
  proof (cases "\<exists>b. g = Ok b \<and> ce_sha1 env b = hash_bytes h")
    case False
    then show ?thesis using f g i1 inv1
      by (cases g) (auto simp: fetch_and_persist_def Let_def)
  next
    case True
    then obtain b where b: "g = Ok b" and sha: "ce_sha1 env b = hash_bytes h" by blast
    have A: "A h b" and len: "length b < 2 ^ 64" using gA [OF b sha] by auto
    show ?thesis
    proof (cases "encode_frame_as env b (ce_sha1 env b)")
      case (Err e)
      then show ?thesis using f g i1 inv1 b sha by (auto simp: fetch_and_persist_def Let_def)
    next
      case Panic
      then show ?thesis by (simp add: encode_frame_as_no_panic)
    next
      case (Ok fr)
      obtain q w2 where q: "write_atomic env (path_for env dir h) fr ?w1 = (q, w2)" by fastforce
      have "decode_frame env fr = Some (h, c) \<Longrightarrow> A h c" for c
        using decode_encode_as [OF Ok _ _ len] env A by (auto simp: env_ok_def split: if_splits)
      then have inv2: "cache_inv env dir A w2"
        using write_atomic_inv [OF q refl env inv1] by blast
      moreover have "cache_inv env dir A (cache_decoded env h b w2)"
        using cache_decoded_inv [of env dir A w2 h b] env inv2 A by (simp add: env_ok_def)
      moreover have "cw_inner w2 = i1" using write_atomic_frame(2) [OF q] by simp
      moreover have "q \<noteq> Panic" using write_atomic_files(2) [OF q, of "[]"] by simp
      ultimately show ?thesis
        using f g i1 b sha A Ok q
        by (cases q) (auto simp: fetch_and_persist_def Let_def cache_decoded_def)
    qed
  qed
  then show "cache_inv env dir A w'" "iinv (cw_inner w')" "r = Ok b \<Longrightarrow> A h b"
    "r = Ok b \<Longrightarrow> ce_sha1 env b = hash_bytes h"
    "\<lbrakk>\<And>i. fst (cs_get inner h i) \<noteq> Panic\<rbrakk> \<Longrightarrow> r \<noteq> Panic" by auto
qed

lemma fs_cache_get_sound:
  assumes f: "fs_cache_get env dir inner h w = (r, w')"
    and env: "env_ok env" and inner: "inner_ok env A iinv inner"
    and inv: "cache_inv env dir A w" and iinv: "iinv (cw_inner w)"
  shows "cache_inv env dir A w'" and "iinv (cw_inner w')" and "r = Ok b \<Longrightarrow> A h b"
    and "\<lbrakk>\<And>i. fst (cs_get inner h i) \<noteq> Panic\<rbrakk> \<Longrightarrow> r \<noteq> Panic"
proof -
  have lru: "lru_ok env" using env by (simp add: env_ok_def)
  let ?p = "path_for env dir h"
  obtain a w1 where a: "cache_hit env h w = (a, w1)" by fastforce
  note a' = cache_hit_sound [OF a lru]
  obtain c w2 where c: "cache_hit env h w1 = (c, w2)" by fastforce
  note c' = cache_hit_sound [OF c lru]
  have inv2: "cache_inv env dir A w2" using a'(5) c'(5) inv by simp
  obtain d w3 where d: "read_verified env h ?p w2 = (d, w3)" by fastforce
  note d' = read_verified_sound [OF d inv2]
  have i3: "iinv (cw_inner w3)" using d'(3) c'(3) a'(3) iinv by simp
  obtain e w4 where e: "fetch_and_persist env inner h ?p w3 = (e, w4)" by fastforce
  note e' = fetch_and_persist_sound [OF e env inner d'(1) i3]
  have "cache_inv env dir A w' \<and> iinv (cw_inner w') \<and> (\<forall>b. r = Ok b \<longrightarrow> A h b) \<and>
      ((\<forall>i. fst (cs_get inner h i) \<noteq> Panic) \<longrightarrow> r \<noteq> Panic)"
  proof (cases a)
    case (Some b)
    then show ?thesis using f a a' inv iinv by (auto simp: fs_cache_get_def cache_inv_def)
  next
    case None
    then have cn: "c = None" using a' c' by simp
    show ?thesis
    proof (cases d)
      case (Some b)
      then show ?thesis using f a None c cn d d'(1,2) i3 cache_decoded_inv [OF lru d'(1)]
        by (auto simp: fs_cache_get_def Let_def cache_decoded_def)
    next
      case dn: None
      then show ?thesis using f a None c cn d e e'(1-3) e'(5)
        by (auto simp: fs_cache_get_def Let_def)
    qed
  qed
  then show "cache_inv env dir A w'" "iinv (cw_inner w')" "r = Ok b \<Longrightarrow> A h b"
    "\<lbrakk>\<And>i. fst (cs_get inner h i) \<noteq> Panic\<rbrakk> \<Longrightarrow> r \<noteq> Panic" by auto
qed

lemma exists_or_false_inv:
  assumes "exists_or_false p w = (x, w')"
  shows "cache_inv env dir A w' = cache_inv env dir A w" and "cw_inner w' = cw_inner w"
    and "x \<Longrightarrow> fs_files (cw_fs w) p \<noteq> None" and "fs_files (cw_fs w') = fs_files (cw_fs w)"
proof -
  obtain t fs1 where t: "fs_try_exists p (cw_fs w) = (t, fs1)" by fastforce
  have fs1: "fs_files fs1 = fs_files (cw_fs w)" using fs_try_exists_files [OF t] .
  have w': "w' = w\<lparr>cw_fs := fs1\<rparr>" and x: "x \<longleftrightarrow> t = Ok True"
    using assms t by (simp_all add: exists_or_false_def)
  show "cache_inv env dir A w' = cache_inv env dir A w"
    and "fs_files (cw_fs w') = fs_files (cw_fs w)" and "cw_inner w' = cw_inner w"
    using fs1 by (simp_all add: w' cache_inv_def)
  show "x \<Longrightarrow> fs_files (cw_fs w) p \<noteq> None"
    using t x by (auto simp: fs_try_exists_def split: prod.splits option.splits)
qed

lemma fs_cache_ensure_sound:
  assumes f: "fs_cache_ensure env dir inner h w = (r, w')"
    and env: "env_ok env" and inner: "inner_ok env A iinv inner"
    and inv: "cache_inv env dir A w" and iinv: "iinv (cw_inner w)"
  shows "cache_inv env dir A w'" and "iinv (cw_inner w')"
proof -
  let ?p = "path_for env dir h"
  obtain a w1 where a: "exists_or_false ?p w = (a, w1)" by fastforce
  note a' = exists_or_false_inv [OF a]
  obtain b w2 where b: "exists_or_false ?p w1 = (b, w2)" by fastforce
  note b' = exists_or_false_inv [OF b]
  have i2: "cache_inv env dir A w2" "iinv (cw_inner w2)" using a' b' inv iinv by simp_all
  obtain e w3 where e: "fetch_and_persist env inner h ?p w2 = (e, w3)" by fastforce
  note e' = fetch_and_persist_sound [OF e env inner i2]
  have "cache_inv env dir A w' \<and> iinv (cw_inner w')"
    using f a b e e'(1,2) i2 a'(1,2) inv iinv
    by (cases a; cases b) (simp_all add: fs_cache_ensure_def Let_def)
  then show "cache_inv env dir A w'" "iinv (cw_inner w')" by auto
qed

section \<open>The cache as a chunk source\<close>

text \<open>
  What the cache keeps of its world, and with it the laws of the interface: a reader of the
  store gets the plaintext of the name or an error, whatever the disk does and whatever the
  inner store delivers.
\<close>

definition cache_ready ::
  "'l chunk_env \<Rightarrow> chunk_dir \<Rightarrow> 'i chunk_store \<Rightarrow> ('i \<Rightarrow> bool) \<Rightarrow> (chunk_hash \<Rightarrow> bytes) \<Rightarrow>
     ('l, 'i) cache_world \<Rightarrow> bool" where
  "cache_ready env dir inner iinv plain w \<longleftrightarrow>
     env_ok env \<and> inner_ok env (\<lambda>h b. b = plain h) iinv inner \<and>
     cache_inv env dir (\<lambda>h b. b = plain h) w \<and> iinv (cw_inner w)"

interpretation cached: chunk_source
  "fs_cache_get env dir inner" "cache_ready env dir inner iinv plain" plain
  for env dir inner iinv plain
  by unfold_locales (auto simp: cache_ready_def dest: fs_cache_get_sound)

text \<open>With a disk that does not fail and an inner store that has the chunk, it is delivered.\<close>

definition inner_has ::
  "'l chunk_env \<Rightarrow> ('i \<Rightarrow> bool) \<Rightarrow> 'i chunk_store \<Rightarrow> chunk_hash set \<Rightarrow> bool" where
  "inner_has env iinv inner avail \<longleftrightarrow>
     (\<forall>h i. iinv i \<and> h \<in> avail \<longrightarrow>
        (\<exists>b i'. cs_get inner h i = (Ok b, i') \<and> ce_sha1 env b = hash_bytes h \<and>
           (\<exists>c. ce_compress env b = Inr c)))"

definition cache_calm ::
  "'l chunk_env \<Rightarrow> chunk_dir \<Rightarrow> 'i chunk_store \<Rightarrow> ('i \<Rightarrow> bool) \<Rightarrow> (chunk_hash \<Rightarrow> bytes) \<Rightarrow>
     chunk_hash set \<Rightarrow> ('l, 'i) cache_world \<Rightarrow> bool" where
  "cache_calm env dir inner iinv plain avail w \<longleftrightarrow>
     cache_ready env dir inner iinv plain w \<and> inner_has env iinv inner avail \<and>
     fs_faults (cw_fs w) = []"

lemma read_verified_quiet:
  "fs_faults (cw_fs w) = [] \<Longrightarrow> fs_faults (cw_fs (snd (read_verified env h p w))) = []"
  by (auto simp: read_verified_def fs_read_def fs_remove_file_def delete_corrupt_def
      next_fault_quiet Let_def split: option.splits prod.splits outcome.splits)

lemma cache_hit_quiet: "cw_fs (snd (cache_hit env h w)) = cw_fs w"
  by (simp add: cache_hit_def split: prod.split)

lemma fetch_and_persist_quiet:
  assumes q: "fs_faults (cw_fs w) = []" 
  shows "fs_faults (cw_fs (snd (fetch_and_persist env inner h p w))) = []"
    and "inner_has env iinv inner avail \<Longrightarrow> iinv (cw_inner w) \<Longrightarrow> h \<in> avail \<Longrightarrow>
      is_ok (fst (fetch_and_persist env inner h p w))"
proof -
  obtain g i1 where g: "cs_get inner h (cw_inner w) = (g, i1)" by fastforce
  have wa: "\<exists>w2. write_atomic env p fr (w\<lparr>cw_inner := i1\<rparr>) = (Ok (), w2) \<and> fs_faults (cw_fs w2) = []" for fr
    using q by (simp add: write_atomic_quiet)
  show "fs_faults (cw_fs (snd (fetch_and_persist env inner h p w))) = []"
  proof (cases "\<exists>b fr. g = Ok b \<and> ce_sha1 env b = hash_bytes h \<and>
      encode_frame_as env b (hash_bytes h) = Ok fr")
    case True
    then obtain b fr w2 where "g = Ok b" "ce_sha1 env b = hash_bytes h"
      "encode_frame_as env b (hash_bytes h) = Ok fr"
      "write_atomic env p fr (w\<lparr>cw_inner := i1\<rparr>) = (Ok (), w2)" "fs_faults (cw_fs w2) = []"
      using wa by blast
    then show ?thesis by (simp add: fetch_and_persist_def g Let_def cache_decoded_def)
  next
    case False
    then show ?thesis
      using q by (auto simp: fetch_and_persist_def g Let_def split: outcome.split)
  qed
  assume "inner_has env iinv inner avail" "iinv (cw_inner w)" "h \<in> avail"
  then obtain b c where b: "g = Ok b" "ce_sha1 env b = hash_bytes h" "ce_compress env b = Inr c"
    using g unfolding inner_has_def by (metis prod.inject)
  obtain w2 where "write_atomic env p (to_le_bytes (len64 b) @ hash_bytes h @ c)
      (w\<lparr>cw_inner := i1\<rparr>) = (Ok (), w2)" using wa by blast
  then show "is_ok (fst (fetch_and_persist env inner h p w))"
    using g b by (simp add: fetch_and_persist_def Let_def encode_frame_as_def)
qed

lemma fs_cache_get_quiet:
  assumes q: "fs_faults (cw_fs w) = []" 
  shows "fs_faults (cw_fs (snd (fs_cache_get env dir inner h w))) = []"
proof -
  obtain a w1 where a: "cache_hit env h w = (a, w1)" by fastforce
  obtain c w2 where c: "cache_hit env h w1 = (c, w2)" by fastforce
  obtain d w3 where d: "read_verified env h (path_for env dir h) w2 = (d, w3)" by fastforce
  have q1: "fs_faults (cw_fs w1) = []" "fs_faults (cw_fs w2) = []"
    using a c q cache_hit_quiet by (metis snd_conv)+
  then have q3: "fs_faults (cw_fs w3) = []"
    using d read_verified_quiet [OF q1(2)] by (metis snd_conv)
  show ?thesis using q1 q3 fetch_and_persist_quiet(1) [OF q3]
    by (simp add: fs_cache_get_def a c d Let_def cache_decoded_def split: option.split)
qed

lemma fs_cache_get_delivers:
  assumes calm: "cache_calm env dir inner iinv plain avail w" and h: "h \<in> avail"
  shows "is_ok (fst (fs_cache_get env dir inner h w))"
proof -
  obtain a w1 where a: "cache_hit env h w = (a, w1)" by fastforce
  obtain c w2 where c: "cache_hit env h w1 = (c, w2)" by fastforce
  obtain d w3 where d: "read_verified env h (path_for env dir h) w2 = (d, w3)" by fastforce
  have lru: "lru_ok env" and inv: "cache_inv env dir (\<lambda>h b. b = plain h) w"
    using calm by (simp_all add: cache_calm_def cache_ready_def env_ok_def)
  note s1 = cache_hit_sound [OF a lru] and s2 = cache_hit_sound [OF c lru]
  have "cache_inv env dir (\<lambda>h b. b = plain h) w2" using inv s1(5) s2(5) by simp
  note s3 = read_verified_sound [OF d this]
  have q: "fs_faults (cw_fs w2) = []" using calm s1(2) s2(2) by (simp add: cache_calm_def)
  have q3: "fs_faults (cw_fs w3) = []"
    using d read_verified_quiet [OF q] by (metis snd_conv)
  have "iinv (cw_inner w3)" "inner_has env iinv inner avail"
    using calm s1(3) s2(3) s3(3) by (simp_all add: cache_calm_def cache_ready_def)
  with fetch_and_persist_quiet(2) [OF q3] h
  have "is_ok (fst (fetch_and_persist env inner h (path_for env dir h) w3))" by blast
  then show ?thesis
    by (auto simp: fs_cache_get_def a c d Let_def split: option.split)
qed

interpretation cached_full: full_source
  "fs_cache_get env dir inner" "cache_calm env dir inner iinv plain avail" plain avail
  for env dir inner iinv plain avail
proof
  fix s h b s' r
  show "cache_calm env dir inner iinv plain avail s \<Longrightarrow>
      fs_cache_get env dir inner h s = (Ok b, s') \<Longrightarrow> b = plain h"
    by (auto simp: cache_calm_def dest: cached.get_sound)
  show "cache_calm env dir inner iinv plain avail s \<Longrightarrow>
      fs_cache_get env dir inner h s = (r, s') \<Longrightarrow> cache_calm env dir inner iinv plain avail s'"
    using cached.get_inv fs_cache_get_quiet [of s env dir inner h] by (auto simp: cache_calm_def)
  show "cache_calm env dir inner iinv plain avail s \<Longrightarrow> h \<in> avail \<Longrightarrow>
      \<exists>b s'. fs_cache_get env dir inner h s = (Ok b, s')"
    using fs_cache_get_delivers [of env dir inner iinv plain avail s h]
    by (metis is_ok_iff prod.collapse)
qed

end
