(* ===== verification/Steam_Store.thy ===== *)
theory Steam_Store
  imports Manifest_Cache Chunk_Cache
begin

text \<open>
  The parts that talk to Steam, and the store that ties them together: \<open>session.rs\<close> (the login
  that happens on first use), \<open>depot_key_cache.rs\<close>, \<open>chunk_store/cdn.rs\<close> and
  \<open>context.rs\<close>.

  The Steam client is outside the repository: \<open>steam_client\<close> holds the calls the code makes,
  over a state \<open>'w\<close> of the network, with sessions of type \<open>'c\<close> and depot keys of type
  \<open>'k\<close>.  Nothing is assumed about them; what is shown is when they are called.
\<close>

section \<open>Session and depot keys\<close>

record ('c, 'k, 'w) steam_client =
  sc_login :: "'w \<Rightarrow> (vfs_error, 'c) outcome \<times> 'w"
  sc_depot_key :: "'c \<Rightarrow> u32 \<Rightarrow> u32 \<Rightarrow> 'w \<Rightarrow> (vfs_error, 'k) outcome \<times> 'w"
  sc_manifest :: "'c \<Rightarrow> u32 \<Rightarrow> u32 \<Rightarrow> u64 \<Rightarrow> string \<Rightarrow> 'k \<Rightarrow> 'w \<Rightarrow> (vfs_error, manifest) outcome \<times> 'w"
  sc_chunk :: "'c \<Rightarrow> u32 \<Rightarrow> chunk \<Rightarrow> 'k \<Rightarrow> 'w \<Rightarrow> (vfs_error, bytes) outcome \<times> 'w"
  sc_text :: "vfs_error \<Rightarrow> string"

text \<open>What a process keeps: the session once there is one, the keys fetched so far.\<close>

record ('c, 'k, 'w) steam_world =
  sw_session :: "'c option"
  sw_keys :: "((u32 \<times> u32) \<times> 'k option) list"
  sw_net :: 'w

type_synonym ('c, 'k, 'w, 'a) steam_op =
  "('c, 'k, 'w) steam_world \<Rightarrow> (vfs_error, 'a) outcome \<times> ('c, 'k, 'w) steam_world"

text \<open>\<open>LazyCachedAuth::resolve\<close>: the first success is kept, a failure is tried again.\<close>

definition auth_resolve :: "('c, 'k, 'w) steam_client \<Rightarrow> ('c, 'k, 'w, 'c) steam_op" where
  "auth_resolve sc w =
     (case sw_session w of
        Some s \<Rightarrow> (Ok s, w)
      | None \<Rightarrow>
          (case sc_login sc (sw_net w) of
             (Ok s, n) \<Rightarrow> (Ok s, w\<lparr>sw_session := Some s, sw_net := n\<rparr>)
           | (Err e, n) \<Rightarrow> (Err (VfsOther (sc_text sc e)), w\<lparr>sw_net := n\<rparr>)
           | (Panic, n) \<Rightarrow> (Panic, w\<lparr>sw_net := n\<rparr>)))"

text \<open>\<open>get_lazy\<close> makes the cell of a depot if it has none; the key stays in it.\<close>

definition get_lazy :: "u32 \<Rightarrow> u32 \<Rightarrow> ('c, 'k, 'w) steam_world \<Rightarrow> ('c, 'k, 'w) steam_world" where
  "get_lazy app_id depot_id w =
     (case map_of (sw_keys w) (app_id, depot_id) of
        Some _ \<Rightarrow> w
      | None \<Rightarrow> w\<lparr>sw_keys := ((app_id, depot_id), None) # sw_keys w\<rparr>)"

definition lazy_key_get ::
  "('c, 'k, 'w) steam_client \<Rightarrow> u32 \<Rightarrow> u32 \<Rightarrow> ('c, 'k, 'w, 'k) steam_op" where
  "lazy_key_get sc app_id depot_id w =
     (case auth_resolve sc w of
        (Err e, w1) \<Rightarrow> (Err e, w1)
      | (Panic, w1) \<Rightarrow> (Panic, w1)
      | (Ok s, w1) \<Rightarrow>
          (case map_of (sw_keys w1) (app_id, depot_id) of
             Some (Some k) \<Rightarrow> (Ok k, w1)
           | _ \<Rightarrow>
               (case sc_depot_key sc s app_id depot_id (sw_net w1) of
                  (Ok k, n) \<Rightarrow>
                    (Ok k, w1\<lparr>sw_keys := ((app_id, depot_id), Some k) # sw_keys w1, sw_net := n\<rparr>)
                | (Err e, n) \<Rightarrow> (Err e, w1\<lparr>sw_net := n\<rparr>)
                | (Panic, n) \<Rightarrow> (Panic, w1\<lparr>sw_net := n\<rparr>))))"

definition key_cache_get ::
  "('c, 'k, 'w) steam_client \<Rightarrow> u32 \<Rightarrow> u32 \<Rightarrow> ('c, 'k, 'w, 'k) steam_op" where
  "key_cache_get sc app_id depot_id w = lazy_key_get sc app_id depot_id (get_lazy app_id depot_id w)"

section \<open>The CDN store\<close>

text \<open>The index of a manifest's chunks: the first descriptor of a hash wins.\<close>

fun index_chunks :: "chunk list \<Rightarrow> (chunk_hash \<rightharpoonup> chunk) \<Rightarrow> chunk_hash \<rightharpoonup> chunk" where
  "index_chunks [] ix = ix"
| "index_chunks (c # cs) ix =
     index_chunks cs (case ix (c_sha c) of Some _ \<Rightarrow> ix | None \<Rightarrow> ix(c_sha c \<mapsto> c))"

fun index_files :: "depot_api \<Rightarrow> depot_file list \<Rightarrow> (chunk_hash \<rightharpoonup> chunk) \<Rightarrow> chunk_hash \<rightharpoonup> chunk" where
  "index_files api [] ix = ix"
| "index_files api (f # fs) ix = index_files api fs (index_chunks (api_chunks api f) ix)"

record cdn_store =
  cdn_app_id :: u32
  cdn_depot_id :: u32
  cdn_chunk_index :: "chunk_hash \<rightharpoonup> chunk"

definition cdn_store_new :: "depot_api \<Rightarrow> u32 \<Rightarrow> u32 \<Rightarrow> manifest \<Rightarrow> cdn_store" where
  "cdn_store_new api app_id depot_id m =
     \<lparr>cdn_app_id = app_id, cdn_depot_id = depot_id,
      cdn_chunk_index = index_files api (m_files m) Map.empty\<rparr>"

definition cdn_get ::
  "('c, 'k, 'w) steam_client \<Rightarrow> cdn_store \<Rightarrow> chunk_hash \<Rightarrow> ('c, 'k, 'w, bytes) steam_op" where
  "cdn_get sc cdn sha w =
     (case cdn_chunk_index cdn sha of
        None \<Rightarrow> (Err (ChunkNotInManifest sha), w)
      | Some chunk \<Rightarrow>
          (case lazy_key_get sc (cdn_app_id cdn) (cdn_depot_id cdn) w of
             (Err e, w1) \<Rightarrow> (Err e, w1)
           | (Panic, w1) \<Rightarrow> (Panic, w1)
           | (Ok key, w1) \<Rightarrow>
               (case auth_resolve sc w1 of
                  (Err e, w2) \<Rightarrow> (Err e, w2)
                | (Panic, w2) \<Rightarrow> (Panic, w2)
                | (Ok s, w2) \<Rightarrow>
                    (case sc_chunk sc s (cdn_depot_id cdn) chunk key (sw_net w2) of
                       (r, n) \<Rightarrow> (r, w2\<lparr>sw_net := n\<rparr>)))))"

definition cdn_chunk_store ::
  "('c, 'k, 'w) steam_client \<Rightarrow> cdn_store \<Rightarrow> ('c, 'k, 'w) steam_world chunk_store" where
  "cdn_chunk_store sc cdn = \<lparr>cs_get = cdn_get sc cdn, cs_ensure = default_ensure (cdn_get sc cdn)\<rparr>"

section \<open>The depot store\<close>

definition CHUNKS_DIR :: string where
  "CHUNKS_DIR = ''chunks''"

record depot_root =
  dr_root :: path
  dr_manifests :: manifest_cache
  dr_chunks :: chunk_dir

definition depot_root_new :: "path \<Rightarrow> nat \<Rightarrow> depot_root" where
  "depot_root_new root pid =
     \<lparr>dr_root = root, dr_manifests = manifest_cache_new (root @ [''manifests'']) pid,
      dr_chunks = chunk_dir_new (root @ [CHUNKS_DIR])\<rparr>"

text \<open>The same with what \<open>DepotStore::new\<close> does to the disk: it makes the chunk directory.\<close>

definition depot_root_open ::
  "'l chunk_env \<Rightarrow> path \<Rightarrow> nat \<Rightarrow> fsys \<Rightarrow> 'i \<Rightarrow> depot_root \<times> ('l, 'i) cache_world" where
  "depot_root_open env root pid fs i =
     (depot_root_new root pid, snd (chunk_dir_open env (root @ [CHUNKS_DIR]) fs i))"

text \<open>The fetch that \<open>get_manifest\<close> hands to \<open>get_or_fetch\<close>: key, session, manifest.\<close>

definition manifest_fetch ::
  "('c, 'k, 'w) steam_client \<Rightarrow> u32 \<Rightarrow> u32 \<Rightarrow> u64 \<Rightarrow> string \<Rightarrow> ('c, 'k, 'w, manifest) steam_op" where
  "manifest_fetch sc app_id depot_id gid branch w =
     (case lazy_key_get sc app_id depot_id w of
        (Err e, w1) \<Rightarrow> (Err e, w1)
      | (Panic, w1) \<Rightarrow> (Panic, w1)
      | (Ok key, w1) \<Rightarrow>
          (case auth_resolve sc w1 of
             (Err e, w2) \<Rightarrow> (Err e, w2)
           | (Panic, w2) \<Rightarrow> (Panic, w2)
           | (Ok s, w2) \<Rightarrow>
               (case sc_manifest sc s app_id depot_id gid branch key (sw_net w2) of
                  (r, n) \<Rightarrow> (r, w2\<lparr>sw_net := n\<rparr>))))"

definition get_manifest ::
  "('c, 'k, 'w) steam_client \<Rightarrow> postcard \<Rightarrow> depot_root \<Rightarrow> u32 \<Rightarrow> u32 \<Rightarrow> u64 \<Rightarrow> string \<Rightarrow>
     ('c, 'k, 'w) steam_world manifest_world \<Rightarrow>
     (vfs_error, manifest) outcome \<times> ('c, 'k, 'w) steam_world manifest_world" where
  "get_manifest sc pc dr app_id depot_id gid branch =
     get_or_fetch pc (dr_manifests dr) (app_id, depot_id, gid)
       (manifest_fetch sc app_id depot_id gid branch)"

text \<open>
  \<open>open_depot_manifest_with_chunks\<close>: \<open>wrap\<close> is the caller's layer between the CDN and the
  disk cache, the identity for \<open>open_depot_manifest\<close>.
\<close>

definition open_depot_manifest_with_chunks ::
  "('c, 'k, 'w) steam_client \<Rightarrow> postcard \<Rightarrow> 'l chunk_env \<Rightarrow> depot_api \<Rightarrow> depot_root \<Rightarrow>
     (('c, 'k, 'w) steam_world chunk_store \<Rightarrow> 'i chunk_store) \<Rightarrow> u32 \<Rightarrow> u32 \<Rightarrow> u64 \<Rightarrow> string \<Rightarrow>
     ('c, 'k, 'w) steam_world manifest_world \<Rightarrow>
     (vfs_error, ('l, 'i) cache_world depot_store) outcome \<times>
       ('c, 'k, 'w) steam_world manifest_world" where
  "open_depot_manifest_with_chunks sc pc env api dr wrap app_id depot_id gid branch w =
     (let w1 = w\<lparr>mcw_net := get_lazy app_id depot_id (mcw_net w)\<rparr> in
      case get_manifest sc pc dr app_id depot_id gid branch w1 of
        (Err e, w2) \<Rightarrow> (Err e, w2)
      | (Panic, w2) \<Rightarrow> (Panic, w2)
      | (Ok m, w2) \<Rightarrow>
          (let wrapped = wrap (cdn_chunk_store sc (cdn_store_new api app_id depot_id m))
           in (Ok (depot_store_new m (fs_cache_store env (dr_chunks dr) wrapped)), w2)))"

definition open_depot_manifest ::
  "('c, 'k, 'w) steam_client \<Rightarrow> postcard \<Rightarrow> 'l chunk_env \<Rightarrow> depot_api \<Rightarrow> depot_root \<Rightarrow>
     u32 \<Rightarrow> u32 \<Rightarrow> u64 \<Rightarrow> string \<Rightarrow> ('c, 'k, 'w) steam_world manifest_world \<Rightarrow>
     (vfs_error, ('l, ('c, 'k, 'w) steam_world) cache_world depot_store) outcome \<times>
       ('c, 'k, 'w) steam_world manifest_world" where
  "open_depot_manifest sc pc env api dr =
     open_depot_manifest_with_chunks sc pc env api dr (\<lambda>cdn. cdn)"

definition load_cached_manifest ::
  "postcard \<Rightarrow> depot_root \<Rightarrow> u32 \<Rightarrow> u32 \<Rightarrow> u64 \<Rightarrow> fsys \<Rightarrow>
     (vfs_error, manifest option) outcome \<times> fsys" where
  "load_cached_manifest pc dr app_id depot_id gid fs =
     (case manifest_load pc (dr_manifests dr) (app_id, depot_id, gid) fs of
        (r, fs1) \<Rightarrow> (omap_err VfsManifestCache r, fs1))"

definition chunks_root :: "depot_root \<Rightarrow> path" where
  "chunks_root dr = cd_root (dr_chunks dr)"

definition manifests_root :: "depot_root \<Rightarrow> path" where
  "manifests_root dr = dr_root dr @ [''manifests'']"

section \<open>Enumerating the store\<close>

text \<open>
  A directory read: an error, or its entries, each an error or a name, \<open>None\<close> for a name that is
  not valid UTF-8.  \<open>read_dir\<close> is \<open>std::fs::read_dir\<close> on a disk that does not change
  meanwhile.
\<close>

type_synonym dir_rows = "(io_error, (io_error, string option) outcome list) outcome"

fun chunk_rows :: "(string \<Rightarrow> chunk_hash option) \<Rightarrow> (io_error, string option) outcome list \<Rightarrow>
    (io_error, chunk_hash) outcome list" where
  "chunk_rows from_hex [] = []"
| "chunk_rows from_hex (row # rows) =
     (case row of
        Err e \<Rightarrow> Err e # chunk_rows from_hex rows
      | Panic \<Rightarrow> Panic # chunk_rows from_hex rows
      | Ok name \<Rightarrow>
          (case Option.bind name from_hex of
             Some h \<Rightarrow> Ok h # chunk_rows from_hex rows
           | None \<Rightarrow> chunk_rows from_hex rows))"

definition list_chunks ::
  "(path \<Rightarrow> dir_rows) \<Rightarrow> (string \<Rightarrow> chunk_hash option) \<Rightarrow> depot_root \<Rightarrow>
     (io_error, (io_error, chunk_hash) outcome list) outcome" where
  "list_chunks read_dir from_hex dr =
     (case read_dir (chunks_root dr) of
        Ok rows \<Rightarrow> Ok (chunk_rows from_hex rows)
      | Err e \<Rightarrow> if io_kind_of e = KNotFound then Ok [] else Err e
      | Panic \<Rightarrow> Panic)"

text \<open>The three nested loops of \<open>list_manifests\<close>: any error ends the enumeration.\<close>

fun gid_rows :: "u32 \<Rightarrow> u32 \<Rightarrow> (io_error, string option) outcome list \<Rightarrow>
    (io_error, manifest_key list) outcome" where
  "gid_rows a d [] = Ok []"
| "gid_rows a d (row # rows) =
     (case row of
        Err e \<Rightarrow> Err e
      | Panic \<Rightarrow> Panic
      | Ok name \<Rightarrow>
          (case Option.bind (Option.bind name (strip_suffix ''.postcard'')) parse_u64 of
             None \<Rightarrow> gid_rows a d rows
           | Some g \<Rightarrow> omap (\<lambda>out. (a, d, g) # out) (gid_rows a d rows)))"

fun depot_rows :: "(path \<Rightarrow> dir_rows) \<Rightarrow> path \<Rightarrow> u32 \<Rightarrow> (io_error, string option) outcome list \<Rightarrow>
    (io_error, manifest_key list) outcome" where
  "depot_rows read_dir p a [] = Ok []"
| "depot_rows read_dir p a (row # rows) =
     (case row of
        Err e \<Rightarrow> Err e
      | Panic \<Rightarrow> Panic
      | Ok name \<Rightarrow>
          (case (name, Option.bind name parse_u32) of
             (Some nm, Some d) \<Rightarrow>
               obind (read_dir (p @ [nm])) (\<lambda>gs.
               obind (gid_rows a d gs) (\<lambda>out.
               omap (\<lambda>rest. out @ rest) (depot_rows read_dir p a rows)))
           | _ \<Rightarrow> depot_rows read_dir p a rows))"

fun app_rows :: "(path \<Rightarrow> dir_rows) \<Rightarrow> path \<Rightarrow> (io_error, string option) outcome list \<Rightarrow>
    (io_error, manifest_key list) outcome" where
  "app_rows read_dir p [] = Ok []"
| "app_rows read_dir p (row # rows) =
     (case row of
        Err e \<Rightarrow> Err e
      | Panic \<Rightarrow> Panic
      | Ok name \<Rightarrow>
          (case (name, Option.bind name parse_u32) of
             (Some nm, Some a) \<Rightarrow>
               obind (read_dir (p @ [nm])) (\<lambda>ds.
               obind (depot_rows read_dir (p @ [nm]) a ds) (\<lambda>out.
               omap (\<lambda>rest. out @ rest) (app_rows read_dir p rows)))
           | _ \<Rightarrow> app_rows read_dir p rows))"

definition list_manifests ::
  "(path \<Rightarrow> dir_rows) \<Rightarrow> depot_root \<Rightarrow> (io_error, manifest_key list) outcome" where
  "list_manifests read_dir dr =
     (case read_dir (manifests_root dr) of
        Ok rows \<Rightarrow> app_rows read_dir (manifests_root dr) rows
      | Err e \<Rightarrow> if io_kind_of e = KNotFound then Ok [] else Err e
      | Panic \<Rightarrow> Panic)"

section \<open>Properties\<close>

lemma index_chunks_eq:
  "index_chunks cs ix h = (case ix h of Some c \<Rightarrow> Some c | None \<Rightarrow> find (\<lambda>c. c_sha c = h) cs)"
proof (induction cs arbitrary: ix)
  case Nil
  then show ?case by (simp split: option.split)
next
  case (Cons c cs)
  then show ?case by (auto split: option.split)
qed

lemma find_append: "find P (xs @ ys) = (case find P xs of Some x \<Rightarrow> Some x | None \<Rightarrow> find P ys)"
  by (induction xs) auto

lemma index_files_eq:
  "index_files api fs ix h =
     (case ix h of Some c \<Rightarrow> Some c
      | None \<Rightarrow> find (\<lambda>c. c_sha c = h) (concat (map (api_chunks api) fs)))"
proof (induction fs arbitrary: ix)
  case Nil
  then show ?case by (simp split: option.split)
next
  case (Cons f fs)
  then show ?case by (auto simp: index_chunks_eq find_append split: option.split)
qed

lemma auth_resolve_session:
  "auth_resolve sc w = (Ok s, w') \<Longrightarrow> sw_session w' = Some s \<and> sw_keys w' = sw_keys w"
  by (auto simp: auth_resolve_def split: option.splits prod.splits outcome.splits)

lemma auth_resolve_again: "sw_session w = Some s \<Longrightarrow> auth_resolve sc w = (Ok s, w)"
  by (simp add: auth_resolve_def)

lemma lazy_key_get_Ok:
  assumes "lazy_key_get sc a d w = (Ok k, w')"
  shows "\<exists>s. sw_session w' = Some s" and "map_of (sw_keys w') (a, d) = Some (Some k)"
proof -
  obtain s w1 where s: "auth_resolve sc w = (Ok s, w1)"
    using assms by (auto simp: lazy_key_get_def split: prod.splits outcome.splits)
  note s' = auth_resolve_session [OF s]
  have "sw_session w' = Some s \<and> map_of (sw_keys w') (a, d) = Some (Some k)"
    using assms s s' by (auto simp: lazy_key_get_def split: option.splits prod.splits outcome.splits)
  then show "\<exists>s. sw_session w' = Some s" "map_of (sw_keys w') (a, d) = Some (Some k)" by auto
qed

text \<open>
  The CDN store asks Steam only for chunks of its manifest.  A hash that is not in the
  manifest is an error that touches neither the session nor the network; for one that is, the
  descriptor used is the first of that hash in manifest order, and the chunk is requested with
  the depot's key over the session the key was obtained with, logging in no second time.
\<close>

theorem cdn_get_scope:
  "cdn_get sc (cdn_store_new api a d m) h w =
    (case find (\<lambda>c. c_sha c = h) (concat (map (api_chunks api) (m_files m))) of
       None \<Rightarrow> (Err (ChunkNotInManifest h), w)
     | Some c \<Rightarrow>
         (case lazy_key_get sc a d w of
            (Err e, w1) \<Rightarrow> (Err e, w1)
          | (Panic, w1) \<Rightarrow> (Panic, w1)
          | (Ok key, w1) \<Rightarrow>
              (case sc_chunk sc (the (sw_session w1)) d c key (sw_net w1) of
                 (r, n) \<Rightarrow> (r, w1\<lparr>sw_net := n\<rparr>))))"
proof (cases "find (\<lambda>c. c_sha c = h) (concat (map (api_chunks api) (m_files m)))")
  case None
  then show ?thesis by (simp add: cdn_get_def cdn_store_new_def index_files_eq)
next
  case (Some c)
  obtain r w1 where l: "lazy_key_get sc a d w = (r, w1)" by fastforce
  show ?thesis
  proof (cases r)
    case (Ok k)
    obtain s where "sw_session w1 = Some s" using lazy_key_get_Ok(1) [OF l [unfolded Ok]] by blast
    then show ?thesis using Some l Ok
      by (simp add: cdn_get_def cdn_store_new_def index_files_eq auth_resolve_def)
  qed (use Some l in \<open>simp_all add: cdn_get_def cdn_store_new_def index_files_eq\<close>)
qed

text \<open>
  A depot key is fetched once: after it has been obtained, asking again, on any later state
  that still has the session and the key, gives the same key and changes nothing.
\<close>

theorem depot_key_fetched_once:
  assumes "key_cache_get sc a d w = (Ok k, w1)"
    and "sw_session w2 = sw_session w1" and "sw_keys w2 = sw_keys w1"
  shows "key_cache_get sc a d w2 = (Ok k, w2) \<and> lazy_key_get sc a d w2 = (Ok k, w2)"
proof -
  from assms(1) have "lazy_key_get sc a d (get_lazy a d w) = (Ok k, w1)" by (simp add: key_cache_get_def)
  from lazy_key_get_Ok [OF this] obtain s where s: "sw_session w1 = Some s"
    and k: "map_of (sw_keys w1) (a, d) = Some (Some k)" by blast
  have "lazy_key_get sc a d w2 = (Ok k, w2)"
    using s k assms(2,3) by (simp add: lazy_key_get_def auth_resolve_def)
  moreover have "get_lazy a d w2 = w2" using k assms(3) by (simp add: get_lazy_def)
  ultimately show ?thesis by (simp add: key_cache_get_def)
qed

text \<open>
  Opening a manifest that is on disk stays offline: the snapshot is built from the cached
  manifest, over the disk cache and a CDN store for that manifest, and neither the session nor
  the network is touched.
\<close>

theorem cached_open_is_offline:
  assumes "manifest_load pc (dr_manifests dr) (a, d, g) (mcw_fs w) = (Ok (Some m), fs1)"
  shows "open_depot_manifest sc pc env api dr a d g branch w =
    (Ok (depot_store_new m (fs_cache_store env (dr_chunks dr)
       (cdn_chunk_store sc (cdn_store_new api a d m)))),
     w\<lparr>mcw_fs := fs1, mcw_net := get_lazy a d (mcw_net w)\<rparr>) \<and>
    sw_session (get_lazy a d (mcw_net w)) = sw_session (mcw_net w) \<and>
    sw_net (get_lazy a d (mcw_net w)) = sw_net (mcw_net w)"
  using assms
  by (simp add: open_depot_manifest_def open_depot_manifest_with_chunks_def get_manifest_def
      get_or_fetch_def Let_def get_lazy_def split: option.split)

section \<open>Enumeration\<close>

text \<open>What the three loops should find, as relations over the directory reads.\<close>

definition gid_listed :: "(io_error, string option) outcome list \<Rightarrow> u64 \<Rightarrow> bool" where
  "gid_listed gs g \<longleftrightarrow> (\<exists>n. Ok (Some n) \<in> set gs \<and>
     Option.bind (strip_suffix ''.postcard'' n) parse_u64 = Some g)"

definition depot_listed ::
  "(path \<Rightarrow> dir_rows) \<Rightarrow> path \<Rightarrow> (io_error, string option) outcome list \<Rightarrow> u32 \<Rightarrow> u64 \<Rightarrow> bool" where
  "depot_listed rd p ds d g \<longleftrightarrow> (\<exists>nd gs. Ok (Some nd) \<in> set ds \<and> parse_u32 nd = Some d \<and>
     rd (p @ [nd]) = Ok gs \<and> gid_listed gs g)"

definition app_listed ::
  "(path \<Rightarrow> dir_rows) \<Rightarrow> path \<Rightarrow> (io_error, string option) outcome list \<Rightarrow>
     u32 \<Rightarrow> u32 \<Rightarrow> u64 \<Rightarrow> bool" where
  "app_listed rd p as a d g \<longleftrightarrow> (\<exists>na ds. Ok (Some na) \<in> set as \<and> parse_u32 na = Some a \<and>
     rd (p @ [na]) = Ok ds \<and> depot_listed rd (p @ [na]) ds d g)"

lemma gid_listed_Cons [simp]:
  "gid_listed (Ok name # gs) g \<longleftrightarrow>
     Option.bind (Option.bind name (strip_suffix ''.postcard'')) parse_u64 = Some g \<or> gid_listed gs g"
  by (cases name) (auto simp: gid_listed_def)

lemma depot_listed_Cons:
  "depot_listed rd p (Ok name # ds) d g \<longleftrightarrow>
     (\<exists>nm gs. name = Some nm \<and> parse_u32 nm = Some d \<and> rd (p @ [nm]) = Ok gs \<and> gid_listed gs g) \<or>
     depot_listed rd p ds d g"
  unfolding depot_listed_def by (cases name) (simp, simp, blast)

lemma app_listed_Cons:
  "app_listed rd p (Ok name # as) a d g \<longleftrightarrow>
     (\<exists>nm ds. name = Some nm \<and> parse_u32 nm = Some a \<and> rd (p @ [nm]) = Ok ds \<and>
       depot_listed rd (p @ [nm]) ds d g) \<or>
     app_listed rd p as a d g"
  unfolding app_listed_def by (cases name) (simp, simp, blast)

lemma gid_rows_in:
  assumes "gid_rows a d rows = Ok out"
  shows "(a', d', g') \<in> set out \<longleftrightarrow> a' = a \<and> d' = d \<and> gid_listed rows g'"
  using assms
proof (induction rows arbitrary: out)
  case Nil
  then show ?case by (simp add: gid_listed_def)
next
  case (Cons row rows)
  obtain name where row: "row = Ok name" using Cons.prems by (cases row) auto
  show ?case
  proof (cases "Option.bind (Option.bind name (strip_suffix ''.postcard'')) parse_u64")
    case None
    then have "gid_rows a d rows = Ok out" using Cons.prems row by simp
    from Cons.IH [OF this] show ?thesis using None row by simp
  next
    case (Some g)
    then obtain out' where o: "gid_rows a d rows = Ok out'" "out = (a, d, g) # out'"
      using Cons.prems row by auto
    from Cons.IH [OF o(1)] show ?thesis using Some row o(2) by auto
  qed
qed

lemma depot_rows_in:
  assumes "depot_rows rd p a rows = Ok out"
  shows "(a', d', g') \<in> set out \<longleftrightarrow> a' = a \<and> depot_listed rd p rows d' g'"
  using assms
proof (induction rows arbitrary: out)
  case Nil
  then show ?case by (simp add: depot_listed_def)
next
  case (Cons row rows)
  obtain name where row: "row = Ok name" using Cons.prems by (cases row) auto
  show ?case
  proof (cases "Option.bind name parse_u32")
    case None
    then have o: "depot_rows rd p a rows = Ok out"
      using Cons.prems row by (cases name) (auto split: option.splits)
    show ?thesis unfolding Cons.IH [OF o] row depot_listed_Cons using None by auto
  next
    case (Some d)
    then obtain nm where nm: "name = Some nm" "parse_u32 nm = Some d" by (cases name) auto
    with Cons.prems row obtain gs o1 o2 where g: "rd (p @ [nm]) = Ok gs" "gid_rows a d gs = Ok o1"
      "depot_rows rd p a rows = Ok o2" "out = o1 @ o2" by auto
    show ?thesis
      unfolding g(4) set_append Un_iff gid_rows_in [OF g(2)] Cons.IH [OF g(3)] row depot_listed_Cons
      using nm g(1) by auto
  qed
qed

lemma app_rows_in:
  assumes "app_rows rd p rows = Ok out"
  shows "(a', d', g') \<in> set out \<longleftrightarrow> app_listed rd p rows a' d' g'"
  using assms
proof (induction rows arbitrary: out)
  case Nil
  then show ?case by (simp add: app_listed_def)
next
  case (Cons row rows)
  obtain name where row: "row = Ok name" using Cons.prems by (cases row) auto
  show ?case
  proof (cases "Option.bind name parse_u32")
    case None
    then have o: "app_rows rd p rows = Ok out"
      using Cons.prems row by (cases name) (auto split: option.splits)
    show ?thesis unfolding Cons.IH [OF o] row app_listed_Cons using None by auto
  next
    case (Some a)
    then obtain nm where nm: "name = Some nm" "parse_u32 nm = Some a" by (cases name) auto
    with Cons.prems row obtain ds o1 o2 where g: "rd (p @ [nm]) = Ok ds"
      "depot_rows rd (p @ [nm]) a ds = Ok o1" "app_rows rd p rows = Ok o2" "out = o1 @ o2" by auto
    show ?thesis
      unfolding g(4) set_append Un_iff depot_rows_in [OF g(2)] Cons.IH [OF g(3)] row app_listed_Cons
      using nm g(1) by auto
  qed
qed

text \<open>
  Listing the cached manifests finds exactly the files laid out as
  \<open>app/depot/gid.postcard\<close> with numeric names, whatever else the directories hold, and the
  name \<open>save\<close> gives a manifest is one of them: it parses back to the manifest's id.
\<close>

theorem list_manifests_exact:
  assumes "list_manifests rd dr = Ok ks" and "rd (manifests_root dr) = Ok as"
  shows "((a, d, g) \<in> set ks \<longleftrightarrow> app_listed rd (manifests_root dr) as a d g) \<and>
    Option.bind (strip_suffix ''.postcard'' (to_dec (x :: u64) @ ''.postcard'')) parse_u64 = Some x"
proof
  have "app_rows rd (manifests_root dr) as = Ok ks" using assms by (simp add: list_manifests_def)
  then show "(a, d, g) \<in> set ks \<longleftrightarrow> app_listed rd (manifests_root dr) as a d g" by (rule app_rows_in)
  show "Option.bind (strip_suffix ''.postcard'' (to_dec x @ ''.postcard'')) parse_u64 = Some x"
    by (simp add: strip_suffix_def parse_u64_to_dec)
qed

section \<open>A concrete store\<close>

text \<open>A client whose network counts the calls, one session, one key.\<close>

definition demo_client :: "(unit, nat, nat) steam_client" where
  "demo_client =
     \<lparr>sc_login = (\<lambda>n. (Ok (), Suc n)),
      sc_depot_key = (\<lambda>_ a d n. (Ok (unat a + unat d), Suc n)),
      sc_manifest = (\<lambda>_ a d g branch k n. (Ok (manifest_of_cached demo_cached), Suc n)),
      sc_chunk = (\<lambda>_ d c k n. (Err (VfsOther ''offline''), Suc n)),
      sc_text = (\<lambda>_. ''error'')\<rparr>"

definition demo_steam :: "(unit, nat, nat) steam_world" where
  "demo_steam = \<lparr>sw_session = None, sw_keys = [], sw_net = 0\<rparr>"

definition demo_rows :: "path \<Rightarrow> dir_rows" where
  "demo_rows p =
     (if p = [''r'', ''manifests''] then Ok [Ok (Some ''1''), Ok (Some ''notes'')]
      else if p = [''r'', ''manifests'', ''1''] then Ok [Ok (Some ''2''), Ok None]
      else if p = [''r'', ''manifests'', ''1'', ''2''] then Ok [Ok (Some ''3.postcard''), Ok (Some ''4.tmp'')]
      else Err (OsError KNotFound))"

theorem depot_key_fetched_once_witness:
  "\<exists>w1. key_cache_get demo_client 1 2 demo_steam = (Ok 3, w1) \<and> sw_net w1 = 2 \<and>
     key_cache_get demo_client 1 2 (w1\<lparr>sw_net := 9\<rparr>) = (Ok 3, w1\<lparr>sw_net := 9\<rparr>)"
proof -
  obtain w1 where w: "key_cache_get demo_client 1 2 demo_steam = (Ok 3, w1)" "sw_net w1 = 2"
    by (simp add: key_cache_get_def get_lazy_def lazy_key_get_def auth_resolve_def demo_client_def demo_steam_def)
  then show ?thesis
    using depot_key_fetched_once [OF w(1), of "w1\<lparr>sw_net := 9\<rparr>"] by simp
qed

theorem list_manifests_exact_witness:
  "list_manifests demo_rows (depot_root_new [''r''] 1) = Ok [(1, 2, 3)] \<and>
   app_listed demo_rows [''r'', ''manifests''] [Ok (Some ''1''), Ok (Some ''notes'')] 1 2 3"
proof -
  have m: "manifests_root (depot_root_new [''r''] pid) = [''r'', ''manifests'']" for pid
    by (simp add: manifests_root_def depot_root_new_def)
  have p: "parse_u32 ''1'' = Some 1" "parse_u32 ''2'' = Some 2" "parse_u32 ''notes'' = None"
    "parse_u64 ''3'' = Some 3" "strip_suffix ''.postcard'' ''3.postcard'' = Some ''3''"
    "strip_suffix ''.postcard'' ''4.tmp'' = None"
    by (simp_all add: parse_u32_def parse_u64_def from_str_radix_def digit_of_def strip_suffix_def Let_def)
  have d: "demo_rows [''r'', ''manifests''] = Ok [Ok (Some ''1''), Ok (Some ''notes'')]"
    "demo_rows [''r'', ''manifests'', ''1''] = Ok [Ok (Some ''2''), Ok None]"
    "demo_rows [''r'', ''manifests'', ''1'', ''2''] = Ok [Ok (Some ''3.postcard''), Ok (Some ''4.tmp'')]"
    by (simp_all add: demo_rows_def)
  have l: "list_manifests demo_rows (depot_root_new [''r''] 1) = Ok [(1, 2, 3)]"
    unfolding list_manifests_def m by (simp add: d p)
  have r: "demo_rows (manifests_root (depot_root_new [''r''] 1)) = Ok [Ok (Some ''1''), Ok (Some ''notes'')]"
    by (simp add: m d)
  from list_manifests_exact [OF l r, of 1 2 3 0] l show ?thesis by (simp add: m)
qed

theorem cached_open_is_offline_witness:
  "\<exists>st w'. open_depot_manifest demo_client demo_postcard std_env std_depot_api (depot_root_new [''r''] 7) 1 2 3 ''public''
      \<lparr>mcw_fs = \<lparr>fs_files = (\<lambda>_. None)([''r'', ''manifests'', to_dec (1 :: u32), to_dec (2 :: u32),
          to_dec (3 :: u64) @ ''.postcard''] \<mapsto> [1]), fs_faults = []\<rparr>,
       mcw_in_flight = [], mcw_net = demo_steam\<rparr> = (Ok st, w') \<and>
    sw_session (mcw_net w') = None \<and> sw_net (mcw_net w') = 0"
proof -
  let ?fs = "\<lparr>fs_files = (\<lambda>_. None)([''r'', ''manifests'', to_dec (1 :: u32), to_dec (2 :: u32),
      to_dec (3 :: u64) @ ''.postcard''] \<mapsto> [1]), fs_faults = []\<rparr>"
  let ?dr = "depot_root_new [''r''] 7"
  have l: "manifest_load demo_postcard (dr_manifests ?dr) (1, 2, 3)
      (mcw_fs (\<lparr>mcw_fs = ?fs, mcw_in_flight = [], mcw_net = demo_steam\<rparr>)) =
      (Ok (Some (manifest_of_cached demo_cached)), ?fs)"
    by (simp add: manifest_load_def fs_read_def next_fault_def Let_def depot_root_new_def
        manifest_cache_new_def manifest_path_def demo_postcard_def)
  from cached_open_is_offline [OF l, of demo_client std_env std_depot_api "''public''"] show ?thesis
    by (simp add: demo_steam_def get_lazy_def)
qed

end
