(* ===== verification/Reference_Env.thy ===== *)
theory Reference_Env
  imports Chunk_Cache
begin

text \<open>
  Concrete instances of what the model takes as parameters: an environment for the chunk cache
  and inner chunk stores.  They show that the promises can be kept, and the witnesses run on
  them.
\<close>

section \<open>A reference environment\<close>

text \<open>
  A concrete environment that keeps every promise of \<open>env_ok\<close>: compression that stores, a
  digest that keeps the first twenty bytes, hexadecimal names and a bounded recency list.  The
  witnesses run the code on it.
\<close>

type_synonym recency = "nat \<times> (chunk_hash \<times> bytes) list"

definition std_lru_get :: "chunk_hash \<Rightarrow> recency \<Rightarrow> bytes option \<times> recency" where
  "std_lru_get h l =
     (case map_of (snd l) h of
        None \<Rightarrow> (None, l)
      | Some b \<Rightarrow> (Some b, (fst l, (h, b) # filter (\<lambda>e. fst e \<noteq> h) (snd l))))"

definition std_lru_put :: "chunk_hash \<Rightarrow> bytes \<Rightarrow> recency \<Rightarrow> recency" where
  "std_lru_put h b l = (fst l, (h, b) # take (fst l - 1) (filter (\<lambda>e. fst e \<noteq> h) (snd l)))"

definition pad20 :: "bytes \<Rightarrow> bytes" where
  "pad20 b = take 20 (b @ replicate 20 0)"

definition std_env :: "recency chunk_env" where
  "std_env =
     \<lparr>ce_sha1 = pad20, ce_compress = Inr,
      ce_decompress = (\<lambda>c n. if length c \<le> n then Some c else None),
      ce_hex = (\<lambda>h. to_hex (hash_bytes h)),
      ce_lru_new = (\<lambda>n. (n, [])), ce_lru_get = std_lru_get, ce_lru_put = std_lru_put,
      ce_lru_map = (\<lambda>l. map_of (snd l)), ce_pid = 7\<rparr>"

lemma map_of_drop_key: "map_of (filter (\<lambda>e. fst e \<noteq> h) l) = (map_of l)(h := None)"
  by (induction l) auto

lemma map_of_take_le: "map_of (take n l) \<subseteq>\<^sub>m map_of l"
proof -
  have "map_of l = map_of (drop n l) ++ map_of (take n l)"
    by (metis append_take_drop_id map_of_append)
  then show ?thesis by simp
qed

lemma std_lru: "lru_ok std_env"
proof -
  have "map_of (snd (std_lru_put h b l)) \<subseteq>\<^sub>m (map_of (snd l))(h \<mapsto> b)" for h b l
    using map_of_take_le [of "fst l - 1" "filter (\<lambda>e. fst e \<noteq> h) (snd l)"]
    by (auto simp: std_lru_put_def map_of_drop_key map_le_def dom_def split: if_splits)
  then show ?thesis
    by (auto simp: lru_ok_def std_env_def std_lru_get_def map_of_drop_key std_lru_put_def
        split: option.split)
qed

lemma std_env_ok: "env_ok std_env"
  unfolding env_ok_def
proof (intro conjI allI)
  show "zstd_ok std_env" by (simp add: zstd_ok_def std_env_def)
  show "lru_ok std_env" by (rule std_lru)
  show "hex_ok std_env"
    by (auto simp: hex_ok_def std_env_def inj_def to_hex_inject to_hex_no_dot chunk_hash.expand)
  show "length (ce_sha1 std_env b) = 20" for b by (simp add: std_env_def pad20_def)
qed

text \<open>
  An inner store that serves a list of chunks from memory, and one that answers every request
  with the same bytes.
\<close>

definition mem_store :: "(chunk_hash \<times> bytes) list \<Rightarrow> nat chunk_store" where
  "mem_store cs =
     (let get = (\<lambda>h n. (case map_of cs h of
                          Some b \<Rightarrow> (Ok b, n + 1)
                        | None \<Rightarrow> (Err (VfsOther ''no such chunk''), n)))
      in \<lparr>cs_get = get, cs_ensure = default_ensure get\<rparr>)"

definition wrong_store :: "bytes \<Rightarrow> unit chunk_store" where
  "wrong_store b = \<lparr>cs_get = (\<lambda>h s. (Ok b, s)), cs_ensure = default_ensure (\<lambda>h s. (Ok b, s))\<rparr>"

definition demo_hash :: "bytes \<Rightarrow> chunk_hash" where
  "demo_hash b = ChunkHash (pad20 b)"

definition calm_fs :: fsys where
  "calm_fs = \<lparr>fs_files = Map.empty, fs_faults = []\<rparr>"

lemma cache_start_inv: "env_ok env \<Longrightarrow> fs_files fs = Map.empty \<Longrightarrow> cache_inv env dir A (cache_start env fs i)"
  by (simp add: cache_inv_def cache_start_def env_ok_def lru_ok_def)

lemma mem_store_inner:
  assumes "\<forall>(h, b) \<in> set cs. b = plain h \<and> length b < 2 ^ 64"
  shows "inner_ok env (\<lambda>h b. b = plain h) (\<lambda>_. True) (mem_store cs)"
  using assms by (auto simp: inner_ok_def mem_store_def Let_def dest!: map_of_SomeD split: option.splits)

end
