(* ===== verification/Single_Flight.thy ===== *)
theory Single_Flight
  imports Reference_Env
begin

text \<open>
  Tasks racing on the disk cache of \<open>chunk_store/cache.rs\<close>.  Every call of \<open>get\<close> or \<open>ensure\<close>
  is a task that does one step between two awaits; the table \<open>loading\<close> of weak per-chunk locks,
  the lock a task waits for and the temporary files are all there.  The properties: whatever the
  interleaving, the disk and the inner store do, no task is handed wrong bytes; on a disk that
  works a chunk is fetched once however many tasks want it; no interleaving gets stuck; and a
  task that runs alone does exactly what \<open>fs_cache_get\<close> and \<open>fs_cache_ensure\<close> of
  \<open>Chunk_Cache\<close> say.
\<close>

section \<open>Tasks\<close>

text \<open>
  Where a call of \<open>get\<close> or \<open>ensure\<close> stands between two awaits.  From \<open>Waiting\<close> on it holds an
  \<open>Arc\<close> of the chunk's lock, from \<open>Locked\<close> on the lock itself; both go when it returns.
\<close>

datatype flight_pc =
    Begin
  | Missed                               \<comment> \<open>the first look found nothing\<close>
  | Waiting nat
  | Locked nat                           \<comment> \<open>about to look again\<close>
  | Reading nat
  | Deleting nat                         \<comment> \<open>found a corrupt file\<close>
  | Fetching nat
  | Framed nat bytes bytes               \<comment> \<open>plaintext and frame\<close>
  | Creating nat bytes bytes path
  | Writing nat bytes bytes path
  | Renaming nat bytes bytes path
  | Storing nat bytes
  | Returned "(vfs_error, bytes option) outcome"

record flight_task =
  tk_get :: bool                         \<comment> \<open>\<open>get\<close>, or else \<open>ensure\<close>\<close>
  tk_sha :: chunk_hash
  tk_pc :: flight_pc

text \<open>
  What the tasks share: the world of the cache, the table of locks (weak: an entry says nothing
  once no task holds its lock), the next lock to be allocated, and a log of the inner fetches.
\<close>

record ('l, 'i) flight =
  fl_world :: "('l, 'i) cache_world"
  fl_loading :: "(chunk_hash \<times> nat) list"
  fl_next :: nat
  fl_tasks :: "flight_task list"
  fl_fetches :: "chunk_hash list"

fun lock_held :: "flight_pc \<Rightarrow> nat option" where
  "lock_held (Locked l) = Some l"
| "lock_held (Reading l) = Some l"
| "lock_held (Deleting l) = Some l"
| "lock_held (Fetching l) = Some l"
| "lock_held (Framed l b fr) = Some l"
| "lock_held (Creating l b fr tmp) = Some l"
| "lock_held (Writing l b fr tmp) = Some l"
| "lock_held (Renaming l b fr tmp) = Some l"
| "lock_held (Storing l b) = Some l"
| "lock_held _ = None"

fun lock_kept :: "flight_pc \<Rightarrow> nat option" where
  "lock_kept (Waiting l) = Some l"
| "lock_kept pc = lock_held pc"

definition lock_alive :: "flight_task list \<Rightarrow> nat \<Rightarrow> bool" where
  "lock_alive ts l = list_ex (\<lambda>t. lock_kept (tk_pc t) = Some l) ts"

definition lock_free :: "flight_task list \<Rightarrow> nat \<Rightarrow> bool" where
  "lock_free ts l = list_all (\<lambda>t. lock_held (tk_pc t) \<noteq> Some l) ts"

text \<open>\<open>chunk_lock\<close>: the lock others are interested in, or a new one.\<close>

definition chunk_lock :: "chunk_hash \<Rightarrow> ('l, 'i) flight \<Rightarrow> nat \<times> ('l, 'i) flight" where
  "chunk_lock sha s =
     (let new = (fl_next s, s\<lparr>fl_loading := (sha, fl_next s) # fl_loading s, fl_next := Suc (fl_next s)\<rparr>)
      in case map_of (fl_loading s) sha of
           Some l \<Rightarrow> if lock_alive (fl_tasks s) l then (l, s) else new
         | None \<Rightarrow> new)"

section \<open>Steps\<close>

text \<open>One step of a task on the world; waiting for the lock is not one of them.\<close>

fun world_step ::
  "'l chunk_env \<Rightarrow> chunk_dir \<Rightarrow> 'i chunk_store \<Rightarrow> bool \<Rightarrow> chunk_hash \<Rightarrow> flight_pc \<Rightarrow>
     ('l, 'i) cache_world \<Rightarrow> flight_pc \<times> ('l, 'i) cache_world" where
  "world_step env dir inner get sha Begin w =
     (if get then
        (case cache_hit env sha w of
           (Some b, w1) \<Rightarrow> (Returned (Ok (Some b)), w1)
         | (None, w1) \<Rightarrow> (Missed, w1))
      else
        (case exists_or_false (path_for env dir sha) w of
           (True, w1) \<Rightarrow> (Returned (Ok None), w1)
         | (False, w1) \<Rightarrow> (Missed, w1)))"
| "world_step env dir inner get sha (Locked l) w =
     (if get then
        (case cache_hit env sha w of
           (Some b, w1) \<Rightarrow> (Returned (Ok (Some b)), w1)
         | (None, w1) \<Rightarrow> (Reading l, w1))
      else
        (case exists_or_false (path_for env dir sha) w of
           (True, w1) \<Rightarrow> (Returned (Ok None), w1)
         | (False, w1) \<Rightarrow> (Fetching l, w1)))"
| "world_step env dir inner get sha (Reading l) w =
     (case fs_read (path_for env dir sha) (cw_fs w) of
        (Ok frame, fs1) \<Rightarrow>
          (case decode_frame env frame of
             None \<Rightarrow> (Deleting l, w\<lparr>cw_fs := fs1\<rparr>)
           | Some (claimed, plain) \<Rightarrow>
               if claimed \<noteq> sha then (Deleting l, w\<lparr>cw_fs := fs1\<rparr>)
               else (Storing l plain, w\<lparr>cw_fs := fs1\<rparr>))
      | (_, fs1) \<Rightarrow> (Fetching l, w\<lparr>cw_fs := fs1\<rparr>))"
| "world_step env dir inner get sha (Deleting l) w =
     (Fetching l, delete_corrupt (path_for env dir sha) w)"
| "world_step env dir inner get sha (Fetching l) w =
     (case cs_get inner sha (cw_inner w) of
        (Err e, i1) \<Rightarrow> (Returned (Err e), w\<lparr>cw_inner := i1\<rparr>)
      | (Panic, i1) \<Rightarrow> (Returned Panic, w\<lparr>cw_inner := i1\<rparr>)
      | (Ok b, i1) \<Rightarrow>
          (let digest = ce_sha1 env b
           in if digest \<noteq> hash_bytes sha then
                (Returned (Err (VfsOther ''fetched chunk does not hash to its name'')), w\<lparr>cw_inner := i1\<rparr>)
              else
                (case encode_frame_as env b digest of
                   Err e \<Rightarrow> (Returned (Err e), w\<lparr>cw_inner := i1\<rparr>)
                 | Panic \<Rightarrow> (Returned Panic, w\<lparr>cw_inner := i1\<rparr>)
                 | Ok frame \<Rightarrow> (Framed l b frame, w\<lparr>cw_inner := i1\<rparr>))))"
| "world_step env dir inner get sha (Framed l b frame) w =
     (case tmp_path env (path_for env dir sha) w of (tmp, w1) \<Rightarrow> (Creating l b frame tmp, w1))"
| "world_step env dir inner get sha (Creating l b frame tmp) w =
     (case fs_create tmp (cw_fs w) of
        (Ok _, fs1) \<Rightarrow> (Writing l b frame tmp, w\<lparr>cw_fs := fs1\<rparr>)
      | (Err e, fs1) \<Rightarrow> (Returned (Err (VfsIo e)), w\<lparr>cw_fs := fs1\<rparr>)
      | (Panic, fs1) \<Rightarrow> (Returned Panic, w\<lparr>cw_fs := fs1\<rparr>))"
| "world_step env dir inner get sha (Writing l b frame tmp) w =
     (case fs_write_all tmp frame (cw_fs w) of
        (Ok _, fs1) \<Rightarrow> (Renaming l b frame tmp, w\<lparr>cw_fs := fs1\<rparr>)
      | (Err e, fs1) \<Rightarrow> (Returned (Err (VfsIo e)), w\<lparr>cw_fs := fs1\<rparr>)
      | (Panic, fs1) \<Rightarrow> (Returned Panic, w\<lparr>cw_fs := fs1\<rparr>))"
| "world_step env dir inner get sha (Renaming l b frame tmp) w =
     (case fs_rename tmp (path_for env dir sha) (cw_fs w) of
        (Ok _, fs1) \<Rightarrow> (Storing l b, w\<lparr>cw_fs := fs1\<rparr>)
      | (Err e, fs1) \<Rightarrow> (Returned (Err (VfsIo e)), w\<lparr>cw_fs := fs1\<rparr>)
      | (Panic, fs1) \<Rightarrow> (Returned Panic, w\<lparr>cw_fs := fs1\<rparr>))"
| "world_step env dir inner get sha (Storing l b) w =
     (Returned (Ok (if get then Some b else None)), cache_decoded env sha b w)"
| "world_step env dir inner get sha pc w = (pc, w)"

text \<open>
  A step of task \<open>i\<close>: \<open>None\<close> when it has returned or must wait for the lock.
\<close>

definition step_task ::
  "'l chunk_env \<Rightarrow> chunk_dir \<Rightarrow> 'i chunk_store \<Rightarrow> nat \<Rightarrow> ('l, 'i) flight \<Rightarrow> ('l, 'i) flight option" where
  "step_task env dir inner i s =
     (case get_at (fl_tasks s) i of
        None \<Rightarrow> None
      | Some t \<Rightarrow>
          (case tk_pc t of
             Returned r \<Rightarrow> None
           | Missed \<Rightarrow>
               (case chunk_lock (tk_sha t) s of (l, s1) \<Rightarrow>
                  Some (s1\<lparr>fl_tasks := (fl_tasks s1)[i := t\<lparr>tk_pc := Waiting l\<rparr>]\<rparr>))
           | Waiting l \<Rightarrow>
               if lock_free (fl_tasks s) l
               then Some (s\<lparr>fl_tasks := (fl_tasks s)[i := t\<lparr>tk_pc := Locked l\<rparr>]\<rparr>)
               else None
           | pc \<Rightarrow>
               (case world_step env dir inner (tk_get t) (tk_sha t) pc (fl_world s) of (pc', w) \<Rightarrow>
                  Some (s\<lparr>fl_world := w, fl_tasks := (fl_tasks s)[i := t\<lparr>tk_pc := pc'\<rparr>],
                          fl_fetches := (case pc of Fetching _ \<Rightarrow> tk_sha t # fl_fetches s
                                         | _ \<Rightarrow> fl_fetches s)\<rparr>))))"

inductive flight_step ::
  "'l chunk_env \<Rightarrow> chunk_dir \<Rightarrow> 'i chunk_store \<Rightarrow> ('l, 'i) flight \<Rightarrow> ('l, 'i) flight \<Rightarrow> bool"
  for env dir inner where
  step: "step_task env dir inner i s = Some s' \<Longrightarrow> flight_step env dir inner s s'"

inductive flight_run ::
  "'l chunk_env \<Rightarrow> chunk_dir \<Rightarrow> 'i chunk_store \<Rightarrow> nat \<Rightarrow> ('l, 'i) flight \<Rightarrow> ('l, 'i) flight \<Rightarrow> bool"
  for env dir inner where
  start: "flight_run env dir inner 0 s s"
| more: "flight_run env dir inner n s s' \<Longrightarrow> flight_step env dir inner s' s'' \<Longrightarrow>
    flight_run env dir inner (Suc n) s s''"

inductive_cases flight_stepE: "flight_step env dir inner s s'"
inductive_cases flight_runE: "flight_run env dir inner n s s'"

definition flight_task_new :: "bool \<Rightarrow> chunk_hash \<Rightarrow> flight_task" where
  "flight_task_new get sha = \<lparr>tk_get = get, tk_sha = sha, tk_pc = Begin\<rparr>"

definition flight_start :: "('l, 'i) cache_world \<Rightarrow> (bool \<times> chunk_hash) list \<Rightarrow> ('l, 'i) flight" where
  "flight_start w calls =
     \<lparr>fl_world = w, fl_loading = [], fl_next = 0,
      fl_tasks = map (\<lambda>(get, sha). flight_task_new get sha) calls, fl_fetches = []\<rparr>"

section \<open>The shape of a step\<close>

fun pc_active :: "flight_pc \<Rightarrow> bool" where
  "pc_active Missed = False"
| "pc_active (Waiting l) = False"
| "pc_active (Returned r) = False"
| "pc_active _ = True"

definition log_fetch :: "flight_task \<Rightarrow> chunk_hash list \<Rightarrow> chunk_hash list" where
  "log_fetch t log = (case tk_pc t of Fetching _ \<Rightarrow> tk_sha t # log | _ \<Rightarrow> log)"

lemma step_task_active:
  "get_at (fl_tasks s) i = Some t \<Longrightarrow> pc_active (tk_pc t) \<Longrightarrow> step_task env dir inner i s =
     (case world_step env dir inner (tk_get t) (tk_sha t) (tk_pc t) (fl_world s) of (pc', w) \<Rightarrow>
        Some (s\<lparr>fl_world := w, fl_tasks := (fl_tasks s)[i := t\<lparr>tk_pc := pc'\<rparr>],
                fl_fetches := log_fetch t (fl_fetches s)\<rparr>))"
  by (cases "tk_pc t") (simp_all add: step_task_def log_fetch_def)

lemma step_task_cases:
  assumes "step_task env dir inner i s = Some s'"
  obtains (lock) t l s1 where "get_at (fl_tasks s) i = Some t" "tk_pc t = Missed"
      "chunk_lock (tk_sha t) s = (l, s1)" "s' = s1\<lparr>fl_tasks := (fl_tasks s1)[i := t\<lparr>tk_pc := Waiting l\<rparr>]\<rparr>"
  | (acquire) t l where "get_at (fl_tasks s) i = Some t" "tk_pc t = Waiting l" "lock_free (fl_tasks s) l"
      "s' = s\<lparr>fl_tasks := (fl_tasks s)[i := t\<lparr>tk_pc := Locked l\<rparr>]\<rparr>"
  | (work) t pc' w where "get_at (fl_tasks s) i = Some t" "pc_active (tk_pc t)"
      "world_step env dir inner (tk_get t) (tk_sha t) (tk_pc t) (fl_world s) = (pc', w)"
      "s' = s\<lparr>fl_world := w, fl_tasks := (fl_tasks s)[i := t\<lparr>tk_pc := pc'\<rparr>],
              fl_fetches := log_fetch t (fl_fetches s)\<rparr>"
proof -
  obtain t where t: "get_at (fl_tasks s) i = Some t"
    using assms by (auto simp: step_task_def split: option.splits)
  show ?thesis
  proof (cases "pc_active (tk_pc t)")
    case True
    obtain pc' w where "world_step env dir inner (tk_get t) (tk_sha t) (tk_pc t) (fl_world s) = (pc', w)"
      by fastforce
    with work [OF t True this] show ?thesis using assms step_task_active [OF t True] by simp
  next
    case False
    then show ?thesis using assms t lock acquire
      by (cases "tk_pc t") (auto simp: step_task_def split: prod.splits if_splits)
  qed
qed

lemma chunk_lock_simps:
  assumes "chunk_lock sha s = (l, s1)"
  shows "fl_world s1 = fl_world s" and "fl_tasks s1 = fl_tasks s" and "fl_fetches s1 = fl_fetches s"
  using assms by (auto simp: chunk_lock_def Let_def split: option.splits if_splits)

section \<open>Temporary files of racing tasks\<close>

fun pc_tmp :: "flight_pc \<Rightarrow> path option" where
  "pc_tmp (Creating l b fr tmp) = Some tmp"
| "pc_tmp (Writing l b fr tmp) = Some tmp"
| "pc_tmp (Renaming l b fr tmp) = Some tmp"
| "pc_tmp _ = None"

definition tmp_at :: "'l chunk_env \<Rightarrow> chunk_dir \<Rightarrow> chunk_hash \<Rightarrow> u64 \<Rightarrow> path" where
  "tmp_at env dir sha n = cd_root dir @ [tmp_name (ce_pid env) (ce_hex env sha) n]"

lemma first_split_inject:
  "c \<notin> set a \<Longrightarrow> c \<notin> set b \<Longrightarrow> a @ c # x = b @ c # y \<Longrightarrow> a = b"
proof (induction a arbitrary: b)
  case Nil
  then show ?case by (cases b) auto
next
  case (Cons z a)
  then show ?case by (cases b) auto
qed

lemma last_dot_inject:
  assumes "xs @ CHR ''.'' # d = ys @ CHR ''.'' # d'" and "CHR ''.'' \<notin> set d" and "CHR ''.'' \<notin> set d'"
  shows "d = d'"
proof -
  have "rev d @ CHR ''.'' # rev xs = rev d' @ CHR ''.'' # rev ys"
    using assms(1) by (metis append_Cons append_assoc append_Nil rev.simps(2) rev_append rev_rev_ident)
  then have "rev d = rev d'"
    by (rule first_split_inject [rotated 2]) (use assms(2,3) in simp_all)
  then show ?thesis by simp
qed

lemma tmp_at_inject: "tmp_at env dir h a = tmp_at env dir h' b \<Longrightarrow> a = b"
proof -
  assume "tmp_at env dir h a = tmp_at env dir h' b"
  then have "(ce_hex env h @ ''.tmp.'' @ dec_digits (ce_pid env)) @ CHR ''.'' # to_dec a =
      (ce_hex env h' @ ''.tmp.'' @ dec_digits (ce_pid env)) @ CHR ''.'' # to_dec b"
    by (simp add: tmp_at_def tmp_name_def)
  then have "to_dec a = to_dec b"
    by (rule last_dot_inject) (simp_all add: to_dec_no_dot)
  then show "a = b" by (simp add: to_dec_inject_u64)
qed

lemma tmp_at_not_chunk: "hex_ok env \<Longrightarrow> tmp_at env dir sha n \<noteq> path_for env dir h"
  using tmp_name_dot [of "ce_pid env" "ce_hex env sha" n]
  by (metis append1_eq_conv hex_ok_def path_for_def tmp_at_def)

lemma tmp_path_at: "tmp_path env (path_for env dir sha) w =
    (tmp_at env dir sha (cw_nonce w), w\<lparr>cw_nonce := cw_nonce w + 1\<rparr>)"
  by (simp add: tmp_path_def path_for_def tmp_at_def Let_def)

section \<open>Safety under races\<close>

text \<open>What a task may rely on at each point: the bytes in its hands are those of its chunk.\<close>

definition framed :: "'l chunk_env \<Rightarrow> chunk_hash \<Rightarrow> bytes \<Rightarrow> bytes \<Rightarrow> bool" where
  "framed env sha b fr \<longleftrightarrow> ce_sha1 env b = hash_bytes sha \<and>
     encode_frame_as env b (hash_bytes sha) = Ok fr \<and> length b < 2 ^ 64"

definition verified :: "'l chunk_env \<Rightarrow> chunk_hash \<Rightarrow> bytes \<Rightarrow> bool" where
  "verified env h b \<longleftrightarrow> ce_sha1 env b = hash_bytes h"

fun pc_ok :: "'l chunk_env \<Rightarrow> chunk_hash \<Rightarrow> flight_pc \<Rightarrow> (path \<rightharpoonup> bytes) \<Rightarrow> bool" where
  "pc_ok env sha (Framed l b fr) files = framed env sha b fr"
| "pc_ok env sha (Creating l b fr tmp) files = framed env sha b fr"
| "pc_ok env sha (Writing l b fr tmp) files = framed env sha b fr"
| "pc_ok env sha (Renaming l b fr tmp) files = (framed env sha b fr \<and> files tmp = Some fr)"
| "pc_ok env sha (Storing l b) files = verified env sha b"
| "pc_ok env sha (Returned r) files = (r \<noteq> Panic \<and> (\<forall>b. r = Ok (Some b) \<longrightarrow> verified env sha b))"
| "pc_ok env sha _ files = True"

definition small_answers :: "'i chunk_store \<Rightarrow> bool" where
  "small_answers inner \<longleftrightarrow> (\<forall>h i. fst (cs_get inner h i) \<noteq> Panic \<and>
     (\<forall>b. fst (cs_get inner h i) = Ok b \<longrightarrow> length b < 2 ^ 64))"

lemma pc_ok_files:
  "pc_ok env sha pc f \<Longrightarrow> (\<And>tmp. pc_tmp pc = Some tmp \<Longrightarrow> f' tmp = f tmp) \<Longrightarrow> pc_ok env sha pc f'"
  by (cases pc) auto

lemma framed_decodes:
  assumes "framed env sha b fr" and "env_ok env" and "decode_frame env fr = Some (sha, c)"
  shows "verified env sha c"
proof -
  have "length (hash_bytes sha) = 20" using assms(1,2) by (auto simp: framed_def env_ok_def) (metis)
  from decode_encode_as [OF _ _ this, of env b fr] assms show ?thesis
    by (auto simp: framed_def env_ok_def verified_def split: if_splits)
qed

text \<open>A step touches at most the chunk's own file and the task's own temporary file.\<close>

lemma world_step_files:
  assumes "world_step env dir inner get sha pc w = (pc', w')"
    and "q \<noteq> path_for env dir sha" and "pc_tmp pc \<noteq> Some q"
  shows "fs_files (cw_fs w') q = fs_files (cw_fs w) q"
proof (cases pc)
  case (Deleting l)
  then show ?thesis
    using assms fs_remove_files [of "path_for env dir sha" "cw_fs w" _ "snd (fs_remove_file (path_for env dir sha) (cw_fs w))"]
    by (auto simp: delete_corrupt_def) (metis fun_upd_other prod.collapse)
next
  case (Renaming l b fr tmp)
  then show ?thesis
    using assms fs_rename_files(2,3) [of tmp "path_for env dir sha" "cw_fs w"]
    by (auto split: prod.splits outcome.splits dest: fs_rename_files(1))
next
  case (Creating l b fr tmp)
  then show ?thesis
    using assms fs_create_files(1) [of tmp "cw_fs w" _ _ q] by (auto split: prod.splits outcome.splits)
next
  case (Writing l b fr tmp)
  then show ?thesis
    using assms fs_write_all_files(1) [of tmp fr "cw_fs w" _ _ q]
    by (auto split: prod.splits outcome.splits)
qed (use assms in \<open>auto simp: Let_def cache_decoded_def exists_or_false_def cache_hit_def tmp_path_def
      split: prod.splits option.splits if_splits outcome.splits bool.splits
      dest: fs_read_files fs_try_exists_files\<close>)

lemma world_step_nonce:
  assumes "world_step env dir inner get sha pc w = (pc', w')"
  shows "(\<exists>l b fr. pc = Framed l b fr \<and> cw_nonce w' = cw_nonce w + 1 \<and>
      pc_tmp pc' = Some (tmp_at env dir sha (cw_nonce w))) \<or>
    (cw_nonce w' = cw_nonce w \<and> (pc_tmp pc' = None \<or> pc_tmp pc' = pc_tmp pc))"
  using assms
  by (cases pc) (auto simp: Let_def cache_decoded_def exists_or_false_def cache_hit_def tmp_path_at
      delete_corrupt_def split: prod.splits option.splits if_splits outcome.splits bool.splits)

lemma fs_rename_missing: "fs_rename s d fs = (Ok u, fs') \<Longrightarrow> fs_files fs s \<noteq> None"
  by (auto simp: fs_rename_def split: prod.splits option.splits)

text \<open>
  The heart of the matter: a step keeps the cache's invariant and leaves the task with what it
  may rely on next.
\<close>

lemma world_step_safe:
  assumes st: "world_step env dir inner get sha pc w = (pc', w')"
    and env: "env_ok env" and inner: "small_answers inner"
    and inv: "cache_inv env dir (verified env) w"
    and ok: "pc_ok env sha pc (fs_files (cw_fs w))"
    and tmp: "\<And>tmp h. pc_tmp pc = Some tmp \<Longrightarrow> tmp \<noteq> path_for env dir h"
  shows "cache_inv env dir (verified env) w' \<and> pc_ok env sha pc' (fs_files (cw_fs w'))"
proof -
  have lru: "lru_ok env" and hex: "hex_ok env" using env by (simp_all add: env_ok_def)
  let ?p = "path_for env dir sha"
  have known: "verified env sha b" if "cache_hit env sha w = (Some b, w1)" for b w1
    using cache_hit_sound(1) [OF that lru] inv by (simp add: cache_inv_def)
  have hit: "cache_inv env dir (verified env) w1" if "cache_hit env sha w = (r, w1)" for r w1
    using cache_hit_sound(5) [OF that lru] inv by simp
  have ex: "cache_inv env dir (verified env) w1" if "exists_or_false ?p w = (x, w1)" for x w1
    using exists_or_false_inv(1) [OF that] inv by simp
  show ?thesis
  proof (cases pc)
    case (Reading l)
    obtain g fs1 where g: "fs_read ?p (cw_fs w) = (g, fs1)" by fastforce
    have "cache_inv env dir (verified env) (w\<lparr>cw_fs := fs1\<rparr>)"
      using inv fs_read_files [OF g] by (elim cache_inv_files) auto
    moreover have "verified env sha b" if "g = Ok fr" "decode_frame env fr = Some (sha, b)" for fr b
      using inv that fs_read_Ok g unfolding cache_inv_def by blast
    ultimately show ?thesis
      using st g Reading by (cases g) (auto split: option.splits if_splits)
  next
    case (Fetching l)
    obtain g i1 where g: "cs_get inner sha (cw_inner w) = (g, i1)" by fastforce
    have "g \<noteq> Panic" and "g = Ok b \<Longrightarrow> length b < 2 ^ 64" for b
      using inner g unfolding small_answers_def by (metis fst_conv)+
    then show ?thesis
      using st g Fetching inv encode_frame_as_no_panic
      by (cases g) (auto simp: Let_def cache_inv_def framed_def split: if_splits outcome.splits)
  next
    case (Creating l b fr t)
    obtain r f1 where r: "fs_create t (cw_fs w) = (r, f1)" by fastforce
    have "fs_files f1 (path_for env dir h) = fs_files (cw_fs w) (path_for env dir h)" for h
      using fs_create_files(1) [OF r] tmp Creating by (metis pc_tmp.simps(1))
    then have "cache_inv env dir (verified env) (w\<lparr>cw_fs := f1\<rparr>)"
      using inv by (elim cache_inv_files) auto
    then show ?thesis using st r Creating ok fs_create_files(2) [OF r]
      by (cases r) auto
  next
    case (Writing l b fr t)
    obtain r f1 where r: "fs_write_all t fr (cw_fs w) = (r, f1)" by fastforce
    have "fs_files f1 (path_for env dir h) = fs_files (cw_fs w) (path_for env dir h)" for h
      using fs_write_all_files(1) [OF r] tmp Writing by (metis pc_tmp.simps(2))
    then have "cache_inv env dir (verified env) (w\<lparr>cw_fs := f1\<rparr>)"
      using inv by (elim cache_inv_files) auto
    then show ?thesis using st r Writing ok fs_write_all_files(2,3) [OF r]
      by (cases r) auto
  next
    case (Renaming l b fr t)
    obtain r f1 where r: "fs_rename t ?p (cw_fs w) = (r, f1)" by fastforce
    have fr: "framed env sha b fr" "fs_files (cw_fs w) t = Some fr" using ok Renaming by auto
    have tn: "path_for env dir h \<noteq> t" for h using tmp Renaming by auto
    have "cache_inv env dir (verified env) (w\<lparr>cw_fs := f1\<rparr>)"
    proof (cases r)
      case (Ok u)
      then have f: "fs_files f1 = (fs_files (cw_fs w))(t := None, ?p \<mapsto> fr)"
        using fs_rename_files(2) [OF r] fr(2) by simp
      have "fs_files f1 (path_for env dir h) =
          (if h = sha then Some fr else fs_files (cw_fs w) (path_for env dir h))" for h
        using f tn [of h] path_for_inject [OF hex, of dir h sha] by auto
      then show ?thesis
        using inv framed_decodes [OF fr(1) env] unfolding cache_inv_def by (auto split: if_splits)
    next
      case (Err e)
      then show ?thesis using inv fs_rename_files(3) [OF r] by (elim cache_inv_files) auto
    qed (use fs_rename_files(1) [OF r] in simp)
    then show ?thesis using st r Renaming fr fs_rename_files(1) [OF r]
      by (cases r) (auto simp: framed_def verified_def)
  next
    case (Storing l b)
    then show ?thesis using st ok cache_decoded_inv [OF lru inv, of sha b] by auto
  next
    case (Framed l b fr)
    then show ?thesis using st ok inv by (auto simp: tmp_path_at cache_inv_def)
  next
    case (Deleting l)
    then show ?thesis using st delete_corrupt_inv [OF inv] by auto
  qed (use st ok inv in \<open>auto dest: known hit ex split: prod.splits option.splits if_splits bool.splits\<close>)
qed

text \<open>
  The invariant of the whole system after at most \<open>n\<close> steps: the counter of temporary names has
  been used at most \<open>n\<close> times, so that below \<open>2^64\<close> steps no two live temporary files share a
  name, and every task's place in the code is consistent with the disk.
\<close>

definition tmps_ok ::
  "'l chunk_env \<Rightarrow> chunk_dir \<Rightarrow> nat \<Rightarrow> flight_task list \<Rightarrow> bool" where
  "tmps_ok env dir k ts \<longleftrightarrow>
     (\<forall>i < length ts. \<forall>tmp. pc_tmp (tk_pc (ts ! i)) = Some tmp \<longrightarrow>
        (\<exists>j < k. tmp = tmp_at env dir (tk_sha (ts ! i)) (word_of_nat j))) \<and>
     (\<forall>i < length ts. \<forall>j < length ts. \<forall>tmp.
        i \<noteq> j \<and> pc_tmp (tk_pc (ts ! i)) = Some tmp \<longrightarrow> pc_tmp (tk_pc (ts ! j)) \<noteq> Some tmp)"

definition flight_safe ::
  "'l chunk_env \<Rightarrow> chunk_dir \<Rightarrow> nat \<Rightarrow> ('l, 'i) flight \<Rightarrow> bool" where
  "flight_safe env dir n s \<longleftrightarrow>
     cache_inv env dir (verified env) (fl_world s) \<and>
     (\<forall>i < length (fl_tasks s). pc_ok env (tk_sha (fl_tasks s ! i)) (tk_pc (fl_tasks s ! i))
        (fs_files (cw_fs (fl_world s)))) \<and>
     (\<exists>k \<le> n. cw_nonce (fl_world s) = word_of_nat k \<and> tmps_ok env dir k (fl_tasks s))"

lemma tmps_okI:
  assumes "tmps_ok env dir k ts" and "length ts' = length ts" and "k \<le> k'"
    and "\<And>j. j < length ts \<Longrightarrow> tk_sha (ts' ! j) = tk_sha (ts ! j)"
    and "\<And>j tmp. j < length ts \<Longrightarrow> pc_tmp (tk_pc (ts' ! j)) = Some tmp \<Longrightarrow>
      pc_tmp (tk_pc (ts ! j)) = Some tmp"
  shows "tmps_ok env dir k' ts'"
  unfolding tmps_ok_def assms(2)
proof (intro conjI allI impI)
  fix j tmp assume "j < length ts" "pc_tmp (tk_pc (ts' ! j)) = Some tmp"
  with assms(1,3-5) show "\<exists>m < k'. tmp = tmp_at env dir (tk_sha (ts' ! j)) (word_of_nat m)"
    unfolding tmps_ok_def by (metis order_less_le_trans)
next
  fix i j tmp assume "i < length ts" "j < length ts" "i \<noteq> j \<and> pc_tmp (tk_pc (ts' ! i)) = Some tmp"
  then show "pc_tmp (tk_pc (ts' ! j)) \<noteq> Some tmp"
    using assms(1,5) unfolding tmps_ok_def by blast
qed

lemma tmps_ok_same:
  assumes "tmps_ok env dir k ts" and "i < length ts"
    and "pc_tmp pc' = None \<or> pc_tmp pc' = pc_tmp (tk_pc (ts ! i))"
  shows "tmps_ok env dir k (ts[i := (ts ! i)\<lparr>tk_pc := pc'\<rparr>])"
  by (rule tmps_okI [OF assms(1)]) (use assms(2,3) in \<open>auto simp: nth_list_update split: if_splits\<close>)

lemma tmps_ok_new:
  assumes ts: "tmps_ok env dir k ts" and i: "i < length ts" and k: "k < 2 ^ 64"
    and pc': "pc_tmp pc' = Some (tmp_at env dir (tk_sha (ts ! i)) (word_of_nat k))"
  shows "tmps_ok env dir (Suc k) (ts[i := (ts ! i)\<lparr>tk_pc := pc'\<rparr>])"
proof -
  let ?new = "tmp_at env dir (tk_sha (ts ! i)) (word_of_nat k)" and ?ts = "ts[i := (ts ! i)\<lparr>tk_pc := pc'\<rparr>]"
  have old: "pc_tmp (tk_pc (ts ! j)) \<noteq> Some ?new" if "j < length ts" for j
  proof
    assume "pc_tmp (tk_pc (ts ! j)) = Some ?new"
    with ts that obtain m where m: "m < k" "?new = tmp_at env dir (tk_sha (ts ! j)) (word_of_nat m)"
      unfolding tmps_ok_def by blast
    then have "(word_of_nat k :: u64) = word_of_nat m" by (intro tmp_at_inject)
    then have "unat (word_of_nat k :: u64) = unat (word_of_nat m :: u64)" by simp
    then show False using m(1) k by (simp add: unat_of_nat)
  qed
  show ?thesis unfolding tmps_ok_def length_list_update
  proof (intro conjI allI impI)
    fix j tmp assume j: "j < length ts" "pc_tmp (tk_pc (?ts ! j)) = Some tmp"
    show "\<exists>m < Suc k. tmp = tmp_at env dir (tk_sha (?ts ! j)) (word_of_nat m)"
    proof (cases "j = i")
      case True
      then show ?thesis using j pc' i by auto
    next
      case False
      then show ?thesis using j ts unfolding tmps_ok_def by (metis less_Suc_eq nth_list_update_neq)
    qed
  next
    fix a b tmp
    assume ab: "a < length ts" "b < length ts" "a \<noteq> b \<and> pc_tmp (tk_pc (?ts ! a)) = Some tmp"
    have "pc_tmp (tk_pc (ts ! a)) = Some tmp \<Longrightarrow> pc_tmp (tk_pc (ts ! b)) \<noteq> Some tmp"
      using ts ab unfolding tmps_ok_def by blast
    then show "pc_tmp (tk_pc (?ts ! b)) \<noteq> Some tmp"
      using ab pc' i old [OF ab(1)] old [OF ab(2)] by (cases "a = i"; cases "b = i") auto
  qed
qed

lemma flight_safe_world:
  assumes "flight_safe env dir n s" and "fl_world s' = fl_world s" and "i < length (fl_tasks s)"
    and "fl_tasks s' = (fl_tasks s)[i := (fl_tasks s ! i)\<lparr>tk_pc := pc'\<rparr>]"
    and "pc' = Waiting l \<or> pc' = Locked l"
  shows "flight_safe env dir n s'"
  using assms tmps_ok_same [of env dir _ "fl_tasks s" i pc'] unfolding flight_safe_def
  by (auto simp: nth_list_update)

lemma flight_step_safe:
  assumes st: "flight_step env dir inner s s'" and env: "env_ok env" and inner: "small_answers inner"
    and safe: "flight_safe env dir n s" and n: "n < 2 ^ 64"
  shows "flight_safe env dir (Suc n) s'"
proof -
  from st obtain i where i: "step_task env dir inner i s = Some s'" by (rule flight_stepE)
  have mono: "flight_safe env dir (Suc n) s'" if "flight_safe env dir n s'"
    using that unfolding flight_safe_def by (meson le_SucI)
  from i show ?thesis
  proof (cases rule: step_task_cases)
    case (lock t l s1)
    then show ?thesis
      using flight_safe_world [OF safe, of s' i "Waiting l" l] chunk_lock_simps [OF lock(3)] mono
      by (auto simp: get_at_Some_iff)
  next
    case (acquire t l)
    then show ?thesis
      using flight_safe_world [OF safe, of s' i "Locked l" l] mono by (auto simp: get_at_Some_iff)
  next
    case (work t pc' w)
    let ?ts = "fl_tasks s"
    have it: "i < length ?ts" "?ts ! i = t" using work(1) by (auto simp: get_at_Some_iff)
    from safe obtain k where k: "k \<le> n" "cw_nonce (fl_world s) = word_of_nat k" "tmps_ok env dir k ?ts"
      unfolding flight_safe_def by blast
    have hex: "hex_ok env" using env by (simp add: env_ok_def)
    have tmp: "tmp \<noteq> path_for env dir h" if "j < length ?ts" "pc_tmp (tk_pc (?ts ! j)) = Some tmp" for tmp h j
    proof -
      from k(3) that obtain m where "tmp = tmp_at env dir (tk_sha (?ts ! j)) (word_of_nat m)"
        unfolding tmps_ok_def by blast
      then show ?thesis using tmp_at_not_chunk [OF hex] by simp
    qed
    have inv: "cache_inv env dir (verified env) (fl_world s)"
      and oks: "\<And>j. j < length ?ts \<Longrightarrow> pc_ok env (tk_sha (?ts ! j)) (tk_pc (?ts ! j)) (fs_files (cw_fs (fl_world s)))"
      using safe unfolding flight_safe_def by blast+
    have ok: "pc_ok env (tk_sha t) (tk_pc t) (fs_files (cw_fs (fl_world s)))" using oks it by blast
    have safe': "cache_inv env dir (verified env) w \<and> pc_ok env (tk_sha t) pc' (fs_files (cw_fs w))"
      using world_step_safe [OF work(3) env inner inv ok] tmp [OF it(1)] it(2) by auto
    have others: "pc_ok env (tk_sha (?ts ! j)) (tk_pc (?ts ! j)) (fs_files (cw_fs w))"
      if j: "j < length ?ts" "j \<noteq> i" for j
    proof (rule pc_ok_files [OF oks [OF j(1)]])
      fix q assume q: "pc_tmp (tk_pc (?ts ! j)) = Some q"
      have "pc_tmp (tk_pc t) \<noteq> Some q"
        using k(3) q j it unfolding tmps_ok_def by blast
      then show "fs_files (cw_fs w) q = fs_files (cw_fs (fl_world s)) q"
        using world_step_files [OF work(3) tmp [OF j(1) q]] by blast
    qed
    have "\<exists>k' \<le> Suc n. cw_nonce w = word_of_nat k' \<and> tmps_ok env dir k' (?ts[i := t\<lparr>tk_pc := pc'\<rparr>])"
      using world_step_nonce [OF work(3)]
    proof
      assume "\<exists>l b fr. tk_pc t = Framed l b fr \<and> cw_nonce w = cw_nonce (fl_world s) + 1 \<and>
        pc_tmp pc' = Some (tmp_at env dir (tk_sha t) (cw_nonce (fl_world s)))"
      then show ?thesis
        using tmps_ok_new [OF k(3) it(1), of pc'] it k(1,2) n
        by (intro exI [of _ "Suc k"]) (simp add: add.commute)
    next
      assume "cw_nonce w = cw_nonce (fl_world s) \<and> (pc_tmp pc' = None \<or> pc_tmp pc' = pc_tmp (tk_pc t))"
      then show ?thesis
        using tmps_ok_same [OF k(3) it(1), of pc'] it k(1,2)
        by (intro exI [of _ k]) simp
    qed
    then show ?thesis
      using safe' others it unfolding flight_safe_def work(4)
      by (auto simp: nth_list_update)
  qed
qed

lemma flight_run_safe:
  "flight_run env dir inner n s s' \<Longrightarrow> env_ok env \<Longrightarrow> small_answers inner \<Longrightarrow>
     flight_safe env dir 0 s \<Longrightarrow> n \<le> 2 ^ 64 \<Longrightarrow> flight_safe env dir n s'"
proof (induction rule: flight_run.induct)
  case (more n s s' s'')
  then show ?case using flight_step_safe [OF more.hyps(2)] by simp
qed simp

lemma flight_start_safe:
  "cache_inv env dir (verified env) w \<Longrightarrow> cw_nonce w = 0 \<Longrightarrow> flight_safe env dir 0 (flight_start w calls)"
  by (auto simp: flight_safe_def flight_start_def tmps_ok_def flight_task_new_def split: prod.splits)


section \<open>Properties\<close>

text \<open>
  C3: No race hands out wrong bytes.  However the steps of any number of \<open>get\<close> and \<open>ensure\<close>
  calls interleave, whatever fails on the disk and whatever the inner store answers: a call that
  has returned did not panic, and the bytes of a \<open>get\<close> hash to the name it asked for; every file
  published under a chunk's name that decodes to that name is verified too; no two tasks are
  writing the same temporary file.  The bound is the counter of temporary names, a \<open>u64\<close>.
\<close>

theorem racing_tasks_verified:
  assumes "env_ok env" and "small_answers inner"
    and "cache_inv env dir (verified env) w" and "cw_nonce w = 0"
    and "flight_run env dir inner n (flight_start w calls) s" and "n \<le> 2 ^ 64"
  shows "(\<forall>t \<in> set (fl_tasks s). \<forall>r. tk_pc t = Returned r \<longrightarrow>
      r \<noteq> Panic \<and> (\<forall>b. r = Ok (Some b) \<longrightarrow> ce_sha1 env b = hash_bytes (tk_sha t))) \<and>
    cache_inv env dir (verified env) (fl_world s) \<and>
    (\<forall>i < length (fl_tasks s). \<forall>j < length (fl_tasks s). \<forall>tmp. i \<noteq> j \<and>
      pc_tmp (tk_pc (fl_tasks s ! i)) = Some tmp \<longrightarrow> pc_tmp (tk_pc (fl_tasks s ! j)) \<noteq> Some tmp)"
proof -
  have safe: "flight_safe env dir n s"
    using flight_run_safe [OF assms(5,1,2) flight_start_safe [OF assms(3,4)] assms(6)] .
  have "r \<noteq> Panic \<and> (\<forall>b. r = Ok (Some b) \<longrightarrow> ce_sha1 env b = hash_bytes (tk_sha t))"
    if t: "t \<in> set (fl_tasks s)" "tk_pc t = Returned r" for t r
  proof -
    from t obtain i where "i < length (fl_tasks s)" "fl_tasks s ! i = t" by (auto simp: in_set_conv_nth)
    then have "pc_ok env (tk_sha t) (tk_pc t) (fs_files (cw_fs (fl_world s)))"
      using safe unfolding flight_safe_def by blast
    then show ?thesis using t(2) by (simp add: verified_def)
  qed
  then show ?thesis using safe unfolding flight_safe_def tmps_ok_def by blast
qed

section \<open>Locks\<close>

text \<open>
  The table of locks: a task that keeps a lock keeps the one the table has for its chunk, two
  chunks never share a lock, and a lock has one holder.
\<close>

definition locks_ok :: "(chunk_hash \<Rightarrow> nat option) \<Rightarrow> nat \<Rightarrow> flight_task list \<Rightarrow> bool" where
  "locks_ok loading next ts \<longleftrightarrow>
     (\<forall>h l. loading h = Some l \<longrightarrow> l < next) \<and>
     (\<forall>h h' l. loading h = Some l \<and> loading h' = Some l \<longrightarrow> h = h') \<and>
     (\<forall>i < length ts. \<forall>l. lock_kept (tk_pc (ts ! i)) = Some l \<longrightarrow> loading (tk_sha (ts ! i)) = Some l) \<and>
     (\<forall>i < length ts. \<forall>j < length ts. \<forall>l.
        lock_held (tk_pc (ts ! i)) = Some l \<and> lock_held (tk_pc (ts ! j)) = Some l \<longrightarrow> i = j)"

lemma lock_held_kept: "lock_held pc = Some l \<Longrightarrow> lock_kept pc = Some l"
  by (cases pc) auto

lemma locks_okD:
  assumes "locks_ok loading next ts"
  shows "loading h = Some l \<Longrightarrow> l < next"
    and "loading h = Some l \<Longrightarrow> loading h' = Some l \<Longrightarrow> h = h'"
    and "i < length ts \<Longrightarrow> lock_kept (tk_pc (ts ! i)) = Some l \<Longrightarrow> loading (tk_sha (ts ! i)) = Some l"
    and "i < length ts \<Longrightarrow> j < length ts \<Longrightarrow> lock_held (tk_pc (ts ! i)) = Some l \<Longrightarrow>
      lock_held (tk_pc (ts ! j)) = Some l \<Longrightarrow> i = j"
  using assms unfolding locks_ok_def by simp_all

lemma locks_ok_holder:
  assumes "locks_ok loading next ts" and "i < length ts" "j < length ts"
    and "lock_held (tk_pc (ts ! i)) = Some l" "lock_held (tk_pc (ts ! j)) = Some l'"
    and "tk_sha (ts ! i) = tk_sha (ts ! j)"
  shows "i = j"
proof -
  have "loading (tk_sha (ts ! i)) = Some l"
    by (rule locks_okD(3) [OF assms(1,2) lock_held_kept [OF assms(4)]])
  moreover have "loading (tk_sha (ts ! j)) = Some l'"
    by (rule locks_okD(3) [OF assms(1,3) lock_held_kept [OF assms(5)]])
  ultimately have "l = l'" using assms(6) by simp
  then show ?thesis using locks_okD(4) [OF assms(1-4)] assms(5) by simp
qed

lemma world_step_locks:
  assumes "world_step env dir inner get sha pc w = (pc', w')" and "pc_active pc"
  shows "lock_kept pc' = lock_held pc'" and "lock_held pc' = None \<or> lock_held pc' = lock_held pc"
proof -
  have "lock_kept pc' = lock_held pc' \<and> (lock_held pc' = None \<or> lock_held pc' = lock_held pc)"
  proof (cases pc)
    case Begin
    then show ?thesis using assms(1) by (auto split: prod.splits option.splits if_splits bool.splits)
  next
    case (Locked l)
    then show ?thesis using assms(1) by (auto split: prod.splits option.splits if_splits bool.splits)
  next
    case (Fetching l)
    then show ?thesis using assms(1)
      by (auto simp: Let_def split: prod.splits outcome.splits if_splits)
  qed (use assms in \<open>auto split: prod.splits option.splits if_splits outcome.splits\<close>)
  then show "lock_kept pc' = lock_held pc'" "lock_held pc' = None \<or> lock_held pc' = lock_held pc" by auto
qed

lemma locks_ok_update:
  assumes ok: "locks_ok loading next ts" and i: "i < length ts"
    and k: "lock_kept pc' = None \<or> lock_kept pc' = lock_kept (tk_pc (ts ! i))"
    and h: "lock_held pc' = None \<or> lock_held pc' = lock_held (tk_pc (ts ! i)) \<or>
      (\<exists>l. lock_held pc' = Some l \<and> lock_free ts l)"
  shows "locks_ok loading next (ts[i := (ts ! i)\<lparr>tk_pc := pc'\<rparr>])"
proof -
  let ?ts = "ts[i := (ts ! i)\<lparr>tk_pc := pc'\<rparr>]"
  have sha: "tk_sha (?ts ! j) = tk_sha (ts ! j)" if "j < length ts" for j
    using that by (cases "j = i") auto
  have kept: "lock_kept (tk_pc (?ts ! j)) = Some l \<Longrightarrow> lock_kept (tk_pc (ts ! j)) = Some l"
    if "j < length ts" for j l
    using that i k by (auto simp: nth_list_update split: if_splits)
  have held: "lock_held (tk_pc (?ts ! j)) = Some l \<Longrightarrow>
      lock_held (tk_pc (ts ! j)) = Some l \<or> (j = i \<and> lock_free ts l)" if "j < length ts" for j l
    using that i h by (auto simp: nth_list_update split: if_splits)
  have free: "lock_held (tk_pc (ts ! j)) \<noteq> Some l" if "lock_free ts l" "j < length ts" for j l
    using that by (simp add: lock_free_def list_all_length)
  show ?thesis
    unfolding locks_ok_def length_list_update
  proof (intro conjI allI impI)
    show "loading a = Some l \<Longrightarrow> l < next" for a l by (rule locks_okD(1) [OF ok])
    show "loading a = Some l \<and> loading a' = Some l \<Longrightarrow> a = a'" for a a' l
      using locks_okD(2) [OF ok] by blast
    show "loading (tk_sha (?ts ! j)) = Some l"
      if j: "j < length ts" "lock_kept (tk_pc (?ts ! j)) = Some l" for j l
      unfolding sha [OF j(1)] by (rule locks_okD(3) [OF ok j(1) kept [OF j]])
    show "a = b" if ab: "a < length ts" "b < length ts"
      "lock_held (tk_pc (?ts ! a)) = Some l \<and> lock_held (tk_pc (?ts ! b)) = Some l" for a b l
      using held [OF ab(1) conjunct1 [OF ab(3)]] held [OF ab(2) conjunct2 [OF ab(3)]]
        locks_okD(4) [OF ok ab(1,2)] free ab(1,2) by blast
  qed
qed

lemma chunk_lock_ok:
  assumes ok: "locks_ok (map_of (fl_loading s)) (fl_next s) (fl_tasks s)" and i: "i < length (fl_tasks s)"
    and pc: "tk_pc (fl_tasks s ! i) = Missed"
    and cl: "chunk_lock (tk_sha (fl_tasks s ! i)) s = (l, s1)"
  shows "locks_ok (map_of (fl_loading s1)) (fl_next s1) ((fl_tasks s)[i := (fl_tasks s ! i)\<lparr>tk_pc := Waiting l\<rparr>])"
proof -
  let ?ts = "fl_tasks s" let ?h = "tk_sha (?ts ! i)" let ?L = "map_of (fl_loading s)"
  have kept: "?L (tk_sha (?ts ! j)) = Some m" if "j < length ?ts" "lock_kept (tk_pc (?ts ! j)) = Some m" for j m
    using ok that unfolding locks_ok_def by blast
  show ?thesis
  proof (cases "\<exists>m. ?L ?h = Some m \<and> lock_alive ?ts m")
    case True
    then have l: "?L ?h = Some l" "s1 = s" using cl by (auto simp: chunk_lock_def Let_def split: if_splits)
    have "locks_ok ?L (fl_next s) (?ts[i := (?ts ! i)\<lparr>tk_pc := Waiting l\<rparr>])"
      using ok l(1) i unfolding locks_ok_def length_list_update
      by (auto simp: nth_list_update simp del: map_of_eq_Some_iff)
    then show ?thesis using l(2) by simp
  next
    case False
    then have l: "l = fl_next s" "map_of (fl_loading s1) = ?L(?h \<mapsto> l)" "fl_next s1 = Suc l"
      using cl by (auto simp: chunk_lock_def Let_def split: if_splits option.splits)
    have nokeep: "lock_kept (tk_pc (?ts ! j)) = None"
      if "j < length ?ts" "tk_sha (?ts ! j) = ?h" for j
    proof (rule ccontr)
      assume "lock_kept (tk_pc (?ts ! j)) \<noteq> None"
      then obtain m where m: "lock_kept (tk_pc (?ts ! j)) = Some m" by blast
      then have "lock_alive ?ts m" using that(1) by (auto simp: lock_alive_def list_ex_length)
      then show False using False kept [OF that(1) m] that(2) by auto
    qed
    have bound: "m < l" if "?L a = Some m" for a m using ok that l(1) unfolding locks_ok_def by blast
    have inj: "a = b" if "?L a = Some m" "?L b = Some m" for a b m using ok that unfolding locks_ok_def by blast
    show ?thesis unfolding locks_ok_def l(2,3) length_list_update
    proof (intro conjI allI impI)
      show "(?L(?h \<mapsto> l)) a = Some m \<Longrightarrow> m < Suc l" for a m
        using bound by (auto split: if_splits intro: less_SucI)
      show "(?L(?h \<mapsto> l)) a = Some m \<and> (?L(?h \<mapsto> l)) b = Some m \<Longrightarrow> a = b" for a b m
        using bound inj by (auto split: if_splits simp del: map_of_eq_Some_iff)
      show "(?L(?h \<mapsto> l)) (tk_sha (?ts[i := (?ts ! i)\<lparr>tk_pc := Waiting l\<rparr>] ! j)) = Some m"
        if j: "j < length ?ts" "lock_kept (tk_pc (?ts[i := (?ts ! i)\<lparr>tk_pc := Waiting l\<rparr>] ! j)) = Some m" for j m
        using j nokeep [OF j(1)] kept [OF j(1)] i by (cases "j = i") (auto simp: nth_list_update simp del: map_of_eq_Some_iff)
      show "a = b" if ab: "a < length ?ts" "b < length ?ts"
        "lock_held (tk_pc (?ts[i := (?ts ! i)\<lparr>tk_pc := Waiting l\<rparr>] ! a)) = Some m \<and>
         lock_held (tk_pc (?ts[i := (?ts ! i)\<lparr>tk_pc := Waiting l\<rparr>] ! b)) = Some m" for a b m
        using ab locks_okD(4) [OF ok ab(1,2)] by (cases "a = i"; cases "b = i") auto
    qed
  qed
qed

section \<open>A disk that works and a store that has the chunks\<close>

fun pc_framed :: "flight_pc \<Rightarrow> bool" where
  "pc_framed (Framed l b fr) = True"
| "pc_framed (Creating l b fr tmp) = True"
| "pc_framed (Writing l b fr tmp) = True"
| "pc_framed (Renaming l b fr tmp) = True"
| "pc_framed _ = False"

fun pc_fetching :: "flight_pc \<Rightarrow> bool" where
  "pc_fetching (Deleting l) = True"
| "pc_fetching (Fetching l) = True"
| "pc_fetching _ = False"

fun pc_plain :: "'l chunk_env \<Rightarrow> (chunk_hash \<Rightarrow> bytes) \<Rightarrow> bool \<Rightarrow> chunk_hash \<Rightarrow> flight_pc \<Rightarrow> bool" where
  "pc_plain env plain get sha (Framed l b fr) = (b = plain sha \<and> decode_frame env fr = Some (sha, b))"
| "pc_plain env plain get sha (Creating l b fr tmp) = (b = plain sha \<and> decode_frame env fr = Some (sha, b))"
| "pc_plain env plain get sha (Writing l b fr tmp) = (b = plain sha \<and> decode_frame env fr = Some (sha, b))"
| "pc_plain env plain get sha (Renaming l b fr tmp) = (b = plain sha \<and> decode_frame env fr = Some (sha, b))"
| "pc_plain env plain get sha (Storing l b) = (b = plain sha)"
| "pc_plain env plain get sha (Returned r) = (r = Ok (if get then Some (plain sha) else None))"
| "pc_plain env plain get sha _ = True"

definition chunk_on_disk ::
  "'l chunk_env \<Rightarrow> chunk_dir \<Rightarrow> (path \<rightharpoonup> bytes) \<Rightarrow> chunk_hash \<Rightarrow> bool" where
  "chunk_on_disk env dir files h \<longleftrightarrow>
     (\<exists>fr b. files (path_for env dir h) = Some fr \<and> decode_frame env fr = Some (h, b))"

definition all_small :: "(chunk_hash \<Rightarrow> bytes) \<Rightarrow> chunk_hash set \<Rightarrow> bool" where
  "all_small plain avail \<longleftrightarrow> (\<forall>h \<in> avail. length (plain h) \<le> MAX_PLAIN_LEN)"

lemma fs_quiet:
  assumes "fs_faults fs = []"
  shows "fs_read p fs = (ok_or (fs_files fs p) (OsError KNotFound), fs)"
    and "fs_try_exists p fs = (Ok (fs_files fs p \<noteq> None), fs)"
    and "fs_create p fs = (Ok (), fs\<lparr>fs_files := (fs_files fs)(p \<mapsto> [])\<rparr>)"
    and "fs_write_all p d fs = (Ok (), fs\<lparr>fs_files := (fs_files fs)(p \<mapsto> d)\<rparr>)"
    and "fs_files fs s = Some b \<Longrightarrow>
      fs_rename s p fs = (Ok (), fs\<lparr>fs_files := (fs_files fs)(s := None, p \<mapsto> b)\<rparr>)"
    and "fs_faults (snd (fs_remove_file p fs)) = []"
  using assms
  by (simp_all add: fs_read_def fs_try_exists_def fs_create_def fs_write_all_def fs_rename_def
      fs_remove_file_def next_fault_quiet split: option.split)

lemma cache_inv_inner: "cache_inv env dir A (w\<lparr>cw_inner := i\<rparr>) = cache_inv env dir A w"
  unfolding cache_inv_def by simp

lemma cache_inv_nonce: "cache_inv env dir A (w\<lparr>cw_nonce := n\<rparr>) = cache_inv env dir A w"
  unfolding cache_inv_def by simp

lemma cache_calmI:
  assumes "cache_calm env dir inner iinv plain avail w"
    and "cache_inv env dir (\<lambda>h b. b = plain h) w'" and "iinv (cw_inner w')" and "fs_faults (cw_fs w') = []"
  shows "cache_calm env dir inner iinv plain avail w'"
  using assms unfolding cache_calm_def cache_ready_def by blast

lemma cache_calmD:
  assumes "cache_calm env dir inner iinv plain avail w"
  shows "env_ok env" and "inner_ok env (\<lambda>h b. b = plain h) iinv inner"
    and "cache_inv env dir (\<lambda>h b. b = plain h) w" and "iinv (cw_inner w)"
    and "inner_has env iinv inner avail" and "fs_faults (cw_fs w) = []"
  using assms unfolding cache_calm_def cache_ready_def by blast+

lemma calm_files:
  assumes calm: "cache_calm env dir inner iinv plain avail w"
    and f: "\<And>h. f (path_for env dir h) = fs_files (cw_fs w) (path_for env dir h) \<or>
      (\<exists>fr b. f (path_for env dir h) = Some fr \<and> decode_frame env fr = Some (h, b) \<and> b = plain h)"
  shows "cache_calm env dir inner iinv plain avail (w\<lparr>cw_fs := (cw_fs w)\<lparr>fs_files := f\<rparr>\<rparr>)"
proof (rule cache_calmI [OF calm])
  note inv = cache_calmD(3) [OF calm]
  show "cache_inv env dir (\<lambda>h b. b = plain h) (w\<lparr>cw_fs := (cw_fs w)\<lparr>fs_files := f\<rparr>\<rparr>)"
    unfolding cache_inv_def
  proof (intro conjI allI impI)
    show "ce_lru_map env (cw_decoded (w\<lparr>cw_fs := (cw_fs w)\<lparr>fs_files := f\<rparr>\<rparr>)) h = Some b \<Longrightarrow> b = plain h" for h b
      using inv by (simp add: cache_inv_def)
    fix h fr b
    assume "fs_files (cw_fs (w\<lparr>cw_fs := (cw_fs w)\<lparr>fs_files := f\<rparr>\<rparr>)) (path_for env dir h) = Some fr \<and>
        decode_frame env fr = Some (h, b)"
    then have g: "f (path_for env dir h) = Some fr" "decode_frame env fr = Some (h, b)" by simp_all
    from f [of h] show "b = plain h"
    proof
      assume "f (path_for env dir h) = fs_files (cw_fs w) (path_for env dir h)"
      then show ?thesis using g inv unfolding cache_inv_def by (metis (no_types, lifting))
    qed (use g in auto)
  qed
qed (use cache_calmD [OF calm] in simp_all)

lemma calm_fetch:
  assumes calm: "cache_calm env dir inner iinv plain avail w" and small: "all_small plain avail"
    and h: "h \<in> avail"
  obtains i1 fr where "cs_get inner h (cw_inner w) = (Ok (plain h), i1)" "ce_sha1 env (plain h) = hash_bytes h"
    "encode_frame_as env (plain h) (hash_bytes h) = Ok fr" "decode_frame env fr = Some (h, plain h)"
    "cache_calm env dir inner iinv plain avail (w\<lparr>cw_inner := i1\<rparr>)"
proof -
  note d = cache_calmD [OF calm]
  obtain b i1 c where g: "cs_get inner h (cw_inner w) = (Ok b, i1)" "ce_sha1 env b = hash_bytes h"
    "ce_compress env b = Inr c" using d(4,5) h unfolding inner_has_def by metis
  have b: "b = plain h" "length b < 2 ^ 64" "iinv i1"
    using d(2,4) g(1,2) unfolding inner_ok_def by blast+
  let ?fr = "to_le_bytes (len64 b) @ hash_bytes h @ c"
  have e: "encode_frame_as env b (hash_bytes h) = Ok ?fr" by (simp add: encode_frame_as_def g(3))
  have "length (hash_bytes h) = 20" using d(1) g(2) by (auto simp: env_ok_def) (metis)
  moreover have "length b \<le> MAX_PLAIN_LEN" using small h b(1) by (simp add: all_small_def)
  ultimately have "decode_frame env ?fr = Some (h, b)"
    using decode_encode_as [OF e _ _ b(2)] d(1) by (simp add: env_ok_def)
  moreover have "cache_calm env dir inner iinv plain avail (w\<lparr>cw_inner := i1\<rparr>)"
    using d b(3) by (intro cache_calmI [OF calm]) (simp_all add: cache_inv_inner)
  ultimately show ?thesis using that g e b(1) by blast
qed

text \<open>
  One step on a disk that works: the world stays so, the task holds the chunk's bytes, a task
  goes for the chunk only when the disk has it not, and a chunk once framed ends on the disk.
\<close>

definition calm_step ::
  "'l chunk_env \<Rightarrow> chunk_dir \<Rightarrow> 'i chunk_store \<Rightarrow> ('i \<Rightarrow> bool) \<Rightarrow> (chunk_hash \<Rightarrow> bytes) \<Rightarrow> chunk_hash set \<Rightarrow>
     bool \<Rightarrow> chunk_hash \<Rightarrow> flight_pc \<Rightarrow> ('l, 'i) cache_world \<Rightarrow> flight_pc \<Rightarrow> ('l, 'i) cache_world \<Rightarrow> bool" where
  "calm_step env dir inner iinv plain avail get sha pc w pc' w' \<longleftrightarrow>
     cache_calm env dir inner iinv plain avail w' \<and> pc_plain env plain get sha pc' \<and>
     (pc_fetching pc' \<longrightarrow> (\<exists>l. pc = Deleting l) \<or>
        (lock_held pc \<noteq> None \<and> \<not> pc_framed pc \<and> \<not> (\<exists>l. pc = Fetching l) \<and>
         \<not> chunk_on_disk env dir (fs_files (cw_fs w)) sha)) \<and>
     ((\<exists>l. pc = Fetching l) \<longrightarrow> pc_framed pc') \<and>
     (pc_framed pc \<longrightarrow> pc_framed pc' \<or> chunk_on_disk env dir (fs_files (cw_fs w')) sha) \<and>
     (chunk_on_disk env dir (fs_files (cw_fs w)) sha \<longrightarrow> (\<exists>l. pc = Deleting l) \<or>
        chunk_on_disk env dir (fs_files (cw_fs w')) sha)"

lemma world_step_calm:
  assumes st: "world_step env dir inner get sha pc w = (pc', w')" and act: "pc_active pc"
    and calm: "cache_calm env dir inner iinv plain avail w" and small: "all_small plain avail"
    and sha: "sha \<in> avail" and pl: "pc_plain env plain get sha pc"
    and ok: "pc_ok env sha pc (fs_files (cw_fs w))"
    and tmp: "\<And>tmp h. pc_tmp pc = Some tmp \<Longrightarrow> tmp \<noteq> path_for env dir h"
  shows "calm_step env dir inner iinv plain avail get sha pc w pc' w'"
proof -
  note d = cache_calmD [OF calm]
  have lru: "lru_ok env" and hex: "hex_ok env" using d(1) by (simp_all add: env_ok_def)
  note q = fs_quiet [OF d(6)]
  let ?p = "path_for env dir sha"
  have hit: "cache_calm env dir inner iinv plain avail w1 \<and> cw_fs w1 = cw_fs w \<and> (\<forall>b. r = Some b \<longrightarrow> b = plain sha)"
    if "cache_hit env sha w = (r, w1)" for r w1
  proof -
    note h = cache_hit_sound [OF that lru]
    have "cache_calm env dir inner iinv plain avail w1"
      using d h by (intro cache_calmI [OF calm]) simp_all
    then show ?thesis using h(1,2) d(3) by (auto simp: cache_inv_def)
  qed
  have ex: "exists_or_false ?p w = (fs_files (cw_fs w) ?p \<noteq> None, w)"
    by (simp add: exists_or_false_def q)
  note [simp] = calm_step_def
  show ?thesis
  proof (cases pc)
    case Begin
    obtain r w1 where r: "cache_hit env sha w = (r, w1)" by fastforce
    show ?thesis using st Begin r hit [OF r] ex calm
      by (cases get; cases r; cases "fs_files (cw_fs w) ?p") auto
  next
    case (Locked l)
    obtain r w1 where r: "cache_hit env sha w = (r, w1)" by fastforce
    show ?thesis using st Locked r hit [OF r] ex calm
      by (cases get; cases r; cases "fs_files (cw_fs w) ?p") (auto simp: chunk_on_disk_def)
  next
    case (Reading l)
    have known: "b = plain sha" if "fs_files (cw_fs w) ?p = Some fr" "decode_frame env fr = Some (sha, b)" for fr b
      using d(3) that unfolding cache_inv_def by blast
    have w': "w' = w" using st Reading q(1)
      by (cases "fs_files (cw_fs w) ?p") (auto split: option.splits if_splits)
    then show ?thesis using st Reading q(1) calm known
      by (cases "fs_files (cw_fs w) ?p") (auto simp: chunk_on_disk_def split: option.splits if_splits)
  next
    case (Deleting l)
    have "cache_calm env dir inner iinv plain avail (delete_corrupt ?p w)"
      using d q(6) delete_corrupt_inv [OF d(3)] by (intro cache_calmI [OF calm]) (simp_all add: delete_corrupt_def)
    then show ?thesis using st Deleting by auto
  next
    case (Fetching l)
    from calm_fetch [OF calm small sha] obtain i1 fr where
      f: "cs_get inner sha (cw_inner w) = (Ok (plain sha), i1)" "ce_sha1 env (plain sha) = hash_bytes sha"
        "encode_frame_as env (plain sha) (hash_bytes sha) = Ok fr" "decode_frame env fr = Some (sha, plain sha)"
        "cache_calm env dir inner iinv plain avail (w\<lparr>cw_inner := i1\<rparr>)" .
    then show ?thesis using st Fetching by auto
  next
    case (Framed l b fr)
    have "cache_calm env dir inner iinv plain avail (w\<lparr>cw_nonce := n\<rparr>)" for n
      using d by (intro cache_calmI [OF calm]) (simp_all add: cache_inv_nonce)
    then show ?thesis using st Framed pl by (auto simp: tmp_path_at)
  next
    case (Creating l b fr t)
    have "cache_calm env dir inner iinv plain avail (w\<lparr>cw_fs := (cw_fs w)\<lparr>fs_files := (fs_files (cw_fs w))(t \<mapsto> [])\<rparr>\<rparr>)"
      using tmp [of t] Creating by (intro calm_files [OF calm]) auto
    then show ?thesis using st Creating pl q(3) tmp [of t sha] by (auto simp: chunk_on_disk_def)
  next
    case (Writing l b fr t)
    have "cache_calm env dir inner iinv plain avail (w\<lparr>cw_fs := (cw_fs w)\<lparr>fs_files := (fs_files (cw_fs w))(t \<mapsto> fr)\<rparr>\<rparr>)"
      using tmp [of t] Writing by (intro calm_files [OF calm]) auto
    then show ?thesis using st Writing pl q(4) tmp [of t sha] by (auto simp: chunk_on_disk_def)
  next
    case (Renaming l b fr t)
    have fr: "fs_files (cw_fs w) t = Some fr" "b = plain sha" "decode_frame env fr = Some (sha, b)"
      using ok pl Renaming by auto
    have tn: "path_for env dir h \<noteq> t" for h using tmp [of t h] Renaming by auto
    have "cache_calm env dir inner iinv plain avail (w\<lparr>cw_fs := (cw_fs w)\<lparr>fs_files :=
        (fs_files (cw_fs w))(t := None, ?p \<mapsto> fr)\<rparr>\<rparr>)"
      using tn fr path_for_inject [OF hex, of dir _ sha] by (intro calm_files [OF calm]) auto
    then show ?thesis using st Renaming fr q(5) [OF fr(1), of ?p] by (auto simp: chunk_on_disk_def)
  next
    case (Storing l b)
    have "cache_calm env dir inner iinv plain avail (cache_decoded env sha b w)"
      using d cache_decoded_inv [OF lru d(3), where h = sha and b = b] pl Storing
      by (intro cache_calmI [OF calm]) (simp_all add: cache_decoded_def)
    then show ?thesis using st Storing pl by (auto simp: cache_decoded_def)
  qed (use act in simp_all)
qed

definition fetches_ok :: "'l chunk_env \<Rightarrow> chunk_dir \<Rightarrow> ('l, 'i) flight \<Rightarrow> bool" where
  "fetches_ok env dir s \<longleftrightarrow>
     (\<forall>h. count_list (fl_fetches s) h \<le> 1 \<and>
        (count_list (fl_fetches s) h = 1 \<longrightarrow>
           chunk_on_disk env dir (fs_files (cw_fs (fl_world s))) h \<or>
           (\<exists>i < length (fl_tasks s). tk_sha (fl_tasks s ! i) = h \<and> pc_framed (tk_pc (fl_tasks s ! i))))) \<and>
     (\<forall>i < length (fl_tasks s). pc_fetching (tk_pc (fl_tasks s ! i)) \<longrightarrow>
        count_list (fl_fetches s) (tk_sha (fl_tasks s ! i)) = 0)"

definition flight_calm ::
  "'l chunk_env \<Rightarrow> chunk_dir \<Rightarrow> 'i chunk_store \<Rightarrow> ('i \<Rightarrow> bool) \<Rightarrow> (chunk_hash \<Rightarrow> bytes) \<Rightarrow> chunk_hash set \<Rightarrow>
     ('l, 'i) flight \<Rightarrow> bool" where
  "flight_calm env dir inner iinv plain avail s \<longleftrightarrow>
     cache_calm env dir inner iinv plain avail (fl_world s) \<and>
     locks_ok (map_of (fl_loading s)) (fl_next s) (fl_tasks s) \<and>
     (\<forall>i < length (fl_tasks s). tk_sha (fl_tasks s ! i) \<in> avail \<and>
        pc_plain env plain (tk_get (fl_tasks s ! i)) (tk_sha (fl_tasks s ! i)) (tk_pc (fl_tasks s ! i))) \<and>
     fetches_ok env dir s"

lemma flight_safe_tmp:
  assumes "flight_safe env dir n s" and "hex_ok env" and "i < length (fl_tasks s)"
    and "pc_tmp (tk_pc (fl_tasks s ! i)) = Some tmp"
  shows "tmp \<noteq> path_for env dir h"
proof -
  obtain k m where "tmp = tmp_at env dir (tk_sha (fl_tasks s ! i)) (word_of_nat m)"
    using assms unfolding flight_safe_def tmps_ok_def by blast
  then show ?thesis using tmp_at_not_chunk [OF assms(2)] by simp
qed

lemma pc_framed_held: "pc_framed pc \<Longrightarrow> lock_held pc \<noteq> None"
  by (cases pc) auto

lemma pc_fetching_held: "pc_fetching pc \<Longrightarrow> lock_held pc \<noteq> None"
  by (cases pc) auto

lemma flight_calm_wait:
  assumes c: "flight_calm env dir inner iinv plain avail s" and i: "i < length (fl_tasks s)"
    and s': "fl_world s' = fl_world s" "fl_fetches s' = fl_fetches s"
      "fl_tasks s' = (fl_tasks s)[i := (fl_tasks s ! i)\<lparr>tk_pc := pc'\<rparr>]"
    and pc: "\<not> pc_framed (tk_pc (fl_tasks s ! i))" "pc' = Waiting l \<or> pc' = Locked l"
    and locks: "locks_ok (map_of (fl_loading s')) (fl_next s') (fl_tasks s')"
  shows "flight_calm env dir inner iinv plain avail s'"
proof -
  have fr: "(\<exists>j < length (fl_tasks s'). tk_sha (fl_tasks s' ! j) = h \<and> pc_framed (tk_pc (fl_tasks s' ! j)))"
    if "\<exists>j < length (fl_tasks s). tk_sha (fl_tasks s ! j) = h \<and> pc_framed (tk_pc (fl_tasks s ! j))" for h
    using that pc(1) by (metis length_list_update nth_list_update_neq s'(3))
  have fo: "fetches_ok env dir s" using c unfolding flight_calm_def by blast
  have "fetches_ok env dir s'"
    unfolding fetches_ok_def s'(1,2)
  proof (intro conjI allI impI)
    fix h show "count_list (fl_fetches s) h \<le> 1" using fo unfolding fetches_ok_def by blast
    assume "count_list (fl_fetches s) h = 1"
    then show "chunk_on_disk env dir (fs_files (cw_fs (fl_world s))) h \<or>
        (\<exists>j < length (fl_tasks s'). tk_sha (fl_tasks s' ! j) = h \<and> pc_framed (tk_pc (fl_tasks s' ! j)))"
      using fo fr unfolding fetches_ok_def by blast
  next
    fix j assume j: "j < length (fl_tasks s')" "pc_fetching (tk_pc (fl_tasks s' ! j))"
    then have "j \<noteq> i" using i pc(2) by (auto simp: s'(3))
    then show "count_list (fl_fetches s) (tk_sha (fl_tasks s' ! j)) = 0"
      using j fo unfolding fetches_ok_def by (simp add: s'(3))
  qed
  moreover have "pc_plain env plain g h pc'" for g h using pc(2) by auto
  ultimately show ?thesis
    using c i locks unfolding flight_calm_def s'(1)
    by (auto simp: s'(3) nth_list_update)
qed

lemma flight_calm_work:
  assumes c: "flight_calm env dir inner iinv plain avail s" and safe: "flight_safe env dir n s"
    and small: "all_small plain avail"
    and i: "i < length (fl_tasks s)" and t: "t = fl_tasks s ! i" and act: "pc_active (tk_pc t)"
    and st: "world_step env dir inner (tk_get t) (tk_sha t) (tk_pc t) (fl_world s) = (pc', w)"
    and s': "s' = s\<lparr>fl_world := w, fl_tasks := (fl_tasks s)[i := t\<lparr>tk_pc := pc'\<rparr>],
              fl_fetches := log_fetch t (fl_fetches s)\<rparr>"
  shows "flight_calm env dir inner iinv plain avail s'"
proof -
  let ?ts = "fl_tasks s" let ?h = "tk_sha t" let ?pc = "tk_pc t"
  let ?on = "\<lambda>w h. chunk_on_disk env dir (fs_files (cw_fs w)) h"
  have calm: "cache_calm env dir inner iinv plain avail (fl_world s)"
    and locks: "locks_ok (map_of (fl_loading s)) (fl_next s) ?ts"
    and task: "\<And>j. j < length ?ts \<Longrightarrow> tk_sha (?ts ! j) \<in> avail \<and>
        pc_plain env plain (tk_get (?ts ! j)) (tk_sha (?ts ! j)) (tk_pc (?ts ! j))"
    and fo: "fetches_ok env dir s"
    using c unfolding flight_calm_def by blast+
  have one: "\<And>h. count_list (fl_fetches s) h \<le> 1"
    and got: "\<And>h. count_list (fl_fetches s) h = 1 \<Longrightarrow> ?on (fl_world s) h \<or>
           (\<exists>j < length ?ts. tk_sha (?ts ! j) = h \<and> pc_framed (tk_pc (?ts ! j)))"
    and none: "\<And>j. j < length ?ts \<Longrightarrow> pc_fetching (tk_pc (?ts ! j)) \<Longrightarrow>
        count_list (fl_fetches s) (tk_sha (?ts ! j)) = 0"
    using fo unfolding fetches_ok_def by blast+
  have hex: "hex_ok env" using cache_calmD(1) [OF calm] by (simp add: env_ok_def)
  have tmp: "tmp \<noteq> path_for env dir h" if "pc_tmp ?pc = Some tmp" for tmp h
    using flight_safe_tmp [OF safe hex i] that t by simp
  have ok: "pc_ok env ?h ?pc (fs_files (cw_fs (fl_world s)))"
    using safe i t unfolding flight_safe_def by blast
  have step: "calm_step env dir inner iinv plain avail (tk_get t) ?h ?pc (fl_world s) pc' w"
    using world_step_calm [OF st act calm small _ _ ok tmp] task [OF i] t by blast
  have held: "lock_kept pc' = lock_held pc'" "lock_held pc' = None \<or> lock_held pc' = lock_held ?pc"
    using world_step_locks [OF st act] by auto
  have kept: "lock_kept ?pc = lock_held ?pc" using act by (cases ?pc) auto
  have locks': "locks_ok (map_of (fl_loading s)) (fl_next s) (?ts[i := t\<lparr>tk_pc := pc'\<rparr>])"
    using locks_ok_update [OF locks i, of pc'] held kept t by auto
  have rival: "j = i" if "j < length ?ts" "tk_sha (?ts ! j) = ?h" "lock_held (tk_pc (?ts ! j)) \<noteq> None"
      "lock_held ?pc \<noteq> None" for j
    using locks_ok_holder [OF locks that(1) i] that t by auto
  have other: "?on w h = ?on (fl_world s) h" if "h \<noteq> ?h" for h
  proof -
    have "path_for env dir h \<noteq> path_for env dir ?h" using path_for_inject [OF hex] that by blast
    then have "fs_files (cw_fs w) (path_for env dir h) = fs_files (cw_fs (fl_world s)) (path_for env dir h)"
      using world_step_files [OF st] tmp by blast
    then show ?thesis by (simp add: chunk_on_disk_def)
  qed
  let ?c = "count_list (fl_fetches s)" and ?c' = "count_list (log_fetch t (fl_fetches s))"
  have cnt: "?c' h = (if h = ?h \<and> (\<exists>l. ?pc = Fetching l) then Suc (?c h) else ?c h)" for h
    by (cases ?pc) (auto simp: log_fetch_def)
  have zero: "?c ?h = 0" if "\<exists>l. ?pc = Fetching l" using none [OF i] that t by auto
  have one': "?c' h \<le> 1" for h using cnt [of h] one [of h] zero by auto
  have got': "?on w h \<or> (\<exists>j < length ?ts. tk_sha (?ts[i := t\<lparr>tk_pc := pc'\<rparr>] ! j) = h \<and>
      pc_framed (tk_pc (?ts[i := t\<lparr>tk_pc := pc'\<rparr>] ! j)))" if c1: "?c' h = 1" for h
  proof (cases "h = ?h \<and> (\<exists>l. ?pc = Fetching l)")
    case True
    then show ?thesis using step i unfolding calm_step_def by (metis flight_task.select_convs(2,3)
      flight_task.surjective flight_task.update_convs(3) nth_list_update_eq)
  next
    case False
    then have c1': "?c h = 1" using c1 cnt by auto
    from got [OF c1'] show ?thesis
    proof
      assume on: "?on (fl_world s) h"
      show ?thesis
      proof (cases "h = ?h")
        case True
        have "\<not> (\<exists>l. ?pc = Deleting l)" using none [OF i] c1' True t by auto
        then show ?thesis using step on True unfolding calm_step_def by blast
      qed (use other on in blast)
    next
      assume "\<exists>j < length ?ts. tk_sha (?ts ! j) = h \<and> pc_framed (tk_pc (?ts ! j))"
      then obtain j where j: "j < length ?ts" "tk_sha (?ts ! j) = h" "pc_framed (tk_pc (?ts ! j))" by blast
      show ?thesis
      proof (cases "j = i")
        case True
        then have "pc_framed pc' \<or> ?on w h" using step j t unfolding calm_step_def by blast
        then show ?thesis using j True t by auto
      next
        case False
        then show ?thesis using j by auto
      qed
    qed
  qed
  have none': "?c' (tk_sha (?ts ! j)) = 0"
    if j: "j < length ?ts" "pc_fetching (tk_pc (?ts[i := t\<lparr>tk_pc := pc'\<rparr>] ! j))" for j
  proof (cases "j = i")
    case True
    then have "pc_fetching pc'" using j i by simp
    then consider (del) l where "?pc = Deleting l"
      | (miss) "lock_held ?pc \<noteq> None" "\<not> pc_framed ?pc" "\<not> (\<exists>l. ?pc = Fetching l)" "\<not> ?on (fl_world s) ?h"
      using step unfolding calm_step_def by blast
    then show ?thesis
    proof cases
      case del
      then show ?thesis using none [OF i] cnt True t by auto
    next
      case miss
      have "?c ?h \<noteq> 1"
      proof
        assume "?c ?h = 1"
        then obtain k where k: "k < length ?ts" "tk_sha (?ts ! k) = ?h" "pc_framed (tk_pc (?ts ! k))"
          using got miss(4) by blast
        then have "k = i" using rival pc_framed_held miss(1) by blast
        then show False using k(3) miss(2) t by simp
      qed
      then have "?c ?h = 0" using one [of ?h] by linarith
      then show ?thesis using cnt miss(3) True t by auto
    qed
  next
    case False
    then have f: "pc_fetching (tk_pc (?ts ! j))" using j by simp
    have "\<not> (tk_sha (?ts ! j) = ?h \<and> (\<exists>l. ?pc = Fetching l))"
      using rival [OF j(1)] pc_fetching_held [OF f] False by auto
    then show ?thesis using none [OF j(1) f] cnt by auto
  qed
  have sha': "tk_sha (?ts[i := t\<lparr>tk_pc := pc'\<rparr>] ! j) = tk_sha (?ts ! j)" if "j < length ?ts" for j
    using that t by (cases "j = i") auto
  have "fetches_ok env dir s'"
    unfolding fetches_ok_def s'
    using one' got' none' sha' by (simp del: One_nat_def)
  moreover have "cache_calm env dir inner iinv plain avail w" "pc_plain env plain (tk_get t) ?h pc'"
    using step unfolding calm_step_def by blast+
  ultimately show ?thesis
    using locks' task t i unfolding flight_calm_def s' by (auto simp: nth_list_update)
qed

lemma flight_step_calm:
  assumes st: "flight_step env dir inner s s'" and c: "flight_calm env dir inner iinv plain avail s"
    and safe: "flight_safe env dir n s" and small: "all_small plain avail"
  shows "flight_calm env dir inner iinv plain avail s'"
proof -
  have locks: "locks_ok (map_of (fl_loading s)) (fl_next s) (fl_tasks s)"
    using c unfolding flight_calm_def by blast
  from st obtain i where "step_task env dir inner i s = Some s'" by (rule flight_stepE)
  then show ?thesis
  proof (cases rule: step_task_cases)
    case (lock t l s1)
    then have i: "i < length (fl_tasks s)" "fl_tasks s ! i = t" by (auto simp: get_at_Some_iff)
    show ?thesis
      using flight_calm_wait [OF c i(1), of s' "Waiting l" l] chunk_lock_simps [OF lock(3)] lock(2,4) i(2)
        chunk_lock_ok [OF locks i(1), of l s1] lock(3) by simp
  next
    case (acquire t l)
    then have i: "i < length (fl_tasks s)" "fl_tasks s ! i = t" by (auto simp: get_at_Some_iff)
    show ?thesis
      using flight_calm_wait [OF c i(1), of s' "Locked l" l] acquire(2-4) i(2)
        locks_ok_update [OF locks i(1), of "Locked l"] by simp
  next
    case (work t pc' w)
    then show ?thesis
      using flight_calm_work [OF c safe small, of i t pc' w s'] by (auto simp: get_at_Some_iff)
  qed
qed

lemma cache_calm_verified:
  assumes "cache_calm env dir inner iinv plain avail w"
    and "\<forall>h b. b = plain h \<longrightarrow> verified env h b"
  shows "cache_inv env dir (verified env) w"
  using cache_calmD(3) [OF assms(1)] assms(2) unfolding cache_inv_def by blast

lemma flight_run_calm:
  "flight_run env dir inner n s s' \<Longrightarrow> env_ok env \<Longrightarrow> small_answers inner \<Longrightarrow> all_small plain avail \<Longrightarrow>
     flight_safe env dir 0 s \<Longrightarrow> flight_calm env dir inner iinv plain avail s \<Longrightarrow> n \<le> 2 ^ 64 \<Longrightarrow>
     flight_calm env dir inner iinv plain avail s'"
proof (induction rule: flight_run.induct)
  case (more n s s' s'')
  have "flight_safe env dir n s'"
    using flight_run_safe [OF more.hyps(1) more.prems(1,2,4)] more.prems(6) by simp
  then show ?case using flight_step_calm [OF more.hyps(2)] more.IH more.prems by simp
qed simp

lemma flight_start_calm:
  assumes "cache_calm env dir inner iinv plain avail w" and "snd ` set calls \<subseteq> avail"
  shows "flight_calm env dir inner iinv plain avail (flight_start w calls)"
  using assms
  by (auto simp: flight_calm_def flight_start_def fetches_ok_def locks_ok_def flight_task_new_def
      split: prod.splits dest!: nth_mem)

text \<open>Every step brings its task nearer to the end, and only a lock in use can keep one waiting.\<close>

fun pc_rank :: "flight_pc \<Rightarrow> nat" where
  "pc_rank Begin = 12"
| "pc_rank Missed = 11"
| "pc_rank (Waiting l) = 10"
| "pc_rank (Locked l) = 9"
| "pc_rank (Reading l) = 8"
| "pc_rank (Deleting l) = 7"
| "pc_rank (Fetching l) = 6"
| "pc_rank (Framed l b fr) = 5"
| "pc_rank (Creating l b fr tmp) = 4"
| "pc_rank (Writing l b fr tmp) = 3"
| "pc_rank (Renaming l b fr tmp) = 2"
| "pc_rank (Storing l b) = 1"
| "pc_rank (Returned r) = 0"

definition flight_rank :: "flight_task list \<Rightarrow> nat" where
  "flight_rank ts = sum_list (map (pc_rank \<circ> tk_pc) ts)"

lemma world_step_rank:
  assumes "world_step env dir inner get sha pc w = (pc', w')" and "pc_active pc"
  shows "pc_rank pc' < pc_rank pc"
proof (cases pc)
  case Begin
  then show ?thesis using assms(1) by (auto split: prod.splits option.splits if_splits bool.splits)
next
  case (Locked l)
  then show ?thesis using assms(1) by (auto split: prod.splits option.splits if_splits bool.splits)
next
  case (Fetching l)
  then show ?thesis using assms(1) by (auto simp: Let_def split: prod.splits outcome.splits if_splits)
qed (use assms in \<open>auto split: prod.splits option.splits if_splits outcome.splits\<close>)

lemma flight_rank_update:
  assumes "i < length ts" and "pc_rank pc' < pc_rank (tk_pc (ts ! i))"
  shows "flight_rank (ts[i := (ts ! i)\<lparr>tk_pc := pc'\<rparr>]) < flight_rank ts"
proof -
  let ?r = "map (pc_rank \<circ> tk_pc)"
  have "flight_rank ts = sum_list (?r (take i ts)) + (pc_rank (tk_pc (ts ! i)) + sum_list (?r (drop (Suc i) ts)))"
    unfolding flight_rank_def by (subst id_take_nth_drop [OF assms(1)]) simp
  moreover have "flight_rank (ts[i := (ts ! i)\<lparr>tk_pc := pc'\<rparr>]) =
      sum_list (?r (take i ts)) + (pc_rank pc' + sum_list (?r (drop (Suc i) ts)))"
    unfolding flight_rank_def upd_conv_take_nth_drop [OF assms(1)] by simp
  ultimately show ?thesis using assms(2) by simp
qed

lemma flight_step_rank: "flight_step env dir inner s s' \<Longrightarrow> flight_rank (fl_tasks s') < flight_rank (fl_tasks s)"
proof (erule flight_stepE)
  fix i assume "step_task env dir inner i s = Some s'"
  then show ?thesis
  proof (cases rule: step_task_cases)
    case (lock t l s1)
    then show ?thesis using flight_rank_update [of i "fl_tasks s" "Waiting l"] chunk_lock_simps(2) [OF lock(3)]
      by (auto simp: get_at_Some_iff)
  next
    case (acquire t l)
    then show ?thesis using flight_rank_update [of i "fl_tasks s" "Locked l"] by (auto simp: get_at_Some_iff)
  next
    case (work t pc' w)
    then show ?thesis using flight_rank_update [of i "fl_tasks s" pc'] world_step_rank [OF work(3,2)]
      by (auto simp: get_at_Some_iff)
  qed
qed

lemma flight_run_rank:
  "flight_run env dir inner n s s' \<Longrightarrow> n + flight_rank (fl_tasks s') \<le> flight_rank (fl_tasks s)"
proof (induction rule: flight_run.induct)
  case (more n s s' s'')
  then show ?case using flight_step_rank [OF more.hyps(2)] by simp
qed simp

lemma flight_start_rank: "flight_rank (fl_tasks (flight_start w calls)) = 12 * length calls"
  by (induction calls) (auto simp: flight_rank_def flight_start_def flight_task_new_def)

fun pc_returned :: "flight_pc \<Rightarrow> bool" where
  "pc_returned (Returned r) = True"
| "pc_returned _ = False"

definition all_returned :: "flight_task list \<Rightarrow> bool" where
  "all_returned ts = list_all (\<lambda>t. pc_returned (tk_pc t)) ts"

lemma flight_not_stuck:
  assumes "\<not> all_returned (fl_tasks s)"
  shows "\<exists>s'. flight_step env dir inner s s'"
proof -
  let ?ts = "fl_tasks s"
  have go: "\<exists>s'. flight_step env dir inner s s'"
    if "i < length ?ts" "pc_active (tk_pc (?ts ! i))" for i
    using step_task_active [of s i "?ts ! i" env dir inner] that
    by (auto simp: get_at_Some_iff split: prod.splits intro: flight_step.intros)
  from assms obtain i where i: "i < length ?ts" "\<not> pc_returned (tk_pc (?ts ! i))"
    by (auto simp: all_returned_def list_all_length)
  show ?thesis
  proof (cases "pc_active (tk_pc (?ts ! i))")
    case False
    then consider (missed) "tk_pc (?ts ! i) = Missed" | (waiting) l where "tk_pc (?ts ! i) = Waiting l"
      using i(2) by (cases "tk_pc (?ts ! i)") auto
    then show ?thesis
    proof cases
      case missed
      have "\<exists>s'. step_task env dir inner i s = Some s'"
        using missed i(1) by (auto simp: step_task_def get_at_def split: prod.splits)
      then show ?thesis by (auto intro: flight_step.intros)
    next
      case (waiting l)
      show ?thesis
      proof (cases "lock_free ?ts l")
        case True
        then have "\<exists>s'. step_task env dir inner i s = Some s'"
          using waiting i(1) by (auto simp: step_task_def get_at_def)
        then show ?thesis by (auto intro: flight_step.intros)
      next
        case False
        then obtain j where j: "j < length ?ts" "lock_held (tk_pc (?ts ! j)) = Some l"
          by (auto simp: lock_free_def list_all_length)
        then have "pc_active (tk_pc (?ts ! j))" by (cases "tk_pc (?ts ! j)") auto
        then show ?thesis using go j(1) by blast
      qed
    qed
  qed (use go i(1) in blast)
qed

section \<open>A task alone\<close>

fun run_alone ::
  "'l chunk_env \<Rightarrow> chunk_dir \<Rightarrow> 'i chunk_store \<Rightarrow> nat \<Rightarrow> ('l, 'i) flight \<Rightarrow> ('l, 'i) flight" where
  "run_alone env dir inner 0 s = s"
| "run_alone env dir inner (Suc k) s =
     (case step_task env dir inner 0 s of None \<Rightarrow> s | Some s' \<Rightarrow> run_alone env dir inner k s')"

definition solo_view :: "('l, 'i) flight \<Rightarrow> flight_pc list \<times> ('l, 'i) cache_world" where
  "solo_view s = (map tk_pc (fl_tasks s), fl_world s)"

definition solo ::
  "bool \<Rightarrow> chunk_hash \<Rightarrow> (chunk_hash \<times> nat) list \<Rightarrow> nat \<Rightarrow> chunk_hash list \<Rightarrow> flight_pc \<Rightarrow>
     ('l, 'i) cache_world \<Rightarrow> ('l, 'i) flight" where
  "solo get sha ld nx log pc w =
     \<lparr>fl_world = w, fl_loading = ld, fl_next = nx,
      fl_tasks = [\<lparr>tk_get = get, tk_sha = sha, tk_pc = pc\<rparr>], fl_fetches = log\<rparr>"

text \<open>What is left to do from a place in the code, as the sequential functions say it.\<close>

definition alone_from ::
  "'l chunk_env \<Rightarrow> chunk_dir \<Rightarrow> 'i chunk_store \<Rightarrow> bool \<Rightarrow> chunk_hash \<Rightarrow> nat \<Rightarrow> flight_pc \<Rightarrow>
     ('l, 'i) cache_world \<Rightarrow> (vfs_error, bytes option) outcome \<times> ('l, 'i) cache_world \<Rightarrow> bool" where
  "alone_from env dir inner get sha k pc w res \<longleftrightarrow>
     (\<forall>ld nx log. solo_view (run_alone env dir inner k (solo get sha ld nx log pc w)) =
        ([Returned (fst res)], snd res))"

lemma alone_done: "alone_from env dir inner get sha k (Returned r) w (r, w)"
  by (cases k) (simp_all add: alone_from_def solo_view_def solo_def step_task_def get_at_def)

lemma alone_active:
  assumes "pc_active pc" and "world_step env dir inner get sha pc w = (pc', w')"
    and "alone_from env dir inner get sha k pc' w' res"
  shows "alone_from env dir inner get sha (Suc k) pc w res"
  unfolding alone_from_def
proof (intro allI)
  fix ld nx log
  have "step_task env dir inner 0 (solo get sha ld nx log pc w) =
      Some (solo get sha ld nx (log_fetch \<lparr>tk_get = get, tk_sha = sha, tk_pc = pc\<rparr> log) pc' w')"
    using step_task_active [of "solo get sha ld nx log pc w" 0] assms(1,2)
    by (simp add: solo_def get_at_def)
  then show "solo_view (run_alone env dir inner (Suc k) (solo get sha ld nx log pc w)) = ([Returned (fst res)], snd res)"
    using assms(3) by (simp add: alone_from_def)
qed

lemma alone_lock:
  assumes "\<And>l. alone_from env dir inner get sha k (Locked l) w res"
  shows "alone_from env dir inner get sha (Suc (Suc k)) Missed w res"
  unfolding alone_from_def
proof (intro allI)
  fix ld nx log
  obtain l s1 where l: "chunk_lock sha (solo get sha ld nx log Missed w) = (l, s1)" by fastforce
  then obtain ld' nx' where s1: "s1 = solo get sha ld' nx' log Missed w"
    by (auto simp: chunk_lock_def Let_def solo_def split: option.splits if_splits)
  have "step_task env dir inner 0 (solo get sha ld nx log Missed w) = Some (solo get sha ld' nx' log (Waiting l) w)"
    using l s1 by (simp add: step_task_def get_at_def solo_def)
  moreover have "step_task env dir inner 0 (solo get sha ld' nx' log (Waiting l) w) =
      Some (solo get sha ld' nx' log (Locked l) w)"
    by (simp add: step_task_def get_at_def solo_def lock_free_def)
  ultimately show "solo_view (run_alone env dir inner (Suc (Suc k)) (solo get sha ld nx log Missed w)) =
      ([Returned (fst res)], snd res)"
    using assms [of l] by (simp add: alone_from_def)
qed

lemma alone_more:
  "alone_from env dir inner get sha k pc w res \<Longrightarrow> alone_from env dir inner get sha (Suc k) pc w res"
proof -
  have "step_task env dir inner 0 s = None \<Longrightarrow> run_alone env dir inner (Suc k) s = s" for k s by simp
  moreover have "run_alone env dir inner (Suc k) s = run_alone env dir inner k s"
    if "solo_view (run_alone env dir inner k s) = ([Returned r], w')" for k s r w'
    using that
  proof (induction k arbitrary: s)
    case 0
    then have "step_task env dir inner 0 s = None"
      by (auto simp: solo_view_def step_task_def get_at_def)
    then show ?case by simp
  next
    case (Suc k)
    show ?case
    proof (cases "step_task env dir inner 0 s")
      case (Some s')
      have "run_alone env dir inner (Suc k) s' = run_alone env dir inner k s'"
        using Suc.IH [of s'] Suc.prems Some by simp
      then show ?thesis using Some by simp
    qed simp
  qed
  ultimately show "alone_from env dir inner get sha k pc w res \<Longrightarrow> alone_from env dir inner get sha (Suc k) pc w res"
    unfolding alone_from_def by metis
qed

lemma alone_le: "alone_from env dir inner get sha k pc w res \<Longrightarrow> k \<le> m \<Longrightarrow> alone_from env dir inner get sha m pc w res"
  by (induction m) (auto simp: le_Suc_eq intro: alone_more)

definition as_result :: "bool \<Rightarrow> (vfs_error, bytes) outcome \<Rightarrow> (vfs_error, bytes option) outcome" where
  "as_result get r = omap (\<lambda>b. if get then Some b else None) r"

lemma alone_write:
  assumes "write_atomic env (path_for env dir sha) fr w = (q, w2)"
  shows "alone_from env dir inner get sha 5 (Framed l b fr) w
    (case q of Ok _ \<Rightarrow> (Ok (if get then Some b else None), cache_decoded env sha b w2)
       | Err e \<Rightarrow> (Err e, w2) | Panic \<Rightarrow> (Panic, w2))"
proof -
  let ?p = "path_for env dir sha"
  obtain tmp w1 where t: "tmp_path env ?p w = (tmp, w1)" by fastforce
  obtain rc f2 where c: "fs_create tmp (cw_fs w1) = (rc, f2)" by fastforce
  obtain rw f3 where wr: "fs_write_all tmp fr f2 = (rw, f3)" by fastforce
  obtain rr f4 where rn: "fs_rename tmp ?p f3 = (rr, f4)" by fastforce
  let ?res = "(case q of Ok _ \<Rightarrow> (Ok (if get then Some b else None), cache_decoded env sha b w2)
       | Err e \<Rightarrow> (Err e, w2) | Panic \<Rightarrow> (Panic, w2))"
  have st: "alone_from env dir inner get sha 1 (Storing l b) w' (Ok (if get then Some b else None), cache_decoded env sha b w')" for w'
    unfolding One_nat_def by (rule alone_active [OF _ _ alone_done]) simp_all
  note [simp] = write_atomic_def
  have rename: "alone_from env dir inner get sha (Suc 1) (Renaming l b fr tmp) (w1\<lparr>cw_fs := f3\<rparr>) ?res"
    if "rc = Ok ()" "rw = Ok ()"
  proof (cases rr)
    case (Ok u)
    then show ?thesis using rn that assms t c wr st [of "w1\<lparr>cw_fs := f4\<rparr>"]
      by (intro alone_active [where pc = "Renaming l b fr tmp" and pc' = "Storing l b" and w' = "w1\<lparr>cw_fs := f4\<rparr>"]) auto
  next
    case (Err e)
    then show ?thesis using rn that assms t c wr alone_done
      by (intro alone_active [where pc = "Renaming l b fr tmp" and pc' = "Returned (Err (VfsIo e))" and w' = "w1\<lparr>cw_fs := f4\<rparr>"]) auto
  qed (use fs_rename_files(1) [OF rn] in simp)
  have wrote: "alone_from env dir inner get sha (Suc (Suc 1)) (Writing l b fr tmp) (w1\<lparr>cw_fs := f2\<rparr>) ?res"
    if "rc = Ok ()"
  proof (cases rw)
    case (Ok u)
    then show ?thesis using wr that rename
      by (intro alone_active [where pc = "Writing l b fr tmp" and pc' = "Renaming l b fr tmp" and w' = "w1\<lparr>cw_fs := f3\<rparr>"]) simp_all
  next
    case (Err e)
    then show ?thesis using wr that assms t c alone_done
      by (intro alone_active [where pc = "Writing l b fr tmp" and pc' = "Returned (Err (VfsIo e))" and w' = "w1\<lparr>cw_fs := f3\<rparr>"]) auto
  qed (use fs_write_all_files(2) [OF wr] in simp)
  have create: "alone_from env dir inner get sha (Suc (Suc (Suc 1))) (Creating l b fr tmp) w1 ?res"
  proof (cases rc)
    case (Ok u)
    then show ?thesis using c wrote
      by (intro alone_active [where pc = "Creating l b fr tmp" and pc' = "Writing l b fr tmp" and w' = "w1\<lparr>cw_fs := f2\<rparr>"]) simp_all
  next
    case (Err e)
    then show ?thesis using assms t c alone_done
      by (intro alone_active [where pc = "Creating l b fr tmp" and pc' = "Returned (Err (VfsIo e))" and w' = "w1\<lparr>cw_fs := f2\<rparr>"]) auto
  qed (use fs_create_files(2) [OF c] in simp)
  have "alone_from env dir inner get sha (Suc (Suc (Suc (Suc 1)))) (Framed l b fr) w ?res"
    using t create by (intro alone_active [where pc = "Framed l b fr" and pc' = "Creating l b fr tmp" and w' = w1]) simp_all
  then show ?thesis by (simp add: eval_nat_numeral)
qed

lemma alone_fetch:
  "alone_from env dir inner get sha 6 (Fetching l) w
     (case fetch_and_persist env inner sha (path_for env dir sha) w of (r, w') \<Rightarrow> (as_result get r, w'))"
proof -
  let ?p = "path_for env dir sha"
  let ?res = "case fetch_and_persist env inner sha ?p w of (r, w') \<Rightarrow> (as_result get r, w')"
  obtain g i1 where g: "cs_get inner sha (cw_inner w) = (g, i1)" by fastforce
  obtain pc' w' where st: "world_step env dir inner get sha (Fetching l) w = (pc', w')" by fastforce
  have "alone_from env dir inner get sha 5 pc' w' ?res"
  proof (cases "\<exists>b fr. g = Ok b \<and> ce_sha1 env b = hash_bytes sha \<and> encode_frame_as env b (hash_bytes sha) = Ok fr")
    case True
    then obtain b fr where b: "g = Ok b" "ce_sha1 env b = hash_bytes sha"
      "encode_frame_as env b (hash_bytes sha) = Ok fr" by blast
    obtain q w2 where q: "write_atomic env ?p fr (w\<lparr>cw_inner := i1\<rparr>) = (q, w2)" by fastforce
    show ?thesis using alone_write [OF q, of inner get l b] st g b q
      by (cases q) (simp_all add: fetch_and_persist_def as_result_def Let_def)
  next
    case False
    then have "pc' = Returned (fst ?res) \<and> w' = snd ?res"
      using st g by (cases g) (auto simp: fetch_and_persist_def as_result_def Let_def split: outcome.splits if_splits)
    then show ?thesis using alone_done [of env dir inner get sha 5 "fst ?res" "snd ?res"] by simp
  qed
  then have "alone_from env dir inner get sha (Suc 5) (Fetching l) w ?res"
    using st by (intro alone_active) simp_all
  then show ?thesis by simp
qed

lemma alone_read:
  "alone_from env dir inner True sha 8 (Reading l) w
     (case read_verified env sha (path_for env dir sha) w of
        (Some b, w') \<Rightarrow> (Ok (Some b), cache_decoded env sha b w')
      | (None, w') \<Rightarrow> (case fetch_and_persist env inner sha (path_for env dir sha) w' of (r, w'') \<Rightarrow> (as_result True r, w'')))"
    (is "alone_from _ _ _ _ _ _ _ _ ?res")
proof -
  let ?p = "path_for env dir sha"
  obtain g fs1 where g: "fs_read ?p (cw_fs w) = (g, fs1)" by fastforce
  let ?w1 = "w\<lparr>cw_fs := fs1\<rparr>"
  obtain pc' w' where st: "world_step env dir inner True sha (Reading l) w = (pc', w')" by fastforce
  have fetch: "alone_from env dir inner True sha 7 (Fetching l) w1
      (case fetch_and_persist env inner sha ?p w1 of (r, w'') \<Rightarrow> (as_result True r, w''))" for w1
    by (rule alone_le [OF alone_fetch]) simp
  have del: "alone_from env dir inner True sha 7 (Deleting l) w1
      (case fetch_and_persist env inner sha ?p (delete_corrupt ?p w1) of (r, w'') \<Rightarrow> (as_result True r, w''))" for w1
  proof -
    have "alone_from env dir inner True sha (Suc 6) (Deleting l) w1
      (case fetch_and_persist env inner sha ?p (delete_corrupt ?p w1) of (r, w'') \<Rightarrow> (as_result True r, w''))"
      by (rule alone_active [OF _ _ alone_fetch]) simp_all
    then show ?thesis by simp
  qed
  have store: "alone_from env dir inner True sha 7 (Storing l b) w1 (Ok (Some b), cache_decoded env sha b w1)" for b w1
  proof -
    have "alone_from env dir inner True sha (Suc 6) (Storing l b) w1 (Ok (Some b), cache_decoded env sha b w1)"
      by (rule alone_active [OF _ _ alone_done]) simp_all
    then show ?thesis by simp
  qed
  have "alone_from env dir inner True sha 7 pc' w' ?res"
    using st g fetch [of ?w1] del [of ?w1] store [of _ ?w1]
    by (cases g) (auto simp: read_verified_def Let_def split: option.splits if_splits)
  then have "alone_from env dir inner True sha (Suc 7) (Reading l) w ?res"
    using st by (intro alone_active) simp_all
  then show ?thesis by simp
qed

lemma alone_get:
  "alone_from env dir inner True sha 12 Begin w
     (case fs_cache_get env dir inner sha w of (r, w') \<Rightarrow> (as_result True r, w'))" (is "alone_from _ _ _ _ _ _ _ _ ?res")
proof -
  obtain a w1 where a: "cache_hit env sha w = (a, w1)" by fastforce
  obtain b w2 where b: "cache_hit env sha w1 = (b, w2)" by fastforce
  show ?thesis
  proof (cases a)
    case (Some x)
    then have "alone_from env dir inner True sha (Suc 11) Begin w ?res"
      using a alone_done by (intro alone_active [where pc = Begin]) (auto simp: fs_cache_get_def as_result_def)
    then show ?thesis by simp
  next
    case None
    have "alone_from env dir inner True sha (Suc 8) (Locked l) w1 ?res" for l
    proof (cases b)
      case (Some x)
      then show ?thesis using a b None alone_done
        by (intro alone_active [where pc = "Locked l"]) (auto simp: fs_cache_get_def as_result_def Let_def)
    next
      case bn: None
      then have "?res = (case read_verified env sha (path_for env dir sha) w2 of
        (Some b, w') \<Rightarrow> (Ok (Some b), cache_decoded env sha b w')
      | (None, w') \<Rightarrow> (case fetch_and_persist env inner sha (path_for env dir sha) w' of (r, w'') \<Rightarrow> (as_result True r, w'')))"
        using a b None by (simp add: fs_cache_get_def as_result_def Let_def split: prod.split option.split)
      then show ?thesis using alone_read [of env dir inner sha l w2] b bn
        by (intro alone_active [where pc = "Locked l" and pc' = "Reading l" and w' = w2]) simp_all
    qed
    then have "alone_from env dir inner True sha (Suc (Suc 9)) Missed w1 ?res"
      by (intro alone_lock) simp
    then have "alone_from env dir inner True sha (Suc 11) Begin w ?res"
      using a None by (intro alone_active [where pc = Begin and pc' = Missed and w' = w1]) simp_all
    then show ?thesis by simp
  qed
qed

lemma alone_ensure:
  "alone_from env dir inner False sha 12 Begin w
     (case fs_cache_ensure env dir inner sha w of (r, w') \<Rightarrow> (omap (\<lambda>_. None) r, w'))" (is "alone_from _ _ _ _ _ _ _ _ ?res")
proof -
  let ?p = "path_for env dir sha"
  obtain a w1 where a: "exists_or_false ?p w = (a, w1)" by fastforce
  obtain b w2 where b: "exists_or_false ?p w1 = (b, w2)" by fastforce
  show ?thesis
  proof (cases a)
    case True
    then have "alone_from env dir inner False sha (Suc 11) Begin w ?res"
      using a alone_done by (intro alone_active [where pc = Begin]) (auto simp: fs_cache_ensure_def)
    then show ?thesis by simp
  next
    case False
    have "alone_from env dir inner False sha (Suc 8) (Locked l) w1 ?res" for l
    proof (cases b)
      case True
      then show ?thesis using a b False alone_done
        by (intro alone_active [where pc = "Locked l"]) (auto simp: fs_cache_ensure_def Let_def)
    next
      case bf: False
      obtain r w3 where f: "fetch_and_persist env inner sha ?p w2 = (r, w3)" by fastforce
      have "?res = (as_result False r, w3)"
        using a b False bf f by (cases r) (simp_all add: fs_cache_ensure_def as_result_def Let_def)
      then show ?thesis using alone_le [OF alone_fetch [of env dir inner False sha l w2], of 8] b bf f
        by (intro alone_active [where pc = "Locked l" and pc' = "Fetching l" and w' = w2]) simp_all
    qed
    then have "alone_from env dir inner False sha (Suc (Suc 9)) Missed w1 ?res"
      by (intro alone_lock) simp
    then have "alone_from env dir inner False sha (Suc 11) Begin w ?res"
      using a False by (intro alone_active [where pc = Begin and pc' = Missed and w' = w1]) simp_all
    then show ?thesis by simp
  qed
qed

end
