(* ===== verification/Cached_Read.thy ===== *)
theory Cached_Read
  imports Depot_Read Reference_Env
begin

text \<open>
  The depot store over the disk cache, as \<open>DepotStore\<close> puts the two together: what a read of a
  file returns.  The laws of the cache reach the read through the interpretations
  \<open>cached\<close> and \<open>cached_full\<close> of \<open>Chunk_Cache\<close>.
\<close>

definition file_ok :: "(chunk_hash \<Rightarrow> bytes) \<Rightarrow> depot_api \<Rightarrow> depot_file \<Rightarrow> bool" where
  "file_ok plain api f \<longleftrightarrow>
     api_is_file api f \<and> tiles 0 (api_chunks api f) (unat (f_size f)) \<and>
     sizes_ok plain (api_chunks api f)"

lemma file_index:
  assumes "wf_files (m_files m)" and "f \<in> set (m_files m)"
  obtains i where "fst (build_index (m_files m)) (strip_leading_slash (f_path f)) = Some i"
    and "f = m_files m ! i"
proof -
  from assms(2) obtain i where i: "i < length (m_files m)" "m_files m ! i = f"
    by (auto simp: in_set_conv_nth)
  moreover have "strip_leading_slash (f_path f) = f_path f"
    using assms by (intro wf_path_no_lead) (auto simp: wf_files_def list_all_iff)
  moreover have "fst (build_index (m_files m)) (f_path f) = Some i"
    using i assms(1) by (simp add: wf_files_def by_path_distinct)
  ultimately show ?thesis using i(2) by (intro that [of i]) simp_all
qed

lemma sub_slice_bounds: "sub_slice b i j = Some x \<Longrightarrow> i \<le> j \<and> j \<le> length b \<and> length x = j - i"
  by (auto simp: sub_slice_def split: if_splits)

lemma read_chunks_length:
  assumes "tiles a cs b" and "b < 2 ^ 64" and "unat offset \<le> unat stop" and "unat stop \<le> b"
    and "read_chunks get p offset stop cs out s = (Ok u, out', s')"
  shows "length out' = length out + (unat stop - max (unat offset) a)"
  using assms(1,5)
proof (induction cs arbitrary: a out s)
  case Nil
  then show ?case using assms(4) by simp
next
  case (Cons c cs)
  have e: "unat (c_offset c + ucast (c_size_uncompressed c)) = a + csize c"
    using chunk_end_unat [OF Cons.prems(1) assms(2)] .
  have a: "coff c = a" and t: "tiles (a + csize c) cs b" using Cons.prems(1) by auto
  consider "a + csize c \<le> unat offset" | "unat offset < a + csize c" "unat stop \<le> a"
    | "unat offset < a + csize c" "a < unat stop" by linarith
  then show ?case
  proof cases
    case 1
    then have "c_offset c + ucast (c_size_uncompressed c) \<le> offset" by (simp add: word_le_nat_alt e)
    moreover have "max (unat offset) (a + csize c) = max (unat offset) a" using 1 by simp
    ultimately show ?thesis using Cons.IH [OF t, of out s] Cons.prems(2) by (simp add: Let_def)
  next
    case 2
    then show ?thesis using Cons.prems(2) a e by (auto simp: word_le_nat_alt Let_def)
  next
    case 3
    then have no: "\<not> c_offset c + ucast (c_size_uncompressed c) \<le> offset" "\<not> stop \<le> c_offset c"
      by (simp_all add: word_le_nat_alt e a)
    obtain bs s1 x where "get (c_sha c) s = (Ok bs, s1)"
      and sl: "sub_slice bs (unat (saturating_sub offset (c_offset c)))
          (unat (min stop (c_offset c + ucast (c_size_uncompressed c)) - c_offset c)) = Some x"
      and rest: "read_chunks get p offset stop cs (out @ x) s1 = (Ok u, out', s')"
      using Cons.prems(2) no by (auto simp: Let_def split: prod.splits outcome.splits if_splits option.splits)
    have m: "c_offset c \<le> min stop (c_offset c + ucast (c_size_uncompressed c))"
      using 3 a e by (simp add: word_le_nat_alt unat_min)
    have "length x = min (unat stop) (a + csize c) - a - (unat offset - a)"
      using sub_slice_bounds [OF sl] m a e
      by (simp add: unat_minus_le unat_min unat_saturating_sub)
    then show ?thesis using Cons.IH [OF t rest] 3 assms(3) by (simp add: max_def min_def)
  qed
qed

lemma read_Ok_length:
  assumes ix: "fst (build_index (m_files m)) (strip_leading_slash path) = Some i"
    and f: "f = m_files m ! i"
    and t: "tiles 0 (api_chunks api f) (unat (f_size f))"
    and nw: "unat offset + unat len < 2 ^ 64"
    and rd: "read_into api (depot_store_new m ch) path offset len out s = (Ok u, out', s')"
  shows "length out' = length out + min (unat len) (unat (f_size f) - unat offset)"
proof -
  have le: "\<not> offset > f_size f"
    and rc: "read_chunks (cs_get ch) (f_path f) offset (min (offset + len) (f_size f))
            (api_chunks api f) out s = (Ok u, out', s')"
    using rd by (auto simp: read_into_new [OF ix f] split: if_splits)
  note rr = read_range [OF le nw]
  have "unat (f_size f) < 2 ^ 64" using unsigned_less [of "f_size f", where 'a = nat] by simp
  from read_chunks_length [OF t this _ _ rc] rr(1,2)
  have "length out' = length out + (min (unat offset + unat len) (unat (f_size f)) - unat offset)"
    by (simp add: word_le_nat_alt)
  moreover have "min (p + l) q - p = min l (q - p)" for p l q :: nat by simp
  ultimately show ?thesis by simp
qed

section \<open>A small depot\<close>

text \<open>A file of two chunks in a directory; the witnesses read it.\<close>

definition demo_chunks :: "(chunk_hash \<times> bytes) list" where
  "demo_chunks = [(demo_hash [1, 2, 3, 4], [1, 2, 3, 4]), (demo_hash [5, 6, 7], [5, 6, 7])]"

definition demo_plain :: "chunk_hash \<Rightarrow> bytes" where
  "demo_plain h = (case map_of demo_chunks h of Some b \<Rightarrow> b | None \<Rightarrow> [])"

definition demo_file :: depot_file where
  "demo_file = \<lparr>f_path = ''d/f'', f_size = 7, f_kind = File (FileHash []) False
     [\<lparr>c_sha = demo_hash [1, 2, 3, 4], c_crc = 0, c_offset = 0, c_size_uncompressed = 4,
        c_size_compressed = 4\<rparr>,
      \<lparr>c_sha = demo_hash [5, 6, 7], c_crc = 0, c_offset = 4, c_size_uncompressed = 3,
        c_size_compressed = 3\<rparr>]\<rparr>"

definition demo_dir :: depot_file where
  "demo_dir = \<lparr>f_path = ''d'', f_size = 0, f_kind = Directory\<rparr>"

definition demo_manifest :: manifest where
  "demo_manifest = \<lparr>m_depot_id = 1, m_manifest_id = 2, m_creation_time = 3,
     m_size_uncompressed = 7, m_size_compressed = 7, m_files = [demo_dir, demo_file]\<rparr>"

definition demo_cache_dir :: chunk_dir where
  "demo_cache_dir = chunk_dir_new [''chunks'']"

lemma demo_hash_ne: "demo_hash [1, 2, 3, 4] \<noteq> demo_hash [5, 6, 7]"
  by (simp add: demo_hash_def pad20_def)

lemma demo_plain_simps [simp]:
  "demo_plain (demo_hash [1, 2, 3, 4]) = [1, 2, 3, 4]" "demo_plain (demo_hash [5, 6, 7]) = [5, 6, 7]"
  using demo_hash_ne by (auto simp: demo_plain_def demo_chunks_def)

lemma demo_files: "wf_files (m_files demo_manifest)" "demo_file \<in> set (m_files demo_manifest)"
  by (simp_all add: demo_manifest_def wf_files_def wf_path_def demo_file_def demo_dir_def
      split_on.simps plain_name_def)

lemma demo_file_ok: "file_ok demo_plain std_depot_api demo_file"
  by (simp add: file_ok_def sizes_ok_def demo_file_def std_depot_api_def)

lemma demo_content [simp]:
  "file_content demo_plain (api_chunks std_depot_api demo_file) = [1, 2, 3, 4, 5, 6, 7]"
  by (simp add: demo_file_def std_depot_api_def)

lemma demo_ready:
  assumes "fs_files fs = Map.empty"
  shows "cache_ready std_env demo_cache_dir (mem_store demo_chunks) (\<lambda>_. True) demo_plain
    (cache_start std_env fs 0)"
  using cache_start_inv [OF std_env_ok assms]
    mem_store_inner [of demo_chunks demo_plain std_env] demo_hash_ne
  by (auto simp: cache_ready_def std_env_ok demo_plain_def demo_chunks_def)

lemma demo_calm:
  "cache_calm std_env demo_cache_dir (mem_store demo_chunks) (\<lambda>_. True) demo_plain
     (c_sha ` set (api_chunks std_depot_api demo_file)) (cache_start std_env calm_fs 0)"
proof -
  have "inner_has std_env (\<lambda>_. True) (mem_store demo_chunks)
      (c_sha ` set (api_chunks std_depot_api demo_file))"
    using demo_hash_ne
    by (auto simp: inner_has_def mem_store_def Let_def demo_chunks_def demo_file_def
        std_depot_api_def std_env_def demo_hash_def)
  then show ?thesis using demo_ready [of calm_fs] by (simp add: cache_calm_def calm_fs_def cache_start_def)
qed

text \<open>A disk whose first operation fails.\<close>

definition bad_fs :: fsys where
  "bad_fs = \<lparr>fs_files = Map.empty, fs_faults = [Some (KOther, 0)]\<rparr>"

section \<open>Properties of reads\<close>

text \<open>
  C1: A read through the disk cache is exact.  Whatever the disk does and whatever the inner
  store delivers, a read of a file that succeeds returns the bytes of the file from
  \<open>offset\<close>, at most \<open>len\<close> of them, and leaves the cache in a state where this holds again.
\<close>

theorem read_exact:
  assumes "wf_files (m_files m)" and "f \<in> set (m_files m)" and "file_ok plain api f"
    and "cache_ready env dir inner iinv plain w" and "unat offset + unat len < 2 ^ 64"
    and "read api (depot_store_new m (fs_cache_store env dir inner)) (f_path f) offset len w = (r, w')"
  shows "cache_ready env dir inner iinv plain w' \<and>
    (\<forall>b. r = Ok b \<longrightarrow>
       b = take (unat len) (drop (unat offset) (file_content plain (api_chunks api f))))"
proof -
  obtain i where i: "fst (build_index (m_files m)) (strip_leading_slash (f_path f)) = Some i"
    "f = m_files m ! i" using file_index [OF assms(1,2)] .
  obtain q out where q: "read_into api (depot_store_new m (fs_cache_store env dir inner))
      (f_path f) offset len [] w = (q, out, w')" and r: "r = omap (\<lambda>_. out) q"
    using assms(6) by (auto simp: read_def split: prod.splits)
  have "cs_get (fs_cache_store env dir inner) = fs_cache_get env dir inner"
    by (simp add: fs_cache_store_def)
  from cached.read_into_sound [OF i this _ _ assms(5,4) q] assms(3) r
  show ?thesis by (cases q) (auto simp: file_ok_def)
qed

theorem read_exact_witness:
  "case fst (read std_depot_api (depot_store_new demo_manifest
      (fs_cache_store std_env demo_cache_dir (mem_store demo_chunks))) ''d/f'' 2 4
      (cache_start std_env bad_fs 0)) of Ok b \<Rightarrow> b = [3, 4, 5, 6] | _ \<Rightarrow> True"
proof -
  let ?r = "read std_depot_api (depot_store_new demo_manifest
      (fs_cache_store std_env demo_cache_dir (mem_store demo_chunks))) ''d/f'' 2 4
      (cache_start std_env bad_fs 0)"
  have p: "f_path demo_file = ''d/f''" by (simp add: demo_file_def)
  have e: "fs_files bad_fs = Map.empty" by (simp add: bad_fs_def)
  have "?r = (fst ?r, snd ?r)" by simp
  with read_exact [OF demo_files demo_file_ok demo_ready [OF e], of 2 4 "fst ?r" "snd ?r"]
  show ?thesis by (simp add: p split: outcome.split)
qed

text \<open>
  C8: With a disk that does not fail and an inner store that has the chunks, the read of a file
  succeeds, for every offset up to the end and every length.
\<close>

theorem read_delivers:
  assumes "wf_files (m_files m)" and "f \<in> set (m_files m)" and "file_ok plain api f"
    and "cache_calm env dir inner iinv plain (c_sha ` set (api_chunks api f)) w"
    and "offset \<le> f_size f" and "unat offset + unat len < 2 ^ 64" and "f_size f < 2 ^ 63"
  shows "fst (read api (depot_store_new m (fs_cache_store env dir inner)) (f_path f) offset len w) =
    Ok (take (unat len) (drop (unat offset) (file_content plain (api_chunks api f))))"
proof -
  obtain i where i: "fst (build_index (m_files m)) (strip_leading_slash (f_path f)) = Some i"
    "f = m_files m ! i" using file_index [OF assms(1,2)] .
  obtain q out w' where q: "read_into api (depot_store_new m (fs_cache_store env dir inner))
      (f_path f) offset len [] w = (q, out, w')" by (metis prod_cases3)
  have get: "cs_get (fs_cache_store env dir inner) = fs_cache_get env dir inner"
    by (simp add: fs_cache_store_def)
  have fits: "length ([] :: bytes) + unat (f_size f) < 2 ^ 63"
    using assms(7) by (simp add: word_less_nat_alt)
  have "fst (read_into api (depot_store_new m (fs_cache_store env dir inner))
      (f_path f) offset len [] w) = Ok ()"
    using assms(3) by (intro cached_full.read_into_returns [OF i get _ _ _ _ assms(6,5) fits assms(4)])
      (auto simp: file_ok_def)
  with q have "q = Ok ()" by simp
  with cached_full.read_into_sound [OF i get _ _ assms(6,4) q] assms(3)
  show ?thesis by (simp add: read_def q file_ok_def)
qed

theorem read_delivers_witness:
  "fst (read std_depot_api (depot_store_new demo_manifest
      (fs_cache_store std_env demo_cache_dir (mem_store demo_chunks))) ''d/f'' 2 100
      (cache_start std_env calm_fs 0)) = Ok [3, 4, 5, 6, 7]"
proof -
  have p: "f_path demo_file = ''d/f''" "f_size demo_file = 7" by (simp_all add: demo_file_def)
  show ?thesis
    using read_delivers [OF demo_files demo_file_ok demo_calm, of 2 100] by (simp add: p)
qed

text \<open>
  A successful read is never short.  Whatever the chunk store answers, right or wrong, a
  read that succeeds returns exactly as many bytes as the file has between \<open>offset\<close> and
  \<open>offset + len\<close>; a store that delivers a truncated chunk makes the read fail.
\<close>

theorem read_never_short:
  assumes "wf_files (m_files m)" and "f \<in> set (m_files m)"
    and "tiles 0 (api_chunks api f) (unat (f_size f))" and "unat offset + unat len < 2 ^ 64"
    and "read api (depot_store_new m ch) (f_path f) offset len s = (Ok b, s')"
  shows "length b = min (unat len) (unat (f_size f) - unat offset)"
proof -
  obtain i where i: "fst (build_index (m_files m)) (strip_leading_slash (f_path f)) = Some i"
    "f = m_files m ! i" using file_index [OF assms(1,2)] .
  obtain u where "read_into api (depot_store_new m ch) (f_path f) offset len [] s = (Ok u, b, s')"
    using assms(5) by (auto simp: read_def split: prod.splits)
  from read_Ok_length [OF i assms(3,4) this] show ?thesis by simp
qed

theorem read_never_short_witness:
  "read std_depot_api (depot_store_new demo_manifest (mem_store demo_chunks)) ''d/f'' 1 4 0 =
     (Ok [2, 3, 4, 5], 2) \<and>
   length ([2, 3, 4, 5] :: bytes) = min (unat (4 :: u64)) (unat (f_size demo_file) - unat (1 :: u64))"
proof -
  let ?ch = "mem_store demo_chunks"
  have p: "f_path demo_file = ''d/f''" by (simp add: demo_file_def)
  obtain i where i: "fst (build_index (m_files demo_manifest)) (strip_leading_slash (f_path demo_file)) = Some i"
    "demo_file = m_files demo_manifest ! i" using file_index [OF demo_files] .
  have "read std_depot_api (depot_store_new demo_manifest ?ch) (f_path demo_file) 1 4 0 =
      (Ok [2, 3, 4, 5], 2)"
    using demo_hash_ne
    by (simp add: read_def read_into_new [OF i] reserve_fits_def) 
      (simp add: demo_file_def std_depot_api_def mem_store_def Let_def demo_chunks_def
        sub_slice_def saturating_sub_def min_def word_le_nat_alt)
  moreover have "tiles 0 (api_chunks std_depot_api demo_file) (unat (f_size demo_file))"
    using demo_file_ok by (simp add: file_ok_def)
  ultimately show ?thesis
    using read_never_short [OF demo_files, of std_depot_api 1 4 ?ch 0 "[2, 3, 4, 5]" 2] by (simp add: p)
qed

text \<open>
  A read does not bring the mount down: over a store that does not panic itself, a read of
  any path of any manifest returns, as long as \<open>offset + len\<close> does not overflow and the file is
  smaller than \<open>2 ^ 63\<close> bytes.
\<close>

theorem read_no_panic:
  assumes "\<And>h s. fst (cs_get ch h s) \<noteq> Panic" and "unat offset + unat len < 2 ^ 64"
    and "\<forall>f \<in> set (m_files m). f_size f < 2 ^ 63"
  shows "fst (read api (depot_store_new m ch) path offset len s) \<noteq> Panic"
proof (cases "fst (build_index (m_files m)) (strip_leading_slash path)")
  case None
  then show ?thesis by (simp add: read_def read_into_def Let_def)
next
  case (Some i)
  let ?f = "m_files m ! i"
  have "unat (f_size ?f) < 2 ^ 63"
    using assms(3) by_path_lt [OF Some] by (simp add: word_less_nat_alt)
  then have "reserve_fits [] (min (offset + len) (f_size ?f) - offset)" if "\<not> offset > f_size ?f"
    using read_range(3) [OF that assms(2)] by (simp add: reserve_fits_def)
  moreover have "\<not> offset > f_size ?f \<Longrightarrow> offset \<le> min (offset + len) (f_size ?f)"
    using read_range(1) assms(2) by blast
  note read_chunks_no_panic [OF assms(1) this]
  ultimately have "fst (read_into api (depot_store_new m ch) path offset len [] s) \<noteq> Panic"
    by (simp add: read_into_new [OF Some refl])
  then show ?thesis by (auto simp: read_def split: prod.split)
qed

theorem read_no_panic_witness:
  "fst (read std_depot_api (depot_store_new demo_manifest (wrong_store [1, 2])) ''/d/f'' 3 9 ()) \<noteq> Panic"
proof (rule read_no_panic)
  show "fst (cs_get (wrong_store [1, 2]) h s) \<noteq> Panic" for h s by (simp add: wrong_store_def)
  show "\<forall>f \<in> set (m_files demo_manifest). f_size f < 2 ^ 63"
    by (simp add: demo_manifest_def demo_file_def demo_dir_def)
qed simp

text \<open>
  C40: The sum \<open>offset + len\<close> is not guarded.  For a file in range, an offset inside it and a
  length that makes the sum pass \<open>2 ^ 64\<close>, the wrapped end lies before the offset, the number of
  bytes to reserve underflows, and the read panics instead of stopping at the end of the file.
\<close>

theorem read_overflow_panics:
  assumes "wf_files (m_files m)" and "f \<in> set (m_files m)" and "api_is_file api f"
    and "offset \<le> f_size f" and "f_size f < 2 ^ 63" and "2 ^ 64 \<le> unat offset + unat len"
  shows "fst (read api (depot_store_new m ch) (f_path f) offset len s) = Panic"
proof -
  obtain i where i: "fst (build_index (m_files m)) (strip_leading_slash (f_path f)) = Some i"
    "f = m_files m ! i" using file_index [OF assms(1,2)] .
  have off: "unat offset < 2 ^ 63" using assms(4,5) by (simp add: word_le_nat_alt word_less_nat_alt)
  have s: "unat (offset + len) = unat offset + unat len - 2 ^ 64"
    using assms(6) unsigned_less [of len, where 'a = nat] off by (simp add: unat_word_ariths mod_if)
  let ?e = "min (offset + len) (f_size f)"
  have lt: "unat (offset + len) < unat offset"
    using s unsigned_less [of len, where 'a = nat] assms(6) by simp
  then have "offset + len < offset" by (simp add: word_less_nat_alt)
  then have "?e < offset" by (simp only: min_less_iff_disj simp_thms)
  then have "unat ?e < unat offset" by (simp only: word_less_nat_alt)
  then have "unat (?e - offset) = unat ?e + 2 ^ 64 - unat offset"
    by (simp add: unat_sub_if')
  then have "\<not> reserve_fits [] (?e - offset)" using off by (simp add: reserve_fits_def)
  then show ?thesis
    using assms(3,4) by (simp add: read_def read_into_new [OF i])
qed

theorem read_overflow_panics_witness:
  "fst (read std_depot_api (depot_store_new demo_manifest (mem_store demo_chunks)) ''d/f'' 1
     (2 ^ 64 - 1) 0) = Panic"
proof -
  have p: "f_path demo_file = ''d/f''" "f_size demo_file = 7" by (simp_all add: demo_file_def)
  have "api_is_file std_depot_api demo_file" by (simp add: demo_file_def std_depot_api_def)
  then show ?thesis
    using read_overflow_panics [OF demo_files, of std_depot_api 1 "2 ^ 64 - 1" "mem_store demo_chunks" 0]
    by (simp add: p)
qed

section \<open>Properties of the reader\<close>

lemma open_reader_at:
  assumes "wf_files (m_files m)" and "f \<in> set (m_files m)" and "file_ok plain api f"
    and "open_reader api (depot_store_new m ch) (f_path f) = Ok rd"
  shows "reader_ok plain api m rd" and "r_pos rd = 0" and "r_size rd = f_size f"
    and "get_at (m_files m) (r_file_idx rd) = Some f"
    and "reader_content plain api m rd = file_content plain (api_chunks api f)"
proof -
  obtain i where i: "fst (build_index (m_files m)) (strip_leading_slash (f_path f)) = Some i"
    "f = m_files m ! i" using file_index [OF assms(1,2)] .
  have g: "get_at (m_files m) i = Some f" using by_path_lt [OF i(1)] i(2) by (simp add: get_at_def)
  with i assms(3,4) have rd: "rd = \<lparr>r_file_idx = i, r_size = f_size f, r_pos = 0, r_cached = None\<rparr>"
    by (simp add: open_reader_def Let_def file_ok_def split: if_splits)
  show "get_at (m_files m) (r_file_idx rd) = Some f" "r_pos rd = 0" "r_size rd = f_size f"
    using g rd by simp_all
  show "reader_ok plain api m rd" using g assms(3) by (simp add: rd reader_ok_def file_ok_def)
  show "reader_content plain api m rd = file_content plain (api_chunks api f)"
    using g by (simp add: rd reader_content_def)
qed

text \<open>
  C39: Reading a file to its end through the synchronous reader, with reads of any size, returns
  the whole file: with more turns of the loop than the file has bytes, the loop ends and its
  result is the content.
\<close>

theorem reader_reads_all:
  assumes "wf_files (m_files m)" and "f \<in> set (m_files m)" and "file_ok plain api f"
    and "cache_calm env dir inner iinv plain (c_sha ` set (api_chunks api f)) w"
    and "open_reader api (depot_store_new m (fs_cache_store env dir inner)) (f_path f) = Ok rd"
    and "0 < n" and "unat (f_size f) < fuel"
  shows "\<exists>rd' w'. read_loop fuel api (depot_store_new m (fs_cache_store env dir inner)) n rd w =
    Some (Ok (file_content plain (api_chunks api f)), rd', w')"
proof -
  note o = open_reader_at [OF assms(1,2,3,5)]
  have get: "cs_get (fs_cache_store env dir inner) = fs_cache_get env dir inner"
    by (simp add: fs_cache_store_def)
  have "unat (r_size rd) - unat (r_pos rd) < fuel" using assms(7) o(2,3) by simp
  from cached_full.read_loop_returns [OF o(1) assms(4) get assms(6) this] o
  show ?thesis by simp
qed

text \<open>
  One read of the reader: it advances the position by the number of bytes it returns, these
  are the bytes of the file at the old position, and it returns none exactly at the end of the
  file or for an empty buffer.
\<close>

theorem reader_read_exact:
  assumes "reader_ok plain api m rd" and "cache_ready env dir inner iinv plain w"
    and "reader_read api (depot_store_new m (fs_cache_store env dir inner)) n rd w = (Ok x, rd', w')"
  shows "reader_ok plain api m rd' \<and>
    x = take (length x) (drop (unat (r_pos rd)) (reader_content plain api m rd)) \<and>
    unat (r_pos rd') = unat (r_pos rd) + length x \<and> length x \<le> n \<and>
    (x = [] \<longleftrightarrow> n = 0 \<or> r_size rd \<le> r_pos rd)"
proof -
  have get: "cs_get (fs_cache_store env dir inner) = fs_cache_get env dir inner"
    by (simp add: fs_cache_store_def)
  from cached.reader_read_sound [OF assms(1,2) get assms(3)] show ?thesis by blast
qed

text \<open>
  A seek goes to the position asked for, a position before the start is refused and leaves
  the reader where it was, and a target past the last \<open>u64\<close> comes out modulo \<open>2 ^ 64\<close>.
\<close>

theorem seek_exact:
  "(case seek rd p of
      (Ok q, rd') \<Rightarrow> 0 \<le> seek_target rd p \<and> uint q = seek_target rd p mod 2 ^ 64 \<and>
        rd' = rd\<lparr>r_pos := q\<rparr>
    | (Err e, rd') \<Rightarrow> seek_target rd p < 0 \<and> e = SeekBeforeStart \<and> rd' = rd
    | (Panic, _) \<Rightarrow> False)"
  by (simp add: seek_def Let_def uint_word_of_int)

theorem reader_reads_all_witness:
  "\<exists>rd' w'. read_loop 8 std_depot_api (depot_store_new demo_manifest
      (fs_cache_store std_env demo_cache_dir (mem_store demo_chunks))) 3
      \<lparr>r_file_idx = 1, r_size = 7, r_pos = 0, r_cached = None\<rparr> (cache_start std_env calm_fs 0) =
    Some (Ok [1, 2, 3, 4, 5, 6, 7], rd', w')"
proof -
  let ?st = "depot_store_new demo_manifest (fs_cache_store std_env demo_cache_dir (mem_store demo_chunks))"
  have "open_reader std_depot_api ?st (f_path demo_file) =
      Ok \<lparr>r_file_idx = 1, r_size = 7, r_pos = 0, r_cached = None\<rparr>"
    by (simp add: open_reader_def demo_manifest_def demo_file_def demo_dir_def Let_def
        strip_leading_slash_def build_index_def index_step_def get_at_def std_depot_api_def)
  moreover have "f_size demo_file = 7" by (simp add: demo_file_def)
  ultimately show ?thesis
    using reader_reads_all [OF demo_files demo_file_ok demo_calm, of _ 3 8] by simp
qed

theorem reader_read_exact_witness:
  "reader_read std_depot_api (depot_store_new demo_manifest
      (fs_cache_store std_env demo_cache_dir (mem_store demo_chunks))) 9
      \<lparr>r_file_idx = 1, r_size = 7, r_pos = 2, r_cached = Some (0, [1, 2, 3, 4])\<rparr>
      (cache_start std_env calm_fs 0) =
    (Ok [3, 4], \<lparr>r_file_idx = 1, r_size = 7, r_pos = 4, r_cached = Some (0, [1, 2, 3, 4])\<rparr>,
      cache_start std_env calm_fs 0) \<and>
   [3, 4] = take (length ([3, 4] :: bytes)) (drop 2 ([1, 2, 3, 4, 5, 6, 7] :: bytes))"
proof -
  let ?rd = "\<lparr>r_file_idx = 1, r_size = 7, r_pos = 2, r_cached = Some (0, [1, 2, 3, 4])\<rparr>"
  have ok: "reader_ok demo_plain std_depot_api demo_manifest ?rd"
    using demo_file_ok by (simp add: reader_ok_def demo_manifest_def get_at_def file_ok_def)
      (simp add: demo_file_def std_depot_api_def)
  have c: "reader_content demo_plain std_depot_api demo_manifest ?rd = [1, 2, 3, 4, 5, 6, 7]"
    by (simp add: reader_content_def demo_manifest_def get_at_def)
  have e: "fs_files calm_fs = Map.empty" by (simp add: calm_fs_def)
  have r: "reader_read std_depot_api (depot_store_new demo_manifest
      (fs_cache_store std_env demo_cache_dir (mem_store demo_chunks))) 9 ?rd
      (cache_start std_env calm_fs 0) =
    (Ok [3, 4], ?rd\<lparr>r_pos := 4\<rparr>, cache_start std_env calm_fs 0)"
    by (simp add: reader_read_def demo_manifest_def get_at_def demo_file_def std_depot_api_def
        checked_sub_def reader_fetch_def sub_slice_def Let_def partition_point_def)
  show ?thesis using reader_read_exact [OF ok demo_ready [OF e] r] r c by simp
qed

end
