(* ===== verification/Flight_Properties.thy ===== *)
theory Flight_Properties
  imports Single_Flight Cached_Read
begin

text \<open>
  What holds of tasks racing on the disk cache: a chunk is fetched once and everybody gets it,
  no interleaving gets stuck or runs for ever, and a task alone is the sequential code.
\<close>

lemma flight_completes:
  "flight_run env dir inner n s0 s \<Longrightarrow> \<exists>m s'. flight_run env dir inner m s0 s' \<and> all_returned (fl_tasks s')"
proof (induction "flight_rank (fl_tasks s)" arbitrary: n s rule: less_induct)
  case less
  show ?case
  proof (cases "all_returned (fl_tasks s)")
    case False
    then obtain s' where s': "flight_step env dir inner s s'" using flight_not_stuck by blast
    show ?thesis
      by (rule less.hyps [OF flight_step_rank [OF s'] flight_run.more [OF less.prems s']])
  qed (use less.prems in blast)
qed

text \<open>
  C4: A chunk is fetched once.  On a disk that works, over a store that has the chunks, however
  many calls of \<open>get\<close> and \<open>ensure\<close> race and however their steps interleave: no chunk is asked
  of the inner store twice, and every call that has returned returned the chunk's bytes.
\<close>

theorem single_flight:
  assumes "cache_calm env dir inner iinv plain avail w" and "all_small plain avail"
    and "snd ` set calls \<subseteq> avail" and "small_answers inner"
    and "cache_inv env dir (verified env) w" and "cw_nonce w = 0" and "length calls \<le> 2 ^ 60"
    and "flight_run env dir inner n (flight_start w calls) s"
  shows "(\<forall>h. count_list (fl_fetches s) h \<le> 1) \<and>
    (\<forall>t \<in> set (fl_tasks s). \<forall>r. tk_pc t = Returned r \<longrightarrow>
       r = Ok (if tk_get t then Some (plain (tk_sha t)) else None))"
proof -
  have "n \<le> 2 ^ 64"
    using flight_run_rank [OF assms(8)] flight_start_rank [of w calls] assms(7) by simp
  from flight_run_calm [OF assms(8) cache_calmD(1) [OF assms(1)] assms(4,2)
      flight_start_safe [OF assms(5,6)] flight_start_calm [OF assms(1,3)] this]
  have c: "flight_calm env dir inner iinv plain avail s" .
  have "r = Ok (if tk_get t then Some (plain (tk_sha t)) else None)"
    if t: "t \<in> set (fl_tasks s)" "tk_pc t = Returned r" for t r
  proof -
    from t obtain i where "i < length (fl_tasks s)" "fl_tasks s ! i = t" by (auto simp: in_set_conv_nth)
    then have "pc_plain env plain (tk_get t) (tk_sha t) (tk_pc t)"
      using c unfolding flight_calm_def by blast
    then show ?thesis using t(2) by simp
  qed
  then show ?thesis using c unfolding flight_calm_def fetches_ok_def by blast
qed

text \<open>
  C21: No race gets stuck and none goes on for ever: a run of any number of calls has at most
  twelve steps for each, and as long as one has not returned some task can do its next step,
  whatever the disk and the inner store do.
\<close>

theorem racing_tasks_finish:
  assumes "flight_run env dir inner n (flight_start w calls) s"
  shows "n \<le> 12 * length calls \<and>
    (all_returned (fl_tasks s) \<or> (\<exists>s'. flight_step env dir inner s s'))"
  using flight_run_rank [OF assms] flight_start_rank [of w calls] flight_not_stuck by fastforce

text \<open>
  A call that runs alone is the sequential code: twelve steps of its task end with the
  result and the world that \<open>fs_cache_get\<close> or \<open>fs_cache_ensure\<close> gives.
\<close>

lemma lone_task_is_sequential:
  "solo_view (run_alone env dir inner 12 (flight_start w [(True, sha)])) =
     (case fs_cache_get env dir inner sha w of (r, w') \<Rightarrow> ([Returned (omap Some r)], w')) \<and>
   solo_view (run_alone env dir inner 12 (flight_start w [(False, sha)])) =
     (case fs_cache_ensure env dir inner sha w of (r, w') \<Rightarrow> ([Returned (omap (\<lambda>_. None) r)], w'))"
proof -
  have "flight_start w [(get, sha)] = solo get sha [] 0 [] Begin w" for get
    by (simp add: flight_start_def solo_def flight_task_new_def)
  then show ?thesis
    using alone_get [of env dir inner sha w] alone_ensure [of env dir inner sha w]
    by (auto simp: alone_from_def as_result_def split: prod.splits)
qed

section \<open>A race\<close>

definition demo_race :: "(bool \<times> chunk_hash) list" where
  "demo_race = [(True, demo_hash [5, 6, 7]), (True, demo_hash [5, 6, 7]), (False, demo_hash [5, 6, 7])]"

lemma mem_store_small:
  assumes "\<forall>(h, b) \<in> set cs. length b < 2 ^ 64"
  shows "small_answers (mem_store cs)"
  using assms by (auto simp: small_answers_def mem_store_def Let_def dest!: map_of_SomeD split: option.splits)

theorem racing_tasks_verified_witness:
  "\<exists>n s. flight_run std_env demo_cache_dir (wrong_store [1, 2]) n
      (flight_start (cache_start std_env bad_fs ()) demo_race) s \<and> all_returned (fl_tasks s) \<and>
    list_all (\<lambda>t. tk_pc t \<noteq> Returned Panic) (fl_tasks s)"
proof -
  let ?s0 = "flight_start (cache_start std_env bad_fs ()) demo_race"
  obtain n s where r: "flight_run std_env demo_cache_dir (wrong_store [1, 2]) n ?s0 s"
    "all_returned (fl_tasks s)" using flight_completes [OF flight_run.start] by blast
  have inner: "small_answers (wrong_store [1, 2])" by (simp add: small_answers_def wrong_store_def)
  have inv: "cache_inv std_env demo_cache_dir (verified std_env) (cache_start std_env bad_fs ())"
    by (rule cache_start_inv [OF std_env_ok]) (simp add: bad_fs_def)
  have n: "n \<le> 2 ^ 64"
    using flight_run_rank [OF r(1)] flight_start_rank [of "cache_start std_env bad_fs ()" demo_race]
    by (simp add: demo_race_def)
  note v = racing_tasks_verified [OF std_env_ok inner inv _ r(1) n]
  have "\<forall>t \<in> set (fl_tasks s). tk_pc t \<noteq> Returned Panic"
    using v by (auto simp: cache_start_def)
  then show ?thesis using r by (auto simp: list_all_iff)
qed

theorem single_flight_witness:
  "\<exists>n s. flight_run std_env demo_cache_dir (mem_store demo_chunks) n
      (flight_start (cache_start std_env calm_fs 0) demo_race) s \<and> all_returned (fl_tasks s) \<and>
    count_list (fl_fetches s) (demo_hash [5, 6, 7]) \<le> 1"
proof -
  let ?avail = "c_sha ` set (api_chunks std_depot_api demo_file)"
  let ?w = "cache_start std_env calm_fs (0 :: nat)"
  obtain n s where r: "flight_run std_env demo_cache_dir (mem_store demo_chunks) n (flight_start ?w demo_race) s"
    "all_returned (fl_tasks s)" using flight_completes [OF flight_run.start] by blast
  have small: "all_small demo_plain ?avail"
    by (auto simp: all_small_def demo_file_def std_depot_api_def MAX_PLAIN_LEN_def)
  have calls: "snd ` set demo_race \<subseteq> ?avail"
    by (auto simp: demo_race_def demo_file_def std_depot_api_def)
  have inner: "small_answers (mem_store demo_chunks)"
    by (rule mem_store_small) (simp add: demo_chunks_def)
  have inv: "cache_inv std_env demo_cache_dir (verified std_env) ?w"
    by (rule cache_start_inv [OF std_env_ok]) (simp add: calm_fs_def)
  have "count_list (fl_fetches s) (demo_hash [5, 6, 7]) \<le> 1"
    using single_flight [OF demo_calm small calls inner inv _ _ r(1)]
    by (auto simp: cache_start_def demo_race_def)
  then show ?thesis using r by blast
qed

text \<open>Three calls run to their end, which takes some steps and at most thirty-six.\<close>

theorem racing_tasks_finish_witness:
  "\<exists>n s. flight_run std_env demo_cache_dir (mem_store demo_chunks) n
      (flight_start (cache_start std_env bad_fs 0) demo_race) s \<and>
    all_returned (fl_tasks s) \<and> 0 < n \<and> n \<le> 36"
proof -
  let ?s0 = "flight_start (cache_start std_env bad_fs (0 :: nat)) demo_race"
  obtain n s where r: "flight_run std_env demo_cache_dir (mem_store demo_chunks) n ?s0 s"
    "all_returned (fl_tasks s)" using flight_completes [OF flight_run.start] by blast
  have "\<not> all_returned (fl_tasks ?s0)"
    by (simp add: all_returned_def flight_start_def demo_race_def flight_task_new_def)
  then have "n \<noteq> 0" using r by (auto elim: flight_run.cases)
  moreover have "n \<le> 36" using racing_tasks_finish [OF r(1)] by (simp add: demo_race_def)
  ultimately show ?thesis using r by blast
qed

end
