(* ===== verification/Chunk_Audit.thy ===== *)
theory Chunk_Audit
  imports Cached_Read "HOL-Library.Multiset"
begin

text \<open>
  The offline tools of the \<open>steam-depot\<close> binary over the chunk directory: \<open>stats.rs\<close> (which
  files are chunks, how much of a manifest is there), \<open>verify.rs\<close> (hash every file), \<open>prune.rs\<close>
  (delete them) and the scan of \<open>prefetch.rs\<close>.  A directory listing is a list of rows, each an
  error or an entry; what is printed is left out, what is computed for printing is not, except
  for the percentages and \<open>human_bytes\<close>, which are floating point.
\<close>

section \<open>Which files are chunks\<close>

text \<open>
  \<open>parse_sha\<close>: forty bytes, each pair read by \<open>u8::from_str_radix\<close>.  Slicing at a byte that is
  not a character boundary panics; a pair that is no number ends the loop with \<open>None\<close>.
\<close>

fun sha_pairs :: "string \<Rightarrow> nat list \<Rightarrow> (io_error, bytes option) outcome" where
  "sha_pairs s [] = Ok (Some [])"
| "sha_pairs s (i # is) =
     (case str_slice s (2 * i) (2 * i + 2) of
        None \<Rightarrow> Panic
      | Some pair \<Rightarrow>
          (case from_str_radix 16 256 pair of
             None \<Rightarrow> Ok None
           | Some b \<Rightarrow> omap (map_option (\<lambda>bs. word_of_nat b # bs)) (sha_pairs s is)))"

definition parse_sha :: "string \<Rightarrow> (io_error, chunk_hash option) outcome" where
  "parse_sha s =
     (if length s \<noteq> 40 then Ok None
      else omap (map_option ChunkHash) (sha_pairs s [0..<20]))"

text \<open>
  One entry of a directory: its name, the name as a \<open>str\<close> if it is UTF-8, its length, whether it
  is a file.
\<close>

record dir_row =
  row_raw :: string
  row_name :: "string option"
  row_len :: "(io_error, u64) outcome"
  row_is_file :: "(io_error, bool) outcome"

type_synonym file_rows = "(io_error, (io_error, dir_row) outcome list) outcome"

record chunk_scan =
  scan_shas :: "chunk_hash list"
  scan_bytes :: u64
  scan_count :: u64

fun scan_rows :: "(io_error, dir_row) outcome list \<Rightarrow> chunk_scan \<Rightarrow> (io_error, chunk_scan) outcome" where
  "scan_rows [] sc = Ok sc"
| "scan_rows (row # rows) sc =
     obind row (\<lambda>r.
     case row_name r of
       None \<Rightarrow> scan_rows rows sc
     | Some name \<Rightarrow>
         obind (parse_sha name) (\<lambda>parsed.
         case parsed of
           None \<Rightarrow> scan_rows rows sc
         | Some sha \<Rightarrow>
             obind (row_len r) (\<lambda>len.
             scan_rows rows
               \<lparr>scan_shas = List.insert sha (scan_shas sc), scan_bytes = scan_bytes sc + len,
                scan_count = scan_count sc + 1\<rparr>)))"

definition empty_scan :: chunk_scan where
  "empty_scan = \<lparr>scan_shas = [], scan_bytes = 0, scan_count = 0\<rparr>"

definition scan_chunks :: "(path \<Rightarrow> file_rows) \<Rightarrow> path \<Rightarrow> (io_error, chunk_scan) outcome" where
  "scan_chunks read_dir root =
     (case read_dir root of
        Ok rows \<Rightarrow> scan_rows rows empty_scan
      | Err e \<Rightarrow> if io_kind_of e = KNotFound then Ok empty_scan else Err e
      | Panic \<Rightarrow> Panic)"

text \<open>The scan of \<open>prefetch.rs\<close> wants the names only.\<close>

fun names_on_disk :: "(io_error, dir_row) outcome list \<Rightarrow> chunk_hash list \<Rightarrow> (io_error, chunk_hash list) outcome" where
  "names_on_disk [] out = Ok out"
| "names_on_disk (row # rows) out =
     obind row (\<lambda>r.
     case row_name r of
       None \<Rightarrow> names_on_disk rows out
     | Some name \<Rightarrow>
         obind (parse_sha name) (\<lambda>parsed.
         case parsed of
           None \<Rightarrow> names_on_disk rows out
         | Some sha \<Rightarrow> names_on_disk rows (List.insert sha out)))"

definition scan_chunks_on_disk :: "(path \<Rightarrow> file_rows) \<Rightarrow> path \<Rightarrow> (io_error, chunk_hash list) outcome" where
  "scan_chunks_on_disk read_dir root =
     (case read_dir root of
        Ok rows \<Rightarrow> names_on_disk rows []
      | Err e \<Rightarrow> if io_kind_of e = KNotFound then Ok [] else Err e
      | Panic \<Rightarrow> Panic)"

section \<open>Verifying\<close>

text \<open>
  \<open>verify_one\<close> of \<open>verify.rs\<close>: the SHA-1 of the file's bytes against the name.  The jobs are
  served by a pool of threads; \<open>shas\<close> is the order in which they are done.
\<close>

definition verify_one ::
  "'l chunk_env \<Rightarrow> chunk_hash \<Rightarrow> path \<Rightarrow> fsys \<Rightarrow> (io_error, bool \<times> u64) outcome \<times> fsys" where
  "verify_one env expected p fs =
     (case fs_read p fs of
        (Ok b, fs1) \<Rightarrow> (Ok (ce_sha1 env b = hash_bytes expected, len64 b), fs1)
      | (Err e, fs1) \<Rightarrow> (Err e, fs1)
      | (Panic, fs1) \<Rightarrow> (Panic, fs1))"

record verify_report =
  vr_ok :: u64
  vr_mismatched :: "chunk_hash list"
  vr_errored :: "(chunk_hash \<times> io_error) list"
  vr_total_bytes :: u64

definition verify_job ::
  "'l chunk_env \<Rightarrow> path \<Rightarrow> chunk_hash \<Rightarrow> verify_report \<times> fsys \<Rightarrow> verify_report \<times> fsys" where
  "verify_job env root sha = (\<lambda>(r, fs).
     case verify_one env sha (root @ [ce_hex env sha]) fs of
       (Ok (True, len), fs1) \<Rightarrow> (r\<lparr>vr_ok := vr_ok r + 1, vr_total_bytes := vr_total_bytes r + len\<rparr>, fs1)
     | (Ok (False, len), fs1) \<Rightarrow>
         (r\<lparr>vr_mismatched := vr_mismatched r @ [sha], vr_total_bytes := vr_total_bytes r + len\<rparr>, fs1)
     | (Err e, fs1) \<Rightarrow> (r\<lparr>vr_errored := vr_errored r @ [(sha, e)]\<rparr>, fs1)
     | (Panic, fs1) \<Rightarrow> (r, fs1))"

definition verify_cache ::
  "'l chunk_env \<Rightarrow> path \<Rightarrow> chunk_hash list \<Rightarrow> fsys \<Rightarrow> verify_report \<times> fsys" where
  "verify_cache env root shas fs =
     fold (verify_job env root) shas
       (\<lparr>vr_ok = 0, vr_mismatched = [], vr_errored = [], vr_total_bytes = 0\<rparr>, fs)"

text \<open>\<open>stats --verify\<close> has its own copy, which does not count the bytes.\<close>

definition stats_verify_one ::
  "'l chunk_env \<Rightarrow> chunk_hash \<Rightarrow> path \<Rightarrow> fsys \<Rightarrow> (io_error, bool) outcome \<times> fsys" where
  "stats_verify_one env expected p fs =
     (case fs_read p fs of
        (Ok b, fs1) \<Rightarrow> (Ok (ce_sha1 env b = hash_bytes expected), fs1)
      | (Err e, fs1) \<Rightarrow> (Err e, fs1)
      | (Panic, fs1) \<Rightarrow> (Panic, fs1))"

definition stats_verify_job ::
  "'l chunk_env \<Rightarrow> path \<Rightarrow> chunk_hash \<Rightarrow>
     (u64 \<times> chunk_hash list \<times> (chunk_hash \<times> io_error) list) \<times> fsys \<Rightarrow>
     (u64 \<times> chunk_hash list \<times> (chunk_hash \<times> io_error) list) \<times> fsys" where
  "stats_verify_job env root sha = (\<lambda>((ok, bad, errs), fs).
     case stats_verify_one env sha (root @ [ce_hex env sha]) fs of
       (Ok True, fs1) \<Rightarrow> ((ok + 1, bad, errs), fs1)
     | (Ok False, fs1) \<Rightarrow> ((ok, bad @ [sha], errs), fs1)
     | (Err e, fs1) \<Rightarrow> ((ok, bad, errs @ [(sha, e)]), fs1)
     | (Panic, fs1) \<Rightarrow> ((ok, bad, errs), fs1))"

definition stats_verify_cache ::
  "'l chunk_env \<Rightarrow> path \<Rightarrow> chunk_hash list \<Rightarrow> fsys \<Rightarrow>
     (u64 \<times> chunk_hash list \<times> (chunk_hash \<times> io_error) list) \<times> fsys" where
  "stats_verify_cache env root shas fs = fold (stats_verify_job env root) shas ((0, [], []), fs)"

section \<open>How much of the manifests is there\<close>

text \<open>The counters \<open>stats\<close> prints for one manifest; \<open>st_all\<close> is shared by all of them.\<close>

record chunk_stats =
  st_uncompr :: u64
  st_compr :: u64
  st_fetched_compr :: u64
  st_chunks :: u64
  st_fetched_chunks :: u64
  st_unique :: "chunk_hash list"
  st_all :: "(chunk_hash \<times> u32) list"

definition or_insert :: "'k \<Rightarrow> 'v \<Rightarrow> ('k \<times> 'v) list \<Rightarrow> ('k \<times> 'v) list" where
  "or_insert k v m = (case map_of m k of Some _ \<Rightarrow> m | None \<Rightarrow> m @ [(k, v)])"

definition count_chunk :: "chunk_scan \<Rightarrow> chunk \<Rightarrow> chunk_stats \<Rightarrow> chunk_stats" where
  "count_chunk cache c st =
     (if c_sha c \<in> set (st_unique st) then st
      else
        let here = c_sha c \<in> set (scan_shas cache) in
        st\<lparr>st_unique := st_unique st @ [c_sha c],
           st_uncompr := st_uncompr st + ucast (c_size_uncompressed c),
           st_compr := st_compr st + ucast (c_size_compressed c),
           st_chunks := st_chunks st + 1,
           st_fetched_compr := st_fetched_compr st + (if here then ucast (c_size_compressed c) else 0),
           st_fetched_chunks := st_fetched_chunks st + (if here then 1 else 0),
           st_all := or_insert (c_sha c) (c_size_compressed c) (st_all st)\<rparr>)"

definition manifest_stats ::
  "depot_api \<Rightarrow> chunk_scan \<Rightarrow> (chunk_hash \<times> u32) list \<Rightarrow> manifest \<Rightarrow> chunk_stats" where
  "manifest_stats api cache all m =
     fold (\<lambda>f st. fold (count_chunk cache) (api_chunks api f) st) (m_files m)
       \<lparr>st_uncompr = 0, st_compr = 0, st_fetched_compr = 0, st_chunks = 0, st_fetched_chunks = 0,
        st_unique = [], st_all = all\<rparr>"

text \<open>The totals over all manifests, shared chunks once: bytes, bytes fetched, chunks fetched.\<close>

definition sum_chunk :: "chunk_scan \<Rightarrow> chunk_hash \<times> u32 \<Rightarrow> u64 \<times> u64 \<times> u64 \<Rightarrow> u64 \<times> u64 \<times> u64" where
  "sum_chunk cache = (\<lambda>(sha, size) (compr, fetched, chunks).
     if sha \<in> set (scan_shas cache)
     then (compr + ucast size, fetched + ucast size, chunks + 1)
     else (compr + ucast size, fetched, chunks))"

definition all_stats :: "chunk_scan \<Rightarrow> (chunk_hash \<times> u32) list \<Rightarrow> u64 \<times> u64 \<times> u64" where
  "all_stats cache all = fold (sum_chunk cache) all (0, 0, 0)"

section \<open>Pruning\<close>

text \<open>
  \<open>prune\<close> counts the files, then, if the user agrees, lists the directory again and removes
  them.  A row whose type cannot be read is skipped.
\<close>

fun prune_count :: "(io_error, dir_row) outcome list \<Rightarrow> u64 \<Rightarrow> u64 \<Rightarrow> (io_error, u64 \<times> u64) outcome" where
  "prune_count [] files len_sum = Ok (files, len_sum)"
| "prune_count (row # rows) files len_sum =
     obind row (\<lambda>r.
     if row_is_file r \<noteq> Ok True then prune_count rows files len_sum
     else obind (row_len r) (\<lambda>len. prune_count rows (files + 1) (len_sum + len)))"

definition prune_scan :: "(path \<Rightarrow> file_rows) \<Rightarrow> path \<Rightarrow> (io_error, u64 \<times> u64) outcome" where
  "prune_scan read_dir root =
     (case read_dir root of
        Ok rows \<Rightarrow> prune_count rows 0 0
      | Err e \<Rightarrow> if io_kind_of e = KNotFound then Ok (0, 0) else Err e
      | Panic \<Rightarrow> Panic)"

text \<open>\<open>confirm\<close>: what was typed, without the ASCII white space around it.\<close>

definition is_white :: "char \<Rightarrow> bool" where
  "is_white c = (let n = of_char c :: nat in (9 \<le> n \<and> n \<le> 13) \<or> n = 32)"

definition trim :: "string \<Rightarrow> string" where
  "trim s = rev (dropWhile is_white (rev (dropWhile is_white s)))"

definition confirm :: "(io_error, string) outcome \<Rightarrow> (io_error, bool) outcome" where
  "confirm typed = omap (\<lambda>s. trim s \<in> {''y'', ''Y'', ''yes''}) typed"

datatype prune_result = AlreadyEmpty | Aborted | Deleted u64

fun prune_rows ::
  "path \<Rightarrow> (io_error, dir_row) outcome list \<Rightarrow> u64 \<Rightarrow> fsys \<Rightarrow> (io_error, prune_result) outcome \<times> fsys" where
  "prune_rows root [] deleted fs = (Ok (Deleted deleted), fs)"
| "prune_rows root (row # rows) deleted fs =
     (case row of
        Err e \<Rightarrow> (Err e, fs)
      | Panic \<Rightarrow> (Panic, fs)
      | Ok r \<Rightarrow>
          if row_is_file r \<noteq> Ok True then prune_rows root rows deleted fs
          else
            (case fs_remove_file (root @ [row_raw r]) fs of
               (Ok _, fs1) \<Rightarrow> prune_rows root rows (deleted + 1) fs1
             | (Err e, fs1) \<Rightarrow> (Err e, fs1)
             | (Panic, fs1) \<Rightarrow> (Panic, fs1)))"

definition prune_run ::
  "(fsys \<Rightarrow> path \<Rightarrow> file_rows) \<Rightarrow> path \<Rightarrow> bool \<Rightarrow> (io_error, string) outcome \<Rightarrow> fsys \<Rightarrow>
     (io_error, prune_result) outcome \<times> fsys" where
  "prune_run read_dir root yes typed fs =
     (case prune_scan (read_dir fs) root of
        Err e \<Rightarrow> (Err e, fs)
      | Panic \<Rightarrow> (Panic, fs)
      | Ok (files, _) \<Rightarrow>
          if files = 0 then (Ok AlreadyEmpty, fs)
          else
            (case (if yes then Ok True else confirm typed) of
               Err e \<Rightarrow> (Err e, fs)
             | Panic \<Rightarrow> (Panic, fs)
             | Ok False \<Rightarrow> (Ok Aborted, fs)
             | Ok True \<Rightarrow>
                 (case read_dir fs root of
                    Err e \<Rightarrow> (Err e, fs)
                  | Panic \<Rightarrow> (Panic, fs)
                  | Ok rows \<Rightarrow> prune_rows root rows 0 fs)))"

section \<open>Names of chunks\<close>

lemma sha_pairs_hex:
  "\<forall>i \<in> set is. i < length bs \<Longrightarrow> sha_pairs (to_hex bs) is = Ok (Some (map ((!) bs) is))"
proof (induction "is")
  case (Cons i "is")
  then have i: "i < length bs" by simp
  have "str_slice (to_hex bs) (2 * i) (2 * i + 2) = Some (hex_byte (bs ! i))"
    using str_slice_ascii [OF to_hex_ascii, of "2 * i" "2 * i + 2" bs] i to_hex_slice [OF i] by simp
  then show ?case using Cons by (simp add: hex_byte_parse)
qed simp

lemma parse_sha_hex: "length bs = 20 \<Longrightarrow> parse_sha (to_hex bs) = Ok (Some (ChunkHash bs))"
  using sha_pairs_hex [of "[0..<20]" bs] map_nth [of bs] by (simp add: parse_sha_def del: upt_rec_numeral)

lemma parse_sha_length: "length s \<noteq> 40 \<Longrightarrow> parse_sha s = Ok None"
  by (simp add: parse_sha_def)

lemma parse_sha_tmp: "length bs = 20 \<Longrightarrow> parse_sha (tmp_name pid (to_hex bs) nonce) = Ok None"
  by (rule parse_sha_length) (simp add: tmp_name_def)

text \<open>
  A chunk's file name is read back as its hash, and the temporary files written beside it
  are not taken for chunks.
\<close>

theorem parse_sha_roundtrip:
  assumes "length (hash_bytes h) = 20"
  shows "parse_sha (to_hex (hash_bytes h)) = Ok (Some h) \<and>
    parse_sha (tmp_name pid (to_hex (hash_bytes h)) nonce) = Ok None"
  using parse_sha_hex [OF assms] parse_sha_tmp [OF assms] by simp

theorem parse_sha_roundtrip_witness:
  "parse_sha (to_hex (pad20 [1, 2, 3])) = Ok (Some (ChunkHash (pad20 [1, 2, 3])))"
  using parse_sha_roundtrip [of "ChunkHash (pad20 [1, 2, 3])"] by (simp add: pad20_def)

text \<open>
  \<open>parse_sha\<close> takes more than hex digits and can panic, against its comment: a pair made of
  a plus sign and one digit is a number to \<open>from_str_radix\<close>, so a file with such a name counts as
  a chunk whose own file has another name; and a forty-byte name with a two-byte character
  across a pair makes the scan panic.
\<close>

theorem parse_sha_not_only_hex:
  assumes "length bs = 19"
  shows "parse_sha (''+f'' @ to_hex bs) = Ok (Some (ChunkHash (15 # bs))) \<and>
    ''+f'' @ to_hex bs \<noteq> to_hex (15 # bs) \<and>
    parse_sha (''0'' @ [char_of (195 :: nat), char_of (169 :: nat)] @ replicate 37 (CHR ''0'')) = Panic"
proof -
  let ?s = "''+f'' @ to_hex bs"
  have ascii: "is_ascii ?s" using to_hex_ascii [of bs] by (simp add: is_ascii_def)
  have tail: "sha_pairs ?s (map Suc is) = Ok (Some (map ((!) bs) is))" if "\<forall>i \<in> set is. i < length bs" for "is"
    using that
  proof (induction "is")
    case (Cons i "is")
    then have i: "i < length bs" by simp
    have "str_slice ?s (2 * Suc i) (2 * Suc i + 2) = Some (hex_byte (bs ! i))"
      using str_slice_ascii [OF ascii, of "2 * Suc i" "2 * Suc i + 2"] i to_hex_slice [OF i] by simp
    then show ?case using Cons by (simp add: hex_byte_parse)
  qed simp
  have "str_slice ?s 0 2 = Some ''+f''"
    using str_slice_ascii [OF ascii, of 0 2] by (simp add: numeral_2_eq_2)
  then have "str_slice ?s 0 (Suc (Suc 0)) = Some ''+f''" by (simp only: numeral_2_eq_2)
  moreover have "from_str_radix 16 256 ''+f'' = Some 15"
    by (simp add: from_str_radix_def digit_of_def Let_def)
  moreover have "[0..<20] = 0 # map Suc [0..<19]" by (simp add: map_Suc_upt upt_conv_Cons)
  ultimately have "sha_pairs ?s [0..<20] = Ok (Some (15 # bs))"
    using tail [of "[0..<19]"] map_nth [of bs] assms by (simp del: upt_rec_numeral)
  then have one: "parse_sha ?s = Ok (Some (ChunkHash (15 # bs)))"
    using assms by (simp add: parse_sha_def)
  have two: "?s \<noteq> to_hex (15 # bs)"
  proof
    assume "?s = to_hex (15 # bs)"
    then have "CHR ''+'' \<in> set (to_hex (15 # bs))" by (metis append_Cons list.set_intros(1))
    then obtain n where "n < 16" "CHR ''+'' = hex_char n" using to_hex_chars by blast
    moreover have "(of_char (CHR ''+'') :: nat) < 48" by simp
    ultimately show False using hex_char_not [of n "CHR ''+''"] by simp
  qed
  let ?p = "''0'' @ [char_of (195 :: nat), char_of (169 :: nat)] @ replicate 37 (CHR ''0'')"
  have "str_slice ?p 0 2 = None"
    by (simp add: str_slice_def is_char_boundary_def is_continuation_def numeral_2_eq_2 Let_def)
  then have "str_slice ?p 0 (Suc (Suc 0)) = None" by (simp only: numeral_2_eq_2)
  moreover have "[0..<20] = 0 # [1..<20]" by (simp add: upt_conv_Cons)
  ultimately have "parse_sha ?p = Panic" by (simp add: parse_sha_def del: upt_rec_numeral)
  with one two show ?thesis by blast
qed

theorem parse_sha_not_only_hex_witness:
  "parse_sha (''+f'' @ to_hex (replicate 19 0)) = Ok (Some (ChunkHash (15 # replicate 19 0)))"
  using parse_sha_not_only_hex [of "replicate 19 0"] by simp

section \<open>The scan\<close>

definition good_row :: "dir_row \<Rightarrow> bool" where
  "good_row r \<longleftrightarrow> (\<exists>len. row_len r = Ok len) \<and>
     (\<forall>n. row_name r = Some n \<longrightarrow> length n \<noteq> 40 \<or> (\<exists>bs. length bs = 20 \<and> n = to_hex bs))"

definition row_chunk :: "dir_row \<Rightarrow> chunk_hash option" where
  "row_chunk r = (case row_name r of
     None \<Rightarrow> None | Some n \<Rightarrow> (case parse_sha n of Ok h \<Rightarrow> h | _ \<Rightarrow> None))"

lemma good_row_parse:
  "good_row r \<Longrightarrow> row_name r = Some n \<Longrightarrow> parse_sha n = Ok (row_chunk r)"
  using parse_sha_hex parse_sha_length by (fastforce simp: good_row_def row_chunk_def)

lemma row_chunk_iff:
  assumes "good_row r" and "length (hash_bytes h) = 20"
  shows "row_chunk r = Some h \<longleftrightarrow> row_name r = Some (to_hex (hash_bytes h))"
proof -
  have "row_chunk r = Some h \<Longrightarrow> row_name r = Some (to_hex (hash_bytes h))"
  proof -
    assume "row_chunk r = Some h"
    then obtain n where n1: "row_name r = Some n" by (auto simp: row_chunk_def split: option.splits)
    then have n: "row_name r = Some n" "parse_sha n = Ok (Some h)"
      using good_row_parse [OF assms(1) n1] \<open>row_chunk r = Some h\<close> by simp_all
    then have "length n = 40" using parse_sha_length [of n] by (cases "length n = 40") simp_all
    then obtain bs where bs: "length bs = 20" "n = to_hex bs" using assms(1) n(1) by (auto simp: good_row_def)
    then show ?thesis using n parse_sha_hex [of bs] by auto
  qed
  moreover have "row_name r = Some (to_hex (hash_bytes h)) \<Longrightarrow> row_chunk r = Some h"
    using parse_sha_hex [OF assms(2)] by (simp add: row_chunk_def)
  ultimately show ?thesis by blast
qed

definition row_bytes :: "dir_row \<Rightarrow> u64" where
  "row_bytes r = (case row_len r of Ok len \<Rightarrow> len | _ \<Rightarrow> 0)"

lemma scan_rows_good:
  "\<forall>r \<in> set rs. good_row r \<Longrightarrow> \<exists>sc'. scan_rows (map Ok rs) sc = Ok sc' \<and>
     set (scan_shas sc') = set (scan_shas sc) \<union> {h. \<exists>r \<in> set rs. row_chunk r = Some h} \<and>
     scan_count sc' = scan_count sc + word_of_nat (length (filter (\<lambda>r. row_chunk r \<noteq> None) rs)) \<and>
     scan_bytes sc' = scan_bytes sc + sum_list (map row_bytes (filter (\<lambda>r. row_chunk r \<noteq> None) rs))"
proof (induction rs arbitrary: sc)
  case (Cons r rs)
  show ?case
  proof (cases "row_chunk r")
    case None
    then have "scan_rows (map Ok (r # rs)) sc = scan_rows (map Ok rs) sc"
      using good_row_parse [of r] Cons.prems by (cases "row_name r") auto
    then show ?thesis using Cons.IH [of sc] Cons.prems None by auto
  next
    case (Some h)
    then obtain n where n: "row_name r = Some n" by (auto simp: row_chunk_def split: option.splits)
    obtain len where len: "row_len r = Ok len" using Cons.prems by (auto simp: good_row_def)
    let ?sc = "\<lparr>scan_shas = List.insert h (scan_shas sc), scan_bytes = scan_bytes sc + len,
                scan_count = scan_count sc + 1\<rparr>"
    have "scan_rows (map Ok (r # rs)) sc = scan_rows (map Ok rs) ?sc"
      using good_row_parse [of r n] Cons.prems n Some len by simp
    then show ?thesis using Cons.IH [of ?sc] Cons.prems Some len
      by (auto simp: row_bytes_def algebra_simps)
  qed
qed simp

lemma names_on_disk_good:
  "\<forall>r \<in> set rs. good_row r \<Longrightarrow> \<exists>out'. names_on_disk (map Ok rs) out = Ok out' \<and>
     set out' = set out \<union> {h. \<exists>r \<in> set rs. row_chunk r = Some h} \<and> (distinct out \<longrightarrow> distinct out')"
proof (induction rs arbitrary: out)
  case (Cons r rs)
  show ?case
  proof (cases "row_chunk r")
    case None
    then have "names_on_disk (map Ok (r # rs)) out = names_on_disk (map Ok rs) out"
      using good_row_parse [of r] Cons.prems by (cases "row_name r") auto
    then show ?thesis using Cons.IH [of out] Cons.prems None by auto
  next
    case (Some h)
    then obtain n where n: "row_name r = Some n" by (auto simp: row_chunk_def split: option.splits)
    have "names_on_disk (map Ok (r # rs)) out = names_on_disk (map Ok rs) (List.insert h out)"
      using good_row_parse [of r n] Cons.prems n Some by simp
    then show ?thesis using Cons.IH [of "List.insert h out"] Cons.prems Some
      by (auto simp: distinct_insert)
  qed
qed simp

text \<open>
  The scans find the chunks.  Over a directory that can be read and whose forty-byte names
  are hex names, a hash is in the scan of \<open>stats\<close>, and in that of \<open>prefetch\<close>, just when a file
  has its name; the count is the number of those files; and no directory means an empty cache.
\<close>

theorem scan_finds_chunks:
  assumes "read_dir root = Ok (map Ok rs)" and "\<forall>r \<in> set rs. good_row r"
  shows "\<exists>sc out. scan_chunks read_dir root = Ok sc \<and> scan_chunks_on_disk read_dir root = Ok out \<and>
    distinct out \<and> set out = set (scan_shas sc) \<and>
    (\<forall>h. length (hash_bytes h) = 20 \<longrightarrow>
       (h \<in> set out \<longleftrightarrow> (\<exists>r \<in> set rs. row_name r = Some (to_hex (hash_bytes h))))) \<and>
    scan_count sc = word_of_nat (length (filter (\<lambda>r. row_chunk r \<noteq> None) rs))"
  using scan_rows_good [OF assms(2), of empty_scan] names_on_disk_good [OF assms(2), of "[]"]
    row_chunk_iff assms
  by (fastforce simp: scan_chunks_def scan_chunks_on_disk_def empty_scan_def)

definition demo_row :: "string \<Rightarrow> u64 \<Rightarrow> dir_row" where
  "demo_row n len = \<lparr>row_raw = n, row_name = Some n, row_len = Ok len, row_is_file = Ok True\<rparr>"

theorem scan_finds_chunks_witness:
  "\<exists>sc. scan_chunks (\<lambda>_. Ok (map Ok [demo_row (to_hex (pad20 [1])) 5, demo_row ''notes'' 7])) [''c''] = Ok sc \<and>
     ChunkHash (pad20 [1]) \<in> set (scan_shas sc)"
proof -
  let ?rs = "[demo_row (to_hex (pad20 [1])) 5, demo_row ''notes'' 7]"
  have "length (pad20 [1]) = 20" by (simp add: pad20_def)
  then have "\<forall>r \<in> set ?rs. good_row r" by (auto simp: good_row_def demo_row_def)
  from scan_finds_chunks [of "\<lambda>_. Ok (map Ok ?rs)" "[''c'']", OF refl this]
  obtain sc out where *: "scan_chunks (\<lambda>_. Ok (map Ok ?rs)) [''c''] = Ok sc" "set out = set (scan_shas sc)"
    "\<forall>h. length (hash_bytes h) = 20 \<longrightarrow> (h \<in> set out \<longleftrightarrow> (\<exists>r \<in> set ?rs. row_name r = Some (to_hex (hash_bytes h))))"
    by blast
  have "length (hash_bytes (ChunkHash (pad20 [1]))) = 20" by (simp add: pad20_def)
  moreover have "\<exists>r \<in> set ?rs. row_name r = Some (to_hex (hash_bytes (ChunkHash (pad20 [1]))))"
    by (simp add: demo_row_def)
  ultimately have "ChunkHash (pad20 [1]) \<in> set (scan_shas sc)" using *(2,3) by blast
  then show ?thesis using *(1) by blast
qed

section \<open>The verification pass\<close>

text \<open>What the file of a name is: hashing to the name, hashing to something else, not there.\<close>

definition sha_file :: "'l chunk_env \<Rightarrow> path \<Rightarrow> fsys \<Rightarrow> chunk_hash \<Rightarrow> bytes option" where
  "sha_file env root fs h = fs_files fs (root @ [ce_hex env h])"

definition hashes_to_name :: "'l chunk_env \<Rightarrow> path \<Rightarrow> fsys \<Rightarrow> chunk_hash \<Rightarrow> bool" where
  "hashes_to_name env root fs h \<longleftrightarrow>
     (case sha_file env root fs h of Some b \<Rightarrow> ce_sha1 env b = hash_bytes h | None \<Rightarrow> False)"

lemma verify_job_calm:
  assumes "fs_faults fs = []"
  shows "verify_job env root h (r, fs) =
    (case sha_file env root fs h of
       Some b \<Rightarrow>
         ((if ce_sha1 env b = hash_bytes h then r\<lparr>vr_ok := vr_ok r + 1, vr_total_bytes := vr_total_bytes r + len64 b\<rparr>
           else r\<lparr>vr_mismatched := vr_mismatched r @ [h], vr_total_bytes := vr_total_bytes r + len64 b\<rparr>), fs)
     | None \<Rightarrow> (r\<lparr>vr_errored := vr_errored r @ [(h, OsError KNotFound)]\<rparr>, fs))"
  using assms
  by (simp add: verify_job_def verify_one_def fs_read_def next_fault_quiet sha_file_def split: option.split)

lemma verify_fold_calm:
  assumes "fs_faults fs = []"
  shows "\<exists>r'. fold (verify_job env root) shas (r, fs) = (r', fs) \<and>
    vr_ok r' = vr_ok r + word_of_nat (length (filter (hashes_to_name env root fs) shas)) \<and>
    vr_mismatched r' = vr_mismatched r @ filter (\<lambda>h. sha_file env root fs h \<noteq> None \<and> \<not> hashes_to_name env root fs h) shas \<and>
    map fst (vr_errored r') = map fst (vr_errored r) @ filter (\<lambda>h. sha_file env root fs h = None) shas"
proof (induction shas arbitrary: r)
  case (Cons h shas)
  obtain r1 where r1: "verify_job env root h (r, fs) = (r1, fs)"
    "vr_ok r1 = vr_ok r + (if hashes_to_name env root fs h then 1 else 0)"
    "vr_mismatched r1 = vr_mismatched r @ (if sha_file env root fs h \<noteq> None \<and> \<not> hashes_to_name env root fs h then [h] else [])"
    "map fst (vr_errored r1) = map fst (vr_errored r) @ (if sha_file env root fs h = None then [h] else [])"
    unfolding verify_job_calm [OF assms] by (cases "sha_file env root fs h") (auto simp: hashes_to_name_def)
  then show ?case using Cons.IH [of r1] by (auto simp: algebra_simps)
qed simp

lemma verify_cache_fs:
  "fs_faults fs = [] \<Longrightarrow> verify_cache env root shas fs = (r, fs') \<Longrightarrow> fs' = fs"
  unfolding verify_cache_def by (metis prod.inject verify_fold_calm)

lemma stats_verify_fold:
  assumes "fold (verify_job env root) shas (r, fs) = (r', fs')"
  shows "fold (stats_verify_job env root) shas ((vr_ok r, vr_mismatched r, vr_errored r), fs) =
    ((vr_ok r', vr_mismatched r', vr_errored r'), fs')"
  using assms
proof (induction shas arbitrary: r fs)
  case (Cons h shas)
  obtain r1 fs1 where j: "verify_job env root h (r, fs) = (r1, fs1)" by fastforce
  then have "stats_verify_job env root h ((vr_ok r, vr_mismatched r, vr_errored r), fs) =
      ((vr_ok r1, vr_mismatched r1, vr_errored r1), fs1)"
    by (auto simp: verify_job_def stats_verify_job_def verify_one_def stats_verify_one_def
        split: prod.splits outcome.splits bool.splits)
  then show ?case using Cons.IH [of r1 fs1] Cons.prems j by simp
qed simp

text \<open>
  A verification pass sorts every name into exactly one of the three heaps, in whatever
  order the workers take the jobs: hashing to its name, mismatched, unreadable.  It changes
  nothing on the disk, and the copy of the code in \<open>stats\<close> reports the same.
\<close>

theorem verify_partition:
  assumes "fs_faults fs = []" and "mset done_order = mset shas" and "length shas < 2 ^ 64"
    and "verify_cache env root done_order fs = (r, fs')"
  shows "fs' = fs \<and>
    unat (vr_ok r) = length (filter (hashes_to_name env root fs) shas) \<and>
    mset (vr_mismatched r) = mset (filter (\<lambda>h. sha_file env root fs h \<noteq> None \<and> \<not> hashes_to_name env root fs h) shas) \<and>
    mset (map fst (vr_errored r)) = mset (filter (\<lambda>h. sha_file env root fs h = None) shas) \<and>
    unat (vr_ok r) + length (vr_mismatched r) + length (vr_errored r) = length shas \<and>
    stats_verify_cache env root done_order fs = ((vr_ok r, vr_mismatched r, vr_errored r), fs)"
proof -
  let ?ok = "hashes_to_name env root fs" and ?here = "\<lambda>h. sha_file env root fs h \<noteq> None"
  let ?r0 = "\<lparr>vr_ok = 0, vr_mismatched = [], vr_errored = [], vr_total_bytes = 0\<rparr>"
  from verify_fold_calm [OF assms(1), of env root done_order ?r0] assms(4)
  have f: "fs' = fs" "vr_ok r = word_of_nat (length (filter ?ok done_order))"
    "vr_mismatched r = filter (\<lambda>h. ?here h \<and> \<not> ?ok h) done_order"
    "map fst (vr_errored r) = filter (\<lambda>h. \<not> ?here h) done_order"
    by (auto simp: verify_cache_def)
  have len: "length (filter P done_order) = length (filter P shas)" for P
    using assms(2) by (metis mset_filter size_mset)
  have "unat (vr_ok r) = length (filter ?ok shas)"
  proof -
    have "length (filter ?ok shas) < 2 ^ 64" using length_filter_le [of ?ok shas] assms(3) by (rule le_less_trans)
    then show ?thesis using f(2) len [of ?ok] by (simp add: unat_of_nat)
  qed
  moreover have "length (filter ?ok shas) + length (filter (\<lambda>h. ?here h \<and> \<not> ?ok h) shas) +
      length (filter (\<lambda>h. \<not> ?here h) shas) = length shas"
    by (induction shas) (auto simp: hashes_to_name_def split: option.splits)
  moreover have "length (vr_errored r) = length (filter (\<lambda>h. \<not> ?here h) shas)"
    using f(4) len by (metis length_map)
  moreover have "stats_verify_cache env root done_order fs = ((vr_ok r, vr_mismatched r, vr_errored r), fs)"
    using stats_verify_fold [of env root done_order ?r0 fs r fs'] assms(4) f(1)
    by (simp add: stats_verify_cache_def verify_cache_def)
  ultimately show ?thesis using f assms(2) len by (simp add: mset_filter)
qed

definition one_chunk_fs :: fsys where
  "one_chunk_fs = \<lparr>fs_files = [[''c'', to_hex (pad20 [9])] \<mapsto> [1, 2, 3]], fs_faults = []\<rparr>"

theorem verify_partition_witness:
  "\<exists>r. verify_cache std_env [''c''] [ChunkHash (pad20 [9]), ChunkHash (pad20 [8])] one_chunk_fs = (r, one_chunk_fs) \<and>
     unat (vr_ok r) + length (vr_mismatched r) + length (vr_errored r) = 2"
proof -
  let ?l = "[ChunkHash (pad20 [9]), ChunkHash (pad20 [8])]"
  obtain r fs' where r: "verify_cache std_env [''c''] ?l one_chunk_fs = (r, fs')" by fastforce
  have "fs_faults one_chunk_fs = []" by (simp add: one_chunk_fs_def)
  from verify_partition [OF this refl _ r] r show ?thesis by simp
qed

text \<open>
  The verification hashes the wrong bytes.  A chunk file holds a compressed frame while its
  name is the hash of the plaintext, so every file the cache itself accepts and serves is
  reported as mismatched, unless its frame happens to hash to the same name as its plaintext.
\<close>

theorem verify_condemns_good_chunks:
  assumes "fs_faults fs = []" and "\<forall>h \<in> set shas. \<exists>fr b. fs_files fs (path_for env dir h) = Some fr \<and>
      decode_frame env fr = Some (h, b) \<and> ce_sha1 env b = hash_bytes h \<and> ce_sha1 env fr \<noteq> hash_bytes h"
    and "verify_cache env (cd_root dir) shas fs = (r, fs')"
  shows "vr_ok r = 0 \<and> vr_mismatched r = shas \<and> vr_errored r = [] \<and>
    (\<forall>h \<in> set shas. \<forall>w. cw_fs w = fs \<longrightarrow>
       (\<exists>b. fst (read_verified env h (path_for env dir h) w) = Some b \<and> ce_sha1 env b = hash_bytes h))"
proof -
  let ?r0 = "\<lparr>vr_ok = 0, vr_mismatched = [], vr_errored = [], vr_total_bytes = 0\<rparr>"
  have h: "sha_file env (cd_root dir) fs h \<noteq> None" "\<not> hashes_to_name env (cd_root dir) fs h" if "h \<in> set shas" for h
    using assms(2) that by (auto simp: hashes_to_name_def sha_file_def path_for_def)
  from verify_fold_calm [OF assms(1), of env "cd_root dir" shas ?r0] assms(3)
  have f: "vr_ok r = word_of_nat (length (filter (hashes_to_name env (cd_root dir) fs) shas))"
    "vr_mismatched r = filter (\<lambda>h. sha_file env (cd_root dir) fs h \<noteq> None \<and> \<not> hashes_to_name env (cd_root dir) fs h) shas"
    "map fst (vr_errored r) = filter (\<lambda>h. sha_file env (cd_root dir) fs h = None) shas"
    by (auto simp: verify_cache_def)
  have e: "filter (hashes_to_name env (cd_root dir) fs) shas = []"
    "filter (\<lambda>h. sha_file env (cd_root dir) fs h \<noteq> None \<and> \<not> hashes_to_name env (cd_root dir) fs h) shas = shas"
    "filter (\<lambda>h. sha_file env (cd_root dir) fs h = None) shas = []"
    using h by (auto simp: filter_empty_conv filter_id_conv)
  have "\<exists>b. fst (read_verified env h (path_for env dir h) w) = Some b \<and> ce_sha1 env b = hash_bytes h"
    if "h \<in> set shas" "cw_fs w = fs" for h and w :: "('a, 'b) cache_world"
    using assms(1,2) that
    by (fastforce simp: read_verified_def fs_read_def next_fault_quiet Let_def)
  then show ?thesis using f e by auto
qed

theorem verify_condemns_good_chunks_witness:
  "\<exists>fr r. encode_frame std_env [9] = Ok fr \<and>
     verify_cache std_env [''c''] [ChunkHash (pad20 [9])]
       \<lparr>fs_files = [[''c'', to_hex (pad20 [9])] \<mapsto> fr], fs_faults = []\<rparr> =
       (r, \<lparr>fs_files = [[''c'', to_hex (pad20 [9])] \<mapsto> fr], fs_faults = []\<rparr>) \<and>
     vr_mismatched r = [ChunkHash (pad20 [9])]"
proof -
  let ?fr = "to_le_bytes (len64 [9 :: u8]) @ pad20 [9] @ [9]"
  let ?fs = "\<lparr>fs_files = [[''c'', to_hex (pad20 [9])] \<mapsto> ?fr], fs_faults = []\<rparr>"
  let ?dir = "chunk_dir_new [''c'']"
  have enc: "encode_frame std_env [9] = Ok ?fr"
    by (simp add: encode_frame_def encode_frame_as_def std_env_def)
  have dec: "decode_frame std_env ?fr = Some (ChunkHash (pad20 [9]), [9])"
    using decode_encode_as [of std_env "[9]" "pad20 [9]" ?fr] std_env_ok enc
    by (simp add: env_ok_def encode_frame_def std_env_def pad20_def MAX_PLAIN_LEN_def)
  have "from_le_bytes (to_le_bytes (len64 [9 :: u8])) = 1" by (simp add: from_to_le_bytes len64_def)
  have ne: "pad20 ?fr \<noteq> pad20 [9]"
    by (simp add: pad20_def to_le_bytes_def len64_def upt_rec)
  obtain r fs' where r: "verify_cache std_env (cd_root ?dir) [ChunkHash (pad20 [9])] ?fs = (r, fs')" by fastforce
  have p: "path_for std_env ?dir (ChunkHash (pad20 [9])) = [''c'', to_hex (pad20 [9])]"
    by (simp add: path_for_def chunk_dir_new_def std_env_def)
  have this0: "\<forall>h \<in> set [ChunkHash (pad20 [9])]. \<exists>fr b. fs_files ?fs (path_for std_env ?dir h) = Some fr \<and>
      decode_frame std_env fr = Some (h, b) \<and> ce_sha1 std_env b = hash_bytes h \<and> ce_sha1 std_env fr \<noteq> hash_bytes h"
    using dec ne p by (simp add: std_env_def)
  have c: "fs_faults ?fs = []" by simp
  from verify_condemns_good_chunks [OF c this0 r] have "vr_mismatched r = [ChunkHash (pad20 [9])]" by blast
  moreover have "fs' = ?fs"
    by (rule verify_cache_fs [OF c r])
  ultimately show ?thesis using enc r by (auto simp: chunk_dir_new_def)
qed

section \<open>The counters\<close>

lemma fold_concat: "fold (\<lambda>x. fold g (h x)) xs st = fold g (concat (map h xs)) st"
  by (induction xs arbitrary: st) simp_all

text \<open>The first chunk of each hash, for hashes not seen before.\<close>

fun firsts :: "chunk_hash list \<Rightarrow> chunk list \<Rightarrow> chunk list" where
  "firsts seen [] = []"
| "firsts seen (c # cs) =
     (if c_sha c \<in> set seen then firsts seen cs else c # firsts (seen @ [c_sha c]) cs)"

lemma firsts_sub: "set (firsts seen cs) \<subseteq> set cs" "length (firsts seen cs) \<le> length cs"
  by (induction seen cs rule: firsts.induct) auto

lemma firsts_shas: "c_sha ` set (firsts seen cs) = c_sha ` set cs - set seen"
  by (induction seen cs rule: firsts.induct) auto

lemma firsts_distinct: "distinct (map c_sha (firsts seen cs))"
proof (induction seen cs rule: firsts.induct)
  case (2 seen c cs)
  then show ?case using firsts_shas [of "seen @ [c_sha c]" cs] by auto
qed simp

abbreviation usize_compr :: "chunk \<Rightarrow> u64" where
  "usize_compr c \<equiv> ucast (c_size_compressed c)"

lemma count_chunks_fold:
  fixes cs :: "chunk list"
  defines "here \<equiv> \<lambda>cache c. c_sha c \<in> set (scan_shas cache)"
  shows "st_unique (fold (count_chunk cache) cs st) = st_unique st @ map c_sha (firsts (st_unique st) cs)"
    and "st_uncompr (fold (count_chunk cache) cs st) =
      st_uncompr st + sum_list (map (ucast \<circ> c_size_uncompressed) (firsts (st_unique st) cs))"
    and "st_compr (fold (count_chunk cache) cs st) =
      st_compr st + sum_list (map usize_compr (firsts (st_unique st) cs))"
    and "st_fetched_compr (fold (count_chunk cache) cs st) =
      st_fetched_compr st + sum_list (map usize_compr (filter (here cache) (firsts (st_unique st) cs)))"
    and "st_chunks (fold (count_chunk cache) cs st) =
      st_chunks st + word_of_nat (length (firsts (st_unique st) cs))"
    and "st_fetched_chunks (fold (count_chunk cache) cs st) =
      st_fetched_chunks st + word_of_nat (length (filter (here cache) (firsts (st_unique st) cs)))"
  by (induction cs arbitrary: st)
    (auto simp: count_chunk_def here_def Let_def algebra_simps)

text \<open>A sum of at most \<open>2^32\<close> sizes of 32 bits does not wrap in 64.\<close>

lemma sum_u32_no_wrap:
  fixes f :: "'a \<Rightarrow> u32"
  assumes "length xs \<le> 2 ^ 32"
  shows "unat (sum_list (map (\<lambda>x. ucast (f x) :: u64) xs)) = sum_list (map (unat \<circ> f) xs)"
proof -
  have bound: "sum_list (map (unat \<circ> f) ys) \<le> length ys * (2 ^ 32 - 1)" for ys :: "'a list"
  proof (induction ys)
    case (Cons y ys)
    have "unat (f y) \<le> 2 ^ 32 - 1" using unsigned_less [of "f y", where 'a = nat] by simp
    then show ?case using Cons by simp
  qed simp
  have "length ys \<le> 2 ^ 32 \<Longrightarrow>
      unat (sum_list (map (\<lambda>x. ucast (f x) :: u64) ys)) = sum_list (map (unat \<circ> f) ys)" for ys
  proof (induction ys)
    case (Cons y ys)
    have "sum_list (map (unat \<circ> f) (y # ys)) \<le> length (y # ys) * (2 ^ 32 - 1)" by (rule bound)
    also have "\<dots> \<le> 2 ^ 32 * (2 ^ 32 - 1)" using Cons.prems by (rule mult_le_mono1)
    finally have lt: "unat (f y) + sum_list (map (unat \<circ> f) ys) < 2 ^ 64" by simp
    have "unat (ucast (f y) + sum_list (map (\<lambda>x. ucast (f x) :: u64) ys)) =
        (unat (f y) + sum_list (map (unat \<circ> f) ys)) mod 2 ^ 64"
      using Cons by (simp add: unat_word_ariths unat_ucast_u32_u64 comp_def)
    then show ?case using lt by (simp add: comp_def)
  qed simp
  then show ?thesis using assms by blast
qed

lemma or_insert_keys: "set (map fst (or_insert k v m)) = insert k (set (map fst m))"
  by (auto simp: or_insert_def map_of_eq_None_iff split: option.split dest: map_of_SomeD
      intro: rev_image_eqI)

lemma or_insert_distinct: "distinct (map fst m) \<Longrightarrow> distinct (map fst (or_insert k v m))"
  by (auto simp: or_insert_def map_of_eq_None_iff split: option.split)

lemma count_chunks_all:
  assumes "set (st_unique st) \<subseteq> set (map fst (st_all st))" and "distinct (map fst (st_all st))"
  shows "set (map fst (st_all (fold (count_chunk cache) cs st))) = set (map fst (st_all st)) \<union> c_sha ` set cs \<and>
    distinct (map fst (st_all (fold (count_chunk cache) cs st)))"
  using assms
proof (induction cs arbitrary: st)
  case (Cons c cs)
  show ?case
  proof (cases "c_sha c \<in> set (st_unique st)")
    case True
    then show ?thesis using Cons.IH [of st] Cons.prems by (auto simp: count_chunk_def)
  next
    case False
    let ?st = "count_chunk cache c st"
    have k: "set (map fst (st_all ?st)) = insert (c_sha c) (set (map fst (st_all st)))"
      "st_unique ?st = st_unique st @ [c_sha c]" "distinct (map fst (st_all ?st))"
      using False or_insert_keys or_insert_distinct [OF Cons.prems(2)]
      by (simp_all add: count_chunk_def Let_def)
    show ?thesis using Cons.IH [of ?st] Cons.prems(1) k by auto
  qed
qed simp

text \<open>
  The statistics of a manifest count every distinct chunk once: the totals are the sums over
  the first chunk of each hash, the fetched ones those whose file is there, so never more than
  the totals; with at most \<open>2^32\<close> chunks no counter wraps.  The table shared between manifests
  gains exactly their hashes, each once.
\<close>

theorem manifest_stats_exact:
  assumes "length cs \<le> 2 ^ 32" and "cs = concat (map (api_chunks api) (m_files m))"
    and "distinct (map fst all)" and "st = manifest_stats api cache all m"
  shows "unat (st_compr st) = sum_list (map (unat \<circ> c_size_compressed) (firsts [] cs)) \<and>
    unat (st_uncompr st) = sum_list (map (unat \<circ> c_size_uncompressed) (firsts [] cs)) \<and>
    unat (st_fetched_compr st) = sum_list (map (unat \<circ> c_size_compressed)
      (filter (\<lambda>c. c_sha c \<in> set (scan_shas cache)) (firsts [] cs))) \<and>
    unat (st_chunks st) = card (c_sha ` set cs) \<and>
    unat (st_fetched_chunks st) = card (c_sha ` set cs \<inter> set (scan_shas cache)) \<and>
    st_fetched_compr st \<le> st_compr st \<and>
    set (map fst (st_all st)) = set (map fst all) \<union> c_sha ` set cs \<and> distinct (map fst (st_all st))"
proof -
  let ?st0 = "\<lparr>st_uncompr = 0, st_compr = 0, st_fetched_compr = 0, st_chunks = 0, st_fetched_chunks = 0,
        st_unique = [], st_all = all\<rparr>"
  let ?fs = "firsts [] cs" and ?here = "\<lambda>c. c_sha c \<in> set (scan_shas cache)"
  have st: "st = fold (count_chunk cache) cs ?st0"
    unfolding assms(2,4) manifest_stats_def by (rule fold_concat)
  note c = count_chunks_fold [of cache cs ?st0, folded st, simplified]
  have len: "length ?fs \<le> 2 ^ 32" using firsts_sub(2) [of "[]" cs] assms(1) by simp
  have lenf: "length (filter ?here ?fs) \<le> 2 ^ 32" using len length_filter_le le_trans by blast
  have compr: "unat (st_compr st) = sum_list (map (unat \<circ> c_size_compressed) ?fs)"
    using sum_u32_no_wrap [OF len, of c_size_compressed] c(3) by simp
  have uncompr: "unat (st_uncompr st) = sum_list (map (unat \<circ> c_size_uncompressed) ?fs)"
    using sum_u32_no_wrap [OF len, of c_size_uncompressed] c(2) by (simp add: comp_def)
  have fetched: "unat (st_fetched_compr st) = sum_list (map (unat \<circ> c_size_compressed) (filter ?here ?fs))"
    using sum_u32_no_wrap [OF lenf, of c_size_compressed] c(4) by simp
  have card: "length ?fs = card (c_sha ` set cs)"
    using distinct_card [OF firsts_distinct [of "[]" cs]] firsts_shas [of "[]" cs] by simp
  have "c_sha ` set (filter ?here ?fs) = c_sha ` set cs \<inter> set (scan_shas cache)"
  proof -
    have "c_sha ` set (filter ?here ?fs) = c_sha ` set ?fs \<inter> set (scan_shas cache)" by auto
    then show ?thesis using firsts_shas [of "[]" cs] by simp
  qed
  moreover have "distinct (map c_sha (filter ?here ?fs))"
    using firsts_distinct [of "[]" cs] by (simp add: distinct_map_filter)
  ultimately have cardf: "length (filter ?here ?fs) = card (c_sha ` set cs \<inter> set (scan_shas cache))"
    using distinct_card [of "map c_sha (filter ?here ?fs)"] by simp
  have "sum_list (map g (filter P ys)) \<le> sum_list (map g ys)" for g :: "chunk \<Rightarrow> nat" and P ys
    by (induction ys) auto
  then have "st_fetched_compr st \<le> st_compr st"
    using compr fetched by (simp add: word_le_nat_alt)
  moreover have "unat (st_chunks st) = card (c_sha ` set cs)"
    using c(5) card len by (simp add: unat_of_nat)
  moreover have "unat (st_fetched_chunks st) = card (c_sha ` set cs \<inter> set (scan_shas cache))"
    using c(6) cardf lenf by (simp add: unat_of_nat)
  moreover have "set (map fst (st_all st)) = set (map fst all) \<union> c_sha ` set cs \<and> distinct (map fst (st_all st))"
    using count_chunks_all [of ?st0 cache cs] assms(3) st by simp
  ultimately show ?thesis using compr uncompr fetched by blast
qed

section \<open>Pruning\<close>

lemma prune_rows_cases:
  assumes "prune_rows root (row # rows) n fs = (r, fs')"
  obtains (stop) "fs' = fs" "\<forall>k. r \<noteq> Ok k" "\<forall>d. row \<noteq> Ok d"
  | (skip) d where "row = Ok d" "row_is_file d \<noteq> Ok True" "prune_rows root rows n fs = (r, fs')"
  | (fail) d where "row = Ok d" "\<forall>k. r \<noteq> Ok k"
      "fs_files fs' = fs_files fs \<or> fs_files fs' = (fs_files fs)(root @ [row_raw d] := None)"
  | (gone) d fs1 where "row = Ok d" "fs_files fs1 = (fs_files fs)(root @ [row_raw d] := None)"
      "prune_rows root rows (n + 1) fs1 = (r, fs')"
proof (cases row)
  case row: (Ok d)
  show ?thesis
  proof (cases "row_is_file d = Ok True")
    case True
    obtain q fs1 where q: "fs_remove_file (root @ [row_raw d]) fs = (q, fs1)" by fastforce
    note q' = fs_remove_files [OF q]
    show ?thesis
    proof (cases q)
      case (Ok u)
      have "fs_files fs1 = (fs_files fs)(root @ [row_raw d] := None)"
        using q Ok by (auto simp: fs_remove_file_def split: prod.splits option.splits)
      then show ?thesis using gone [OF row] assms row True q Ok by simp
    next
      case (Err e)
      then show ?thesis using fail [OF row] assms row True q q' by auto
    next
      case Panic
      then show ?thesis using fail [OF row] assms row True q q' by auto
    qed
  qed (use skip [OF row] assms row in auto)
qed (use stop assms in auto)

lemma prune_rows_only:
  "prune_rows root rows n fs = (r, fs') \<Longrightarrow> fs_files fs' q = fs_files fs q \<or>
     (fs_files fs' q = None \<and> butlast q = root)"
proof (induction rows arbitrary: n fs)
  case (Cons row rows)
  from Cons.prems show ?case
    by (cases rule: prune_rows_cases) (use Cons.IH in \<open>fastforce split: if_splits\<close>)+
qed simp

lemma prune_rows_gone:
  "prune_rows root rows n fs = (Ok k, fs') \<Longrightarrow> Ok d \<in> set rows \<Longrightarrow> row_is_file d = Ok True \<Longrightarrow>
     fs_files fs' (root @ [row_raw d]) = None"
proof (induction rows arbitrary: n fs)
  case (Cons row rows)
  from Cons.prems(1) show ?case
  proof (cases rule: prune_rows_cases)
    case (gone d' fs1)
    then show ?thesis using Cons.IH [OF gone(3)] Cons.prems(2,3)
        prune_rows_only [OF gone(3), of "root @ [row_raw d]"] by auto
  qed (use Cons in auto)
qed simp


section \<open>A small store\<close>

definition demo_scan :: chunk_scan where
  "demo_scan = \<lparr>scan_shas = [demo_hash [5, 6, 7]], scan_bytes = 31, scan_count = 1\<rparr>"

theorem manifest_stats_exact_witness:
  "unat (st_chunks (manifest_stats std_depot_api demo_scan [] demo_manifest)) = 2 \<and>
   unat (st_fetched_chunks (manifest_stats std_depot_api demo_scan [] demo_manifest)) = 1"
proof -
  let ?cs = "concat (map (api_chunks std_depot_api) (m_files demo_manifest))"
  have cs: "c_sha ` set ?cs = {demo_hash [1, 2, 3, 4], demo_hash [5, 6, 7]}" "length ?cs \<le> 2 ^ 32"
    by (simp_all add: demo_manifest_def demo_file_def demo_dir_def std_depot_api_def)
  have "card {demo_hash [1, 2, 3, 4], demo_hash [5, 6, 7]} = 2" using demo_hash_ne by simp
  moreover have "{demo_hash [1, 2, 3, 4], demo_hash [5, 6, 7]} \<inter> set (scan_shas demo_scan) = {demo_hash [5, 6, 7]}"
    by (auto simp: demo_scan_def)
  ultimately show ?thesis
    using manifest_stats_exact [OF cs(2) refl _ refl, of "[]" demo_scan] cs(1) by simp
qed

definition demo_listing :: "fsys \<Rightarrow> path \<Rightarrow> file_rows" where
  "demo_listing fs p = Ok [Ok (demo_row (to_hex (pad20 [9])) 3)]"


end
