(* ===== verification/Mount_Tree.thy ===== *)
theory Mount_Tree
  imports Depot_Read
    "HOL-Library.AList"
begin

unbundle bit_operations_syntax

text \<open>
  \<open>inode.rs\<close> and \<open>tree.rs\<close> of the mount: node ids that pack a snapshot id and an index into 64
  bits, and the tree of synthetic directories \<open>/app/depot/gid\<close> over the mounted snapshots.

  A \<open>HashMap\<close> is an association list; nothing below depends on its order.  A snapshot not
  yet opened carries its opener, a value of the parameter type \<open>'o\<close>, and the address of its
  \<open>OnceCell\<close>, whose content is part of the state of theory \<open>View\<close>.
\<close>

section \<open>Node ids\<close>

type_synonym ino = u64
type_synonym sid = u16

definition SYNTHETIC :: sid where
  "SYNTHETIC = 0"

definition ROOT :: ino where
  "ROOT = 1"

definition SNAPSHOT_SHIFT :: nat where
  "SNAPSHOT_SHIFT = 48"

definition INDEX_MASK :: u64 where
  "INDEX_MASK = push_bit SNAPSHOT_SHIFT 1 - 1"

definition pack :: "sid \<Rightarrow> u64 \<Rightarrow> ino" where
  "pack snapshot index = push_bit SNAPSHOT_SHIFT (ucast snapshot) OR index"

definition unpack :: "ino \<Rightarrow> sid \<times> u64" where
  "unpack i = (ucast (drop_bit SNAPSHOT_SHIFT i), i AND INDEX_MASK)"

section \<open>The tree\<close>

datatype snapshot_id = SnapshotId (sid_raw: sid)

record 's snapshot_entry =
  se_snapshot :: "'s depot_store"

record 'o lazy_entry =
  le_opener :: 'o
  le_cell :: nat

datatype ('s, 'o) slot_state = Pending "'o lazy_entry" | Ready "'s snapshot_entry"

record ('s, 'o) slot =
  sl_app_id :: u32
  sl_depot_id :: u32
  sl_manifest_gid :: u64
  sl_state :: "('s, 'o) slot_state"
  sl_creation_time :: "u32 option"

record synthetic_dir =
  sd_parent :: "ino option"
  sd_name :: string
  sd_children :: "(string \<times> ino) list"

record ('s, 'o) mount_tree =
  mt_synthetic :: "synthetic_dir list"
  mt_synth_by_path :: "(string \<times> ino) list"
  mt_slots :: "('s, 'o) slot option list"

datatype add_error = AlreadyMounted u32 u32 u64 | TooManySnapshots

definition mount_tree_new :: "('s, 'o) mount_tree" where
  "mount_tree_new =
     \<lparr>mt_synthetic = [\<lparr>sd_parent = None, sd_name = [], sd_children = []\<rparr>,
                      \<lparr>sd_parent = None, sd_name = [], sd_children = []\<rparr>],
      mt_synth_by_path = [], mt_slots = [None]\<rparr>"

text \<open>\<open>children_of\<close> and \<open>children_of_mut\<close> index the vector of directories and panic outside it.\<close>

definition children_of :: "('s, 'o) mount_tree \<Rightarrow> ino \<Rightarrow> (string \<times> ino) list option" where
  "children_of t i = map_option sd_children (get_at (mt_synthetic t) (unat (snd (unpack i))))"

definition children_of_mut ::
  "((string \<times> ino) list \<Rightarrow> (string \<times> ino) list) \<Rightarrow> ino \<Rightarrow> ('s, 'o) mount_tree \<Rightarrow>
     ('s, 'o) mount_tree option" where
  "children_of_mut g i t =
     (let k = unat (snd (unpack i)) in
      case get_at (mt_synthetic t) k of
        None \<Rightarrow> None
      | Some d \<Rightarrow>
          Some (t\<lparr>mt_synthetic := (mt_synthetic t)[k := d\<lparr>sd_children := g (sd_children d)\<rparr>]\<rparr>))"

definition slash_join :: "string \<Rightarrow> string \<Rightarrow> string" where
  "slash_join dir name = (if dir = [] then ''/'' @ name else dir @ ''/'' @ name)"

text \<open>
  \<open>path_of_synthetic\<close> climbs to the root.  A directory without a parent below the root is a
  panic, and so is a climb that does not end: with the fuel of the caller, one step for each
  directory, running out means a cycle and a stack overflow.
\<close>

fun path_of_synthetic :: "nat \<Rightarrow> ('s, 'o) mount_tree \<Rightarrow> ino \<Rightarrow> string option" where
  "path_of_synthetic 0 t i = (if i = ROOT then Some [] else None)"
| "path_of_synthetic (Suc n) t i =
     (if i = ROOT then Some []
      else
        (case get_at (mt_synthetic t) (unat (snd (unpack i))) of
           None \<Rightarrow> None
         | Some dir \<Rightarrow>
             (case sd_parent dir of
                None \<Rightarrow> None
              | Some parent \<Rightarrow>
                  map_option (\<lambda>p. slash_join p (sd_name dir)) (path_of_synthetic n t parent))))"

definition ensure_synthetic ::
  "ino \<Rightarrow> string \<Rightarrow> ('s, 'o) mount_tree \<Rightarrow> (ino \<times> ('s, 'o) mount_tree) option" where
  "ensure_synthetic parent name t =
     (case children_of t parent of
        None \<Rightarrow> None
      | Some ch \<Rightarrow>
          (case map_of ch name of
             Some existing \<Rightarrow> Some (existing, t)
           | None \<Rightarrow>
               (let slot = length (mt_synthetic t);
                    i = pack SYNTHETIC (word_of_nat slot)
                in case path_of_synthetic slot t parent of
                     None \<Rightarrow> None
                   | Some parent_path \<Rightarrow>
                       (let t1 = t\<lparr>mt_synthetic := mt_synthetic t @
                                      [\<lparr>sd_parent = Some parent, sd_name = name, sd_children = []\<rparr>],
                                   mt_synth_by_path :=
                                      AList.update (slash_join parent_path name) i (mt_synth_by_path t)\<rparr>
                        in map_option (Pair i) (children_of_mut (AList.update name i) parent t1)))))"

text \<open>
  \<open>reserve_slot\<close> and its callers.  \<open>None\<close> is a panic; the tree is returned in the error cases
  too, because the directories have been created by then.
\<close>

definition reserve_slot ::
  "u32 \<Rightarrow> u32 \<Rightarrow> u64 \<Rightarrow> ('s, 'o) slot_state \<Rightarrow> u32 option \<Rightarrow> ('s, 'o) mount_tree \<Rightarrow>
     ((add_error, snapshot_id) outcome \<times> ('s, 'o) mount_tree) option" where
  "reserve_slot app_id depot_id gid state hint t =
     (case ensure_synthetic ROOT (to_dec app_id) t of
        None \<Rightarrow> None
      | Some (app_dir, t1) \<Rightarrow>
          (case ensure_synthetic app_dir (to_dec depot_id) t1 of
             None \<Rightarrow> None
           | Some (depot_dir, t2) \<Rightarrow>
               (case children_of t2 depot_dir of
                  None \<Rightarrow> None
                | Some ch \<Rightarrow>
                    if map_of ch (to_dec gid) \<noteq> None then
                      Some (Err (AlreadyMounted app_id depot_id gid), t2)
                    else if length (mt_slots t2) \<ge> 2 ^ 32 then None
                    else if length (mt_slots t2) > 65535 then Some (Err TooManySnapshots, t2)
                    else
                      (let sid = word_of_nat (length (mt_slots t2));
                           ct = (case state of
                                   Ready e \<Rightarrow> Some (m_creation_time (ds_manifest (se_snapshot e)))
                                 | Pending _ \<Rightarrow> hint);
                           t3 = t2\<lparr>mt_slots := mt_slots t2 @
                                  [Some \<lparr>sl_app_id = app_id, sl_depot_id = depot_id,
                                     sl_manifest_gid = gid, sl_state = state,
                                     sl_creation_time = ct\<rparr>]\<rparr>
                       in map_option (Pair (Ok (SnapshotId sid)))
                            (children_of_mut (AList.update (to_dec gid) (pack sid 0)) depot_dir t3)))))"

definition add ::
  "u32 \<Rightarrow> u32 \<Rightarrow> u64 \<Rightarrow> 's depot_store \<Rightarrow> ('s, 'o) mount_tree \<Rightarrow>
     ((add_error, snapshot_id) outcome \<times> ('s, 'o) mount_tree) option" where
  "add app_id depot_id gid snapshot =
     reserve_slot app_id depot_id gid (Ready \<lparr>se_snapshot = snapshot\<rparr>) None"

definition add_lazy ::
  "u32 \<Rightarrow> u32 \<Rightarrow> u64 \<Rightarrow> 'o \<Rightarrow> nat \<Rightarrow> u32 option \<Rightarrow> ('s, 'o) mount_tree \<Rightarrow>
     ((add_error, snapshot_id) outcome \<times> ('s, 'o) mount_tree) option" where
  "add_lazy app_id depot_id gid opener cell hint =
     reserve_slot app_id depot_id gid (Pending \<lparr>le_opener = opener, le_cell = cell\<rparr>) hint"

definition depot_path :: "u32 \<Rightarrow> u32 \<Rightarrow> string" where
  "depot_path app_id depot_id = ''/'' @ to_dec app_id @ ''/'' @ to_dec depot_id"

definition slot_at :: "('s, 'o) mount_tree \<Rightarrow> sid \<Rightarrow> ('s, 'o) slot option" where
  "slot_at t sid = (case get_at (mt_slots t) (unat sid) of Some s \<Rightarrow> s | None \<Rightarrow> None)"

definition remove ::
  "snapshot_id \<Rightarrow> ('s, 'o) mount_tree \<Rightarrow> (('s, 'o) slot option \<times> ('s, 'o) mount_tree) option" where
  "remove sn t =
     (case slot_at t (sid_raw sn) of
        None \<Rightarrow> Some (None, t)
      | Some entry \<Rightarrow>
          (let t1 = t\<lparr>mt_slots := (mt_slots t)[unat (sid_raw sn) := None]\<rparr>
           in case map_of (mt_synth_by_path t1) (depot_path (sl_app_id entry) (sl_depot_id entry)) of
                None \<Rightarrow> Some (Some entry, t1)
              | Some depot_ino \<Rightarrow>
                  map_option (Pair (Some entry))
                    (children_of_mut (AList.delete (to_dec (sl_manifest_gid entry))) depot_ino t1)))"

definition find_slot :: "u32 \<Rightarrow> u32 \<Rightarrow> u64 \<Rightarrow> ('s, 'o) mount_tree \<Rightarrow> sid option option" where
  "find_slot app_id depot_id gid t =
     (case map_of (mt_synth_by_path t) (depot_path app_id depot_id) of
        None \<Rightarrow> Some None
      | Some depot_ino \<Rightarrow>
          map_option (\<lambda>ch. map_option (\<lambda>g. fst (unpack g)) (map_of ch (to_dec gid)))
            (children_of t depot_ino))"

definition synthetic_children_at :: "string \<Rightarrow> ('s, 'o) mount_tree \<Rightarrow> string list option option" where
  "synthetic_children_at prefix t =
     (case (if prefix = [] then Some ROOT else map_of (mt_synth_by_path t) prefix) of
        None \<Rightarrow> Some None
      | Some i \<Rightarrow> map_option (\<lambda>ch. Some (map fst ch)) (children_of t i))"

definition synthetic :: "('s, 'o) mount_tree \<Rightarrow> ino \<Rightarrow> synthetic_dir option" where
  "synthetic t i =
     (case unpack i of (sid, idx) \<Rightarrow>
        if sid \<noteq> SYNTHETIC then None else get_at (mt_synthetic t) (unat idx))"

definition promote ::
  "snapshot_id \<Rightarrow> 's snapshot_entry \<Rightarrow> ('s, 'o) mount_tree \<Rightarrow> ('s, 'o) mount_tree" where
  "promote sn entry t =
     (case slot_at t (sid_raw sn) of
        None \<Rightarrow> t
      | Some sl \<Rightarrow>
          (case sl_state sl of
             Ready _ \<Rightarrow> t
           | Pending _ \<Rightarrow>
               t\<lparr>mt_slots := (mt_slots t)[unat (sid_raw sn) :=
                   Some (sl\<lparr>sl_state := Ready entry,
                           sl_creation_time :=
                             Some (m_creation_time (ds_manifest (se_snapshot entry)))\<rparr>)]\<rparr>))"

section \<open>Facts about node ids\<close>

lemma unat_index_mask: "unat INDEX_MASK = 2 ^ 48 - 1"
  by (simp add: INDEX_MASK_def SNAPSHOT_SHIFT_def)

lemma unpack_pack: "unat i < 2 ^ 48 \<Longrightarrow> unpack (pack s i) = (s, i)"
proof -
  assume i: "unat i < 2 ^ 48"
  have mask: "INDEX_MASK = mask 48" by (simp add: INDEX_MASK_def SNAPSHOT_SHIFT_def mask_eq_decr_exp)
  have bi: "\<not> bit i k" if "48 \<le> k" for k
  proof -
    have "take_bit 48 i = i" using i by (metis word_unat_eq_iff unsigned_take_bit_eq take_bit_nat_eq_self)
    then show ?thesis using that by (metis bit_take_bit_iff linorder_not_le)
  qed
  have "ucast (drop_bit 48 (push_bit 48 (ucast s :: u64) OR i)) = s"
    by (rule bit_word_eqI) (auto simp: bit_simps bi)
  moreover have "(push_bit 48 (ucast s :: u64) OR i) AND mask 48 = i"
    by (rule bit_word_eqI) (auto simp: bit_simps bi intro: ccontr)
  ultimately show ?thesis
    by (simp add: unpack_def pack_def SNAPSHOT_SHIFT_def mask)
qed

lemma pack_unpack: "pack (fst (unpack i)) (snd (unpack i)) = i"
proof -
  have mask: "INDEX_MASK = mask 48" by (simp add: INDEX_MASK_def SNAPSHOT_SHIFT_def mask_eq_decr_exp)
  show ?thesis
    by (rule bit_word_eqI) (auto simp: unpack_def pack_def SNAPSHOT_SHIFT_def mask bit_simps)
qed

lemma unat_nat48: "k < 2 ^ 48 \<Longrightarrow> unat (word_of_nat k :: u64) = k"
  by (simp add: unsigned_of_nat take_bit_nat_eq_self)

lemma unpack_synthetic: "k < 2 ^ 48 \<Longrightarrow> unpack (word_of_nat k) = (0, word_of_nat k)"
  using unpack_pack [of "word_of_nat k" 0]
  by (simp add: unat_nat48 pack_def)

lemma unpack_pack_root [simp]: "unpack (pack s 0) = (s, 0)"
  by (rule unpack_pack) simp

lemma pack_zero [simp]: "pack 0 i = i"
  by (simp add: pack_def)

lemma unat_idx: "k < 2 ^ 48 \<Longrightarrow> unat (snd (unpack (word_of_nat k))) = k"
  by (simp add: unpack_synthetic unat_nat48)

section \<open>Well-formed trees\<close>

text \<open>
  The role each synthetic directory plays.  A tree is well formed with respect to the list of
  its roles: no role is played twice, every directory is known by its parent, by its name and
  by its path, and the children of a depot directory are exactly the mounted snapshots of that
  app and depot.
\<close>

datatype dir_role = Unused | RootDir | AppDir u32 | DepotDir u32 u32

fun role_path :: "dir_role \<Rightarrow> string option" where
  "role_path Unused = None"
| "role_path RootDir = None"
| "role_path (AppDir a) = Some (''/'' @ to_dec a)"
| "role_path (DepotDir a d) = Some (depot_path a d)"

fun child_of :: "dir_role list \<Rightarrow> ('s, 'o) slot option list \<Rightarrow> dir_role \<Rightarrow> string \<Rightarrow> ino \<Rightarrow> bool" where
  "child_of rs ss Unused n c \<longleftrightarrow> False"
| "child_of rs ss RootDir n c \<longleftrightarrow>
     (\<exists>j a. j < length rs \<and> rs ! j = AppDir a \<and> n = to_dec a \<and> c = word_of_nat j)"
| "child_of rs ss (AppDir a) n c \<longleftrightarrow>
     (\<exists>j d. j < length rs \<and> rs ! j = DepotDir a d \<and> n = to_dec d \<and> c = word_of_nat j)"
| "child_of rs ss (DepotDir a d) n c \<longleftrightarrow>
     (\<exists>k sl. k < length ss \<and> ss ! k = Some sl \<and> sl_app_id sl = a \<and> sl_depot_id sl = d \<and>
        n = to_dec (sl_manifest_gid sl) \<and> c = pack (word_of_nat k) 0)"

fun role_above :: "dir_role list \<Rightarrow> nat \<Rightarrow> synthetic_dir \<Rightarrow> dir_role \<Rightarrow> bool" where
  "role_above rs k sd Unused \<longleftrightarrow> k = 0"
| "role_above rs k sd RootDir \<longleftrightarrow> k = 1"
| "role_above rs k sd (AppDir a) \<longleftrightarrow> 1 < k \<and> sd_parent sd = Some ROOT \<and> sd_name sd = to_dec a"
| "role_above rs k sd (DepotDir a d) \<longleftrightarrow>
     (\<exists>j. 1 < j \<and> j < k \<and> rs ! j = AppDir a \<and> sd_parent sd = Some (word_of_nat j)) \<and>
     sd_name sd = to_dec d"

definition tree_wf :: "dir_role list \<Rightarrow> ('s, 'o) mount_tree \<Rightarrow> bool" where
  "tree_wf rs t \<longleftrightarrow>
     length rs = length (mt_synthetic t) \<and> 2 \<le> length rs \<and> length rs \<le> 2 ^ 48 \<and>
     rs ! 0 = Unused \<and> rs ! 1 = RootDir \<and> distinct rs \<and>
     (\<forall>k < length rs. role_above rs k (mt_synthetic t ! k) (rs ! k) \<and>
        distinct (map fst (sd_children (mt_synthetic t ! k))) \<and>
        (\<forall>n c. map_of (sd_children (mt_synthetic t ! k)) n = Some c \<longleftrightarrow>
           child_of rs (mt_slots t) (rs ! k) n c)) \<and>
     (\<forall>p c. map_of (mt_synth_by_path t) p = Some c \<longleftrightarrow>
        (\<exists>k < length rs. role_path (rs ! k) = Some p \<and> c = word_of_nat k)) \<and>
     0 < length (mt_slots t) \<and> length (mt_slots t) \<le> 2 ^ 16 \<and> mt_slots t ! 0 = None \<and>
     (\<forall>sl. Some sl \<in> set (mt_slots t) \<longrightarrow> DepotDir (sl_app_id sl) (sl_depot_id sl) \<in> set rs)"

text \<open>The mounted snapshots, by the path they are mounted at.\<close>

definition mounted :: "('s, 'o) mount_tree \<Rightarrow> u32 \<Rightarrow> u32 \<Rightarrow> u64 \<Rightarrow> nat set" where
  "mounted t a d g = {k. \<exists>sl. k < length (mt_slots t) \<and> mt_slots t ! k = Some sl \<and>
     sl_app_id sl = a \<and> sl_depot_id sl = d \<and> sl_manifest_gid sl = g}"

lemma tree_wf_new: "tree_wf [Unused, RootDir] (mount_tree_new :: ('s, 'o) mount_tree)"
proof -
  have "k = 0 \<or> k = 1" if "k < Suc (Suc 0)" for k using that by auto
  then show ?thesis
    by (auto simp: tree_wf_def mount_tree_new_def nth_Cons split: nat.splits)
qed

lemma role_path_inject:
  assumes "role_path r = Some p" and "role_path r' = Some p"
  shows "r = r'"
proof -
  define key where "key r = (case r of AppDir a \<Rightarrow> [to_dec a] | DepotDir a d \<Rightarrow> [to_dec a, to_dec d] | _ \<Rightarrow> [])" for r
  have k: "split_on (CHR ''/'') (tl p) = key r" if "role_path r = Some p" for r
    using that by (cases r) (auto simp: key_def depot_path_def split_on_append split_on_no_sep to_dec_no_slash)
  from k [OF assms(1)] k [OF assms(2)] have "key r = key r'" by simp
  then show ?thesis
    using assms by (cases r; cases r') (auto simp: key_def to_dec_inject_u32)
qed

lemma children_at:
  assumes "tree_wf rs t" and "k < length rs"
  shows "children_of t (word_of_nat k) = Some (sd_children (mt_synthetic t ! k))"
    and "map_of (sd_children (mt_synthetic t ! k)) n = Some c \<longleftrightarrow> child_of rs (mt_slots t) (rs ! k) n c"
  using assms by (auto simp: tree_wf_def children_of_def unat_idx get_at_def)

lemma role_unique:
  assumes "tree_wf rs t" and "j < length rs" and "k < length rs" and "rs ! j = rs ! k"
  shows "j = k"
  using assms by (simp add: tree_wf_def nth_eq_iff_index_eq)

text \<open>\<open>path_of_synthetic\<close> on a well-formed tree: at most two steps up.\<close>

lemma word_of_nat_root: "k < 2 ^ 48 \<Longrightarrow> word_of_nat k = ROOT \<longleftrightarrow> k = 1"
  unfolding ROOT_def by (metis of_nat_1 unat_nat48 unat_1 word_unat_eq_iff)

lemma role_above_at: "tree_wf rs t \<Longrightarrow> k < length rs \<Longrightarrow> role_above rs k (mt_synthetic t ! k) (rs ! k)"
  by (simp add: tree_wf_def)

lemma path_of_role:
  assumes wf: "tree_wf rs t" and k: "k < length rs" and n: "2 \<le> n"
  shows "rs ! k = RootDir \<Longrightarrow> path_of_synthetic n t (word_of_nat k) = Some []"
    and "rs ! k = AppDir a \<Longrightarrow> path_of_synthetic n t (word_of_nat k) = role_path (rs ! k)"
    and "rs ! k = DepotDir a d \<Longrightarrow> path_of_synthetic n t (word_of_nat k) = role_path (rs ! k)"
proof -
  have len: "length rs = length (mt_synthetic t)" "length rs \<le> 2 ^ 48" using wf by (auto simp: tree_wf_def)
  have root: "path_of_synthetic m t ROOT = Some []" for m by (cases m) simp_all
  have app: "path_of_synthetic (Suc m) t (word_of_nat j) = Some (''/'' @ to_dec a)"
    if j: "j < length rs" and a: "rs ! j = AppDir a" for m j a
  proof -
    have "role_above rs j (mt_synthetic t ! j) (AppDir a)" using role_above_at [OF wf j] a by simp
    then show ?thesis
      using j len by (simp add: word_of_nat_root unat_idx get_at_def root slash_join_def)
  qed
  show "rs ! k = RootDir \<Longrightarrow> path_of_synthetic n t (word_of_nat k) = Some []"
    using role_above_at [OF wf k] root by (simp add: ROOT_def)
  obtain m where m: "n = Suc (Suc m)" using n by (metis Suc_le_D numeral_2_eq_2 Suc_le_mono)
  show "rs ! k = AppDir a \<Longrightarrow> path_of_synthetic n t (word_of_nat k) = role_path (rs ! k)"
    using app [OF k] m by simp
  assume d: "rs ! k = DepotDir a d"
  with role_above_at [OF wf k] obtain j where j: "1 < j" "j < k" "rs ! j = AppDir a"
    "sd_parent (mt_synthetic t ! k) = Some (word_of_nat j)" "sd_name (mt_synthetic t ! k) = to_dec d"
    by auto
  show "path_of_synthetic n t (word_of_nat k) = role_path (rs ! k)"
    using j k len app [of j a m] d
    by (simp add: m word_of_nat_root unat_idx get_at_def slash_join_def depot_path_def)
qed

section \<open>Creating directories\<close>

text \<open>\<open>hangs r name p\<close>: a directory of role \<open>r\<close> is the child \<open>name\<close> of one of role \<open>p\<close>.\<close>

fun hangs :: "dir_role \<Rightarrow> string \<Rightarrow> dir_role \<Rightarrow> bool" where
  "hangs (AppDir a) n p \<longleftrightarrow> p = RootDir \<and> n = to_dec a"
| "hangs (DepotDir a d) n p \<longleftrightarrow> p = AppDir a \<and> n = to_dec d"
| "hangs _ n p \<longleftrightarrow> False"

lemma hangs_child:
  "hangs r n p \<Longrightarrow> child_of rs ss p n c \<longleftrightarrow> (\<exists>j < length rs. rs ! j = r \<and> c = word_of_nat j)"
  by (cases r) (auto simp: to_dec_inject_u32)

lemma ex_snoc:
  "(\<exists>j. j < length (xs @ [x]) \<and> P j ((xs @ [x]) ! j)) \<longleftrightarrow> (\<exists>j < length xs. P j (xs ! j)) \<or> P (length xs) x"
proof -
  have "(\<exists>j. j < Suc (length xs) \<and> P j ((xs @ [x]) ! j)) \<longleftrightarrow>
     (\<exists>j < length xs. P j ((xs @ [x]) ! j)) \<or> P (length xs) ((xs @ [x]) ! length xs)"
    by (metis less_Suc_eq)
  then show ?thesis by (simp add: nth_append cong: conj_cong)
qed

lemma child_of_snoc:
  assumes "hangs r n p"
  shows "child_of (rs @ [r]) ss q m c \<longleftrightarrow>
    child_of rs ss q m c \<or> (q = p \<and> m = n \<and> c = word_of_nat (length rs))"
proof -
  have 1: "child_of rs' ss RootDir m c \<longleftrightarrow>
      (\<exists>j < length rs'. \<exists>a. rs' ! j = AppDir a \<and> m = to_dec a \<and> c = word_of_nat j)" for rs'
    by (simp only: child_of.simps) metis
  have 2: "child_of rs' ss (AppDir a) m c \<longleftrightarrow>
      (\<exists>j < length rs'. \<exists>d. rs' ! j = DepotDir a d \<and> m = to_dec d \<and> c = word_of_nat j)" for rs' a
    by (simp only: child_of.simps) metis
  show ?thesis
  proof (cases q)
    case RootDir
    show ?thesis
      unfolding RootDir 1 ex_snoc [of rs r "\<lambda>j y. \<exists>a. y = AppDir a \<and> m = to_dec a \<and> c = word_of_nat j"]
      using assms by (cases r) auto
  next
    case (AppDir a)
    show ?thesis
      unfolding AppDir 2 ex_snoc [of rs r "\<lambda>j y. \<exists>d. y = DepotDir a d \<and> m = to_dec d \<and> c = word_of_nat j"]
      using assms by (cases r) auto
  qed (use assms in \<open>cases r; auto\<close>)+
qed

lemma role_above_snoc:
  assumes "role_above rs k sd r" "k \<le> length rs"
  shows "role_above (rs @ xs) k sd r"
proof (cases r)
  case (DepotDir a d)
  then obtain j where "1 < j" "j < k" "rs ! j = AppDir a" "sd_parent sd = Some (word_of_nat j)" "sd_name sd = to_dec d"
    using assms(1) by auto
  then show ?thesis using assms(2) DepotDir by (auto simp: nth_append intro!: exI [of _ j])
qed (use assms in auto)

lemma hangs_above:
  assumes "hangs r n (rs ! k)" and "tree_wf rs t" and "k < length rs"
  shows "role_above rs (length rs) \<lparr>sd_parent = Some (word_of_nat k), sd_name = n, sd_children = ch\<rparr> r"
proof (cases r)
  case (AppDir a)
  have "k = 1" using assms AppDir role_unique [OF assms(2,3), of 1] by (auto simp: tree_wf_def)
  moreover have "1 < length rs" using assms(2) by (simp add: tree_wf_def)
  ultimately show ?thesis using assms(1) AppDir by (simp add: ROOT_def)
next
  case (DepotDir a d)
  then have "rs ! k = AppDir a" using assms(1) by simp
  moreover have "1 < k" using role_above_at [OF assms(2,3)] calculation by simp
  ultimately show ?thesis using assms DepotDir by auto
qed (use assms in auto)

lemma map_of_update_fresh [simp]:
  "map_of (AList.update k v al) = (map_of al)(k \<mapsto> v)"
  by (simp add: AList.update_conv')

lemma children_of_mut_at:
  assumes "k < length (mt_synthetic t)" and "k < 2 ^ 48"
  shows "children_of_mut g (word_of_nat k) t =
    Some (t\<lparr>mt_synthetic := (mt_synthetic t)[k := (mt_synthetic t ! k)\<lparr>sd_children :=
      g (sd_children (mt_synthetic t ! k))\<rparr>]\<rparr>)"
  using assms by (simp add: children_of_mut_def unat_idx get_at_def Let_def)

lemma role_above_parts:
  "sd_parent x = sd_parent y \<Longrightarrow> sd_name x = sd_name y \<Longrightarrow> role_above rs k x r = role_above rs k y r"
  by (cases r) auto

lemma fresh_no_child:
  assumes wf: "tree_wf rs t" and "r \<notin> set rs"
  shows "\<not> child_of rs (mt_slots t) r n c"
proof (cases r)
  case RootDir
  then show ?thesis using assms nth_mem [of 1 rs] by (auto simp: tree_wf_def)
next
  case (AppDir a)
  have "rs ! j \<noteq> DepotDir a d" if "j < length rs" for j d
  proof
    assume "rs ! j = DepotDir a d"
    with role_above_at [OF wf that] obtain i where "i < j" "rs ! i = AppDir a" by auto
    with assms(2) that AppDir show False by (metis nth_mem less_trans)
  qed
  then show ?thesis by (auto simp: AppDir)
next
  case (DepotDir a d)
  have "Some sl \<in> set (mt_slots t) \<Longrightarrow> DepotDir (sl_app_id sl) (sl_depot_id sl) \<in> set rs" for sl
    using wf by (simp add: tree_wf_def)
  then show ?thesis using assms(2) by (auto simp: DepotDir) (metis nth_mem)
qed simp

lemma ensure_synthetic_creates:
  assumes wf: "tree_wf rs t" and k: "k < length rs" and h: "hangs r n (rs ! k)"
    and fresh: "r \<notin> set rs" and room: "length rs < 2 ^ 48"
  shows "\<exists>t'. ensure_synthetic (word_of_nat k) n t = Some (word_of_nat (length rs), t') \<and>
    tree_wf (rs @ [r]) t' \<and> mt_slots t' = mt_slots t"
proof -
  let ?L = "length rs" and ?syn = "mt_synthetic t"
  have len: "length ?syn = ?L" and L2: "2 \<le> ?L" using wf by (auto simp: tree_wf_def)
  have none: "map_of (sd_children (?syn ! k)) n = None"
    using children_at(2) [OF wf k, of n] hangs_child [OF h] fresh
    by (metis nth_mem option.exhaust)
  have path: "path_of_synthetic ?L t (word_of_nat k) = Some (if rs ! k = RootDir then [] else the (role_path (rs ! k)))"
    using path_of_role [OF wf k L2] h by (cases r) auto
  have rp: "role_path r = Some (slash_join (if rs ! k = RootDir then [] else the (role_path (rs ! k))) n)"
    using h by (cases r) (auto simp: slash_join_def depot_path_def)
  define new where "new = \<lparr>sd_parent = Some (word_of_nat k :: u64), sd_name = n, sd_children = []\<rparr>"
  define par where "par = (?syn ! k)\<lparr>sd_children := AList.update n (word_of_nat ?L) (sd_children (?syn ! k))\<rparr>"
  define t' where "t' = t\<lparr>mt_synthetic := (?syn @ [new])[k := par],
     mt_synth_by_path := AList.update (the (role_path r)) (word_of_nat ?L) (mt_synth_by_path t)\<rparr>"
  have en: "ensure_synthetic (word_of_nat k) n t = Some (word_of_nat ?L, t')"
    using none path rp k len room
    by (simp add: ensure_synthetic_def children_at(1) [OF wf k] Let_def SYNTHETIC_def
        children_of_mut_at t'_def new_def par_def nth_append)
  have syn': "mt_synthetic t' ! j = (if j = k then par else if j = ?L then new else ?syn ! j)"
    if "j < Suc ?L" for j
    using that k len by (auto simp: t'_def nth_append nth_list_update)
  have slots': "mt_slots t' = mt_slots t" by (simp add: t'_def)
  have "tree_wf (rs @ [r]) t'"
    unfolding tree_wf_def
  proof (intro conjI allI impI)
    fix j assume j: "j < length (rs @ [r])"
    have old: "role_above rs j (?syn ! j) (rs ! j)" "distinct (map fst (sd_children (?syn ! j)))"
      "map_of (sd_children (?syn ! j)) m = Some c \<longleftrightarrow> child_of rs (mt_slots t) (rs ! j) m c"
      if "j < ?L" for m c
      using wf that by (auto simp: tree_wf_def)
    have pk: "role_above rs k par (rs ! k)"
      using role_above_at [OF wf k] role_above_parts [of par "?syn ! k"] by (simp add: par_def)
    show "role_above (rs @ [r]) j (mt_synthetic t' ! j) ((rs @ [r]) ! j)"
    proof (cases "j = ?L")
      case True
      then show ?thesis
        using hangs_above [OF h wf k, of "[]"] k
        by (simp add: syn' new_def) (rule role_above_snoc, auto)
    next
      case False
      with j have "j < ?L" by simp
      with old(1) [OF this] pk show ?thesis
        by (auto simp: syn' nth_append intro: role_above_snoc)
    qed
    show "distinct (map fst (sd_children (mt_synthetic t' ! j)))"
      using j old(2) k by (auto simp: syn' less_Suc_eq new_def par_def AList.distinct_update)
    fix m c
    show "map_of (sd_children (mt_synthetic t' ! j)) m = Some c \<longleftrightarrow>
        child_of (rs @ [r]) (mt_slots t') ((rs @ [r]) ! j) m c"
    proof -
      consider "j = ?L" | "j = k" | "j < ?L" "j \<noteq> k" using j by fastforce
      then show ?thesis
      proof cases
        case 1
        have "\<not> child_of rs (mt_slots t) r m c" by (rule fresh_no_child [OF wf fresh])
        moreover have "r \<noteq> rs ! k" using fresh k by auto
        ultimately have "\<not> child_of (rs @ [r]) (mt_slots t) r m c" by (simp add: child_of_snoc [OF h])
        moreover have "mt_synthetic t' ! j = new" using 1 k by (simp add: syn')
        moreover have "mt_slots t' = mt_slots t" by (simp add: t'_def)
        ultimately show ?thesis using 1 by (simp add: new_def)
      next
        case 2
        have "\<not> child_of rs (mt_slots t) (rs ! k) n c"
          using children_at(2) [OF wf k, of n c] none by simp
        with 2 show ?thesis
          using children_at(2) [OF wf k] k
          by (auto simp: syn' par_def slots' nth_append child_of_snoc [OF h])
      next
        case 3
        then have "rs ! j \<noteq> rs ! k" using role_unique [OF wf _ k] by blast
        then show ?thesis using 3 old(3) by (auto simp: syn' slots' nth_append child_of_snoc [OF h])
      qed
    qed
  next
      fix p c
    show "map_of (mt_synth_by_path t') p = Some c \<longleftrightarrow>
        (\<exists>j < length (rs @ [r]). role_path ((rs @ [r]) ! j) = Some p \<and> c = word_of_nat j)"
    proof -
      have old: "map_of (mt_synth_by_path t) p = Some c \<longleftrightarrow>
          (\<exists>j < ?L. role_path (rs ! j) = Some p \<and> c = word_of_nat j)"
        using wf by (simp add: tree_wf_def)
      have ne: "role_path (rs ! j) \<noteq> role_path r" if "j < ?L" for j
        using role_path_inject [of r] rp fresh that by (metis nth_mem)
      show ?thesis
        unfolding ex_snoc [of rs r "\<lambda>j y. role_path y = Some p \<and> c = word_of_nat j"]
        using old rp ne by (auto simp: t'_def)
    qed
  next
    fix sl assume "Some sl \<in> set (mt_slots t')"
    then show "DepotDir (sl_app_id sl) (sl_depot_id sl) \<in> set (rs @ [r])"
      using wf by (auto simp: tree_wf_def t'_def)
  qed (use wf len room k fresh in \<open>auto simp: tree_wf_def t'_def nth_append\<close>)
  then show ?thesis using en by (auto simp: t'_def)
qed

lemma ensure_synthetic_spec:
  assumes wf: "tree_wf rs t" and k: "k < length rs" and h: "hangs r n (rs ! k)"
    and room: "length rs < 2 ^ 48"
  obtains rs' t' j where "ensure_synthetic (word_of_nat k) n t = Some (word_of_nat j, t')"
    and "tree_wf rs' t'" and "j < length rs'" and "rs' ! j = r" and "mt_slots t' = mt_slots t"
    and "length rs' \<le> Suc (length rs)"
proof (cases "r \<in> set rs")
  case True
  then obtain j where j: "j < length rs" "rs ! j = r" by (auto simp: in_set_conv_nth)
  then have "map_of (sd_children (mt_synthetic t ! k)) n = Some (word_of_nat j)"
    using children_at(2) [OF wf k] hangs_child [OF h, of rs "mt_slots t" "word_of_nat j"] by auto
  then have "ensure_synthetic (word_of_nat k) n t = Some (word_of_nat j, t)"
    by (simp add: ensure_synthetic_def children_at(1) [OF wf k])
  from that [OF this wf j] show ?thesis by simp
next
  case False
  from ensure_synthetic_creates [OF wf k h False room] obtain t' where
    t': "ensure_synthetic (word_of_nat k) n t = Some (word_of_nat (length rs), t')"
      "tree_wf (rs @ [r]) t'" "mt_slots t' = mt_slots t" by blast
  from that [OF t'(1,2) _ _ t'(3)] show ?thesis by simp
qed

section \<open>Slots\<close>

lemma pack_sid_inject:
  "j < 2 ^ 16 \<Longrightarrow> k < 2 ^ 16 \<Longrightarrow> pack (word_of_nat j) 0 = pack (word_of_nat k) 0 \<longleftrightarrow> j = k"
proof
  assume jk: "j < 2 ^ 16" "k < 2 ^ 16" and "pack (word_of_nat j) 0 = pack (word_of_nat k) 0"
  then have "(word_of_nat j :: sid) = word_of_nat k" by (metis unpack_pack_root prod.inject)
  then have "unat (word_of_nat j :: sid) = unat (word_of_nat k :: sid)" by simp
  then show "j = k" using jk by (simp add: unsigned_of_nat take_bit_nat_eq_self)
qed simp

lemma slots_bound: "tree_wf rs t \<Longrightarrow> k < length (mt_slots t) \<Longrightarrow> k < 2 ^ 16"
  by (simp add: tree_wf_def)

lemma mounted_child:
  assumes wf: "tree_wf rs t" and k: "k < length rs" "rs ! k = DepotDir a d"
  shows "map_of (sd_children (mt_synthetic t ! k)) (to_dec g) = Some c \<longleftrightarrow>
    (\<exists>i \<in> mounted t a d g. c = pack (word_of_nat i) 0)"
  unfolding children_at(2) [OF wf k(1)] k(2)
  by (auto simp: mounted_def to_dec_inject_u64)

text \<open>No path is mounted twice.\<close>

lemma depot_dir_of:
  assumes wf: "tree_wf rs t" and "i \<in> mounted t a d g"
  obtains k where "k < length rs" and "rs ! k = DepotDir a d"
proof -
  from assms(2) obtain sl where "mt_slots t ! i = Some sl" "i < length (mt_slots t)"
    "sl_app_id sl = a" "sl_depot_id sl = d" by (auto simp: mounted_def)
  then have "DepotDir a d \<in> set rs" using wf by (metis nth_mem tree_wf_def)
  then show ?thesis using that by (auto simp: in_set_conv_nth)
qed

lemma mounted_once:
  assumes wf: "tree_wf rs t" and i: "i \<in> mounted t a d g" and j: "j \<in> mounted t a d g"
  shows "i = j"
proof -
  obtain k where k: "k < length rs" "rs ! k = DepotDir a d" using depot_dir_of [OF wf i] .
  have "map_of (sd_children (mt_synthetic t ! k)) (to_dec g) = Some (pack (word_of_nat i) 0)"
    "map_of (sd_children (mt_synthetic t ! k)) (to_dec g) = Some (pack (word_of_nat j) 0)"
    using mounted_child [OF wf k] i j by blast+
  then have "pack (word_of_nat i) 0 = pack (word_of_nat j) 0" by simp
  moreover have "i < 2 ^ 16" "j < 2 ^ 16" using i j slots_bound [OF wf] by (auto simp: mounted_def)
  ultimately show ?thesis by (simp add: pack_sid_inject)
qed

lemma by_path_depot:
  assumes wf: "tree_wf rs t"
  shows "map_of (mt_synth_by_path t) (depot_path a d) = Some c \<longleftrightarrow>
    (\<exists>k < length rs. rs ! k = DepotDir a d \<and> c = word_of_nat k)"
proof -
  have "role_path r = Some (depot_path a d) \<longleftrightarrow> r = DepotDir a d" for r
    using role_path_inject [of r "depot_path a d" "DepotDir a d"] by auto
  then show ?thesis using wf by (simp add: tree_wf_def)
qed

text \<open>Replacing the children of one directory and the slots.\<close>

lemma tree_wf_update:
  assumes wf: "tree_wf rs t" and k: "k < length rs" "rs ! k = DepotDir a d"
    and t': "t' = t\<lparr>mt_slots := ss, mt_synthetic := (mt_synthetic t)[k := (mt_synthetic t ! k)\<lparr>sd_children := ch\<rparr>]\<rparr>"
    and dist: "distinct (map fst ch)"
    and ch: "\<And>n c. map_of ch n = Some c \<longleftrightarrow> child_of rs ss (DepotDir a d) n c"
    and other: "\<And>b e n c. (b, e) \<noteq> (a, d) \<Longrightarrow>
      child_of rs ss (DepotDir b e) n c = child_of rs (mt_slots t) (DepotDir b e) n c"
    and ss: "0 < length ss" "length ss \<le> 2 ^ 16" "ss ! 0 = None"
      "\<And>sl. Some sl \<in> set ss \<Longrightarrow> DepotDir (sl_app_id sl) (sl_depot_id sl) \<in> set rs"
  shows "tree_wf rs t'"
proof -
  have len: "length rs = length (mt_synthetic t)" using wf by (simp add: tree_wf_def)
  have same: "child_of rs ss (rs ! j) n c = child_of rs (mt_slots t) (rs ! j) n c"
    if "j < length rs" "j \<noteq> k" for j n c
  proof (cases "rs ! j")
    case (DepotDir b e)
    then have "(b, e) \<noteq> (a, d)" using role_unique [OF wf that(1) k(1)] that(2) k(2) by auto
    then show ?thesis using other DepotDir by metis
  qed simp_all
  have each: "role_above rs j (mt_synthetic t' ! j) (rs ! j) \<and>
      distinct (map fst (sd_children (mt_synthetic t' ! j))) \<and>
      (\<forall>n c. map_of (sd_children (mt_synthetic t' ! j)) n = Some c \<longleftrightarrow> child_of rs ss (rs ! j) n c)"
    if j: "j < length rs" for j
  proof (cases "j = k")
    case True
    then show ?thesis
      using role_above_at [OF wf k(1)] k len dist ch by (simp add: t' role_above_parts del: map_of_eq_Some_iff)
  next
    case False
    then show ?thesis using wf j same [OF j False] False by (simp add: t' tree_wf_def del: map_of_eq_Some_iff)
  qed
  show ?thesis
    using wf each ss unfolding tree_wf_def by (simp add: t' del: map_of_eq_Some_iff)
qed

lemma child_of_slot_snoc:
  "child_of rs (ss @ [Some sl]) (DepotDir a d) n c \<longleftrightarrow>
     child_of rs ss (DepotDir a d) n c \<or>
     (sl_app_id sl = a \<and> sl_depot_id sl = d \<and> n = to_dec (sl_manifest_gid sl) \<and>
      c = pack (word_of_nat (length ss)) 0)"
proof -
  have c: "child_of rs ss' (DepotDir a d) n c \<longleftrightarrow>
      (\<exists>k < length ss'. \<exists>sl. ss' ! k = Some sl \<and> sl_app_id sl = a \<and> sl_depot_id sl = d \<and>
         n = to_dec (sl_manifest_gid sl) \<and> c = pack (word_of_nat k) 0)" for ss'
    by (simp only: child_of.simps) metis
  show ?thesis
    unfolding c ex_snoc [of ss "Some sl" "\<lambda>k x. \<exists>sl. x = Some sl \<and> sl_app_id sl = a \<and>
      sl_depot_id sl = d \<and> n = to_dec (sl_manifest_gid sl) \<and> c = pack (word_of_nat k) 0"]
    by auto
qed

section \<open>The operations\<close>

definition new_slot :: "u32 \<Rightarrow> u32 \<Rightarrow> u64 \<Rightarrow> ('s, 'o) slot_state \<Rightarrow> u32 option \<Rightarrow> ('s, 'o) slot" where
  "new_slot a d g st hint =
     \<lparr>sl_app_id = a, sl_depot_id = d, sl_manifest_gid = g, sl_state = st,
      sl_creation_time =
        (case st of Ready e \<Rightarrow> Some (m_creation_time (ds_manifest (se_snapshot e))) | Pending _ \<Rightarrow> hint)\<rparr>"

lemma reserve_slot_spec:
  assumes wf: "tree_wf rs t" and room: "length rs + 2 \<le> 2 ^ 48"
  shows "\<exists>rs' t' r. reserve_slot a d g st hint t = Some (r, t') \<and> tree_wf rs' t' \<and>
    length rs' \<le> length rs + 2 \<and>
    (if mounted t a d g \<noteq> {} then r = Err (AlreadyMounted a d g) \<and> mt_slots t' = mt_slots t
     else if length (mt_slots t) = 2 ^ 16 then r = Err TooManySnapshots \<and> mt_slots t' = mt_slots t
     else r = Ok (SnapshotId (word_of_nat (length (mt_slots t)))) \<and>
       mt_slots t' = mt_slots t @ [Some (new_slot a d g st hint)])"
proof -
  have r1: "1 < length rs" "rs ! 1 = RootDir" using wf by (auto simp: tree_wf_def)
  have h1: "hangs (AppDir a) (to_dec a) (rs ! 1)" using r1(2) by simp
  have "length rs < 2 ^ 48" using room by simp
  from ensure_synthetic_spec [OF wf r1(1) h1 this] obtain rs1 t1 j1 where
    e1: "ensure_synthetic (word_of_nat 1) (to_dec a) t = Some (word_of_nat j1, t1)"
    and wf1: "tree_wf rs1 t1" and j1: "j1 < length rs1" "rs1 ! j1 = AppDir a"
    and s1: "mt_slots t1 = mt_slots t" and l1: "length rs1 \<le> Suc (length rs)" .
  have h2: "hangs (DepotDir a d) (to_dec d) (rs1 ! j1)" by (simp add: j1)
  have "length rs1 < 2 ^ 48" using l1 room by simp
  from ensure_synthetic_spec [OF wf1 j1(1) h2 this] obtain rs2 t2 k where
    e2: "ensure_synthetic (word_of_nat j1) (to_dec d) t1 = Some (word_of_nat k, t2)"
    and wf2: "tree_wf rs2 t2" and k: "k < length rs2" "rs2 ! k = DepotDir a d"
    and s2: "mt_slots t2 = mt_slots t1" and l2: "length rs2 \<le> Suc (length rs1)" .
  let ?ch = "sd_children (mt_synthetic t2 ! k)"
  have ch: "children_of t2 (word_of_nat k) = Some ?ch" using children_at(1) [OF wf2 k(1)] .
  have slots: "mt_slots t2 = mt_slots t" using s1 s2 by simp
  have mt: "map_of ?ch (to_dec g) \<noteq> None \<longleftrightarrow> mounted t a d g \<noteq> {}"
    using mounted_child [OF wf2 k, of g] slots by (auto simp: mounted_def)
  have bound: "length (mt_slots t) \<le> 2 ^ 16" "0 < length (mt_slots t)"
    using wf by (auto simp: tree_wf_def)
  have L: "length rs2 \<le> length rs + 2" using l1 l2 by simp
  have root: "ROOT = word_of_nat 1" by (simp add: ROOT_def)
  show ?thesis
  proof (cases "mounted t a d g \<noteq> {} \<or> length (mt_slots t) = 2 ^ 16")
    case True
    then have "reserve_slot a d g st hint t = Some
        (if mounted t a d g \<noteq> {} then Err (AlreadyMounted a d g) else Err TooManySnapshots, t2)"
      using mt e1 e2 ch slots by (simp add: reserve_slot_def root)
    then show ?thesis using wf2 slots L True by auto
  next
    case False
    define t' where "t' = t2\<lparr>mt_slots := mt_slots t @ [Some (new_slot a d g st hint)],
      mt_synthetic := (mt_synthetic t2)[k := (mt_synthetic t2 ! k)\<lparr>sd_children :=
        AList.update (to_dec g) (pack (word_of_nat (length (mt_slots t))) 0) ?ch\<rparr>]\<rparr>"
    have kl: "k < length (mt_synthetic t2)" "k < 2 ^ 48" using wf2 k(1) by (auto simp: tree_wf_def)
    have res: "reserve_slot a d g st hint t =
        Some (Ok (SnapshotId (word_of_nat (length (mt_slots t)))), t')"
      using False mt e1 e2 ch slots bound kl
      by (simp add: reserve_slot_def root children_of_mut_at Let_def t'_def new_slot_def)
    have "tree_wf rs2 t'"
    proof (rule tree_wf_update [OF wf2 k])
      show "t' = t2\<lparr>mt_slots := mt_slots t @ [Some (new_slot a d g st hint)],
        mt_synthetic := (mt_synthetic t2)[k := (mt_synthetic t2 ! k)\<lparr>sd_children :=
          AList.update (to_dec g) (pack (word_of_nat (length (mt_slots t))) 0) ?ch\<rparr>]\<rparr>"
        by (simp add: t'_def)
      show "distinct (map fst (AList.update (to_dec g) (pack (word_of_nat (length (mt_slots t))) 0) ?ch))"
        using wf2 k(1) by (intro AList.distinct_update) (simp add: tree_wf_def)
      show "map_of (AList.update (to_dec g) (pack (word_of_nat (length (mt_slots t))) 0) ?ch) n = Some c \<longleftrightarrow>
          child_of rs2 (mt_slots t @ [Some (new_slot a d g st hint)]) (DepotDir a d) n c" for n c
      proof -
        have "\<not> child_of rs2 (mt_slots t) (DepotDir a d) (to_dec g) c"
          using children_at(2) [OF wf2 k(1), of "to_dec g" c] k(2) slots mt False by simp
        then show ?thesis
          using children_at(2) [OF wf2 k(1), of n c] k(2) slots
          unfolding child_of_slot_snoc by (auto simp: new_slot_def)
      qed
      show "child_of rs2 (mt_slots t @ [Some (new_slot a d g st hint)]) (DepotDir b e) n c =
          child_of rs2 (mt_slots t2) (DepotDir b e) n c" if "(b, e) \<noteq> (a, d)" for b e n c
        using that slots unfolding child_of_slot_snoc by (auto simp: new_slot_def)
      show "length (mt_slots t @ [Some (new_slot a d g st hint)]) \<le> 2 ^ 16" using False bound by simp
      show "(mt_slots t @ [Some (new_slot a d g st hint)]) ! 0 = None"
        using bound wf by (simp add: nth_append tree_wf_def)
      show "DepotDir (sl_app_id sl) (sl_depot_id sl) \<in> set rs2"
        if "Some sl \<in> set (mt_slots t @ [Some (new_slot a d g st hint)])" for sl
        using that wf2 slots k nth_mem [OF k(1)] by (auto simp: tree_wf_def new_slot_def)
    qed simp
    then show ?thesis using res False L by (auto simp: t'_def)
  qed
qed

lemma slot_at_iff:
  "slot_at t s = Some sl \<longleftrightarrow> unat s < length (mt_slots t) \<and> mt_slots t ! unat s = Some sl"
  by (auto simp: slot_at_def get_at_def)

lemma mounted_slot:
  "slot_at t s = Some sl \<Longrightarrow> unat s \<in> mounted t (sl_app_id sl) (sl_depot_id sl) (sl_manifest_gid sl)"
  by (auto simp: slot_at_iff mounted_def)

lemma child_of_slot_update:
  assumes "i < length ss" and "ss ! i = Some sl"
  shows "child_of rs (ss[i := None]) (DepotDir a d) n c \<longleftrightarrow>
    (\<exists>k sl. k \<noteq> i \<and> k < length ss \<and> ss ! k = Some sl \<and> sl_app_id sl = a \<and> sl_depot_id sl = d \<and>
        n = to_dec (sl_manifest_gid sl) \<and> c = pack (word_of_nat k) 0)"
  unfolding child_of.simps using assms by (metis length_list_update nth_list_update option.distinct(1))

lemma child_of_slot_update_other:
  assumes "i < length ss" and "ss ! i = Some sl"
    and "\<not> (sl_app_id sl = a \<and> sl_depot_id sl = d \<and> n = to_dec (sl_manifest_gid sl))"
  shows "child_of rs (ss[i := None]) (DepotDir a d) n c \<longleftrightarrow> child_of rs ss (DepotDir a d) n c"
  unfolding child_of.simps using assms by (intro ex_cong1) (auto simp: nth_list_update)

lemma remove_spec:
  assumes wf: "tree_wf rs t" and sl: "slot_at t s = Some sl"
  shows "\<exists>t'. remove (SnapshotId s) t = Some (Some sl, t') \<and> tree_wf rs t' \<and>
    mt_slots t' = (mt_slots t)[unat s := None]"
proof -
  let ?i = "unat s" and ?a = "sl_app_id sl" and ?d = "sl_depot_id sl" and ?g = "sl_manifest_gid sl"
  let ?ss = "(mt_slots t)[unat s := None]"
  have i: "?i < length (mt_slots t)" "mt_slots t ! ?i = Some sl" using sl by (auto simp: slot_at_iff)
  have mi: "?i \<in> mounted t ?a ?d ?g" using mounted_slot [OF sl] .
  obtain k where k: "k < length rs" "rs ! k = DepotDir ?a ?d" using depot_dir_of [OF wf mi] .
  let ?ch = "sd_children (mt_synthetic t ! k)"
  have kl: "k < length (mt_synthetic t)" "k < 2 ^ 48" using wf k(1) by (auto simp: tree_wf_def)
  define t' where "t' = t\<lparr>mt_slots := ?ss, mt_synthetic := (mt_synthetic t)[k :=
    (mt_synthetic t ! k)\<lparr>sd_children := AList.delete (to_dec ?g) ?ch\<rparr>]\<rparr>"
  have "map_of (mt_synth_by_path t) (depot_path ?a ?d) = Some (word_of_nat k)"
    using by_path_depot [OF wf, of ?a ?d "word_of_nat k"] k by auto
  then have rm: "remove (SnapshotId s) t = Some (Some sl, t')"
    using sl kl by (simp add: remove_def Let_def children_of_mut_at t'_def)
  have "tree_wf rs t'"
  proof (rule tree_wf_update [OF wf k t'_def])
    show "distinct (map fst (AList.delete (to_dec ?g) ?ch))"
      using wf k(1) by (intro AList.distinct_delete) (simp add: tree_wf_def)
    show "map_of (AList.delete (to_dec ?g) ?ch) n = Some c \<longleftrightarrow> child_of rs ?ss (DepotDir ?a ?d) n c" for n c
    proof (cases "n = to_dec ?g")
      case True
      have "k' = ?i" if "k' < length (mt_slots t)" "mt_slots t ! k' = Some sl'" "sl_app_id sl' = ?a"
        "sl_depot_id sl' = ?d" "sl_manifest_gid sl' = ?g" for k' sl'
        using mounted_once [OF wf _ mi, of k'] that by (auto simp: mounted_def)
      then show ?thesis
        using True unfolding child_of_slot_update [OF i] by (auto simp: AList.delete_conv' to_dec_inject_u64)
    next
      case False
      have "map_of (AList.delete (to_dec ?g) ?ch) n = Some c \<longleftrightarrow> child_of rs (mt_slots t) (DepotDir ?a ?d) n c"
        using False children_at(2) [OF wf k(1), of n c] k(2) by (simp add: AList.delete_conv')
      then show ?thesis using False child_of_slot_update_other [OF i] by simp
    qed
    show "child_of rs ?ss (DepotDir b e) n c = child_of rs (mt_slots t) (DepotDir b e) n c"
      if "(b, e) \<noteq> (?a, ?d)" for b e n c
      using that by (intro child_of_slot_update_other [OF i]) auto
    show "?ss ! 0 = None" using wf i by (cases "?i = 0") (auto simp: tree_wf_def)
    show "DepotDir (sl_app_id x) (sl_depot_id x) \<in> set rs" if "Some x \<in> set ?ss" for x
      using that set_update_subset_insert [of "mt_slots t" ?i None] wf by (auto simp: tree_wf_def)
  qed (use wf in \<open>auto simp: tree_wf_def\<close>)
  then show ?thesis using rm by (auto simp: t'_def)
qed

lemma find_slot_spec:
  assumes wf: "tree_wf rs t"
  shows "find_slot a d g t = Some (if mounted t a d g = {} then None
    else Some (word_of_nat (the_elem (mounted t a d g))))"
proof (cases "\<exists>k < length rs. rs ! k = DepotDir a d")
  case True
  then obtain k where k: "k < length rs" "rs ! k = DepotDir a d" by blast
  then have p: "map_of (mt_synth_by_path t) (depot_path a d) = Some (word_of_nat k)"
    using by_path_depot [OF wf, of a d "word_of_nat k"] by auto
  let ?m = "map_of (sd_children (mt_synthetic t ! k)) (to_dec g)"
  show ?thesis
  proof (cases "mounted t a d g = {}")
    case True
    then have "?m = None" using mounted_child [OF wf k, of g] by (cases ?m) auto
    then show ?thesis using True p children_at(1) [OF wf k(1)] by (simp add: find_slot_def)
  next
    case False
    then obtain i where i: "i \<in> mounted t a d g" by blast
    then have "mounted t a d g = {i}" using mounted_once [OF wf] by blast
    moreover have "?m = Some (pack (word_of_nat i) 0)" using mounted_child [OF wf k] i by blast
    ultimately show ?thesis
      using p children_at(1) [OF wf k(1)] by (simp add: find_slot_def)
  qed
next
  case False
  then have "map_of (mt_synth_by_path t) (depot_path a d) = None"
    using by_path_depot [OF wf, of a d] by (cases "map_of (mt_synth_by_path t) (depot_path a d)") auto
  moreover have "mounted t a d g = {}" using depot_dir_of [OF wf] False by blast
  ultimately show ?thesis by (simp add: find_slot_def)
qed

lemma promote_cases:
  "promote (SnapshotId s) e t = t \<or>
   (\<exists>sl lz. slot_at t s = Some sl \<and> sl_state sl = Pending lz \<and>
      promote (SnapshotId s) e t = t\<lparr>mt_slots := (mt_slots t)[unat s := Some (sl\<lparr>sl_state := Ready e,
        sl_creation_time := Some (m_creation_time (ds_manifest (se_snapshot e)))\<rparr>)]\<rparr>)"
  by (auto simp: promote_def split: option.split slot_state.split)

lemma promote_wf:
  assumes wf: "tree_wf rs t"
  shows "tree_wf rs (promote (SnapshotId s) e t)" and "mounted (promote (SnapshotId s) e t) = mounted t"
proof -
  have "tree_wf rs (promote (SnapshotId s) e t) \<and> mounted (promote (SnapshotId s) e t) = mounted t"
    using promote_cases [of s e t]
  proof (elim disjE exE conjE)
    fix sl lz
    assume sl: "slot_at t s = Some sl" "sl_state sl = Pending lz"
    define sl' where "sl' = sl\<lparr>sl_state := Ready e,
        sl_creation_time := Some (m_creation_time (ds_manifest (se_snapshot e)))\<rparr>"
    assume "promote (SnapshotId s) e t = t\<lparr>mt_slots := (mt_slots t)[unat s := Some (sl\<lparr>sl_state := Ready e,
        sl_creation_time := Some (m_creation_time (ds_manifest (se_snapshot e)))\<rparr>)]\<rparr>"
    then have p: "promote (SnapshotId s) e t = t\<lparr>mt_slots := (mt_slots t)[unat s := Some sl']\<rparr>"
      by (simp add: sl'_def)
    have i: "unat s < length (mt_slots t)" "mt_slots t ! unat s = Some sl" using sl by (auto simp: slot_at_iff)
    have f: "sl_app_id sl' = sl_app_id sl" "sl_depot_id sl' = sl_depot_id sl"
      "sl_manifest_gid sl' = sl_manifest_gid sl" by (simp_all add: sl'_def)
    have m: "mounted (promote (SnapshotId s) e t) a d g = mounted t a d g" for a d g
      using i f by (auto simp: mounted_def p nth_list_update)
    have c: "child_of rs ((mt_slots t)[unat s := Some sl']) r n c = child_of rs (mt_slots t) r n c" for r n c
    proof (cases r)
      case (DepotDir a d)
      show ?thesis
        unfolding DepotDir child_of.simps using i f
        by (metis (no_types, opaque_lifting) length_list_update nth_list_update option.inject)
    qed simp_all
    have "Some x \<in> set ((mt_slots t)[unat s := Some sl']) \<Longrightarrow>
        DepotDir (sl_app_id x) (sl_depot_id x) \<in> set rs" for x
      using set_update_subset_insert [of "mt_slots t" "unat s" "Some sl'"] wf i f nth_mem [OF i(1)]
      by (auto simp: tree_wf_def)
    moreover have "(mt_slots t)[unat s := Some sl'] ! 0 = None"
      using wf i by (cases "unat s = 0") (auto simp: tree_wf_def)
    ultimately have "tree_wf rs (promote (SnapshotId s) e t)"
      using wf unfolding tree_wf_def p by (simp add: c del: map_of_eq_Some_iff)
    then show ?thesis using m by blast
  qed (use wf in auto)
  then show "tree_wf rs (promote (SnapshotId s) e t)" "mounted (promote (SnapshotId s) e t) = mounted t" by auto
qed

section \<open>Histories of the tree\<close>

text \<open>The steps a tree takes: a registration, a removal, the promotion of an opened snapshot.\<close>

inductive tree_step :: "('s, 'o) mount_tree \<Rightarrow> ('s, 'o) mount_tree \<Rightarrow> bool" where
  step_reserve: "reserve_slot a d g st hint t = Some (r, t') \<Longrightarrow> tree_step t t'"
| step_remove: "remove sn t = Some (r, t') \<Longrightarrow> tree_step t t'"
| step_promote: "tree_step t (promote sn e t)"

inductive_cases tree_stepE: "tree_step t t'"

definition tree_ok :: "('s, 'o) mount_tree \<Rightarrow> bool" where
  "tree_ok t \<longleftrightarrow> (\<exists>rs. tree_wf rs t)"

lemma tree_wf_len: "tree_wf rs t \<Longrightarrow> length rs = length (mt_synthetic t)"
  by (simp add: tree_wf_def)

lemma remove_missing: "slot_at t s = None \<Longrightarrow> remove (SnapshotId s) t = Some (None, t)"
  by (simp add: remove_def)

lemma promote_dirs: "length (mt_synthetic (promote sn e t)) = length (mt_synthetic t)"
  by (auto simp: promote_def split: option.split slot_state.split)

lemma tree_step_ok:
  assumes "tree_step t t'" and "tree_ok t" and "length (mt_synthetic t) + 2 \<le> 2 ^ 48"
  shows "tree_ok t' \<and> length (mt_synthetic t') \<le> length (mt_synthetic t) + 2"
proof -
  obtain rs where wf: "tree_wf rs t" using assms(2) by (auto simp: tree_ok_def)
  note len = tree_wf_len [OF wf]
  from assms(1) show ?thesis
  proof cases
    case (step_reserve a d g st hint r)
    have "length rs + 2 \<le> 2 ^ 48" using len assms(3) by simp
    from reserve_slot_spec [OF wf this, of a d g st hint] step_reserve obtain rs' where
      r: "tree_wf rs' t'" "length rs' \<le> length rs + 2" by auto
    then show ?thesis using tree_wf_len [OF r(1)] len by (auto simp: tree_ok_def)
  next
    case (step_remove sn r)
    show ?thesis
    proof (cases "slot_at t (sid_raw sn)")
      case None
      then have "t' = t" using step_remove remove_missing [OF None] by (cases sn) simp
      then show ?thesis using assms by simp
    next
      case (Some sl)
      from remove_spec [OF wf Some] step_remove have r: "tree_wf rs t'" by (cases sn) auto
      then show ?thesis using tree_wf_len [OF r] len by (auto simp: tree_ok_def)
    qed
  next
    case (step_promote sn e)
    then show ?thesis using promote_wf(1) [OF wf] promote_dirs [of sn e t]
      by (cases sn) (auto simp: tree_ok_def)
  qed
qed

lemma ensure_synthetic_slots:
  "ensure_synthetic p n t = Some (i, t') \<Longrightarrow> mt_slots t' = mt_slots t"
  by (auto simp: ensure_synthetic_def children_of_mut_def Let_def split: option.splits)

lemma reserve_slot_slots:
  assumes "reserve_slot a d g st hint t = Some (r, t')"
  shows "\<exists>xs. mt_slots t' = mt_slots t @ xs"
proof -
  obtain i1 t1 where 1: "ensure_synthetic ROOT (to_dec a) t = Some (i1, t1)"
    using assms by (auto simp: reserve_slot_def split: option.splits)
  obtain i2 t2 where 2: "ensure_synthetic i1 (to_dec d) t1 = Some (i2, t2)"
    using assms 1 by (auto simp: reserve_slot_def split: option.splits)
  have s: "mt_slots t2 = mt_slots t"
    using ensure_synthetic_slots [OF 1] ensure_synthetic_slots [OF 2] by simp
  show ?thesis
    using assms 1 2 s
    by (auto simp: reserve_slot_def children_of_mut_def Let_def split: option.splits if_splits)
qed

lemma tree_step_dead:
  assumes "tree_step t t'" and "unat s < length (mt_slots t)" and "slot_at t s = None"
  shows "unat s < length (mt_slots t') \<and> slot_at t' s = None"
  using assms(1)
proof cases
  case (step_reserve a d g st hint r)
  then show ?thesis using reserve_slot_slots [OF step_reserve] assms(2,3)
    by (auto simp: slot_at_def get_at_def nth_append)
next
  case (step_remove sn r)
  have "mt_slots t' = mt_slots t \<or> mt_slots t' = (mt_slots t)[unat (sid_raw sn) := None]"
    using step_remove by (auto simp: remove_def children_of_mut_def Let_def split: option.splits)
  then show ?thesis using assms(2,3)
    by (cases "unat (sid_raw sn) = unat s") (auto simp: slot_at_def get_at_def)
next
  case (step_promote sn e)
  show ?thesis
  proof (cases "unat (sid_raw sn) = unat s")
    case True
    then have "slot_at t (sid_raw sn) = None" using assms(3) by (simp add: slot_at_def)
    then show ?thesis using assms step_promote by (simp add: promote_def)
  next
    case False
    then show ?thesis using assms step_promote
      by (auto simp: promote_def slot_at_def get_at_def split: option.splits slot_state.splits)
  qed
qed

text \<open>What is mounted, as a map from paths to ids: the specification of the tree.\<close>

definition mount_map :: "('s, 'o) mount_tree \<Rightarrow> u32 \<times> u32 \<times> u64 \<Rightarrow> sid option" where
  "mount_map t = (\<lambda>(a, d, g). case find_slot a d g t of Some r \<Rightarrow> r | None \<Rightarrow> None)"

lemma mount_map_iff:
  assumes "tree_wf rs t"
  shows "mount_map t (a, d, g) = Some s \<longleftrightarrow> unat s \<in> mounted t a d g"
proof (cases "mounted t a d g = {}")
  case True
  then show ?thesis by (simp add: mount_map_def find_slot_spec [OF assms])
next
  case False
  then obtain i where i: "i \<in> mounted t a d g" by blast
  then have m: "mounted t a d g = {i}" using mounted_once [OF assms] by blast
  have "i < 2 ^ 16" using i slots_bound [OF assms] by (auto simp: mounted_def)
  then have "unat (word_of_nat i :: sid) = i" by (simp add: unsigned_of_nat take_bit_nat_eq_self)
  then show ?thesis using m by (auto simp: mount_map_def find_slot_spec [OF assms])
qed

lemma mount_map_None_iff:
  "tree_wf rs t \<Longrightarrow> mount_map t (a, d, g) = None \<longleftrightarrow> mounted t a d g = {}"
  by (simp add: mount_map_def find_slot_spec)

section \<open>Properties of the tree\<close>

text \<open>
  Node ids pack and unpack without loss: \<open>unpack\<close> recovers snapshot and index exactly when
  the index fits in 48 bits, and every node id is the packing of its parts.
\<close>

theorem pack_unpack_exact:
  "(unpack (pack s i) = (s, i) \<longleftrightarrow> unat i < 2 ^ 48) \<and> pack (fst (unpack j)) (snd (unpack j)) = j"
proof -
  have "unat (k AND INDEX_MASK) < 2 ^ 48" for k :: u64
  proof -
    have "unat (k AND INDEX_MASK) \<le> unat INDEX_MASK" by (metis and.commute word_and_le1 word_le_nat_alt)
    then show ?thesis by (simp add: unat_index_mask)
  qed
  then show ?thesis using unpack_pack pack_unpack by (metis snd_conv unpack_def)
qed

text \<open>
  C5: Every tree reached by registrations, removals and promotions is well formed: each
  directory sits under its parent by its name and is found by its path, no path is mounted twice
  and no operation on it panics.  The bound leaves room for the 48-bit indexes.
\<close>

theorem tree_reachable_ok:
  assumes "(tree_step ^^ n) mount_tree_new t" and "2 * n + 4 \<le> 2 ^ 48"
  shows "tree_ok t \<and> reserve_slot a d g st hint t \<noteq> None \<and> remove sn t \<noteq> None"
proof -
  have "tree_ok t \<and> length (mt_synthetic t) \<le> 2 * n + 2"
    using assms
  proof (induction n arbitrary: t)
    case 0
    then show ?case using tree_wf_new by (auto simp: tree_ok_def mount_tree_new_def)
  next
    case (Suc n)
    then obtain u where u: "(tree_step ^^ n) mount_tree_new u" "tree_step u t" by auto
    with Suc.IH [of u] Suc.prems(2) have "tree_ok u" "length (mt_synthetic u) \<le> 2 * n + 2" by auto
    moreover from this(2) Suc.prems(2) have "length (mt_synthetic u) + 2 \<le> 2 ^ 48" by simp
    ultimately show ?case using tree_step_ok [OF u(2)] by auto
  qed
  then obtain rs where wf: "tree_wf rs t" and l: "length (mt_synthetic t) \<le> 2 * n + 2"
    by (auto simp: tree_ok_def)
  have "length rs + 2 \<le> 2 ^ 48" using l assms(2) tree_wf_len [OF wf] by simp
  then have "reserve_slot a d g st hint t \<noteq> None"
    using reserve_slot_spec [OF wf, of a d g st hint] by auto
  moreover have "remove sn t \<noteq> None"
  proof (cases "slot_at t (sid_raw sn)")
    case None
    then show ?thesis by (simp add: remove_def)
  next
    case (Some sl)
    then show ?thesis using remove_spec [OF wf Some] by (cases sn) auto
  qed
  ultimately show ?thesis using wf by (auto simp: tree_ok_def)
qed

text \<open>
  C6: A registration implements the insertion into the map from paths to ids: a path already
  mounted is refused, a full id space is refused, and otherwise the path, and only that path,
  now leads to the new id.
\<close>

theorem reserve_slot_refines:
  assumes "tree_ok t" and "length (mt_synthetic t) + 2 \<le> 2 ^ 48"
  shows "\<exists>r t'. reserve_slot a d g st hint t = Some (r, t') \<and> tree_ok t' \<and>
    (if mount_map t (a, d, g) \<noteq> None then r = Err (AlreadyMounted a d g) \<and> mount_map t' = mount_map t
     else if length (mt_slots t) = 2 ^ 16 then r = Err TooManySnapshots \<and> mount_map t' = mount_map t
     else \<exists>s. r = Ok (SnapshotId s) \<and> unat s = length (mt_slots t) \<and>
       mount_map t' = (mount_map t)((a, d, g) \<mapsto> s) \<and>
       slot_at t' s = Some (new_slot a d g st hint))"
proof -
  obtain rs where wf: "tree_wf rs t" using assms(1) by (auto simp: tree_ok_def)
  have "length rs + 2 \<le> 2 ^ 48" using assms(2) tree_wf_len [OF wf] by simp
  from reserve_slot_spec [OF wf this, of a d g st hint] obtain rs' t' r where
    r: "reserve_slot a d g st hint t = Some (r, t')" and wf': "tree_wf rs' t'"
    and c: "if mounted t a d g \<noteq> {} then r = Err (AlreadyMounted a d g) \<and> mt_slots t' = mt_slots t
     else if length (mt_slots t) = 2 ^ 16 then r = Err TooManySnapshots \<and> mt_slots t' = mt_slots t
     else r = Ok (SnapshotId (word_of_nat (length (mt_slots t)))) \<and>
       mt_slots t' = mt_slots t @ [Some (new_slot a d g st hint)]" by blast
  have same: "mount_map t' = mount_map t" if "mt_slots t' = mt_slots t"
  proof -
    have "mounted t' = mounted t" using that by (simp add: mounted_def fun_eq_iff)
    then have "mount_map t' (b, e, h) = mount_map t (b, e, h)" for b e h
      using mount_map_iff [OF wf] mount_map_iff [OF wf'] by (metis option.exhaust)
    then show ?thesis by auto
  qed
  show ?thesis
  proof (cases "mounted t a d g = {} \<and> length (mt_slots t) \<noteq> 2 ^ 16")
    case False
    then show ?thesis using r wf' c same mount_map_None_iff [OF wf, of a d g]
      by (auto simp: tree_ok_def split: if_splits)
  next
    case True
    let ?s = "word_of_nat (length (mt_slots t)) :: sid"
    have "length (mt_slots t) < 2 ^ 16" using True wf by (auto simp: tree_wf_def)
    then have s: "unat ?s = length (mt_slots t)" by (simp add: unsigned_of_nat take_bit_nat_eq_self)
    have sl: "mt_slots t' = mt_slots t @ [Some (new_slot a d g st hint)]" using c True by auto
    have ns: "sl_app_id (new_slot a d g st hint) = a" "sl_depot_id (new_slot a d g st hint) = d"
      "sl_manifest_gid (new_slot a d g st hint) = g" by (simp_all add: new_slot_def)
    have m: "mounted t' b e h = mounted t b e h \<union> (if (b, e, h) = (a, d, g) then {unat ?s} else {})" for b e h
      using sl s ns by (auto simp: mounted_def nth_append less_Suc_eq)
    have "mount_map t' k = ((mount_map t)((a, d, g) \<mapsto> ?s)) k" for k
    proof (cases k)
      case (fields b e h)
      have "mount_map t' (b, e, h) = Some x \<longleftrightarrow> ((mount_map t)((a, d, g) \<mapsto> ?s)) (b, e, h) = Some x" for x
      proof (cases "(b, e, h) = (a, d, g)")
        case True': True
        have "mount_map t' (b, e, h) = Some x \<longleftrightarrow> unat x = unat ?s"
          using mount_map_iff [OF wf'] m [of a d g] True True' by auto
        moreover have "x = ?s \<longleftrightarrow> unat x = unat ?s" by (rule word_unat_eq_iff)
        ultimately show ?thesis using True' by auto
      next
        case False
        then have "mounted t' b e h = mounted t b e h" using m [of b e h] by auto
        then show ?thesis using mount_map_iff [OF wf] mount_map_iff [OF wf'] False by auto
      qed
      then show ?thesis unfolding fields by (metis option.exhaust)
    qed
    moreover have "slot_at t' ?s = Some (new_slot a d g st hint)" using sl s by (simp add: slot_at_iff)
    ultimately show ?thesis using r wf' c True s mount_map_None_iff [OF wf, of a d g]
      by (auto simp: tree_ok_def fun_eq_iff)
  qed
qed

theorem reserve_slot_refines_witness:
  "\<exists>r t'. reserve_slot 7 8 9 (Pending \<lparr>le_opener = (), le_cell = 0\<rparr>) (Some 5)
       (mount_tree_new :: (unit, unit) mount_tree) = Some (r, t') \<and> tree_ok t' \<and>
     (\<exists>s. r = Ok (SnapshotId s) \<and> unat s = 1 \<and> mount_map t' (7, 8, 9) = Some s)"
proof -
  let ?t = "mount_tree_new :: (unit, unit) mount_tree"
  have ok: "tree_ok ?t" using tree_wf_new by (auto simp: tree_ok_def)
  have l: "length (mt_synthetic ?t) + 2 \<le> 2 ^ 48" by (simp add: mount_tree_new_def)
  have "mount_map ?t (7, 8, 9) = None" by (simp add: mount_map_def find_slot_def mount_tree_new_def)
  then show ?thesis
    using reserve_slot_refines [OF ok l, of 7 8 9 "Pending \<lparr>le_opener = (), le_cell = 0\<rparr>" "Some 5"]
    by (auto simp: mount_tree_new_def)
qed

text \<open>
  C20: A removal implements the deletion of the snapshot's path from the map: it hands back the
  slot, the path and only that path is gone, and the id leads nowhere.  Removing an id that is
  not in use changes nothing.
\<close>

theorem remove_refines:
  assumes "tree_ok t"
  shows "\<exists>t'. remove (SnapshotId s) t = Some (slot_at t s, t') \<and> tree_ok t' \<and> slot_at t' s = None \<and>
    mount_map t' = (case slot_at t s of None \<Rightarrow> mount_map t
      | Some sl \<Rightarrow> (mount_map t)((sl_app_id sl, sl_depot_id sl, sl_manifest_gid sl) := None))"
proof (cases "slot_at t s")
  case None
  then show ?thesis using assms remove_missing [OF None] by simp
next
  case (Some sl)
  let ?a = "sl_app_id sl" and ?d = "sl_depot_id sl" and ?g = "sl_manifest_gid sl"
  obtain rs where wf: "tree_wf rs t" using assms by (auto simp: tree_ok_def)
  from remove_spec [OF wf Some] obtain t' where rm: "remove (SnapshotId s) t = Some (Some sl, t')"
    and wf': "tree_wf rs t'" and ss: "mt_slots t' = (mt_slots t)[unat s := None]" by blast
  have i: "unat s < length (mt_slots t)" "mt_slots t ! unat s = Some sl" using Some by (auto simp: slot_at_iff)
  have m: "mounted t' b e h = mounted t b e h - {unat s}" for b e h
    using i by (auto simp: mounted_def ss nth_list_update)
  have "mount_map t' k = ((mount_map t)((?a, ?d, ?g) := None)) k" for k
  proof (cases k)
    case (fields b e h)
    show ?thesis
    proof (cases "(b, e, h) = (?a, ?d, ?g)")
      case True
      have "mounted t ?a ?d ?g = {unat s}"
        using mounted_slot [OF Some] mounted_once [OF wf] by blast
      then show ?thesis using mount_map_None_iff [OF wf'] m True fields by simp
    next
      case False
      have "unat s \<notin> mounted t b e h" using False i by (auto simp: mounted_def)
      then have "mounted t' b e h = mounted t b e h" using m by simp
      then have "mount_map t' (b, e, h) = Some x \<longleftrightarrow> mount_map t (b, e, h) = Some x" for x
        using mount_map_iff [OF wf] mount_map_iff [OF wf'] by simp
      then have "mount_map t' (b, e, h) = mount_map t (b, e, h)" by (metis option.exhaust)
      then show ?thesis using False fields by auto
    qed
  qed
  moreover have "slot_at t' s = None" using i by (simp add: slot_at_def get_at_def ss)
  ultimately show ?thesis using rm wf' Some by (auto simp: tree_ok_def fun_eq_iff)
qed

theorem remove_refines_witness:
  "\<exists>t1 sl t2. reserve_slot 7 8 9 (Pending \<lparr>le_opener = (), le_cell = 0\<rparr>) None
       (mount_tree_new :: (unit, unit) mount_tree) = Some (Ok (SnapshotId 1), t1) \<and>
     mount_map t1 (7, 8, 9) = Some 1 \<and> remove (SnapshotId 1) t1 = Some (Some sl, t2) \<and>
     slot_at t2 1 = None \<and> mount_map t2 (7, 8, 9) = None"
proof -
  let ?p = "Pending \<lparr>le_opener = (), le_cell = 0\<rparr> :: (unit, unit) slot_state"
  let ?sl = "new_slot 7 8 9 ?p None"
  have "length [Unused, RootDir] + 2 \<le> 2 ^ 48" by simp
  from reserve_slot_spec [OF tree_wf_new this, of 7 8 9 ?p None] obtain rs1 t1 where
    1: "reserve_slot 7 8 9 ?p None mount_tree_new = Some (Ok (SnapshotId 1), t1)"
      "tree_wf rs1 t1" "mt_slots t1 = [None, Some ?sl]"
    by (auto simp: mounted_def mount_tree_new_def)
  then have sl: "slot_at t1 1 = Some ?sl" by (simp add: slot_at_iff)
  have "unat (1 :: sid) \<in> mounted t1 7 8 9" using mounted_slot [OF sl] by (simp add: new_slot_def)
  then have m: "mount_map t1 (7, 8, 9) = Some 1" using mount_map_iff [OF 1(2)] by simp
  have "tree_ok t1" using 1(2) by (auto simp: tree_ok_def)
  from remove_refines [OF this, of 1] show ?thesis using 1(1) m sl by (auto simp: new_slot_def)
qed

text \<open>
  C29: A snapshot id is never used again: once a slot is empty, it is empty after every later
  registration, removal and promotion, so a stale handle never reaches another snapshot.
\<close>

theorem ids_not_reused:
  assumes "unat s < length (mt_slots t)" and "slot_at t s = None" and "tree_step\<^sup>*\<^sup>* t t'"
    and "tree_ok t'"
  shows "slot_at t' s = None \<and> find_slot a d g t' \<noteq> Some (Some s)"
proof -
  have dead: "unat s < length (mt_slots t') \<and> slot_at t' s = None"
    using assms(3,1,2) by (induction rule: rtranclp_induct) (auto dest: tree_step_dead)
  have "find_slot a d g t' \<noteq> Some (Some s)"
  proof
    assume f: "find_slot a d g t' = Some (Some s)"
    from assms(4) obtain rs where "tree_wf rs t'" by (auto simp: tree_ok_def)
    from mount_map_iff [OF this, of a d g s] f have "unat s \<in> mounted t' a d g"
      by (simp add: mount_map_def)
    with dead show False by (auto simp: mounted_def slot_at_def get_at_def)
  qed
  with dead show ?thesis by blast
qed

lemma one_in_one_out:
  "\<exists>t1 sl t2. reserve_slot 7 8 9 (Pending \<lparr>le_opener = (), le_cell = 0\<rparr>) None
       (mount_tree_new :: (unit, unit) mount_tree) = Some (Ok (SnapshotId 1), t1) \<and>
     remove (SnapshotId 1) t1 = Some (Some sl, t2)"
proof -
  let ?p = "Pending \<lparr>le_opener = (), le_cell = 0\<rparr> :: (unit, unit) slot_state"
  have "length [Unused, RootDir] + 2 \<le> 2 ^ 48" by simp
  from reserve_slot_spec [OF tree_wf_new this, of 7 8 9 ?p None] obtain rs1 t1 where
    1: "reserve_slot 7 8 9 ?p None mount_tree_new = Some (Ok (SnapshotId 1), t1)"
      "tree_wf rs1 t1" "mt_slots t1 = [None, Some (new_slot 7 8 9 ?p None)]"
    by (auto simp: mounted_def mount_tree_new_def)
  then have "slot_at t1 1 = Some (new_slot 7 8 9 ?p None)" by (simp add: slot_at_iff)
  from remove_spec [OF 1(2) this] 1(1) show ?thesis by blast
qed

theorem ids_not_reused_witness:
  "\<exists>t1 t2 t3 r. reserve_slot 7 8 9 (Pending \<lparr>le_opener = (), le_cell = 0\<rparr>) None
       (mount_tree_new :: (unit, unit) mount_tree) = Some (Ok (SnapshotId 1), t1) \<and>
     (\<exists>sl. remove (SnapshotId 1) t1 = Some (Some sl, t2)) \<and>
     reserve_slot 7 8 9 (Pending \<lparr>le_opener = (), le_cell = 1\<rparr>) None t2 = Some (r, t3) \<and>
     slot_at t3 1 = None \<and> find_slot 7 8 9 t3 \<noteq> Some (Some 1)"
proof -
  let ?p = "\<lambda>n. Pending \<lparr>le_opener = (), le_cell = n\<rparr> :: (unit, unit) slot_state"
  have "length [Unused, RootDir] + 2 \<le> 2 ^ 48" by simp
  from reserve_slot_spec [OF tree_wf_new this, of 7 8 9 "?p 0" None] obtain rs1 t1 where
    1: "reserve_slot 7 8 9 (?p 0) None mount_tree_new = Some (Ok (SnapshotId 1), t1)"
      "tree_wf rs1 t1" "length rs1 \<le> 4" "mt_slots t1 = [None, Some (new_slot 7 8 9 (?p 0) None)]"
    by (auto simp: mounted_def mount_tree_new_def)
  then have "slot_at t1 1 = Some (new_slot 7 8 9 (?p 0) None)" by (simp add: slot_at_iff)
  from remove_spec [OF 1(2) this] obtain t2 where
    2: "remove (SnapshotId 1) t1 = Some (Some (new_slot 7 8 9 (?p 0) None), t2)" "tree_wf rs1 t2"
      "mt_slots t2 = [None, None]" using 1(4) by auto
  have "length rs1 + 2 \<le> 2 ^ 48" using 1(3) by simp
  from reserve_slot_spec [OF 2(2) this, of 7 8 9 "?p 1" None] obtain rs3 t3 r where
    3: "reserve_slot 7 8 9 (?p 1) None t2 = Some (r, t3)" "tree_wf rs3 t3" by blast
  have "tree_step\<^sup>*\<^sup>* t2 t3" using step_reserve [OF 3(1)] by auto
  moreover have "unat (1 :: sid) < length (mt_slots t2)" "slot_at t2 1 = None" "tree_ok t3"
    using 2(3) 3(2) by (auto simp: slot_at_def get_at_def tree_ok_def)
  ultimately have "slot_at t3 1 = None \<and> find_slot 7 8 9 t3 \<noteq> Some (Some 1)"
    by (intro ids_not_reused)
  then show ?thesis using 1(1) 2(1) 3(1) by blast
qed

text \<open>After a registration and a removal the tree is still well formed, and the next removal does not panic.\<close>

theorem tree_reachable_ok_witness:
  "\<exists>r sl t1 t2. reserve_slot 7 8 9 (Pending \<lparr>le_opener = (), le_cell = 0\<rparr>) None
       (mount_tree_new :: (unit, unit) mount_tree) = Some (r, t1) \<and>
     remove (SnapshotId 1) t1 = Some (Some sl, t2) \<and> tree_ok t2 \<and> remove (SnapshotId 1) t2 \<noteq> None"
proof -
  obtain r sl t1 t2 where t: "reserve_slot 7 8 9 (Pending \<lparr>le_opener = (), le_cell = 0\<rparr>) None
       (mount_tree_new :: (unit, unit) mount_tree) = Some (r, t1)" "remove (SnapshotId 1) t1 = Some (Some sl, t2)"
    using one_in_one_out by blast
  have "(tree_step ^^ 2) mount_tree_new t2"
    using step_reserve [OF t(1)] step_remove [OF t(2)] by (auto simp: numeral_2_eq_2)
  from tree_reachable_ok [OF this] t show ?thesis by auto
qed

end
