(* ===== verification/Cli_Config.thy ===== *)
theory Cli_Config
  imports Manifest_Cache Steam_Store Mount_Tree
begin

text \<open>
  The configuration of the \<open>steam-depot\<close> binary, \<open>config.rs\<close>, and what \<open>mount\<close> of \<open>main.rs\<close>
  does with it before it serves: every configured manifest is registered, unopened, under
  \<open>app/depot/gid\<close>, with the release date of its cached copy if there is one.

  The TOML parser is outside the repository: \<open>toml\<close> gives the raw configuration or an error.
\<close>

section \<open>Configuration\<close>

text \<open>A \<open>PathBuf\<close>: absolute or not, and its components.\<close>

record os_path =
  op_absolute :: bool
  op_components :: path

definition op_join :: "os_path \<Rightarrow> os_path \<Rightarrow> os_path" where
  "op_join base p =
     (if op_absolute p then p
      else \<lparr>op_absolute = op_absolute base, op_components = op_components base @ op_components p\<rparr>)"

definition op_parent :: "os_path \<Rightarrow> os_path option" where
  "op_parent p =
     (if op_components p = [] then None
      else Some \<lparr>op_absolute = op_absolute p, op_components = butlast (op_components p)\<rparr>)"

record steam_account =
  sa_account :: string
  sa_password :: string

record cfg_manifest =
  cf_app_id :: u32
  cf_depot_id :: u32
  cf_gid :: u64
  cf_branch :: string

record raw_depot =
  rd_app_id :: u32
  rd_depot_id :: u32
  rd_manifests :: "string list"

record raw_config =
  rc_mountpoint :: os_path
  rc_store_root :: os_path
  rc_steam :: steam_account
  rc_depots :: "raw_depot list"

record config =
  cfg_mountpoint :: os_path
  cfg_store_root :: os_path
  cfg_steam :: steam_account
  cfg_manifests :: "cfg_manifest list"

datatype config_error = ConfigRead io_error | ConfigParse | InvalidGid string

definition DEFAULT_BRANCH :: string where
  "DEFAULT_BRANCH = ''public''"

definition parse_manifest_entry :: "u32 \<Rightarrow> u32 \<Rightarrow> string \<Rightarrow> (config_error, cfg_manifest) outcome" where
  "parse_manifest_entry app_id depot_id raw =
     (let (gid_str, branch) = (case split_once (CHR '':'') raw of
            Some (g, b) \<Rightarrow> (g, b)
          | None \<Rightarrow> (raw, DEFAULT_BRANCH))
      in case parse_u64 gid_str of
           None \<Rightarrow> Err (InvalidGid gid_str)
         | Some gid \<Rightarrow> Ok \<lparr>cf_app_id = app_id, cf_depot_id = depot_id, cf_gid = gid, cf_branch = branch\<rparr>)"

text \<open>The two loops: the first entry that does not parse ends them.\<close>

fun parse_entries :: "u32 \<Rightarrow> u32 \<Rightarrow> string list \<Rightarrow> (config_error, cfg_manifest list) outcome" where
  "parse_entries app_id depot_id [] = Ok []"
| "parse_entries app_id depot_id (entry # entries) =
     obind (parse_manifest_entry app_id depot_id entry) (\<lambda>m.
     omap (\<lambda>ms. m # ms) (parse_entries app_id depot_id entries))"

fun parse_depots :: "raw_depot list \<Rightarrow> (config_error, cfg_manifest list) outcome" where
  "parse_depots [] = Ok []"
| "parse_depots (d # ds) =
     obind (parse_entries (rd_app_id d) (rd_depot_id d) (rd_manifests d)) (\<lambda>ms.
     omap (\<lambda>rest. ms @ rest) (parse_depots ds))"

definition resolve_path :: "os_path \<Rightarrow> os_path \<Rightarrow> os_path" where
  "resolve_path base p = (if op_absolute p then p else op_join base p)"

text \<open>\<open>read_to_string\<close> is an error when the bytes are no UTF-8.\<close>

definition config_from_file ::
  "(bytes \<Rightarrow> bool) \<Rightarrow> (bytes \<Rightarrow> raw_config option) \<Rightarrow> os_path \<Rightarrow> fsys \<Rightarrow> (config_error, config) outcome \<times> fsys" where
  "config_from_file utf8 toml p fs =
     (case fs_read (op_components p) fs of
        (Err e, fs1) \<Rightarrow> (Err (ConfigRead e), fs1)
      | (Panic, fs1) \<Rightarrow> (Panic, fs1)
      | (Ok text, fs1) \<Rightarrow>
          if \<not> utf8 text then (Err (ConfigRead (OsError KInvalidData)), fs1)
          else (case toml text of
             None \<Rightarrow> (Err ConfigParse, fs1)
           | Some raw \<Rightarrow>
               (omap (\<lambda>ms.
                  let base = (case op_parent p of Some b \<Rightarrow> b
                              | None \<Rightarrow> \<lparr>op_absolute = False, op_components = []\<rparr>)
                  in \<lparr>cfg_mountpoint = resolve_path base (rc_mountpoint raw),
                      cfg_store_root = resolve_path base (rc_store_root raw),
                      cfg_steam = rc_steam raw, cfg_manifests = ms\<rparr>)
                  (parse_depots (rc_depots raw)), fs1)))"

section \<open>The command line\<close>

text \<open>The subcommands, which log filter each starts with, and where a trace goes.\<close>

datatype cmd =
    MountCmd "os_path option"
  | PrefetchCmd "os_path option" "nat option" "u64 option"    \<comment> \<open>timings, parallelism, seconds\<close>
  | StatsCmd bool
  | PruneCmd bool

fun default_filter :: "cmd \<Rightarrow> string" where
  "default_filter (MountCmd _) = ''info,steam_depot_vfs=debug,fuser=error''"
| "default_filter (PrefetchCmd _ _ _) = ''info,steam_depot_vfs::chunk_store=warn,fuser=error''"
| "default_filter (StatsCmd _) = ''warn,steam_depot::stats=info''"
| "default_filter (PruneCmd _) = ''warn''"

fun timings_path :: "cmd \<Rightarrow> os_path option" where
  "timings_path (MountCmd timings) = timings"
| "timings_path (PrefetchCmd timings _ _) = timings"
| "timings_path (StatsCmd _) = None"
| "timings_path (PruneCmd _) = None"

section \<open>Registering\<close>

text \<open>
  The loop of \<open>mount\<close>: a manifest that is cached gives its release date, one that is not, or
  cannot be read, gives none; the opener keeps the configuration entry.  The cell of the slot is
  its place in the loop.  \<open>None\<close> is a panic.
\<close>

fun register_manifests ::
  "postcard \<Rightarrow> depot_root \<Rightarrow> nat \<Rightarrow> cfg_manifest list \<Rightarrow> ('s, cfg_manifest) mount_tree \<Rightarrow> fsys \<Rightarrow>
     ((add_error, unit) outcome \<times> ('s, cfg_manifest) mount_tree \<times> fsys) option" where
  "register_manifests pc dr k [] t fs = Some (Ok (), t, fs)"
| "register_manifests pc dr k (m # ms) t fs =
     (case load_cached_manifest pc dr (cf_app_id m) (cf_depot_id m) (cf_gid m) fs of
        (r, fs1) \<Rightarrow>
          (let creation_time = (case r of Ok (Some man) \<Rightarrow> Some (m_creation_time man) | _ \<Rightarrow> None)
           in case add_lazy (cf_app_id m) (cf_depot_id m) (cf_gid m) m k creation_time t of
                None \<Rightarrow> None
              | Some (Err e, t1) \<Rightarrow> Some (Err e, t1, fs1)
              | Some (Panic, t1) \<Rightarrow> Some (Panic, t1, fs1)
              | Some (Ok _, t1) \<Rightarrow> register_manifests pc dr (Suc k) ms t1 fs1))"

section \<open>Properties\<close>

text \<open>
  A configuration entry means what it says: \<open>gid\<close> alone is the public branch, \<open>gid:branch\<close>
  is that branch, whatever the branch's name holds, and an entry is an error just when what
  stands before the first colon is no 64-bit number.
\<close>

theorem parse_manifest_entry_exact:
  "parse_manifest_entry a d (to_dec g) = Ok \<lparr>cf_app_id = a, cf_depot_id = d, cf_gid = g, cf_branch = ''public''\<rparr> \<and>
   parse_manifest_entry a d (to_dec g @ '':'' @ b) = Ok \<lparr>cf_app_id = a, cf_depot_id = d, cf_gid = g, cf_branch = b\<rparr> \<and>
   ((\<exists>e. parse_manifest_entry a d raw = Err e) \<longleftrightarrow> parse_u64 (takeWhile (\<lambda>c. c \<noteq> CHR '':'') raw) = None)"
proof -
  have n: "CHR '':'' \<notin> set (to_dec g)"
    unfolding to_dec_def using digit_chars [of "CHR '':''"] by auto
  have p: "parse_manifest_entry a d raw =
      (case parse_u64 (takeWhile (\<lambda>c. c \<noteq> CHR '':'') raw) of
         None \<Rightarrow> Err (InvalidGid (takeWhile (\<lambda>c. c \<noteq> CHR '':'') raw))
       | Some gid \<Rightarrow> Ok \<lparr>cf_app_id = a, cf_depot_id = d, cf_gid = gid,
           cf_branch = (if CHR '':'' \<in> set raw then tl (dropWhile (\<lambda>c. c \<noteq> CHR '':'') raw) else ''public'')\<rparr>)" for raw
  proof (cases "CHR '':'' \<in> set raw")
    case True
    then obtain x y where s: "raw = x @ CHR '':'' # y" "CHR '':'' \<notin> set x" by (meson split_list_first)
    then have "takeWhile (\<lambda>c. c \<noteq> CHR '':'') raw = x" "dropWhile (\<lambda>c. c \<noteq> CHR '':'') raw = CHR '':'' # y"
      by (auto simp: takeWhile_eq_all_conv dropWhile_eq_self_iff takeWhile_append dropWhile_append)
    then show ?thesis using split_once_append [OF s(2)] s True
      by (simp add: parse_manifest_entry_def split: option.split)
  next
    case False
    then have tw: "takeWhile (\<lambda>c. c \<noteq> CHR '':'') raw = raw" by (simp add: takeWhile_eq_all_conv) (metis False)
    show ?thesis unfolding tw using split_once_None_iff [THEN iffD2, OF False] False
      by (simp add: parse_manifest_entry_def DEFAULT_BRANCH_def split: option.split)
  qed
  have e: "\<And>c. c \<in> set (to_dec g) \<Longrightarrow> c \<noteq> CHR '':''" using n by metis
  have "takeWhile (\<lambda>c. c \<noteq> CHR '':'') (to_dec g) = to_dec g" using e by (simp add: takeWhile_eq_all_conv)
  from p [of "to_dec g", unfolded this] have "parse_manifest_entry a d (to_dec g) =
      Ok \<lparr>cf_app_id = a, cf_depot_id = d, cf_gid = g, cf_branch = ''public''\<rparr>"
    by (simp add: parse_u64_to_dec n)
  moreover have "takeWhile (\<lambda>c. c \<noteq> CHR '':'') (to_dec g @ '':'' @ b) = to_dec g"
    "dropWhile (\<lambda>c. c \<noteq> CHR '':'') (to_dec g @ '':'' @ b) = CHR '':'' # b"
    using e by (simp_all add: takeWhile_append2 dropWhile_append2)
  then have "parse_manifest_entry a d (to_dec g @ '':'' @ b) =
      Ok \<lparr>cf_app_id = a, cf_depot_id = d, cf_gid = g, cf_branch = b\<rparr>"
    unfolding p by (simp add: parse_u64_to_dec)
  moreover have "(\<exists>e. parse_manifest_entry a d raw = Err e) \<longleftrightarrow>
      parse_u64 (takeWhile (\<lambda>c. c \<noteq> CHR '':'') raw) = None"
    unfolding p by (simp split: option.split)
  ultimately show ?thesis by blast
qed

definition cfg_key :: "cfg_manifest \<Rightarrow> u32 \<times> u32 \<times> u64" where
  "cfg_key m = (cf_app_id m, cf_depot_id m, cf_gid m)"

definition slot_for :: "nat \<Rightarrow> cfg_manifest \<Rightarrow> ('s, cfg_manifest) slot option \<Rightarrow> bool" where
  "slot_for k m s \<longleftrightarrow> (\<exists>hint. s = Some \<lparr>sl_app_id = cf_app_id m, sl_depot_id = cf_depot_id m,
     sl_manifest_gid = cf_gid m, sl_state = Pending \<lparr>le_opener = m, le_cell = k\<rparr>, sl_creation_time = hint\<rparr>)"

lemma register_spec:
  assumes "tree_wf rs t" and "length rs + 2 * length ms \<le> 2 ^ 48"
    and "length (mt_slots t) + length ms \<le> 2 ^ 16"
  shows "\<exists>r t' fs'. register_manifests pc dr k ms t fs = Some (r, t', fs') \<and>
    (r = Ok () \<longleftrightarrow> distinct (map cfg_key ms) \<and> (\<forall>m \<in> set ms. mounted t (cf_app_id m) (cf_depot_id m) (cf_gid m) = {})) \<and>
    (r = Ok () \<longrightarrow> (\<exists>new. mt_slots t' = mt_slots t @ new \<and> length new = length ms \<and>
       (\<forall>i < length ms. slot_for (k + i) (ms ! i) (new ! i)))) \<and>
    (\<forall>e. r = Err e \<longrightarrow> (\<exists>m \<in> set ms. e = AlreadyMounted (cf_app_id m) (cf_depot_id m) (cf_gid m))) \<and> r \<noteq> Panic"
  using assms
proof (induction ms arbitrary: rs t k fs)
  case (Cons m ms)
  let ?a = "cf_app_id m" and ?d = "cf_depot_id m" and ?g = "cf_gid m"
  obtain l fs1 where l: "load_cached_manifest pc dr ?a ?d ?g fs = (l, fs1)" by fastforce
  define hint where "hint = (case l of Ok (Some man) \<Rightarrow> Some (m_creation_time man) | _ \<Rightarrow> None)"
  let ?st = "Pending \<lparr>le_opener = m, le_cell = k\<rparr>"
  have "length rs + 2 \<le> 2 ^ 48" using Cons.prems(2) by simp
  from reserve_slot_spec [OF Cons.prems(1) this, of ?a ?d ?g ?st hint] obtain rs' t1 r1 where
    r1: "reserve_slot ?a ?d ?g ?st hint t = Some (r1, t1)" "tree_wf rs' t1" "length rs' \<le> length rs + 2"
    and c: "if mounted t ?a ?d ?g \<noteq> {} then r1 = Err (AlreadyMounted ?a ?d ?g) \<and> mt_slots t1 = mt_slots t
     else if length (mt_slots t) = 2 ^ 16 then r1 = Err TooManySnapshots \<and> mt_slots t1 = mt_slots t
     else r1 = Ok (SnapshotId (word_of_nat (length (mt_slots t)))) \<and>
       mt_slots t1 = mt_slots t @ [Some (new_slot ?a ?d ?g ?st hint)]" by blast
  have reg: "register_manifests pc dr k (m # ms) t fs =
      (case r1 of Err e \<Rightarrow> Some (Err e, t1, fs1) | Panic \<Rightarrow> Some (Panic, t1, fs1)
       | Ok _ \<Rightarrow> register_manifests pc dr (Suc k) ms t1 fs1)"
    using l r1(1) by (simp add: add_lazy_def hint_def [symmetric] Let_def split: outcome.split)
  show ?case
  proof (cases "mounted t ?a ?d ?g = {}")
    case False
    then show ?thesis using reg c by auto
  next
    case True
    have "length (mt_slots t) \<noteq> 2 ^ 16" using Cons.prems(3) by simp
    with True c have ok: "r1 = Ok (SnapshotId (word_of_nat (length (mt_slots t))))"
      and sl: "mt_slots t1 = mt_slots t @ [Some (new_slot ?a ?d ?g ?st hint)]" by auto
    have "length rs' + 2 * length ms \<le> 2 ^ 48" "length (mt_slots t1) + length ms \<le> 2 ^ 16"
      using Cons.prems(2,3) r1(3) sl by simp_all
    from Cons.IH [OF r1(2) this, of "Suc k" fs1] obtain r t' fs' where
      ih: "register_manifests pc dr (Suc k) ms t1 fs1 = Some (r, t', fs')"
      "r = Ok () \<longleftrightarrow> distinct (map cfg_key ms) \<and> (\<forall>m \<in> set ms. mounted t1 (cf_app_id m) (cf_depot_id m) (cf_gid m) = {})"
      "r = Ok () \<longrightarrow> (\<exists>new. mt_slots t' = mt_slots t1 @ new \<and> length new = length ms \<and>
         (\<forall>i < length ms. slot_for (Suc k + i) (ms ! i) (new ! i)))"
      "\<forall>e. r = Err e \<longrightarrow> (\<exists>m \<in> set ms. e = AlreadyMounted (cf_app_id m) (cf_depot_id m) (cf_gid m))" "r \<noteq> Panic"
      by blast
    have mo: "mounted t1 b e h = {} \<longleftrightarrow> mounted t b e h = {} \<and> (b, e, h) \<noteq> (?a, ?d, ?g)" for b e h
      unfolding mounted_def sl
      by (auto simp: nth_append new_slot_def less_Suc_eq)
    have eq: "r = Ok () \<longleftrightarrow> distinct (map cfg_key (m # ms)) \<and>
        (\<forall>m \<in> set (m # ms). mounted t (cf_app_id m) (cf_depot_id m) (cf_gid m) = {})"
    proof -
      have k: "cfg_key m \<notin> cfg_key ` set ms \<longleftrightarrow>
          (\<forall>x \<in> set ms. (cf_app_id x, cf_depot_id x, cf_gid x) \<noteq> (?a, ?d, ?g))"
        by (auto simp: cfg_key_def image_iff eq_commute)
      show ?thesis unfolding ih(2) mo distinct.simps list.map set_map list.set k using True
        by (auto simp del: prod.inject)
    qed
    have new: "\<exists>new. mt_slots t' = mt_slots t @ new \<and> length new = length (m # ms) \<and>
         (\<forall>i < length (m # ms). slot_for (k + i) ((m # ms) ! i) (new ! i))" if "r = Ok ()"
    proof -
      from ih(3) that obtain new where n: "mt_slots t' = mt_slots t1 @ new" "length new = length ms"
        "\<forall>i < length ms. slot_for (Suc k + i) (ms ! i) (new ! i)" by blast
      have "slot_for (k + i) ((m # ms) ! i) ((Some (new_slot ?a ?d ?g ?st hint) # new) ! i)"
        if "i < length (m # ms)" for i
        using n(3) that by (cases i) (auto simp: slot_for_def new_slot_def)
      then show ?thesis using n(1,2) sl by (intro exI [of _ "Some (new_slot ?a ?d ?g ?st hint) # new"]) simp
    qed
    show ?thesis using reg ok ih(1,4,5) eq new by auto
  qed
qed simp

text \<open>
  Starting the mount registers the configuration: when no manifest is listed twice, every
  one gets the next slot, unopened, with an opener for its own entry; a manifest listed twice
  makes the start fail with that manifest's name.
\<close>

theorem mount_registers_config:
  assumes "length ms < 2 ^ 16"
  shows "\<exists>r t fs'. register_manifests pc dr 0 ms mount_tree_new fs = Some (r, t, fs') \<and>
    (r = Ok () \<longleftrightarrow> distinct (map cfg_key ms)) \<and>
    (r = Ok () \<longrightarrow> length (mt_slots t) = Suc (length ms) \<and>
       (\<forall>i < length ms. slot_for i (ms ! i) (mt_slots t ! Suc i))) \<and>
    (\<forall>e. r = Err e \<longrightarrow> (\<exists>m \<in> set ms. e = AlreadyMounted (cf_app_id m) (cf_depot_id m) (cf_gid m))) \<and> r \<noteq> Panic"
proof -
  have s: "mt_slots (mount_tree_new :: ('a, cfg_manifest) mount_tree) = [None]" by (simp add: mount_tree_new_def)
  then have none: "mounted (mount_tree_new :: ('a, cfg_manifest) mount_tree) b e h = {}" for b e h
    by (auto simp: mounted_def)
  have "length [Unused, RootDir] + 2 * length ms \<le> 2 ^ 48"
    "length (mt_slots (mount_tree_new :: ('a, cfg_manifest) mount_tree)) + length ms \<le> 2 ^ 16"
    using assms s by simp_all
  from register_spec [OF tree_wf_new this, of pc dr 0 fs] none s show ?thesis by fastforce
qed

theorem mount_registers_config_witness:
  "\<exists>t fs'. register_manifests demo_postcard (depot_root_new [''r''] 7) 0
     [\<lparr>cf_app_id = 1, cf_depot_id = 2, cf_gid = 3, cf_branch = ''public''\<rparr>]
     (mount_tree_new :: (unit, cfg_manifest) mount_tree) \<lparr>fs_files = Map.empty, fs_faults = []\<rparr> = Some (Ok (), t, fs') \<and>
   length (mt_slots t) = 2"
proof -
  let ?ms = "[\<lparr>cf_app_id = 1, cf_depot_id = 2, cf_gid = 3, cf_branch = ''public''\<rparr>]"
  have "length ?ms < 2 ^ 16" by simp
  from mount_registers_config [OF this, of demo_postcard "depot_root_new [''r''] 7" "\<lparr>fs_files = Map.empty, fs_faults = []\<rparr>"]
  show ?thesis by auto
qed

end
