(* ===== verification/Prefetch.thy ===== *)
theory Prefetch
  imports Chunk_Audit Cli_Config
begin

text \<open>
  \<open>prefetch.rs\<close>: fill the chunk cache ahead of time.  For each manifest the chunks that are not
  on disk are fetched through the disk cache by a bounded number of tasks; a task that ends makes
  room for the next chunk.  After all manifests the whole cache is verified, what the verification
  rejects is deleted, and the pass is repeated, three times at most.

  A task's \<open>ensure\<close> takes effect when it ends, and any task in flight may end next; how calls of
  \<open>ensure\<close> race inside the cache is the subject of \<open>Single_Flight\<close>.  Printing and the progress
  bar's rates are left out.
\<close>

section \<open>What to fetch\<close>

definition DEFAULT_PARALLELISM :: nat where
  "DEFAULT_PARALLELISM = 32"

definition MAX_REFETCH_ATTEMPTS :: nat where
  "MAX_REFETCH_ATTEMPTS = 3"

definition effective_parallelism :: "nat option \<Rightarrow> nat" where
  "effective_parallelism parallelism =
     max (case parallelism of Some n \<Rightarrow> n | None \<Rightarrow> DEFAULT_PARALLELISM) 1"

record fetch_plan =
  fp_unique :: "(chunk_hash \<times> u64) list"
  fp_skipped :: "chunk_hash list"
  fp_skipped_bytes :: u64

definition plan_chunk :: "chunk_hash list \<Rightarrow> chunk \<Rightarrow> fetch_plan \<Rightarrow> fetch_plan" where
  "plan_chunk cached c pl =
     (if c_sha c \<in> set cached then
        if c_sha c \<in> set (fp_skipped pl) then pl
        else pl\<lparr>fp_skipped := fp_skipped pl @ [c_sha c],
                fp_skipped_bytes := fp_skipped_bytes pl + ucast (c_size_compressed c)\<rparr>
      else pl\<lparr>fp_unique := or_insert (c_sha c) (ucast (c_size_compressed c)) (fp_unique pl)\<rparr>)"

definition plan_manifest :: "depot_api \<Rightarrow> chunk_hash list \<Rightarrow> manifest \<Rightarrow> fetch_plan" where
  "plan_manifest api cached m =
     fold (\<lambda>f pl. fold (plan_chunk cached) (api_chunks api f) pl) (m_files m)
       \<lparr>fp_unique = [], fp_skipped = [], fp_skipped_bytes = 0\<rparr>"

definition new_bytes :: "fetch_plan \<Rightarrow> u64" where
  "new_bytes pl = sum_list (map snd (fp_unique pl))"

text \<open>The map has no order of its own; its entries are sorted by the bytes of the hash.\<close>

definition fetch_work :: "fetch_plan \<Rightarrow> (chunk_hash \<times> u64) list" where
  "fetch_work pl = sort_key (\<lambda>e. hash_bytes (fst e)) (fp_unique pl)"

section \<open>The pipeline\<close>

record 'i pipe =
  pi_todo :: "(chunk_hash \<times> u64) list"
  pi_in_flight :: "(chunk_hash \<times> u64) list"
  pi_chunks_done :: u64
  pi_bytes_done :: u64
  pi_interrupted :: bool
  pi_bar_finished :: bool
  pi_chunks :: 'i

datatype pipe_event = Interrupted | Joined chunk_hash u64 "(vfs_error, unit) outcome"

definition pipe_prime :: "nat \<Rightarrow> (chunk_hash \<times> u64) list \<Rightarrow> 'i \<Rightarrow> 'i pipe" where
  "pipe_prime parallelism work i =
     \<lparr>pi_todo = drop parallelism work, pi_in_flight = take parallelism work,
      pi_chunks_done = 0, pi_bytes_done = 0, pi_interrupted = False, pi_bar_finished = False,
      pi_chunks = i\<rparr>"

definition pipe_refill :: "'i pipe \<Rightarrow> 'i pipe" where
  "pipe_refill p =
     (if pi_interrupted p then p
      else
        (case pi_todo p of
           next # rest \<Rightarrow> p\<lparr>pi_todo := rest, pi_in_flight := pi_in_flight p @ [next]\<rparr>
         | [] \<Rightarrow> p\<lparr>pi_bar_finished := True\<rparr>))"

text \<open>
  The two arms of the loop: the shutdown future fires, once; the task at place \<open>k\<close> ends.  A task
  that panicked is joined without starting another.
\<close>

definition pipe_interrupt :: "'i pipe \<Rightarrow> 'i pipe" where
  "pipe_interrupt p = p\<lparr>pi_interrupted := True\<rparr>"

definition pipe_join :: "'i chunk_store \<Rightarrow> nat \<Rightarrow> 'i pipe \<Rightarrow> pipe_event \<times> 'i pipe" where
  "pipe_join store k p =
     (case pi_in_flight p ! k of (sha, len) \<Rightarrow>
        (case cs_ensure store sha (pi_chunks p) of (r, i1) \<Rightarrow>
           (let p1 = p\<lparr>pi_in_flight := take k (pi_in_flight p) @ drop (Suc k) (pi_in_flight p),
                       pi_chunks := i1\<rparr>
            in (Joined sha len r,
                case r of
                  Panic \<Rightarrow> p1
                | Err e \<Rightarrow> pipe_refill p1
                | Ok _ \<Rightarrow>
                    pipe_refill
                      (p1\<lparr>pi_chunks_done := pi_chunks_done p1 + 1,
                          pi_bytes_done := pi_bytes_done p1 + len\<rparr>)))))"

inductive pipe_step :: "'i chunk_store \<Rightarrow> 'i pipe \<Rightarrow> pipe_event \<Rightarrow> 'i pipe \<Rightarrow> bool" for store where
  stop: "\<not> pi_interrupted p \<Longrightarrow> pipe_step store p Interrupted (pipe_interrupt p)"
| join: "k < length (pi_in_flight p) \<Longrightarrow> pipe_join store k p = (ev, p') \<Longrightarrow> pipe_step store p ev p'"

inductive pipe_run :: "'i chunk_store \<Rightarrow> 'i pipe \<Rightarrow> pipe_event list \<Rightarrow> 'i pipe \<Rightarrow> bool" for store where
  idle: "pipe_run store p [] p"
| turn: "pipe_step store p ev p1 \<Longrightarrow> pipe_run store p1 evs q \<Longrightarrow> pipe_run store p (ev # evs) q"

text \<open>
  The loop, with \<open>pick\<close> for what happens next at each turn: the signal or deadline, or the end of
  a task.  It ends when nothing is in flight.
\<close>

datatype pipe_choice = Fire | EndTask nat

function drain :: "'i chunk_store \<Rightarrow> ('i pipe \<Rightarrow> pipe_choice) \<Rightarrow> 'i pipe \<Rightarrow> pipe_event list \<times> 'i pipe" where
  "drain store pick p =
     (if pi_in_flight p = [] then ([], p)
      else if pick p = Fire \<and> \<not> pi_interrupted p then
        (case drain store pick (pipe_interrupt p) of (evs, q) \<Rightarrow> (Interrupted # evs, q))
      else
        (let k = (case pick p of Fire \<Rightarrow> 0 | EndTask k \<Rightarrow> k mod length (pi_in_flight p)) in
         case pipe_join store k p of (ev, p1) \<Rightarrow>
           (case drain store pick p1 of (evs, q) \<Rightarrow> (ev # evs, q))))"
  by pat_completeness auto

lemma pipe_refill_total:
  "length (pi_todo (pipe_refill p)) + length (pi_in_flight (pipe_refill p)) =
     length (pi_todo p) + length (pi_in_flight p)"
  "pi_interrupted (pipe_refill p) = pi_interrupted p"
  by (simp_all add: pipe_refill_def split: list.split)

lemma pipe_join_shrinks:
  assumes "pipe_join store k p = (ev, p')" and "k < length (pi_in_flight p)"
  shows "Suc (length (pi_todo p') + length (pi_in_flight p')) = length (pi_todo p) + length (pi_in_flight p)"
    and "pi_interrupted p' = pi_interrupted p"
  using assms
  by (auto simp: pipe_join_def Let_def pipe_refill_total split: prod.splits outcome.splits)

definition pipe_rank :: "'i pipe \<Rightarrow> nat" where
  "pipe_rank p = length (pi_todo p) + length (pi_in_flight p) + (if pi_interrupted p then 0 else 1)"

lemma pick_in_range:
  "pi_in_flight p \<noteq> [] \<Longrightarrow>
     (case c of Fire \<Rightarrow> 0 | EndTask k \<Rightarrow> k mod length (pi_in_flight p)) < length (pi_in_flight p)"
  by (simp split: pipe_choice.split)

lemma pipe_step_rank: "pipe_step store p ev p' \<Longrightarrow> pipe_rank p' < pipe_rank p"
  by (induction rule: pipe_step.induct)
     (auto simp: pipe_interrupt_def pipe_rank_def dest: pipe_join_shrinks)

lemma pipe_join_rank:
  assumes "pi_in_flight p \<noteq> []"
    and "(ev, p1) = pipe_join store (case c of Fire \<Rightarrow> 0 | EndTask k \<Rightarrow> k mod length (pi_in_flight p)) p"
  shows "pipe_rank p1 < pipe_rank p"
  using pipe_step_rank [OF pipe_step.join [OF pick_in_range [OF assms(1)] assms(2) [symmetric]]] .

lemma pipe_interrupt_rank: "\<not> pi_interrupted p \<Longrightarrow> pipe_rank (pipe_interrupt p) < pipe_rank p"
  by (rule pipe_step_rank, rule pipe_step.stop)

termination drain
  by (relation "measure (\<lambda>(store, pick, p). pipe_rank p)")
     (auto intro: pipe_join_rank pipe_interrupt_rank)

declare drain.simps [simp del]

datatype prefetch_error =
    PrefetchInterrupted | StillBad | PrefetchIo io_error | PrefetchVfs vfs_error

definition prefetch_snapshot ::
  "depot_api \<Rightarrow> chunk_hash list \<Rightarrow> nat \<Rightarrow> u64 option \<Rightarrow> ('s pipe \<Rightarrow> pipe_choice) \<Rightarrow>
     's depot_store \<Rightarrow> 's \<Rightarrow> (prefetch_error, unit) outcome \<times> pipe_event list \<times> 's" where
  "prefetch_snapshot api cached parallelism max_duration pick snapshot i =
     (let work = fetch_work (plan_manifest api cached (ds_manifest snapshot)) in
      if work = [] then (Ok (), [], i)
      else
        (case drain (ds_chunks snapshot) pick (pipe_prime parallelism work i) of (evs, p) \<Rightarrow>
           (if pi_interrupted p \<and> max_duration = None then Err PrefetchInterrupted else Ok (),
            evs, pi_chunks p)))"

section \<open>What a run of the pipeline does\<close>

lemma drain_run:
  "drain store pick p = (evs, q) \<Longrightarrow> pipe_run store p evs q \<and> pi_in_flight q = []"
proof (induction store pick p arbitrary: evs q rule: drain.induct)
  case (1 store pick p)
  let ?k = "case pick p of Fire \<Rightarrow> 0 | EndTask k \<Rightarrow> k mod length (pi_in_flight p)"
  consider "pi_in_flight p = []" | "pi_in_flight p \<noteq> []" "pick p = Fire \<and> \<not> pi_interrupted p"
    | "pi_in_flight p \<noteq> []" "\<not> (pick p = Fire \<and> \<not> pi_interrupted p)" by blast
  then show ?case
  proof cases
    case 1
    then show ?thesis using "1.prems" by (simp add: drain.simps [of _ _ p] pipe_run.idle)
  next
    case 2
    obtain es r where d: "drain store pick (pipe_interrupt p) = (es, r)" by fastforce
    from "1.IH"(1) [OF 2 d] show ?thesis
      using "1.prems" 2 d by (auto simp: drain.simps [of _ _ p] intro: pipe_run.turn pipe_step.stop)
  next
    case 3
    obtain ev p1 where j: "pipe_join store ?k p = (ev, p1)" by fastforce
    obtain es r where d: "drain store pick p1 = (es, r)" by fastforce
    have "pipe_run store p1 es r \<and> pi_in_flight r = []"
      by (rule "1.IH"(2) [OF 3 refl j [symmetric] d])
    moreover have "evs = ev # es" "q = r"
      using "1.prems" 3 j d by (simp_all add: drain.simps [of _ _ p] Let_def)
    ultimately show ?thesis
      using pipe_run.turn [OF pipe_step.join [OF pick_in_range [OF 3(1)] j]] by simp
  qed
qed

fun joined :: "pipe_event list \<Rightarrow> (chunk_hash \<times> u64) list" where
  "joined [] = []"
| "joined (Interrupted # evs) = joined evs"
| "joined (Joined sha len r # evs) = (sha, len) # joined evs"

fun fetched :: "pipe_event list \<Rightarrow> (chunk_hash \<times> u64) list" where
  "fetched [] = []"
| "fetched (Joined sha len (Ok u) # evs) = (sha, len) # fetched evs"
| "fetched (ev # evs) = fetched evs"

fun panics :: "pipe_event list \<Rightarrow> nat" where
  "panics [] = 0"
| "panics (Joined sha len Panic # evs) = Suc (panics evs)"
| "panics (ev # evs) = panics evs"

lemma pipe_refill_keeps [simp]:
  "mset (pi_todo (pipe_refill p)) + mset (pi_in_flight (pipe_refill p)) = mset (pi_todo p) + mset (pi_in_flight p)"
  "pi_interrupted (pipe_refill p) = pi_interrupted p"
  "pi_chunks_done (pipe_refill p) = pi_chunks_done p"
  "pi_bytes_done (pipe_refill p) = pi_bytes_done p"
  "pi_chunks (pipe_refill p) = pi_chunks p"
  by (auto simp: pipe_refill_def split: list.split)

lemma mset_remove_nth: "k < length xs \<Longrightarrow> mset xs = add_mset (xs ! k) (mset (take k xs @ drop (Suc k) xs))"
  by (metis id_take_nth_drop mset_append mset.simps(2) union_mset_add_mset_right)

text \<open>What one joined task does to the pipeline.\<close>

lemma pipe_join_cases:
  assumes "pipe_join store k p = (ev, p')" and "k < length (pi_in_flight p)"
  obtains sha len r where "ev = Joined sha len r" and "pi_in_flight p ! k = (sha, len)"
    and "cs_ensure store sha (pi_chunks p) = (r, pi_chunks p')"
    and "mset (pi_todo p) + mset (pi_in_flight p) = add_mset (sha, len) (mset (pi_todo p') + mset (pi_in_flight p'))"
    and "pi_interrupted p' = pi_interrupted p"
    and "pi_chunks_done p' = pi_chunks_done p + (if r = Ok () then 1 else 0)"
    and "pi_bytes_done p' = pi_bytes_done p + (if r = Ok () then len else 0)"
    and "if r = Panic \<or> pi_interrupted p \<or> pi_todo p = []
         then pi_todo p' = pi_todo p \<and> Suc (length (pi_in_flight p')) = length (pi_in_flight p)
         else pi_todo p' = tl (pi_todo p) \<and> length (pi_in_flight p') = length (pi_in_flight p)"
proof -
  obtain sha len where e: "pi_in_flight p ! k = (sha, len)" by fastforce
  obtain r i1 where r: "cs_ensure store sha (pi_chunks p) = (r, i1)" by fastforce
  let ?p1 = "p\<lparr>pi_in_flight := take k (pi_in_flight p) @ drop (Suc k) (pi_in_flight p), pi_chunks := i1\<rparr>"
  have m: "mset (pi_in_flight p) = add_mset (sha, len) (mset (pi_in_flight ?p1))"
    using mset_remove_nth [OF assms(2)] e by simp
  have l: "Suc (length (pi_in_flight ?p1)) = length (pi_in_flight p)" using assms(2) by simp
  have ev: "ev = Joined sha len r" and p': "p' = (case r of Panic \<Rightarrow> ?p1 | Err e \<Rightarrow> pipe_refill ?p1
      | Ok _ \<Rightarrow> pipe_refill (?p1\<lparr>pi_chunks_done := pi_chunks_done ?p1 + 1, pi_bytes_done := pi_bytes_done ?p1 + len\<rparr>))"
    using assms(1) e r by (auto simp: pipe_join_def Let_def)
  show ?thesis
  proof (rule that [of sha len r, OF ev e])
    show "cs_ensure store sha (pi_chunks p) = (r, pi_chunks p')" using r p' by (cases r) simp_all
    show "mset (pi_todo p) + mset (pi_in_flight p) = add_mset (sha, len) (mset (pi_todo p') + mset (pi_in_flight p'))"
      using m p' by (cases r) simp_all
    show "pi_interrupted p' = pi_interrupted p" using p' by (cases r) simp_all
    show "pi_chunks_done p' = pi_chunks_done p + (if r = Ok () then 1 else 0)" using p' by (cases r) simp_all
    show "pi_bytes_done p' = pi_bytes_done p + (if r = Ok () then len else 0)" using p' by (cases r) simp_all
    show "if r = Panic \<or> pi_interrupted p \<or> pi_todo p = []
         then pi_todo p' = pi_todo p \<and> Suc (length (pi_in_flight p')) = length (pi_in_flight p)
         else pi_todo p' = tl (pi_todo p) \<and> length (pi_in_flight p') = length (pi_in_flight p)"
      using l p' by (cases r; cases "pi_todo p") (auto simp: pipe_refill_def)
  qed
qed


lemma pipe_step_spec:
  assumes "pipe_step store p ev p'"
  shows "mset (joined [ev]) + (mset (pi_todo p') + mset (pi_in_flight p')) = mset (pi_todo p) + mset (pi_in_flight p)"
    and "pi_interrupted p' \<longleftrightarrow> pi_interrupted p \<or> ev = Interrupted"
    and "pi_chunks_done p' = pi_chunks_done p + word_of_nat (length (fetched [ev]))"
    and "pi_bytes_done p' = pi_bytes_done p + sum_list (map snd (fetched [ev]))"
    and "length (pi_in_flight p') \<le> length (pi_in_flight p)"
    and "\<exists>n. pi_todo p' = drop n (pi_todo p)"
    and "\<not> pi_interrupted p' \<Longrightarrow> pi_todo p' = [] \<or> panics [ev] + length (pi_in_flight p') = length (pi_in_flight p)"
  using assms
proof (induction rule: pipe_step.induct)
  case (stop p)
  { case 1 show ?case by (simp add: pipe_interrupt_def) }
  { case 2 show ?case by (simp add: pipe_interrupt_def) }
  { case 3 show ?case by (simp add: pipe_interrupt_def) }
  { case 4 show ?case by (simp add: pipe_interrupt_def) }
  { case 5 show ?case by (simp add: pipe_interrupt_def) }
  { case 6 show ?case by (simp add: pipe_interrupt_def) (metis drop0) }
  { case 7 then show ?case by (simp add: pipe_interrupt_def) }
next
  case (join k p ev p')
  from pipe_join_cases [OF join.hyps(2,1)] obtain sha len r where
    c: "ev = Joined sha len r"
      "mset (pi_todo p) + mset (pi_in_flight p) = add_mset (sha, len) (mset (pi_todo p') + mset (pi_in_flight p'))"
      "pi_interrupted p' = pi_interrupted p"
      "pi_chunks_done p' = pi_chunks_done p + (if r = Ok () then 1 else 0)"
      "pi_bytes_done p' = pi_bytes_done p + (if r = Ok () then len else 0)"
    and t: "if r = Panic \<or> pi_interrupted p \<or> pi_todo p = []
         then pi_todo p' = pi_todo p \<and> Suc (length (pi_in_flight p')) = length (pi_in_flight p)
         else pi_todo p' = tl (pi_todo p) \<and> length (pi_in_flight p') = length (pi_in_flight p)" by metis
  { case 1 show ?case using c by simp }
  { case 2 show ?case using c by simp }
  { case 3 show ?case using c by (cases r) simp_all }
  { case 4 show ?case using c by (cases r) simp_all }
  { case 5 show ?case using t by (auto split: if_splits) }
  { case 6 show ?case using t by (metis drop0 drop_Suc) }
  { case 7 then show ?case using t c by (cases r) (auto split: if_splits) }
qed

lemma joined_Cons: "joined (ev # evs) = joined [ev] @ joined evs"
  and fetched_Cons: "fetched (ev # evs) = fetched [ev] @ fetched evs"
  and panics_Cons: "panics (ev # evs) = panics [ev] + panics evs"
proof -
  show "joined (ev # evs) = joined [ev] @ joined evs" by (cases ev) simp_all
  show "fetched (ev # evs) = fetched [ev] @ fetched evs"
  proof (cases ev)
    case (Joined a b r) then show ?thesis by (cases r) simp_all
  qed simp
  show "panics (ev # evs) = panics [ev] + panics evs"
  proof (cases ev)
    case (Joined a b r) then show ?thesis by (cases r) simp_all
  qed simp
qed

lemma pipe_run_spec:
  assumes "pipe_run store p evs q"
  shows "mset (joined evs) + (mset (pi_todo q) + mset (pi_in_flight q)) = mset (pi_todo p) + mset (pi_in_flight p)"
    and "pi_interrupted q \<longleftrightarrow> pi_interrupted p \<or> Interrupted \<in> set evs"
    and "pi_chunks_done q = pi_chunks_done p + word_of_nat (length (fetched evs))"
    and "pi_bytes_done q = pi_bytes_done p + sum_list (map snd (fetched evs))"
    and "length (pi_in_flight q) \<le> length (pi_in_flight p)"
    and "\<exists>n. pi_todo q = drop n (pi_todo p)"
    and "pipe_rank q + length evs \<le> pipe_rank p"
  using assms
proof (induction rule: pipe_run.induct)
  case (idle p)
  { case 1 show ?case by simp }
  { case 2 show ?case by simp }
  { case 3 show ?case by simp }
  { case 4 show ?case by simp }
  { case 5 show ?case by simp }
  { case 6 show ?case by (metis drop0) }
  { case 7 show ?case by simp }
next
  case (turn p ev p1 evs q)
  note s = pipe_step_spec [OF turn.hyps(1)]
  { case 1 show ?case unfolding joined_Cons [of ev evs] mset_append add.assoc turn.IH(1) by (rule s(1)) }
  { case 2 show ?case using s(2) turn.IH(2) by auto }
  { case 3 show ?case using s(3) turn.IH(3) by (simp add: fetched_Cons [of ev evs] add.assoc) }
  { case 4 show ?case using s(4) turn.IH(4) by (simp add: fetched_Cons [of ev evs] add.assoc) }
  { case 5 show ?case using s(5) turn.IH(5) by simp }
  { case 6 show ?case using s(6) turn.IH(6) by (metis drop_drop) }
  { case 7 show ?case using pipe_step_rank [OF turn.hyps(1)] turn.IH(7) by simp }
qed

text \<open>Until it is interrupted, the pipeline stays full, but for one place per panic.\<close>

lemma pipe_run_full:
  "pipe_run store p evs q \<Longrightarrow> \<not> pi_interrupted q \<Longrightarrow>
     pi_todo q = [] \<or> panics evs + length (pi_in_flight q) = length (pi_in_flight p)"
proof (induction rule: pipe_run.induct)
  case (turn p ev p1 evs q)
  have "\<not> pi_interrupted p1" using pipe_run_spec(2) [OF turn.hyps(2)] turn.prems by blast
  from pipe_step_spec(7) [OF turn.hyps(1) this] turn.IH [OF turn.prems] pipe_run_spec(6) [OF turn.hyps(2)]
  show ?case by (auto simp: panics_Cons [of ev evs])
qed simp

section \<open>The plan\<close>

lemma firsts_filter:
  "\<forall>h. P h \<longrightarrow> (h \<in> set seen \<longleftrightarrow> h \<in> set seen') \<Longrightarrow>
     firsts seen (filter (\<lambda>c. P (c_sha c)) cs) = filter (\<lambda>c. P (c_sha c)) (firsts seen' cs)"
proof (induction cs arbitrary: seen seen')
  case (Cons c cs)
  show ?case
  proof (cases "P (c_sha c)")
    case True
    then show ?thesis
      using Cons.IH [of seen seen'] Cons.IH [of "seen @ [c_sha c]" "seen' @ [c_sha c]"] Cons.prems by auto
  next
    case False
    then show ?thesis
      using Cons.IH [of seen seen'] Cons.IH [of seen "seen' @ [c_sha c]"] Cons.prems by auto
  qed
qed simp

lemma or_insert_iff: "or_insert k v m = (if k \<in> set (map fst m) then m else m @ [(k, v)])"
proof (cases "map_of m k")
  case None
  then show ?thesis unfolding map_of_eq_None_iff by (simp add: or_insert_def None)
next
  case (Some x)
  then have "k \<in> set (map fst m)" by (metis map_of_eq_None_iff option.distinct(1) set_map)
  then show ?thesis by (simp add: or_insert_def Some)
qed

lemma plan_fold:
  "fp_unique (fold (plan_chunk cached) cs pl) = fp_unique pl @
     map (\<lambda>c. (c_sha c, usize_compr c)) (firsts (map fst (fp_unique pl)) (filter (\<lambda>c. c_sha c \<notin> set cached) cs))"
  "fp_skipped (fold (plan_chunk cached) cs pl) = fp_skipped pl @
     map c_sha (firsts (fp_skipped pl) (filter (\<lambda>c. c_sha c \<in> set cached) cs))"
  "fp_skipped_bytes (fold (plan_chunk cached) cs pl) = fp_skipped_bytes pl +
     sum_list (map usize_compr (firsts (fp_skipped pl) (filter (\<lambda>c. c_sha c \<in> set cached) cs)))"
  by (induction cs arbitrary: pl)
     (auto simp: plan_chunk_def or_insert_iff add.assoc)

lemma plan_manifest_firsts:
  assumes "cs = concat (map (api_chunks api) (m_files m))"
  shows "fp_unique (plan_manifest api cached m) =
      map (\<lambda>c. (c_sha c, usize_compr c)) (filter (\<lambda>c. c_sha c \<notin> set cached) (firsts [] cs))"
    and "fp_skipped (plan_manifest api cached m) = map c_sha (filter (\<lambda>c. c_sha c \<in> set cached) (firsts [] cs))"
    and "fp_skipped_bytes (plan_manifest api cached m) =
      sum_list (map usize_compr (filter (\<lambda>c. c_sha c \<in> set cached) (firsts [] cs)))"
proof -
  have pm: "plan_manifest api cached m =
      fold (plan_chunk cached) cs \<lparr>fp_unique = [], fp_skipped = [], fp_skipped_bytes = 0\<rparr>"
    unfolding assms plan_manifest_def by (rule fold_concat)
  show "fp_unique (plan_manifest api cached m) =
      map (\<lambda>c. (c_sha c, usize_compr c)) (filter (\<lambda>c. c_sha c \<notin> set cached) (firsts [] cs))"
    "fp_skipped (plan_manifest api cached m) = map c_sha (filter (\<lambda>c. c_sha c \<in> set cached) (firsts [] cs))"
    "fp_skipped_bytes (plan_manifest api cached m) =
      sum_list (map usize_compr (filter (\<lambda>c. c_sha c \<in> set cached) (firsts [] cs)))"
    using firsts_filter [of "\<lambda>h. h \<notin> set cached" "[]" "[]" cs] firsts_filter [of "\<lambda>h. h \<in> set cached" "[]" "[]" cs]
    by (simp_all add: pm plan_fold)
qed

lemma fetch_work_mset: "mset (fetch_work pl) = mset (fp_unique pl)"
  by (simp add: fetch_work_def)

lemma fetch_work_keys:
  assumes "cs = concat (map (api_chunks api) (m_files m))"
  shows "distinct (map fst (fetch_work (plan_manifest api cached m)))"
    and "set (map fst (fetch_work (plan_manifest api cached m))) = c_sha ` set cs - set cached"
proof -
  have f: "map fst (fp_unique (plan_manifest api cached m)) =
      map c_sha (filter (\<lambda>c. c_sha c \<notin> set cached) (firsts [] cs))"
    by (simp add: plan_manifest_firsts [OF assms] comp_def)
  have "mset (map fst (fetch_work (plan_manifest api cached m))) =
      mset (map c_sha (filter (\<lambda>c. c_sha c \<notin> set cached) (firsts [] cs)))"
    using f fetch_work_mset by (metis mset_map)
  then have m: "distinct (map fst (fetch_work (plan_manifest api cached m))) \<longleftrightarrow>
        distinct (map c_sha (filter (\<lambda>c. c_sha c \<notin> set cached) (firsts [] cs)))"
    "set (map fst (fetch_work (plan_manifest api cached m))) =
        set (map c_sha (filter (\<lambda>c. c_sha c \<notin> set cached) (firsts [] cs)))"
    by (metis mset_eq_imp_distinct_iff, metis mset_eq_setD)
  show "distinct (map fst (fetch_work (plan_manifest api cached m)))"
    unfolding m(1) using firsts_distinct [of "[]" cs] by (simp add: distinct_map_filter)
  have "c_sha ` set (filter (\<lambda>c. c_sha c \<notin> set cached) (firsts [] cs)) = c_sha ` set (firsts [] cs) - set cached"
    by auto
  then show "set (map fst (fetch_work (plan_manifest api cached m))) = c_sha ` set cs - set cached"
    unfolding m(2) by (simp add: firsts_shas)
qed

section \<open>Properties of the plan and the pipeline\<close>

lemma fetch_plan_parts:
  assumes "cs = concat (map (api_chunks api) (m_files m))" and "pl = plan_manifest api (scan_shas cache) m"
    and "st = manifest_stats api cache all m"
  shows "distinct (map fst (fetch_work pl)) \<and> set (map fst (fetch_work pl)) = c_sha ` set cs - set (scan_shas cache) \<and>
    sorted (map (\<lambda>e. hash_bytes (fst e)) (fetch_work pl)) \<and>
    distinct (fp_skipped pl) \<and> set (fp_skipped pl) = c_sha ` set cs \<inter> set (scan_shas cache) \<and>
    fp_skipped_bytes pl = st_fetched_compr st \<and> new_bytes pl + fp_skipped_bytes pl = st_compr st"
proof -
  let ?here = "\<lambda>c. c_sha c \<in> set (scan_shas cache)" and ?fs = "firsts [] cs"
  let ?st0 = "\<lparr>st_uncompr = 0, st_compr = 0, st_fetched_compr = 0, st_chunks = 0, st_fetched_chunks = 0,
        st_unique = [], st_all = all\<rparr>"
  note p = plan_manifest_firsts [OF assms(1), of "scan_shas cache", folded assms(2)]
  have st: "st = fold (count_chunk cache) cs ?st0"
    unfolding assms(1,3) manifest_stats_def by (rule fold_concat)
  note c = count_chunks_fold [of cache cs ?st0, folded st, simplified]
  have "distinct (fp_skipped pl)"
    using firsts_distinct [of "[]" cs] p(2) by (simp add: distinct_map_filter)
  moreover have "set (fp_skipped pl) = c_sha ` set cs \<inter> set (scan_shas cache)"
  proof -
    have "set (fp_skipped pl) = c_sha ` set ?fs \<inter> set (scan_shas cache)" using p(2) by auto
    then show ?thesis by (simp add: firsts_shas)
  qed
  moreover have "new_bytes pl = sum_list (map usize_compr (filter (\<lambda>c. \<not> ?here c) ?fs))"
    by (simp add: new_bytes_def p(1) comp_def)
  moreover have "sum_list (map usize_compr (filter (\<lambda>c. \<not> ?here c) xs)) + sum_list (map usize_compr (filter ?here xs)) =
      sum_list (map usize_compr xs)" for xs
    by (induction xs) (auto simp: algebra_simps)
  ultimately show ?thesis
    using fetch_work_keys [OF assms(1), of "scan_shas cache", folded assms(2)] c(3,4) p(3)
    by (simp add: fetch_work_def)
qed

text \<open>
  The plan of a prefetch covers the manifest exactly.  Every distinct chunk is either fetched,
  when it was not on disk, or skipped; it is fetched once, in the order of the hashes; and the
  bytes to fetch and the bytes skipped are what \<open>stats\<close> reports for the same manifest: the skipped
  ones are its fetched ones, and together they are its total.
\<close>

theorem fetch_plan_exact:
  "let cs = concat (map (api_chunks api) (m_files m));
       pl = plan_manifest api (scan_shas cache) m;
       st = manifest_stats api cache all m
   in distinct (map fst (fetch_work pl)) \<and> set (map fst (fetch_work pl)) = c_sha ` set cs - set (scan_shas cache) \<and>
      sorted (map (\<lambda>e. hash_bytes (fst e)) (fetch_work pl)) \<and>
      distinct (fp_skipped pl) \<and> set (fp_skipped pl) = c_sha ` set cs \<inter> set (scan_shas cache) \<and>
      fp_skipped_bytes pl = st_fetched_compr st \<and> new_bytes pl + fp_skipped_bytes pl = st_compr st"
  unfolding Let_def by (rule fetch_plan_parts [OF refl refl refl])

text \<open>
  C12: At every moment of a prefetch, whatever ends in whatever order: at most \<open>parallelism\<close> tasks
  are in flight; every chunk of the work is waiting, in flight or joined, once; chunks start in
  the order of the work; the counters count the successes; and the loop turns at most once per
  chunk and once for the signal.
\<close>

theorem pipeline_accounting:
  assumes "pipe_run store (pipe_prime parallelism work i) evs q"
  shows "length (pi_in_flight q) \<le> parallelism \<and>
    mset (joined evs @ pi_in_flight q @ pi_todo q) = mset work \<and>
    (\<exists>n. pi_todo q = drop n work) \<and>
    pi_chunks_done q = word_of_nat (length (fetched evs)) \<and>
    pi_bytes_done q = sum_list (map snd (fetched evs)) \<and>
    length evs \<le> length work + 1"
proof -
  note r = pipe_run_spec [OF assms]
  have "mset (drop parallelism work) + mset (take parallelism work) = mset work"
    by (metis append_take_drop_id mset_append union_commute)
  then have "mset (joined evs @ pi_in_flight q @ pi_todo q) = mset work"
    using r(1) by (simp add: pipe_prime_def union_commute)
  moreover have "length (drop parallelism work) + length (take parallelism work) = length work" by simp
  then have "length evs \<le> length work + 1"
    using r(7) by (simp add: pipe_rank_def pipe_prime_def del: length_drop length_take)
  moreover have "length (pi_in_flight q) \<le> parallelism" using r(5) by (simp add: pipe_prime_def)
  moreover have "\<exists>n. pi_todo q = drop n work" using r(6) by (simp add: pipe_prime_def) (metis drop_drop)
  ultimately show ?thesis using r(3,4) by (simp add: pipe_prime_def)
qed

text \<open>
  A prefetch that is not interrupted tries every chunk, as long as fewer tasks panic than may
  run at once; nothing is left waiting or in flight when it returns.
\<close>

theorem prefetch_tries_everything:
  assumes "drain store pick (pipe_prime parallelism work i) = (evs, q)" and "Interrupted \<notin> set evs"
    and "panics evs < parallelism"
  shows "mset (joined evs) = mset work \<and> pi_todo q = [] \<and> pi_in_flight q = [] \<and> \<not> pi_interrupted q"
proof -
  note d = drain_run [OF assms(1)]
  note r = pipe_run_spec [OF d [THEN conjunct1]]
  have ni: "\<not> pi_interrupted q" using r(2) assms(2) by (simp add: pipe_prime_def)
  have todo: "pi_todo q = []"
  proof (cases "length work \<le> parallelism")
    case True
    then show ?thesis using r(6) by (auto simp: pipe_prime_def)
  next
    case False
    then show ?thesis using pipe_run_full [OF d [THEN conjunct1] ni] d assms(3) by (simp add: pipe_prime_def)
  qed
  have "mset (drop parallelism work) + mset (take parallelism work) = mset work"
    by (metis append_take_drop_id mset_append union_commute)
  then show ?thesis using r(1) todo d ni by (simp add: pipe_prime_def)
qed

text \<open>
  The place of a task that panics is not filled again.  When every fetch panics, whatever the
  order, exactly the first \<open>parallelism\<close> chunks are tried, all others are never started, and the
  prefetch still reports success.
\<close>

theorem panicking_fetches_starve:
  assumes "\<forall>h i. fst (cs_ensure (ds_chunks snapshot) h i) = Panic"
    and "work = fetch_work (plan_manifest api cached (ds_manifest snapshot))"
    and "prefetch_snapshot api cached parallelism max_duration pick snapshot i = (r, evs, i')"
    and "Interrupted \<notin> set evs"
  shows "r = Ok () \<and> mset (joined evs) = mset (take parallelism work) \<and> fetched evs = []"
proof (cases "work = []")
  case True
  then show ?thesis using assms(2,3) by (simp add: prefetch_snapshot_def)
next
  case False
  obtain q where d: "drain (ds_chunks snapshot) pick (pipe_prime parallelism work i) = (evs, q)"
    and r: "r = (if pi_interrupted q \<and> max_duration = None then Err PrefetchInterrupted else Ok ())"
    using assms(2,3) False by (auto simp: prefetch_snapshot_def Let_def split: prod.splits)
  have run: "pipe_run (ds_chunks snapshot) p es s \<Longrightarrow> Interrupted \<notin> set es \<Longrightarrow> pi_todo s = pi_todo p \<and> fetched es = []"
    for p es s
  proof (induction rule: pipe_run.induct)
    case (turn p ev p1 es s)
    from turn.hyps(1) turn.prems have "pi_todo p1 = pi_todo p \<and> fetched [ev] = []"
    proof (cases rule: pipe_step.cases)
      case (join k)
      obtain sha len where e: "pi_in_flight p ! k = (sha, len)" by fastforce
      obtain i1 where "cs_ensure (ds_chunks snapshot) sha (pi_chunks p) = (Panic, i1)"
        using assms(1) by (metis prod.collapse)
      then show ?thesis using join(2) e by (auto simp: pipe_join_def Let_def)
    qed simp
    then show ?case using turn.IH turn.prems by (simp add: fetched_Cons [of ev es])
  qed simp
  note dr = drain_run [OF d]
  have t: "pi_todo q = drop parallelism work" "fetched evs = []"
    using run [OF dr [THEN conjunct1] assms(4)] by (simp_all add: pipe_prime_def)
  then have "mset (joined evs) = mset (take parallelism work)"
    using pipe_run_spec(1) [OF dr [THEN conjunct1]] dr by (simp add: pipe_prime_def union_commute)
  moreover have "\<not> pi_interrupted q"
    using pipe_run_spec(2) [OF dr [THEN conjunct1]] assms(4) by (simp add: pipe_prime_def)
  ultimately show ?thesis using r t by simp
qed


section \<open>Small pipelines\<close>

abbreviation "demo_work \<equiv> [(demo_hash [1, 2, 3, 4], 40 :: u64), (demo_hash [5, 6, 7], 31)]"

definition panic_store :: "unit chunk_store" where
  "panic_store = \<lparr>cs_get = (\<lambda>h s. (Panic, s)), cs_ensure = (\<lambda>h s. (Panic, s))\<rparr>"

lemma demo_drain:
  "\<exists>q. drain (mem_store demo_chunks) (\<lambda>_. EndTask 0) (pipe_prime 1 demo_work 0) =
     ([Joined (demo_hash [1, 2, 3, 4]) 40 (Ok ()), Joined (demo_hash [5, 6, 7]) 31 (Ok ())], q)"
  using demo_hash_ne
  by (simp add: drain.simps pipe_prime_def pipe_join_def pipe_refill_def mem_store_def default_ensure_def
      demo_chunks_def Let_def)

theorem pipeline_accounting_witness:
  "\<exists>evs q. drain (mem_store demo_chunks) (\<lambda>_. EndTask 0) (pipe_prime 1 demo_work 0) = (evs, q) \<and>
     pi_chunks_done q = 2 \<and> pi_bytes_done q = 71"
proof -
  obtain q where d: "drain (mem_store demo_chunks) (\<lambda>_. EndTask 0) (pipe_prime 1 demo_work 0) =
      ([Joined (demo_hash [1, 2, 3, 4]) 40 (Ok ()), Joined (demo_hash [5, 6, 7]) 31 (Ok ())], q)"
    using demo_drain by blast
  from pipeline_accounting [OF drain_run [OF d, THEN conjunct1]] d show ?thesis by simp
qed

theorem prefetch_tries_everything_witness:
  "\<exists>evs q. drain (mem_store demo_chunks) (\<lambda>_. EndTask 0) (pipe_prime 1 demo_work 0) = (evs, q) \<and>
     mset (joined evs) = mset demo_work"
proof -
  obtain q where d: "drain (mem_store demo_chunks) (\<lambda>_. EndTask 0) (pipe_prime 1 demo_work 0) =
      ([Joined (demo_hash [1, 2, 3, 4]) 40 (Ok ()), Joined (demo_hash [5, 6, 7]) 31 (Ok ())], q)"
    using demo_drain by blast
  from prefetch_tries_everything [OF d] d show ?thesis by simp
qed

theorem panicking_fetches_starve_witness:
  "\<exists>evs. prefetch_snapshot std_depot_api [] 1 None (\<lambda>_. EndTask 0) (depot_store_new demo_manifest panic_store) () =
     (Ok (), evs, ()) \<and> length (joined evs) = 1"
proof -
  let ?s = "depot_store_new demo_manifest panic_store"
  obtain r evs where p: "prefetch_snapshot std_depot_api [] 1 None (\<lambda>_. EndTask 0) ?s () = (r, evs, ())"
    by (metis prod.exhaust unit.exhaust)
  let ?w = "fetch_work (plan_manifest std_depot_api [] (ds_manifest ?s))"
  have k: "set (map fst ?w) = c_sha ` set (concat (map (api_chunks std_depot_api) (m_files demo_manifest)))"
    using fetch_work_keys(2) [OF refl, of std_depot_api "[]" demo_manifest] by simp
  then have ne: "?w \<noteq> []"
    by (auto simp: demo_manifest_def demo_file_def demo_dir_def std_depot_api_def)
  then obtain e es where w: "?w = e # es" by (cases ?w) auto
  have "\<forall>h i. fst (cs_ensure (ds_chunks ?s) h i) = Panic" by (simp add: panic_store_def)
  moreover have "Interrupted \<notin> set evs"
    using p w by (auto simp: prefetch_snapshot_def drain.simps pipe_prime_def pipe_join_def
        panic_store_def Let_def split: prod.splits)
  ultimately have "r = Ok () \<and> mset (joined evs) = mset (take 1 ?w)"
    using panicking_fetches_starve [OF _ refl p] by blast
  then have "r = Ok ()" "length (joined evs) = 1"
    using w by (auto dest: mset_eq_length)
  then show ?thesis using p by blast
qed

section \<open>Filling the cache\<close>

text \<open>The file of a chunk's name decodes to the chunk.\<close>

definition stored :: "'l chunk_env \<Rightarrow> chunk_dir \<Rightarrow> (chunk_hash \<Rightarrow> bytes) \<Rightarrow> fsys \<Rightarrow> chunk_hash \<Rightarrow> bool" where
  "stored env dir plain fs h \<longleftrightarrow>
     (\<exists>fr. fs_files fs (path_for env dir h) = Some fr \<and> decode_frame env fr = Some (h, plain h))"

definition on_disk :: "'l chunk_env \<Rightarrow> chunk_dir \<Rightarrow> fsys \<Rightarrow> chunk_hash \<Rightarrow> bool" where
  "on_disk env dir fs h \<longleftrightarrow> fs_files fs (path_for env dir h) \<noteq> None"

text \<open>Nothing fails, all of \<open>avail\<close> can be had, fits a frame, and is whole if it is there.\<close>

definition fill_ok ::
  "'l chunk_env \<Rightarrow> chunk_dir \<Rightarrow> 'i chunk_store \<Rightarrow> ('i \<Rightarrow> bool) \<Rightarrow> (chunk_hash \<Rightarrow> bytes) \<Rightarrow>
     chunk_hash set \<Rightarrow> ('l, 'i) cache_world \<Rightarrow> bool" where
  "fill_ok env dir inner iinv plain avail w \<longleftrightarrow>
     cache_calm env dir inner iinv plain avail w \<and>
     (\<forall>h \<in> avail. length (plain h) \<le> MAX_PLAIN_LEN \<and>
        (on_disk env dir (cw_fs w) h \<longrightarrow> stored env dir plain (cw_fs w) h))"

lemma fetch_stores:
  assumes calm: "cache_calm env dir inner iinv plain avail w" and h: "h \<in> avail"
    and len: "length (plain h) \<le> MAX_PLAIN_LEN"
  obtains w' where "fetch_and_persist env inner h (path_for env dir h) w = (Ok (plain h), w')"
    and "cache_calm env dir inner iinv plain avail w'" and "stored env dir plain (cw_fs w') h"
    and "\<And>h'. h' \<noteq> h \<Longrightarrow> fs_files (cw_fs w') (path_for env dir h') = fs_files (cw_fs w) (path_for env dir h')"
proof -
  let ?A = "\<lambda>h b. b = plain h" and ?p = "path_for env dir h"
  have env: "env_ok env" and ik: "inner_ok env ?A iinv inner" and inv: "cache_inv env dir ?A w"
    and iinv: "iinv (cw_inner w)" and q: "fs_faults (cw_fs w) = []" and has: "inner_has env iinv inner avail"
    using calm by (simp_all add: cache_calm_def cache_ready_def)
  obtain b i1 c where g: "cs_get inner h (cw_inner w) = (Ok b, i1)" "ce_sha1 env b = hash_bytes h"
    "ce_compress env b = Inr c"
    using has iinv h unfolding inner_has_def by blast
  have b: "b = plain h" using ik iinv g unfolding inner_ok_def by blast
  obtain r w' where f: "fetch_and_persist env inner h ?p w = (r, w')" by fastforce
  note s = fetch_and_persist_sound [OF f env ik inv iinv]
  have calm': "cache_calm env dir inner iinv plain avail w'"
    using calm s(1,2) fetch_and_persist_quiet(1) [OF q, of env inner h ?p] f
    by (simp add: cache_calm_def cache_ready_def)
  let ?fr = "to_le_bytes (len64 b) @ hash_bytes h @ c" and ?w1 = "w\<lparr>cw_inner := i1\<rparr>"
  have ef: "encode_frame_as env b (hash_bytes h) = Ok ?fr" by (simp add: encode_frame_as_def g(3))
  obtain w2 where w2: "write_atomic env ?p ?fr ?w1 = (Ok (), w2)"
    using q by (simp add: write_atomic_quiet)
  have fw: "fetch_and_persist env inner h ?p w = (Ok b, cache_decoded env h b w2)"
    using g ef w2 by (simp add: fetch_and_persist_def Let_def)
  then have r: "r = Ok (plain h)" and w': "cw_fs w' = cw_fs w2" using f b by (auto simp: cache_decoded_def)
  have hex: "hex_ok env" and z: "zstd_ok env" and d: "length (hash_bytes h) = 20"
    using env g(2) by (auto simp: env_ok_def) (metis g(2))
  note files = write_atomic_files(1) [OF w2 tmp_not_chunk [OF hex, symmetric]]
  have "length b < 2 ^ 64" using len b by (simp add: MAX_PLAIN_LEN_def)
  then have "decode_frame env ?fr = Some (h, b)" using decode_encode_as [OF ef z d] len b by simp
  then have "stored env dir plain (cw_fs w') h" using files w' b by (simp add: stored_def)
  moreover have "h' \<noteq> h \<Longrightarrow> fs_files (cw_fs w') (path_for env dir h') = fs_files (cw_fs w) (path_for env dir h')" for h'
    using files path_for_inject [OF hex] w' by simp
  ultimately show ?thesis using that [of w'] f r calm' by blast
qed

lemma ensure_fills:
  assumes "fill_ok env dir inner iinv plain avail w" and "h \<in> avail"
  obtains w' where "fs_cache_ensure env dir inner h w = (Ok (), w')"
    and "fill_ok env dir inner iinv plain avail w'" and "stored env dir plain (cw_fs w') h"
    and "\<And>h'. on_disk env dir (cw_fs w) h' \<Longrightarrow> on_disk env dir (cw_fs w') h'"
proof (cases "on_disk env dir (cw_fs w) h")
  case True
  have "fs_faults (cw_fs w) = []" using assms(1) by (simp add: fill_ok_def cache_calm_def)
  then have "fs_cache_ensure env dir inner h w = (Ok (), w)"
    using True by (simp add: fs_cache_ensure_def exists_or_false_def fs_try_exists_def next_fault_quiet on_disk_def)
  then show ?thesis using that [of w] assms True by (simp add: fill_ok_def)
next
  case False
  have calm: "cache_calm env dir inner iinv plain avail w" and len: "length (plain h) \<le> MAX_PLAIN_LEN"
    and q: "fs_faults (cw_fs w) = []"
    using assms by (simp_all add: fill_ok_def cache_calm_def)
  from fetch_stores [OF calm assms(2) len] obtain w' where
    w': "fetch_and_persist env inner h (path_for env dir h) w = (Ok (plain h), w')"
      "cache_calm env dir inner iinv plain avail w'" "stored env dir plain (cw_fs w') h"
    and other: "\<And>h'. h' \<noteq> h \<Longrightarrow> fs_files (cw_fs w') (path_for env dir h') = fs_files (cw_fs w) (path_for env dir h')"
    by blast
  have "fs_cache_ensure env dir inner h w = (Ok (), w')"
    using False q w'(1) by (simp add: fs_cache_ensure_def exists_or_false_def fs_try_exists_def
        next_fault_quiet on_disk_def Let_def)
  moreover have "fill_ok env dir inner iinv plain avail w'"
  proof -
    have "on_disk env dir (cw_fs w') h' \<Longrightarrow> h' \<in> avail \<Longrightarrow> stored env dir plain (cw_fs w') h'" for h'
      using assms(1) other [of h'] w'(3) by (cases "h' = h") (auto simp: fill_ok_def on_disk_def stored_def)
    then show ?thesis using assms(1) w'(2) by (auto simp: fill_ok_def)
  qed
  moreover have "on_disk env dir (cw_fs w) h' \<Longrightarrow> on_disk env dir (cw_fs w') h'" for h'
    using other [of h'] False by (cases "h' = h") (auto simp: on_disk_def)
  ultimately show ?thesis using that [of w'] w'(3) by blast
qed

text \<open>Along a run every task succeeds, and what it ensured stays.\<close>

lemma pipe_run_fills:
  assumes "pipe_run (fs_cache_store env dir inner) p evs q"
    and "fill_ok env dir inner iinv plain avail (pi_chunks p)"
    and "fst ` (set (pi_todo p) \<union> set (pi_in_flight p)) \<subseteq> avail"
  shows "fill_ok env dir inner iinv plain avail (pi_chunks q) \<and> fetched evs = joined evs \<and> panics evs = 0 \<and>
    (\<forall>h \<in> fst ` set (joined evs). on_disk env dir (cw_fs (pi_chunks q)) h) \<and>
    (\<forall>h. on_disk env dir (cw_fs (pi_chunks p)) h \<longrightarrow> on_disk env dir (cw_fs (pi_chunks q)) h)"
  using assms
proof (induction rule: pipe_run.induct)
  case (turn p ev p1 evs q)
  from turn.hyps(1) show ?case
  proof (cases rule: pipe_step.cases)
    case stop
    then show ?thesis using turn.IH turn.prems by (simp add: pipe_interrupt_def)
  next
    case (join k)
    from pipe_join_cases [OF join(2,1)] obtain sha len r where
      ev: "ev = Joined sha len r" and e: "cs_ensure (fs_cache_store env dir inner) sha (pi_chunks p) = (r, pi_chunks p1)"
      and m: "mset (pi_todo p) + mset (pi_in_flight p) = add_mset (sha, len) (mset (pi_todo p1) + mset (pi_in_flight p1))"
      by metis
    have s: "set (pi_todo p) \<union> set (pi_in_flight p) = insert (sha, len) (set (pi_todo p1) \<union> set (pi_in_flight p1))"
      using arg_cong [OF m, of set_mset] by simp
    then have "sha \<in> avail" using turn.prems(2) by auto
    from ensure_fills [OF turn.prems(1) this] obtain w' where
      w': "fs_cache_ensure env dir inner sha (pi_chunks p) = (Ok (), w')" "fill_ok env dir inner iinv plain avail w'"
        "stored env dir plain (cw_fs w') sha"
        "\<And>h'. on_disk env dir (cw_fs (pi_chunks p)) h' \<Longrightarrow> on_disk env dir (cw_fs w') h'" by blast
    have r: "r = Ok ()" "pi_chunks p1 = w'" using e w'(1) by (simp_all add: fs_cache_store_def)
    have "on_disk env dir (cw_fs (pi_chunks p1)) sha" using w'(3) r(2) by (auto simp: stored_def on_disk_def)
    then show ?thesis
      using turn.IH w'(2,4) r turn.prems(2) s ev by (simp add: image_Un)
  qed
qed simp

text \<open>A stored chunk is served without the inner store.\<close>

lemma stored_offline:
  assumes "env_ok env" and "fs_faults fs = []" and "stored env dir plain fs h"
  shows "\<exists>w. fs_cache_get env dir inner h (cache_start env fs j) = (Ok (plain h), w) \<and> cw_inner w = j"
proof -
  let ?w = "cache_start env fs j"
  have lru: "lru_ok env" using assms(1) by (simp add: env_ok_def)
  obtain a w1 where a: "cache_hit env h ?w = (a, w1)" by fastforce
  note a' = cache_hit_sound [OF a lru]
  obtain d w2 where d: "cache_hit env h w1 = (d, w2)" by fastforce
  note d' = cache_hit_sound [OF d lru]
  have "ce_lru_map env (cw_decoded ?w) h = None" using lru by (simp add: cache_start_def lru_ok_def)
  then have ad: "a = None" "d = None" using a' d' by simp_all
  have "cw_fs w2 = fs" "cw_inner w2 = j" using a' d' by (simp_all add: cache_start_def)
  then show ?thesis
    using assms(2,3) a d ad by (auto simp: stored_def fs_cache_get_def read_verified_def fs_read_def
        next_fault_quiet cache_decoded_def Let_def)
qed

text \<open>
  C11: Prefetching warms the cache up.  When disk and network work, no file in the cache is
  corrupt, and nobody interrupts, a prefetch of a manifest succeeds with any number of tasks
  ending in any order, and afterwards every chunk of the manifest is read from disk, by a fresh
  store, without a call to its inner store.
\<close>

theorem prefetch_warms_cache:
  assumes "fill_ok env dir inner iinv plain (c_sha ` set cs) w"
    and "cs = concat (map (api_chunks api) (m_files m))" and "\<forall>h \<in> set cached. on_disk env dir (cw_fs w) h"
    and "0 < parallelism"
    and "prefetch_snapshot api cached parallelism max_duration pick
       (depot_store_new m (fs_cache_store env dir inner)) w = (r, evs, w')"
    and "Interrupted \<notin> set evs"
  shows "r = Ok () \<and> (\<forall>c \<in> set cs. \<exists>w2. fs_cache_get env dir offline (c_sha c) (cache_start env (cw_fs w') j) =
      (Ok (plain (c_sha c)), w2) \<and> cw_inner w2 = j)"
proof -
  let ?st = "fs_cache_store env dir inner" and ?avail = "c_sha ` set cs"
  let ?work = "fetch_work (plan_manifest api cached m)"
  note keys = fetch_work_keys(2) [OF assms(2), of cached]
  have "r = Ok () \<and> fill_ok env dir inner iinv plain ?avail w' \<and> (\<forall>h \<in> ?avail. on_disk env dir (cw_fs w') h)"
  proof (cases "?work = []")
    case True
    then have "r = Ok ()" "w' = w" using assms(5) by (simp_all add: prefetch_snapshot_def)
    moreover have "?avail \<subseteq> set cached" using keys True by auto
    ultimately show ?thesis using assms(1,3) by auto
  next
    case False
    obtain q where d: "drain ?st pick (pipe_prime parallelism ?work w) = (evs, q)"
      and r: "r = (if pi_interrupted q \<and> max_duration = None then Err PrefetchInterrupted else Ok ())"
      and w': "w' = pi_chunks q"
      using assms(5) False by (auto simp: prefetch_snapshot_def Let_def split: prod.splits)
    note run = drain_run [OF d, THEN conjunct1]
    have start: "pi_chunks (pipe_prime parallelism ?work w) = w"
      "set (pi_todo (pipe_prime parallelism ?work w)) \<union> set (pi_in_flight (pipe_prime parallelism ?work w)) = set ?work"
      by (simp_all add: pipe_prime_def) (metis append_take_drop_id set_append sup_commute)
    have sub: "fst ` set ?work \<subseteq> ?avail" using keys by auto
    have f: "fill_ok env dir inner iinv plain ?avail (pi_chunks q) \<and> fetched evs = joined evs \<and> panics evs = 0 \<and>
        (\<forall>h \<in> fst ` set (joined evs). on_disk env dir (cw_fs (pi_chunks q)) h) \<and>
        (\<forall>h. on_disk env dir (cw_fs w) h \<longrightarrow> on_disk env dir (cw_fs (pi_chunks q)) h)"
      using pipe_run_fills [OF run, of iinv plain ?avail] start sub assms(1) by simp
    have ni: "\<not> pi_interrupted q" using pipe_run_spec(2) [OF run] assms(6) by (simp add: pipe_prime_def)
    have "mset (joined evs) = mset ?work"
    proof -
      have "pi_todo q = []"
        using pipe_run_full [OF run ni] drain_run [OF d] f assms(4) pipe_run_spec(6) [OF run]
        by (cases "length ?work \<le> parallelism") (auto simp: pipe_prime_def)
      then show ?thesis using pipe_run_spec(1) [OF run] drain_run [OF d] start
        by (simp add: pipe_prime_def) (metis append_take_drop_id mset_append union_commute)
    qed
    then have "set (joined evs) = set ?work" by (rule mset_eq_setD)
    then have "on_disk env dir (cw_fs w') h" if "h \<in> ?avail" for h
    proof (cases "h \<in> set cached")
      case False
      then have "h \<in> fst ` set ?work" using keys that by auto
      then show ?thesis using f \<open>set (joined evs) = set ?work\<close> w' by auto
    qed (use assms(3) f w' in blast)
    then show ?thesis using r ni f w' by simp
  qed
  moreover from this have "env_ok env" "fs_faults (cw_fs w') = []"
    by (simp_all add: fill_ok_def cache_calm_def cache_ready_def)
  ultimately show ?thesis
    using stored_offline [of env "cw_fs w'" dir plain _ offline j] by (auto simp: fill_ok_def)
qed

lemma drain_uninterrupted:
  "\<forall>p. pick p \<noteq> Fire \<Longrightarrow> drain store pick p = (evs, q) \<Longrightarrow> Interrupted \<notin> set evs"
proof (induction store pick p arbitrary: evs q rule: drain.induct)
  case (1 store pick p)
  show ?case
  proof (cases "pi_in_flight p = []")
    case False
    let ?k = "case pick p of Fire \<Rightarrow> 0 | EndTask k \<Rightarrow> k mod length (pi_in_flight p)"
    obtain ev p1 where j: "pipe_join store ?k p = (ev, p1)" by fastforce
    obtain es1 q1 where d: "drain store pick p1 = (es1, q1)" by fastforce
    have nf: "\<not> (pick p = Fire \<and> \<not> pi_interrupted p)" using "1.prems"(1) by blast
    have "Interrupted \<notin> set es1" by (rule "1.IH"(2) [OF False nf refl j [symmetric] "1.prems"(1) d])
    moreover have "evs = ev # es1" using "1.prems"(2) False nf j d by (simp add: drain.simps [of _ _ p] Let_def)
    moreover have "ev \<noteq> Interrupted" using j by (auto simp: pipe_join_def Let_def split: prod.splits)
    ultimately show ?thesis by simp
  qed (use "1.prems" in \<open>simp add: drain.simps [of _ _ p]\<close>)
qed

theorem prefetch_warms_cache_witness:
  "\<exists>evs w' w2. prefetch_snapshot std_depot_api [] 1 None (\<lambda>_. EndTask 0)
      (depot_store_new demo_manifest (fs_cache_store std_env demo_cache_dir (mem_store demo_chunks)))
      (cache_start std_env calm_fs 0) = (Ok (), evs, w') \<and>
    fs_cache_get std_env demo_cache_dir (mem_store []) (demo_hash [5, 6, 7]) (cache_start std_env (cw_fs w') 0) =
      (Ok [5, 6, 7], w2)"
proof -
  let ?cs = "concat (map (api_chunks std_depot_api) (m_files demo_manifest))"
  have cs: "c_sha ` set ?cs = {demo_hash [1, 2, 3, 4], demo_hash [5, 6, 7]}"
    by (simp add: demo_manifest_def demo_file_def demo_dir_def std_depot_api_def)
  have fill: "fill_ok std_env demo_cache_dir (mem_store demo_chunks) (\<lambda>_. True) demo_plain (c_sha ` set ?cs)
      (cache_start std_env calm_fs 0)"
    using demo_calm unfolding cs
    by (simp add: fill_ok_def on_disk_def cache_start_def calm_fs_def MAX_PLAIN_LEN_def demo_file_def std_depot_api_def)
  obtain r evs w' where p: "prefetch_snapshot std_depot_api [] 1 None (\<lambda>_. EndTask 0)
      (depot_store_new demo_manifest (fs_cache_store std_env demo_cache_dir (mem_store demo_chunks)))
      (cache_start std_env calm_fs 0) = (r, evs, w')" using prod_cases3 by blast
  have "Interrupted \<notin> set evs"
    using p drain_uninterrupted by (fastforce simp: prefetch_snapshot_def Let_def split: prod.splits if_splits)
  from prefetch_warms_cache [OF fill refl _ _ p this, of "mem_store []" 0]
  have "r = Ok ()" "\<forall>c \<in> set ?cs. \<exists>w2. fs_cache_get std_env demo_cache_dir (mem_store []) (c_sha c)
      (cache_start std_env (cw_fs w') 0) = (Ok (demo_plain (c_sha c)), w2) \<and> cw_inner w2 = 0" by simp_all
  moreover have "demo_hash [5, 6, 7] \<in> c_sha ` set ?cs" unfolding cs by simp
  ultimately have "\<exists>w2. fs_cache_get std_env demo_cache_dir (mem_store []) (demo_hash [5, 6, 7])
      (cache_start std_env (cw_fs w') 0) = (Ok (demo_plain (demo_hash [5, 6, 7])), w2)"
    by (metis imageE)
  then show ?thesis using p \<open>r = Ok ()\<close> by simp
qed

section \<open>Passes\<close>

text \<open>
  What a pass works on: the manifests being fetched and the world of the chunk cache, in which the
  session with Steam is the inner store.  The decoded chunks and the numbers of temporary files
  live as long as the \<open>DepotStore\<close>, from one manifest and one pass to the next.
\<close>

record ('l, 'w) prefetch_world =
  pw_in_flight :: "manifest_key list"
  pw_cache :: "('l, 'w) cache_world"

definition prefetch_manifest ::
  "('c, 'k, 'w) steam_client \<Rightarrow> postcard \<Rightarrow> 'l chunk_env \<Rightarrow> depot_api \<Rightarrow> depot_root \<Rightarrow>
     (('l, ('c, 'k, 'w) steam_world) cache_world pipe \<Rightarrow> pipe_choice) \<Rightarrow>
     chunk_hash list \<Rightarrow> nat \<Rightarrow> u64 option \<Rightarrow> cfg_manifest \<Rightarrow> ('l, ('c, 'k, 'w) steam_world) prefetch_world \<Rightarrow>
     (prefetch_error, unit) outcome \<times> ('l, ('c, 'k, 'w) steam_world) prefetch_world" where
  "prefetch_manifest sc pc env api dr pick cached parallelism max_duration m w =
     (case open_depot_manifest sc pc env api dr (cf_app_id m) (cf_depot_id m) (cf_gid m) (cf_branch m)
             \<lparr>mcw_fs = cw_fs (pw_cache w), mcw_in_flight = pw_in_flight w, mcw_net = cw_inner (pw_cache w)\<rparr> of
        (opened, mw) \<Rightarrow>
          (let w1 = \<lparr>pw_in_flight = mcw_in_flight mw,
                     pw_cache = (pw_cache w)\<lparr>cw_fs := mcw_fs mw, cw_inner := mcw_net mw\<rparr>\<rparr>
           in case opened of
                Err e \<Rightarrow> (Err (PrefetchVfs e), w1)
              | Panic \<Rightarrow> (Panic, w1)
              | Ok snapshot \<Rightarrow>
                  (case prefetch_snapshot api cached parallelism max_duration pick snapshot (pw_cache w1) of
                     (r, evs, cw) \<Rightarrow> (r, w1\<lparr>pw_cache := cw\<rparr>))))"

fun prefetch_manifests ::
  "('c, 'k, 'w) steam_client \<Rightarrow> postcard \<Rightarrow> 'l chunk_env \<Rightarrow> depot_api \<Rightarrow> depot_root \<Rightarrow>
     (('l, ('c, 'k, 'w) steam_world) cache_world pipe \<Rightarrow> pipe_choice) \<Rightarrow>
     chunk_hash list \<Rightarrow> nat \<Rightarrow> u64 option \<Rightarrow> cfg_manifest list \<Rightarrow> ('l, ('c, 'k, 'w) steam_world) prefetch_world \<Rightarrow>
     (prefetch_error, unit) outcome \<times> ('l, ('c, 'k, 'w) steam_world) prefetch_world" where
  "prefetch_manifests sc pc env api dr pick cached parallelism max_duration [] w = (Ok (), w)"
| "prefetch_manifests sc pc env api dr pick cached parallelism max_duration (m # ms) w =
     (case prefetch_manifest sc pc env api dr pick cached parallelism max_duration m w of
        (Ok _, w1) \<Rightarrow> prefetch_manifests sc pc env api dr pick cached parallelism max_duration ms w1
      | (r, w1) \<Rightarrow> (r, w1))"

definition set_disk :: "fsys \<Rightarrow> ('l, 'w) prefetch_world \<Rightarrow> ('l, 'w) prefetch_world" where
  "set_disk fs w = w\<lparr>pw_cache := (pw_cache w)\<lparr>cw_fs := fs\<rparr>\<rparr>"

text \<open>A file that cannot be removed is left where it is.\<close>

definition delete_bad :: "'l chunk_env \<Rightarrow> path \<Rightarrow> chunk_hash list \<Rightarrow> fsys \<Rightarrow> fsys" where
  "delete_bad env root bad fs = fold (\<lambda>sha fs. snd (fs_remove_file (root @ [ce_hex env sha]) fs)) bad fs"

text \<open>The second half of a pass; \<open>True\<close> if there was something to delete.\<close>

definition verify_pass ::
  "'l chunk_env \<Rightarrow> path \<Rightarrow> (fsys \<Rightarrow> path \<Rightarrow> file_rows) \<Rightarrow> fsys \<Rightarrow>
     (prefetch_error, bool) outcome \<times> fsys" where
  "verify_pass env root listing fs =
     (case scan_chunks_on_disk (listing fs) root of
        Err e \<Rightarrow> (Err (PrefetchIo e), fs)
      | Panic \<Rightarrow> (Panic, fs)
      | Ok post \<Rightarrow>
          (case verify_cache env root post fs of
             (report, fs2) \<Rightarrow>
               (let bad = vr_mismatched report @ map fst (vr_errored report)
                in if bad = [] then (Ok False, fs2) else (Ok True, delete_bad env root bad fs2))))"

fun prefetch_attempts ::
  "nat \<Rightarrow> ('c, 'k, 'w) steam_client \<Rightarrow> postcard \<Rightarrow> 'l chunk_env \<Rightarrow> depot_api \<Rightarrow> depot_root \<Rightarrow>
     (fsys \<Rightarrow> path \<Rightarrow> file_rows) \<Rightarrow> (('l, ('c, 'k, 'w) steam_world) cache_world pipe \<Rightarrow> pipe_choice) \<Rightarrow>
     nat \<Rightarrow> u64 option \<Rightarrow> cfg_manifest list \<Rightarrow> ('l, ('c, 'k, 'w) steam_world) prefetch_world \<Rightarrow>
     (prefetch_error, unit) outcome \<times> ('l, ('c, 'k, 'w) steam_world) prefetch_world" where
  "prefetch_attempts 0 sc pc env api dr listing pick parallelism max_duration ms w = (Err StillBad, w)"
| "prefetch_attempts (Suc n) sc pc env api dr listing pick parallelism max_duration ms w =
     (case scan_chunks_on_disk (listing (cw_fs (pw_cache w))) (chunks_root dr) of
        Err e \<Rightarrow> (Err (PrefetchIo e), w)
      | Panic \<Rightarrow> (Panic, w)
      | Ok cached \<Rightarrow>
          (case prefetch_manifests sc pc env api dr pick cached parallelism max_duration ms w of
             (Err e, w1) \<Rightarrow> (Err e, w1)
           | (Panic, w1) \<Rightarrow> (Panic, w1)
           | (Ok _, w1) \<Rightarrow>
               if max_duration \<noteq> None then (Ok (), w1)
               else
                 (case verify_pass env (chunks_root dr) listing (cw_fs (pw_cache w1)) of
                    (Err e, fs2) \<Rightarrow> (Err e, set_disk fs2 w1)
                  | (Panic, fs2) \<Rightarrow> (Panic, set_disk fs2 w1)
                  | (Ok found_bad, fs2) \<Rightarrow>
                      if \<not> found_bad then (Ok (), set_disk fs2 w1)
                      else prefetch_attempts n sc pc env api dr listing pick parallelism max_duration ms
                        (set_disk fs2 w1))))"

text \<open>
  \<open>run\<close>, from a disk and a session.  \<open>prepare\<close> is \<open>Auth::prepare\<close>; the session is resolved before
  the store is opened and the first pass starts.
\<close>

definition prefetch_run ::
  "('c, 'k, 'w) steam_client \<Rightarrow> (('c, 'k, 'w) steam_world \<Rightarrow> (vfs_error, unit) outcome \<times> ('c, 'k, 'w) steam_world) \<Rightarrow>
     postcard \<Rightarrow> 'l chunk_env \<Rightarrow> depot_api \<Rightarrow> nat \<Rightarrow>
     (fsys \<Rightarrow> path \<Rightarrow> file_rows) \<Rightarrow> (('l, ('c, 'k, 'w) steam_world) cache_world pipe \<Rightarrow> pipe_choice) \<Rightarrow>
     config \<Rightarrow> nat option \<Rightarrow> u64 option \<Rightarrow> fsys \<Rightarrow> ('c, 'k, 'w) steam_world \<Rightarrow>
     (prefetch_error, unit) outcome \<times> fsys \<times> ('c, 'k, 'w) steam_world" where
  "prefetch_run sc prepare pc env api pid listing pick cfg parallelism seconds fs sw =
     (let root = op_components (cfg_store_root cfg) in
      case fs_create_dir_all root fs of
        (Err e, fs1) \<Rightarrow> (Err (PrefetchIo e), fs1, sw)
      | (Panic, fs1) \<Rightarrow> (Panic, fs1, sw)
      | (Ok _, fs1) \<Rightarrow>
          (case prepare sw of
             (Err e, sw1) \<Rightarrow> (Err (PrefetchVfs e), fs1, sw1)
           | (Panic, sw1) \<Rightarrow> (Panic, fs1, sw1)
           | (Ok _, sw1) \<Rightarrow>
               (case auth_resolve sc sw1 of
                  (Err e, sw2) \<Rightarrow> (Err (PrefetchVfs e), fs1, sw2)
                | (Panic, sw2) \<Rightarrow> (Panic, fs1, sw2)
                | (Ok _, sw2) \<Rightarrow>
                    (case depot_root_open env root pid fs1 sw2 of
                       (dr, cw) \<Rightarrow>
                         (case prefetch_attempts MAX_REFETCH_ATTEMPTS sc pc env api dr listing pick
                                 (effective_parallelism parallelism) seconds (cfg_manifests cfg)
                                 \<lparr>pw_in_flight = [], pw_cache = cw\<rparr> of
                            (r, w) \<Rightarrow> (r, cw_fs (pw_cache w), cw_inner (pw_cache w)))))))"

section \<open>What verification does to the cache\<close>

text \<open>A listing shows the files of a directory, each a chunk file or no forty bytes long.\<close>

definition honest_listing :: "(fsys \<Rightarrow> path \<Rightarrow> file_rows) \<Rightarrow> path \<Rightarrow> bool" where
  "honest_listing listing root \<longleftrightarrow>
     (\<forall>fs. fs_faults fs = [] \<and> finite (dom (fs_files fs)) \<longrightarrow>
        (\<exists>rs. listing fs root = Ok (map Ok rs) \<and> (\<forall>r \<in> set rs. \<exists>len. row_len r = Ok len) \<and>
           row_name ` set rs = Some ` {n. fs_files fs (root @ [n]) \<noteq> None}))"

definition hex_names :: "'l chunk_env \<Rightarrow> bool" where
  "hex_names env \<longleftrightarrow> (\<forall>h. ce_hex env h = to_hex (hash_bytes h))"

lemma delete_bad_calm:
  assumes "fs_faults fs = []"
  shows "fs_faults (delete_bad env root bad fs) = []"
    and "fs_files (delete_bad env root bad fs) q = (if q \<in> (\<lambda>h. root @ [ce_hex env h]) ` set bad then None else fs_files fs q)"
proof -
  have "fs_faults (delete_bad env root bad fs) = [] \<and>
    (\<forall>q. fs_files (delete_bad env root bad fs) q =
       (if q \<in> (\<lambda>h. root @ [ce_hex env h]) ` set bad then None else fs_files fs q))"
    using assms
  proof (induction bad arbitrary: fs)
    case (Cons h bad)
    let ?fs = "snd (fs_remove_file (root @ [ce_hex env h]) fs)"
    have f: "fs_faults ?fs = []" "fs_files ?fs = (fs_files fs)(root @ [ce_hex env h] := None)"
      using Cons.prems by (auto simp: fs_remove_file_def next_fault_quiet split: option.split)
    show ?case using Cons.IH [OF f(1)] f(2) by (auto simp: delete_bad_def)
  qed (simp add: delete_bad_def)
  then show "fs_faults (delete_bad env root bad fs) = []"
    "fs_files (delete_bad env root bad fs) q = (if q \<in> (\<lambda>h. root @ [ce_hex env h]) ` set bad then None else fs_files fs q)"
    by simp_all
qed


text \<open>
  A good cache: every file of the chunk directory with a forty-byte name is a frame the cache
  accepts, of the chunk it is named after, whose plaintext hashes to the name but whose frame
  does not.
\<close>

definition good_cache :: "'l chunk_env \<Rightarrow> path \<Rightarrow> fsys \<Rightarrow> bool" where
  "good_cache env root fs \<longleftrightarrow>
     (\<forall>n fr. fs_files fs (root @ [n]) = Some fr \<and> length n = 40 \<longrightarrow>
        (\<exists>h b. n = ce_hex env h \<and> decode_frame env fr = Some (h, b) \<and> ce_sha1 env b = hash_bytes h \<and>
           ce_sha1 env fr \<noteq> hash_bytes h))"

lemma honest_scan:
  assumes "honest_listing listing root" and "hex_names env" and "\<forall>b. length (ce_sha1 env b) = 20"
    and "fs_faults fs = []" and "finite (dom (fs_files fs))" and "good_cache env root fs"
  obtains out where "scan_chunks_on_disk (listing fs) root = Ok out"
    and "\<And>h. h \<in> set out \<longleftrightarrow> length (hash_bytes h) = 20 \<and> fs_files fs (root @ [ce_hex env h]) \<noteq> None"
proof -
  from assms(1,4,5) obtain rs where rs: "listing fs root = Ok (map Ok rs)"
    "\<forall>r \<in> set rs. \<exists>len. row_len r = Ok len" "row_name ` set rs = Some ` {n. fs_files fs (root @ [n]) \<noteq> None}"
    unfolding honest_listing_def by blast
  have good: "\<forall>r \<in> set rs. good_row r"
  proof
    fix r assume r: "r \<in> set rs"
    have "length n \<noteq> 40 \<or> (\<exists>bs. length bs = 20 \<and> n = to_hex bs)" if n: "row_name r = Some n" for n
    proof (cases "length n = 40")
      case True
      have "Some n \<in> Some ` {n. fs_files fs (root @ [n]) \<noteq> None}"
        unfolding rs(3) [symmetric] using r n by (metis imageI)
      then obtain fr where "fs_files fs (root @ [n]) = Some fr" by auto
      then obtain h b where "n = ce_hex env h" "ce_sha1 env b = hash_bytes h"
        using assms(6) True unfolding good_cache_def by blast
      then show ?thesis using assms(2,3) unfolding hex_names_def by metis
    qed simp
    then show "good_row r" using rs(2) r by (auto simp: good_row_def)
  qed
  obtain out where out: "names_on_disk (map Ok rs) [] = Ok out" "set out = {h. \<exists>r \<in> set rs. row_chunk r = Some h}"
    using names_on_disk_good [OF good, of "[]"] by auto
  have "h \<in> set out \<longleftrightarrow> length (hash_bytes h) = 20 \<and> fs_files fs (root @ [ce_hex env h]) \<noteq> None" for h
  proof -
    have twenty: "length (hash_bytes h) = 20" if r: "row_chunk r = Some h" "r \<in> set rs" for r
    proof -
      obtain n where n: "row_name r = Some n" using r by (auto simp: row_chunk_def split: option.splits)
      then have p: "parse_sha n = Ok (Some h)" using good_row_parse good r by metis
      then have "length n = 40" using parse_sha_length [of n] by (cases "length n = 40") auto
      then obtain bs where "length bs = 20" "n = to_hex bs" using good r n by (auto simp: good_row_def)
      then show ?thesis using p parse_sha_hex [of bs] by auto
    qed
    have "(\<exists>r \<in> set rs. row_name r = Some n) \<longleftrightarrow> fs_files fs (root @ [n]) \<noteq> None" for n
    proof -
      have "(\<exists>r \<in> set rs. row_name r = Some n) \<longleftrightarrow> Some n \<in> row_name ` set rs" by (metis image_iff)
      then show ?thesis unfolding rs(3) by auto
    qed
    then show ?thesis
      using twenty row_chunk_iff good assms(2) unfolding out(2) hex_names_def by fastforce
  qed
  then show ?thesis using that [of out] out(1) rs(1) by (simp add: scan_chunks_on_disk_def)
qed

text \<open>
  C36: The verification pass of a prefetch empties a good cache.  Over a chunk directory in which
  every chunk file is one the cache itself would serve, the pass deletes every one of them,
  nothing else, and reports that bad chunks were found, so that the next pass, if there is one
  left, downloads them all again.
\<close>

theorem verify_pass_empties_good_cache:
  assumes "honest_listing listing root" and "hex_names env" and "\<forall>b. length (ce_sha1 env b) = 20"
    and "fs_faults fs = []" and "finite (dom (fs_files fs))" and "good_cache env root fs"
  shows "\<exists>found_bad fs'. verify_pass env root listing fs = (Ok found_bad, fs') \<and>
    (found_bad \<longleftrightarrow> (\<exists>h fr. length (hash_bytes h) = 20 \<and> fs_files fs (root @ [ce_hex env h]) = Some fr)) \<and>
    fs_files fs' = (\<lambda>q. if \<exists>h. length (hash_bytes h) = 20 \<and> q = root @ [ce_hex env h] then None else fs_files fs q)"
proof -
  obtain out where scan: "scan_chunks_on_disk (listing fs) root = Ok out"
    and out: "\<And>h. h \<in> set out \<longleftrightarrow> length (hash_bytes h) = 20 \<and> fs_files fs (root @ [ce_hex env h]) \<noteq> None"
    using honest_scan [OF assms] by blast
  obtain report fs2 where v: "verify_cache env root out fs = (report, fs2)" by fastforce
  have fs2: "fs2 = fs" by (rule verify_cache_fs [OF assms(4) v])
  have bad: "sha_file env root fs h \<noteq> None \<and> \<not> hashes_to_name env root fs h" if h: "h \<in> set out" for h
  proof -
    obtain fr where fr: "fs_files fs (root @ [ce_hex env h]) = Some fr" and l: "length (hash_bytes h) = 20"
      using out h by auto
    have "length (ce_hex env h) = 40" using l assms(2) by (simp add: hex_names_def)
    then obtain h' where "ce_hex env h = ce_hex env h'" "ce_sha1 env fr \<noteq> hash_bytes h'"
      using assms(6) fr unfolding good_cache_def by blast
    then have "ce_sha1 env fr \<noteq> hash_bytes h" using assms(2) unfolding hex_names_def by (metis to_hex_inject)
    then show ?thesis using fr by (simp add: hashes_to_name_def sha_file_def)
  qed
  let ?r0 = "\<lparr>vr_ok = 0, vr_mismatched = [], vr_errored = [], vr_total_bytes = 0\<rparr>"
  from verify_fold_calm [OF assms(4), of env root out ?r0] v
  have "vr_mismatched report = filter (\<lambda>h. sha_file env root fs h \<noteq> None \<and> \<not> hashes_to_name env root fs h) out"
    "map fst (vr_errored report) = filter (\<lambda>h. sha_file env root fs h = None) out"
    by (auto simp: verify_cache_def)
  then have b: "vr_mismatched report = out" "vr_errored report = []"
    using bad filter_False [of out "\<lambda>h. sha_file env root fs h = None"] by (simp_all add: filter_id_conv)
  have all: "(\<lambda>h. root @ [ce_hex env h]) ` set out =
      {root @ [ce_hex env h] | h. length (hash_bytes h) = 20 \<and> fs_files fs (root @ [ce_hex env h]) \<noteq> None}"
    using out by auto
  let ?fs' = "if out = [] then fs else delete_bad env root out fs"
  have "fs_files ?fs' q = (if \<exists>h. length (hash_bytes h) = 20 \<and> q = root @ [ce_hex env h] then None else fs_files fs q)" for q
    using delete_bad_calm(2) [OF assms(4), of env root out q] out all by (cases "out = []") auto
  moreover have "verify_pass env root listing fs = (Ok (out \<noteq> []), ?fs')"
    using scan v fs2 b by (simp add: verify_pass_def Let_def)
  moreover have "out \<noteq> [] \<longleftrightarrow> (\<exists>h fr. length (hash_bytes h) = 20 \<and> fs_files fs (root @ [ce_hex env h]) = Some fr)"
    using out by (metis list.set_intros(1) neq_Nil_conv not_Some_eq empty_iff empty_set)
  ultimately show ?thesis by blast
qed


text \<open>A listing that exists: the names of a finite directory, in some order.\<close>

lemma dir_listing_exists: "\<exists>listing. honest_listing listing root"
proof -
  define names where "names fs = (SOME ns. set ns = {n. fs_files fs (root @ [n]) \<noteq> None})" for fs :: fsys
  define rows where "rows fs = map (\<lambda>n. demo_row n 0) (names fs)" for fs
  have "row_name ` set (rows fs) = Some ` {n. fs_files fs (root @ [n]) \<noteq> None}" if "finite (dom (fs_files fs))" for fs
  proof -
    have "{n. fs_files fs (root @ [n]) \<noteq> None} = (\<lambda>n. root @ [n]) -` dom (fs_files fs)" by auto
    moreover have "inj (\<lambda>n :: string. root @ [n])" by (simp add: inj_def)
    ultimately have "finite {n. fs_files fs (root @ [n]) \<noteq> None}"
      using finite_vimageI [OF that] by metis
    then have "\<exists>ns. set ns = {n. fs_files fs (root @ [n]) \<noteq> None}" by (rule finite_list)
    then have "set (names fs) = {n. fs_files fs (root @ [n]) \<noteq> None}"
      unfolding names_def by (rule someI_ex)
    then show ?thesis by (simp add: rows_def demo_row_def image_image)
  qed
  moreover have "\<forall>r \<in> set (rows fs). \<exists>len. row_len r = Ok len" for fs by (simp add: rows_def demo_row_def)
  ultimately have "honest_listing (\<lambda>fs p. Ok (map Ok (rows fs))) root"
    unfolding honest_listing_def by metis
  then show ?thesis by blast
qed

theorem verify_pass_empties_good_cache_witness:
  "\<exists>listing fr fs'. verify_pass std_env [''c''] listing
      \<lparr>fs_files = [[''c'', to_hex (pad20 [9])] \<mapsto> fr], fs_faults = []\<rparr> = (Ok True, fs') \<and>
    encode_frame std_env [9] = Ok fr \<and> fs_files fs' [''c'', to_hex (pad20 [9])] = None"
proof -
  let ?fr = "to_le_bytes (len64 [9 :: u8]) @ pad20 [9] @ [9]"
  let ?fs = "\<lparr>fs_files = [[''c'', to_hex (pad20 [9])] \<mapsto> ?fr], fs_faults = []\<rparr>"
  obtain listing where l: "honest_listing listing [''c'']" using dir_listing_exists by blast
  have enc: "encode_frame std_env [9] = Ok ?fr"
    by (simp add: encode_frame_def encode_frame_as_def std_env_def)
  have dec: "decode_frame std_env ?fr = Some (ChunkHash (pad20 [9]), [9])"
    using decode_encode_as [of std_env "[9]" "pad20 [9]" ?fr] std_env_ok enc
    by (simp add: env_ok_def encode_frame_def std_env_def pad20_def MAX_PLAIN_LEN_def)
  have ne: "pad20 ?fr \<noteq> pad20 [9]" by (simp add: pad20_def to_le_bytes_def len64_def upt_rec)
  have g: "good_cache std_env [''c''] ?fs"
    using dec ne by (auto simp: good_cache_def std_env_def intro!: exI [of _ "ChunkHash (pad20 [9])"])
  have hex: "hex_names std_env" "\<forall>b. length (ce_sha1 std_env b) = 20"
    using std_env_ok by (simp_all add: hex_names_def std_env_def env_ok_def)
  have c: "fs_faults ?fs = []" "finite (dom (fs_files ?fs))" by simp_all
  from verify_pass_empties_good_cache [OF l hex c g] obtain found_bad fs' where
    v: "verify_pass std_env [''c''] listing ?fs = (Ok found_bad, fs')"
    and b: "found_bad \<longleftrightarrow> (\<exists>h fr. length (hash_bytes h) = 20 \<and> fs_files ?fs ([''c''] @ [ce_hex std_env h]) = Some fr)"
    and f: "fs_files fs' = (\<lambda>q. if \<exists>h. length (hash_bytes h) = 20 \<and> q = [''c''] @ [ce_hex std_env h] then None else fs_files ?fs q)"
    by blast
  have h: "length (hash_bytes (ChunkHash (pad20 [9]))) = 20" "ce_hex std_env (ChunkHash (pad20 [9])) = to_hex (pad20 [9])"
    by (simp_all add: pad20_def std_env_def)
  then have "fs_files ?fs ([''c''] @ [ce_hex std_env (ChunkHash (pad20 [9]))]) = Some ?fr" by simp
  then have "found_bad" using b h(1) by blast
  moreover have "fs_files fs' [''c'', to_hex (pad20 [9])] = None"
    unfolding f using h by (metis append_Cons append_Nil)
  ultimately show ?thesis using v enc by (intro exI conjI) simp_all
qed

end
