(* ===== verification/View.thy ===== *)
theory View
  imports Mount_Tree
begin

text \<open>
  \<open>view.rs\<close>: what node \<open>N\<close> is and what directory \<open>N\<close> holds, in terms all back ends share, and
  the opening of a lazily registered snapshot.

  The mutable state of a mount is \<open>mount_world\<close>: the tree, the \<open>OnceCell\<close> of every lazy
  entry, what the openers work on (type \<open>'w\<close>) and the state of the chunk store (type \<open>'s\<close>).
  The openers are closures the tree is given from outside: \<open>opener_env\<close>.
\<close>

section \<open>Nodes\<close>

datatype node_kind = NDir | NFile bool | NSymlink string

record node =
  n_ino :: ino
  n_kind :: node_kind
  n_size :: u64
  n_mtime_secs :: u32

definition dir_node :: "ino \<Rightarrow> u32 \<Rightarrow> node" where
  "dir_node i mtime = \<lparr>n_ino = i, n_kind = NDir, n_size = 0, n_mtime_secs = mtime\<rparr>"

section \<open>Opening a snapshot\<close>

record ('s, 'o, 'w) mount_world =
  mw_tree :: "('s, 'o) mount_tree"
  mw_cells :: "nat \<Rightarrow> (string + 's snapshot_entry) option"
  mw_open :: 'w
  mw_chunks :: 's

record ('s, 'o, 'w) opener_env =
  oe_open :: "'o \<Rightarrow> 'w \<Rightarrow> (io_error, 's depot_store) outcome \<times> 'w"
  oe_text :: "io_error \<Rightarrow> string"

datatype ('s, 'o) slot_lookup = SlReady "'s snapshot_entry" | SlPending "'o lazy_entry" | SlMissing

definition slot_lookup :: "('s, 'o) mount_tree \<Rightarrow> sid \<Rightarrow> ('s, 'o) slot_lookup" where
  "slot_lookup t sid =
     (case slot_at t sid of
        None \<Rightarrow> SlMissing
      | Some slot \<Rightarrow>
          (case sl_state slot of Ready entry \<Rightarrow> SlReady entry | Pending lz \<Rightarrow> SlPending lz))"

text \<open>
  \<open>resolve\<close>: the opener runs if the cell is empty, its outcome, good or bad, stays in the cell,
  and a snapshot that was opened is promoted in the tree.  An opener that panics leaves the cell
  empty.  This is a call nobody interferes with; callers that coalesce on the cell are in
  \<open>Open_Race\<close>, where \<open>resolve\<close> is the run of a caller alone.
\<close>

definition resolve ::
  "('s, 'o, 'w) opener_env \<Rightarrow> 'o lazy_entry \<Rightarrow> snapshot_id \<Rightarrow> ('s, 'o, 'w) mount_world \<Rightarrow>
     (string, 's snapshot_entry) outcome \<times> ('s, 'o, 'w) mount_world" where
  "resolve env lz sn mw =
     (let init = (case mw_cells mw (le_cell lz) of
                    Some c \<Rightarrow> (Ok c, mw)
                  | None \<Rightarrow>
                      (case oe_open env (le_opener lz) (mw_open mw) of
                         (Panic, w) \<Rightarrow> (Panic, mw\<lparr>mw_open := w\<rparr>)
                       | (r, w) \<Rightarrow>
                           (let c = (case r of Ok store \<Rightarrow> Inr \<lparr>se_snapshot = store\<rparr>
                                     | Err e \<Rightarrow> Inl (oe_text env e) | Panic \<Rightarrow> Inl [])
                            in (Ok c :: (string, string + 's snapshot_entry) outcome,
                                mw\<lparr>mw_open := w,
                                  mw_cells := (mw_cells mw)(le_cell lz \<mapsto> c)\<rparr>))))
      in case init of
           (Ok (Inr entry), mw1) \<Rightarrow> (Ok entry, mw1\<lparr>mw_tree := promote sn entry (mw_tree mw1)\<rparr>)
         | (Ok (Inl e), mw1) \<Rightarrow> (Err e, mw1)
         | (Err e, mw1) \<Rightarrow> (Err e, mw1)
         | (Panic, mw1) \<Rightarrow> (Panic, mw1))"

section \<open>Synthetic directories\<close>

definition slot_mtime :: "('s, 'o) mount_tree \<Rightarrow> sid \<Rightarrow> u32" where
  "slot_mtime t sid =
     (case Option.bind (slot_at t sid) sl_creation_time of Some c \<Rightarrow> c | None \<Rightarrow> 0)"

definition synthetic_node :: "('s, 'o) mount_tree \<Rightarrow> ino \<Rightarrow> node option" where
  "synthetic_node t i = map_option (\<lambda>_. dir_node i 0) (synthetic t i)"

definition node_below_synthetic :: "('s, 'o) mount_tree \<Rightarrow> ino \<Rightarrow> node" where
  "node_below_synthetic t child =
     (let sid = fst (unpack child) in
      dir_node child (if sid = SYNTHETIC then 0 else slot_mtime t sid))"

definition synthetic_child :: "('s, 'o) mount_tree \<Rightarrow> ino \<Rightarrow> string \<Rightarrow> node option" where
  "synthetic_child t parent name =
     (case synthetic t parent of
        None \<Rightarrow> None
      | Some dir \<Rightarrow> map_option (node_below_synthetic t) (map_of (sd_children dir) name))"

definition synthetic_dir_entries :: "('s, 'o) mount_tree \<Rightarrow> ino \<Rightarrow> (string \<times> node) list option" where
  "synthetic_dir_entries t i =
     map_option
       (\<lambda>dir. sort_key fst (map (\<lambda>(name, child). (name, node_below_synthetic t child)) (sd_children dir)))
       (synthetic t i)"

section \<open>Directories of a snapshot\<close>

definition kind_of :: "file_type \<Rightarrow> bool \<Rightarrow> string option \<Rightarrow> node_kind" where
  "kind_of kind executable linktarget =
     (case (kind, linktarget) of
        (FtDirectory, _) \<Rightarrow> NDir
      | (FtSymlink, Some target) \<Rightarrow> NSymlink target
      | _ \<Rightarrow> NFile executable)"

definition join :: "string \<Rightarrow> string \<Rightarrow> string" where
  "join dir name = (if dir = [] then name else dir @ ''/'' @ name)"

definition snapshot_node :: "depot_api \<Rightarrow> 's snapshot_entry \<Rightarrow> ino \<Rightarrow> node option" where
  "snapshot_node api entry i =
     (let idx = snd (unpack i);
          m = ds_manifest (se_snapshot entry)
      in if idx = 0 then Some (dir_node i (m_creation_time m))
         else
           (case get_at (m_files m) (unat idx - 1) of
              None \<Rightarrow> None
            | Some f \<Rightarrow>
                Some \<lparr>n_ino = i,
                      n_kind = kind_of (api_file_type api f) (api_executable api f) (api_linktarget api f),
                      n_size = f_size f, n_mtime_secs = m_creation_time m\<rparr>))"

definition path_within_snapshot :: "'s snapshot_entry \<Rightarrow> u64 \<Rightarrow> string option" where
  "path_within_snapshot entry idx =
     (if idx = 0 then Some []
      else
        (case checked_sub (unat idx) 1 of
           None \<Rightarrow> None
         | Some file_idx \<Rightarrow>
             map_option f_path (get_at (m_files (ds_manifest (se_snapshot entry))) file_idx)))"

definition snapshot_child :: "depot_api \<Rightarrow> 's snapshot_entry \<Rightarrow> ino \<Rightarrow> string \<Rightarrow> node option" where
  "snapshot_child api entry parent name =
     (case unpack parent of (sid, idx) \<Rightarrow>
        (case path_within_snapshot entry idx of
           None \<Rightarrow> None
         | Some parent_path \<Rightarrow>
             (case index_of (se_snapshot entry) (join parent_path name) of
                None \<Rightarrow> None
              | Some child_idx \<Rightarrow>
                  snapshot_node api entry (pack sid (word_of_nat (child_idx + 1))))))"

fun snapshot_entries ::
  "depot_api \<Rightarrow> 's snapshot_entry \<Rightarrow> sid \<Rightarrow> string \<Rightarrow> dir_entry list \<Rightarrow> (string \<times> node) list" where
  "snapshot_entries api entry sid dir_path [] = []"
| "snapshot_entries api entry sid dir_path (e # es) =
     (case index_of (se_snapshot entry) (join dir_path (e_name e)) of
        None \<Rightarrow> snapshot_entries api entry sid dir_path es
      | Some child_idx \<Rightarrow>
          (let m = ds_manifest (se_snapshot entry);
               executable = (case get_at (m_files m) child_idx of
                               Some f \<Rightarrow> api_executable api f | None \<Rightarrow> False)
           in (e_name e,
               \<lparr>n_ino = pack sid (word_of_nat (child_idx + 1)),
                n_kind = kind_of (fm_kind (e_meta e)) executable (fm_linktarget (e_meta e)),
                n_size = fm_size (e_meta e), n_mtime_secs = m_creation_time m\<rparr>)
              # snapshot_entries api entry sid dir_path es))"

text \<open>\<open>Err ()\<close> is the code's \<open>None\<close>.\<close>

definition snapshot_dir ::
  "depot_api \<Rightarrow> 's snapshot_entry \<Rightarrow> ino \<Rightarrow> (unit, (string \<times> node) list) outcome" where
  "snapshot_dir api entry i =
     (case unpack i of (sid, idx) \<Rightarrow>
        (case path_within_snapshot entry idx of
           None \<Rightarrow> Err ()
         | Some dir_path \<Rightarrow>
             (case list_dir api (se_snapshot entry) dir_path of
                Err _ \<Rightarrow> Err ()
              | Panic \<Rightarrow> Panic
              | Ok listed \<Rightarrow> Ok (sort_key fst (snapshot_entries api entry sid dir_path listed)))))"

section \<open>The directory contract\<close>

text \<open>
  What the back ends rely on: a listing is sorted by name without repetitions, its names are
  plain (no slash, no dots only), it holds exactly what a lookup by a plain name finds, and no
  two entries have the same id; no id is zero.
\<close>

locale directory_view =
  fixes listing :: "'d \<Rightarrow> (string \<times> node) list option"
    and lookup :: "'d \<Rightarrow> string \<Rightarrow> node option"
    and good :: "'d \<Rightarrow> bool"
  assumes listing_sorted: "good d \<Longrightarrow> listing d = Some es \<Longrightarrow> sorted (map fst es) \<and> distinct (map fst es)"
    and listing_lookup: "good d \<Longrightarrow> listing d = Some es \<Longrightarrow> plain_name n \<Longrightarrow> map_of es n = lookup d n"
    and listing_plain: "good d \<Longrightarrow> listing d = Some es \<Longrightarrow> list_all plain_name (map fst es)"
    and listing_ids: "good d \<Longrightarrow> listing d = Some es \<Longrightarrow>
      distinct (map (\<lambda>e. n_ino (snd e)) es) \<and> (\<forall>e \<in> set es. n_ino (snd e) \<noteq> 0)"
begin

lemma listed_iff:
  assumes "good d" and "listing d = Some es"
  shows "(n, nd) \<in> set es \<longleftrightarrow> plain_name n \<and> lookup d n = Some nd"
proof -
  have "(n, nd) \<in> set es \<Longrightarrow> plain_name n"
    using listing_plain [OF assms] by (force simp: list_all_iff)
  moreover have "(n, nd) \<in> set es \<longleftrightarrow> map_of es n = Some nd"
    using listing_sorted [OF assms] by simp
  ultimately show ?thesis using listing_lookup [OF assms] by metis
qed

end

lemma sort_key_listing:
  assumes "distinct (map fst xs)"
  shows "sorted (map fst (sort_key fst xs))" and "distinct (map fst (sort_key fst xs))"
    and "map_of (sort_key fst xs) = map_of xs"
    and "distinct (map (\<lambda>e. g (snd e)) (sort_key fst xs)) = distinct (map (\<lambda>e. g (snd e)) xs)"
proof -
  have s: "set (sort_key fst xs) = set xs" "distinct xs"
    using assms by (auto simp: distinct_map)
  show "sorted (map fst (sort_key fst xs))" by simp
  show d: "distinct (map fst (sort_key fst xs))" using assms s by (auto simp: distinct_map)
  show "map_of (sort_key fst xs) = map_of xs"
    using map_of_inject_set [OF d assms] s by simp
  show "distinct (map (\<lambda>e. g (snd e)) (sort_key fst xs)) = distinct (map (\<lambda>e. g (snd e)) xs)"
    using s by (auto simp: distinct_map)
qed

section \<open>Synthetic directories\<close>

definition synthetic_good :: "('s, 'o) mount_tree \<times> ino \<Rightarrow> bool" where
  "synthetic_good d \<longleftrightarrow> tree_ok (fst d) \<and> fst (unpack (snd d)) = SYNTHETIC"

lemma synthetic_at:
  assumes wf: "tree_wf rs t" and "synthetic t i = Some sd"
  obtains k where "k < length rs" and "sd = mt_synthetic t ! k" and "i = word_of_nat k"
proof -
  obtain s x where u: "unpack i = (s, x)" by fastforce
  with assms(2) have s: "s = SYNTHETIC" and g: "get_at (mt_synthetic t) (unat x) = Some sd"
    by (auto simp: synthetic_def split: if_splits)
  have "i = pack 0 x" using pack_unpack [of i] u s by (simp add: SYNTHETIC_def)
  then have "i = word_of_nat (unat x)" by simp
  moreover have "unat x < length rs" "sd = mt_synthetic t ! unat x"
    using g tree_wf_len [OF wf] by (auto simp: get_at_Some_iff)
  ultimately show ?thesis using that by blast
qed

lemma child_ids:
  assumes wf: "tree_wf rs t" and k: "k < length rs"
    and "map_of (sd_children (mt_synthetic t ! k)) n = Some c"
  shows "c \<noteq> 0" and "map_of (sd_children (mt_synthetic t ! k)) n' = Some c \<Longrightarrow> n = n'"
proof -
  note ch = children_at(2) [OF wf k]
  have l: "length rs \<le> 2 ^ 48" "rs ! 0 = Unused" "mt_slots t ! 0 = None" using wf by (auto simp: tree_wf_def)
  have nz: "j \<noteq> 0 \<Longrightarrow> j < length rs \<Longrightarrow> word_of_nat j \<noteq> (0 :: u64)" for j
    using unat_nat48 [of j] l(1) by (metis order_less_le_trans unat_0)
  have inj: "j < length rs \<Longrightarrow> j' < length rs \<Longrightarrow> (word_of_nat j :: u64) = word_of_nat j' \<Longrightarrow> j = j'" for j j'
    using unat_nat48 l(1) by (metis order_less_le_trans)
  have pz: "pack (word_of_nat j) 0 \<noteq> 0" if "j \<noteq> 0" "j < length (mt_slots t)" for j
    using pack_sid_inject [of j 0] slots_bound [OF wf that(2)] that(1) by simp
  have pinj: "j = j'" if "j < length (mt_slots t)" "j' < length (mt_slots t)"
    "pack (word_of_nat j) 0 = pack (word_of_nat j') 0" for j j'
    using pack_sid_inject slots_bound [OF wf] that by blast
  have z: "rs ! j = AppDir a \<Longrightarrow> j \<noteq> 0" "rs ! j = DepotDir a d \<Longrightarrow> j \<noteq> 0"
    "mt_slots t ! j = Some sl \<Longrightarrow> j \<noteq> 0" for j a d sl
    using l by (metis dir_role.distinct(3), metis dir_role.distinct(5), metis option.distinct(1))
  have c: "child_of rs (mt_slots t) (rs ! k) n c" using assms(3) ch by simp
  show "c \<noteq> 0" using c nz pz z by (cases "rs ! k") auto
  assume "map_of (sd_children (mt_synthetic t ! k)) n' = Some c"
  then have "child_of rs (mt_slots t) (rs ! k) n' c" using ch by simp
  with c show "n = n'" using inj pinj
    by (cases "rs ! k") (auto, (metis dir_role.inject)+, metis option.inject)
qed

lemma to_dec_plain: "plain_name (to_dec w)"
proof -
  have "CHR ''.'' \<notin> set (to_dec w)"
    unfolding to_dec_def using digit_chars [of "CHR ''.''"] by auto
  then show ?thesis using to_dec_no_slash [of w] by (auto simp: plain_name_def)
qed

lemma child_of_plain: "child_of rs ss r n c \<Longrightarrow> plain_name n"
  by (cases r) (auto simp: to_dec_plain)

interpretation synth: directory_view
  "\<lambda>d. synthetic_dir_entries (fst d) (snd d)" "\<lambda>d. synthetic_child (fst d) (snd d)" synthetic_good
proof
  fix d :: "('a, 'b) mount_tree \<times> ino" and es
  assume good: "synthetic_good d" and l: "synthetic_dir_entries (fst d) (snd d) = Some es"
  obtain t i where d: "d = (t, i)" by fastforce
  obtain rs where wf: "tree_wf rs t" using good by (auto simp: synthetic_good_def d tree_ok_def)
  obtain sd where sd: "synthetic t i = Some sd"
    and es: "es = sort_key fst (map (\<lambda>(n, c). (n, node_below_synthetic t c)) (sd_children sd))"
    using l by (auto simp: synthetic_dir_entries_def d)
  obtain k where k: "k < length rs" "sd = mt_synthetic t ! k" using synthetic_at [OF wf sd] by blast
  let ?xs = "map (\<lambda>(n, c). (n, node_below_synthetic t c)) (sd_children sd)"
  have dist: "distinct (map fst (sd_children sd))" using wf k by (simp add: tree_wf_def)
  have dx: "distinct (map fst ?xs)" using dist by (simp add: comp_def case_prod_beta)
  show "sorted (map fst es) \<and> distinct (map fst es)"
    unfolding es using sort_key_listing(1,2) [OF dx] by blast
  have "map_of ?xs n = map_option (node_below_synthetic t) (map_of (sd_children sd) n)" for n
    by (simp add: map_of_map)
  then show "map_of es n = synthetic_child (fst d) (snd d) n" for n
    unfolding es sort_key_listing(3) [OF dx] by (auto simp: d synthetic_child_def sd)
  have ino: "n_ino (node_below_synthetic t c) = c" for c
    by (simp add: node_below_synthetic_def dir_node_def Let_def)
  have c: "map_of (sd_children sd) n = Some c" if "(n, c) \<in> set (sd_children sd)" for n c
    using that dist by simp
  show "list_all plain_name (map fst es)"
  proof -
    have "plain_name n" if "(n, x) \<in> set (sd_children sd)" for n x
      using children_at(2) [OF wf k(1), of n x] c [OF that] k(2) child_of_plain by metis
    then show ?thesis by (auto simp: es list_all_iff)
  qed
  have inj: "inj_on snd (set (sd_children sd))"
    using child_ids(2) [OF wf k(1)] c k(2) by (intro inj_onI) (metis prod.collapse)
  have "distinct (map snd (sd_children sd))"
    using inj dist by (auto simp: distinct_map)
  then have "distinct (map (\<lambda>e. n_ino (snd e)) ?xs)"
    by (simp add: comp_def case_prod_beta ino)
  then have "distinct (map (\<lambda>e. n_ino (snd e)) es)"
    unfolding es using sort_key_listing(4) [OF dx, of n_ino] by simp
  moreover have "\<forall>e \<in> set es. n_ino (snd e) \<noteq> 0"
  proof
    fix e assume "e \<in> set es"
    then obtain n x where nx: "(n, x) \<in> set (sd_children sd)" "n_ino (snd e) = x" by (auto simp: es ino)
    show "n_ino (snd e) \<noteq> 0" using child_ids(1) [OF wf k(1)] c [OF nx(1)] k(2) nx(2) by metis
  qed
  ultimately show "distinct (map (\<lambda>e. n_ino (snd e)) es) \<and> (\<forall>e \<in> set es. n_ino (snd e) \<noteq> 0)" ..
qed

section \<open>Directories of a snapshot\<close>

definition entry_wf :: "depot_api \<Rightarrow> 's snapshot_entry \<Rightarrow> bool" where
  "entry_wf api entry \<longleftrightarrow>
     (\<exists>m ch. se_snapshot entry = depot_store_new m ch \<and> wf_files (m_files m) \<and>
        length (m_files m) + 1 < 2 ^ 48)"

text \<open>The files of a directory, in the order of the manifest.\<close>

definition dir_path_files :: "'s snapshot_entry \<Rightarrow> string \<Rightarrow> nat list" where
  "dir_path_files entry d = child_indices (m_files (ds_manifest (se_snapshot entry))) d"

definition file_node :: "depot_api \<Rightarrow> 's snapshot_entry \<Rightarrow> sid \<Rightarrow> nat \<Rightarrow> node" where
  "file_node api entry sid i =
     (let m = ds_manifest (se_snapshot entry); f = m_files m ! i in
      \<lparr>n_ino = pack sid (word_of_nat (Suc i)),
       n_kind = kind_of (api_file_type api f) (api_executable api f) (api_linktarget api f),
       n_size = f_size f, n_mtime_secs = m_creation_time m\<rparr>)"

lemma unpack_file:
  "Suc i < 2 ^ 48 \<Longrightarrow> unpack (pack s (word_of_nat (Suc i))) = (s, word_of_nat (Suc i))"
  by (rule unpack_pack) (simp only: unat_nat48)

lemma snapshot_node_at:
  assumes "i < length (m_files (ds_manifest (se_snapshot entry)))" and "Suc i < 2 ^ 48"
  shows "snapshot_node api entry (pack s (word_of_nat (Suc i))) = Some (file_node api entry s i)"
proof -
  have u: "unat (word_of_nat (Suc i) :: u64) = Suc i" using unat_nat48 [OF assms(2)] .
  then have "(word_of_nat (Suc i) :: u64) \<noteq> 0" by (metis nat.distinct(1) unat_0)
  moreover have "get_at (m_files (ds_manifest (se_snapshot entry))) i =
      Some (m_files (ds_manifest (se_snapshot entry)) ! i)" using assms(1) by (simp add: get_at_def)
  ultimately show ?thesis
    unfolding snapshot_node_def unpack_file [OF assms(2)] by (simp add: u file_node_def Let_def del: of_nat_Suc)
qed

lemma join_child_path: "join d n = child_path d n"
  by (simp add: join_def child_path_def)

lemma wf_path_join:
  "wf_path p \<Longrightarrow> p = child_path d w \<Longrightarrow> strip_leading_slash (child_path d w) = child_path d w"
  using wf_path_no_lead(1) by metis

lemma index_of_child:
  assumes e: "se_snapshot entry = depot_store_new m ch" and wf: "wf_files (m_files m)"
    and i: "i \<in> set (child_indices (m_files m) d)"
  shows "index_of (se_snapshot entry) (join d (entry_name (m_files m ! i))) = Some i"
proof -
  have "i < length (m_files m)" using i by (rule child_indices_lt)
  then have "wf_path (f_path (m_files m ! i))" using wf by (simp add: wf_files_def list_all_length)
  moreover have "child_path d (entry_name (m_files m ! i)) = f_path (m_files m ! i)"
    using calculation i wf_path_entry_name by (auto simp: child_indices_def)
  ultimately show ?thesis
    using entry_index [OF wf i] wf_path_no_lead(1) by (simp add: index_of_def e join_child_path)
qed

lemma snapshot_entries_eq:
  assumes e: "se_snapshot entry = depot_store_new m ch" and wf: "wf_files (m_files m)"
    and s: "set is \<subseteq> set (child_indices (m_files m) d)"
  shows "snapshot_entries api entry sid d
      (map (\<lambda>i. \<lparr>e_name = entry_name (m_files m ! i), e_meta = meta_of api (m_files m ! i)\<rparr>) is) =
    map (\<lambda>i. (entry_name (m_files m ! i), file_node api entry sid i)) is"
  using s
proof (induction "is")
  case (Cons i "is")
  then have i: "i \<in> set (child_indices (m_files m) d)" by simp
  then have "i < length (m_files m)" by (rule child_indices_lt)
  then show ?case
    using Cons index_of_child [OF e wf i]
    by (simp add: Let_def file_node_def e get_at_def meta_of_def del: of_nat_Suc)
qed simp

lemma snapshot_dir_eq:
  assumes e: "se_snapshot entry = depot_store_new m ch" and wf: "wf_files (m_files m)"
    and u: "unpack i = (sid, idx)" and p: "path_within_snapshot entry idx = Some d"
  shows "snapshot_dir api entry i =
    (if child_indices (m_files m) d = [] then Err ()
     else Ok (sort_key fst (map (\<lambda>i. (entry_name (m_files m ! i), file_node api entry sid i))
       (child_indices (m_files m) d))))"
proof -
  have "(if d = [] \<or> d = ''/'' then [] else strip_leading_slash d) = d"
  proof (cases "d = []")
    case False
    with p have "d \<in> f_path ` set (m_files m)"
      by (auto simp: path_within_snapshot_def e get_at_Some_iff split: if_splits option.splits)
    then have "wf_path d" using wf by (auto simp: wf_files_def list_all_iff)
    then show ?thesis using wf_path_no_lead by simp
  qed simp
  then have "list_dir api (se_snapshot entry) d = (if child_indices (m_files m) d = []
      then Err (not_found_error (se_snapshot entry) d d)
      else Ok (map (\<lambda>i. \<lparr>e_name = entry_name (m_files m ! i), e_meta = meta_of api (m_files m ! i)\<rparr>)
        (child_indices (m_files m) d)))"
    unfolding e list_dir_new Let_def by simp
  then show ?thesis
    using snapshot_entries_eq [OF e wf order_refl] by (simp add: snapshot_dir_def u p)
qed

definition snapshot_listing ::
  "depot_api \<Rightarrow> 's snapshot_entry \<times> ino \<Rightarrow> (string \<times> node) list option" where
  "snapshot_listing api d = (case snapshot_dir api (fst d) (snd d) of Ok es \<Rightarrow> Some es | _ \<Rightarrow> None)"

lemma path_of_file_node:
  assumes "entry_wf api entry" and "i < length (m_files (ds_manifest (se_snapshot entry)))"
  shows "n_ino (file_node api entry sid i) = pack sid (word_of_nat (Suc i))"
    and "unpack (pack sid (word_of_nat (Suc i))) = (sid, word_of_nat (Suc i))"
    and "unat (word_of_nat (Suc i) :: u64) = Suc i"
proof -
  have "Suc i < 2 ^ 48" using assms by (auto simp: entry_wf_def)
  then show "unpack (pack sid (word_of_nat (Suc i))) = (sid, word_of_nat (Suc i))"
    "unat (word_of_nat (Suc i) :: u64) = Suc i"
    by (rule unpack_file, simp only: unat_nat48)
qed (simp add: file_node_def Let_def)

lemma child_path_parts:
  assumes n: "plain_name n" and d: "d = [] \<or> wf_path d"
  shows "strip_leading_slash (child_path d n) = child_path d n" and "parent_key (child_path d n) = d"
    and "path_file_name (child_path d n) = Some n"
proof -
  have no: "CHR ''/'' \<notin> set n" "n \<noteq> []" using n by (auto simp: plain_name_def)
  have "str_rfind (CHR ''/'') n = None" using no by (simp add: str_rfind_None_iff)
  then show "parent_key (child_path d n) = d"
    using no by (simp add: child_path_def parent_key_def parent_of_def str_rfind_append)
  show "path_file_name (child_path d n) = Some n"
    using n by (simp add: child_path_def path_file_name_append path_file_name_plain)
  show "strip_leading_slash (child_path d n) = child_path d n"
  proof (cases d)
    case Nil
    then show ?thesis using no by (cases n) (auto simp: child_path_def strip_leading_slash_def)
  next
    case (Cons x xs)
    then have "x \<noteq> CHR ''/''" using d wf_path_no_lead(1) [of d] by (auto simp: strip_leading_slash_def split: if_splits)
    then show ?thesis using Cons by (simp add: child_path_def strip_leading_slash_def)
  qed
qed

lemma dir_path_wf:
  assumes "se_snapshot entry = depot_store_new m ch" and "wf_files (m_files m)"
    and "path_within_snapshot entry idx = Some d"
  shows "d = [] \<or> wf_path d"
  using assms by (auto simp: path_within_snapshot_def get_at_Some_iff wf_files_def list_all_length
      split: if_splits option.splits)

lemma snapshot_child_new:
  assumes e: "se_snapshot entry = depot_store_new m ch" and wf: "wf_files (m_files m)"
    and len: "length (m_files m) + 1 < 2 ^ 48"
    and u: "unpack i = (sid, idx)" and p: "path_within_snapshot entry idx = Some d"
    and n: "plain_name n"
  shows "snapshot_child api entry i n = Some nd \<longleftrightarrow>
    (\<exists>k \<in> set (child_indices (m_files m) d). n = entry_name (m_files m ! k) \<and> nd = file_node api entry sid k)"
proof -
  note parts = child_path_parts [OF n dir_path_wf [OF e wf p]]
  have d: "index_of (se_snapshot entry) (join d n) = Some k \<longleftrightarrow>
      k \<in> set (child_indices (m_files m) d) \<and> n = entry_name (m_files m ! k)" for k
  proof -
    have "index_of (se_snapshot entry) (join d n) = Some k \<longleftrightarrow>
        k < length (m_files m) \<and> f_path (m_files m ! k) = child_path d n"
      using wf parts(1) by (simp add: index_of_def e wf_files_def by_path_distinct join_child_path)
    also have "\<dots> \<longleftrightarrow> k \<in> set (child_indices (m_files m) d) \<and> n = entry_name (m_files m ! k)"
      using parts(2,3) wf wf_path_entry_name [of "m_files m ! k"]
      by (auto simp: child_indices_def entry_name_def wf_files_def list_all_length)
    finally show ?thesis .
  qed
  have nd: "snapshot_node api entry (pack sid (word_of_nat (Suc k))) = Some (file_node api entry sid k)"
    if "k \<in> set (child_indices (m_files m) d)" for k
    using child_indices_lt [OF that] len by (intro snapshot_node_at) (auto simp: e)
  show ?thesis
  proof (cases "index_of (se_snapshot entry) (join d n)")
    case None
    then show ?thesis using d by (auto simp: snapshot_child_def u p)
  next
    case (Some k)
    then have k: "k \<in> set (child_indices (m_files m) d)" "n = entry_name (m_files m ! k)" using d by auto
    have uniq: "k' = k" if "k' \<in> set (child_indices (m_files m) d)" "n = entry_name (m_files m ! k')" for k'
      using d [of k'] that Some by simp
    have "snapshot_child api entry i n = Some (file_node api entry sid k)"
      using Some nd [OF k(1)] by (simp add: snapshot_child_def u p del: of_nat_Suc)
    then show ?thesis using k uniq by (metis option.inject)
  qed
qed

definition snapshot_good :: "depot_api \<Rightarrow> 's snapshot_entry \<times> ino \<Rightarrow> bool" where
  "snapshot_good api d \<longleftrightarrow> entry_wf api (fst d)"

interpretation snap: directory_view
  "snapshot_listing api" "\<lambda>d. snapshot_child api (fst d) (snd d)" "snapshot_good api" for api
proof
  fix d :: "'a snapshot_entry \<times> ino" and es
  assume good: "snapshot_good api d" and l: "snapshot_listing api d = Some es"
  obtain entry i where d: "d = (entry, i)" by fastforce
  obtain m ch where e: "se_snapshot entry = depot_store_new m ch" and wf: "wf_files (m_files m)"
    and len: "length (m_files m) + 1 < 2 ^ 48"
    using good by (auto simp: snapshot_good_def entry_wf_def d)
  obtain sid idx where u: "unpack i = (sid, idx)" by fastforce
  obtain p where p: "path_within_snapshot entry idx = Some p"
    using l by (auto simp: snapshot_listing_def d snapshot_dir_def u split: option.splits)
  let ?is = "child_indices (m_files m) p"
  let ?xs = "map (\<lambda>k. (entry_name (m_files m ! k), file_node api entry sid k)) ?is"
  have es: "es = sort_key fst ?xs"
    using l snapshot_dir_eq [OF e wf u p] by (simp add: snapshot_listing_def d split: if_splits)
  have dx: "distinct (map fst ?xs)"
    using entry_names_distinct [OF wf, of p] by (simp add: comp_def)
  show "sorted (map fst es) \<and> distinct (map fst es)"
    unfolding es using sort_key_listing(1,2) [OF dx] by blast
  have plain: "plain_name (entry_name (m_files m ! k))" if "k \<in> set ?is" for k
  proof -
    have "wf_path (f_path (m_files m ! k))"
      using wf child_indices_lt [OF that] by (simp add: wf_files_def list_all_length)
    then show ?thesis by (rule wf_path_cases) (simp add: entry_name_def)
  qed
  then show "list_all plain_name (map fst es)" by (auto simp: es list_all_iff)
  show "map_of es n = snapshot_child api (fst d) (snd d) n" if "plain_name n" for n
  proof -
    have "map_of es n = Some nd \<longleftrightarrow> snapshot_child api (fst d) (snd d) n = Some nd" for nd
    proof -
      have "map_of ?xs n = Some nd \<longleftrightarrow> (n, nd) \<in> set ?xs" using dx by (rule map_of_eq_Some_iff)
      also have "\<dots> \<longleftrightarrow> (\<exists>k \<in> set ?is. n = entry_name (m_files m ! k) \<and> nd = file_node api entry sid k)"
        by auto
      also have "\<dots> \<longleftrightarrow> snapshot_child api entry i n = Some nd"
        by (rule snapshot_child_new [OF e wf len u p that, symmetric])
      finally show ?thesis unfolding es sort_key_listing(3) [OF dx] by (simp add: d)
    qed
    then show ?thesis by (metis option.exhaust)
  qed
  have ew: "entry_wf api entry" using e wf len by (auto simp: entry_wf_def)
  have lt: "k < length (m_files (ds_manifest (se_snapshot entry)))" if "k \<in> set ?is" for k
    using child_indices_lt [OF that] by (simp add: e)
  note f = path_of_file_node [OF ew lt]
  have "inj_on (\<lambda>k. n_ino (file_node api entry sid k)) (set ?is)"
  proof (rule inj_onI)
    fix x y assume xy: "x \<in> set ?is" "y \<in> set ?is"
      and "n_ino (file_node api entry sid x) = n_ino (file_node api entry sid y)"
    then have "pack sid (word_of_nat (Suc x)) = pack sid (word_of_nat (Suc y))"
      using f(1) [OF xy(1)] f(1) [OF xy(2)] by simp
    then have "(sid, word_of_nat (Suc x) :: u64) = (sid, word_of_nat (Suc y))"
      using f(2) [OF xy(1)] f(2) [OF xy(2)] by metis
    then have "unat (word_of_nat (Suc x) :: u64) = unat (word_of_nat (Suc y) :: u64)" by simp
    then show "x = y" unfolding f(3) [OF xy(1)] f(3) [OF xy(2)] by simp
  qed
  then have "distinct (map (\<lambda>e. n_ino (snd e)) ?xs)"
    by (simp add: comp_def distinct_map child_indices_def)
  then have "distinct (map (\<lambda>e. n_ino (snd e)) es)"
    unfolding es using sort_key_listing(4) [OF dx, of n_ino] by simp
  moreover have "n_ino (file_node api entry sid k) \<noteq> 0" if "k \<in> set ?is" for k
  proof
    assume "n_ino (file_node api entry sid k) = 0"
    then have "unpack (0 :: u64) = (sid, word_of_nat (Suc k))" using f(1,2) [OF that] by metis
    then have "(word_of_nat (Suc k) :: u64) = 0" using unpack_pack_root [of 0] by (simp del: of_nat_Suc)
    then show False using f(3) [OF that] by (metis nat.distinct(1) unat_0)
  qed
  ultimately show "distinct (map (\<lambda>e. n_ino (snd e)) es) \<and> (\<forall>e \<in> set es. n_ino (snd e) \<noteq> 0)"
    by (auto simp: es)
qed

section \<open>A small snapshot\<close>

text \<open>Two files in the root, listed out of order; the witnesses of the back ends serve it.\<close>

definition demo_two :: manifest where
  "demo_two = \<lparr>m_depot_id = 1, m_manifest_id = 2, m_creation_time = 3, m_size_uncompressed = 0,
     m_size_compressed = 0,
     m_files = [\<lparr>f_path = ''b'', f_size = 0, f_kind = File (FileHash []) True []\<rparr>,
                \<lparr>f_path = ''a'', f_size = 0, f_kind = Symlink ''b''\<rparr>]\<rparr>"

definition demo_entry :: "unit snapshot_entry" where
  "demo_entry = \<lparr>se_snapshot = depot_store_new demo_two no_chunks\<rparr>"

lemma demo_two_wf: "wf_files (m_files demo_two)"
  by (simp add: demo_two_def wf_files_def wf_path_def split_on.simps plain_name_def)

lemma demo_two_children: "child_indices (m_files demo_two) [] = [0, 1]"
  by code_simp

lemma demo_entry_wf: "entry_wf api demo_entry"
  unfolding entry_wf_def using demo_two_wf
  by (auto simp: demo_entry_def demo_two_def)

section \<open>Properties of the view\<close>

text \<open>
  What a directory of a snapshot lists is what the ids lead to: the id of each entry is
  served with the same attributes as the entry, its path is the directory's path with the name
  appended, and looking the name up again gives the same node.
\<close>

theorem snapshot_dir_consistent:
  assumes "entry_wf api entry" and "snapshot_dir api entry i = Ok es" and "(n, nd) \<in> set es"
  shows "snapshot_child api entry i n = Some nd \<and> snapshot_node api entry (n_ino nd) = Some nd \<and>
    fst (unpack (n_ino nd)) = fst (unpack i) \<and>
    path_within_snapshot entry (snd (unpack (n_ino nd))) =
      map_option (\<lambda>d. join d n) (path_within_snapshot entry (snd (unpack i)))"
proof -
  obtain m ch where e: "se_snapshot entry = depot_store_new m ch" and wf: "wf_files (m_files m)"
    and len: "length (m_files m) + 1 < 2 ^ 48"
    using assms(1) by (auto simp: entry_wf_def)
  obtain sid idx where u: "unpack i = (sid, idx)" by fastforce
  obtain d where d: "path_within_snapshot entry idx = Some d"
    using assms(2) by (auto simp: snapshot_dir_def u split: option.splits)
  from assms(2,3) snapshot_dir_eq [OF e wf u d, of api] obtain k where
    k: "k \<in> set (child_indices (m_files m) d)" and n: "n = entry_name (m_files m ! k)"
    and nd: "nd = file_node api entry sid k" by (auto split: if_splits)
  have lt: "k < length (m_files (ds_manifest (se_snapshot entry)))" using child_indices_lt [OF k] by (simp add: e)
  note f = path_of_file_node [OF assms(1) lt]
  have wfp: "wf_path (f_path (m_files m ! k))"
    using wf child_indices_lt [OF k] by (simp add: wf_files_def list_all_length)
  have "plain_name n" using wfp by (rule wf_path_cases) (simp add: n entry_name_def)
  then have "snapshot_child api entry i n = Some nd"
    using snapshot_child_new [OF e wf len u d, of n api nd] k n nd by blast
  moreover have "snapshot_node api entry (n_ino nd) = Some nd"
    using snapshot_node_at [OF lt] len lt by (simp add: nd f(1) e del: of_nat_Suc)
  moreover have "path_within_snapshot entry (word_of_nat (Suc k)) = Some (join d n)"
  proof -
    have "join d n = f_path (m_files m ! k)"
      using wf_path_entry_name [OF wfp] k by (simp add: join_child_path n child_indices_def)
    moreover have "(word_of_nat (Suc k) :: u64) \<noteq> 0" using f(3) by (metis nat.distinct(1) unat_0)
    ultimately show ?thesis
      using lt by (simp add: path_within_snapshot_def checked_sub_def f(3) get_at_def e del: of_nat_Suc)
  qed
  ultimately show ?thesis by (simp add: nd f(1,2) u d del: of_nat_Suc)
qed

theorem snapshot_dir_consistent_witness:
  "snapshot_child std_depot_api demo_entry (pack 1 0) ''a'' = Some (file_node std_depot_api demo_entry 1 1)"
proof -
  have "snapshot_dir std_depot_api demo_entry (pack 1 0) = Ok (sort_key fst
      (map (\<lambda>i. (entry_name (m_files demo_two ! i), file_node std_depot_api demo_entry 1 i)) [0, 1]))"
    using snapshot_dir_eq [of demo_entry demo_two no_chunks "pack 1 0" 1 0 "[]" std_depot_api]
    by (simp add: demo_entry_def demo_two_wf demo_two_children path_within_snapshot_def)
  moreover have "entry_name (m_files demo_two ! 1) = ''a''" by code_simp
  ultimately show ?thesis
    using snapshot_dir_consistent [OF demo_entry_wf, of std_depot_api "pack 1 0" _ "''a''" "file_node std_depot_api demo_entry 1 1"]
    by simp
qed

end
