(* ===== verification/Nfs.thy ===== *)
theory Nfs
  imports View
begin

text \<open>
  \<open>nfs.rs\<close>: the NFSv3 server over the mount.  An operation is a function of the mount's state;
  a panic inside one is turned into an I/O error by \<open>caught\<close>.
\<close>

datatype nfsstat3 =
  NFS3ERR_IO | NFS3ERR_NOENT | NFS3ERR_ISDIR | NFS3ERR_INVAL | NFS3ERR_ROFS

datatype ftype3 = NF3REG | NF3DIR | NF3LNK

record fattr3 =
  fa_ftype :: ftype3
  fa_mode :: u32
  fa_nlink :: u32
  fa_uid :: u32
  fa_gid :: u32
  fa_size :: u64
  fa_used :: u64
  fa_fileid :: u64
  fa_mtime :: u32

definition div_ceil :: "u64 \<Rightarrow> u64 \<Rightarrow> u64" where
  "div_ceil a b = (if a mod b = 0 then a div b else a div b + 1)"

definition nfs_attr_of :: "node \<Rightarrow> fattr3" where
  "nfs_attr_of nd =
     (case (case n_kind nd of
              NDir \<Rightarrow> (NF3DIR, 0x16D, 2)
            | NFile x \<Rightarrow> (NF3REG, if x then 0x16D else 0x124, 1)
            | NSymlink _ \<Rightarrow> (NF3LNK, 0x1FF, 1)) of
        (ftype, mode, nlink) \<Rightarrow>
          \<lparr>fa_ftype = ftype, fa_mode = mode, fa_nlink = nlink, fa_uid = 0, fa_gid = 0,
           fa_size = n_size nd, fa_used = div_ceil (n_size nd) 512 * 512, fa_fileid = n_ino nd,
           fa_mtime = n_mtime_secs nd\<rparr>)"

type_synonym ('s, 'o, 'w, 'a) nfs_op =
  "('s, 'o, 'w) mount_world \<Rightarrow> (nfsstat3, 'a) outcome \<times> ('s, 'o, 'w) mount_world"

definition caught :: "('s, 'o, 'w, 'a) nfs_op \<Rightarrow> ('s, 'o, 'w, 'a) nfs_op" where
  "caught f mw = (case f mw of (Panic, mw') \<Rightarrow> (Err NFS3ERR_IO, mw') | (r, mw') \<Rightarrow> (r, mw'))"

definition nfs_snapshot_of ::
  "('s, 'o, 'w) opener_env \<Rightarrow> sid \<Rightarrow> ('s, 'o, 'w, 's snapshot_entry) nfs_op" where
  "nfs_snapshot_of env sid mw =
     (case slot_lookup (mw_tree mw) sid of
        SlReady entry \<Rightarrow> (Ok entry, mw)
      | SlPending lz \<Rightarrow>
          (case resolve env lz (SnapshotId sid) mw of (r, mw') \<Rightarrow> (omap_err (\<lambda>_. NFS3ERR_IO) r, mw'))
      | SlMissing \<Rightarrow> (Err NFS3ERR_NOENT, mw))"

definition nfs_node ::
  "('s, 'o, 'w) opener_env \<Rightarrow> depot_api \<Rightarrow> ino \<Rightarrow> ('s, 'o, 'w, node) nfs_op" where
  "nfs_node env api i mw =
     (case unpack i of (sid, idx) \<Rightarrow>
        if sid = SYNTHETIC then (ok_or (synthetic_node (mw_tree mw) i) NFS3ERR_NOENT, mw)
        else if idx = 0 then
          (if slot_at (mw_tree mw) sid = None then (Err NFS3ERR_NOENT, mw)
           else (Ok \<lparr>n_ino = i, n_kind = NDir, n_size = 0,
                     n_mtime_secs = slot_mtime (mw_tree mw) sid\<rparr>, mw))
        else
          (case nfs_snapshot_of env sid mw of
             (Ok entry, mw') \<Rightarrow> (ok_or (snapshot_node api entry i) NFS3ERR_NOENT, mw')
           | (Err e, mw') \<Rightarrow> (Err e, mw')
           | (Panic, mw') \<Rightarrow> (Panic, mw')))"

text \<open>A file name arrives as bytes; \<open>utf8\<close> is \<open>str::from_utf8\<close>, and a \<open>str\<close> is its bytes.\<close>

definition nfs_lookup_inner ::
  "('s, 'o, 'w) opener_env \<Rightarrow> depot_api \<Rightarrow> (string \<Rightarrow> bool) \<Rightarrow> ino \<Rightarrow> string \<Rightarrow>
     ('s, 'o, 'w, ino) nfs_op" where
  "nfs_lookup_inner env api utf8 dirid name mw =
     (if \<not> utf8 name then (Err NFS3ERR_NOENT, mw)
      else
        let sid = fst (unpack dirid) in
        if sid = SYNTHETIC then
          (ok_or (map_option n_ino (synthetic_child (mw_tree mw) dirid name)) NFS3ERR_NOENT, mw)
        else
          (case nfs_snapshot_of env sid mw of
             (Ok entry, mw') \<Rightarrow>
               (ok_or (map_option n_ino (snapshot_child api entry dirid name)) NFS3ERR_NOENT, mw')
           | (Err e, mw') \<Rightarrow> (Err e, mw')
           | (Panic, mw') \<Rightarrow> (Panic, mw')))"

definition nfs_read_inner ::
  "('s, 'o, 'w) opener_env \<Rightarrow> depot_api \<Rightarrow> ino \<Rightarrow> u64 \<Rightarrow> u32 \<Rightarrow> ('s, 'o, 'w, bytes \<times> bool) nfs_op" where
  "nfs_read_inner env api i offset count mw =
     (case unpack i of (sid, idx) \<Rightarrow>
        if sid = SYNTHETIC then (Err NFS3ERR_ISDIR, mw)
        else
          (case checked_sub (unat idx) 1 of
             None \<Rightarrow> (Err NFS3ERR_ISDIR, mw)
           | Some file_idx \<Rightarrow>
               (case nfs_snapshot_of env sid mw of
                  (Err e, mw') \<Rightarrow> (Err e, mw')
                | (Panic, mw') \<Rightarrow> (Panic, mw')
                | (Ok entry, mw') \<Rightarrow>
                    (case get_at (m_files (ds_manifest (se_snapshot entry))) file_idx of
                       None \<Rightarrow> (Err NFS3ERR_NOENT, mw')
                     | Some file \<Rightarrow>
                         (let size = f_size file in
                          if offset \<ge> size then (Ok ([], True), mw')
                          else
                            (let len = min (ucast count) (size - offset) in
                             case read_into api (se_snapshot entry) (f_path file) offset len []
                                    (mw_chunks mw') of
                               (Ok _, buf, s') \<Rightarrow>
                                 (Ok (buf, offset + len64 buf \<ge> size), mw'\<lparr>mw_chunks := s'\<rparr>)
                             | (Err _, buf, s') \<Rightarrow> (Err NFS3ERR_IO, mw'\<lparr>mw_chunks := s'\<rparr>)
                             | (Panic, buf, s') \<Rightarrow> (Panic, mw'\<lparr>mw_chunks := s'\<rparr>)))))))"

text \<open>The page of a listing after a cookie: shared by every directory.\<close>

definition readdir_skip :: "(string \<times> node) list \<Rightarrow> ino \<Rightarrow> nat" where
  "readdir_skip entries start_after =
     (if start_after = 0 then 0
      else (let i = length (takeWhile (\<lambda>e. n_ino (snd e) \<noteq> start_after) entries) in
            if i = length entries then 0 else i + 1))"

definition readdir_page ::
  "(string \<times> node) list \<Rightarrow> ino \<Rightarrow> nat \<Rightarrow> (ino \<times> string \<times> fattr3) list \<times> bool" where
  "readdir_page entries start_after max_entries =
     (let skip = readdir_skip entries start_after;
          page = map (\<lambda>(name, nd). (n_ino nd, name, nfs_attr_of nd)) (take max_entries (drop skip entries))
      in (page, skip + length page \<ge> length entries))"

definition nfs_readdir_inner ::
  "('s, 'o, 'w) opener_env \<Rightarrow> depot_api \<Rightarrow> ino \<Rightarrow> ino \<Rightarrow> nat \<Rightarrow>
     ('s, 'o, 'w, (ino \<times> string \<times> fattr3) list \<times> bool) nfs_op" where
  "nfs_readdir_inner env api dirid start_after max_entries mw =
     (let sid = fst (unpack dirid) in
      if sid = SYNTHETIC then
        (omap (\<lambda>es. readdir_page es start_after max_entries)
           (ok_or (synthetic_dir_entries (mw_tree mw) dirid) NFS3ERR_NOENT), mw)
      else
        (case nfs_snapshot_of env sid mw of
           (Ok entry, mw') \<Rightarrow>
             (omap (\<lambda>es. readdir_page es start_after max_entries)
                (omap_err (\<lambda>_. NFS3ERR_NOENT) (snapshot_dir api entry dirid)), mw')
         | (Err e, mw') \<Rightarrow> (Err e, mw')
         | (Panic, mw') \<Rightarrow> (Panic, mw')))"

section \<open>The served operations\<close>

definition nfs_root_dir :: ino where
  "nfs_root_dir = ROOT"

definition nfs_lookup where
  "nfs_lookup env api utf8 dirid name = caught (nfs_lookup_inner env api utf8 dirid name)"

definition nfs_getattr where
  "nfs_getattr env api i =
     caught (\<lambda>mw. case nfs_node env api i mw of (r, mw') \<Rightarrow> (omap nfs_attr_of r, mw'))"

definition nfs_read where
  "nfs_read env api i offset count = caught (nfs_read_inner env api i offset count)"

definition nfs_readdir where
  "nfs_readdir env api dirid start_after max_entries =
     caught (nfs_readdir_inner env api dirid start_after max_entries)"

definition nfs_readlink ::
  "('s, 'o, 'w) opener_env \<Rightarrow> depot_api \<Rightarrow> ino \<Rightarrow> ('s, 'o, 'w, string) nfs_op" where
  "nfs_readlink env api i =
     caught (\<lambda>mw. case nfs_node env api i mw of
        (Ok nd, mw') \<Rightarrow> (case n_kind nd of NSymlink target \<Rightarrow> (Ok target, mw') | _ \<Rightarrow> (Err NFS3ERR_INVAL, mw'))
      | (Err e, mw') \<Rightarrow> (Err e, mw')
      | (Panic, mw') \<Rightarrow> (Panic, mw'))"

text \<open>The operations that would change the file system, and the one answer to them all.\<close>

datatype nfs_write_op =
    OpSetattr ino
  | OpWrite ino u64 bytes
  | OpCreate ino string
  | OpCreateExclusive ino string
  | OpMkdir ino string
  | OpRemove ino string
  | OpRename ino string ino string
  | OpSymlink ino string string

definition nfs_modify :: "nfs_write_op \<Rightarrow> ('s, 'o, 'w, 'a) nfs_op" where
  "nfs_modify op mw =
     (case op of
        OpSetattr _ \<Rightarrow> (Err NFS3ERR_ROFS, mw)
      | OpWrite _ _ _ \<Rightarrow> (Err NFS3ERR_ROFS, mw)
      | OpCreate _ _ \<Rightarrow> (Err NFS3ERR_ROFS, mw)
      | OpCreateExclusive _ _ \<Rightarrow> (Err NFS3ERR_ROFS, mw)
      | OpMkdir _ _ \<Rightarrow> (Err NFS3ERR_ROFS, mw)
      | OpRemove _ _ \<Rightarrow> (Err NFS3ERR_ROFS, mw)
      | OpRename _ _ _ _ \<Rightarrow> (Err NFS3ERR_ROFS, mw)
      | OpSymlink _ _ _ \<Rightarrow> (Err NFS3ERR_ROFS, mw))"

section \<open>Paging\<close>

text \<open>
  A client that reads a directory page by page, each time with the id of the last entry it got:
  the loop \<open>nfsserve\<close> and the NFS client run between them.
\<close>

fun read_pages ::
  "nat \<Rightarrow> (string \<times> node) list \<Rightarrow> nat \<Rightarrow> ino \<Rightarrow> (ino \<times> string \<times> fattr3) list option" where
  "read_pages 0 es m cookie = None"
| "read_pages (Suc fuel) es m cookie =
     (case readdir_page es cookie m of (page, done) \<Rightarrow>
        if done then Some page
        else if page = [] then None
        else map_option (\<lambda>rest. page @ rest) (read_pages fuel es m (fst (last page))))"

definition nfs_row :: "string \<times> node \<Rightarrow> ino \<times> string \<times> fattr3" where
  "nfs_row e = (n_ino (snd e), fst e, nfs_attr_of (snd e))"

lemma takeWhile_id_at:
  assumes "distinct (map (\<lambda>e. n_ino (snd e)) es)" and "k < length es"
  shows "length (takeWhile (\<lambda>e. n_ino (snd e) \<noteq> n_ino (snd (es ! k))) es) = k"
proof -
  have "n_ino (snd (es ! j)) \<noteq> n_ino (snd (es ! k))" if "j < k" for j
    using assms that nth_eq_iff_index_eq [OF assms(1), of j k] by auto
  then have "takeWhile (\<lambda>e. n_ino (snd e) \<noteq> n_ino (snd (es ! k))) es = take k es"
    by (intro takeWhile_eq_take_P_nth) simp_all
  then show ?thesis using assms(2) by simp
qed

lemma readdir_skip_at:
  assumes d: "distinct (map (\<lambda>e. n_ino (snd e)) es)" and nz: "\<forall>e \<in> set es. n_ino (snd e) \<noteq> 0"
    and k: "k < length es"
  shows "readdir_skip es (n_ino (snd (es ! k))) = Suc k"
  using takeWhile_id_at [OF d k] nz k by (simp add: readdir_skip_def Let_def)

lemma readdir_page_at:
  "readdir_page es c m =
     (map nfs_row (take m (drop (readdir_skip es c) es)),
      length es \<le> readdir_skip es c + min (length es - readdir_skip es c) m)"
  by (simp add: readdir_page_def nfs_row_def Let_def case_prod_beta)

lemma read_pages_from:
  assumes d: "distinct (map (\<lambda>e. n_ino (snd e)) es)" and nz: "\<forall>e \<in> set es. n_ino (snd e) \<noteq> 0"
    and m: "0 < m"
  shows "readdir_skip es c = k \<Longrightarrow> k \<le> length es \<Longrightarrow> length es - k < fuel \<Longrightarrow>
    read_pages fuel es m c = Some (map nfs_row (drop k es))"
proof (induction fuel arbitrary: c k)
  case (Suc fuel)
  show ?case
  proof (cases "length es \<le> k + m")
    case True
    then have "readdir_page es c m = (map nfs_row (drop k es), True)"
      using Suc.prems(1,2) by (simp add: readdir_page_at)
    then show ?thesis by (simp only: read_pages.simps prod.case if_True)
  next
    case False
    then have lt: "k + m - 1 < length es" by simp
    let ?page = "take m (drop k es)"
    have len: "length ?page = m" using False by simp
    then have ne: "?page \<noteq> []" using m by (metis length_0_conv less_numeral_extra(3))
    have "last ?page = ?page ! (m - 1)" using last_conv_nth [OF ne] len by simp
    also have "\<dots> = es ! (k + m - 1)" using m lt by simp
    finally have last: "fst (last (map nfs_row ?page)) = n_ino (snd (es ! (k + m - 1)))"
      by (simp only: last_map [OF ne] nfs_row_def fst_conv)
    have "readdir_skip es (n_ino (snd (es ! (k + m - 1)))) = k + m"
      using readdir_skip_at [OF d nz lt] m by simp
    moreover have "k + m \<le> length es" "length es - (k + m) < fuel" using False Suc.prems(3) m by linarith+
    ultimately have "read_pages fuel es m (n_ino (snd (es ! (k + m - 1)))) = Some (map nfs_row (drop (k + m) es))"
      by (rule Suc.IH)
    moreover have "map nfs_row ?page @ map nfs_row (drop (k + m) es) = map nfs_row (drop k es)"
    proof -
      have "drop (k + m) es = drop m (drop k es)" by (simp add: add.commute)
      then show ?thesis by (simp only: append_take_drop_id flip: map_append)
    qed
    moreover have "readdir_page es c m = (map nfs_row ?page, False)"
      using False Suc.prems(1) by (simp add: readdir_page_at)
    moreover have "map nfs_row ?page \<noteq> []" using ne by simp
    ultimately show ?thesis using last by (simp only: read_pages.simps prod.case if_False option.map)
  qed
qed simp

context directory_view
begin

lemma paging:
  assumes "good d" and "listing d = Some es" and "0 < m"
  shows "read_pages (Suc (length es)) es m 0 = Some (map nfs_row es)"
  using read_pages_from [of es m 0 0 "Suc (length es)"] listing_ids [OF assms(1,2)] assms(3)
  by (simp add: readdir_skip_def)

end

section \<open>Properties of the server\<close>

text \<open>
  C13: Reading a directory of a snapshot page by page over NFS, with pages of any positive size,
  gives each of its entries exactly once, sorted by name; each entry carries the id and the
  attributes that a lookup of its name gives.
\<close>

theorem nfs_paging_complete:
  assumes "entry_wf api entry" and "snapshot_dir api entry i = Ok es" and "0 < m"
  shows "read_pages (Suc (length es)) es m 0 = Some (map nfs_row es) \<and>
    sorted (map fst es) \<and> distinct (map fst es) \<and>
    (\<forall>n nd. (n, nd) \<in> set es \<longleftrightarrow> plain_name n \<and> snapshot_child api entry i n = Some nd)"
proof -
  have g: "snapshot_good api (entry, i)" and l: "snapshot_listing api (entry, i) = Some es"
    using assms(1,2) by (simp_all add: snapshot_good_def snapshot_listing_def)
  show ?thesis
    using snap.paging [OF g l assms(3)] snap.listing_sorted [OF g l] snap.listed_iff [OF g l] by simp
qed

theorem nfs_paging_complete_witness:
  "\<exists>es. snapshot_dir std_depot_api demo_entry (pack 1 0) = Ok es \<and>
     read_pages (Suc (length es)) es 1 0 = Some (map nfs_row es)"
proof -
  have e: "entry_wf std_depot_api demo_entry" by (rule demo_entry_wf)
  obtain es where es: "snapshot_dir std_depot_api demo_entry (pack 1 0) = Ok es"
    using snapshot_dir_eq [of demo_entry demo_two no_chunks "pack 1 0" 1 0 "[]" std_depot_api]
    by (simp add: demo_entry_def demo_two_wf demo_two_children path_within_snapshot_def)
  from nfs_paging_complete [OF e es, of 1] es show ?thesis by simp
qed

text \<open>
  The same for the directories of the mount prefix: root, apps and depots.
\<close>

theorem nfs_prefix_paging_complete:
  assumes "tree_ok t" and "fst (unpack i) = SYNTHETIC" and "synthetic_dir_entries t i = Some es"
    and "0 < m"
  shows "read_pages (Suc (length es)) es m 0 = Some (map nfs_row es) \<and>
    sorted (map fst es) \<and> distinct (map fst es) \<and>
    (\<forall>n nd. (n, nd) \<in> set es \<longleftrightarrow> plain_name n \<and> synthetic_child t i n = Some nd)"
proof -
  have g: "synthetic_good (t, i)" using assms(1,2) by (simp add: synthetic_good_def)
  have l: "synthetic_dir_entries (fst (t, i)) (snd (t, i)) = Some es" using assms(3) by simp
  show ?thesis
    using synth.paging [OF g l assms(4)] synth.listing_sorted [OF g l] synth.listed_iff [OF g l] by simp
qed

theorem nfs_prefix_paging_complete_witness:
  "read_pages 1 [] 4 0 = Some (map nfs_row [])"
proof -
  have ok: "tree_ok (mount_tree_new :: (unit, unit) mount_tree)" using tree_wf_new by (auto simp: tree_ok_def)
  have "unpack ROOT = (0, 1)" using unpack_pack [of 1 0] by (simp add: ROOT_def)
  then have u: "fst (unpack ROOT) = SYNTHETIC" by (simp add: SYNTHETIC_def)
  have l: "synthetic_dir_entries (mount_tree_new :: (unit, unit) mount_tree) ROOT = Some []"
    using \<open>unpack ROOT = (0, 1)\<close>
    by (simp add: synthetic_dir_entries_def synthetic_def SYNTHETIC_def mount_tree_new_def get_at_def)
  show ?thesis using nfs_prefix_paging_complete [OF ok u l, of 4] by simp
qed

text \<open>
  The served file system is read-only, and asking never changes what is mounted: the
  operations that would modify it are refused and leave the state as it is; a getattr of a
  snapshot's root answers without opening the snapshot.
\<close>

theorem nfs_read_only:
  "nfs_modify op mw = (Err NFS3ERR_ROFS, mw) \<and>
   nfs_getattr env api (pack s 0) mw =
     (if s = SYNTHETIC then (omap nfs_attr_of (ok_or (synthetic_node (mw_tree mw) 0) NFS3ERR_NOENT), mw)
      else if slot_at (mw_tree mw) s = None then (Err NFS3ERR_NOENT, mw)
      else (Ok (nfs_attr_of (dir_node (pack s 0) (slot_mtime (mw_tree mw) s))), mw))"
proof
  show "nfs_modify op mw = (Err NFS3ERR_ROFS, mw)" by (simp add: nfs_modify_def split: nfs_write_op.split)
  show "nfs_getattr env api (pack s 0) mw =
     (if s = SYNTHETIC then (omap nfs_attr_of (ok_or (synthetic_node (mw_tree mw) 0) NFS3ERR_NOENT), mw)
      else if slot_at (mw_tree mw) s = None then (Err NFS3ERR_NOENT, mw)
      else (Ok (nfs_attr_of (dir_node (pack s 0) (slot_mtime (mw_tree mw) s))), mw))"
    by (cases "synthetic_node (mw_tree mw) 0")
      (auto simp: nfs_getattr_def caught_def nfs_node_def dir_node_def SYNTHETIC_def)
qed

end
