(* ===== verification/Fuse.thy ===== *)
theory Fuse
  imports View
begin

text \<open>
  \<open>fuse.rs\<close>: the FUSE server over the mount.  A reply object is the value of the operation; the
  directory reply is the list of entries added before its buffer was full, whose capacity is
  the parameter \<open>full\<close>: \<open>add\<close> of a name to a reply either puts the entry in, or leaves it out
  and answers that the buffer is full.
\<close>

datatype errno = ENOENT | EIO | EISDIR

datatype fuse_file_type = FuseDirectory | FuseRegularFile

record file_attr =
  at_ino :: ino
  at_size :: u64
  at_blocks :: u64
  at_mtime :: nat
  at_kind :: fuse_file_type
  at_perm :: u16
  at_nlink :: u32
  at_uid :: u32
  at_gid :: u32
  at_blksize :: u32

definition fuse_file_type_of :: "node \<Rightarrow> fuse_file_type" where
  "fuse_file_type_of nd =
     (case n_kind nd of NDir \<Rightarrow> FuseDirectory | NFile _ \<Rightarrow> FuseRegularFile | NSymlink _ \<Rightarrow> FuseRegularFile)"

definition blocks_of :: "u64 \<Rightarrow> u64" where
  "blocks_of n = (if n mod 512 = 0 then n div 512 else n div 512 + 1)"

definition fuse_attr_of :: "node \<Rightarrow> file_attr" where
  "fuse_attr_of nd =
     (case (case n_kind nd of
              NDir \<Rightarrow> (0x16D, 2)
            | NFile x \<Rightarrow> (if x then 0x16D else 0x124, 1)
            | NSymlink _ \<Rightarrow> (0x124, 1)) of
        (perm, nlink) \<Rightarrow>
          \<lparr>at_ino = n_ino nd, at_size = n_size nd,
           at_blocks = (if fuse_file_type_of nd = FuseRegularFile then blocks_of (n_size nd) else 0),
           at_mtime = unat (n_mtime_secs nd), at_kind = fuse_file_type_of nd,
           at_perm = perm, at_nlink = nlink, at_uid = 1000, at_gid = 1000, at_blksize = 4096\<rparr>)"

type_synonym ('s, 'o, 'w, 'a) fuse_op =
  "('s, 'o, 'w) mount_world \<Rightarrow> (errno, 'a) outcome \<times> ('s, 'o, 'w) mount_world"

definition resolve_lookup ::
  "('s, 'o, 'w) opener_env \<Rightarrow> ('s, 'o) slot_lookup \<Rightarrow> sid \<Rightarrow> ('s, 'o, 'w, 's snapshot_entry) fuse_op" where
  "resolve_lookup env lookup sid mw =
     (case lookup of
        SlReady entry \<Rightarrow> (Ok entry, mw)
      | SlPending lz \<Rightarrow>
          (case resolve env lz (SnapshotId sid) mw of (r, mw') \<Rightarrow> (omap_err (\<lambda>_. EIO) r, mw'))
      | SlMissing \<Rightarrow> (Err ENOENT, mw))"

definition with_snapshot ::
  "('s, 'o, 'w) opener_env \<Rightarrow> sid \<Rightarrow> ('s snapshot_entry \<Rightarrow> (errno, 'a) outcome) \<Rightarrow>
     ('s, 'o, 'w, 'a) fuse_op" where
  "with_snapshot env sid f mw =
     (case slot_lookup (mw_tree mw) sid of
        SlReady entry \<Rightarrow> (f entry, mw)
      | SlPending lz \<Rightarrow>
          (case resolve env lz (SnapshotId sid) mw of
             (Ok entry, mw') \<Rightarrow> (f entry, mw')
           | (Err _, mw') \<Rightarrow> (Err EIO, mw')
           | (Panic, mw') \<Rightarrow> (Panic, mw'))
      | SlMissing \<Rightarrow> (Err ENOENT, mw))"

definition fuse_lookup ::
  "('s, 'o, 'w) opener_env \<Rightarrow> depot_api \<Rightarrow> ino \<Rightarrow> string option \<Rightarrow> ('s, 'o, 'w, file_attr) fuse_op" where
  "fuse_lookup env api parent os_name mw =
     (case os_name of
        None \<Rightarrow> (Err ENOENT, mw)
      | Some name \<Rightarrow>
          (let sid = fst (unpack parent) in
           if sid = SYNTHETIC then
             (omap fuse_attr_of (ok_or (synthetic_child (mw_tree mw) parent name) ENOENT), mw)
           else with_snapshot env sid
                  (\<lambda>entry. omap fuse_attr_of (ok_or (snapshot_child api entry parent name) ENOENT)) mw))"

definition fuse_getattr ::
  "('s, 'o, 'w) opener_env \<Rightarrow> depot_api \<Rightarrow> ino \<Rightarrow> ('s, 'o, 'w, file_attr) fuse_op" where
  "fuse_getattr env api i mw =
     (case unpack i of (sid, idx) \<Rightarrow>
        if sid = SYNTHETIC then (omap fuse_attr_of (ok_or (synthetic_node (mw_tree mw) i) ENOENT), mw)
        else if idx = 0 then
          (if slot_at (mw_tree mw) sid = None then (Err ENOENT, mw)
           else (Ok (fuse_attr_of (dir_node i (slot_mtime (mw_tree mw) sid))), mw))
        else with_snapshot env sid
               (\<lambda>entry. omap fuse_attr_of (ok_or (snapshot_node api entry i) ENOENT)) mw)"

text \<open>
  \<open>emit_readdir\<close>.  \<open>full reply name\<close> says whether the buffer that holds \<open>reply\<close> has no room for an
  entry called \<open>name\<close>; such an entry is not put in.
\<close>

type_synonym dir_reply = "(ino \<times> u64 \<times> fuse_file_type \<times> string) list"
type_synonym dir_capacity = "dir_reply \<Rightarrow> string \<Rightarrow> bool"

fun emit_from ::
  "dir_capacity \<Rightarrow> u64 \<Rightarrow> nat \<Rightarrow> (ino \<times> fuse_file_type \<times> string) list \<Rightarrow>
     dir_reply \<Rightarrow> dir_reply" where
  "emit_from full offset i [] reply = reply"
| "emit_from full offset i ((child, kind, name) # rest) reply =
     (let next_offset = word_of_nat (i + 1) in
      if next_offset \<le> offset then emit_from full offset (i + 1) rest reply
      else if full reply name then reply
      else emit_from full offset (i + 1) rest (reply @ [(child, next_offset, kind, name)]))"

definition all_entries :: "ino \<Rightarrow> (string \<times> node) list \<Rightarrow> (ino \<times> fuse_file_type \<times> string) list" where
  "all_entries i entries =
     (i, FuseDirectory, ''.'') # (i, FuseDirectory, ''..'') #
       map (\<lambda>(name, nd). (n_ino nd, fuse_file_type_of nd, name)) entries"

definition emit_readdir ::
  "dir_capacity \<Rightarrow> ino \<Rightarrow> (string \<times> node) list \<Rightarrow> u64 \<Rightarrow> dir_reply" where
  "emit_readdir full i entries offset = emit_from full offset 0 (all_entries i entries) []"

definition fuse_readdir ::
  "('s, 'o, 'w) opener_env \<Rightarrow> depot_api \<Rightarrow> dir_capacity \<Rightarrow> ino \<Rightarrow> u64 \<Rightarrow>
     ('s, 'o, 'w, dir_reply) fuse_op" where
  "fuse_readdir env api full i offset mw =
     (let sid = fst (unpack i) in
      if sid = SYNTHETIC then
        (omap (\<lambda>es. emit_readdir full i es offset)
           (ok_or (synthetic_dir_entries (mw_tree mw) i) ENOENT), mw)
      else with_snapshot env sid
             (\<lambda>entry. case snapshot_dir api entry i of
                Ok es \<Rightarrow> Ok (emit_readdir full i es offset)
              | Err _ \<Rightarrow> Ok (emit_readdir full i [] offset)
              | Panic \<Rightarrow> Panic) mw)"

definition fuse_read ::
  "('s, 'o, 'w) opener_env \<Rightarrow> depot_api \<Rightarrow> ino \<Rightarrow> u64 \<Rightarrow> u32 \<Rightarrow> ('s, 'o, 'w, bytes) fuse_op" where
  "fuse_read env api i offset count mw =
     (case unpack i of (sid, idx) \<Rightarrow>
        if sid = SYNTHETIC then (Err EISDIR, mw)
        else
          (case checked_sub (unat idx) 1 of
             None \<Rightarrow> (Err EISDIR, mw)
           | Some file_idx \<Rightarrow>
               (case resolve_lookup env (slot_lookup (mw_tree mw) sid) sid mw of
                  (Err e, mw') \<Rightarrow> (Err e, mw')
                | (Panic, mw') \<Rightarrow> (Panic, mw')
                | (Ok entry, mw') \<Rightarrow>
                    (case get_at (m_files (ds_manifest (se_snapshot entry))) file_idx of
                       None \<Rightarrow> (Err ENOENT, mw')
                     | Some file \<Rightarrow>
                         (case read_into api (se_snapshot entry) (f_path file) offset (ucast count) []
                                 (mw_chunks mw') of
                            (Ok _, buf, s') \<Rightarrow> (Ok buf, mw'\<lparr>mw_chunks := s'\<rparr>)
                          | (Err _, buf, s') \<Rightarrow> (Err EIO, mw'\<lparr>mw_chunks := s'\<rparr>)
                          | (Panic, buf, s') \<Rightarrow> (Panic, mw'\<lparr>mw_chunks := s'\<rparr>))))))"

section \<open>Directory cookies\<close>

text \<open>The rows a reply can hold: the entries after a cookie, each with the cookie that follows it.\<close>

fun dir_rows :: "nat \<Rightarrow> (ino \<times> fuse_file_type \<times> string) list \<Rightarrow> dir_reply" where
  "dir_rows i [] = []"
| "dir_rows i ((child, kind, name) # rest) = (child, word_of_nat (i + 1), kind, name) # dir_rows (i + 1) rest"

lemma dir_rows_length [simp]: "length (dir_rows i xs) = length xs"
  by (induction xs arbitrary: i) auto

lemma dir_rows_drop: "dir_rows (i + k) (drop k xs) = drop k (dir_rows i xs)"
proof (induction xs arbitrary: i k)
  case (Cons x xs)
  show ?case
  proof (cases k)
    case (Suc j)
    then show ?thesis using Cons.IH [of "i + 1" j] by (cases x) simp
  qed simp
qed simp

lemma word_le_nat64: "a < 2 ^ 64 \<Longrightarrow> b < 2 ^ 64 \<Longrightarrow> (word_of_nat a :: u64) \<le> word_of_nat b \<longleftrightarrow> a \<le> b"
  by (simp add: word_le_nat_alt unsigned_of_nat take_bit_nat_eq_self)

lemma emit_from_skips:
  assumes "i + k \<le> off" and "off < 2 ^ 64" and "k \<le> length xs"
  shows "emit_from full (word_of_nat off) i xs reply = emit_from full (word_of_nat off) (i + k) (drop k xs) reply"
  using assms
proof (induction k arbitrary: i xs)
  case (Suc k)
  then obtain c kd n rest where xs: "xs = (c, kd, n) # rest" by (cases xs) auto
  have "(word_of_nat (i + 1) :: u64) \<le> word_of_nat off"
    using Suc.prems word_le_nat64 [of "i + 1" off] by simp
  then show ?case using Suc.IH [of "i + 1" rest] Suc.prems by (simp add: xs Let_def)
qed simp

lemma emit_from_adds:
  assumes "off \<le> i" and "i + length xs < 2 ^ 64"
  shows "\<exists>k \<le> length xs. emit_from full (word_of_nat off) i xs reply = reply @ take k (dir_rows i xs) \<and>
    (k < length xs \<longrightarrow> full (reply @ take k (dir_rows i xs)) (snd (snd (xs ! k))))"
  using assms
proof (induction xs arbitrary: i reply)
  case (Cons x xs)
  obtain c kd n where x: "x = (c, kd, n)" by (cases x)
  have gt: "\<not> (word_of_nat (i + 1) :: u64) \<le> word_of_nat off"
    using Cons.prems word_le_nat64 [of "i + 1" off] by simp
  show ?case
  proof (cases "full reply n")
    case True
    then show ?thesis using gt by (intro exI [of _ 0]) (simp add: x Let_def)
  next
    case False
    from Cons.IH [of "i + 1" "reply @ [(c, word_of_nat (i + 1), kd, n)]"] Cons.prems obtain k where
      "k \<le> length xs" "emit_from full (word_of_nat off) (i + 1) xs (reply @ [(c, word_of_nat (i + 1), kd, n)]) =
        (reply @ [(c, word_of_nat (i + 1), kd, n)]) @ take k (dir_rows (i + 1) xs)"
      "k < length xs \<longrightarrow> full ((reply @ [(c, word_of_nat (i + 1), kd, n)]) @ take k (dir_rows (i + 1) xs)) (snd (snd (xs ! k)))"
      by auto
    then show ?thesis using gt False by (intro exI [of _ "Suc k"]) (simp add: x Let_def)
  qed
qed simp

lemma emit_readdir_at:
  assumes "off \<le> length es + 2" and "length es + 2 < 2 ^ 64"
  shows "\<exists>k \<le> length es + 2 - off. emit_readdir full i es (word_of_nat off) =
      take k (drop off (dir_rows 0 (all_entries i es))) \<and>
    (k < length es + 2 - off \<longrightarrow> full (take k (drop off (dir_rows 0 (all_entries i es))))
      (snd (snd (all_entries i es ! (off + k)))))"
proof -
  have len: "length (all_entries i es) = length es + 2" by (simp add: all_entries_def)
  have "emit_readdir full i es (word_of_nat off) =
      emit_from full (word_of_nat off) (0 + off) (drop off (all_entries i es)) []"
    unfolding emit_readdir_def using assms len by (intro emit_from_skips) auto
  moreover obtain k where "k \<le> length es + 2 - off"
    "emit_from full (word_of_nat off) off (drop off (all_entries i es)) [] =
      [] @ take k (dir_rows off (drop off (all_entries i es)))"
    "k < length es + 2 - off \<longrightarrow> full ([] @ take k (dir_rows off (drop off (all_entries i es))))
      (snd (snd (drop off (all_entries i es) ! k)))"
    using emit_from_adds [of off off "drop off (all_entries i es)" full "[]"] assms len by auto
  moreover have "dir_rows off (drop off (all_entries i es)) = drop off (dir_rows 0 (all_entries i es))"
    using dir_rows_drop [of 0 off] by simp
  moreover have "drop off (all_entries i es) ! k = all_entries i es ! (off + k)" for k
    using assms(1) len by simp
  ultimately show ?thesis by (intro exI [of _ k]) simp
qed

text \<open>The kernel's loop: read on from the last cookie until a reply is empty.\<close>

fun read_dirs :: "nat \<Rightarrow> dir_capacity \<Rightarrow> ino \<Rightarrow> (string \<times> node) list \<Rightarrow> u64 \<Rightarrow> dir_reply option" where
  "read_dirs 0 full i es offset = None"
| "read_dirs (Suc fuel) full i es offset =
     (let reply = emit_readdir full i es offset in
      if reply = [] then Some []
      else map_option (\<lambda>rest. reply @ rest) (read_dirs fuel full i es (fst (snd (last reply)))))"

lemma dir_rows_nth: "k < length xs \<Longrightarrow> fst (snd (dir_rows i xs ! k)) = word_of_nat (i + k + 1)"
proof (induction xs arbitrary: i k)
  case (Cons x xs)
  then show ?case by (cases x; cases k) auto
qed simp

lemma read_dirs_from:
  assumes len: "length es + 2 < 2 ^ 64" and cap: "\<And>n. \<not> full [] n"
  shows "off \<le> length es + 2 \<Longrightarrow> length es + 2 - off < fuel \<Longrightarrow>
    read_dirs fuel full i es (word_of_nat off) = Some (drop off (dir_rows 0 (all_entries i es)))"
proof (induction fuel arbitrary: off)
  case (Suc fuel)
  let ?rows = "dir_rows 0 (all_entries i es)"
  have rl: "length ?rows = length es + 2" by (simp add: all_entries_def)
  from emit_readdir_at [OF Suc.prems(1) len, of full i] obtain k where k: "k \<le> length es + 2 - off"
    and e: "emit_readdir full i es (word_of_nat off) = take k (drop off ?rows)"
    and f: "k < length es + 2 - off \<longrightarrow> full (take k (drop off ?rows)) (snd (snd (all_entries i es ! (off + k))))"
    by blast
  show ?case
  proof (cases "off = length es + 2")
    case True
    then show ?thesis using e rl by (simp add: Let_def)
  next
    case False
    have "k \<noteq> 0"
    proof
      assume "k = 0"
      then show False using f False Suc.prems(1) cap by simp
    qed
    then have lt: "off + k - 1 < length ?rows" using k rl False Suc.prems(1) by linarith
    have pl: "length (take k (drop off ?rows)) = k" using k rl by simp
    have ne: "take k (drop off ?rows) \<noteq> []" using pl \<open>k \<noteq> 0\<close> by (metis length_0_conv)
    have "last (take k (drop off ?rows)) = ?rows ! (off + k - 1)"
      using last_conv_nth [OF ne] pl \<open>k \<noteq> 0\<close> lt by simp
    also have "fst (snd \<dots>) = word_of_nat (off + k)"
      using dir_rows_nth [of "off + k - 1" "all_entries i es" 0] lt \<open>k \<noteq> 0\<close> by simp
    finally have last: "fst (snd (last (take k (drop off ?rows)))) = word_of_nat (off + k)" .
    have "off + k \<le> length es + 2" "length es + 2 - (off + k) < fuel"
      using k Suc.prems \<open>k \<noteq> 0\<close> False by linarith+
    then have IH: "read_dirs fuel full i es (word_of_nat (off + k)) = Some (drop (off + k) ?rows)"
      by (rule Suc.IH)
    have "drop (off + k) ?rows = drop k (drop off ?rows)" by (simp add: add.commute)
    then have app: "take k (drop off ?rows) @ drop (off + k) ?rows = drop off ?rows"
      by (simp only: append_take_drop_id)
    show ?thesis
      unfolding read_dirs.simps Let_def e last IH using ne app by (simp only: if_False option.map)
  qed
qed simp

text \<open>
  C19: Reading a directory over FUSE, from the last cookie on until a reply is empty, gives
  \<open>.\<close>, \<open>..\<close> and every entry of the directory once and in order, whatever the sizes of the
  buffers, provided an empty buffer takes at least one entry.
\<close>

theorem fuse_readdir_complete:
  assumes "length es + 2 < 2 ^ 64" and "\<And>n. \<not> full [] n"
  shows "read_dirs (length es + 3) full i es 0 = Some (dir_rows 0 (all_entries i es))"
  using read_dirs_from [of es full 0 "length es + 3" i] assms by simp

theorem fuse_readdir_complete_witness:
  "read_dirs 4 (\<lambda>reply n. reply \<noteq> []) 9 [(''x'', dir_node 5 0)] 0 =
    Some [(9, 1, FuseDirectory, ''.''), (9, 2, FuseDirectory, ''..''), (5, 3, FuseDirectory, ''x'')]"
  using fuse_readdir_complete [of "[(''x'', dir_node 5 0)]" "\<lambda>reply n. reply \<noteq> []" 9]
  by (simp add: all_entries_def dir_node_def fuse_file_type_of_def)

end
