(* ===== verification/Mount_Read.thy ===== *)
theory Mount_Read
  imports Nfs Fuse Cached_Read
begin

text \<open>
  The whole path of a read: a node of the mount, the snapshot it belongs to, the file's chunks,
  the disk cache and the store behind it.
\<close>

text \<open>The state of a mount whose snapshot \<open>s\<close> is open, over the disk cache.\<close>

definition serves ::
  "('s, 'o, 'w) mount_world \<Rightarrow> sid \<Rightarrow> manifest \<Rightarrow> 's chunk_store \<Rightarrow> bool" where
  "serves mw s m ch \<longleftrightarrow>
     s \<noteq> SYNTHETIC \<and> slot_lookup (mw_tree mw) s = SlReady \<lparr>se_snapshot = depot_store_new m ch\<rparr> \<and>
     wf_files (m_files m) \<and> length (m_files m) + 1 < 2 ^ 48"

lemma unat_min_ucast:
  "unat (min (ucast (c :: u32)) (x :: u64)) = min (unat c) (unat x)"
  by (simp add: unat_min unat_ucast_u32_u64)

lemma file_id:
  assumes "k < length (m_files m)" and "length (m_files m) + 1 < 2 ^ 48"
  shows "unpack (pack s (word_of_nat (Suc k))) = (s, word_of_nat (Suc k))"
    and "checked_sub (unat (word_of_nat (Suc k) :: u64)) 1 = Some k"
proof -
  have k: "Suc k < 2 ^ 48" using assms by simp
  show "unpack (pack s (word_of_nat (Suc k))) = (s, word_of_nat (Suc k))" using unpack_file [OF k] .
  show "checked_sub (unat (word_of_nat (Suc k) :: u64)) 1 = Some k"
    by (simp only: unat_nat48 [OF k]) (simp add: checked_sub_def)
qed

text \<open>
  A read over NFS is exact.  With the disk cache behind the mount, a read of a file's node
  at any offset and count returns the bytes of the file from the offset, at most \<open>count\<close> of
  them, with the end-of-file flag set exactly when they reach the end; reads past the end return
  nothing and set the flag, and a failure is an I/O error, never a hang.
\<close>

lemma nfs_read_exact:
  assumes "serves mw s m (fs_cache_store cenv dir inner)" and "k < length (m_files m)"
    and "f = m_files m ! k" and "file_ok plain api f"
    and "cache_ready cenv dir inner iinv plain (mw_chunks mw)" and "f_size f < 2 ^ 63"
    and "nfs_read env api (pack s (word_of_nat (Suc k))) offset count mw = (r, mw')"
  shows "cache_ready cenv dir inner iinv plain (mw_chunks mw') \<and> mw_tree mw' = mw_tree mw \<and>
    (r = Err NFS3ERR_IO \<or>
     (let content = file_content plain (api_chunks api f);
          got = take (unat count) (drop (unat offset) content)
      in r = Ok (got, length content \<le> unat offset + length got)))"
proof -
  have wf: "wf_files (m_files m)" and len: "length (m_files m) + 1 < 2 ^ 48"
    and s: "s \<noteq> SYNTHETIC" and sl: "slot_lookup (mw_tree mw) s =
      SlReady \<lparr>se_snapshot = depot_store_new m (fs_cache_store cenv dir inner)\<rparr>"
    using assms(1) by (auto simp: serves_def)
  note id = file_id [OF assms(2) len]
  have f: "f \<in> set (m_files m)" and g: "get_at (m_files m) k = Some f"
    using assms(2,3) by (simp_all add: get_at_def)
  have L: "length (file_content plain (api_chunks api f)) = unat (f_size f)"
    using assms(4) tiles_length by (fastforce simp: file_ok_def)
  let ?st = "depot_store_new m (fs_cache_store cenv dir inner)"
  have inner: "nfs_read_inner env api (pack s (word_of_nat (Suc k))) offset count mw =
    (if offset \<ge> f_size f then (Ok ([], True), mw)
     else (case read_into api ?st (f_path f) offset (min (ucast count) (f_size f - offset)) []
                  (mw_chunks mw) of
             (Ok _, buf, s') \<Rightarrow> (Ok (buf, offset + len64 buf \<ge> f_size f), mw\<lparr>mw_chunks := s'\<rparr>)
           | (Err _, buf, s') \<Rightarrow> (Err NFS3ERR_IO, mw\<lparr>mw_chunks := s'\<rparr>)
           | (Panic, buf, s') \<Rightarrow> (Panic, mw\<lparr>mw_chunks := s'\<rparr>)))"
    using s sl id g
    by (simp add: nfs_read_inner_def nfs_snapshot_of_def Let_def del: of_nat_Suc)
  show ?thesis
  proof (cases "offset \<ge> f_size f")
    case True
    then show ?thesis
      using assms(5,7) inner L by (simp add: nfs_read_def caught_def Let_def word_le_nat_alt)
  next
    case False
    let ?len = "min (ucast count) (f_size f - offset)"
    have ul: "unat ?len = min (unat count) (unat (f_size f) - unat offset)"
      using False by (simp add: unat_min_ucast unat_minus_le)
    have "unat (f_size f) < 2 ^ 63" using assms(6) by (simp add: word_less_nat_alt)
    then have nw: "unat offset + unat ?len < 2 ^ 64" using ul False by (simp add: word_le_nat_alt)
    obtain q buf s' where q: "read_into api ?st (f_path f) offset ?len [] (mw_chunks mw) = (q, buf, s')"
      by (metis prod_cases3)
    obtain i where i: "fst (build_index (m_files m)) (strip_leading_slash (f_path f)) = Some i"
      "f = m_files m ! i" using file_index [OF wf f] .
    have get: "cs_get (fs_cache_store cenv dir inner) = fs_cache_get cenv dir inner"
      by (simp add: fs_cache_store_def)
    from cached.read_into_sound [OF i get _ _ nw assms(5) q] assms(4)
    have snd: "cache_ready cenv dir inner iinv plain s'"
      "q = Ok () \<longrightarrow> buf = take (unat ?len) (drop (unat offset) (file_content plain (api_chunks api f)))"
      by (auto simp: file_ok_def)
    show ?thesis
    proof (cases q)
      case (Ok u)
      let ?C = "file_content plain (api_chunks api f)"
      have mn: "take (min n (length xs)) xs = take n xs" for n and xs :: bytes by (simp add: min_def)
      have buf: "buf = take (unat count) (drop (unat offset) ?C)"
        using Ok snd(2) L mn [of "unat count" "drop (unat offset) ?C"] by (simp add: ul)
      have lb: "length buf = min (unat count) (unat (f_size f) - unat offset)" using buf L by simp
      have "unat offset + length buf < 2 ^ 64" using nw ul lb by simp
      then have "unat (offset + len64 buf) = unat offset + length buf"
        by (simp add: unat_plus_fits unat_len64)
      then show ?thesis
        using assms(7) inner False q Ok snd(1) buf L
        by (auto simp: nfs_read_def caught_def Let_def word_le_nat_alt)
    qed (use assms(7) inner False q snd(1) in \<open>auto simp: nfs_read_def caught_def\<close>)
  qed
qed

text \<open>
  A read over FUSE of a range that starts inside the file returns exactly its bytes; one
  that starts past the end is an I/O error, where NFS answers with nothing.
\<close>

theorem fuse_read_exact:
  assumes "serves mw s m (fs_cache_store cenv dir inner)" and "k < length (m_files m)"
    and "f = m_files m ! k" and "file_ok plain api f"
    and "cache_ready cenv dir inner iinv plain (mw_chunks mw)" and "f_size f < 2 ^ 63"
    and "fuse_read env api (pack s (word_of_nat (Suc k))) offset count mw = (r, mw')"
  shows "cache_ready cenv dir inner iinv plain (mw_chunks mw') \<and>
    (if unat (f_size f) < unat offset then r = Err EIO \<and> mw' = mw
     else \<forall>b. r = Ok b \<longrightarrow> b = take (unat count) (drop (unat offset) (file_content plain (api_chunks api f))))"
proof -
  have wf: "wf_files (m_files m)" and len: "length (m_files m) + 1 < 2 ^ 48"
    and s: "s \<noteq> SYNTHETIC" and sl: "slot_lookup (mw_tree mw) s =
      SlReady \<lparr>se_snapshot = depot_store_new m (fs_cache_store cenv dir inner)\<rparr>"
    using assms(1) by (auto simp: serves_def)
  note id = file_id [OF assms(2) len]
  have f: "f \<in> set (m_files m)" and g: "get_at (m_files m) k = Some f"
    using assms(2,3) by (simp_all add: get_at_def)
  let ?st = "depot_store_new m (fs_cache_store cenv dir inner)"
  obtain q buf s' where q: "read_into api ?st (f_path f) offset (ucast count) [] (mw_chunks mw) = (q, buf, s')"
    by (metis prod_cases3)
  have op: "fuse_read env api (pack s (word_of_nat (Suc k))) offset count mw =
    (case q of Ok _ \<Rightarrow> (Ok buf, mw\<lparr>mw_chunks := s'\<rparr>) | Err _ \<Rightarrow> (Err EIO, mw\<lparr>mw_chunks := s'\<rparr>)
       | Panic \<Rightarrow> (Panic, mw\<lparr>mw_chunks := s'\<rparr>))"
    using s sl id q g
    by (simp add: fuse_read_def resolve_lookup_def del: of_nat_Suc split: outcome.split)
  obtain i where i: "fst (build_index (m_files m)) (strip_leading_slash (f_path f)) = Some i"
    "f = m_files m ! i" using file_index [OF wf f] .
  show ?thesis
  proof (cases "unat (f_size f) < unat offset")
    case True
    then have "offset > f_size f" by (simp add: word_less_nat_alt)
    then have "q = Err (ReadPastEnd (f_size f) offset)" "s' = mw_chunks mw"
      using q assms(4) by (auto simp: read_into_new [OF i] file_ok_def)
    then show ?thesis using True op assms(5,7) by simp
  next
    case False
    have "unat (f_size f) < 2 ^ 63" using assms(6) by (simp add: word_less_nat_alt)
    moreover have "unat (ucast count :: u64) < 2 ^ 32"
      using unsigned_less [of count, where 'a = nat] by (simp add: unat_ucast_u32_u64)
    ultimately have nw: "unat offset + unat (ucast count :: u64) < 2 ^ 64" using False by simp
    have get: "cs_get (fs_cache_store cenv dir inner) = fs_cache_get cenv dir inner"
      by (simp add: fs_cache_store_def)
    from cached.read_into_sound [OF i get _ _ nw assms(5) q] assms(4)
    have "cache_ready cenv dir inner iinv plain s'"
      "q = Ok () \<longrightarrow> buf = take (unat count) (drop (unat offset) (file_content plain (api_chunks api f)))"
      by (auto simp: file_ok_def unat_ucast_u32_u64)
    then show ?thesis using False op assms(7) by (cases q) auto
  qed
qed

section \<open>A small mount\<close>

text \<open>The small depot mounted as snapshot 1 and already open.\<close>

definition demo_mount :: "((recency, nat) cache_world, unit, unit) mount_world" where
  "demo_mount =
     \<lparr>mw_tree = mount_tree_new\<lparr>mt_slots := [None, Some \<lparr>sl_app_id = 1, sl_depot_id = 1,
        sl_manifest_gid = 2,
        sl_state = Ready \<lparr>se_snapshot = depot_store_new demo_manifest
          (fs_cache_store std_env demo_cache_dir (mem_store demo_chunks))\<rparr>,
        sl_creation_time = Some 3\<rparr>]\<rparr>,
      mw_cells = Map.empty, mw_open = (), mw_chunks = cache_start std_env calm_fs 0\<rparr>"

definition no_openers :: "('s, unit, unit) opener_env" where
  "no_openers = \<lparr>oe_open = (\<lambda>_ w. (Err NotDepotPath, w)), oe_text = (\<lambda>_. [])\<rparr>"

lemma demo_serves:
  "serves demo_mount 1 demo_manifest (fs_cache_store std_env demo_cache_dir (mem_store demo_chunks))"
  using demo_files(1)
  by (simp add: serves_def SYNTHETIC_def slot_lookup_def slot_at_def get_at_def demo_mount_def)
    (simp add: demo_manifest_def)

lemma demo_index: "1 < length (m_files demo_manifest)" "demo_file = m_files demo_manifest ! 1"
  "f_size demo_file < 2 ^ 63"
  by (simp_all add: demo_manifest_def demo_file_def)

lemma demo_mount_ready:
  "cache_ready std_env demo_cache_dir (mem_store demo_chunks) (\<lambda>_. True) demo_plain (mw_chunks demo_mount)"
  using demo_ready [of calm_fs] by (simp add: demo_mount_def calm_fs_def)

theorem fuse_read_exact_witness:
  "\<exists>mw'. fuse_read no_openers std_depot_api (pack 1 (word_of_nat (Suc 1))) 8 10 demo_mount = (Err EIO, mw')"
proof -
  obtain r mw' where r: "fuse_read no_openers std_depot_api (pack 1 (word_of_nat (Suc 1))) 8 10 demo_mount = (r, mw')"
    by fastforce
  have "unat (f_size demo_file) < unat (8 :: u64)" by (simp add: demo_file_def)
  with fuse_read_exact [OF demo_serves demo_index(1,2) demo_file_ok demo_mount_ready demo_index(3) r] r
  show ?thesis by auto
qed

end
