(* ===== verification/Projfs_Source.thy ===== *)
theory Projfs_Source
  imports Mount_Read
begin

text \<open>
  \<open>projfs.rs\<close> of \<open>steam-depot-mount\<close>: the mount as the Windows Projected File System sees it.
  Where NFS and FUSE work with node ids, ProjFS asks by path; the first three components of a
  path are decimal numbers that name a snapshot, what follows is a path inside it.

  A path arrives as the \<open>std::path::Component\<close>s it has on Windows.  A time is an \<open>i64\<close>, kept as
  its 64 bits.
\<close>

section \<open>Paths and metadata\<close>

datatype path_component = Prefix string | RootDirComp | CurDir | ParentDir | Normal string

fun components :: "path_component list \<Rightarrow> string list" where
  "components [] = []"
| "components (Normal s # cs) = s # components cs"
| "components (_ # cs) = components cs"

definition parse_triple :: "string list \<Rightarrow> (u32 \<times> u32 \<times> u64) option" where
  "parse_triple comps =
     Option.bind (Option.bind (get_at comps 0) parse_u32) (\<lambda>app_id.
     Option.bind (Option.bind (get_at comps 1) parse_u32) (\<lambda>depot_id.
     Option.bind (Option.bind (get_at comps 2) parse_u64) (\<lambda>gid. Some (app_id, depot_id, gid))))"

definition synthetic_prefix :: "string list \<Rightarrow> string" where
  "synthetic_prefix comps = (if comps = [] then [] else ''/'' @ join_with ''/'' comps)"

record proj_meta =
  pm_is_dir :: bool
  pm_size :: u64
  pm_creation_time :: u64
  pm_last_write_time :: u64

text \<open>\<open>unix_to_filetime\<close>: seconds since 1970 to ticks of 100 ns since 1601; 0 stays "unknown".\<close>

definition unix_to_filetime :: "u64 \<Rightarrow> u64" where
  "unix_to_filetime unix_secs =
     (if unix_secs = 0 then 0 else (unix_secs + 11644473600) * 10000000)"

definition dir_meta :: proj_meta where
  "dir_meta = \<lparr>pm_is_dir = True, pm_size = 0, pm_creation_time = 0, pm_last_write_time = 0\<rparr>"

definition proj_file_meta :: "file_meta \<Rightarrow> u32 \<Rightarrow> proj_meta" where
  "proj_file_meta m creation_unix =
     (let ft = unix_to_filetime (ucast creation_unix)
      in \<lparr>pm_is_dir = (fm_kind m = FtDirectory), pm_size = fm_size m,
          pm_creation_time = ft, pm_last_write_time = ft\<rparr>)"

section \<open>The source\<close>

type_synonym ('s, 'o, 'w, 'a) proj_op =
  "('s, 'o, 'w) mount_world \<Rightarrow> (io_error, 'a) outcome \<times> ('s, 'o, 'w) mount_world"

definition proj_resolve ::
  "('s, 'o, 'w) opener_env \<Rightarrow> u32 \<Rightarrow> u32 \<Rightarrow> u64 \<Rightarrow> ('s, 'o, 'w, 's snapshot_entry option) proj_op" where
  "proj_resolve env app_id depot_id gid mw =
     (case find_slot app_id depot_id gid (mw_tree mw) of
        None \<Rightarrow> (Panic, mw)
      | Some None \<Rightarrow> (Ok None, mw)
      | Some (Some sid) \<Rightarrow>
          (case slot_lookup (mw_tree mw) sid of
             SlReady entry \<Rightarrow> (Ok (Some entry), mw)
           | SlPending lz \<Rightarrow>
               (case resolve env lz (SnapshotId sid) mw of
                  (Ok entry, mw1) \<Rightarrow> (Ok (Some entry), mw1)
                | (Err e, mw1) \<Rightarrow> (Ok None, mw1)
                | (Panic, mw1) \<Rightarrow> (Panic, mw1))
           | SlMissing \<Rightarrow> (Ok None, mw)))"

definition proj_list_directory ::
  "('s, 'o, 'w) opener_env \<Rightarrow> depot_api \<Rightarrow> path_component list \<Rightarrow>
     ('s, 'o, 'w, (string \<times> proj_meta) list) proj_op" where
  "proj_list_directory env api p mw =
     (let comps = components p in
      if length comps < 3 then
        (case synthetic_children_at (synthetic_prefix comps) (mw_tree mw) of
           None \<Rightarrow> (Panic, mw)
         | Some None \<Rightarrow> (Ok [], mw)
         | Some (Some names) \<Rightarrow> (Ok (map (\<lambda>n. (n, dir_meta)) names), mw))
      else
        (case parse_triple comps of
           None \<Rightarrow> (Ok [], mw)
         | Some (app_id, depot_id, gid) \<Rightarrow>
             (case proj_resolve env app_id depot_id gid mw of
                (Ok (Some entry), mw1) \<Rightarrow>
                  (let rest = join_with ''/'' (drop 3 comps);
                       creation = m_creation_time (ds_manifest (se_snapshot entry))
                   in case list_dir api (se_snapshot entry) rest of
                        Ok entries \<Rightarrow> (Ok (map (\<lambda>e. (e_name e, proj_file_meta (e_meta e) creation)) entries), mw1)
                      | Err _ \<Rightarrow> (Ok [], mw1)
                      | Panic \<Rightarrow> (Panic, mw1))
              | (Ok None, mw1) \<Rightarrow> (Ok [], mw1)
              | (Err e, mw1) \<Rightarrow> (Err e, mw1)
              | (Panic, mw1) \<Rightarrow> (Panic, mw1))))"

definition proj_get_metadata ::
  "('s, 'o, 'w) opener_env \<Rightarrow> depot_api \<Rightarrow> path_component list \<Rightarrow> ('s, 'o, 'w, proj_meta option) proj_op" where
  "proj_get_metadata env api p mw =
     (let comps = components p in
      if length comps = 0 then (Ok (Some dir_meta), mw)
      else if length comps < 3 then
        (case synthetic_children_at (synthetic_prefix comps) (mw_tree mw) of
           None \<Rightarrow> (Panic, mw)
         | Some r \<Rightarrow> (Ok (map_option (\<lambda>_. dir_meta) r), mw))
      else
        (case parse_triple comps of
           None \<Rightarrow> (Ok None, mw)
         | Some (app_id, depot_id, gid) \<Rightarrow>
             if length comps = 3 then
               (case find_slot app_id depot_id gid (mw_tree mw) of
                  None \<Rightarrow> (Panic, mw)
                | Some r \<Rightarrow> (Ok (map_option (\<lambda>_. dir_meta) r), mw))
             else
               (case proj_resolve env app_id depot_id gid mw of
                  (Ok (Some entry), mw1) \<Rightarrow>
                    (case metadata api (se_snapshot entry) (join_with ''/'' (drop 3 comps)) of
                       Ok meta \<Rightarrow>
                         (Ok (Some (proj_file_meta meta (m_creation_time (ds_manifest (se_snapshot entry))))), mw1)
                     | Err _ \<Rightarrow> (Ok None, mw1)
                     | Panic \<Rightarrow> (Panic, mw1))
                | (Ok None, mw1) \<Rightarrow> (Ok None, mw1)
                | (Err e, mw1) \<Rightarrow> (Err e, mw1)
                | (Panic, mw1) \<Rightarrow> (Panic, mw1))))"

definition proj_read_file ::
  "('s, 'o, 'w) opener_env \<Rightarrow> depot_api \<Rightarrow> path_component list \<Rightarrow> u64 \<Rightarrow> u32 \<Rightarrow>
     ('s, 'o, 'w, bytes) proj_op" where
  "proj_read_file env api p offset len mw =
     (let comps = components p in
      if length comps < 4 then (Ok [], mw)
      else
        (case parse_triple comps of
           None \<Rightarrow> (Err NotDepotPath, mw)
         | Some (app_id, depot_id, gid) \<Rightarrow>
             (case proj_resolve env app_id depot_id gid mw of
                (Ok None, mw1) \<Rightarrow> (Err SnapshotNotFound, mw1)
              | (Err e, mw1) \<Rightarrow> (Err e, mw1)
              | (Panic, mw1) \<Rightarrow> (Panic, mw1)
              | (Ok (Some entry), mw1) \<Rightarrow>
                  (let rest = join_with ''/'' (drop 3 comps) in
                   case metadata api (se_snapshot entry) rest of
                     Err e \<Rightarrow> (Err e, mw1)
                   | Panic \<Rightarrow> (Panic, mw1)
                   | Ok meta \<Rightarrow>
                       if fm_kind meta \<noteq> FtFile then (Ok [], mw1)
                       else if offset \<ge> fm_size meta then (Ok [], mw1)
                       else
                         (case read api (se_snapshot entry) rest offset
                                 (min (ucast len) (fm_size meta - offset)) (mw_chunks mw1) of
                            (r, s') \<Rightarrow> (r, mw1\<lparr>mw_chunks := s'\<rparr>))))))"

section \<open>Paths of the mount\<close>

definition mount_components :: "u32 \<Rightarrow> u32 \<Rightarrow> u64 \<Rightarrow> string list \<Rightarrow> path_component list" where
  "mount_components a d g rest = map Normal ([to_dec a, to_dec d, to_dec g] @ rest)"

lemma components_Normal [simp]: "components (map Normal cs) = cs"
  by (induction cs) simp_all

lemma parse_triple_mount [simp]:
  "parse_triple (to_dec a # to_dec d # to_dec g # rest) = Some (a, d, g)"
  by (simp add: parse_triple_def get_at_def parse_u32_to_dec parse_u64_to_dec)

lemma mount_components_simps [simp]:
  "components (mount_components a d g rest) = to_dec a # to_dec d # to_dec g # rest"
  by (simp only: mount_components_def components_Normal) simp

lemma join_with_snoc: "join_with ''/'' (cs @ [n]) = (if cs = [] then n else join_with ''/'' cs @ ''/'' @ n)"
proof (induction cs)
  case (Cons c cs)
  then show ?case by (cases cs) simp_all
qed simp

text \<open>The directory's path inside the snapshot, and the child's, agree with \<open>child_path\<close>.\<close>

lemma join_with_child:
  assumes "d = join_with ''/'' cs" and "cs = [] \<or> d \<noteq> []"
  shows "join_with ''/'' (cs @ [n]) = child_path d n"
  using assms by (cases "cs = []") (auto simp: join_with_snoc child_path_def)

text \<open>A snapshot that is mounted and open.\<close>

definition open_at ::
  "('s, 'o, 'w) mount_world \<Rightarrow> u32 \<Rightarrow> u32 \<Rightarrow> u64 \<Rightarrow> manifest \<Rightarrow> 's chunk_store \<Rightarrow> bool" where
  "open_at mw a d g m ch \<longleftrightarrow>
     (\<exists>s. find_slot a d g (mw_tree mw) = Some (Some s) \<and> serves mw s m ch)"

lemma proj_resolve_open:
  "open_at mw a d g m ch \<Longrightarrow>
     proj_resolve env a d g mw = (Ok (Some \<lparr>se_snapshot = depot_store_new m ch\<rparr>), mw)"
  by (auto simp: open_at_def serves_def proj_resolve_def)

section \<open>Inside a snapshot\<close>

lemma join_with_plain:
  assumes "list_all plain_name cs" and "cs \<noteq> []"
  shows "join_with ''/'' cs \<noteq> []" and "strip_leading_slash (join_with ''/'' cs) = join_with ''/'' cs"
    and "join_with ''/'' cs \<noteq> ''/''" and "wf_path (join_with ''/'' cs)"
proof -
  have "split_on (CHR ''/'') (join_with ''/'' cs) = cs"
    using assms
  proof (induction cs)
    case (Cons c cs)
    then show ?case
      by (cases cs) (auto simp: plain_name_def split_on_no_sep split_on_append)
  qed simp
  then show w: "wf_path (join_with ''/'' cs)" using assms(1) by (simp add: wf_path_def)
  show "join_with ''/'' cs \<noteq> []" "strip_leading_slash (join_with ''/'' cs) = join_with ''/'' cs"
    "join_with ''/'' cs \<noteq> ''/''" using wf_path_no_lead [OF w] by simp_all
qed

lemma proj_list_open:
  assumes "open_at mw a d g m ch" and "list_all plain_name rest"
  shows "proj_list_directory env api (mount_components a d g rest) mw =
    (Ok (map (\<lambda>i. (entry_name (m_files m ! i), proj_file_meta (meta_of api (m_files m ! i)) (m_creation_time m)))
       (child_indices (m_files m) (join_with ''/'' rest))), mw)"
proof -
  have k: "(if join_with ''/'' rest = [] \<or> join_with ''/'' rest = ''/'' then []
      else strip_leading_slash (join_with ''/'' rest)) = join_with ''/'' rest"
    using join_with_plain [OF assms(2)] by (cases "rest = []") simp_all
  show ?thesis
    using list_dir_new [of api m ch "join_with ''/'' rest"] k
    by (simp add: proj_list_directory_def proj_resolve_open [OF assms(1)] Let_def comp_def split: if_splits)
qed

lemma proj_metadata_open:
  assumes "open_at mw a d g m ch" and "rest \<noteq> []"
    and "wf_path (join_with ''/'' rest)" and "fst (build_index (m_files m)) (join_with ''/'' rest) = Some i"
  shows "proj_get_metadata env api (mount_components a d g rest) mw =
    (Ok (Some (proj_file_meta (meta_of api (m_files m ! i)) (m_creation_time m))), mw)"
  using metadata_at [OF assms(3,4), of api ch] assms(2)
  by (simp add: proj_get_metadata_def proj_resolve_open [OF assms(1)] Let_def)

text \<open>
  What ProjFS lists, it can look up.  Every entry of a directory of an open snapshot has its
  own name, and asking for the metadata of the directory's path with that name gives the metadata
  that was listed; neither changes the mount.
\<close>

theorem projfs_listing_agrees:
  assumes "open_at mw a d g m ch" and "list_all plain_name rest"
    and "proj_list_directory env api (mount_components a d g rest) mw = (Ok es, mw')"
  shows "mw' = mw \<and> distinct (map fst es) \<and>
    (\<forall>(n, meta) \<in> set es. proj_get_metadata env api (mount_components a d g (rest @ [n])) mw = (Ok (Some meta), mw))"
proof -
  let ?d = "join_with ''/'' rest"
  have wf: "wf_files (m_files m)" using assms(1) by (auto simp: open_at_def serves_def)
  have es: "es = map (\<lambda>i. (entry_name (m_files m ! i), proj_file_meta (meta_of api (m_files m ! i)) (m_creation_time m)))
       (child_indices (m_files m) ?d)" "mw' = mw"
    using assms(3) proj_list_open [OF assms(1,2), of env api] by simp_all
  have "proj_get_metadata env api (mount_components a d g (rest @ [n])) mw = (Ok (Some meta), mw)"
    if nm: "(n, meta) \<in> set es" for n meta
  proof -
    obtain i where i: "i \<in> set (child_indices (m_files m) ?d)" "n = entry_name (m_files m ! i)"
      "meta = proj_file_meta (meta_of api (m_files m ! i)) (m_creation_time m)"
      using nm unfolding es(1) by auto
    have j: "join_with ''/'' (rest @ [n]) = child_path ?d n"
      using join_with_plain(1) [OF assms(2)] by (intro join_with_child) auto
    note ix = entry_index [OF wf i(1), folded i(2)]
    have "child_path ?d n = f_path (m_files m ! i)" and "i < length (m_files m)"
      using by_path_distinct [of "m_files m" "child_path ?d n" i] ix wf by (auto simp: wf_files_def)
    then have "wf_path (child_path ?d n)" using wf by (auto simp: wf_files_def list_all_length)
    then show ?thesis using proj_metadata_open [OF assms(1), of "rest @ [n]"] ix j i(3) by simp
  qed
  moreover have "distinct (map fst es)"
    using entry_names_distinct [OF wf, of ?d] es(1) by (simp add: comp_def)
  ultimately show ?thesis using es(2) by blast
qed

text \<open>
  C31: A read through ProjFS is exact: with a working disk and network it returns the bytes of the
  file from the offset, as many as were asked for or as there are, and nothing past the end.
\<close>

theorem projfs_read_exact:
  assumes "open_at mw a d g m (fs_cache_store cenv dir inner)" and "f \<in> set (m_files m)"
    and "f_path f = join_with ''/'' rest" and "rest \<noteq> []" and "list_all plain_name rest"
    and "file_ok plain api f" and "api_file_type api f = FtFile" and "f_size f < 2 ^ 63"
    and "cache_calm cenv dir inner iinv plain (c_sha ` set (api_chunks api f)) (mw_chunks mw)"
  shows "fst (proj_read_file env api (mount_components a d g rest) offset len mw) =
    Ok (take (unat len) (drop (unat offset) (file_content plain (api_chunks api f))))"
proof -
  let ?st = "depot_store_new m (fs_cache_store cenv dir inner)" and ?C = "file_content plain (api_chunks api f)"
  have wf: "wf_files (m_files m)" using assms(1) by (auto simp: open_at_def serves_def)
  have L: "length ?C = unat (f_size f)"
    using assms(6) tiles_length by (fastforce simp: file_ok_def)
  obtain i where i: "fst (build_index (m_files m)) (strip_leading_slash (f_path f)) = Some i" "f = m_files m ! i"
    using file_index [OF wf assms(2)] .
  note jp = join_with_plain [OF assms(5,4)]
  have "fst (build_index (m_files m)) (join_with ''/'' rest) = Some i" using i(1) assms(3) jp(2) by simp
  from metadata_at [OF jp(4) this] i(2)
  have meta: "metadata api ?st (join_with ''/'' rest) = Ok (meta_of api f)" by simp
  note r = proj_resolve_open [OF assms(1), of env]
  show ?thesis
  proof (cases "offset \<ge> f_size f")
    case True
    then have "drop (unat offset) ?C = []" using L by (simp add: word_le_nat_alt)
    then show ?thesis
      using True assms(4) meta assms(7) by (cases rest) (simp_all add: proj_read_file_def r meta_of_def Let_def)
  next
    case False
    let ?len = "min (ucast len) (f_size f - offset)"
    have ul: "unat ?len = min (unat len) (unat (f_size f) - unat offset)"
      using False by (simp add: unat_min_ucast unat_minus_le)
    have b: "unat (f_size f) < 2 ^ 63" using assms(8) by (simp add: word_less_nat_alt)
    have nw: "unat offset + unat ?len < 2 ^ 64" using ul False b by (simp add: word_le_nat_alt)
    obtain q out s' where q: "read_into api ?st (f_path f) offset ?len [] (mw_chunks mw) = (q, out, s')"
      by (metis prod_cases3)
    have get: "cs_get (fs_cache_store cenv dir inner) = fs_cache_get cenv dir inner"
      by (simp add: fs_cache_store_def)
    have fits: "length ([] :: bytes) + unat (f_size f) < 2 ^ 63" using b by simp
    have le: "offset \<le> f_size f" using False by simp
    have "fst (read_into api ?st (f_path f) offset ?len [] (mw_chunks mw)) = Ok ()"
      using assms(6) by (intro cached_full.read_into_returns [OF i get _ _ _ _ nw le fits assms(9)])
        (auto simp: file_ok_def)
    with q have "q = Ok ()" by simp
    with cached_full.read_into_sound [OF i get _ _ nw assms(9) q] assms(6)
    have "out = take (unat ?len) (drop (unat offset) ?C)" by (simp add: file_ok_def)
    also have "\<dots> = take (unat len) (drop (unat offset) ?C)" unfolding ul using L by (simp add: min_def)
    finally have "read api ?st (join_with ''/'' rest) offset ?len (mw_chunks mw) =
        (Ok (take (unat len) (drop (unat offset) ?C)), s')"
      using q \<open>q = Ok ()\<close> assms(3) by (simp add: read_def)
    then show ?thesis
      using False assms(4) meta assms(7)
      by (cases rest) (simp_all add: proj_read_file_def r meta_of_def Let_def)
  qed
qed

section \<open>Above the snapshots\<close>

lemma parse_u32_zero: "parse_u32 (CHR ''0'' # to_dec (w :: u32)) = Some w"
proof -
  have "digits_val 10 b 0 (CHR ''0'' # s) = digits_val 10 b 0 s" if "0 < b" for b s
    using that by (simp add: digit_of_def Let_def)
  then have "from_str_radix 10 (2 ^ 32) (CHR ''0'' # to_dec w) = digits_val 10 (2 ^ 32) 0 (to_dec w)"
    by (simp add: from_str_radix_def)
  moreover have "from_str_radix 10 (2 ^ 32) (to_dec w) = digits_val 10 (2 ^ 32) 0 (to_dec w)"
  proof -
    have "hd (to_dec w) \<in> set (to_dec w)" by simp
    then have "48 \<le> (of_char (hd (to_dec w)) :: nat)" unfolding to_dec_def using digit_chars by blast
    then have "hd (to_dec w) \<noteq> CHR ''+''" by auto
    then show ?thesis by (cases "to_dec w") (simp_all add: from_str_radix_def)
  qed
  ultimately show ?thesis using parse_u32_to_dec [of w] by (simp add: parse_u32_def)
qed

text \<open>
  Snapshots answer to names that no listing shows.  The numbers of a path may be written with
  leading zeros: the same snapshot is then found below a directory that does not exist.
\<close>

theorem projfs_leading_zeros:
  assumes "tree_ok (mw_tree mw)" and "mount_map (mw_tree mw) (a, d, g) \<noteq> None"
  shows "fst (proj_get_metadata env api (map Normal [CHR ''0'' # to_dec a, to_dec d, to_dec g]) mw) = Ok (Some dir_meta) \<and>
    fst (proj_get_metadata env api (map Normal [CHR ''0'' # to_dec a]) mw) = Ok None \<and>
    fst (proj_list_directory env api (map Normal [CHR ''0'' # to_dec a]) mw) = Ok []"
proof -
  obtain rs where wf: "tree_wf rs (mw_tree mw)" using assms(1) by (auto simp: tree_ok_def)
  obtain s where s: "find_slot a d g (mw_tree mw) = Some (Some s)"
    using assms(2) find_slot_spec [OF wf, of a d g] by (auto simp: mount_map_def split: if_splits)
  have p: "parse_triple [CHR ''0'' # to_dec a, to_dec d, to_dec g] = Some (a, d, g)"
    by (simp add: parse_triple_def get_at_def parse_u32_zero parse_u32_to_dec parse_u64_to_dec)
  have "role_path r \<noteq> Some (''/'' @ CHR ''0'' # to_dec a)" for r
  proof
    assume h: "role_path r = Some (''/'' @ CHR ''0'' # to_dec a)"
    show False
    proof (cases r)
      case (AppDir b)
      then have e: "to_dec b = CHR ''0'' # to_dec a" using h by simp
      then have "b = a" using parse_u32_zero [of a] parse_u32_to_dec [of b] by simp
      then show False using e by simp
    next
      case (DepotDir b c)
      then have e: "CHR ''0'' # to_dec a = to_dec b @ ''/'' @ to_dec c" using h by (simp add: depot_path_def)
      have "CHR ''/'' \<in> set (CHR ''0'' # to_dec a)" unfolding e by simp
      then show False using to_dec_no_slash [of a] by simp
    qed (use h in simp_all)
  qed
  then have none: "map_of (mt_synth_by_path (mw_tree mw)) (''/'' @ CHR ''0'' # to_dec a) = None"
  proof (cases "map_of (mt_synth_by_path (mw_tree mw)) (''/'' @ CHR ''0'' # to_dec a)")
    case (Some c)
    have "map_of (mt_synth_by_path (mw_tree mw)) q = Some c \<Longrightarrow> \<exists>k < length rs. role_path (rs ! k) = Some q" for q
      using wf by (auto simp: tree_wf_def)
    then show ?thesis using Some \<open>\<And>r. role_path r \<noteq> _\<close> by blast
  qed simp
  show ?thesis
    using s p none
    by (simp add: proj_get_metadata_def proj_list_directory_def synthetic_prefix_def synthetic_children_at_def Let_def)
qed


section \<open>The small depot by path\<close>

abbreviation "demo_store \<equiv> fs_cache_store std_env demo_cache_dir (mem_store demo_chunks)"

lemma demo_proj_mount:
  obtains t where "tree_ok t" and "mount_map t (1, 1, 2) \<noteq> None"
    and "open_at (demo_mount\<lparr>mw_tree := t\<rparr>) 1 1 2 demo_manifest demo_store"
proof -
  let ?st = "Ready \<lparr>se_snapshot = depot_store_new demo_manifest demo_store\<rparr>
    :: ((recency, nat) cache_world, unit) slot_state"
  have "length [Unused, RootDir] + 2 \<le> 2 ^ 48" by simp
  from reserve_slot_spec [OF tree_wf_new this, of 1 1 2 ?st None] obtain rs1 t where
    1: "tree_wf rs1 t" "mt_slots t = [None, Some (new_slot 1 1 2 ?st None)]"
    by (auto simp: mounted_def mount_tree_new_def)
  have ok: "tree_ok t" using 1(1) by (auto simp: tree_ok_def)
  have "1 \<in> mounted t 1 1 2" using 1(2) by (simp add: mounted_def new_slot_def)
  then have m: "mount_map t (1, 1, 2) = Some 1" using mount_map_iff [OF 1(1), of 1 1 2 1] by simp
  then have "find_slot 1 1 2 t = Some (Some 1)"
    using find_slot_spec [OF 1(1), of 1 1 2] by (auto simp: mount_map_def split: if_splits)
  moreover have "slot_lookup t 1 = SlReady \<lparr>se_snapshot = depot_store_new demo_manifest demo_store\<rparr>"
    using 1(2) by (simp add: slot_lookup_def slot_at_def get_at_def new_slot_def)
  ultimately have "open_at (demo_mount\<lparr>mw_tree := t\<rparr>) 1 1 2 demo_manifest demo_store"
    using demo_serves by (auto simp: open_at_def serves_def)
  then show ?thesis using that ok m by simp
qed

theorem projfs_listing_agrees_witness:
  "\<exists>t es. fst (proj_list_directory no_openers std_depot_api (mount_components 1 1 2 [''d''])
      (demo_mount\<lparr>mw_tree := t\<rparr>)) = Ok es \<and> map fst es = [''f''] \<and> distinct (map fst es)"
proof -
  obtain t where t: "open_at (demo_mount\<lparr>mw_tree := t\<rparr>) 1 1 2 demo_manifest demo_store"
    using demo_proj_mount by blast
  have plain: "list_all plain_name [''d'']" by (simp add: plain_name_def)
  let ?mw = "demo_mount\<lparr>mw_tree := t\<rparr>"
  have ci: "child_indices (m_files demo_manifest) ''d'' = [1]" "entry_name (m_files demo_manifest ! 1) = ''f''"
    by (simp_all add: child_indices_def demo_manifest_def demo_dir_def demo_file_def parent_key_def
        parent_of_def entry_name_def path_file_name_def upt_rec)
  obtain es where es: "proj_list_directory no_openers std_depot_api (mount_components 1 1 2 [''d'']) ?mw = (Ok es, ?mw)"
    "map fst es = [''f'']"
    using proj_list_open [OF t plain, of no_openers std_depot_api] ci by simp
  from projfs_listing_agrees [OF t plain es(1)] es show ?thesis by (metis fst_conv)
qed

theorem projfs_read_exact_witness:
  "\<exists>t. fst (proj_read_file no_openers std_depot_api (mount_components 1 1 2 [''d'', ''f'']) 5 100
      (demo_mount\<lparr>mw_tree := t\<rparr>)) = Ok [6, 7]"
proof -
  obtain t where t: "open_at (demo_mount\<lparr>mw_tree := t\<rparr>) 1 1 2 demo_manifest demo_store"
    using demo_proj_mount by blast
  have p: "f_path demo_file = join_with ''/'' [''d'', ''f'']" "list_all plain_name [''d'', ''f'']"
    "api_file_type std_depot_api demo_file = FtFile" "f_size demo_file < 2 ^ 63"
    by (simp_all add: demo_file_def plain_name_def std_depot_api_def)
  have calm: "cache_calm std_env demo_cache_dir (mem_store demo_chunks) (\<lambda>_. True) demo_plain
      (c_sha ` set (api_chunks std_depot_api demo_file)) (mw_chunks (demo_mount\<lparr>mw_tree := t\<rparr>))"
    using demo_calm by (simp add: demo_mount_def)
  from projfs_read_exact [OF t demo_files(2) p(1) _ p(2) demo_file_ok p(3,4) calm, of no_openers 5 100]
  show ?thesis by auto
qed

theorem projfs_leading_zeros_witness:
  "\<exists>t. fst (proj_get_metadata no_openers std_depot_api (map Normal [CHR ''0'' # to_dec (1 :: u32), to_dec (1 :: u32), to_dec (2 :: u64)])
      (demo_mount\<lparr>mw_tree := t\<rparr>)) = Ok (Some dir_meta)"
proof -
  obtain t where t: "tree_ok t" "mount_map t (1, 1, 2) \<noteq> None"
    "open_at (demo_mount\<lparr>mw_tree := t\<rparr>) 1 1 2 demo_manifest demo_store"
    by (rule demo_proj_mount)
  have "tree_ok (mw_tree (demo_mount\<lparr>mw_tree := t\<rparr>))" "mount_map (mw_tree (demo_mount\<lparr>mw_tree := t\<rparr>)) (1, 1, 2) \<noteq> None"
    using t by simp_all
  from projfs_leading_zeros [OF this, of no_openers std_depot_api] show ?thesis by blast
qed

end
