(* ===== verification/Projfs.thy ===== *)
theory Projfs
  imports Projfs_Source "HOL-Library.Sorting_Algorithms"
begin

text \<open>
  The crate \<open>projfs\<close>: the callbacks Windows calls to project a directory tree, over any source of
  directory listings, metadata and file contents.  The Windows functions the callbacks use are
  parameters: how file names compare and match, the buffer directory entries are put into, the
  placeholder and file data calls.  An \<open>HRESULT\<close> is its 32 bits; a pointer that may be null is an
  option.
\<close>

unbundle bit_operations_syntax

section \<open>Windows values\<close>

type_synonym hresult = u32
type_synonym u128 = "128 word"

definition S_OK :: hresult where "S_OK = 0"
definition HR_FILE_NOT_FOUND :: hresult where "HR_FILE_NOT_FOUND = 0x80070002"
definition HR_INSUFFICIENT_BUFFER :: hresult where "HR_INSUFFICIENT_BUFFER = 0x8007007A"
definition HR_OUT_OF_MEMORY :: hresult where "HR_OUT_OF_MEMORY = 0x8007000E"
definition HR_FAIL :: hresult where "HR_FAIL = 0x80004005"

lemmas hresult_defs =
  S_OK_def HR_FILE_NOT_FOUND_def HR_INSUFFICIENT_BUFFER_def HR_OUT_OF_MEMORY_def HR_FAIL_def

definition FILE_ATTRIBUTE_READONLY :: u32 where "FILE_ATTRIBUTE_READONLY = 0x1"
definition FILE_ATTRIBUTE_DIRECTORY :: u32 where "FILE_ATTRIBUTE_DIRECTORY = 0x10"

text \<open>\<open>PRJ_CB_DATA_FLAG_ENUM_RESTART_SCAN\<close> of the Windows API.\<close>

definition RESTART_SCAN :: u32 where "RESTART_SCAN = 1"

text \<open>A wide string may be null, or hold no Unicode text.\<close>

datatype pcwstr = NullStr | WideStr string | BadStr

record guid =
  gu_data1 :: u32
  gu_data2 :: u16
  gu_data3 :: u16
  gu_data4 :: bytes

definition guid_key :: "guid \<Rightarrow> u128" where
  "guid_key g =
     push_bit 96 (ucast (gu_data1 g)) OR push_bit 80 (ucast (gu_data2 g)) OR
     push_bit 64 (ucast (gu_data3 g)) OR ucast (from_le_bytes (rev (gu_data4 g)))"

record basic_info =
  bi_is_directory :: bool
  bi_file_size :: u64
  bi_creation_time :: u64
  bi_last_access_time :: u64
  bi_last_write_time :: u64
  bi_change_time :: u64
  bi_file_attributes :: u32

definition basic_info :: "proj_meta \<Rightarrow> basic_info" where
  "basic_info m =
     \<lparr>bi_is_directory = pm_is_dir m, bi_file_size = pm_size m,
      bi_creation_time = pm_creation_time m, bi_last_access_time = pm_last_write_time m,
      bi_last_write_time = pm_last_write_time m, bi_change_time = pm_last_write_time m,
      bi_file_attributes =
        (if pm_is_dir m then FILE_ATTRIBUTE_DIRECTORY else FILE_ATTRIBUTE_READONLY)\<rparr>"

section \<open>The source and the operating system\<close>

text \<open>The trait \<open>Filesystem\<close>, over the state of the source; \<open>None\<close> is a panic.\<close>

record 'w filesystem =
  sf_list_directory :: "path_component list \<Rightarrow> 'w \<Rightarrow> (string \<times> proj_meta) list option \<times> 'w"
  sf_get_metadata :: "path_component list \<Rightarrow> 'w \<Rightarrow> proj_meta option option \<times> 'w"
  sf_read_file :: "path_component list \<Rightarrow> u64 \<Rightarrow> u32 \<Rightarrow> 'w \<Rightarrow> (io_error, bytes) outcome \<times> 'w"

definition projfs_source ::
  "('s, 'o, 'w) opener_env \<Rightarrow> depot_api \<Rightarrow> ('s, 'o, 'w) mount_world filesystem" where
  "projfs_source env api =
     \<lparr>sf_list_directory = (\<lambda>p mw. case proj_list_directory env api p mw of
         (Ok es, mw1) \<Rightarrow> (Some es, mw1) | (_, mw1) \<Rightarrow> (None, mw1)),
      sf_get_metadata = (\<lambda>p mw. case proj_get_metadata env api p mw of
         (Ok m, mw1) \<Rightarrow> (Some m, mw1) | (_, mw1) \<Rightarrow> (None, mw1)),
      sf_read_file = proj_read_file env api\<rparr>"

text \<open>
  What the callbacks use of Windows and of \<open>std::path\<close>; \<open>Some\<close> code is a failed call.  \<open>'b\<close> is
  the state of the operating system a call changes.
\<close>

record 'b win_env =
  we_components :: "string \<Rightarrow> path_component list"
  we_compare :: "string comparator"                                    \<comment> \<open>\<open>PrjFileNameCompare\<close>\<close>
  we_match :: "string \<Rightarrow> string \<Rightarrow> bool"                               \<comment> \<open>\<open>PrjFileNameMatch\<close>\<close>
  we_fill :: "string \<Rightarrow> basic_info \<Rightarrow> 'b \<Rightarrow> hresult option \<times> 'b"      \<comment> \<open>\<open>PrjFillDirEntryBuffer\<close>\<close>
  we_placeholder :: "pcwstr \<Rightarrow> basic_info \<Rightarrow> 'b \<Rightarrow> hresult option \<times> 'b"
  we_alloc :: "nat \<Rightarrow> 'b \<Rightarrow> bool \<times> 'b"
  we_write_data :: "bytes \<Rightarrow> u64 \<Rightarrow> u32 \<Rightarrow> 'b \<Rightarrow> hresult option \<times> 'b"

record enum_session =
  es_entries :: "(string \<times> basic_info) list"
  es_index :: nat
  es_search :: "string option"
  es_search_captured :: bool

record 'w proj_context =
  px_source :: 'w
  px_enums :: "u128 \<rightharpoonup> enum_session"

record cb_data =
  cb_path :: pcwstr
  cb_flags :: u32

definition path_from_pcwstr :: "'b win_env \<Rightarrow> pcwstr \<Rightarrow> path_component list" where
  "path_from_pcwstr we p = (case p of WideStr s \<Rightarrow> we_components we s | _ \<Rightarrow> [])"

text \<open>A panic must not leave a callback.\<close>

definition guard :: "hresult option \<Rightarrow> hresult" where
  "guard r = (case r of Some hr \<Rightarrow> hr | None \<Rightarrow> HR_FAIL)"

section \<open>Directory enumeration\<close>

definition start_dir_enum ::
  "'b win_env \<Rightarrow> 'w filesystem \<Rightarrow> cb_data \<Rightarrow> guid \<Rightarrow> 'w proj_context \<Rightarrow> hresult \<times> 'w proj_context" where
  "start_dir_enum we sf cb g ctx =
     (case sf_list_directory sf (path_from_pcwstr we (cb_path cb)) (px_source ctx) of
        (None, w) \<Rightarrow> (guard None, ctx\<lparr>px_source := w\<rparr>)
      | (Some es, w) \<Rightarrow>
          (let entries = Sorting_Algorithms.sort (key fst (we_compare we))
                 (map (\<lambda>(n, m). (n, basic_info m)) es)
           in (guard (Some S_OK),
               ctx\<lparr>px_source := w,
                   px_enums := (px_enums ctx)(guid_key g \<mapsto>
                     \<lparr>es_entries = entries, es_index = 0, es_search = None, es_search_captured = False\<rparr>)\<rparr>)))"

definition name_wanted :: "'b win_env \<Rightarrow> string option \<Rightarrow> string \<Rightarrow> bool" where
  "name_wanted we search name = (case search of Some pat \<Rightarrow> we_match we name pat | None \<Rightarrow> True)"

text \<open>The loop of \<open>get_dir_enum\<close>: the code, how far the index moved, the buffer.\<close>

fun fill_entries ::
  "'b win_env \<Rightarrow> string option \<Rightarrow> (string \<times> basic_info) list \<Rightarrow> bool \<Rightarrow> 'b \<Rightarrow> hresult \<times> nat \<times> 'b" where
  "fill_entries we search [] added b = (S_OK, 0, b)"
| "fill_entries we search ((name, info) # es) added b =
     (if name_wanted we search name then
        (case we_fill we name info b of
           (Some code, b1) \<Rightarrow>
             (if code \<noteq> HR_INSUFFICIENT_BUFFER then code
              else if added then S_OK else HR_INSUFFICIENT_BUFFER, 0, b1)
         | (None, b1) \<Rightarrow>
             (case fill_entries we search es True b1 of (hr, n, b2) \<Rightarrow> (hr, Suc n, b2)))
      else (case fill_entries we search es added b of (hr, n, b2) \<Rightarrow> (hr, Suc n, b2)))"

definition restart_session :: "u32 \<Rightarrow> enum_session \<Rightarrow> enum_session" where
  "restart_session flags sess =
     (if flags AND RESTART_SCAN \<noteq> 0
      then sess\<lparr>es_index := 0, es_search := None, es_search_captured := False\<rparr> else sess)"

definition capture_search :: "pcwstr \<Rightarrow> enum_session \<Rightarrow> enum_session" where
  "capture_search search sess =
     (if es_search_captured sess then sess
      else sess\<lparr>es_search := (case search of WideStr s \<Rightarrow> if s = [] then None else Some s | _ \<Rightarrow> None),
                es_search_captured := True\<rparr>)"

definition get_dir_enum ::
  "'b win_env \<Rightarrow> cb_data \<Rightarrow> guid \<Rightarrow> pcwstr \<Rightarrow> 'b \<Rightarrow> 'w proj_context \<Rightarrow> hresult \<times> 'b \<times> 'w proj_context" where
  "get_dir_enum we cb g search b ctx =
     (case px_enums ctx (guid_key g) of
        None \<Rightarrow> (guard (Some HR_FILE_NOT_FOUND), b, ctx)
      | Some sess \<Rightarrow>
          (let sess2 = capture_search search (restart_session (cb_flags cb) sess) in
           case fill_entries we (es_search sess2) (drop (es_index sess2) (es_entries sess2)) False b of
             (hr, n, b1) \<Rightarrow>
               (guard (Some hr), b1,
                ctx\<lparr>px_enums := (px_enums ctx)(guid_key g \<mapsto> sess2\<lparr>es_index := es_index sess2 + n\<rparr>)\<rparr>)))"

definition end_dir_enum :: "guid \<Rightarrow> 'w proj_context \<Rightarrow> hresult \<times> 'w proj_context" where
  "end_dir_enum g ctx = (guard (Some S_OK), ctx\<lparr>px_enums := (px_enums ctx)(guid_key g := None)\<rparr>)"

section \<open>Placeholders and data\<close>

definition get_placeholder_info ::
  "'b win_env \<Rightarrow> 'w filesystem \<Rightarrow> cb_data \<Rightarrow> 'b \<Rightarrow> 'w proj_context \<Rightarrow> hresult \<times> 'b \<times> 'w proj_context" where
  "get_placeholder_info we sf cb b ctx =
     (case sf_get_metadata sf (path_from_pcwstr we (cb_path cb)) (px_source ctx) of
        (None, w) \<Rightarrow> (guard None, b, ctx\<lparr>px_source := w\<rparr>)
      | (Some None, w) \<Rightarrow> (guard (Some HR_FILE_NOT_FOUND), b, ctx\<lparr>px_source := w\<rparr>)
      | (Some (Some meta), w) \<Rightarrow>
          (case we_placeholder we (cb_path cb) (basic_info meta) b of
             (None, b1) \<Rightarrow> (guard (Some S_OK), b1, ctx\<lparr>px_source := w\<rparr>)
           | (Some code, b1) \<Rightarrow> (guard (Some code), b1, ctx\<lparr>px_source := w\<rparr>)))"

definition get_file_data ::
  "'b win_env \<Rightarrow> 'w filesystem \<Rightarrow> cb_data \<Rightarrow> u64 \<Rightarrow> u32 \<Rightarrow> 'b \<Rightarrow> 'w proj_context \<Rightarrow>
     hresult \<times> 'b \<times> 'w proj_context" where
  "get_file_data we sf cb byteoffset len b ctx =
     (case sf_read_file sf (path_from_pcwstr we (cb_path cb)) byteoffset len (px_source ctx) of
        (Panic, w) \<Rightarrow> (guard None, b, ctx\<lparr>px_source := w\<rparr>)
      | (Err e, w) \<Rightarrow> (guard (Some HR_FAIL), b, ctx\<lparr>px_source := w\<rparr>)
      | (Ok data, w) \<Rightarrow>
          if data = [] then (guard (Some S_OK), b, ctx\<lparr>px_source := w\<rparr>)
          else
            (case we_alloc we (length data) b of
               (False, b1) \<Rightarrow> (guard (Some HR_OUT_OF_MEMORY), b1, ctx\<lparr>px_source := w\<rparr>)
             | (True, b1) \<Rightarrow>
                 (case we_write_data we data byteoffset (word_of_nat (length data)) b1 of
                    (None, b2) \<Rightarrow> (guard (Some S_OK), b2, ctx\<lparr>px_source := w\<rparr>)
                  | (Some code, b2) \<Rightarrow> (guard (Some code), b2, ctx\<lparr>px_source := w\<rparr>))))"

section \<open>Starting\<close>

text \<open>
  \<open>ProjFS::new\<close>, given whether the library is there and how the three system calls went: the
  context a started projection has.
\<close>

definition projfs_new ::
  "bool \<Rightarrow> (io_error, unit) outcome \<Rightarrow> (io_error, guid) outcome \<Rightarrow> (io_error, unit) outcome \<Rightarrow> 'w \<Rightarrow>
     (io_error, 'w proj_context) outcome" where
  "projfs_new available dir_made new_guid started source =
     (if \<not> available then Err (OsError KUnsupported)
      else
        obind dir_made (\<lambda>_.
        obind new_guid (\<lambda>_.
        omap (\<lambda>_. \<lparr>px_source = source, px_enums = Map.empty\<rparr>) started)))"

datatype enable_outcome = Enabled | EnabledRestartNeeded | Cancelled

text \<open>The exit code of the elevated command; \<open>None\<close> if it had none.\<close>

definition enable_feature_elevated :: "(io_error, int option) outcome \<Rightarrow> (io_error, enable_outcome) outcome" where
  "enable_feature_elevated status =
     obind status (\<lambda>code.
       if code = Some 0 then Ok Enabled
       else if code = Some 3010 then Ok EnabledRestartNeeded
       else if code = Some 1223 then Ok Cancelled
       else Err (OsError KOther))"

section \<open>Keys\<close>

lemma guid_key_parts:
  "ucast (drop_bit 96 (guid_key g)) = gu_data1 g"
  "ucast (drop_bit 80 (guid_key g)) = gu_data2 g"
  "ucast (drop_bit 64 (guid_key g)) = gu_data3 g"
  "ucast (guid_key g) = from_le_bytes (rev (gu_data4 g))"
  by (rule bit_word_eqI; auto simp: guid_key_def bit_simps dest: bit_imp_le_length)+

lemma from_le_bytes_inject:
  assumes "length xs = 8" and "length ys = 8" and "from_le_bytes xs = from_le_bytes ys"
  shows "xs = ys"
proof -
  have lt: "le_value zs < 256 ^ length zs" for zs :: bytes
  proof (induction zs)
    case (Cons z zs)
    have "unat z < 256" using unsigned_less [of z, where 'a = nat] by simp
    then show ?case using Cons by (simp add: le_value_def)
  qed (simp add: le_value_def)
  have inj: "length zs = length us \<Longrightarrow> le_value zs = le_value us \<Longrightarrow> zs = us" for zs us :: bytes
  proof (induction zs us rule: list_induct2)
    case (Cons z zs u us)
    have m: "unat z < 256" "unat u < 256"
      using unsigned_less [of z, where 'a = nat] unsigned_less [of u, where 'a = nat] by simp_all
    have e: "unat z + 256 * le_value zs = unat u + 256 * le_value us"
      using Cons.prems by (simp add: le_value_def)
    then have "(unat z + 256 * le_value zs) mod 256 = (unat u + 256 * le_value us) mod 256" by simp
    then have "unat z = unat u" using m by simp
    then show ?case using Cons.IH e by (simp add: word_unat_eq_iff)
  qed simp
  have "le_value xs < 2 ^ 64" "le_value ys < 2 ^ 64" using lt [of xs] lt [of ys] assms(1,2) by simp_all
  then have "le_value xs = le_value ys"
    using arg_cong [OF assms(3), of unat] by (simp add: from_le_bytes_def unat_of_nat)
  then show ?thesis using inj assms(1,2) by simp
qed

text \<open>
  The key under which an enumeration is kept determines its GUID: two enumerations that
  Windows tells apart never share a session.
\<close>

theorem guid_key_injective:
  assumes "length (gu_data4 g) = 8" and "length (gu_data4 h) = 8"
  shows "guid_key g = guid_key h \<longleftrightarrow> g = h"
proof
  assume k: "guid_key g = guid_key h"
  note p = guid_key_parts [of g, unfolded k] guid_key_parts [of h]
  have "rev (gu_data4 g) = rev (gu_data4 h)"
    using from_le_bytes_inject [of "rev (gu_data4 g)" "rev (gu_data4 h)"] assms p(4,8) by simp
  then show "g = h" using p by (intro guid.equality) simp_all
qed simp

theorem guid_key_injective_witness:
  "guid_key \<lparr>gu_data1 = 1, gu_data2 = 0, gu_data3 = 0, gu_data4 = replicate 8 0\<rparr> \<noteq>
   guid_key \<lparr>gu_data1 = 0, gu_data2 = 0, gu_data3 = 0, gu_data4 = replicate 8 0\<rparr>"
proof -
  let ?g = "\<lparr>gu_data1 = 1, gu_data2 = 0, gu_data3 = 0, gu_data4 = replicate 8 0\<rparr>"
  let ?h = "\<lparr>gu_data1 = 0, gu_data2 = 0, gu_data3 = 0, gu_data4 = replicate 8 0\<rparr>"
  have "length (gu_data4 ?g) = 8" "length (gu_data4 ?h) = 8" by simp_all
  from guid_key_injective [OF this] show ?thesis by simp
qed

section \<open>Complete enumerations\<close>

text \<open>
  A buffer as \<open>PrjFillDirEntryBuffer\<close> promises: it takes an entry or reports that it is full,
  and an empty one takes any entry.
\<close>

definition honest_buffer ::
  "'b win_env \<Rightarrow> ('b \<Rightarrow> (string \<times> basic_info) list) \<Rightarrow> 'b \<Rightarrow> bool" where
  "honest_buffer we contents fresh \<longleftrightarrow>
     contents fresh = [] \<and> (\<forall>n i. fst (we_fill we n i fresh) = None) \<and>
     (\<forall>n i b b'. we_fill we n i b = (None, b') \<longrightarrow> contents b' = contents b @ [(n, i)]) \<and>
     (\<forall>n i b b' code. we_fill we n i b = (Some code, b') \<longrightarrow>
        code = HR_INSUFFICIENT_BUFFER \<and> contents b' = contents b)"

definition wanted :: "'b win_env \<Rightarrow> string option \<Rightarrow> (string \<times> basic_info) list \<Rightarrow> (string \<times> basic_info) list" where
  "wanted we search es = filter (\<lambda>e. name_wanted we search (fst e)) es"

lemma fill_entries_spec:
  assumes "honest_buffer we contents fresh" and "fill_entries we search es added b = (hr, n, b')"
    and "\<not> added \<longrightarrow> b = fresh"
  shows "hr = S_OK \<and> n \<le> length es \<and> contents b' = contents b @ wanted we search (take n es) \<and>
    (n < length es \<longrightarrow> added \<or> wanted we search (take n es) \<noteq> [])"
  using assms(2,3)
proof (induction es arbitrary: added b hr n)
  case (Cons e es)
  obtain name info where e: "e = (name, info)" by fastforce
  show ?case
  proof (cases "name_wanted we search name")
    case False
    then obtain n1 where "fill_entries we search es added b = (hr, n1, b')" "n = Suc n1"
      using Cons.prems(1) e by (auto split: prod.splits)
    then show ?thesis using Cons.IH Cons.prems(2) False e by (auto simp: wanted_def)
  next
    case True
    obtain r b1 where f: "we_fill we name info b = (r, b1)" by fastforce
    show ?thesis
    proof (cases r)
      case None
      then obtain n1 where r: "fill_entries we search es True b1 = (hr, n1, b')" "n = Suc n1"
        using Cons.prems(1) e True f by (auto split: prod.splits)
      have "contents b1 = contents b @ [(name, info)]"
        using assms(1) f None unfolding honest_buffer_def by blast
      then show ?thesis using Cons.IH [OF r(1)] r(2) True e by (simp add: wanted_def)
    next
      case (Some code)
      have c: "code = HR_INSUFFICIENT_BUFFER" "contents b1 = contents b"
        using assms(1) f Some unfolding honest_buffer_def by blast+
      have "b \<noteq> fresh" using assms(1) f Some unfolding honest_buffer_def by (metis fst_conv option.distinct(1))
      then show ?thesis using Cons.prems e True f Some c by (auto simp: wanted_def)
    qed
  qed
qed (simp add: wanted_def)

text \<open>A client: call after call with an empty buffer, until a call brings nothing.\<close>

fun enum_loop ::
  "nat \<Rightarrow> 'b win_env \<Rightarrow> ('b \<Rightarrow> (string \<times> basic_info) list) \<Rightarrow> 'b \<Rightarrow> guid \<Rightarrow> pcwstr \<Rightarrow> 'w proj_context \<Rightarrow>
     (string \<times> basic_info) list option" where
  "enum_loop 0 we contents fresh g search ctx = None"
| "enum_loop (Suc k) we contents fresh g search ctx =
     (case get_dir_enum we \<lparr>cb_path = NullStr, cb_flags = 0\<rparr> g search fresh ctx of
        (hr, b, ctx1) \<Rightarrow>
          if hr \<noteq> S_OK then None
          else if contents b = [] then Some []
          else map_option (\<lambda>es. contents b @ es) (enum_loop k we contents fresh g search ctx1))"

definition search_of :: "pcwstr \<Rightarrow> string option" where
  "search_of search = (case search of WideStr s \<Rightarrow> if s = [] then None else Some s | _ \<Rightarrow> None)"

lemma enum_loop_spec:
  assumes "honest_buffer we contents fresh" and "px_enums ctx (guid_key g) = Some sess"
    and "es_search (capture_search search sess) = srch" and "es_index sess \<le> length (es_entries sess)"
    and "length (es_entries sess) - es_index sess < k"
  shows "enum_loop k we contents fresh g search ctx =
    Some (wanted we srch (drop (es_index sess) (es_entries sess)))"
  using assms(2-5)
proof (induction k arbitrary: ctx sess)
  case (Suc k)
  let ?s = "capture_search search sess"
  have s: "es_entries ?s = es_entries sess" "es_index ?s = es_index sess" "es_search_captured ?s"
    by (simp_all add: capture_search_def)
  let ?es = "drop (es_index sess) (es_entries sess)"
  obtain hr n b where f: "fill_entries we srch ?es False fresh = (hr, n, b)"
    by (metis prod_cases3)
  from fill_entries_spec [OF assms(1) f] assms(1)
  have p: "hr = S_OK" "n \<le> length ?es" "contents b = wanted we srch (take n ?es)"
    "n < length ?es \<longrightarrow> wanted we srch (take n ?es) \<noteq> []" by (auto simp: honest_buffer_def)
  let ?ctx = "ctx\<lparr>px_enums := (px_enums ctx)(guid_key g \<mapsto> ?s\<lparr>es_index := es_index sess + n\<rparr>)\<rparr>"
  have g: "get_dir_enum we \<lparr>cb_path = NullStr, cb_flags = 0\<rparr> g search fresh ctx = (S_OK, b, ?ctx)"
    using Suc.prems(1,2) f s p(1) by (simp add: get_dir_enum_def restart_session_def Let_def guard_def)
  show ?case
  proof (cases "contents b = []")
    case True
    then have "n = length ?es" using p by (cases "n < length ?es") auto
    then have "wanted we srch ?es = []" using True p(3) by simp
    then show ?thesis using g True by simp
  next
    case False
    then have n0: "0 < n" using p(3) by (cases n) (auto simp: wanted_def)
    have "enum_loop k we contents fresh g search ?ctx =
        Some (wanted we srch (drop (es_index sess + n) (es_entries sess)))"
      using Suc.IH [of ?ctx "?s\<lparr>es_index := es_index sess + n\<rparr>"] Suc.prems p(2) n0 s
      by (simp add: capture_search_def)
    moreover have "wanted we srch (take n ?es) @ wanted we srch (drop n ?es) = wanted we srch ?es"
      unfolding wanted_def filter_append [symmetric] append_take_drop_id ..
    ultimately show ?thesis using g False p(3) by (simp add: add.commute)
  qed
qed simp

text \<open>
  C30: A directory enumeration is complete.  After a start, calling for entries until a call brings
  none yields every entry of the directory that matches the search, each once, in the order
  Windows requires, however many entries a buffer holds; one call more than there are entries is
  always enough, and no call fails.
\<close>

theorem projfs_enumeration_complete:
  assumes "honest_buffer we contents fresh"
    and "sf_list_directory sf (path_from_pcwstr we (cb_path cb)) (px_source ctx) = (Some es, w)"
    and "start_dir_enum we sf cb g ctx = (hr, ctx1)"
  shows "hr = S_OK \<and>
    (\<exists>out. enum_loop (length es + 1) we contents fresh g search ctx1 = Some out \<and>
       mset out = mset (filter (\<lambda>e. name_wanted we (search_of search) (fst e)) (map (\<lambda>(n, m). (n, basic_info m)) es)) \<and>
       Sorting_Algorithms.sorted (key fst (we_compare we)) out)"
proof -
  let ?all = "map (\<lambda>(n, m). (n, basic_info m)) es" and ?cmp = "key fst (we_compare we)"
  let ?sorted = "Sorting_Algorithms.sort ?cmp ?all"
  let ?sess = "\<lparr>es_entries = ?sorted, es_index = 0, es_search = None, es_search_captured = False\<rparr>"
  have c: "hr = S_OK" "px_enums ctx1 (guid_key g) = Some ?sess"
    using assms(2,3) by (auto simp: start_dir_enum_def Let_def guard_def)
  have "enum_loop (length es + 1) we contents fresh g search ctx1 = Some (wanted we (search_of search) ?sorted)"
    using enum_loop_spec [OF assms(1) c(2), of search "search_of search" "length es + 1"]
    by (simp add: capture_search_def search_of_def)
  moreover have "mset (wanted we (search_of search) ?sorted) =
      mset (filter (\<lambda>e. name_wanted we (search_of search) (fst e)) ?all)"
    by (simp add: wanted_def mset_filter)
  moreover have "Sorting_Algorithms.sorted ?cmp (wanted we (search_of search) ?sorted)"
  proof -
    have "wanted we (search_of search) ?sorted =
        Sorting_Algorithms.sort ?cmp (filter (\<lambda>e. name_wanted we (search_of search) (fst e)) ?all)"
      unfolding wanted_def by (rule filter_sort)
    then show ?thesis by simp
  qed
  ultimately show ?thesis using c(1) by blast
qed

lemma restart_session_eq:
  "restart_session flags sess =
     (if flags AND RESTART_SCAN \<noteq> 0
      then \<lparr>es_entries = es_entries sess, es_index = 0, es_search = None, es_search_captured = False\<rparr> else sess)"
  by (cases sess) (simp add: restart_session_def)

text \<open>
  Enumerations do not disturb each other.  A call for one GUID leaves the sessions of all
  others, and the source, as they were; with the restart flag it does what the first call after
  a fresh start would do; and after the end of an enumeration its GUID is unknown.
\<close>

theorem projfs_sessions:
  assumes "get_dir_enum we cb g search b ctx = (hr, b', ctx')"
  shows "px_source ctx' = px_source ctx \<and>
    (\<forall>k. k \<noteq> guid_key g \<longrightarrow> px_enums ctx' k = px_enums ctx k) \<and>
    (\<forall>sess. px_enums ctx (guid_key g) = Some sess \<and> cb_flags cb AND RESTART_SCAN \<noteq> 0 \<longrightarrow>
       (hr, b', ctx') = get_dir_enum we (cb\<lparr>cb_flags := 0\<rparr>) g search b
         (ctx\<lparr>px_enums := (px_enums ctx)(guid_key g \<mapsto> \<lparr>es_entries = es_entries sess, es_index = 0,
            es_search = None, es_search_captured = False\<rparr>)\<rparr>)) \<and>
    fst (get_dir_enum we cb g search b (snd (end_dir_enum g ctx'))) = HR_FILE_NOT_FOUND"
  using assms
  by (auto simp: get_dir_enum_def end_dir_enum_def guard_def restart_session_eq Let_def
      split: option.splits prod.splits)

text \<open>
  The times of files are right: for a creation time of 32 bits other than 0 the conversion
  to a \<open>FILETIME\<close> does not overflow, and later times convert to later ones.
\<close>

theorem filetime_exact:
  "(c \<noteq> 0 \<longrightarrow> sint (unix_to_filetime (ucast (c :: u32))) = (uint c + 11644473600) * 10000000) \<and>
   (c < c' \<longrightarrow> sint (unix_to_filetime (ucast c)) < sint (unix_to_filetime (ucast c')))"
proof -
  have gen: "sint w = uint w" if "uint w < 2 ^ 63" for w :: u64
  proof -
    have "0 \<le> uint w" by simp
    then have "- (2 ^ 63) \<le> uint w" by (rule order_trans [rotated]) simp
    then show ?thesis using that signed_take_bit_int_eq_self [of 63 "uint w"] by (simp add: sint_uint)
  qed
  have v: "sint (unix_to_filetime (ucast x)) = (if x = 0 then 0 else (uint x + 11644473600) * 10000000)" for x :: u32
  proof (cases "x = 0")
    case False
    have b: "0 \<le> uint x" "uint x < 2 ^ 32" using unsigned_less [of x, where 'a = int] by simp_all
    have z: "(ucast x :: u64) \<noteq> 0" using False using unat_ucast_u32_u64 [of x] by (metis unsigned_0 unsigned_word_eqI)
    have "uint ((ucast x + 11644473600) * 10000000 :: u64) = ((uint x + 11644473600) * 10000000) mod 2 ^ 64"
    proof -
      have "uint (ucast x :: u64) = uint x" using b by (simp add: unsigned_ucast_eq take_bit_int_eq_self)
      then show ?thesis by (simp add: uint_word_ariths mod_simps)
    qed
    also have "\<dots> = (uint x + 11644473600) * 10000000" using b by (intro mod_pos_pos_trivial) simp_all
    finally have u: "uint ((ucast x + 11644473600) * 10000000 :: u64) = (uint x + 11644473600) * 10000000" .
    then have "uint ((ucast x + 11644473600) * 10000000 :: u64) < 2 ^ 63" using b by simp
    then have "sint ((ucast x + 11644473600) * 10000000 :: u64) = uint ((ucast x + 11644473600) * 10000000 :: u64)"
      by (rule gen)
    then show ?thesis using False z u by (simp add: unix_to_filetime_def)
  qed (simp add: unix_to_filetime_def)
  show ?thesis unfolding v
    by (auto simp: word_less_def)
qed


section \<open>A small projection\<close>

definition demo_win :: "(string \<times> basic_info) list win_env" where
  "demo_win =
     \<lparr>we_components = (\<lambda>s. [Normal s]), we_compare = default, we_match = (\<lambda>n pat. n = pat),
      we_fill = (\<lambda>n i b. if b = [] then (None, [(n, i)]) else (Some HR_INSUFFICIENT_BUFFER, b)),
      we_placeholder = (\<lambda>_ _ b. (None, b)), we_alloc = (\<lambda>_ b. (True, b)),
      we_write_data = (\<lambda>_ _ _ b. (None, b))\<rparr>"

definition demo_source :: "unit filesystem" where
  "demo_source =
     \<lparr>sf_list_directory = (\<lambda>_ w. (Some [(''b'', dir_meta), (''a'', dir_meta)], w)),
      sf_get_metadata = (\<lambda>_ w. (Some (Some dir_meta), w)), sf_read_file = (\<lambda>_ _ _ w. (Ok [], w))\<rparr>"

definition demo_guid :: guid where
  "demo_guid = \<lparr>gu_data1 = 1, gu_data2 = 2, gu_data3 = 3, gu_data4 = replicate 8 4\<rparr>"

theorem projfs_enumeration_complete_witness:
  "\<exists>ctx out. start_dir_enum demo_win demo_source \<lparr>cb_path = NullStr, cb_flags = 0\<rparr> demo_guid
      \<lparr>px_source = (), px_enums = Map.empty\<rparr> = (S_OK, ctx) \<and>
    enum_loop 3 demo_win (\<lambda>b. b) [] demo_guid (WideStr ''a'') ctx = Some out \<and>
    mset out = {#(''a'', basic_info dir_meta)#}"
proof -
  let ?cb = "\<lparr>cb_path = NullStr, cb_flags = 0\<rparr>" and ?ctx = "\<lparr>px_source = (), px_enums = Map.empty\<rparr>"
  have h: "honest_buffer demo_win (\<lambda>b. b) []" by (simp add: honest_buffer_def demo_win_def)
  have l: "sf_list_directory demo_source (path_from_pcwstr demo_win (cb_path ?cb)) (px_source ?ctx) =
      (Some [(''b'', dir_meta), (''a'', dir_meta)], ())" by (simp add: demo_source_def)
  obtain hr ctx1 where s: "start_dir_enum demo_win demo_source ?cb demo_guid ?ctx = (hr, ctx1)" by fastforce
  have n: "length [(''b'', dir_meta), (''a'', dir_meta)] + 1 = 3" by simp
  from projfs_enumeration_complete [OF h l s, of "WideStr ''a''", unfolded n]
  obtain out where "hr = S_OK" "enum_loop 3 demo_win (\<lambda>b. b) [] demo_guid (WideStr ''a'') ctx1 = Some out"
    "mset out = mset (filter (\<lambda>e. name_wanted demo_win (search_of (WideStr ''a'')) (fst e))
       (map (\<lambda>(n, m). (n, basic_info m)) [(''b'', dir_meta), (''a'', dir_meta)]))" by blast
  then show ?thesis using s by (simp add: name_wanted_def search_of_def demo_win_def)
qed

theorem projfs_sessions_witness:
  "\<exists>hr b ctx. get_dir_enum demo_win \<lparr>cb_path = NullStr, cb_flags = 1\<rparr> demo_guid NullStr []
      \<lparr>px_source = (), px_enums = Map.empty\<rparr> = (hr, b, ctx) \<and>
    fst (get_dir_enum demo_win \<lparr>cb_path = NullStr, cb_flags = 1\<rparr> demo_guid NullStr [] (snd (end_dir_enum demo_guid ctx))) =
      HR_FILE_NOT_FOUND"
proof -
  obtain hr b ctx where g: "get_dir_enum demo_win \<lparr>cb_path = NullStr, cb_flags = 1\<rparr> demo_guid NullStr []
      \<lparr>px_source = (), px_enums = Map.empty\<rparr> = (hr, b, ctx)" by (metis prod_cases3)
  from projfs_sessions [OF g] g show ?thesis by blast
qed

theorem filetime_exact_witness:
  "sint (unix_to_filetime (ucast (1 :: u32))) = 116444736010000000 \<and>
   sint (unix_to_filetime (ucast (1 :: u32))) < sint (unix_to_filetime (ucast (2 :: u32)))"
proof -
  have "(1 :: u32) < 2" by simp
  with filetime_exact [of 1 2] show ?thesis by simp
qed

end
