(* ===== verification/Nfs_Session.thy ===== *)
theory Nfs_Session
  imports Cli_Config Chunk_Audit
begin

text \<open>
  The life of an NFS mount on Linux and macOS, \<open>nfs_session.rs\<close>: the mountpoint is cleared of what a
  crashed process left there, the server is started, the \<open>mount\<close> command run and its output
  judged, and in the end the mount is taken down, politely or by force.

  The kernel is a parameter: its mount table, the commands it runs, the directories it resolves
  and makes, its clock.  Every call may change its state \<open>'k\<close>.
\<close>

section \<open>Text of the mount table\<close>

definition op_file_name :: "os_path \<Rightarrow> string option" where
  "op_file_name p =
     (if op_components p = [] \<or> last (op_components p) = ''..'' then None
      else Some (last (op_components p)))"

text \<open>\<open>Path::new\<close>, compared by components: empty ones and dots in the middle do not count.\<close>

definition path_of_str :: "string \<Rightarrow> os_path" where
  "path_of_str s =
     (let raw = split_on (CHR ''/'') s;
          absolute = (take 1 s = ''/'')
      in \<lparr>op_absolute = absolute,
          op_components =
            (if \<not> absolute \<and> take 1 raw = [''.''] then [''.''] else []) @
            filter (\<lambda>c. c \<noteq> [] \<and> c \<noteq> ''.'') raw\<rparr>)"

text \<open>\<open>str::split_whitespace\<close> and \<open>str::lines\<close>.\<close>

fun split_whitespace_from :: "string \<Rightarrow> string \<Rightarrow> string list" where
  "split_whitespace_from word [] = (if word = [] then [] else [word])"
| "split_whitespace_from word (c # cs) =
     (if is_white c then (if word = [] then [] else [word]) @ split_whitespace_from [] cs
      else split_whitespace_from (word @ [c]) cs)"

definition split_whitespace :: "string \<Rightarrow> string list" where
  "split_whitespace s = split_whitespace_from [] s"

definition text_lines :: "string \<Rightarrow> string list" where
  "text_lines s =
     (let ls = split_on (CHR 0x0A) s;
          ended = (if last ls = [] then butlast ls else ls)
      in map (\<lambda>l. case strip_suffix [CHR 0x0D] l of Some l' \<Rightarrow> l' | None \<Rightarrow> l) ended)"

section \<open>The kernel\<close>

record exit_status =
  ex_success :: bool
  ex_stdout :: string
  ex_stderr :: string

text \<open>
  The code is compiled for one of two platforms.  On Linux the mount table is the text of
  \<open>/proc/self/mounts\<close>; on macOS it is what \<open>getfsstat\<close> answers: the number of mounts when asked
  without a buffer (\<open>None\<close>), and the names of as many as the buffer holds when asked with one, each
  name in an array that a NUL may end.  A negative answer is an error.
\<close>

datatype platform = Linux | MacOS

record 'k kernel =
  kn_platform :: platform
  kn_euid :: nat
  kn_mounts :: "'k \<Rightarrow> (io_error, string) outcome"
  kn_getfsstat :: "nat option \<Rightarrow> 'k \<Rightarrow> int \<times> string list"
  kn_last_os_error :: "'k \<Rightarrow> io_error"
  kn_run :: "string \<Rightarrow> string list \<Rightarrow> 'k \<Rightarrow> (io_error, exit_status) outcome \<times> 'k"
  kn_canonicalize :: "os_path \<Rightarrow> 'k \<Rightarrow> os_path option"
  kn_create_dir_all :: "os_path \<Rightarrow> 'k \<Rightarrow> (io_error, unit) outcome \<times> 'k"
  kn_bind :: "'k \<Rightarrow> (io_error, u16) outcome \<times> 'k"
  kn_sleep :: "'k \<Rightarrow> 'k"                                              \<comment> \<open>50 ms\<close>
  kn_now :: "'k \<Rightarrow> nat"                                               \<comment> \<open>ms\<close>
  kn_path_text :: "os_path \<Rightarrow> string"

datatype nfs_mount_error =
    BindError io_error | MountpointError io_error | MountCommand io_error
  | MountFailed string | MountOptionRejected string
  | UnmountError io_error | UnmountFailed | MountTable io_error | UnmountDidNotSettle
  | UnsupportedPlatform

definition UMOUNT_SETTLE_TIMEOUT :: nat where
  "UMOUNT_SETTLE_TIMEOUT = 10000"

definition ATTR_CACHE_SECS :: nat where
  "ATTR_CACHE_SECS = 60 * 60"

section \<open>Is it mounted?\<close>

definition resolved :: "'k kernel \<Rightarrow> os_path \<Rightarrow> 'k \<Rightarrow> os_path option" where
  "resolved kn p k =
     (case (op_parent p, op_file_name p) of
        (Some parent, Some name) \<Rightarrow>
          map_option (\<lambda>q. op_join q \<lparr>op_absolute = False, op_components = [name]\<rparr>)
            (kn_canonicalize kn parent k)
      | _ \<Rightarrow> kn_canonicalize kn p k)"

definition is_mounted_linux :: "'k kernel \<Rightarrow> os_path \<Rightarrow> 'k \<Rightarrow> (nfs_mount_error, bool) outcome" where
  "is_mounted_linux kn p k =
     (case resolved kn p k of
        None \<Rightarrow> Ok False
      | Some wanted \<Rightarrow>
          omap (\<lambda>mounts.
              list_ex (\<lambda>line. case get_at (split_whitespace line) 1 of
                                Some on \<Rightarrow> path_of_str on = wanted | None \<Rightarrow> False)
                (text_lines mounts))
            (omap_err MountTable (kn_mounts kn k)))"

definition mount_name :: "string \<Rightarrow> string" where
  "mount_name f_mntonname = takeWhile (\<lambda>c. c \<noteq> CHR 0x00) f_mntonname"

definition is_mounted_macos :: "'k kernel \<Rightarrow> os_path \<Rightarrow> 'k \<Rightarrow> (nfs_mount_error, bool) outcome" where
  "is_mounted_macos kn p k =
     (case resolved kn p k of
        None \<Rightarrow> Ok False
      | Some wanted \<Rightarrow>
          (let found = fst (kn_getfsstat kn None k) in
           if found \<le> 0 then Err (MountTable (kn_last_os_error kn k))
           else
             (case kn_getfsstat kn (Some (nat found)) k of (got, entries) \<Rightarrow>
                if got < 0 then Err (MountTable (kn_last_os_error kn k))
                else Ok (list_ex (\<lambda>fs. path_of_str (mount_name fs) = wanted) (take (nat got) entries)))))"

definition is_mounted :: "'k kernel \<Rightarrow> os_path \<Rightarrow> 'k \<Rightarrow> (nfs_mount_error, bool) outcome" where
  "is_mounted kn p k =
     (case kn_platform kn of Linux \<Rightarrow> is_mounted_linux kn p k | MacOS \<Rightarrow> is_mounted_macos kn p k)"

section \<open>Commands\<close>

definition privileged :: "'k kernel \<Rightarrow> string \<Rightarrow> string \<times> string list" where
  "privileged kn program =
     (if kn_platform kn = Linux \<and> kn_euid kn \<noteq> 0 then (''sudo'', [''-n'', program]) else (program, []))"

definition run_privileged ::
  "'k kernel \<Rightarrow> string \<Rightarrow> string list \<Rightarrow> 'k \<Rightarrow> (io_error, exit_status) outcome \<times> 'k" where
  "run_privileged kn program args k =
     (case privileged kn program of (cmd, pre) \<Rightarrow> kn_run kn cmd (pre @ args) k)"

definition check_mount_output :: "exit_status \<Rightarrow> (nfs_mount_error, unit) outcome" where
  "check_mount_output out =
     (let complaint = join_with ''; '' (filter (\<lambda>t. t \<noteq> []) (map trim [ex_stdout out, ex_stderr out]))
      in if \<not> ex_success out then Err (MountFailed complaint)
         else if complaint \<noteq> [] then Err (MountOptionRejected complaint)
         else Ok ())"

definition mount_options_macos :: "u16 \<Rightarrow> string" where
  "mount_options_macos port =
     ''rdonly,locallocks,vers=3,tcp,rsize=1048576,actimeo='' @ dec_digits ATTR_CACHE_SECS @
     '',port='' @ to_dec port @ '',mountport='' @ to_dec port"

definition mount_options_linux :: "u16 \<Rightarrow> string" where
  "mount_options_linux port =
     ''ro,nolock,vers=3,tcp,rsize=1048576,actimeo='' @ dec_digits ATTR_CACHE_SECS @
     '',port='' @ to_dec port @ '',mountport='' @ to_dec port"

definition run_mount_program ::
  "'k kernel \<Rightarrow> string \<Rightarrow> string \<Rightarrow> os_path \<Rightarrow> 'k \<Rightarrow> (nfs_mount_error, unit) outcome \<times> 'k" where
  "run_mount_program kn program opts mountpoint k =
     (case run_privileged kn program [''-o'', opts, ''127.0.0.1:/'', kn_path_text kn mountpoint] k of
        (Err e, k1) \<Rightarrow> (Err (MountCommand e), k1)
      | (Panic, k1) \<Rightarrow> (Panic, k1)
      | (Ok out, k1) \<Rightarrow> (check_mount_output out, k1))"

definition run_mount :: "'k kernel \<Rightarrow> os_path \<Rightarrow> u16 \<Rightarrow> 'k \<Rightarrow> (nfs_mount_error, unit) outcome \<times> 'k" where
  "run_mount kn mountpoint port k =
     (case kn_platform kn of
        MacOS \<Rightarrow> run_mount_program kn ''mount_nfs'' (mount_options_macos port) mountpoint k
      | Linux \<Rightarrow> run_mount_program kn ''mount.nfs'' (mount_options_linux port) mountpoint k)"

section \<open>Clearing the mountpoint\<close>

text \<open>
  The wait for the mount table; \<open>None\<close> when the fuel runs out, which it does not while the clock
  goes forward.
\<close>

fun await_unmounted :: "nat \<Rightarrow> 'k kernel \<Rightarrow> os_path \<Rightarrow> nat \<Rightarrow> 'k \<Rightarrow> ((nfs_mount_error, unit) outcome \<times> 'k) option" where
  "await_unmounted 0 kn mountpoint deadline k = None"
| "await_unmounted (Suc fuel) kn mountpoint deadline k =
     (case is_mounted kn mountpoint k of
        Err e \<Rightarrow> Some (Err e, k)
      | Panic \<Rightarrow> Some (Panic, k)
      | Ok False \<Rightarrow> Some (Ok (), k)
      | Ok True \<Rightarrow>
          if deadline \<le> kn_now kn k then Some (Err UnmountDidNotSettle, k)
          else await_unmounted fuel kn mountpoint deadline (kn_sleep kn k))"

definition force_unmount_if_mounted ::
  "nat \<Rightarrow> 'k kernel \<Rightarrow> os_path \<Rightarrow> 'k \<Rightarrow> ((nfs_mount_error, unit) outcome \<times> 'k) option" where
  "force_unmount_if_mounted fuel kn mountpoint k =
     (case is_mounted kn mountpoint k of
        Err e \<Rightarrow> Some (Err e, k)
      | Panic \<Rightarrow> Some (Panic, k)
      | Ok False \<Rightarrow> Some (Ok (), k)
      | Ok True \<Rightarrow>
          (case run_privileged kn ''umount'' [''-f'', kn_path_text kn mountpoint] k of
             (Err e, k1) \<Rightarrow> Some (Err (UnmountError e), k1)
           | (Panic, k1) \<Rightarrow> Some (Panic, k1)
           | (Ok out, k1) \<Rightarrow>
               if \<not> ex_success out then Some (Err UnmountFailed, k1)
               else await_unmounted fuel kn mountpoint (kn_now kn k1 + UMOUNT_SETTLE_TIMEOUT) k1))"

definition prepare_mountpoint ::
  "nat \<Rightarrow> 'k kernel \<Rightarrow> os_path \<Rightarrow> 'k \<Rightarrow> ((nfs_mount_error, unit) outcome \<times> 'k) option" where
  "prepare_mountpoint fuel kn mountpoint k =
     (case force_unmount_if_mounted fuel kn mountpoint k of
        None \<Rightarrow> None
      | Some (Ok _, k1) \<Rightarrow>
          Some (case kn_create_dir_all kn mountpoint k1 of (r, k2) \<Rightarrow> (omap_err MountpointError r, k2))
      | Some (r, k1) \<Rightarrow> Some (r, k1))"

section \<open>The handle\<close>

text \<open>\<open>nm_serving\<close>: the server task runs.  \<open>nm_mounted\<close> is the handle's flag.\<close>

record nfs_mount =
  nm_mountpoint :: os_path
  nm_serving :: bool
  nm_mounted :: bool

definition nfs_start ::
  "nat \<Rightarrow> 'k kernel \<Rightarrow> os_path \<Rightarrow> 'k \<Rightarrow> ((nfs_mount_error, nfs_mount) outcome \<times> bool \<times> 'k) option" where
  "nfs_start fuel kn mountpoint k =
     (case kn_bind kn k of
        (Err e, k1) \<Rightarrow> Some (Err (BindError e), False, k1)
      | (Panic, k1) \<Rightarrow> Some (Panic, False, k1)
      | (Ok port, k1) \<Rightarrow>
          (case prepare_mountpoint fuel kn mountpoint k1 of
             None \<Rightarrow> None
           | Some (Err e, k2) \<Rightarrow> Some (Err e, False, k2)
           | Some (Panic, k2) \<Rightarrow> Some (Panic, True, k2)
           | Some (Ok _, k2) \<Rightarrow>
               (case run_mount kn mountpoint port k2 of
                  (Err e, k3) \<Rightarrow>
                    (case force_unmount_if_mounted fuel kn mountpoint k3 of
                       None \<Rightarrow> None
                     | Some (Panic, k4) \<Rightarrow> Some (Panic, False, k4)
                     | Some (_, k4) \<Rightarrow> Some (Err e, False, k4))
                | (Panic, k3) \<Rightarrow> Some (Panic, True, k3)
                | (Ok _, k3) \<Rightarrow>
                    Some (Ok \<lparr>nm_mountpoint = mountpoint, nm_serving = True, nm_mounted = True\<rparr>, True, k3))))"

definition nfs_drop :: "'k kernel \<Rightarrow> nfs_mount \<Rightarrow> 'k \<Rightarrow> nfs_mount \<times> 'k" where
  "nfs_drop kn h k =
     (if \<not> nm_mounted h then (h, k)
      else
        (case run_privileged kn ''umount'' [''-f'', kn_path_text kn (nm_mountpoint h)] k of
           (_, k1) \<Rightarrow> (h\<lparr>nm_serving := False\<rparr>, k1)))"

text \<open>\<open>unmount\<close> takes the handle: whatever it returns, the handle is dropped at its end.\<close>

definition nfs_unmount ::
  "'k kernel \<Rightarrow> nfs_mount \<Rightarrow> 'k \<Rightarrow> (nfs_mount_error, unit) outcome \<times> nfs_mount \<times> 'k" where
  "nfs_unmount kn h k =
     (case run_privileged kn ''umount'' [kn_path_text kn (nm_mountpoint h)] k of
        (Err e, k1) \<Rightarrow> (Err (UnmountError e), nfs_drop kn h k1)
      | (Panic, k1) \<Rightarrow> (Panic, nfs_drop kn h k1)
      | (Ok out, k1) \<Rightarrow>
          (let h1 = h\<lparr>nm_serving := False\<rparr> in
           if \<not> ex_success out then (Err UnmountFailed, nfs_drop kn h1 k1)
           else (Ok (), nfs_drop kn (h1\<lparr>nm_mounted := False\<rparr>) k1)))"

section \<open>Properties\<close>

text \<open>
  The output of the mount command is judged by both its exit status and what it printed: the
  mount counts only if the command succeeded in silence, and an option it complains about fails
  the mount even when its exit status is 0.
\<close>

theorem mount_output_judged:
  "(check_mount_output out = Ok () \<longleftrightarrow> ex_success out \<and> trim (ex_stdout out) = [] \<and> trim (ex_stderr out) = []) \<and>
   (check_mount_output \<lparr>ex_success = True, ex_stdout = [], ex_stderr = s\<rparr> =
      (if trim s = [] then Ok () else Err (MountOptionRejected (trim s)))) \<and>
   ((\<exists>c. check_mount_output out = Err (MountFailed c)) \<longleftrightarrow> \<not> ex_success out)"
proof -
  have t: "trim [] = []" by (simp add: trim_def)
  have j: "join_with ''; '' (filter (\<lambda>t. t \<noteq> []) [a, b]) = [] \<longleftrightarrow> a = [] \<and> b = []" for a b by simp
  show ?thesis by (auto simp: check_mount_output_def Let_def t)
qed

lemma split_whitespace_no_white:
  "w \<in> set (split_whitespace_from acc s) \<Longrightarrow> (\<forall>c \<in> set acc. \<not> is_white c) \<Longrightarrow> c \<in> set w \<Longrightarrow> \<not> is_white c"
  by (induction acc s rule: split_whitespace_from.induct) (auto split: if_splits)

lemma split_on_chars: "w \<in> set (split_on c s) \<Longrightarrow> x \<in> set w \<Longrightarrow> x \<in> set s"
proof (induction s arbitrary: w)
  case (Cons a s)
  show ?case
  proof (cases "a = c")
    case False
    obtain u us where u: "split_on c s = u # us" by (cases "split_on c s") auto
    with False Cons.prems(1) have "w = a # u \<or> w \<in> set us" by auto
    then show ?thesis using Cons.IH [of u] Cons.IH [of w] Cons.prems(2) u by auto
  qed (use Cons in auto)
qed simp

text \<open>
  On Linux, a mountpoint whose path has a space in it is never found mounted, whatever the mount
  table says: the table writes a space as an escape, and the path it is compared with is unescaped.  A
  mount left there by a crash is not forced out.
\<close>

theorem spaces_never_mounted:
  assumes "kn_platform kn = Linux" and "resolved kn p k = Some wanted" and "c \<in> set (op_components wanted)" and "CHR '' '' \<in> set c"
    and "kn_mounts kn k = Ok mounts"
  shows "is_mounted kn p k = Ok False \<and> force_unmount_if_mounted fuel kn p k = Some (Ok (), k)"
proof -
  have "path_of_str on \<noteq> wanted" if on: "get_at (split_whitespace line) 1 = Some on" for line on
  proof
    assume e: "path_of_str on = wanted"
    have "on \<in> set (split_whitespace line)" using on by (auto simp: get_at_def split: if_splits)
    then have nw: "x \<in> set on \<Longrightarrow> \<not> is_white x" for x
      using split_whitespace_no_white [of on "[]" line x] by (simp add: split_whitespace_def)
    have "c = ''.'' \<or> c \<in> set (split_on (CHR ''/'') on)"
      using assms(3) e by (auto simp: path_of_str_def Let_def split: if_splits)
    then have "CHR '' '' \<in> set on" using assms(4) split_on_chars [of c "CHR ''/''" on] by auto
    then show False using nw [of "CHR '' ''"] by (simp add: is_white_def Let_def)
  qed
  then have "is_mounted kn p k = Ok False"
    using assms(1,2,5) by (auto simp: is_mounted_def is_mounted_linux_def list_ex_iff split: option.splits)
  then show ?thesis by (simp add: force_unmount_if_mounted_def)
qed

text \<open>
  On macOS the check is exact, for paths with spaces too: when \<open>getfsstat\<close> fills the buffer it was
  asked for, a mountpoint is found exactly if one of the mounts has its path, up to the NUL.
\<close>

theorem macos_mounted_exact:
  assumes "kn_platform kn = MacOS" and "resolved kn p k = Some wanted"
    and "mounts \<noteq> []" and "kn_getfsstat kn None k = (int (length mounts), [])"
    and "kn_getfsstat kn (Some (length mounts)) k = (int (length mounts), mounts)"
  shows "is_mounted kn p k = Ok (\<exists>fs \<in> set mounts. path_of_str (mount_name fs) = wanted)"
  using assms by (simp add: is_mounted_def is_mounted_macos_def Let_def list_ex_iff)

text \<open>A clock that goes forward: a sleep takes its 50 ms.\<close>

definition clock_ok :: "'k kernel \<Rightarrow> bool" where
  "clock_ok kn \<longleftrightarrow> (\<forall>k. kn_now kn k + 50 \<le> kn_now kn (kn_sleep kn k))"

lemma await_returns:
  assumes "clock_ok kn" and "deadline \<le> kn_now kn k + 50 * fuel"
  shows "\<exists>r k'. await_unmounted (Suc fuel) kn p deadline k = Some (r, k') \<and>
    (r = Ok () \<longrightarrow> is_mounted kn p k' = Ok False) \<and>
    (r = Err UnmountDidNotSettle \<longrightarrow> is_mounted kn p k' = Ok True \<and> deadline \<le> kn_now kn k' \<or>
       is_mounted kn p k' = Err UnmountDidNotSettle)"
  using assms(2)
proof (induction fuel arbitrary: k)
  case (Suc fuel)
  show ?case
  proof (cases "is_mounted kn p k = Ok True \<and> kn_now kn k < deadline")
    case True
    have "kn_now kn k + 50 \<le> kn_now kn (kn_sleep kn k)" using assms(1) by (simp add: clock_ok_def)
    then have "deadline \<le> kn_now kn (kn_sleep kn k) + 50 * fuel" using Suc.prems by simp
    from Suc.IH [OF this] True show ?thesis by simp
  next
    case False
    then show ?thesis by (cases "is_mounted kn p k") (auto split: bool.split)
  qed
next
  case 0
  then show ?case by (cases "is_mounted kn p k") (auto split: bool.split)
qed

lemma is_mounted_error:
  assumes "is_mounted kn p k = Err e"
  shows "\<exists>x. e = MountTable x"
proof -
  have "omap f (omap_err MountTable r) = Err e \<Longrightarrow> \<exists>x. e = MountTable x"
    for f :: "string \<Rightarrow> bool" and r :: "(io_error, string) outcome" by (cases r) auto
  then show ?thesis using assms
    by (auto simp: is_mounted_def is_mounted_linux_def is_mounted_macos_def Let_def
        split: platform.splits option.splits if_splits prod.splits)
qed

text \<open>
  C33: Forcing a mount out ends.  While the clock goes forward, after the first look at the mount
  table and \<open>umount -f\<close> the wait takes at most 201 looks more.  Success means that the last look
  of the code's own \<open>is_mounted\<close> said no; that look can be wrong, for a path with a space
  (\<open>spaces_never_mounted\<close>).  Success without a wait means that nothing was run, since the
  first look said no; otherwise \<open>umount -f\<close> was run on the mountpoint and succeeded.  The wait is
  given up only when a look still says yes ten seconds or more after \<open>umount -f\<close> returned.
\<close>

theorem force_unmount_settles:
  assumes "clock_ok kn"
  shows "\<exists>r k'. force_unmount_if_mounted 201 kn p k = Some (r, k') \<and>
    (r = Ok () \<longrightarrow> is_mounted kn p k' = Ok False) \<and>
    (case run_privileged kn ''umount'' [''-f'', kn_path_text kn p] k of (q, k1) \<Rightarrow>
       (r = Ok () \<longrightarrow> k' = k \<or> is_mounted kn p k = Ok True \<and> (\<exists>out. q = Ok out \<and> ex_success out)) \<and>
       (r = Err UnmountDidNotSettle \<longrightarrow> is_mounted kn p k' = Ok True \<and> kn_now kn k1 + 10000 \<le> kn_now kn k'))"
proof -
  obtain q k1 where q: "run_privileged kn ''umount'' [''-f'', kn_path_text kn p] k = (q, k1)" by fastforce
  obtain r k' where w: "await_unmounted 201 kn p (kn_now kn k1 + UMOUNT_SETTLE_TIMEOUT) k1 = Some (r, k')"
    "r = Ok () \<longrightarrow> is_mounted kn p k' = Ok False"
    "r = Err UnmountDidNotSettle \<longrightarrow> is_mounted kn p k' = Ok True \<and> kn_now kn k1 + 10000 \<le> kn_now kn k'"
    using await_returns [OF assms, of "kn_now kn k1 + UMOUNT_SETTLE_TIMEOUT" k1 200 p] is_mounted_error
    by (fastforce simp: UMOUNT_SETTLE_TIMEOUT_def)
  show ?thesis
  proof (cases "is_mounted kn p k")
    case (Ok b)
    then show ?thesis using q w by (cases b; cases q) (auto simp: force_unmount_if_mounted_def)
  next
    case (Err e)
    then show ?thesis using q is_mounted_error [OF Err] by (auto simp: force_unmount_if_mounted_def)
  next
    case Panic
    then show ?thesis using q by (simp add: force_unmount_if_mounted_def)
  qed
qed

text \<open>A system none of whose calls panics, as those of the standard library do not.\<close>

definition kernel_returns :: "'k kernel \<Rightarrow> bool" where
  "kernel_returns kn \<longleftrightarrow>
     (\<forall>k. kn_mounts kn k \<noteq> Panic \<and> fst (kn_bind kn k) \<noteq> Panic \<and>
        (\<forall>p. fst (kn_create_dir_all kn p k) \<noteq> Panic) \<and> (\<forall>cmd args. fst (kn_run kn cmd args k) \<noteq> Panic))"

lemma is_mounted_returns: "kernel_returns kn \<Longrightarrow> is_mounted kn p k \<noteq> Panic"
  by (cases "kn_mounts kn k")
    (auto simp: kernel_returns_def is_mounted_def is_mounted_linux_def is_mounted_macos_def Let_def
      split: platform.splits option.splits prod.splits)

lemma await_no_panic:
  assumes "kernel_returns kn"
  shows "await_unmounted fuel kn p deadline k \<noteq> Some (Panic, k')"
  using is_mounted_returns [OF assms]
  by (induction fuel kn p deadline k rule: await_unmounted.induct)
    (auto split: outcome.splits bool.splits)

lemma run_returns: "kernel_returns kn \<Longrightarrow> run_privileged kn program args k \<noteq> (Panic, k')"
  by (auto simp: kernel_returns_def run_privileged_def split: prod.splits) (metis fst_conv)

lemma force_unmount_no_panic:
  assumes "kernel_returns kn"
  shows "force_unmount_if_mounted fuel kn p k \<noteq> Some (Panic, k')"
  using is_mounted_returns [OF assms] run_returns [OF assms] await_no_panic [OF assms]
  by (auto simp: force_unmount_if_mounted_def split: outcome.splits prod.splits bool.splits if_splits)

lemma nfs_start_no_panic:
  assumes "kernel_returns kn" and "nfs_start fuel kn p k = Some (r, serving, k1)"
  shows "r \<noteq> Panic"
proof -
  have b: "kn_bind kn k \<noteq> (Panic, k')" "kn_create_dir_all kn p k \<noteq> (Panic, k')" for k k'
    using assms(1) by (auto simp: kernel_returns_def) (metis fst_conv)+
  have m: "run_mount kn p port k \<noteq> (Panic, k')" for port k k'
    using run_returns [OF assms(1)]
    by (auto simp: run_mount_def run_mount_program_def check_mount_output_def Let_def
        split: platform.splits prod.splits outcome.splits if_splits)
  have pr: "prepare_mountpoint fuel kn p k \<noteq> Some (Panic, k')" for k k'
    using force_unmount_no_panic [OF assms(1)] b(2)
    by (auto simp: prepare_mountpoint_def split: option.splits prod.splits outcome.splits)
  show ?thesis
    using assms(2) b(1) pr m force_unmount_no_panic [OF assms(1)]
    by (auto simp: nfs_start_def split: option.splits prod.splits outcome.splits)
qed

text \<open>
  C32: The server never outlives its mount.  A start that returns an error leaves none running, one
  that succeeds gives a handle whose server runs.  After \<open>unmount\<close> of that handle the server is
  stopped whatever happened: if the unmount succeeded nothing else is run, if it failed in any
  way a forced unmount follows.  A handle that is dropped without \<open>unmount\<close> stops the server too and
  has run a forced unmount, whatever that gave; one whose \<open>unmount\<close> succeeded runs nothing when it
  is dropped.  A start that panics may leave the server running, its task being detached; it
  does not panic unless a call to the system does.
\<close>

theorem nfs_server_lifecycle:
  assumes "nfs_start fuel kn p k = Some (r, serving, k1)"
  shows "(r \<noteq> Panic \<longrightarrow> (serving \<longleftrightarrow> is_ok r)) \<and> (kernel_returns kn \<longrightarrow> r \<noteq> Panic) \<and>
    (\<forall>h. r = Ok h \<longrightarrow> nm_serving h \<and> nm_mounted h \<and>
       (case nfs_unmount kn h k2 of (r2, h2, k3) \<Rightarrow>
          \<not> nm_serving h2 \<and> (nm_mounted h2 \<longleftrightarrow> r2 \<noteq> Ok ()) \<and>
          (let polite = run_privileged kn ''umount'' [kn_path_text kn p] k2
           in k3 = (if r2 = Ok () then snd polite
                    else snd (run_privileged kn ''umount'' [''-f'', kn_path_text kn p] (snd polite))))) \<and>
       (case nfs_drop kn h k2 of (h2, k3) \<Rightarrow>
          \<not> nm_serving h2 \<and> k3 = snd (run_privileged kn ''umount'' [''-f'', kn_path_text kn p] k2)) \<and>
       nfs_drop kn (h\<lparr>nm_mounted := False\<rparr>) k2 = (h\<lparr>nm_mounted := False\<rparr>, k2))"
proof -
  have s: "r \<noteq> Panic \<Longrightarrow> serving \<longleftrightarrow> is_ok r"
    and h: "\<And>h. r = Ok h \<Longrightarrow> h = \<lparr>nm_mountpoint = p, nm_serving = True, nm_mounted = True\<rparr>"
    using assms by (auto simp: nfs_start_def split: prod.splits outcome.splits option.splits)
  let ?h = "\<lparr>nm_mountpoint = p, nm_serving = True, nm_mounted = True\<rparr>"
  have u: "case nfs_unmount kn ?h k2 of (r2, h2, k3) \<Rightarrow>
          \<not> nm_serving h2 \<and> (nm_mounted h2 \<longleftrightarrow> r2 \<noteq> Ok ()) \<and>
          (let polite = run_privileged kn ''umount'' [kn_path_text kn p] k2
           in k3 = (if r2 = Ok () then snd polite
                    else snd (run_privileged kn ''umount'' [''-f'', kn_path_text kn p] (snd polite))))"
    by (auto simp: nfs_unmount_def nfs_drop_def Let_def split: prod.splits outcome.splits)
  have d: "case nfs_drop kn ?h k2 of (h2, k3) \<Rightarrow>
      \<not> nm_serving h2 \<and> k3 = snd (run_privileged kn ''umount'' [''-f'', kn_path_text kn p] k2)"
    by (auto simp: nfs_drop_def split: prod.splits)
  have "nfs_drop kn (?h\<lparr>nm_mounted := False\<rparr>) k2 = (?h\<lparr>nm_mounted := False\<rparr>, k2)" by (simp add: nfs_drop_def)
  then show ?thesis using s h u d nfs_start_no_panic [OF _ assms] by fastforce
qed

section \<open>A small kernel\<close>

text \<open>A clock and a flag: mounted or not.\<close>

definition demo_kernel :: "(nat \<times> bool) kernel" where
  "demo_kernel =
     \<lparr>kn_platform = Linux, kn_euid = 0,
      kn_mounts = (\<lambda>k. Ok (if snd k then ''127.0.0.1:/ /mnt/a nfs ro 0 0'' else ''tmpfs /tmp tmpfs rw 0 0'')),
      kn_getfsstat = (\<lambda>b k. (0, [])), kn_last_os_error = (\<lambda>k. NotDepotPath),
      kn_run = (\<lambda>cmd args k. (Ok \<lparr>ex_success = True, ex_stdout = [], ex_stderr = []\<rparr>, (fst k, cmd = ''mount.nfs''))),
      kn_canonicalize = (\<lambda>p k. Some p), kn_create_dir_all = (\<lambda>p k. (Ok (), k)), kn_bind = (\<lambda>k. (Ok 2049, k)),
      kn_sleep = (\<lambda>k. (fst k + 50, snd k)), kn_now = fst,
      kn_path_text = (\<lambda>p. concat (map (\<lambda>c. ''/'' @ c) (op_components p)))\<rparr>"

theorem spaces_never_mounted_witness:
  "is_mounted demo_kernel \<lparr>op_absolute = True, op_components = [''mnt'', ''a b'']\<rparr> (0, True) = Ok False"
proof -
  let ?p = "\<lparr>op_absolute = True, op_components = [''mnt'', ''a b'']\<rparr>"
  have "resolved demo_kernel ?p (0, True) = Some ?p"
    by (simp add: resolved_def demo_kernel_def op_parent_def op_file_name_def op_join_def)
  moreover have "''a b'' \<in> set (op_components ?p)" "CHR '' '' \<in> set ''a b''" by simp_all
  moreover have "kn_mounts demo_kernel (0, True) = Ok ''127.0.0.1:/ /mnt/a nfs ro 0 0''" by (simp add: demo_kernel_def)
  moreover have "kn_platform demo_kernel = Linux" by (simp add: demo_kernel_def)
  ultimately show ?thesis by (intro spaces_never_mounted [THEN conjunct1])
qed

text \<open>A mountpoint that is mounted, forced out, and then looked at once more.\<close>

theorem force_unmount_settles_witness:
  "\<exists>k'. force_unmount_if_mounted 201 demo_kernel \<lparr>op_absolute = True, op_components = [''mnt'', ''a'']\<rparr> (0, True) =
      Some (Ok (), k') \<and> k' \<noteq> (0, True) \<and>
    is_mounted demo_kernel \<lparr>op_absolute = True, op_components = [''mnt'', ''a'']\<rparr> k' = Ok False"
proof -
  let ?p = "\<lparr>op_absolute = True, op_components = [''mnt'', ''a'']\<rparr>"
  have c: "clock_ok demo_kernel" by (simp add: clock_ok_def demo_kernel_def)
  have m: "is_mounted demo_kernel ?p (0, True) = Ok True" "is_mounted demo_kernel ?p (0, False) = Ok False"
    by code_simp+
  have "run_privileged demo_kernel ''umount'' [''-f'', kn_path_text demo_kernel ?p] (0, True) =
      (Ok \<lparr>ex_success = True, ex_stdout = [], ex_stderr = []\<rparr>, (0, False))" by code_simp
  then have f: "force_unmount_if_mounted 201 demo_kernel ?p (0, True) = Some (Ok (), (0, False))"
    using m by (simp add: force_unmount_if_mounted_def eval_nat_numeral)
  with force_unmount_settles [OF c, of ?p "(0, True)"] show ?thesis by auto
qed

theorem nfs_server_lifecycle_witness:
  "\<exists>h k1. nfs_start 201 demo_kernel \<lparr>op_absolute = True, op_components = [''mnt'', ''b'']\<rparr> (0, False) = Some (Ok h, True, k1) \<and>
     (case nfs_unmount demo_kernel h k1 of (r2, h2, k3) \<Rightarrow> \<not> nm_serving h2) \<and>
     \<not> nm_serving (fst (nfs_drop demo_kernel h k1))"
proof -
  let ?p = "\<lparr>op_absolute = True, op_components = [''mnt'', ''b'']\<rparr>"
  have l: "text_lines ''tmpfs /tmp tmpfs rw 0 0'' = [''tmpfs /tmp tmpfs rw 0 0'']"
    by (simp add: text_lines_def strip_suffix_def Let_def)
  have w: "get_at (split_whitespace ''tmpfs /tmp tmpfs rw 0 0'') (Suc 0) = Some ''/tmp''"
    by (simp add: split_whitespace_def is_white_def get_at_def Let_def)
  have m: "is_mounted demo_kernel ?p (0, False) = Ok False"
    by (simp add: is_mounted_def is_mounted_linux_def resolved_def demo_kernel_def op_parent_def op_file_name_def op_join_def l w
        path_of_str_def Let_def)
  have kn: "kn_bind demo_kernel k = (Ok 2049, k)" "kn_create_dir_all demo_kernel p k = (Ok (), k)"
    "kn_run demo_kernel cmd args k = (Ok \<lparr>ex_success = True, ex_stdout = [], ex_stderr = []\<rparr>, (fst k, cmd = ''mount.nfs''))"
    for k p cmd args by (simp_all add: demo_kernel_def)
  have "kn_euid demo_kernel = 0" "kn_platform demo_kernel = Linux" by (simp_all add: demo_kernel_def)
  then obtain h k1 where s: "nfs_start 201 demo_kernel ?p (0, False) = Some (Ok h, True, k1)"
    by (simp add: nfs_start_def prepare_mountpoint_def force_unmount_if_mounted_def m run_mount_def run_mount_program_def
        run_privileged_def privileged_def check_mount_output_def trim_def kn)
  from nfs_server_lifecycle [OF s, of k1]
  have "case nfs_unmount demo_kernel h k1 of (r2, h2, k3) \<Rightarrow> \<not> nm_serving h2" "\<not> nm_serving (fst (nfs_drop demo_kernel h k1))"
    by (auto split: prod.splits)
  with s show ?thesis by (intro exI conjI)
qed

end
