(* ===== verification/Login.thy ===== *)
theory Login
  imports Steam_Store
begin

text \<open>
  Logging in: \<open>LazyCachedAuth\<close> and the module \<open>login\<close> of \<open>session.rs\<close>, and the command line's copy
  of them, \<open>Auth\<close> of \<open>steam-depot/src/auth.rs\<close>.  Refresh tokens are kept in one JSON file, by
  account; with one the login waits until the session is needed, without one it comes first.
\<close>

section \<open>The token file\<close>

text \<open>JSON and UTF-8 are the library's: \<open>serde_json\<close> on a \<open>HashMap<String, String>\<close>.\<close>

record json =
  js_utf8 :: "bytes \<Rightarrow> bool"
  js_parse :: "bytes \<Rightarrow> (string \<rightharpoonup> string) option"
  js_print :: "(string \<rightharpoonup> string) \<Rightarrow> (io_error, bytes) outcome"

definition json_ok :: "json \<Rightarrow> bool" where
  "json_ok js \<longleftrightarrow> (\<forall>m b. js_print js m = Ok b \<longrightarrow> js_utf8 js b \<and> js_parse js b = Some m)"

text \<open>\<open>fs::read_to_string\<close>, then the parser; any failure on the way is \<open>None\<close>.\<close>

definition read_tokens :: "json \<Rightarrow> path \<Rightarrow> fsys \<Rightarrow> (string \<rightharpoonup> string) option \<times> fsys" where
  "read_tokens js p fs =
     (case fs_read p fs of
        (Ok b, fs1) \<Rightarrow> (if js_utf8 js b then js_parse js b else None, fs1)
      | (_, fs1) \<Rightarrow> (None, fs1))"

definition token_load :: "json \<Rightarrow> path \<Rightarrow> string \<Rightarrow> fsys \<Rightarrow> string option \<times> fsys" where
  "token_load js p account fs =
     (case read_tokens js p fs of (r, fs1) \<Rightarrow>
        (Option.bind r (\<lambda>m. Option.bind (m account) (\<lambda>t. if t = [] then None else Some t)), fs1))"

definition has_refresh_token :: "json \<Rightarrow> path \<Rightarrow> string \<Rightarrow> fsys \<Rightarrow> bool \<times> fsys" where
  "has_refresh_token js p account fs =
     (case token_load js p account fs of (r, fs1) \<Rightarrow> (r \<noteq> None, fs1))"

definition token_save ::
  "json \<Rightarrow> path \<Rightarrow> string \<Rightarrow> string \<Rightarrow> fsys \<Rightarrow> (io_error, unit) outcome \<times> fsys" where
  "token_save js p account token fs =
     (case (if p = [] then (Ok (), fs) else fs_create_dir_all (butlast p) fs) of
        (Err e, fs1) \<Rightarrow> (Err e, fs1)
      | (Panic, fs1) \<Rightarrow> (Panic, fs1)
      | (Ok _, fs1) \<Rightarrow>
          (case read_tokens js p fs1 of (r, fs2) \<Rightarrow>
             (let m = (case r of Some m \<Rightarrow> m | None \<Rightarrow> Map.empty) in
              case js_print js (m(account \<mapsto> token)) of
                Err e \<Rightarrow> (Err e, fs2)
              | Panic \<Rightarrow> (Panic, fs2)
              | Ok b \<Rightarrow> fs_write p b fs2)))"

section \<open>Logging in\<close>

text \<open>
  What the code calls of \<open>steam_vent\<close> and \<open>steam_vent_depot\<close>: the server list \<open>'s\<close>, a login with
  a token or with a password (which may prompt), the token a connection \<open>'n\<close> brings, and the CDN
  servers that make it a session \<open>'c\<close>.
\<close>

record ('s, 'n, 'c, 'w) steam_login =
  lg_discover :: "'w \<Rightarrow> (vfs_error, 's) outcome \<times> 'w"
  lg_access :: "'s \<Rightarrow> string \<Rightarrow> string \<Rightarrow> 'w \<Rightarrow> (vfs_error, 'n) outcome \<times> 'w"
  lg_password :: "'s \<Rightarrow> string \<Rightarrow> string \<Rightarrow> 'w \<Rightarrow> (vfs_error, 'n) outcome \<times> 'w"
  lg_token :: "'n \<Rightarrow> string option"
  lg_cdn_servers :: "'n \<Rightarrow> 'w \<Rightarrow> (vfs_error, 'c) outcome \<times> 'w"

text \<open>The disk and the network.\<close>

record 'w login_world =
  lw_fs :: fsys
  lw_net :: 'w

type_synonym ('w, 'a) login_op = "'w login_world \<Rightarrow> (vfs_error, 'a) outcome \<times> 'w login_world"

definition password_login ::
  "json \<Rightarrow> ('s, 'n, 'c, 'w) steam_login \<Rightarrow> 's \<Rightarrow> path \<Rightarrow> string \<Rightarrow> string \<Rightarrow> ('w, 'n) login_op" where
  "password_login js lg servers p account password w =
     (case lg_password lg servers account password (lw_net w) of
        (Err e, n) \<Rightarrow> (Err e, w\<lparr>lw_net := n\<rparr>)
      | (Panic, n) \<Rightarrow> (Panic, w\<lparr>lw_net := n\<rparr>)
      | (Ok c, n) \<Rightarrow>
          (case lg_token lg c of
             None \<Rightarrow> (Ok c, w\<lparr>lw_net := n\<rparr>)
           | Some t \<Rightarrow>
               (case token_save js p account t (lw_fs w) of
                  (Ok _, fs1) \<Rightarrow> (Ok c, \<lparr>lw_fs = fs1, lw_net = n\<rparr>)
                | (Err e, fs1) \<Rightarrow> (Err (VfsIo e), \<lparr>lw_fs = fs1, lw_net = n\<rparr>)
                | (Panic, fs1) \<Rightarrow> (Panic, \<lparr>lw_fs = fs1, lw_net = n\<rparr>))))"

definition establish_connection ::
  "json \<Rightarrow> ('s, 'n, 'c, 'w) steam_login \<Rightarrow> path \<Rightarrow> string \<Rightarrow> string \<Rightarrow> ('w, 'n) login_op" where
  "establish_connection js lg p account password w =
     (case lg_discover lg (lw_net w) of
        (Err e, n) \<Rightarrow> (Err e, w\<lparr>lw_net := n\<rparr>)
      | (Panic, n) \<Rightarrow> (Panic, w\<lparr>lw_net := n\<rparr>)
      | (Ok servers, n) \<Rightarrow>
          (case token_load js p account (lw_fs w) of
             (None, fs1) \<Rightarrow> password_login js lg servers p account password \<lparr>lw_fs = fs1, lw_net = n\<rparr>
           | (Some t, fs1) \<Rightarrow>
               (case lg_access lg servers account t n of
                  (Ok c, n1) \<Rightarrow> (Ok c, \<lparr>lw_fs = fs1, lw_net = n1\<rparr>)
                | (Err _, n1) \<Rightarrow>
                    password_login js lg servers p account password \<lparr>lw_fs = fs1, lw_net = n1\<rparr>
                | (Panic, n1) \<Rightarrow> (Panic, \<lparr>lw_fs = fs1, lw_net = n1\<rparr>))))"

definition authenticate ::
  "json \<Rightarrow> ('s, 'n, 'c, 'w) steam_login \<Rightarrow> path \<Rightarrow> string \<Rightarrow> string \<Rightarrow> ('w, 'c) login_op" where
  "authenticate js lg p account password w =
     (case establish_connection js lg p account password w of
        (Err e, w1) \<Rightarrow> (Err e, w1)
      | (Panic, w1) \<Rightarrow> (Panic, w1)
      | (Ok c, w1) \<Rightarrow>
          (case lg_cdn_servers lg c (lw_net w1) of (r, n) \<Rightarrow> (r, w1\<lparr>lw_net := n\<rparr>)))"

section \<open>The lazy session\<close>

record 'c lazy_auth =
  la_cache_path :: path
  la_account :: string
  la_password :: string
  la_inner :: "'c option"

definition auth_prepare ::
  "json \<Rightarrow> ('s, 'n, 'c, 'w) steam_login \<Rightarrow> path \<Rightarrow> string \<Rightarrow> string \<Rightarrow> ('w, 'c lazy_auth) login_op" where
  "auth_prepare js lg p account password w =
     (case has_refresh_token js p account (lw_fs w) of
        (True, fs1) \<Rightarrow>
          (Ok \<lparr>la_cache_path = p, la_account = account, la_password = password, la_inner = None\<rparr>,
           w\<lparr>lw_fs := fs1\<rparr>)
      | (False, fs1) \<Rightarrow>
          (case authenticate js lg p account password (w\<lparr>lw_fs := fs1\<rparr>) of
             (Ok c, w1) \<Rightarrow>
               (Ok \<lparr>la_cache_path = p, la_account = account, la_password = password, la_inner = Some c\<rparr>, w1)
           | (Err e, w1) \<Rightarrow> (Err e, w1)
           | (Panic, w1) \<Rightarrow> (Panic, w1)))"

definition lazy_resolve ::
  "json \<Rightarrow> ('s, 'n, 'c, 'w) steam_login \<Rightarrow> (vfs_error \<Rightarrow> string) \<Rightarrow> 'c lazy_auth \<Rightarrow> 'w login_world \<Rightarrow>
     (vfs_error, 'c) outcome \<times> 'c lazy_auth \<times> 'w login_world" where
  "lazy_resolve js lg text_of la w =
     (case la_inner la of
        Some c \<Rightarrow> (Ok c, la, w)
      | None \<Rightarrow>
          (case authenticate js lg (la_cache_path la) (la_account la) (la_password la) w of
             (Ok c, w1) \<Rightarrow> (Ok c, la\<lparr>la_inner := Some c\<rparr>, w1)
           | (Err e, w1) \<Rightarrow> (Err (VfsOther (text_of e)), la, w1)
           | (Panic, w1) \<Rightarrow> (Panic, la, w1)))"

section \<open>The file keeps the tokens\<close>

text \<open>The tokens on a disk that works; a damaged file has none.\<close>

definition disk_tokens :: "json \<Rightarrow> path \<Rightarrow> fsys \<Rightarrow> (string \<rightharpoonup> string)" where
  "disk_tokens js p fs =
     (case fs_files fs p of
        None \<Rightarrow> Map.empty
      | Some b \<Rightarrow> (case js_parse js b of Some m \<Rightarrow> if js_utf8 js b then m else Map.empty | None \<Rightarrow> Map.empty))"

definition real_token :: "string option \<Rightarrow> string option" where
  "real_token t = (if t = Some [] then None else t)"

lemma read_tokens_calm:
  "fs_faults fs = [] \<Longrightarrow>
     \<exists>r. read_tokens js p fs = (r, fs) \<and> disk_tokens js p fs = (case r of Some m \<Rightarrow> m | None \<Rightarrow> Map.empty)"
  by (cases "fs_files fs p")
     (auto simp: read_tokens_def fs_read_def next_fault_quiet disk_tokens_def split: option.split)

lemma token_load_calm:
  assumes "fs_faults fs = []"
  shows "token_load js p account fs = (real_token (disk_tokens js p fs account), fs)"
proof -
  obtain r where "read_tokens js p fs = (r, fs)"
    and "disk_tokens js p fs = (case r of Some m \<Rightarrow> m | None \<Rightarrow> Map.empty)"
    using read_tokens_calm [OF assms] by blast
  then show ?thesis
    by (cases r) (auto simp: token_load_def real_token_def split: Option.bind_split)
qed

lemma has_refresh_token_calm:
  "fs_faults fs = [] \<Longrightarrow>
     has_refresh_token js p account fs = (real_token (disk_tokens js p fs account) \<noteq> None, fs)"
  by (simp add: has_refresh_token_def token_load_calm)

lemma fs_write_calm:
  "fs_faults fs = [] \<Longrightarrow> fs_write p b fs = (Ok (), fs\<lparr>fs_files := (fs_files fs)(p \<mapsto> b)\<rparr>)"
  by (simp add: fs_write_def fs_create_def fs_write_all_def next_fault_quiet)

lemma token_save_calm:
  assumes "fs_faults fs = []" and "json_ok js" and "token_save js p account token fs = (Ok u, fs')"
  shows "disk_tokens js p fs' = (disk_tokens js p fs)(account \<mapsto> token)" and "fs_faults fs' = []"
proof -
  have dir: "(if p = [] then (Ok (), fs) else fs_create_dir_all (butlast p) fs) = (Ok (), fs)"
    using assms(1) by (simp add: fs_create_dir_all_def next_fault_quiet)
  obtain r where r: "read_tokens js p fs = (r, fs)"
      "disk_tokens js p fs = (case r of Some m \<Rightarrow> m | None \<Rightarrow> Map.empty)"
    using read_tokens_calm [OF assms(1)] by blast
  obtain b where b: "js_print js ((disk_tokens js p fs)(account \<mapsto> token)) = Ok b"
      "fs' = fs\<lparr>fs_files := (fs_files fs)(p \<mapsto> b)\<rparr>"
    using assms(3) unfolding token_save_def dir
    by (auto simp: Let_def r fs_write_calm [OF assms(1)] split: outcome.splits)
  show "disk_tokens js p fs' = (disk_tokens js p fs)(account \<mapsto> token)"
    using assms(2) b by (simp add: json_ok_def disk_tokens_def)
  show "fs_faults fs' = []" using assms(1) b(2) by simp
qed

text \<open>
  A saved token is found again, and saving it costs no other account its own.  On a disk that
  works, after \<open>save\<close> has returned the account's token is the one saved (an empty one counts as
  none), and every other account loads what it loaded before, even when the file was damaged.
\<close>
theorem token_saved_and_found:
  assumes "json_ok js" and "fs_faults fs = []"
    and "token_save js p account token fs = (Ok u, fs')"
  shows "fst (token_load js p account fs') = (if token = [] then None else Some token) \<and>
    (other \<noteq> account \<longrightarrow> fst (token_load js p other fs') = fst (token_load js p other fs))"
  using token_save_calm [OF assms(2,1,3)] assms(2)
  by (simp add: token_load_calm real_token_def)

section \<open>When the user is asked\<close>

lemma password_login_saves:
  assumes "password_login js lg servers p account password w = (Ok c, w')"
    and "json_ok js" and "fs_faults (lw_fs w) = []" and "lg_token lg c = Some t" and "t \<noteq> []"
  shows "fs_faults (lw_fs w') = [] \<and> fst (has_refresh_token js p account (lw_fs w'))"
proof -
  obtain fs1 where s: "token_save js p account t (lw_fs w) = (Ok (), fs1)" "lw_fs w' = fs1"
    using assms(1,4) by (auto simp: password_login_def split: prod.splits outcome.splits option.splits)
  note k = token_save_calm [OF assms(3,2) s(1)]
  show ?thesis using k assms(5) by (simp add: s(2) has_refresh_token_calm real_token_def)
qed

text \<open>
  A user is asked for a login at the start or not at all.  When \<open>prepare\<close> succeeds, it has
  put off the login just when a token was cached, and then it has not used the network; otherwise
  the session is there, and every later \<open>resolve\<close> returns it without a step.  So does every
  \<open>resolve\<close> after one that succeeded.
\<close>
theorem login_prepared:
  assumes "auth_prepare js lg p account password w = (Ok la, w1)"
  shows "(la_inner la = None \<longleftrightarrow> fst (has_refresh_token js p account (lw_fs w))) \<and>
    (la_inner la = None \<longrightarrow> lw_net w1 = lw_net w) \<and>
    (la_inner la = Some c \<longrightarrow> lazy_resolve js lg text_of la w2 = (Ok c, la, w2)) \<and>
    (lazy_resolve js lg text_of la w2 = (Ok c, la1, w3) \<longrightarrow>
       lazy_resolve js lg text_of la1 w4 = (Ok c, la1, w4))"
  using assms
  by (auto simp: auth_prepare_def lazy_resolve_def split: prod.splits outcome.splits option.splits bool.splits)

text \<open>
  A login with a password is asked for once.  On a disk that works, when the connections that
  a password opens bring a token, a \<open>prepare\<close> that had to log in leaves a token behind, so that
  the next one puts its login off and leaves the network alone.
\<close>
theorem password_asked_once:
  assumes "json_ok js" and "fs_faults (lw_fs w) = []" and "\<forall>n. \<exists>t. lg_token lg n = Some t \<and> t \<noteq> []"
    and "auth_prepare js lg p account password w = (Ok la, w1)" and "la_inner la = Some c"
  shows "\<exists>la2 w2. auth_prepare js lg p account password w1 = (Ok la2, w2) \<and> la_inner la2 = None \<and>
    lw_net w2 = lw_net w1"
proof -
  note h = has_refresh_token_calm [OF assms(2), of js p account]
  have none: "real_token (disk_tokens js p (lw_fs w) account) = None"
    and "authenticate js lg p account password w = (Ok c, w1)"
    using assms(4,5) by (auto simp: auth_prepare_def h split: prod.splits outcome.splits bool.splits)
  then obtain n w0 where "establish_connection js lg p account password w = (Ok n, w0)"
      and fs: "lw_fs w1 = lw_fs w0"
    by (auto simp: authenticate_def split: prod.splits outcome.splits)
  then obtain servers net0 where l:
    "password_login js lg servers p account password \<lparr>lw_fs = lw_fs w, lw_net = net0\<rparr> = (Ok n, w0)"
    using none by (auto simp: establish_connection_def token_load_calm [OF assms(2)] split: prod.splits outcome.splits)
  obtain t where t: "lg_token lg n = Some t" "t \<noteq> []" using assms(3) by blast
  have k: "fs_faults (lw_fs w1) = []" "fst (has_refresh_token js p account (lw_fs w1))"
    using password_login_saves [OF l assms(1) _ t] assms(2) by (simp_all add: fs)
  then have "has_refresh_token js p account (lw_fs w1) = (True, lw_fs w1)"
    by (simp add: has_refresh_token_calm)
  then show ?thesis by (simp add: auth_prepare_def)
qed

text \<open>
  The session of the other parts, \<open>auth_resolve\<close>, is this one: a client whose login is
  \<open>authenticate\<close>, over the disk and the network.
\<close>

lemma lazy_resolve_is_auth_resolve:
  assumes "\<forall>w. sc_login sc w = authenticate js lg p account password w" and "sc_text sc = text_of"
    and "la_cache_path la = p" "la_account la = account" "la_password la = password"
    and "lazy_resolve js lg text_of la w = (r, la1, w1)"
  shows "auth_resolve sc \<lparr>sw_session = la_inner la, sw_keys = ks, sw_net = w\<rparr> =
    (r, \<lparr>sw_session = la_inner la1, sw_keys = ks, sw_net = w1\<rparr>)"
  using assms
  by (auto simp: lazy_resolve_def auth_resolve_def split: option.splits prod.splits outcome.splits)

section \<open>Witnesses\<close>

definition demo_json :: json where
  "demo_json = \<lparr>js_utf8 = (\<lambda>_. True),
     js_parse = (\<lambda>b. if b = [1] then Some [''ann'' \<mapsto> ''tok''] else if b = [2] then Some [''bob'' \<mapsto> ''old''] else
       if b = [3] then Some [''bob'' \<mapsto> ''old'', ''ann'' \<mapsto> ''tok''] else None),
     js_print = (\<lambda>m. if m = [''ann'' \<mapsto> ''tok''] then Ok [1] else
       if m = [''bob'' \<mapsto> ''old'', ''ann'' \<mapsto> ''tok''] then Ok [3] else Err (OsError KOther))\<rparr>"

lemma demo_json_ok: "json_ok demo_json"
  by (auto simp: json_ok_def demo_json_def split: if_splits)

definition demo_login :: "(unit, unit, nat, nat) steam_login" where
  "demo_login = \<lparr>lg_discover = (\<lambda>n. (Ok (), n + 1)), lg_access = (\<lambda>_ _ _ n. (Ok (), n + 1)),
     lg_password = (\<lambda>_ _ _ n. (Ok (), n + 1)), lg_token = (\<lambda>_. Some ''tok''),
     lg_cdn_servers = (\<lambda>_ n. (Ok 7, n + 1))\<rparr>"

lemmas login_defs =
  auth_prepare_def authenticate_def establish_connection_def password_login_def token_save_def
  has_refresh_token_def token_load_def read_tokens_def fs_read_def fs_create_dir_all_def
  fs_write_def fs_create_def fs_write_all_def next_fault_def Let_def

theorem token_saved_and_found_witness:
  "let fs = \<lparr>fs_files = [[''c'', ''t''] \<mapsto> [2]], fs_faults = []\<rparr>;
       fs' = snd (token_save demo_json [''c'', ''t''] ''ann'' ''tok'' fs)
   in fst (token_load demo_json [''c'', ''t''] ''ann'' fs') = Some ''tok'' \<and>
      fst (token_load demo_json [''c'', ''t''] ''bob'' fs') = fst (token_load demo_json [''c'', ''t''] ''bob'' fs)"
proof -
  let ?fs = "\<lparr>fs_files = [[''c'', ''t''] \<mapsto> [2]], fs_faults = []\<rparr> :: fsys"
  let ?fs' = "snd (token_save demo_json [''c'', ''t''] ''ann'' ''tok'' ?fs)"
  have "token_save demo_json [''c'', ''t''] ''ann'' ''tok'' ?fs = (Ok (), ?fs')"
    by (simp add: login_defs demo_json_def)
  from token_saved_and_found [OF demo_json_ok _ this, of "''bob''"] show ?thesis by (simp add: Let_def)
qed

definition demo_prepared :: "nat lazy_auth \<times> nat login_world" where
  "demo_prepared =
     (\<lparr>la_cache_path = [''t''], la_account = ''ann'', la_password = ''pw'', la_inner = Some 7\<rparr>,
      \<lparr>lw_fs = \<lparr>fs_files = [[''t''] \<mapsto> [1]], fs_faults = []\<rparr>, lw_net = 3\<rparr>)"

lemma demo_prepare:
  "auth_prepare demo_json demo_login [''t''] ''ann'' ''pw''
     \<lparr>lw_fs = \<lparr>fs_files = Map.empty, fs_faults = []\<rparr>, lw_net = 0\<rparr> = (Ok (fst demo_prepared), snd demo_prepared)"
  by (simp add: login_defs demo_json_def demo_login_def demo_prepared_def)

theorem login_prepared_witness:
  "lazy_resolve demo_json demo_login (\<lambda>_. []) (fst demo_prepared) (snd demo_prepared) =
     (Ok 7, fst demo_prepared, snd demo_prepared)"
  using login_prepared [OF demo_prepare, of 7 "\<lambda>_. []" "snd demo_prepared"]
  by (simp add: demo_prepared_def)

theorem password_asked_once_witness:
  "\<exists>la2 w2. auth_prepare demo_json demo_login [''t''] ''ann'' ''pw'' (snd demo_prepared) = (Ok la2, w2) \<and>
     la_inner la2 = None \<and> lw_net w2 = lw_net (snd demo_prepared)"
  by (rule password_asked_once [OF demo_json_ok _ _ demo_prepare, of 7])
     (simp_all add: demo_prepared_def demo_login_def)

end
