(* ===== verification/Stats.thy ===== *)
theory Stats
  imports Chunk_Audit Cli_Config
begin

text \<open>
  \<open>stats\<close>, the whole of \<open>run\<close> in \<open>stats.rs\<close>: manifests that are not cached are fetched first, the
  chunk directory is scanned, every configured manifest is held against it, and chunks that
  manifests share are counted once in the totals.  Percentages and printing are left out.
\<close>

section \<open>Fetching what is missing\<close>

text \<open>A manifest that cannot be loaded is missing, whatever the reason; trying may remove its file.\<close>

fun stats_missing :: "postcard \<Rightarrow> depot_root \<Rightarrow> cfg_manifest list \<Rightarrow> fsys \<Rightarrow> cfg_manifest list \<times> fsys" where
  "stats_missing pc dr [] fs = ([], fs)"
| "stats_missing pc dr (m # ms) fs =
     (case load_cached_manifest pc dr (cf_app_id m) (cf_depot_id m) (cf_gid m) fs of
        (r, fs1) \<Rightarrow>
          (case stats_missing pc dr ms fs1 of
             (out, fs2) \<Rightarrow> (case r of Ok (Some _) \<Rightarrow> (out, fs2) | _ \<Rightarrow> (m # out, fs2))))"

text \<open>
  The fetches run side by side; the list is the order in which they end, and the first error ends
  the loop.
\<close>

fun fetch_missing ::
  "('c, 'k, 'w) steam_client \<Rightarrow> postcard \<Rightarrow> 'l chunk_env \<Rightarrow> depot_api \<Rightarrow> depot_root \<Rightarrow> cfg_manifest list \<Rightarrow>
     ('c, 'k, 'w) steam_world manifest_world \<Rightarrow> (vfs_error, unit) outcome \<times> ('c, 'k, 'w) steam_world manifest_world" where
  "fetch_missing sc pc env api dr [] w = (Ok (), w)"
| "fetch_missing sc pc env api dr (m # ms) w =
     (case open_depot_manifest sc pc env api dr (cf_app_id m) (cf_depot_id m) (cf_gid m) (cf_branch m) w of
        (Ok _, w1) \<Rightarrow> fetch_missing sc pc env api dr ms w1
      | (Err e, w1) \<Rightarrow> (Err e, w1)
      | (Panic, w1) \<Rightarrow> (Panic, w1))"

definition fetch_all_missing ::
  "('c, 'k, 'w) steam_client \<Rightarrow> (('c, 'k, 'w) steam_world \<Rightarrow> (vfs_error, unit) outcome \<times> ('c, 'k, 'w) steam_world) \<Rightarrow>
     postcard \<Rightarrow> 'l chunk_env \<Rightarrow> depot_api \<Rightarrow> depot_root \<Rightarrow> (cfg_manifest list \<Rightarrow> cfg_manifest list) \<Rightarrow>
     cfg_manifest list \<Rightarrow> ('c, 'k, 'w) steam_world manifest_world \<Rightarrow>
     (vfs_error, unit) outcome \<times> ('c, 'k, 'w) steam_world manifest_world" where
  "fetch_all_missing sc prepare pc env api dr order missing w =
     (if missing = [] then (Ok (), w)
      else
        (case prepare (mcw_net w) of
           (Err e, n) \<Rightarrow> (Err e, w\<lparr>mcw_net := n\<rparr>)
         | (Panic, n) \<Rightarrow> (Panic, w\<lparr>mcw_net := n\<rparr>)
         | (Ok _, n) \<Rightarrow>
             (case auth_resolve sc n of
                (Err e, n1) \<Rightarrow> (Err e, w\<lparr>mcw_net := n1\<rparr>)
              | (Panic, n1) \<Rightarrow> (Panic, w\<lparr>mcw_net := n1\<rparr>)
              | (Ok _, n1) \<Rightarrow> fetch_missing sc pc env api dr (order missing) (w\<lparr>mcw_net := n1\<rparr>))))"

section \<open>The table\<close>

text \<open>One row for each manifest, \<open>None\<close> for one that is not cached, and the running totals.\<close>

record stats_table =
  stt_rows :: "(cfg_manifest \<times> chunk_stats option) list"
  stt_all :: "(chunk_hash \<times> u32) list"
  stt_uncompr :: u64
  stt_missing :: u64

definition empty_table :: stats_table where
  "empty_table = \<lparr>stt_rows = [], stt_all = [], stt_uncompr = 0, stt_missing = 0\<rparr>"

fun stats_rows ::
  "depot_api \<Rightarrow> postcard \<Rightarrow> depot_root \<Rightarrow> chunk_scan \<Rightarrow> cfg_manifest list \<Rightarrow> stats_table \<Rightarrow> fsys \<Rightarrow>
     (vfs_error, stats_table) outcome \<times> fsys" where
  "stats_rows api pc dr cache [] tb fs = (Ok tb, fs)"
| "stats_rows api pc dr cache (m # ms) tb fs =
     (case load_cached_manifest pc dr (cf_app_id m) (cf_depot_id m) (cf_gid m) fs of
        (Err e, fs1) \<Rightarrow> (Err e, fs1)
      | (Panic, fs1) \<Rightarrow> (Panic, fs1)
      | (Ok None, fs1) \<Rightarrow>
          stats_rows api pc dr cache ms
            (tb\<lparr>stt_rows := stt_rows tb @ [(m, None)], stt_missing := stt_missing tb + 1\<rparr>) fs1
      | (Ok (Some man), fs1) \<Rightarrow>
          (let st = manifest_stats api cache (stt_all tb) man in
           stats_rows api pc dr cache ms
             (tb\<lparr>stt_rows := stt_rows tb @ [(m, Some st)], stt_all := st_all st,
                 stt_uncompr := stt_uncompr tb + st_uncompr st\<rparr>) fs1))"

section \<open>The command\<close>

record stats_report =
  sr_scan :: chunk_scan
  sr_table :: "stats_table option"                          \<comment> \<open>\<open>None\<close> without manifests\<close>
  sr_totals :: "u64 \<times> u64 \<times> u64"
  sr_verified :: "(u64 \<times> chunk_hash list \<times> (chunk_hash \<times> io_error) list) option"

definition stats_run ::
  "('c, 'k, 'w) steam_client \<Rightarrow> (('c, 'k, 'w) steam_world \<Rightarrow> (vfs_error, unit) outcome \<times> ('c, 'k, 'w) steam_world) \<Rightarrow>
     postcard \<Rightarrow> 'l chunk_env \<Rightarrow> depot_api \<Rightarrow> nat \<Rightarrow> (fsys \<Rightarrow> path \<Rightarrow> file_rows) \<Rightarrow>
     (cfg_manifest list \<Rightarrow> cfg_manifest list) \<Rightarrow> config \<Rightarrow> bool \<Rightarrow> fsys \<Rightarrow> ('c, 'k, 'w) steam_world \<Rightarrow>
     (vfs_error, stats_report) outcome \<times> fsys \<times> ('c, 'k, 'w) steam_world" where
  "stats_run sc prepare pc env api pid listing order cfg verify fs sw =
     (case depot_root_open env (op_components (cfg_store_root cfg)) pid fs sw of
        (dr, cw) \<Rightarrow>
     (case stats_missing pc dr (cfg_manifests cfg) (cw_fs cw) of
        (missing, fs1) \<Rightarrow>
     (case fetch_all_missing sc prepare pc env api dr order missing
             \<lparr>mcw_fs = fs1, mcw_in_flight = [], mcw_net = sw\<rparr> of
        (Err e, w) \<Rightarrow> (Err e, mcw_fs w, mcw_net w)
      | (Panic, w) \<Rightarrow> (Panic, mcw_fs w, mcw_net w)
      | (Ok _, w) \<Rightarrow>
     (case scan_chunks (listing (mcw_fs w)) (chunks_root dr) of
        Err e \<Rightarrow> (Err (VfsIo e), mcw_fs w, mcw_net w)
      | Panic \<Rightarrow> (Panic, mcw_fs w, mcw_net w)
      | Ok cache \<Rightarrow>
          if cfg_manifests cfg = []
          then (Ok \<lparr>sr_scan = cache, sr_table = None, sr_totals = (0, 0, 0), sr_verified = None\<rparr>, mcw_fs w, mcw_net w)
          else
            (case stats_rows api pc dr cache (cfg_manifests cfg) empty_table (mcw_fs w) of
               (Err e, fs2) \<Rightarrow> (Err e, fs2, mcw_net w)
             | (Panic, fs2) \<Rightarrow> (Panic, fs2, mcw_net w)
             | (Ok tb, fs2) \<Rightarrow>
                 (let rep = \<lparr>sr_scan = cache, sr_table = Some tb, sr_totals = all_stats cache (stt_all tb),
                             sr_verified = None\<rparr>
                  in if verify
                     then (case stats_verify_cache env (chunks_root dr) (scan_shas cache) fs2 of
                             (v, fs3) \<Rightarrow> (Ok (rep\<lparr>sr_verified := Some v\<rparr>), fs3, mcw_net w))
                     else (Ok rep, fs2, mcw_net w)))))))"

section \<open>The totals\<close>

text \<open>The hashes of the manifests in the table, and the rows' own sums.\<close>

definition table_shas :: "(cfg_manifest \<times> chunk_stats option) list \<Rightarrow> chunk_hash set" where
  "table_shas rows = (\<Union>st \<in> {st. Some st \<in> snd ` set rows}. set (st_unique st))"

definition table_ok :: "stats_table \<Rightarrow> bool" where
  "table_ok tb \<longleftrightarrow>
     distinct (map fst (stt_all tb)) \<and> set (map fst (stt_all tb)) = table_shas (stt_rows tb) \<and>
     stt_missing tb = word_of_nat (length (filter (\<lambda>r. snd r = None) (stt_rows tb))) \<and>
     stt_uncompr tb =
       sum_list (map (\<lambda>r. case snd r of Some st \<Rightarrow> st_uncompr st | None \<Rightarrow> 0) (stt_rows tb))"

lemma manifest_stats_keys:
  assumes "distinct (map fst all)"
  shows "set (map fst (st_all (manifest_stats api cache all m))) =
      set (map fst all) \<union> set (st_unique (manifest_stats api cache all m))"
    and "distinct (map fst (st_all (manifest_stats api cache all m)))"
proof -
  let ?st0 = "\<lparr>st_uncompr = 0, st_compr = 0, st_fetched_compr = 0, st_chunks = 0, st_fetched_chunks = 0,
        st_unique = [], st_all = all\<rparr>"
  let ?cs = "concat (map (api_chunks api) (m_files m))"
  have st: "manifest_stats api cache all m = fold (count_chunk cache) ?cs ?st0"
    unfolding manifest_stats_def by (rule fold_concat)
  have "set (st_unique (manifest_stats api cache all m)) = c_sha ` set ?cs"
    unfolding st count_chunks_fold(1) using firsts_shas [of "[]" ?cs] by simp
  then show "set (map fst (st_all (manifest_stats api cache all m))) =
      set (map fst all) \<union> set (st_unique (manifest_stats api cache all m))"
    and "distinct (map fst (st_all (manifest_stats api cache all m)))"
    using count_chunks_all [of ?st0 cache ?cs] assms st by simp_all
qed

lemma table_shas_snoc:
  "table_shas (rows @ [(m, r)]) = table_shas rows \<union> (case r of Some st \<Rightarrow> set (st_unique st) | None \<Rightarrow> {})"
  by (cases r) (auto simp: table_shas_def)

lemma stats_rows_ok:
  "stats_rows api pc dr cache ms tb fs = (Ok tb', fs') \<Longrightarrow> table_ok tb \<Longrightarrow>
     table_ok tb' \<and> map fst (stt_rows tb') = map fst (stt_rows tb) @ ms"
proof (induction ms arbitrary: tb fs)
  case (Cons m ms)
  obtain r fs1 where l: "load_cached_manifest pc dr (cf_app_id m) (cf_depot_id m) (cf_gid m) fs = (r, fs1)"
    by fastforce
  then consider "r = Ok None" | man where "r = Ok (Some man)"
    using Cons.prems(1) by (cases r) (auto split: option.splits)
  then show ?case
  proof cases
    case 1
    let ?tb = "tb\<lparr>stt_rows := stt_rows tb @ [(m, None)], stt_missing := stt_missing tb + 1\<rparr>"
    have "table_ok ?tb" using Cons.prems(2) by (simp add: table_ok_def table_shas_snoc)
    then show ?thesis using Cons.IH [of ?tb fs1] Cons.prems(1) l 1 by simp
  next
    case (2 man)
    let ?st = "manifest_stats api cache (stt_all tb) man"
    let ?tb = "tb\<lparr>stt_rows := stt_rows tb @ [(m, Some ?st)], stt_all := st_all ?st,
        stt_uncompr := stt_uncompr tb + st_uncompr ?st\<rparr>"
    have "distinct (map fst (stt_all tb))" using Cons.prems(2) by (simp add: table_ok_def)
    note k = manifest_stats_keys [OF this, of api cache man]
    have "table_ok ?tb"
      using Cons.prems(2) k by (simp add: table_ok_def table_shas_snoc)
    then show ?thesis using Cons.IH [of ?tb fs1] Cons.prems(1) l 2 by (simp add: Let_def)
  qed
qed simp

lemma all_stats_fold:
  "fold (sum_chunk cache) all (a, b, c) =
     (a + sum_list (map (ucast \<circ> snd) all),
      b + sum_list (map (ucast \<circ> snd) (filter (\<lambda>e. fst e \<in> set (scan_shas cache)) all)),
      c + word_of_nat (length (filter (\<lambda>e. fst e \<in> set (scan_shas cache)) all)))"
  by (induction all arbitrary: a b c) (auto simp: sum_chunk_def algebra_simps split: prod.split)

lemma length_filter_keys:
  assumes "distinct (map fst xs)"
  shows "length (filter (\<lambda>e. fst e \<in> S) xs) = card (set (map fst xs) \<inter> S)"
proof -
  have "length (filter (\<lambda>e. fst e \<in> S) xs) = card (set (map fst (filter (\<lambda>e. fst e \<in> S) xs)))"
    using distinct_card [of "map fst (filter (\<lambda>e. fst e \<in> S) xs)"] distinct_map_filter [OF assms] by simp
  moreover have "set (map fst (filter (\<lambda>e. fst e \<in> S) xs)) = set (map fst xs) \<inter> S" by auto
  ultimately show ?thesis by simp
qed

text \<open>
  The table of \<open>stats\<close> has one row for each configured manifest, in order, and counts those
  without a cached manifest; its totals count a chunk once however many manifests share it: the
  hashes are those of all rows together, and the chunks fetched are the ones of them on disk.
\<close>
theorem stats_totals_exact:
  assumes "stats_rows api pc dr cache ms empty_table fs = (Ok tb, fs')"
    and "length ms < 2 ^ 64" and "length (stt_all tb) < 2 ^ 64"
  shows "map fst (stt_rows tb) = ms \<and>
    unat (stt_missing tb) = length (filter (\<lambda>r. snd r = None) (stt_rows tb)) \<and>
    length (stt_all tb) = card (table_shas (stt_rows tb)) \<and>
    unat (snd (snd (all_stats cache (stt_all tb)))) = card (table_shas (stt_rows tb) \<inter> set (scan_shas cache))"
proof -
  have "table_ok empty_table" by (simp add: table_ok_def empty_table_def table_shas_def)
  then have ok: "table_ok tb" "map fst (stt_rows tb) = ms"
    using stats_rows_ok [OF assms(1)] by (simp_all add: empty_table_def)
  have "length (stt_rows tb) = length ms" using ok(2) by (metis length_map)
  then have "length (filter (\<lambda>r. snd r = None) (stt_rows tb)) < 2 ^ 64"
    using assms(2) length_filter_le [of "\<lambda>r. snd r = None" "stt_rows tb"] by simp
  then have "unat (stt_missing tb) = length (filter (\<lambda>r. snd r = None) (stt_rows tb))"
    using ok(1) by (simp add: table_ok_def unat_of_nat take_bit_nat_eq_self)
  moreover have "length (stt_all tb) = card (table_shas (stt_rows tb))"
    using ok(1) distinct_card [of "map fst (stt_all tb)"] by (simp add: table_ok_def)
  moreover have "unat (snd (snd (all_stats cache (stt_all tb)))) = card (table_shas (stt_rows tb) \<inter> set (scan_shas cache))"
  proof -
    have "length (filter (\<lambda>e. fst e \<in> set (scan_shas cache)) (stt_all tb)) =
        card (table_shas (stt_rows tb) \<inter> set (scan_shas cache))"
      using length_filter_keys [of "stt_all tb" "set (scan_shas cache)"] ok(1) by (simp add: table_ok_def)
    moreover have "length (filter (\<lambda>e. fst e \<in> set (scan_shas cache)) (stt_all tb)) < 2 ^ 64"
      using assms(3) length_filter_le le_less_trans by blast
    ultimately show ?thesis
      by (simp add: all_stats_def all_stats_fold unat_of_nat take_bit_nat_eq_self)
  qed
  ultimately show ?thesis using ok(2) by blast
qed

section \<open>Offline\<close>

definition is_cached :: "postcard \<Rightarrow> depot_root \<Rightarrow> fsys \<Rightarrow> cfg_manifest \<Rightarrow> bool" where
  "is_cached pc dr fs m \<longleftrightarrow>
     (case fs_files fs (manifest_path (dr_manifests dr) (cf_app_id m, cf_depot_id m, cf_gid m)) of
        Some bs \<Rightarrow> pc_decode pc bs \<noteq> None | None \<Rightarrow> False)"

lemma load_cached_calm:
  "fs_faults fs = [] \<Longrightarrow> is_cached pc dr fs m \<Longrightarrow>
     \<exists>man. load_cached_manifest pc dr (cf_app_id m) (cf_depot_id m) (cf_gid m) fs = (Ok (Some man), fs)"
  by (auto simp: is_cached_def load_cached_manifest_def manifest_load_def fs_read_def next_fault_quiet Let_def
      split: option.splits)

lemma stats_missing_none:
  "fs_faults fs = [] \<Longrightarrow> list_all (is_cached pc dr fs) ms \<Longrightarrow> stats_missing pc dr ms fs = ([], fs)"
proof (induction ms)
  case (Cons m ms)
  then obtain man where
    "load_cached_manifest pc dr (cf_app_id m) (cf_depot_id m) (cf_gid m) fs = (Ok (Some man), fs)"
    using load_cached_calm by fastforce
  then show ?case using Cons by simp
qed simp

lemma stats_rows_none_missing:
  "fs_faults fs = [] \<Longrightarrow> list_all (is_cached pc dr fs) ms \<Longrightarrow>
     \<exists>tb'. stats_rows api pc dr cache ms tb fs = (Ok tb', fs) \<and> stt_missing tb' = stt_missing tb"
proof (induction ms arbitrary: tb)
  case (Cons m ms)
  then obtain man where l:
    "load_cached_manifest pc dr (cf_app_id m) (cf_depot_id m) (cf_gid m) fs = (Ok (Some man), fs)"
    using load_cached_calm by fastforce
  let ?st = "manifest_stats api cache (stt_all tb) man"
  show ?case
    using Cons.IH [of "tb\<lparr>stt_rows := stt_rows tb @ [(m, Some ?st)], stt_all := st_all ?st,
        stt_uncompr := stt_uncompr tb + st_uncompr ?st\<rparr>"] Cons.prems l by (simp add: Let_def)
qed simp

text \<open>
  With every configured manifest cached, on a disk that works, \<open>stats\<close> stays offline: it does
  not prepare a login, resolve a session or touch the network, and no row of its table is missing.
\<close>
theorem stats_stays_offline:
  assumes "fs_faults fs = []"
    and "list_all (is_cached pc (depot_root_new (op_components (cfg_store_root cfg)) pid) fs) (cfg_manifests cfg)"
    and "stats_run sc prepare pc env api pid listing order cfg verify fs sw = (r, fs', sw')"
  shows "sw' = sw \<and> (\<forall>rep tb. r = Ok rep \<longrightarrow> sr_table rep = Some tb \<longrightarrow> stt_missing tb = 0)"
proof -
  let ?dr = "depot_root_new (op_components (cfg_store_root cfg)) pid"
  have o: "depot_root_open env (op_components (cfg_store_root cfg)) pid fs sw = (?dr, cache_start env fs sw)"
    using assms(1) by (simp add: depot_root_open_def chunk_dir_open_def fs_create_dir_all_def next_fault_quiet)
  have m: "stats_missing pc ?dr (cfg_manifests cfg) fs = ([], fs)"
    by (rule stats_missing_none [OF assms(1,2)])
  have rows: "\<exists>tb'. stats_rows api pc ?dr cache (cfg_manifests cfg) empty_table fs = (Ok tb', fs) \<and> stt_missing tb' = 0"
    for cache
    using stats_rows_none_missing [OF assms(1,2), of api cache empty_table] by (simp add: empty_table_def)
  show ?thesis
  proof (cases "scan_chunks (listing fs) (chunks_root ?dr)")
    case (Ok cache)
    obtain tb where "stats_rows api pc ?dr cache (cfg_manifests cfg) empty_table fs = (Ok tb, fs)" "stt_missing tb = 0"
      using rows by blast
    then show ?thesis using assms(3) o m Ok
      by (auto simp: stats_run_def cache_start_def fetch_all_missing_def Let_def split: if_splits prod.splits)
  qed (use assms(3) o m in \<open>auto simp: stats_run_def cache_start_def fetch_all_missing_def\<close>)
qed

section \<open>Witnesses\<close>

definition demo_cfg :: "cfg_manifest list \<Rightarrow> config" where
  "demo_cfg ms =
     \<lparr>cfg_mountpoint = \<lparr>op_absolute = True, op_components = [''m'']\<rparr>,
      cfg_store_root = \<lparr>op_absolute = True, op_components = [''s'']\<rparr>,
      cfg_steam = \<lparr>sa_account = [], sa_password = []\<rparr>, cfg_manifests = ms\<rparr>"

definition demo_entry :: "u64 \<Rightarrow> cfg_manifest" where
  "demo_entry g = \<lparr>cf_app_id = 1, cf_depot_id = 2, cf_gid = g, cf_branch = DEFAULT_BRANCH\<rparr>"

text \<open>Two manifests with the same chunk; a third entry has none on disk.\<close>

definition shared_chunk :: chunk where
  "shared_chunk = \<lparr>c_sha = ChunkHash [9], c_crc = 0, c_offset = 0, c_size_uncompressed = 5, c_size_compressed = 4\<rparr>"

definition shared_manifest :: manifest where
  "shared_manifest = \<lparr>m_depot_id = 2, m_manifest_id = 3, m_creation_time = 4, m_size_uncompressed = 5,
     m_size_compressed = 4, m_files = [\<lparr>f_path = ''a'', f_size = 5, f_kind = File (FileHash []) False [shared_chunk]\<rparr>]\<rparr>"

definition shared_postcard :: postcard where
  "shared_postcard = \<lparr>pc_encode = (\<lambda>_. Some [1]),
     pc_decode = (\<lambda>b. if b = [1] then Some (cached_of_manifest shared_manifest) else None)\<rparr>"

definition demo_store_fs :: fsys where
  "demo_store_fs =
     (let mc = manifest_cache_new [''s'', ''manifests''] 0
      in \<lparr>fs_files = [manifest_path mc (1, 2, 3) \<mapsto> [1], manifest_path mc (1, 2, 4) \<mapsto> [1]], fs_faults = []\<rparr>)"

lemma demo_dr: "dr_manifests (depot_root_new [''s''] 0) = manifest_cache_new [''s'', ''manifests''] 0"
  by (simp add: depot_root_new_def)

lemma demo_load:
  "g \<in> {3, 4} \<Longrightarrow> load_cached_manifest shared_postcard (depot_root_new [''s''] 0) 1 2 g demo_store_fs =
     (Ok (Some shared_manifest), demo_store_fs)"
  "load_cached_manifest shared_postcard (depot_root_new [''s''] 0) 1 2 5 demo_store_fs = (Ok None, demo_store_fs)"
  by (auto simp: load_cached_manifest_def demo_dr manifest_load_def demo_store_fs_def fs_read_def next_fault_def
      manifest_path_inject shared_postcard_def manifest_of_cached_def cached_of_manifest_def comp_def Let_def)

definition demo_stats :: chunk_stats where
  "demo_stats = \<lparr>st_uncompr = 5, st_compr = 4, st_fetched_compr = 4, st_chunks = 1, st_fetched_chunks = 1,
     st_unique = [ChunkHash [9]], st_all = [(ChunkHash [9], 4)]\<rparr>"

definition demo_table :: stats_table where
  "demo_table = \<lparr>stt_rows = [(demo_entry 3, Some demo_stats), (demo_entry 4, Some demo_stats), (demo_entry 5, None)],
     stt_all = [(ChunkHash [9], 4)], stt_uncompr = 10, stt_missing = 1\<rparr>"

lemma demo_rows:
  "stats_rows std_depot_api shared_postcard (depot_root_new [''s''] 0)
     \<lparr>scan_shas = [ChunkHash [9]], scan_bytes = 4, scan_count = 1\<rparr>
     [demo_entry 3, demo_entry 4, demo_entry 5] empty_table demo_store_fs = (Ok demo_table, demo_store_fs)"
  by (simp add: demo_entry_def demo_load manifest_stats_def shared_manifest_def std_depot_api_def shared_chunk_def
      count_chunk_def or_insert_def empty_table_def demo_table_def demo_stats_def Let_def)

theorem stats_totals_exact_witness:
  "card (table_shas (stt_rows demo_table)) = 1 \<and> unat (stt_missing demo_table) = 1"
  using stats_totals_exact [OF demo_rows] by (simp add: demo_table_def)

theorem stats_stays_offline_witness:
  "snd (snd (stats_run demo_client (\<lambda>n. (Err (VfsOther ''no network''), n)) shared_postcard std_env std_depot_api 0
     (\<lambda>_ _. Ok []) (\<lambda>ms. ms) (demo_cfg [demo_entry 3, demo_entry 4]) True demo_store_fs demo_steam)) = demo_steam"
proof -
  let ?run = "stats_run demo_client (\<lambda>n. (Err (VfsOther ''no network''), n)) shared_postcard std_env std_depot_api 0
     (\<lambda>_ _. Ok []) (\<lambda>ms. ms) (demo_cfg [demo_entry 3, demo_entry 4]) True demo_store_fs demo_steam"
  have cached: "list_all (is_cached shared_postcard
      (depot_root_new (op_components (cfg_store_root (demo_cfg [demo_entry 3, demo_entry 4]))) 0) demo_store_fs)
      (cfg_manifests (demo_cfg [demo_entry 3, demo_entry 4]))"
    by (simp add: demo_cfg_def is_cached_def demo_dr demo_store_fs_def demo_entry_def manifest_path_inject
        shared_postcard_def Let_def)
  have "?run = (fst ?run, fst (snd ?run), snd (snd ?run))" by simp
  from stats_stays_offline [OF _ cached this] show ?thesis by (simp add: demo_store_fs_def Let_def)
qed

end
