(* ===== verification/Mount_Session.thy ===== *)
theory Mount_Session
  imports Cli_Config Reference_Env
begin

text \<open>
  The FUSE mount as a handle, \<open>steam-depot-mount/src/session.rs\<close>, and the command \<open>mount\<close> of
  \<open>main.rs\<close> that owns one: the directories are made, the mount comes up empty, every configured
  manifest is registered, and it stays until a signal.  The ProjFS handle of
  \<open>projfs_session.rs\<close> has the same operations on its tree.
\<close>

section \<open>The host\<close>

text \<open>
  What the handle uses of \<open>fuser\<close> and of the runtime, over a state \<open>'k\<close>: \<open>Session::new\<close> mounts,
  \<open>spawn\<close> starts to serve, \<open>umount_and_join\<close> and a drop end it, and a signal may come.
\<close>

datatype fuse_option = MountRO | FsName string

record 'k fuse_host =
  fh_new :: "os_path \<Rightarrow> fuse_option list \<Rightarrow> 'k \<Rightarrow> (io_error, unit) outcome \<times> 'k"
  fh_spawn :: "'k \<Rightarrow> (io_error, unit) outcome \<times> 'k"
  fh_umount :: "'k \<Rightarrow> (io_error, unit) outcome \<times> 'k"
  fh_drop :: "'k \<Rightarrow> 'k"
  fh_signal :: "'k \<Rightarrow> (io_error, unit) outcome \<times> 'k"

record mount_config =
  mo_mountpoint :: os_path
  mo_fs_name :: "string option"

definition mount_config_new :: "os_path \<Rightarrow> mount_config" where
  "mount_config_new mountpoint = \<lparr>mo_mountpoint = mountpoint, mo_fs_name = None\<rparr>"

definition fuse_options :: "mount_config \<Rightarrow> fuse_option list" where
  "fuse_options cfg =
     [MountRO, FsName (case mo_fs_name cfg of Some n \<Rightarrow> n | None \<Rightarrow> ''steam-depot-mount'')]"

datatype mount_error = FuseError io_error

section \<open>The handle\<close>

text \<open>\<open>start\<close>: a session that cannot be spawned is dropped.\<close>

definition mount_start ::
  "'k fuse_host \<Rightarrow> mount_config \<Rightarrow> 'k \<Rightarrow> (mount_error, ('s, 'o) mount_tree) outcome \<times> 'k" where
  "mount_start fh cfg k =
     (case fh_new fh (mo_mountpoint cfg) (fuse_options cfg) k of
        (Err e, k1) \<Rightarrow> (Err (FuseError e), k1)
      | (Panic, k1) \<Rightarrow> (Panic, k1)
      | (Ok _, k1) \<Rightarrow>
          (case fh_spawn fh k1 of
             (Err e, k2) \<Rightarrow> (Err (FuseError e), fh_drop fh k2)
           | (Panic, k2) \<Rightarrow> (Panic, fh_drop fh k2)
           | (Ok _, k2) \<Rightarrow> (Ok mount_tree_new, k2)))"

text \<open>\<open>None\<close> is a panic.\<close>

definition mount_remove :: "snapshot_id \<Rightarrow> ('s, 'o) mount_tree \<Rightarrow> (bool \<times> ('s, 'o) mount_tree) option" where
  "mount_remove sn t = map_option (\<lambda>(r, t1). (r \<noteq> None, t1)) (remove sn t)"

text \<open>Waiting and unmounting take the handle; it is dropped if the signals cannot be waited for.\<close>

definition mount_unmount :: "'k fuse_host \<Rightarrow> 'k \<Rightarrow> (io_error, unit) outcome \<times> 'k" where
  "mount_unmount fh k = fh_umount fh k"

definition wait_for_signal :: "'k fuse_host \<Rightarrow> 'k \<Rightarrow> (io_error, unit) outcome \<times> 'k" where
  "wait_for_signal fh k =
     (case fh_signal fh k of
        (Ok _, k1) \<Rightarrow> mount_unmount fh k1
      | (r, k1) \<Rightarrow> (r, fh_drop fh k1))"

section \<open>The command\<close>

datatype mount_cmd_error =
    CmdIo io_error | CmdMount mount_error | CmdAuth vfs_error | CmdAdd add_error

text \<open>
  \<open>mount\<close> in \<open>main.rs\<close>: what it returns, the disk, the host and, if the registrations were made,
  the tree that was served.  Whatever ends it after the start drops the handle.
\<close>

definition mount_cmd ::
  "'k fuse_host \<Rightarrow> ('w \<Rightarrow> (vfs_error, unit) outcome \<times> 'w) \<Rightarrow> postcard \<Rightarrow> 'l chunk_env \<Rightarrow> nat \<Rightarrow> config \<Rightarrow>
     fsys \<Rightarrow> 'w \<Rightarrow> 'k \<Rightarrow>
     (mount_cmd_error, unit) outcome \<times> ('s, cfg_manifest) mount_tree option \<times> fsys \<times> 'w \<times> 'k" where
  "mount_cmd fh prepare pc env pid cfg fs n k =
     (case fs_create_dir_all (op_components (cfg_mountpoint cfg)) fs of
        (Err e, fs1) \<Rightarrow> (Err (CmdIo e), None, fs1, n, k)
      | (Panic, fs1) \<Rightarrow> (Panic, None, fs1, n, k)
      | (Ok _, fs1) \<Rightarrow>
     (case fs_create_dir_all (op_components (cfg_store_root cfg)) fs1 of
        (Err e, fs2) \<Rightarrow> (Err (CmdIo e), None, fs2, n, k)
      | (Panic, fs2) \<Rightarrow> (Panic, None, fs2, n, k)
      | (Ok _, fs2) \<Rightarrow>
     (case mount_start fh (mount_config_new (cfg_mountpoint cfg)) k of
        (Err e, k1) \<Rightarrow> (Err (CmdMount e), None, fs2, n, k1)
      | (Panic, k1) \<Rightarrow> (Panic, None, fs2, n, k1)
      | (Ok t0, k1) \<Rightarrow>
     (case prepare n of
        (Err e, n1) \<Rightarrow> (Err (CmdAuth e), None, fs2, n1, fh_drop fh k1)
      | (Panic, n1) \<Rightarrow> (Panic, None, fs2, n1, fh_drop fh k1)
      | (Ok _, n1) \<Rightarrow>
     (case depot_root_open env (op_components (cfg_store_root cfg)) pid fs2 n1 of
        (dr, cw) \<Rightarrow>
     (case register_manifests pc dr 0 (cfg_manifests cfg) t0 (cw_fs cw) of
        None \<Rightarrow> (Panic, None, cw_fs cw, n1, fh_drop fh k1)
      | Some (Err e, t1, fs3) \<Rightarrow> (Err (CmdAdd e), None, fs3, n1, fh_drop fh k1)
      | Some (Panic, t1, fs3) \<Rightarrow> (Panic, None, fs3, n1, fh_drop fh k1)
      | Some (Ok _, t1, fs3) \<Rightarrow>
          (case wait_for_signal fh k1 of
             (r, k2) \<Rightarrow> (omap_err CmdIo r, Some t1, fs3, n1, k2))))))))"

section \<open>Properties\<close>

text \<open>
  What \<open>fuser\<close> documents: a session exists mounted or not at all, spawning and waiting leave it,
  dropping it unmounts, and so does \<open>umount_and_join\<close> when it returns without an error.
\<close>

definition host_ok :: "'k fuse_host \<Rightarrow> ('k \<Rightarrow> bool) \<Rightarrow> bool" where
  "host_ok fh up \<longleftrightarrow>
     (\<forall>k p opts r k1. \<not> up k \<longrightarrow> fh_new fh p opts k = (r, k1) \<longrightarrow> up k1 = (r = Ok ())) \<and>
     (\<forall>k r k1. fh_umount fh k = (r, k1) \<longrightarrow> r = Ok () \<longrightarrow> \<not> up k1) \<and>
     (\<forall>k. \<not> up (fh_drop fh k))"

text \<open>
  C34: The command never leaves its mount behind.  However it ends, with success, an error of the
  disk, of the login, of a registration, of the signals, or a panic, nothing is mounted when it
  has returned, unless the unmount after the signal itself reported the error.
\<close>
theorem mount_leaves_nothing:
  assumes "host_ok fh up" and "\<not> up k"
    and "mount_cmd fh prepare pc env pid cfg fs n k = (r, t, fs', n', k')"
  shows "\<not> up k' \<or> (t \<noteq> None \<and> r \<noteq> Ok () \<and> (\<exists>k1. fst (fh_umount fh k1) \<noteq> Ok ()))"
proof -
  have drop: "\<And>k. \<not> up (fh_drop fh k)"
    and new: "\<And>p opts q k1. fh_new fh p opts k = (q, k1) \<Longrightarrow> up k1 = (q = Ok ())"
    and umount: "\<And>k q k1. fh_umount fh k = (q, k1) \<Longrightarrow> q = Ok () \<Longrightarrow> \<not> up k1"
    using assms(1,2) unfolding host_ok_def by blast+
  have start: "\<not> up k1" if "mount_start fh c k = (q, k1)" "\<forall>u. q \<noteq> Ok u"
    for c k1 and q :: "(mount_error, ('b, cfg_manifest) mount_tree) outcome"
    using that drop new by (auto simp: mount_start_def split: prod.splits outcome.splits)
  have wait: "\<not> up k2 \<or> (q \<noteq> Ok () \<and> (\<exists>k1. fst (fh_umount fh k1) \<noteq> Ok ()))"
    if w: "wait_for_signal fh k1 = (q, k2)" for k1 q k2
  proof -
    obtain s k3 where s: "fh_signal fh k1 = (s, k3)" by fastforce
    show ?thesis
    proof (cases s)
      case (Ok u)
      then have "fh_umount fh k3 = (q, k2)" using w s by (simp add: wait_for_signal_def mount_unmount_def)
      then show ?thesis using umount by (cases "q = Ok ()") (auto intro: exI [of _ k3])
    qed (use w s drop in \<open>auto simp: wait_for_signal_def\<close>)
  qed
  note m = assms(3) [unfolded mount_cmd_def]
  show ?thesis
    using m assms(2) drop start wait
    by (auto split: prod.splits outcome.splits option.splits)
qed

text \<open>
  C35: What the command serves is the configuration.  When it got as far as waiting for a signal,
  no manifest is listed twice and the tree has one slot for each, in order, unopened, whose
  opener is its own entry.
\<close>
theorem mount_serves_configuration:
  fixes t :: "('s, cfg_manifest) mount_tree"
  assumes "mount_cmd fh prepare pc env pid cfg fs n k = (r, Some t, fs', n', k')"
    and "length (cfg_manifests cfg) < 2 ^ 16"
  shows "distinct (map cfg_key (cfg_manifests cfg)) \<and>
    length (mt_slots t) = Suc (length (cfg_manifests cfg)) \<and>
    (\<forall>i < length (cfg_manifests cfg). slot_for i (cfg_manifests cfg ! i) (mt_slots t ! Suc i))"
proof -
  obtain dr fs1 fs2 where reg:
    "register_manifests pc dr 0 (cfg_manifests cfg) mount_tree_new fs1 = Some (Ok (), t, fs2)"
    using assms(1) by (auto simp: mount_cmd_def mount_start_def split: prod.splits outcome.splits option.splits)
  then show ?thesis
    using mount_registers_config [OF assms(2), of pc dr fs1, where 'a = 's] unfolding reg by auto
qed

section \<open>Witnesses\<close>

definition demo_host :: "bool fuse_host" where
  "demo_host = \<lparr>fh_new = (\<lambda>_ _ _. (Ok (), True)), fh_spawn = (\<lambda>k. (Ok (), k)), fh_umount = (\<lambda>_. (Ok (), False)),
     fh_drop = (\<lambda>_. False), fh_signal = (\<lambda>k. (Ok (), k))\<rparr>"

lemma demo_host_ok: "host_ok demo_host (\<lambda>k. k)"
  by (simp add: host_ok_def demo_host_def)

definition demo_config :: "u64 list \<Rightarrow> config" where
  "demo_config gids =
     \<lparr>cfg_mountpoint = \<lparr>op_absolute = True, op_components = [''m'']\<rparr>,
      cfg_store_root = \<lparr>op_absolute = True, op_components = [''s'']\<rparr>,
      cfg_steam = \<lparr>sa_account = [], sa_password = []\<rparr>,
      cfg_manifests = map (\<lambda>g. \<lparr>cf_app_id = 1, cf_depot_id = 2, cf_gid = g, cf_branch = DEFAULT_BRANCH\<rparr>) gids\<rparr>"

abbreviation demo_mount_cmd ::
  "u64 list \<Rightarrow> (mount_cmd_error, unit) outcome \<times> (unit, cfg_manifest) mount_tree option \<times> fsys \<times> unit \<times> bool" where
  "demo_mount_cmd gids \<equiv>
     mount_cmd demo_host (\<lambda>n. (Ok (), n)) demo_postcard std_env 7 (demo_config gids)
       \<lparr>fs_files = Map.empty, fs_faults = []\<rparr> () False"

theorem mount_leaves_nothing_witness: "\<not> snd (snd (snd (snd (demo_mount_cmd [3, 3]))))"
proof -
  let ?c = "demo_mount_cmd [3, 3]"
  obtain r t fs' n' k' where c: "?c = (r, t, fs', n', k')" by (cases ?c rule: prod_cases5)
  from mount_leaves_nothing [OF demo_host_ok _ c] show ?thesis unfolding c by (simp add: demo_host_def)
qed

theorem mount_serves_configuration_witness:
  "\<exists>t. fst (snd (demo_mount_cmd [3, 4])) = Some t \<and> length (mt_slots t) = 3"
proof -
  let ?dr = "depot_root_new [''s''] 7" and ?fs = "\<lparr>fs_files = Map.empty, fs_faults = []\<rparr> :: fsys"
  let ?ms = "cfg_manifests (demo_config [3, 4])"
  have len: "length ?ms < 2 ^ 16" by (simp add: demo_config_def)
  have "distinct (map cfg_key ?ms)" by (simp add: demo_config_def cfg_key_def)
  with mount_registers_config [OF len, of demo_postcard ?dr ?fs] obtain t :: "(unit, cfg_manifest) mount_tree" and fs'
    where reg: "register_manifests demo_postcard ?dr 0 ?ms mount_tree_new ?fs = Some (Ok (), t, fs')" by auto
  have "demo_mount_cmd [3, 4] = (Ok (), Some t, fs', (), False)"
    using reg
    by (simp add: mount_cmd_def demo_host_def mount_start_def wait_for_signal_def mount_unmount_def
        fs_create_dir_all_def next_fault_def depot_root_open_def chunk_dir_open_def cache_start_def
        demo_config_def)
  from mount_serves_configuration [OF this len] this show ?thesis by (simp add: demo_config_def)
qed

end
