(* ===== verification/Cache_Properties.thy ===== *)
theory Cache_Properties
  imports Reference_Env
begin

text \<open>
  What the disk cache guarantees: the properties of \<open>Chunk_Cache\<close>, with witnesses on the
  reference environment.
\<close>

text \<open>
  C28: Decoding inverts encoding for chunks of up to 64 MiB and recovers the digest of the
  plaintext; a larger chunk is encoded without complaint into a frame that decodes as corrupt.
\<close>

theorem frame_roundtrip:
  assumes "encode_frame env p = Ok fr" and "zstd_ok env" and "\<forall>b. length (ce_sha1 env b) = 20"
    and "length p < 2 ^ 64"
  shows "decode_frame env fr =
    (if length p \<le> 64 * 1024 * 1024 then Some (ChunkHash (ce_sha1 env p), p) else None)"
  using decode_encode_as [of env p "ce_sha1 env p" fr] assms
  by (simp add: encode_frame_def MAX_PLAIN_LEN_def)

theorem frame_roundtrip_witness:
  "\<exists>fr. encode_frame std_env [7, 8, 9] = Ok fr \<and>
     decode_frame std_env fr = Some (demo_hash [7, 8, 9], [7, 8, 9])"
proof -
  have ok: "zstd_ok std_env" "\<forall>b. length (ce_sha1 std_env b) = 20" "length ([7, 8, 9] :: bytes) < 2 ^ 64"
    using std_env_ok by (simp_all add: env_ok_def)
  have "encode_frame std_env [7, 8, 9] = Ok (to_le_bytes (len64 [7, 8, 9 :: u8]) @ pad20 [7, 8, 9] @ [7, 8, 9])"
    by (simp add: encode_frame_def encode_frame_as_def std_env_def)
  with frame_roundtrip [OF this ok] show ?thesis by (simp add: demo_hash_def std_env_def)
qed

text \<open>
  The cache never serves a chunk under a wrong name.  Whatever bytes the inner store
  answers and whatever fails on the disk, a \<open>get\<close> that succeeds returns bytes whose SHA-1 is the
  name asked for, and the cache stays in a state where this holds for the next caller; it panics
  only if the inner store does.
\<close>

theorem cache_get_verified:
  assumes "env_ok env" and "cache_inv env dir (\<lambda>h b. ce_sha1 env b = hash_bytes h) w"
    and "\<forall>h i b i'. cs_get inner h i = (Ok b, i') \<longrightarrow> length b < 2 ^ 64"
    and "\<forall>h i. fst (cs_get inner h i) \<noteq> Panic"
    and "fs_cache_get env dir inner h w = (r, w')"
  shows "r \<noteq> Panic \<and> (\<forall>b. r = Ok b \<longrightarrow> ce_sha1 env b = hash_bytes h) \<and>
    cache_inv env dir (\<lambda>h b. ce_sha1 env b = hash_bytes h) w'"
proof -
  have "inner_ok env (\<lambda>h b. ce_sha1 env b = hash_bytes h) (\<lambda>_. True) inner"
    using assms(3) unfolding inner_ok_def by blast
  note s = fs_cache_get_sound [OF assms(5,1) this assms(2)]
  show ?thesis using s assms(4) by blast
qed

theorem cache_get_verified_witness:
  "fst (fs_cache_get std_env (chunk_dir_new [''c'']) (wrong_store [1, 2]) (demo_hash [3])
      (cache_start std_env \<lparr>fs_files = Map.empty, fs_faults = [Some (KOther, 0), None]\<rparr> ())) \<noteq> Panic"
proof -
  let ?fs = "\<lparr>fs_files = Map.empty, fs_faults = [Some (KOther, 0), None]\<rparr>"
  let ?r = "fs_cache_get std_env (chunk_dir_new [''c'']) (wrong_store [1, 2]) (demo_hash [3])
      (cache_start std_env ?fs ())"
  have "cache_inv std_env (chunk_dir_new [''c'']) (\<lambda>h b. ce_sha1 std_env b = hash_bytes h)
      (cache_start std_env ?fs ())" by (rule cache_start_inv [OF std_env_ok]) simp
  moreover have "\<forall>h i b i'. cs_get (wrong_store [1, 2]) h i = (Ok b, i') \<longrightarrow> length b < 2 ^ 64"
    "\<forall>h i. fst (cs_get (wrong_store [1, 2]) h i) \<noteq> Panic" by (simp_all add: wrong_store_def)
  moreover have "?r = (fst ?r, snd ?r)" by simp
  ultimately show ?thesis using cache_get_verified [OF std_env_ok] by blast
qed



text \<open>
  C27: A corrupt file heals itself.  When the file under a chunk's name does not decode, or
  claims another name, and the disk works, a \<open>get\<close> deletes it, fetches the chunk and replaces
  it: the caller gets the chunk and the file decodes to it from then on.
\<close>

theorem corrupt_chunk_heals:
  assumes "env_ok env" and "fs_faults (cw_fs w) = []"
    and "ce_lru_map env (cw_decoded w) h = None"
    and "\<forall>fr. fs_files (cw_fs w) (path_for env dir h) = Some fr \<longrightarrow> (\<forall>b. decode_frame env fr \<noteq> Some (h, b))"
    and "cs_get inner h (cw_inner w) = (Ok b, i')" and "ce_sha1 env b = hash_bytes h"
    and "ce_compress env b = Inr c" and "length b \<le> MAX_PLAIN_LEN"
  shows "\<exists>w' fr. fs_cache_get env dir inner h w = (Ok b, w') \<and>
    fs_files (cw_fs w') (path_for env dir h) = Some fr \<and> decode_frame env fr = Some (h, b)"
proof -
  have lru: "lru_ok env" and z: "zstd_ok env" and len: "length (hash_bytes h) = 20"
    using assms(1,6) by (auto simp: env_ok_def) (metis assms(6))
  let ?p = "path_for env dir h"
  obtain a w1 where a: "cache_hit env h w = (a, w1)" by fastforce
  note a' = cache_hit_sound [OF a lru]
  obtain d w2 where d: "cache_hit env h w1 = (d, w2)" by fastforce
  note d' = cache_hit_sound [OF d lru]
  have ad: "a = None" "d = None" using assms(3) a' d' by simp_all
  have fs2: "cw_fs w2 = cw_fs w" "cw_inner w2 = cw_inner w" using a' d' by simp_all
  have q2: "fs_faults (cw_fs w2) = []" using fs2 assms(2) by simp
  have rv: "fst (read_verified env h ?p w2) = None" "cw_inner (snd (read_verified env h ?p w2)) = cw_inner w2"
    using assms(4) fs2 assms(2)
    by (cases "fs_files (cw_fs w) ?p"; auto simp: read_verified_def fs_read_def next_fault_quiet
        delete_corrupt_def Let_def split: option.split prod.split)+
  obtain w3 where w3: "read_verified env h ?p w2 = (None, w3)" using rv(1) by (metis prod.collapse)
  have q3: "fs_faults (cw_fs w3) = []" "cw_inner w3 = cw_inner w"
    using read_verified_quiet [OF q2, of env h ?p] rv(2) fs2(2) w3 by simp_all
  let ?fr = "to_le_bytes (len64 b) @ hash_bytes h @ c"
  have ef: "encode_frame_as env b (hash_bytes h) = Ok ?fr" by (simp add: encode_frame_as_def assms(7))
  have "length b < 2 ^ 64" using assms(8) by (simp add: MAX_PLAIN_LEN_def)
  then have dec: "decode_frame env ?fr = Some (h, b)"
    using decode_encode_as [OF ef z len] assms(8) by simp
  let ?w3 = "w3\<lparr>cw_inner := i'\<rparr>"
  obtain w4 where w4: "write_atomic env ?p ?fr ?w3 = (Ok (), w4)"
    using q3 by (simp add: write_atomic_quiet)
  have hex: "hex_ok env" using assms(1) by (simp add: env_ok_def)
  have "fs_files (cw_fs w4) ?p = Some ?fr"
    using write_atomic_files(1) [OF w4 tmp_not_chunk [OF hex, symmetric]] by simp
  moreover have "fs_cache_get env dir inner h w = (Ok b, cache_decoded env h b w4)"
    using a d ad w3 assms(5,6) q3(2) ef w4
    by (simp add: fs_cache_get_def Let_def fetch_and_persist_def)
  ultimately show ?thesis using dec by (auto simp: cache_decoded_def)
qed

theorem corrupt_chunk_heals_witness:
  "\<exists>w' fr. fs_cache_get std_env (chunk_dir_new [''c'']) (mem_store [(demo_hash [5, 6], [5, 6])]) (demo_hash [5, 6])
      (cache_start std_env \<lparr>fs_files = [path_for std_env (chunk_dir_new [''c'']) (demo_hash [5, 6]) \<mapsto> [1, 2]],
         fs_faults = []\<rparr> 0) = (Ok [5, 6], w') \<and>
    fs_files (cw_fs w') (path_for std_env (chunk_dir_new [''c'']) (demo_hash [5, 6])) = Some fr \<and>
    decode_frame std_env fr = Some (demo_hash [5, 6], [5, 6])"
proof (rule corrupt_chunk_heals [OF std_env_ok])
  let ?fs = "\<lparr>fs_files = [path_for std_env (chunk_dir_new [''c'']) (demo_hash [5, 6]) \<mapsto> [1, 2 :: u8]],
         fs_faults = []\<rparr>"
  show "fs_faults (cw_fs (cache_start std_env ?fs (0 :: nat))) = []" by (simp add: cache_start_def)
  show "ce_lru_map std_env (cw_decoded (cache_start std_env ?fs (0 :: nat))) (demo_hash [5, 6]) = None"
    by (simp add: cache_start_def std_env_def)
  show "\<forall>fr. fs_files (cw_fs (cache_start std_env ?fs (0 :: nat))) (path_for std_env (chunk_dir_new [''c'']) (demo_hash [5, 6]))
      = Some fr \<longrightarrow> (\<forall>b. decode_frame std_env fr \<noteq> Some (demo_hash [5, 6], b))"
    by (simp add: cache_start_def decode_frame_def)
  show "cs_get (mem_store [(demo_hash [5, 6], [5, 6])]) (demo_hash [5, 6])
      (cw_inner (cache_start std_env ?fs (0 :: nat))) = (Ok [5, 6], 1)"
    by (simp add: mem_store_def Let_def cache_start_def)
  show "ce_sha1 std_env [5, 6] = hash_bytes (demo_hash [5, 6])" by (simp add: std_env_def demo_hash_def)
  show "ce_compress std_env [5, 6] = Inr [5, 6]" by (simp add: std_env_def)
  show "length ([5, 6] :: bytes) \<le> MAX_PLAIN_LEN" by (simp add: MAX_PLAIN_LEN_def)
qed

end
