(* ===== verification/Open_Race.thy ===== *)
theory Open_Race
  imports View "HOL-Library.Multiset"
begin

text \<open>
  Requests that race to open one lazily mounted snapshot: \<open>slot_lookup\<close> and \<open>resolve\<close> of \<open>view.rs\<close>,
  step by step.  Every request of a back end is a caller; the tree, the \<open>OnceCell\<close> of every lazy
  entry and the world of the openers are shared.  A caller looks its slot up, enters
  \<open>get_or_init\<close>, runs the opener if it gets the cell's permit, and promotes what was opened;
  between two of its steps the others, and the owner of the mount who adds and removes
  snapshots, may do anything.

  Of \<open>tokio\<close>'s \<open>OnceCell\<close> this takes what it documents: one closure runs at a time, a cell that is
  filled stays as it is and everybody gets its value, and a closure that panics or whose future
  is dropped leaves the cell empty for the next who waits.  An opener takes effect when it ends;
  one that is dropped may leave its world in any state.  What is logged besides the code's
  state: the cells whose opener was started, those an opener filled, and those whose opener was lost.
\<close>

section \<open>A caller\<close>

datatype 's open_answer = OpServed "'s snapshot_entry" | OpFailed string | OpMissing

datatype ('s, 'o) open_pc =
    OLook                                  \<comment> \<open>before \<open>slot_lookup\<close>\<close>
  | OInit "'o lazy_entry"                  \<comment> \<open>in \<open>get_or_init\<close>, without the permit\<close>
  | OOpening "'o lazy_entry"               \<comment> \<open>with the permit, the opener runs\<close>
  | OPromote "'o lazy_entry" "'s snapshot_entry"
  | OReturned "'o lazy_entry option" "'s open_answer"
  | OGone                                  \<comment> \<open>dropped, or its opener panicked\<close>

record ('s, 'o, 'w) open_race =
  or_mount :: "('s, 'o, 'w) mount_world"
  or_tasks :: "(sid \<times> ('s, 'o) open_pc) list"
  or_started :: "nat list"
  or_opened :: "(nat \<times> (string + 's snapshot_entry)) list"
  or_lost :: "nat list"

definition open_start :: "sid list \<Rightarrow> ('s, 'o, 'w) mount_world \<Rightarrow> ('s, 'o, 'w) open_race" where
  "open_start sids mw =
     \<lparr>or_mount = mw, or_tasks = map (\<lambda>sid. (sid, OLook)) sids, or_started = [], or_opened = [], or_lost = []\<rparr>"

fun opens_cell :: "('s, 'o) open_pc \<Rightarrow> nat option" where
  "opens_cell (OOpening lz) = Some (le_cell lz)"
| "opens_cell _ = None"

definition permit_free :: "('s, 'o, 'w) open_race \<Rightarrow> nat \<Rightarrow> bool" where
  "permit_free s c = list_all (\<lambda>t. opens_cell (snd t) \<noteq> Some c) (or_tasks s)"

text \<open>What \<open>get_or_init\<close> returned: an error goes back at once, a snapshot is promoted first.\<close>

fun after_init :: "'o lazy_entry \<Rightarrow> string + 's snapshot_entry \<Rightarrow> ('s, 'o) open_pc" where
  "after_init lz (Inl e) = OReturned (Some lz) (OpFailed e)"
| "after_init lz (Inr entry) = OPromote lz entry"

definition set_open :: "nat \<Rightarrow> sid \<Rightarrow> ('s, 'o) open_pc \<Rightarrow> ('s, 'o, 'w) open_race \<Rightarrow> ('s, 'o, 'w) open_race" where
  "set_open i sid p s = s\<lparr>or_tasks := (or_tasks s)[i := (sid, p)]\<rparr>"

definition open_task_step ::
  "('s, 'o, 'w) opener_env \<Rightarrow> nat \<Rightarrow> ('s, 'o, 'w) open_race \<Rightarrow> ('s, 'o, 'w) open_race option" where
  "open_task_step env i s =
     (let mw = or_mount s in
      case get_at (or_tasks s) i of
        None \<Rightarrow> None
      | Some (sid, p) \<Rightarrow>
          (case p of
             OLook \<Rightarrow>
               Some (set_open i sid
                 (case slot_lookup (mw_tree mw) sid of
                    SlReady entry \<Rightarrow> OReturned None (OpServed entry)
                  | SlPending lz \<Rightarrow> OInit lz
                  | SlMissing \<Rightarrow> OReturned None OpMissing) s)
           | OInit lz \<Rightarrow>
               (case mw_cells mw (le_cell lz) of
                  Some c \<Rightarrow> Some (set_open i sid (after_init lz c) s)
                | None \<Rightarrow>
                    if permit_free s (le_cell lz) then
                      Some (set_open i sid (OOpening lz) (s\<lparr>or_started := le_cell lz # or_started s\<rparr>))
                    else None)
           | OOpening lz \<Rightarrow>
               (case oe_open env (le_opener lz) (mw_open mw) of (r, w) \<Rightarrow>
                  (let s1 = s\<lparr>or_mount := mw\<lparr>mw_open := w\<rparr>\<rparr>;
                       fill = (\<lambda>c. Some (set_open i sid (after_init lz c)
                         (s1\<lparr>or_mount := (or_mount s1)\<lparr>mw_cells := (mw_cells mw)(le_cell lz \<mapsto> c)\<rparr>,
                             or_opened := (le_cell lz, c) # or_opened s\<rparr>)))
                   in case r of
                        Ok store \<Rightarrow> fill (Inr \<lparr>se_snapshot = store\<rparr>)
                      | Err e \<Rightarrow> fill (Inl (oe_text env e))
                      | Panic \<Rightarrow> Some (set_open i sid OGone (s1\<lparr>or_lost := le_cell lz # or_lost s\<rparr>))))
           | OPromote lz entry \<Rightarrow>
               Some (set_open i sid (OReturned (Some lz) (OpServed entry))
                 (s\<lparr>or_mount := mw\<lparr>mw_tree := promote (SnapshotId sid) entry (mw_tree mw)\<rparr>\<rparr>))
           | OReturned known a \<Rightarrow> None
           | OGone \<Rightarrow> None))"

section \<open>Events\<close>

text \<open>
  A caller takes its next step, a caller's future is dropped (what an opener that was running has
  done by then is not known), or the owner of the mount adds or removes a snapshot.
\<close>

datatype ('s, 'o, 'w) open_event =
    CallerRuns nat
  | CallerDropped nat 'w
  | OwnerAdds u32 u32 u64 "('s, 'o) slot_state" "u32 option"
  | OwnerRemoves snapshot_id

fun open_final :: "('s, 'o) open_pc \<Rightarrow> bool" where
  "open_final (OReturned known a) = True"
| "open_final OGone = True"
| "open_final _ = False"

definition drop_caller :: "nat \<Rightarrow> 'w \<Rightarrow> ('s, 'o, 'w) open_race \<Rightarrow> ('s, 'o, 'w) open_race option" where
  "drop_caller i w s =
     (case get_at (or_tasks s) i of
        None \<Rightarrow> None
      | Some (sid, p) \<Rightarrow>
          if open_final p then None
          else
            (case opens_cell p of
               None \<Rightarrow> Some (set_open i sid OGone s)
             | Some c \<Rightarrow>
                 Some (set_open i sid OGone
                   (s\<lparr>or_mount := (or_mount s)\<lparr>mw_open := w\<rparr>, or_lost := c # or_lost s\<rparr>))))"

definition owner_writes ::
  "('r \<times> ('s, 'o) mount_tree) option \<Rightarrow> ('s, 'o, 'w) open_race \<Rightarrow> ('s, 'o, 'w) open_race option" where
  "owner_writes res s = map_option (\<lambda>(_, t). s\<lparr>or_mount := (or_mount s)\<lparr>mw_tree := t\<rparr>\<rparr>) res"

fun open_step ::
  "('s, 'o, 'w) opener_env \<Rightarrow> ('s, 'o, 'w) open_event \<Rightarrow> ('s, 'o, 'w) open_race \<Rightarrow>
     ('s, 'o, 'w) open_race option" where
  "open_step env (CallerRuns i) s = open_task_step env i s"
| "open_step env (CallerDropped i w) s = drop_caller i w s"
| "open_step env (OwnerAdds a d g st hint) s =
     owner_writes (reserve_slot a d g st hint (mw_tree (or_mount s))) s"
| "open_step env (OwnerRemoves sn) s = owner_writes (remove sn (mw_tree (or_mount s))) s"

fun open_run ::
  "('s, 'o, 'w) opener_env \<Rightarrow> ('s, 'o, 'w) open_event list \<Rightarrow> ('s, 'o, 'w) open_race \<Rightarrow>
     ('s, 'o, 'w) open_race option" where
  "open_run env [] s = Some s"
| "open_run env (ev # evs) s = Option.bind (open_step env ev s) (open_run env evs)"

section \<open>What a caller knows of its slot\<close>

text \<open>
  A caller that found its slot pending or open, and the slot itself, stand for an entry: what they
  stand for agrees with what the cells hold.
\<close>

type_synonym ('s, 'o) stand = "'o lazy_entry + 's snapshot_entry"

fun knows :: "('s, 'o) open_pc \<Rightarrow> ('s, 'o) stand option" where
  "knows (OInit lz) = Some (Inl lz)"
| "knows (OOpening lz) = Some (Inl lz)"
| "knows (OPromote lz e) = Some (Inl lz)"
| "knows (OReturned (Some lz) a) = Some (Inl lz)"
| "knows (OReturned None (OpServed e)) = Some (Inr e)"
| "knows _ = None"

fun slot_stand :: "('s, 'o) slot_state \<Rightarrow> ('s, 'o) stand" where
  "slot_stand (Pending lz) = Inl lz"
| "slot_stand (Ready e) = Inr e"

type_synonym 's cells = "nat \<Rightarrow> (string + 's snapshot_entry) option"

fun agree :: "'s cells \<Rightarrow> ('s, 'o) stand \<Rightarrow> ('s, 'o) stand \<Rightarrow> bool" where
  "agree cells (Inl lz) (Inl lz') = (lz = lz')"
| "agree cells (Inl lz) (Inr e) = (cells (le_cell lz) = Some (Inr e))"
| "agree cells (Inr e) (Inl lz) = (cells (le_cell lz) = Some (Inr e))"
| "agree cells (Inr e) (Inr e') = (e = e')"

text \<open>The answer of a caller is the one in the cell, and an open slot is what it was promoted to.\<close>

fun settled :: "'s cells \<Rightarrow> ('s, 'o) mount_tree \<Rightarrow> sid \<Rightarrow> ('s, 'o) open_pc \<Rightarrow> bool" where
  "settled cells t sid (OOpening lz) = (cells (le_cell lz) = None)"
| "settled cells t sid (OPromote lz e) = (cells (le_cell lz) = Some (Inr e))"
| "settled cells t sid (OReturned (Some lz) a) =
     ((case a of OpServed e \<Rightarrow> cells (le_cell lz) = Some (Inr e) | OpFailed x \<Rightarrow> cells (le_cell lz) = Some (Inl x)
       | OpMissing \<Rightarrow> False) \<and>
      (\<forall>e sl. a = OpServed e \<longrightarrow> slot_at t sid = Some sl \<longrightarrow> sl_state sl = Ready e))"
| "settled cells t sid (OReturned None a) = 
      ((\<forall>e sl. a = OpServed e \<longrightarrow> slot_at t sid = Some sl \<longrightarrow> sl_state sl = Ready e) \<and> (\<forall>x. a \<noteq> OpFailed x))"
| "settled cells t sid p = True"

definition task_settled :: "('s, 'o, 'w) mount_world \<Rightarrow> sid \<times> ('s, 'o) open_pc \<Rightarrow> bool" where
  "task_settled mw tp \<longleftrightarrow>
     settled (mw_cells mw) (mw_tree mw) (fst tp) (snd tp) \<and>
     (\<forall>k. knows (snd tp) = Some k \<longrightarrow> unat (fst tp) < length (mt_slots (mw_tree mw)) \<and>
        (\<forall>sl. slot_at (mw_tree mw) (fst tp) = Some sl \<longrightarrow> agree (mw_cells mw) k (slot_stand (sl_state sl))))"

definition openings :: "('s, 'o, 'w) open_race \<Rightarrow> nat list" where
  "openings s = List.map_filter (\<lambda>t. opens_cell (snd t)) (or_tasks s)"

definition open_inv :: "('s, 'o, 'w) mount_world \<Rightarrow> ('s, 'o, 'w) open_race \<Rightarrow> bool" where
  "open_inv mw0 s \<longleftrightarrow>
     mw_cells (or_mount s) = mw_cells mw0 ++ map_of (or_opened s) \<and>
     distinct (map fst (or_opened s)) \<and> (\<forall>c \<in> fst ` set (or_opened s). mw_cells mw0 c = None) \<and>
     mset (or_started s) = mset (map fst (or_opened s)) + mset (or_lost s) + mset (openings s) \<and>
     distinct (openings s) \<and>
     (\<forall>tp \<in> set (or_tasks s). task_settled (or_mount s) tp) \<and>
     (\<forall>tp \<in> set (or_tasks s). \<forall>tq \<in> set (or_tasks s). fst tp = fst tq \<longrightarrow>
        (\<forall>k k'. knows (snd tp) = Some k \<longrightarrow> knows (snd tq) = Some k' \<longrightarrow> agree (mw_cells (or_mount s)) k k'))"

definition grows :: "'s cells \<Rightarrow> 's cells \<Rightarrow> bool" where
  "grows cells cells' \<longleftrightarrow> (\<forall>c v. cells c = Some v \<longrightarrow> cells' c = Some v)"

lemma growsD: "cells c = Some v \<Longrightarrow> grows cells cells' \<Longrightarrow> cells' c = Some v"
  by (simp add: grows_def)

lemma grows_refl [simp]: "grows cells cells"
  by (simp add: grows_def)

lemma agree_sym: "agree cells k k' = agree cells k' k"
  by (cases k; cases k') auto

lemma agree_refl [simp]: "agree cells k k"
  by (cases k) auto

lemma agree_grow: "agree cells k k' \<Longrightarrow> grows cells cells' \<Longrightarrow> agree cells' k k'"
  by (cases k; cases k') (auto dest: growsD)

subsection \<open>Lists of tasks\<close>

lemma map_filter_mset_update:
  assumes "i < length xs"
  shows "mset (List.map_filter f (xs[i := x])) + mset_set (set_option (f (xs ! i))) =
    mset (List.map_filter f xs) + mset_set (set_option (f x))"
  using assms
proof (induction xs arbitrary: i)
  case (Cons y ys)
  then show ?case
    by (cases i) (auto simp: List.map_filter_simps split: option.split)
qed simp

lemma map_filter_distinct:
  assumes "distinct (List.map_filter f xs)" and "i < length xs" and "j < length xs"
    and "f (xs ! i) = Some c" and "f (xs ! j) = Some c"
  shows "i = j"
  using assms
proof (induction xs arbitrary: i j)
  case (Cons y ys)
  have n: "c \<in> set (List.map_filter f ys)" if "k < length ys" "f (ys ! k) = Some c" for k
    using nth_mem [OF that(1)] that(2) by (force simp: List.map_filter_def)
  then show ?case using Cons
    by (cases i; cases j) (auto simp: List.map_filter_simps split: option.splits)
qed simp

section \<open>What the others see of a step\<close>

definition world_moves :: "('s, 'o, 'w) mount_world \<Rightarrow> ('s, 'o, 'w) mount_world \<Rightarrow> bool" where
  "world_moves mw mw' \<longleftrightarrow>
     grows (mw_cells mw) (mw_cells mw') \<and>
     length (mt_slots (mw_tree mw)) \<le> length (mt_slots (mw_tree mw')) \<and>
     (\<forall>sid sl'. unat sid < length (mt_slots (mw_tree mw)) \<longrightarrow> slot_at (mw_tree mw') sid = Some sl' \<longrightarrow>
        (\<exists>sl. slot_at (mw_tree mw) sid = Some sl \<and>
           (sl_state sl' = sl_state sl \<or>
            (\<exists>lz e. sl_state sl = Pending lz \<and> sl_state sl' = Ready e \<and>
               mw_cells mw' (le_cell lz) = Some (Inr e)))))"

lemma moves_same:
  assumes "mw_tree mw' = mw_tree mw" and "grows (mw_cells mw) (mw_cells mw')"
  shows "world_moves mw mw'"
  using assms by (simp add: world_moves_def)

lemma task_keeps:
  assumes ok: "task_settled mw tp" and mv: "world_moves mw mw'"
    and fill: "\<forall>c. opens_cell (snd tp) = Some c \<longrightarrow> mw_cells mw' c = None"
  shows "task_settled mw' tp"
proof -
  obtain sid p where tp: "tp = (sid, p)" by fastforce
  have g: "grows (mw_cells mw) (mw_cells mw')" using mv by (simp add: world_moves_def)
  have len: "length (mt_slots (mw_tree mw)) \<le> length (mt_slots (mw_tree mw'))"
    using mv by (simp add: world_moves_def)
  have known: "unat sid < length (mt_slots (mw_tree mw)) \<and>
      (\<forall>sl. slot_at (mw_tree mw) sid = Some sl \<longrightarrow> agree (mw_cells mw) k (slot_stand (sl_state sl)))"
    if "knows p = Some k" for k
    using ok that by (auto simp: task_settled_def tp)
  have ready: "sl_state sl' = Ready e"
    if "slot_at (mw_tree mw') sid = Some sl'" "knows p \<noteq> None" "\<forall>sl. slot_at (mw_tree mw) sid = Some sl \<longrightarrow> sl_state sl = Ready e" for e sl'
  proof -
    note h = that
    obtain k where "knows p = Some k" using h(2) by blast
    then obtain sl where sl: "slot_at (mw_tree mw) sid = Some sl" "sl_state sl' = sl_state sl \<or>
        (\<exists>lz e. sl_state sl = Pending lz \<and> sl_state sl' = Ready e \<and> mw_cells mw' (le_cell lz) = Some (Inr e))"
      using mv known h(1) unfolding world_moves_def by blast
    then show ?thesis using h(3) by auto
  qed
  have "settled (mw_cells mw') (mw_tree mw') sid p"
  proof (cases p)
    case (OReturned known a)
    have s: "settled (mw_cells mw) (mw_tree mw) sid p" using ok by (simp add: task_settled_def tp)
    show ?thesis
    proof (cases known)
      case None
      then show ?thesis using s ready OReturned by (cases a) auto
    next
      case (Some lz)
      then show ?thesis using s ready OReturned g by (cases a) (auto dest: growsD)
    qed
  qed (use ok fill g in \<open>auto simp: task_settled_def tp dest: growsD\<close>)
  moreover have "agree (mw_cells mw') k (slot_stand (sl_state sl'))"
    if k: "knows p = Some k" and sl': "slot_at (mw_tree mw') sid = Some sl'" for k sl'
  proof -
    obtain sl where sl: "slot_at (mw_tree mw) sid = Some sl" and c: "sl_state sl' = sl_state sl \<or>
        (\<exists>lz e. sl_state sl = Pending lz \<and> sl_state sl' = Ready e \<and> mw_cells mw' (le_cell lz) = Some (Inr e))"
      using mv known [OF k] sl' unfolding world_moves_def by blast
    have a: "agree (mw_cells mw') k (slot_stand (sl_state sl))"
      using known [OF k] sl agree_grow [OF _ g] by blast
    from c show ?thesis using a by (cases k) auto
  qed
  ultimately show ?thesis using known len by (fastforce simp: task_settled_def tp)
qed

lemma open_update:
  assumes inv: "open_inv mw0 s" and i: "i < length (or_tasks s)" and t: "or_tasks s ! i = (sid, p)"
    and ts: "or_tasks s' = (or_tasks s)[i := (sid, p')]" and mv: "world_moves (or_mount s) (or_mount s')"
    and fill: "\<forall>c. mw_cells (or_mount s') c \<noteq> mw_cells (or_mount s) c \<longrightarrow> opens_cell p = Some c"
    and kn: "\<forall>k. knows p' = Some k \<longrightarrow> knows p = Some k \<or>
      (\<exists>sl. slot_at (mw_tree (or_mount s)) sid = Some sl \<and> k = slot_stand (sl_state sl))"
    and st: "task_settled (or_mount s') (sid, p')"
    and logs: "mw_cells (or_mount s') = mw_cells mw0 ++ map_of (or_opened s')"
      "distinct (map fst (or_opened s'))" "\<forall>c \<in> fst ` set (or_opened s'). mw_cells mw0 c = None"
      "mset (or_started s') = mset (map fst (or_opened s')) + mset (or_lost s') + mset (openings s')"
      "distinct (openings s')"
  shows "open_inv mw0 s'"
proof -
  let ?c = "mw_cells (or_mount s)" and ?c' = "mw_cells (or_mount s')"
  have g: "grows ?c ?c'" using mv by (simp add: world_moves_def)
  have each: "task_settled (or_mount s) tp" if "tp \<in> set (or_tasks s)" for tp
    using inv that by (simp add: open_inv_def)
  have pair: "agree ?c k k'" if "tp \<in> set (or_tasks s)" "tq \<in> set (or_tasks s)" "fst tp = fst tq"
    "knows (snd tp) = Some k" "knows (snd tq) = Some k'" for tp tq k k'
    using inv that unfolding open_inv_def by blast
  have me: "(sid, p) \<in> set (or_tasks s)" using i t nth_mem by metis
  have new: "tp = (sid, p') \<or> (\<exists>j < length (or_tasks s). j \<noteq> i \<and> or_tasks s ! j = tp)"
    if "tp \<in> set (or_tasks s')" for tp
    using that i by (auto simp: ts in_set_conv_nth nth_list_update split: if_splits)
  have settled: "task_settled (or_mount s') tp" if "tp \<in> set (or_tasks s')" for tp
    using new [OF that]
  proof
    assume "\<exists>j < length (or_tasks s). j \<noteq> i \<and> or_tasks s ! j = tp"
    then obtain j where j: "j < length (or_tasks s)" "j \<noteq> i" "or_tasks s ! j = tp" by blast
    have ok: "task_settled (or_mount s) tp" using each j nth_mem by metis
    have "?c' c = None" if "opens_cell (snd tp) = Some c" for c
    proof -
      have "?c c = None" using ok that by (cases "snd tp") (auto simp: task_settled_def)
      moreover have "opens_cell p \<noteq> Some c"
        using map_filter_distinct [of "\<lambda>t. opens_cell (snd t)" "or_tasks s" i j c] inv i j t that
        by (auto simp: open_inv_def openings_def)
      ultimately show ?thesis using fill by metis
    qed
    then show ?thesis using task_keeps [OF ok mv] by blast
  qed (use st in simp)
  have mine: "agree ?c' k k'" if "knows p' = Some k" "tq \<in> set (or_tasks s)" "fst tq = sid"
    "knows (snd tq) = Some k'" for k k' tq
  proof -
    have "agree ?c k k'"
      using kn that(1) pair [OF me that(2) _ _ that(4)] each [OF that(2)] that(3,4) agree_sym
      by (fastforce simp: task_settled_def)
    then show ?thesis using agree_grow g by blast
  qed
  have "agree ?c' k k'" if tp: "tp \<in> set (or_tasks s')" and tq: "tq \<in> set (or_tasks s')" and f: "fst tp = fst tq"
    and k: "knows (snd tp) = Some k" "knows (snd tq) = Some k'" for tp tq k k'
  proof -
    have old: "x = (sid, p') \<or> x \<in> set (or_tasks s)" if "x \<in> set (or_tasks s')" for x
      using new [OF that] nth_mem by blast
    from old [OF tp] old [OF tq] show ?thesis
    proof (elim disjE)
      assume "tp = (sid, p')" "tq = (sid, p')"
      then show ?thesis using k by simp
    next
      assume "tp = (sid, p')" "tq \<in> set (or_tasks s)"
      then show ?thesis using mine [of k tq k'] k f by simp
    next
      assume "tp \<in> set (or_tasks s)" "tq = (sid, p')"
      then show ?thesis using mine [of k' tp k] k f agree_sym by (metis fst_conv snd_conv)
    next
      assume "tp \<in> set (or_tasks s)" "tq \<in> set (or_tasks s)"
      then show ?thesis using pair f k agree_grow g by blast
    qed
  qed
  then show ?thesis using settled logs unfolding open_inv_def by blast
qed

section \<open>The invariant is kept\<close>

lemma open_start_inv: "open_inv mw (open_start sids mw)"
  by (auto simp: open_inv_def open_start_def openings_def List.map_filter_def task_settled_def)

lemma openings_set:
  assumes "i < length (or_tasks s)" and "or_tasks s ! i = (sid, p)" and "or_tasks s' = (or_tasks s)[i := (sid, p')]"
  shows "mset (openings s') + mset_set (set_option (opens_cell p)) =
    mset (openings s) + mset_set (set_option (opens_cell p'))"
  using map_filter_mset_update [OF assms(1), of "\<lambda>t. opens_cell (snd t)" "(sid, p')"] assms(2,3)
  by (simp add: openings_def)

lemma openings_same:
  assumes "i < length (or_tasks s)" and "or_tasks s ! i = (sid, p)" and "or_tasks s' = (or_tasks s)[i := (sid, p')]"
    and "opens_cell p = None" and "opens_cell p' = None"
  shows "mset (openings s') = mset (openings s)"
  using openings_set [OF assms(1-3)] assms(4,5) by simp

lemma openings_drop:
  assumes "i < length (or_tasks s)" and "or_tasks s ! i = (sid, p)" and "or_tasks s' = (or_tasks s)[i := (sid, p')]"
    and "opens_cell p = Some c" and "opens_cell p' = None"
  shows "mset (openings s) = add_mset c (mset (openings s'))"
  using openings_set [OF assms(1-3)] assms(4,5) by simp

lemma distinct_mset_cong: "mset xs = mset ys \<Longrightarrow> distinct xs \<Longrightarrow> distinct ys"
  using mset_eq_imp_distinct_iff by blast

lemma distinct_mset_drop: "mset xs = add_mset c (mset ys) \<Longrightarrow> distinct xs \<Longrightarrow> distinct ys \<and> c \<notin> set ys"
  using mset_eq_imp_distinct_iff [of xs "c # ys"] by simp

text \<open>A step that touches neither the cells nor the opener's world, and starts or ends no opening.\<close>

lemma open_quiet:
  assumes inv: "open_inv mw0 s" and i: "i < length (or_tasks s)" and t: "or_tasks s ! i = (sid, p)"
    and s': "or_tasks s' = (or_tasks s)[i := (sid, p')]" "or_started s' = or_started s"
      "or_opened s' = or_opened s" "or_lost s' = or_lost s" "mw_cells (or_mount s') = mw_cells (or_mount s)"
    and mv: "world_moves (or_mount s) (or_mount s')"
    and op: "opens_cell p = None" "opens_cell p' = None"
    and kn: "\<forall>k. knows p' = Some k \<longrightarrow> knows p = Some k \<or>
      (\<exists>sl. slot_at (mw_tree (or_mount s)) sid = Some sl \<and> k = slot_stand (sl_state sl))"
    and st: "task_settled (or_mount s') (sid, p')"
  shows "open_inv mw0 s'"
proof -
  note m = openings_same [OF i t s'(1) op]
  have d: "distinct (openings s')" using distinct_mset_cong [OF m [symmetric]] inv by (simp add: open_inv_def)
  show ?thesis
    by (rule open_update [OF inv i t s'(1) mv _ kn st])
      (use inv m d s' in \<open>simp_all add: open_inv_def\<close>)
qed

lemma slot_stand_range: "slot_at t sid = Some sl \<Longrightarrow> unat sid < length (mt_slots t)"
  by (auto simp: slot_at_iff)

lemma promote_moves:
  assumes "mw_cells mw (le_cell lz) = Some (Inr e)"
    and "\<forall>sl. slot_at (mw_tree mw) sid = Some sl \<longrightarrow> agree (mw_cells mw) (Inl lz) (slot_stand (sl_state sl))"
    and mw': "mw' = mw\<lparr>mw_tree := promote (SnapshotId sid) e (mw_tree mw)\<rparr>"
  shows "world_moves mw mw'" and "\<forall>sl. slot_at (mw_tree mw') sid = Some sl \<longrightarrow> sl_state sl = Ready e"
    and "length (mt_slots (mw_tree mw')) = length (mt_slots (mw_tree mw))"
proof -
  let ?t = "mw_tree mw"
  have old: "slot_at (promote (SnapshotId sid) e ?t) k = Some sl' \<Longrightarrow>
      \<exists>sl. slot_at ?t k = Some sl \<and> (sl_state sl' = sl_state sl \<or>
        (k = sid \<and> (\<exists>l. sl_state sl = Pending l) \<and> sl_state sl' = Ready e))" for k sl'
    using promote_cases [of sid e ?t]
    by (cases "k = sid") (auto simp: slot_at_iff nth_list_update word_unat_eq_iff split: if_splits)
  have is_lz: "l = lz" if "slot_at ?t sid = Some sl" "sl_state sl = Pending l" for sl l
    using assms(2) that by auto
  show "length (mt_slots (mw_tree mw')) = length (mt_slots ?t)"
    by (auto simp: mw' promote_def split: option.split slot_state.split)
  then show "world_moves mw mw'"
    unfolding world_moves_def using old is_lz assms(1) by (auto simp: mw') metis
  show "\<forall>sl. slot_at (mw_tree mw') sid = Some sl \<longrightarrow> sl_state sl = Ready e"
  proof (intro allI impI)
    fix sl' assume a: "slot_at (mw_tree mw') sid = Some sl'"
    show "sl_state sl' = Ready e"
    proof (cases "slot_at ?t sid")
      case None
      then show ?thesis using a by (simp add: mw' promote_def)
    next
      case (Some sl)
      show ?thesis
      proof (cases "sl_state sl")
        case (Pending l)
        then show ?thesis using a Some slot_stand_range [OF Some]
          by (auto simp: mw' promote_def Some slot_at_def get_at_def)
      next
        case (Ready x)
        then have "promote (SnapshotId sid) e ?t = ?t" by (simp add: promote_def Some)
        then show ?thesis using a Some Ready assms(1,2) by (simp add: mw')
      qed
    qed
  qed
qed

lemma open_task_step_inv:
  assumes inv: "open_inv mw0 s" and st: "open_task_step env i s = Some s'"
  shows "open_inv mw0 s'"
proof -
  obtain sid p where g: "get_at (or_tasks s) i = Some (sid, p)"
    using st by (auto simp: open_task_step_def Let_def split: option.splits)
  then have i: "i < length (or_tasks s)" and t: "or_tasks s ! i = (sid, p)" by (simp_all add: get_at_Some_iff)
  let ?mw = "or_mount s"
  have me: "task_settled ?mw (sid, p)" using inv i t nth_mem unfolding open_inv_def by metis
  have cs: "mw_cells ?mw = mw_cells mw0 ++ map_of (or_opened s)" using inv by (simp add: open_inv_def)
  have after: "task_settled mw (sid, after_init lz c)"
    if "knows p = Some (Inl lz)" "task_settled mw (sid, OInit lz)" "mw_cells mw (le_cell lz) = Some c" for mw lz c
    using that by (cases c) (auto simp: task_settled_def)
  have kn: "knows (after_init lz c) = Some (Inl lz)" "opens_cell (after_init lz c) = None" for lz c
    by (cases c; simp)+
  show ?thesis
  proof (cases p)
    case OLook
    define p' where "p' = (case slot_lookup (mw_tree ?mw) sid of
        SlReady entry \<Rightarrow> OReturned None (OpServed entry) | SlPending lz \<Rightarrow> OInit lz
      | SlMissing \<Rightarrow> OReturned None OpMissing)"
    have s': "s' = set_open i sid p' s" using st g OLook by (simp add: open_task_step_def Let_def p'_def)
    have k: "\<exists>sl. slot_at (mw_tree ?mw) sid = Some sl \<and> k = slot_stand (sl_state sl)" if "knows p' = Some k" for k
      using that by (auto simp: p'_def slot_lookup_def split: option.splits slot_state.splits)
    have "settled (mw_cells ?mw) (mw_tree ?mw) sid p'"
      by (auto simp: p'_def slot_lookup_def split: option.splits slot_state.splits)
    then have "task_settled ?mw (sid, p')" using k slot_stand_range by (fastforce simp: task_settled_def)
    then show ?thesis
      by (intro open_quiet [OF inv i t, of s' p']) (use k in \<open>auto simp: s' set_open_def OLook moves_same p'_def
        slot_lookup_def split: option.splits slot_state.splits\<close>)
  next
    case (OInit lz)
    show ?thesis
    proof (cases "mw_cells ?mw (le_cell lz)")
      case (Some c)
      then have s': "s' = set_open i sid (after_init lz c) s"
        using st g OInit by (simp add: open_task_step_def Let_def)
      show ?thesis
        by (rule open_quiet [OF inv i t, of s' "after_init lz c"])
          (use after [of lz ?mw c] me OInit Some in \<open>simp_all add: s' set_open_def moves_same kn\<close>)
    next
      case None
      then have f: "permit_free s (le_cell lz)"
        and s': "s' = set_open i sid (OOpening lz) (s\<lparr>or_started := le_cell lz # or_started s\<rparr>)"
        using st g OInit by (auto simp: open_task_step_def Let_def split: if_splits)
      have ts: "or_tasks s' = (or_tasks s)[i := (sid, OOpening lz)]" by (simp add: s' set_open_def)
      have m: "mset (openings s') = add_mset (le_cell lz) (mset (openings s))"
        using openings_set [OF i t ts] OInit by simp
      have "le_cell lz \<notin> set (openings s)"
        using f by (auto simp: permit_free_def list_all_iff openings_def List.map_filter_def)
      then have d: "distinct (openings s')"
        using distinct_mset_cong [of "le_cell lz # openings s" "openings s'"] m inv by (simp add: open_inv_def)
      show ?thesis
        by (rule open_update [OF inv i t ts])
          (use inv m d me OInit None in \<open>simp_all add: s' set_open_def moves_same open_inv_def task_settled_def\<close>)
    qed
  next
    case (OOpening lz)
    obtain r w where r: "oe_open env (le_opener lz) (mw_open ?mw) = (r, w)" by fastforce
    have c0: "mw_cells ?mw (le_cell lz) = None" using me OOpening by (simp add: task_settled_def)
    have fill: ?thesis if s': "s' = set_open i sid (after_init lz c) (s\<lparr>or_mount := ?mw\<lparr>mw_open := w,
        mw_cells := (mw_cells ?mw)(le_cell lz \<mapsto> c)\<rparr>, or_opened := (le_cell lz, c) # or_opened s\<rparr>)" for c
    proof -
      have ts: "or_tasks s' = (or_tasks s)[i := (sid, after_init lz c)]" by (simp add: s' set_open_def)
      have m: "mset (openings s) = add_mset (le_cell lz) (mset (openings s'))"
        using openings_drop [OF i t ts _ kn(2)] OOpening by simp
      have d: "distinct (openings s')" using distinct_mset_drop [OF m] inv by (simp add: open_inv_def)
      have gr: "grows (mw_cells ?mw) (mw_cells (or_mount s'))" using c0 by (auto simp: s' set_open_def grows_def)
      have mv: "world_moves ?mw (or_mount s')" by (rule moves_same) (use gr in \<open>simp_all add: s' set_open_def\<close>)
      have n: "le_cell lz \<notin> fst ` set (or_opened s)" "mw_cells mw0 (le_cell lz) = None"
        using c0 by (auto simp: cs map_add_None map_of_eq_None_iff)
      have "task_settled ?mw (sid, OInit lz)" using me OOpening by (simp add: task_settled_def)
      from task_keeps [OF this mv] have "task_settled (or_mount s') (sid, after_init lz c)"
        by (intro after) (simp_all add: OOpening s' set_open_def)
      then show ?thesis
        by (rule open_update [OF inv i t ts mv, rotated 2])
          (use inv m d n OOpening in \<open>simp_all add: s' set_open_def open_inv_def kn\<close>)
    qed
    show ?thesis
    proof (cases r)
      case Panic
      then have s': "s' = set_open i sid OGone (s\<lparr>or_mount := ?mw\<lparr>mw_open := w\<rparr>, or_lost := le_cell lz # or_lost s\<rparr>)"
        using st g OOpening r by (simp add: open_task_step_def Let_def)
      have ts: "or_tasks s' = (or_tasks s)[i := (sid, OGone)]" by (simp add: s' set_open_def)
      have m: "mset (openings s) = add_mset (le_cell lz) (mset (openings s'))"
        using openings_drop [OF i t ts] OOpening by simp
      have d: "distinct (openings s')" using distinct_mset_drop [OF m] inv by (simp add: open_inv_def)
      show ?thesis
        by (rule open_update [OF inv i t ts])
          (use inv m d in \<open>simp_all add: s' set_open_def moves_same open_inv_def task_settled_def\<close>)
    next
      case (Ok store)
      show ?thesis
        by (rule fill [of "Inr \<lparr>se_snapshot = store\<rparr>"])
          (use st g OOpening r Ok in \<open>simp add: open_task_step_def Let_def\<close>)
    next
      case (Err e)
      show ?thesis
        by (rule fill [of "Inl (oe_text env e)"])
          (use st g OOpening r Err in \<open>simp add: open_task_step_def Let_def\<close>)
    qed
  next
    case (OPromote lz e)
    let ?mw' = "?mw\<lparr>mw_tree := promote (SnapshotId sid) e (mw_tree ?mw)\<rparr>"
    have s': "s' = set_open i sid (OReturned (Some lz) (OpServed e)) (s\<lparr>or_mount := ?mw'\<rparr>)"
      using st g OPromote by (simp add: open_task_step_def Let_def)
    have c: "mw_cells ?mw (le_cell lz) = Some (Inr e)" and a: "unat sid < length (mt_slots (mw_tree ?mw))"
      "\<forall>sl. slot_at (mw_tree ?mw) sid = Some sl \<longrightarrow> agree (mw_cells ?mw) (Inl lz) (slot_stand (sl_state sl))"
      using me OPromote by (simp_all add: task_settled_def)
    note pm = promote_moves [OF c a(2) refl]
    have "task_settled ?mw' (sid, OReturned (Some lz) (OpServed e))"
      using pm(2,3) c a(1) by (auto simp: task_settled_def)
    then show ?thesis
      by (intro open_quiet [OF inv i t, of s' "OReturned (Some lz) (OpServed e)"])
        (use pm(1) OPromote in \<open>simp_all add: s' set_open_def\<close>)
  qed (use st g in \<open>simp_all add: open_task_step_def\<close>)
qed

lemma drop_caller_inv:
  assumes inv: "open_inv mw0 s" and st: "drop_caller i w s = Some s'"
  shows "open_inv mw0 s'"
proof -
  obtain sid p where g: "get_at (or_tasks s) i = Some (sid, p)"
    using st by (auto simp: drop_caller_def split: option.splits)
  then have i: "i < length (or_tasks s)" and t: "or_tasks s ! i = (sid, p)" by (simp_all add: get_at_Some_iff)
  show ?thesis
  proof (cases "opens_cell p")
    case None
    then have s': "s' = set_open i sid OGone s" using st g by (auto simp: drop_caller_def split: if_splits)
    show ?thesis
      by (rule open_quiet [OF inv i t, of s' OGone])
        (use None in \<open>simp_all add: s' set_open_def moves_same task_settled_def\<close>)
  next
    case (Some c)
    then have s': "s' = set_open i sid OGone (s\<lparr>or_mount := (or_mount s)\<lparr>mw_open := w\<rparr>, or_lost := c # or_lost s\<rparr>)"
      using st g by (auto simp: drop_caller_def split: if_splits)
    have ts: "or_tasks s' = (or_tasks s)[i := (sid, OGone)]" by (simp add: s' set_open_def)
    have m: "mset (openings s) = add_mset c (mset (openings s'))"
      using openings_drop [OF i t ts] Some by simp
    have d: "distinct (openings s')" using distinct_mset_drop [OF m] inv by (simp add: open_inv_def)
    show ?thesis
      by (rule open_update [OF inv i t ts])
        (use inv m d in \<open>simp_all add: s' set_open_def moves_same open_inv_def task_settled_def\<close>)
  qed
qed

lemma owner_moves:
  assumes "reserve_slot a d g st hint (mw_tree mw) = Some (r, t) \<or> remove sn (mw_tree mw) = Some (q, t)"
  shows "world_moves mw (mw\<lparr>mw_tree := t\<rparr>)"
  using assms
proof
  assume "reserve_slot a d g st hint (mw_tree mw) = Some (r, t)"
  from reserve_slot_slots [OF this] show ?thesis
    by (auto simp: world_moves_def slot_at_iff nth_append)
next
  assume "remove sn (mw_tree mw) = Some (q, t)"
  then have "mt_slots t = mt_slots (mw_tree mw) \<or> mt_slots t = (mt_slots (mw_tree mw))[unat (sid_raw sn) := None]"
    by (auto simp: remove_def children_of_mut_def Let_def split: option.splits)
  then have "slot_at t k = Some sl \<Longrightarrow> slot_at (mw_tree mw) k = Some sl" for k sl
    by (cases "unat (sid_raw sn) = unat k") (auto simp: slot_at_iff)
  moreover have "length (mt_slots t) = length (mt_slots (mw_tree mw))"
    using \<open>mt_slots t = _ \<or> mt_slots t = _\<close> by auto
  ultimately show ?thesis by (auto simp: world_moves_def)
qed

lemma owner_inv:
  assumes inv: "open_inv mw0 s" and mv: "world_moves (or_mount s) ((or_mount s)\<lparr>mw_tree := t\<rparr>)"
  shows "open_inv mw0 (s\<lparr>or_mount := (or_mount s)\<lparr>mw_tree := t\<rparr>\<rparr>)"
proof -
  let ?s = "s\<lparr>or_mount := (or_mount s)\<lparr>mw_tree := t\<rparr>\<rparr>"
  have e: "mw_cells (or_mount ?s) = mw_cells (or_mount s)" "or_tasks ?s = or_tasks s" "or_opened ?s = or_opened s"
    "or_started ?s = or_started s" "or_lost ?s = or_lost s" "openings ?s = openings s"
    by (simp_all add: openings_def)
  have "\<forall>tp \<in> set (or_tasks s). task_settled (or_mount ?s) tp"
  proof
    fix tp assume "tp \<in> set (or_tasks s)"
    then have ok: "task_settled (or_mount s) tp" using inv by (simp add: open_inv_def)
    then have "\<forall>c. opens_cell (snd tp) = Some c \<longrightarrow> mw_cells ((or_mount s)\<lparr>mw_tree := t\<rparr>) c = None"
      by (cases "snd tp") (auto simp: task_settled_def)
    with task_keeps [OF ok mv] show "task_settled (or_mount ?s) tp" by simp
  qed
  then show ?thesis using inv unfolding open_inv_def e by (elim conjE) (intro conjI; assumption)
qed

lemma open_step_inv:
  assumes inv: "open_inv mw0 s" and st: "open_step env ev s = Some s'"
  shows "open_inv mw0 s'"
proof (cases ev)
  case (CallerRuns i)
  then show ?thesis using open_task_step_inv [OF inv] st by simp
next
  case (CallerDropped i w)
  then show ?thesis using drop_caller_inv [OF inv] st by simp
next
  case (OwnerAdds a d g sl hint)
  then obtain r t where "reserve_slot a d g sl hint (mw_tree (or_mount s)) = Some (r, t)"
    "s' = s\<lparr>or_mount := (or_mount s)\<lparr>mw_tree := t\<rparr>\<rparr>"
    using st by (auto simp: owner_writes_def)
  then show ?thesis using owner_inv [OF inv owner_moves] by blast
next
  case (OwnerRemoves sn)
  then obtain q t where "remove sn (mw_tree (or_mount s)) = Some (q, t)"
    "s' = s\<lparr>or_mount := (or_mount s)\<lparr>mw_tree := t\<rparr>\<rparr>"
    using st by (auto simp: owner_writes_def)
  then show ?thesis using owner_inv [OF inv owner_moves] by blast
qed

lemma open_run_inv: "open_inv mw0 s \<Longrightarrow> open_run env evs s = Some s' \<Longrightarrow> open_inv mw0 s'"
  by (induction evs arbitrary: s) (auto split: bind_splits dest: open_step_inv)

section \<open>A caller alone\<close>

text \<open>The steps of a caller that nobody disturbs are \<open>resolve\<close>.\<close>

definition open_answer_of :: "'o lazy_entry \<Rightarrow> (string, 's snapshot_entry) outcome \<Rightarrow> ('s, 'o) open_pc" where
  "open_answer_of lz r =
     (case r of Ok e \<Rightarrow> OReturned (Some lz) (OpServed e) | Err x \<Rightarrow> OReturned (Some lz) (OpFailed x)
      | Panic \<Rightarrow> OGone)"

lemma resolve_is_a_run:
  assumes r: "resolve env lz (SnapshotId sid) mw = (r, mw1)" and l: "slot_lookup (mw_tree mw) sid = SlPending lz"
  shows "\<exists>k s. open_run env (replicate k (CallerRuns 0)) (open_start [sid] mw) = Some s \<and>
    or_mount s = mw1 \<and> or_tasks s = [(sid, open_answer_of lz r)]"
proof -
  note defs = open_start_def open_task_step_def set_open_def get_at_def permit_free_def open_answer_of_def Let_def l
  have run: ?thesis if "\<exists>s. open_run env (replicate k (CallerRuns 0)) (open_start [sid] mw) = Some s \<and>
      or_mount s = mw1 \<and> or_tasks s = [(sid, open_answer_of lz r)]" for k
    using that by blast
  show ?thesis
  proof (cases "mw_cells mw (le_cell lz)")
    case (Some c)
    show ?thesis
    proof (cases c)
      case (Inl x)
      then have "r = Err x" "mw1 = mw" using r Some by (simp_all add: resolve_def)
      then show ?thesis using Some Inl by (intro run [of "Suc (Suc 0)"]) (simp add: defs)
    next
      case (Inr e)
      then have "r = Ok e" "mw1 = mw\<lparr>mw_tree := promote (SnapshotId sid) e (mw_tree mw)\<rparr>"
        using r Some by (simp_all add: resolve_def)
      then show ?thesis using Some Inr by (intro run [of "Suc (Suc (Suc 0))"]) (simp add: defs)
    qed
  next
    case None
    obtain q w where q: "oe_open env (le_opener lz) (mw_open mw) = (q, w)" by fastforce
    show ?thesis
    proof (cases q)
      case (Ok store)
      let ?e = "\<lparr>se_snapshot = store\<rparr>"
      have "r = Ok ?e" "mw1 = mw\<lparr>mw_open := w, mw_cells := (mw_cells mw)(le_cell lz \<mapsto> Inr ?e),
          mw_tree := promote (SnapshotId sid) ?e (mw_tree mw)\<rparr>"
        using r None q Ok by (auto simp: resolve_def Let_def)
      then show ?thesis using None q Ok by (intro run [of "Suc (Suc (Suc (Suc 0)))"]) (simp add: defs)
    next
      case (Err e)
      have "r = Err (oe_text env e)"
        "mw1 = mw\<lparr>mw_open := w, mw_cells := (mw_cells mw)(le_cell lz \<mapsto> Inl (oe_text env e))\<rparr>"
        using r None q Err by (auto simp: resolve_def Let_def)
      then show ?thesis using None q Err by (intro run [of "Suc (Suc (Suc 0))"]) (simp add: defs)
    next
      case Panic
      then have "r = Panic" "mw1 = mw\<lparr>mw_open := w\<rparr>" using r None q by (auto simp: resolve_def Let_def)
      then show ?thesis using None q Panic by (intro run [of "Suc (Suc (Suc 0))"]) (simp add: defs)
    qed
  qed
qed

section \<open>The end of a run\<close>

fun open_rank :: "('s, 'o) open_pc \<Rightarrow> nat" where
  "open_rank OLook = 4"
| "open_rank (OInit lz) = 3"
| "open_rank (OOpening lz) = 2"
| "open_rank (OPromote lz e) = 1"
| "open_rank p = 0"

definition open_work :: "('s, 'o, 'w) open_race \<Rightarrow> nat" where
  "open_work s = sum_list (map (\<lambda>t. open_rank (snd t)) (or_tasks s))"

fun of_caller :: "('s, 'o, 'w) open_event \<Rightarrow> bool" where
  "of_caller (CallerRuns i) = True"
| "of_caller (CallerDropped i w) = True"
| "of_caller ev = False"

lemma sum_list_lower:
  assumes "i < length xs" and "f x < (f (xs ! i) :: nat)"
  shows "sum_list (map f (xs[i := x])) < sum_list (map f xs)"
  using assms
proof (induction xs arbitrary: i)
  case (Cons y ys)
  then show ?case by (cases i) auto
qed simp

lemma rank_after: "open_rank (after_init lz c) \<le> 1"
  by (cases c) simp_all

lemma after_lower:
  "1 < n \<Longrightarrow> \<exists>p'. ts[i := (sid, after_init lz c)] = ts[i := (sid, p')] \<and> open_rank p' < n"
  using rank_after [of lz c] by (intro exI [of _ "after_init lz c"]) auto

lemma open_step_work:
  assumes "open_step env ev s = Some s'"
  shows "open_work s' + (if of_caller ev then 1 else 0) \<le> open_work s \<and> length (or_tasks s') = length (or_tasks s)"
proof -
  have *: "open_work s' + 1 \<le> open_work s \<and> length (or_tasks s') = length (or_tasks s)"
    if g: "get_at (or_tasks s) i = Some (sid, p)" and s': "or_tasks s' = (or_tasks s)[i := (sid, p')]"
      "open_rank p' < open_rank p" for i sid p p'
    using sum_list_lower [of i "or_tasks s" "\<lambda>t. open_rank (snd t)" "(sid, p')"] g s'
    by (simp add: open_work_def get_at_Some_iff)
  show ?thesis
  proof (cases ev)
    case (CallerRuns i)
    then obtain sid p where g: "get_at (or_tasks s) i = Some (sid, p)"
      using assms by (auto simp: open_task_step_def Let_def split: option.splits)
    then have "\<exists>p'. or_tasks s' = (or_tasks s)[i := (sid, p')] \<and> open_rank p' < open_rank p"
      using assms CallerRuns
      by (auto intro!: after_lower simp: open_task_step_def set_open_def Let_def
          split: open_pc.splits option.splits slot_lookup.splits prod.splits outcome.splits if_splits)
    then show ?thesis using * [OF g] CallerRuns by auto
  next
    case (CallerDropped i w)
    then obtain sid p where g: "get_at (or_tasks s) i = Some (sid, p)"
      using assms by (auto simp: drop_caller_def split: option.splits)
    then have "or_tasks s' = (or_tasks s)[i := (sid, OGone)] \<and> open_rank OGone < open_rank p"
      using assms CallerDropped
      by (cases p) (auto simp: drop_caller_def set_open_def split: option.splits if_splits)
    then show ?thesis using * [OF g] CallerDropped by auto
  qed (use assms in \<open>auto simp: owner_writes_def open_work_def\<close>)
qed

lemma open_run_work:
  "open_run env evs s = Some s' \<Longrightarrow>
     open_work s' + length (filter of_caller evs) \<le> open_work s \<and> length (or_tasks s') = length (or_tasks s)"
proof (induction evs arbitrary: s)
  case (Cons ev evs)
  then obtain u where "open_step env ev s = Some u" "open_run env evs u = Some s'"
    by (auto split: bind_splits)
  then show ?case using open_step_work [of env ev s u] Cons.IH [of u] by auto
qed simp

lemma opening_runs:
  assumes "get_at (or_tasks s) i = Some (sid, OOpening lz)"
  shows "open_task_step env i s \<noteq> None"
proof -
  obtain r w where "oe_open env (le_opener lz) (mw_open (or_mount s)) = (r, w)" by fastforce
  then show ?thesis using assms by (cases r) (simp_all add: open_task_step_def Let_def)
qed

lemma open_progress:
  assumes no: "\<And>i. i < length (or_tasks s) \<Longrightarrow> open_task_step env i s = None" and i: "i < length (or_tasks s)"
  shows "open_final (snd (or_tasks s ! i))"
proof -
  have at: "get_at (or_tasks s) j = Some (or_tasks s ! j)" if "j < length (or_tasks s)" for j
    using that by (simp add: get_at_def)
  have "opens_cell (snd (or_tasks s ! j)) = None" if "j < length (or_tasks s)" for j
    using no [OF that] at [OF that] opening_runs [of s j _ _ env]
    by (cases "or_tasks s ! j"; cases "snd (or_tasks s ! j)") auto
  then have "permit_free s c" for c by (simp add: permit_free_def list_all_length)
  then show ?thesis
    using no [OF i] at [OF i] opening_runs [of s i _ _ env]
    by (cases "or_tasks s ! i"; cases "snd (or_tasks s ! i)")
      (auto simp: open_task_step_def Let_def split: option.splits)
qed

text \<open>The answer that goes with what a caller stands for; those who agree give the same answer.\<close>

fun stands_for :: "'s cells \<Rightarrow> ('s, 'o) stand \<Rightarrow> 's open_answer option" where
  "stands_for cells (Inr e) = Some (OpServed e)"
| "stands_for cells (Inl lz) =
     map_option (\<lambda>c. case c of Inl x \<Rightarrow> OpFailed x | Inr e \<Rightarrow> OpServed e) (cells (le_cell lz))"

lemma agree_answer: "agree cells x x' \<Longrightarrow> stands_for cells x = stands_for cells x'"
  by (cases x; cases x') auto

lemma settled_answer:
  assumes "task_settled mw (sid, OReturned k a)" and "knows (OReturned k a :: ('s, 'o) open_pc) = Some x"
  shows "stands_for (mw_cells mw) x = Some a"
  using assms by (cases k; cases a) (auto simp: task_settled_def)

section \<open>Properties of racing openings\<close>

text \<open>
  C17: A lazily mounted snapshot is opened once.  However many requests for it race, however their
  steps interleave with each other and with snapshots being added and removed, and whichever of
  them are dropped or see the opener panic: the cells hold what they held before and what an
  opener put in, no opener fills a cell twice or one that was full, and of the openers of a cell
  at most one runs at a time and none once the cell is full.  Every opener started has filled
  its cell, was lost to a panic or a drop, or is running; so where none is lost, none is started
  twice.  All requests for one id that found something there give the same answer, the snapshot
  or the opener's error, and where a request was served its slot, unless it was removed, is open
  with the snapshot it was served from.
\<close>

theorem racing_opens_once:
  assumes "open_run env evs (open_start sids mw) = Some s"
  shows "mw_cells (or_mount s) = mw_cells mw ++ map_of (or_opened s) \<and>
    (\<forall>c \<in> fst ` set (or_opened s). mw_cells mw c = None) \<and>
    distinct (map fst (or_opened s) @ openings s) \<and>
    mset (or_started s) = mset (map fst (or_opened s)) + mset (or_lost s) + mset (openings s) \<and>
    (\<forall>sid k a k' a'. (sid, OReturned k a) \<in> set (or_tasks s) \<and> (sid, OReturned k' a') \<in> set (or_tasks s) \<and>
       a \<noteq> OpMissing \<and> a' \<noteq> OpMissing \<longrightarrow> a = a') \<and>
    (\<forall>sid k e sl. (sid, OReturned k (OpServed e)) \<in> set (or_tasks s) \<and>
       slot_at (mw_tree (or_mount s)) sid = Some sl \<longrightarrow> sl_state sl = Ready e)"
proof -
  have inv: "open_inv mw s" using open_run_inv [OF open_start_inv assms] .
  let ?c = "mw_cells (or_mount s)"
  have each: "task_settled (or_mount s) tp" if "tp \<in> set (or_tasks s)" for tp
    using inv that unfolding open_inv_def by blast
  have stand: "\<exists>x. knows (OReturned k a :: ('a, 'b) open_pc) = Some x"
    if "(sid, OReturned k a) \<in> set (or_tasks s)" "a \<noteq> OpMissing" for sid k a
    using each [OF that(1)] that(2) by (cases k; cases a) (auto simp: task_settled_def)
  have "a = a'" if i: "(sid, OReturned k a) \<in> set (or_tasks s)" "a \<noteq> OpMissing"
    and j: "(sid, OReturned k' a') \<in> set (or_tasks s)" "a' \<noteq> OpMissing" for sid k a k' a'
  proof -
    obtain x x' where x: "knows (OReturned k a :: ('a, 'b) open_pc) = Some x"
      "knows (OReturned k' a' :: ('a, 'b) open_pc) = Some x'"
      using stand [OF i] stand [OF j] by blast
    have "agree ?c x x'" using inv i(1) j(1) x unfolding open_inv_def by fastforce
    moreover have "stands_for ?c x = Some a" "stands_for ?c x' = Some a'"
      using settled_answer [OF each [OF i(1)] x(1)] settled_answer [OF each [OF j(1)] x(2)] by blast+
    ultimately show ?thesis using agree_answer by fastforce
  qed
  moreover have "sl_state sl = Ready e" if "(sid, OReturned k (OpServed e)) \<in> set (or_tasks s)"
    "slot_at (mw_tree (or_mount s)) sid = Some sl" for sid k e sl
    using each [OF that(1)] that(2) by (cases k) (auto simp: task_settled_def)
  moreover have "c \<notin> fst ` set (or_opened s)" if c: "c \<in> set (openings s)" for c
  proof -
    obtain t where t: "t \<in> set (or_tasks s)" "opens_cell (snd t) = Some c"
      using c by (auto simp: openings_def List.map_filter_def)
    then have "?c c = None" using each [OF t(1)] by (cases "snd t") (auto simp: task_settled_def)
    then show ?thesis using inv by (auto simp: open_inv_def map_add_None map_of_eq_None_iff)
  qed
  then have "distinct (map fst (or_opened s) @ openings s)" using inv by (auto simp: open_inv_def)
  moreover note inv [unfolded open_inv_def]
  ultimately show ?thesis by (intro conjI) (metis | blast)+
qed

text \<open>
  C22: Requests that race to open snapshots never block each other: together they take at most four
  steps each, and as long as one has neither returned nor been dropped, some request can take
  its next step, also after an opener has panicked or its request was dropped.
\<close>

theorem racing_opens_finish:
  assumes "open_run env evs (open_start sids mw) = Some s"
  shows "length (filter of_caller evs) \<le> 4 * length sids \<and>
    ((\<exists>i < length sids. open_step env (CallerRuns i) s \<noteq> None) \<or>
     (length (or_tasks s) = length sids \<and> (\<forall>i < length sids. open_final (snd (or_tasks s ! i)))))"
proof -
  have "open_work (open_start sids mw) = 4 * length sids" "length (or_tasks (open_start sids mw)) = length sids"
    by (simp_all add: open_work_def open_start_def comp_def sum_list_triv)
  with open_run_work [OF assms] have w: "length (filter of_caller evs) \<le> 4 * length sids"
    "length (or_tasks s) = length sids" by simp_all
  then show ?thesis using open_progress [of s env] by auto
qed

section \<open>Four callers and three openings\<close>

text \<open>
  Four callers look before the snapshot is open.  The opener panics for the first, the second is
  dropped while its opener runs, the third opens and the fourth takes what the third opened.
\<close>

definition open_demo_env :: "(unit, unit, nat) opener_env" where
  "open_demo_env = \<lparr>oe_open = (\<lambda>o' w. if w = 0 then (Panic, 1) else (Ok (depot_store_new demo_two no_chunks), w + 1)),
     oe_text = (\<lambda>_. ''no'')\<rparr>"

definition open_demo_lazy :: "unit lazy_entry" where
  "open_demo_lazy = \<lparr>le_opener = (), le_cell = 0\<rparr>"

definition open_demo_mount :: "(unit, unit, nat) mount_world" where
  "open_demo_mount =
     \<lparr>mw_tree = mount_tree_new\<lparr>mt_slots := [None, Some (new_slot 7 8 9 (Pending open_demo_lazy) None)]\<rparr>,
      mw_cells = Map.empty, mw_open = 0, mw_chunks = ()\<rparr>"

definition open_demo_events :: "(unit, unit, nat) open_event list" where
  "open_demo_events = [CallerRuns 0, CallerRuns 1, CallerRuns 2, CallerRuns 3, CallerRuns 0, CallerRuns 0,
     CallerRuns 1, CallerDropped 1 5, CallerRuns 2, CallerRuns 2, CallerRuns 3, CallerRuns 2, CallerRuns 3]"

lemma open_demo_run:
  "\<exists>s. open_run open_demo_env open_demo_events (open_start [1, 1, 1, 1] open_demo_mount) = Some s \<and>
     or_tasks s = [(1, OGone), (1, OGone), (1, OReturned (Some open_demo_lazy) (OpServed demo_entry)),
       (1, OReturned (Some open_demo_lazy) (OpServed demo_entry))] \<and>
     or_started s = [0, 0, 0] \<and> or_lost s = [0, 0] \<and> or_opened s = [(0, Inr demo_entry)]"
  by (simp add: open_demo_events_def open_start_def open_task_step_def drop_caller_def get_at_def set_open_def
      slot_lookup_def slot_at_def open_demo_mount_def open_demo_env_def open_demo_lazy_def new_slot_def permit_free_def
      promote_def demo_entry_def Let_def)

theorem racing_opens_once_witness:
  "\<exists>s. open_run open_demo_env open_demo_events (open_start [1, 1, 1, 1] open_demo_mount) = Some s \<and>
     or_started s = [0, 0, 0] \<and> or_lost s = [0, 0] \<and> mw_cells (or_mount s) = [0 \<mapsto> Inr demo_entry] \<and>
     or_tasks s ! 3 = (1, OReturned (Some open_demo_lazy) (OpServed demo_entry))"
proof -
  obtain s where s: "open_run open_demo_env open_demo_events (open_start [1, 1, 1, 1] open_demo_mount) = Some s"
    "or_tasks s ! 3 = (1, OReturned (Some open_demo_lazy) (OpServed demo_entry))"
    "or_started s = [0, 0, 0]" "or_lost s = [0, 0]" "or_opened s = [(0, Inr demo_entry)]"
    using open_demo_run by auto
  have "mw_cells (or_mount s) = mw_cells open_demo_mount ++ map_of (or_opened s)"
    using racing_opens_once [OF s(1)] by blast
  then have "mw_cells (or_mount s) = [0 \<mapsto> Inr demo_entry]" by (simp add: s(5) open_demo_mount_def)
  with s show ?thesis by blast
qed

theorem racing_opens_finish_witness:
  "\<exists>s. open_run open_demo_env open_demo_events (open_start [1, 1, 1, 1] open_demo_mount) = Some s \<and>
     length (filter of_caller open_demo_events) \<le> 4 * length [1 :: sid, 1, 1, 1]"
  using open_demo_run racing_opens_finish [where sids = "[1, 1, 1, 1]"] by blast

end
