(* ===== verification/Mount_Paths.thy ===== *)
theory Mount_Paths
  imports Mount_Read
begin

text \<open>
  A whole access over NFS: the client walks from the root to a file, one lookup for each
  component, and reads.  \<open>nfs_walk\<close> is what the kernel's client does; the rest is nfs.rs, view.rs,
  tree.rs, fs.rs and the chunk cache together.
\<close>

section \<open>Walking a path\<close>

fun nfs_walk ::
  "('s, 'o, 'w) opener_env \<Rightarrow> depot_api \<Rightarrow> (string \<Rightarrow> bool) \<Rightarrow> ino \<Rightarrow> string list \<Rightarrow>
     ('s, 'o, 'w, ino) nfs_op" where
  "nfs_walk env api valid i [] mw = (Ok i, mw)"
| "nfs_walk env api valid i (n # ns) mw =
     (case nfs_lookup env api valid i n mw of
        (Ok c, mw') \<Rightarrow> nfs_walk env api valid c ns mw'
      | (Err e, mw') \<Rightarrow> (Err e, mw')
      | (Panic, mw') \<Rightarrow> (Panic, mw'))"

lemma nfs_walk_append:
  "nfs_walk env api valid i (ns @ ms) mw =
     (case nfs_walk env api valid i ns mw of
        (Ok c, mw') \<Rightarrow> nfs_walk env api valid c ms mw'
      | (Err e, mw') \<Rightarrow> (Err e, mw')
      | (Panic, mw') \<Rightarrow> (Panic, mw'))"
  by (induction ns arbitrary: i mw) (auto split: outcome.splits prod.splits)

section \<open>Down to a snapshot\<close>

lemma synthetic_lookup:
  assumes wf: "tree_wf rs (mw_tree mw)" and k: "k < length rs" and u: "valid n"
    and c: "child_of rs (mt_slots (mw_tree mw)) (rs ! k) n c"
  shows "nfs_lookup env api valid (word_of_nat k) n mw = (Ok c, mw)"
proof -
  have kl: "k < 2 ^ 48" "k < length (mt_synthetic (mw_tree mw))" using wf k by (auto simp: tree_wf_def)
  have "map_of (sd_children (mt_synthetic (mw_tree mw) ! k)) n = Some c"
    using children_at(2) [OF wf k] c by simp
  then have "map_option n_ino (synthetic_child (mw_tree mw) (word_of_nat k) n) = Some c"
    using kl by (simp add: synthetic_child_def synthetic_def unpack_synthetic SYNTHETIC_def unat_nat48
        get_at_def node_below_synthetic_def dir_node_def Let_def)
  then show ?thesis
    using u kl by (auto simp: nfs_lookup_def caught_def nfs_lookup_inner_def unpack_synthetic SYNTHETIC_def
        )
qed

lemma walk_to_snapshot:
  assumes "tree_ok (mw_tree mw)" and i: "unat s \<in> mounted (mw_tree mw) a d g"
    and u: "valid (to_dec a)" "valid (to_dec d)" "valid (to_dec g)"
  shows "nfs_walk env api valid nfs_root_dir [to_dec a, to_dec d, to_dec g] mw = (Ok (pack s 0), mw)"
proof -
  obtain rs where wf: "tree_wf rs (mw_tree mw)" using assms(1) by (auto simp: tree_ok_def)
  obtain k where k: "k < length rs" "rs ! k = DepotDir a d" using depot_dir_of [OF wf i] .
  obtain j where j: "j < length rs" "rs ! j = AppDir a"
    using role_above_at [OF wf k(1), unfolded k(2)] k(1) order_less_trans by auto
  have r: "1 < length rs" "rs ! 1 = RootDir" using wf by (auto simp: tree_wf_def)
  have root: "nfs_root_dir = word_of_nat 1" by (simp add: nfs_root_dir_def ROOT_def)
  have "nfs_lookup env api valid (word_of_nat 1) (to_dec a) mw = (Ok (word_of_nat j), mw)"
    using j r by (intro synthetic_lookup [where valid = valid, OF wf r(1) u(1)]) auto
  moreover have "nfs_lookup env api valid (word_of_nat j) (to_dec d) mw = (Ok (word_of_nat k), mw)"
    using j k by (intro synthetic_lookup [where valid = valid, OF wf j(1) u(2)]) auto
  moreover have "nfs_lookup env api valid (word_of_nat k) (to_dec g) mw = (Ok (pack s 0), mw)"
    using k i by (intro synthetic_lookup [where valid = valid, OF wf k(1) u(3)]) (auto simp: mounted_def)
  ultimately show ?thesis by (simp add: root)
qed

section \<open>Inside a snapshot\<close>

text \<open>A manifest that lists every directory its entries are in.\<close>

definition dirs_listed :: "depot_file list \<Rightarrow> bool" where
  "dirs_listed fs \<longleftrightarrow>
     list_all (\<lambda>f. parent_key (f_path f) = [] \<or> parent_key (f_path f) \<in> set (map f_path fs)) fs"

lemma split_child_path:
  assumes "plain_name n"
  shows "split_on (CHR ''/'') (child_path d n) = (if d = [] then [n] else split_on (CHR ''/'') d @ [n])"
  using assms by (auto simp: child_path_def plain_name_def split_on_append split_on_no_sep)

text \<open>Asking for a snapshot that is there leaves it open in the tree.\<close>

lemma slot_lookup_promote:
  assumes "slot_lookup t s = SlPending lz"
  shows "slot_lookup (promote (SnapshotId s) e t) s = SlReady e"
  using assms
  by (auto simp: slot_lookup_def promote_def slot_at_def get_at_def split: option.splits slot_state.splits if_splits)

lemma snapshot_promoted:
  assumes "nfs_snapshot_of env s mw = (Ok e, mw1)"
  shows "mw_tree mw1 = promote (SnapshotId s) e (mw_tree mw) \<or>
    slot_lookup (mw_tree mw) s = SlReady e \<and> mw1 = mw"
proof (cases "slot_lookup (mw_tree mw) s")
  case (SlPending lz)
  obtain q mw2 where r: "resolve env lz (SnapshotId s) mw = (q, mw2)" by fastforce
  then have "q = Ok e" "mw2 = mw1" using assms SlPending by (cases q; simp add: nfs_snapshot_of_def)+
  then show ?thesis
    using r unfolding resolve_def Let_def
    by (auto split: option.splits prod.splits outcome.splits sum.splits)
qed (use assms in \<open>auto simp: nfs_snapshot_of_def\<close>)

lemma snapshot_stays_open:
  assumes "nfs_snapshot_of env s mw = (Ok e, mw1)"
  shows "slot_lookup (mw_tree mw1) s = SlReady e"
proof (cases "slot_lookup (mw_tree mw) s")
  case (SlPending lz)
  then show ?thesis using snapshot_promoted [OF assms] slot_lookup_promote [OF SlPending] by auto
qed (use assms in \<open>auto simp: nfs_snapshot_of_def\<close>)

definition node_of_path :: "manifest \<Rightarrow> sid \<Rightarrow> string \<Rightarrow> ino option" where
  "node_of_path m s p =
     (if p = [] then Some (pack s 0)
      else map_option (\<lambda>k. pack s (word_of_nat (Suc k))) (fst (build_index (m_files m)) p))"

lemma node_path:
  assumes wf: "wf_files (m_files m)" and len: "length (m_files m) + 1 < 2 ^ 48"
    and e: "se_snapshot entry = depot_store_new m ch" and i: "node_of_path m s p = Some i"
  shows "\<exists>idx. unpack i = (s, idx) \<and> path_within_snapshot entry idx = Some p"
proof (cases "p = []")
  case False
  then obtain k where k: "k < length (m_files m)" "f_path (m_files m ! k) = p" "i = pack s (word_of_nat (Suc k))"
    using i wf by (auto simp: node_of_path_def wf_files_def by_path_distinct)
  have "Suc k < 2 ^ 48" using k(1) len by simp
  note u = unpack_file [OF this] unat_nat48 [OF this]
  have "(word_of_nat (Suc k) :: u64) \<noteq> 0" using u(2) by (metis nat.distinct(1) unat_0)
  then have "path_within_snapshot entry (word_of_nat (Suc k)) = Some p"
    using k by (simp add: path_within_snapshot_def checked_sub_def u(2) get_at_def e del: of_nat_Suc)
  then show ?thesis using u(1) k(3) by blast
qed (use i in \<open>auto simp: node_of_path_def path_within_snapshot_def\<close>)

lemma inner_lookup:
  assumes wf: "wf_files (m_files m)" and len: "length (m_files m) + 1 < 2 ^ 48"
    and e: "se_snapshot entry = depot_store_new m ch" and s: "s \<noteq> SYNTHETIC"
    and sn: "nfs_snapshot_of env s mw = (Ok entry, mw1)" and u: "valid n" and pn: "plain_name n"
    and d: "node_of_path m s d = Some i"
    and k: "k < length (m_files m)" "f_path (m_files m ! k) = child_path d n"
  shows "nfs_lookup env api valid i n mw = (Ok (pack s (word_of_nat (Suc k))), mw1)"
proof -
  obtain idx where p: "unpack i = (s, idx)" "path_within_snapshot entry idx = Some d"
    using node_path [OF wf len e d] by blast
  have "wf_path (f_path (m_files m ! k))" using wf k(1) by (simp add: wf_files_def list_all_length)
  then have "strip_leading_slash (child_path d n) = child_path d n"
    using wf_path_no_lead(1) k(2) by simp
  then have "index_of (se_snapshot entry) (join d n) = Some k"
    using k wf by (simp add: index_of_def e wf_files_def by_path_distinct join_child_path)
  moreover have "snapshot_node api entry (pack s (word_of_nat (Suc k))) = Some (file_node api entry s k)"
    using k(1) len by (intro snapshot_node_at) (auto simp: e)
  ultimately have "map_option n_ino (snapshot_child api entry i n) = Some (pack s (word_of_nat (Suc k)))"
    by (simp add: snapshot_child_def p file_node_def Let_def del: of_nat_Suc)
  then show ?thesis
    using u s by (auto simp: nfs_lookup_def caught_def nfs_lookup_inner_def p(1) sn)
qed

lemma ready_snapshot:
  "slot_lookup (mw_tree mw) s = SlReady e \<Longrightarrow> nfs_snapshot_of env s mw = (Ok e, mw)"
  by (simp add: nfs_snapshot_of_def)

lemma walk_in_snapshot:
  assumes wf: "wf_files (m_files m)" and len: "length (m_files m) + 1 < 2 ^ 48"
    and dl: "dirs_listed (m_files m)"
    and e: "se_snapshot entry = depot_store_new m ch" and s: "s \<noteq> SYNTHETIC"
    and sn: "nfs_snapshot_of env s mw = (Ok entry, mw1)"
  shows "k < length (m_files m) \<Longrightarrow> f_path (m_files m ! k) = p \<Longrightarrow>
    list_all valid (split_on (CHR ''/'') p) \<Longrightarrow>
    nfs_walk env api valid (pack s 0) (split_on (CHR ''/'') p) mw =
      (Ok (pack s (word_of_nat (Suc k))), mw1)"
proof (induction "length p" arbitrary: p k rule: less_induct)
  case less
  have "wf_path p" using wf less.prems(1,2) by (auto simp: wf_files_def list_all_length)
  then obtain n where n: "plain_name n" "p = child_path (parent_key p) n" by (rule wf_path_cases)
  let ?d = "parent_key p"
  note sp = split_child_path [OF n(1), of ?d, folded n(2)]
  show ?case
  proof (cases "?d = []")
    case True
    then have "nfs_lookup env api valid (pack s 0) n mw = (Ok (pack s (word_of_nat (Suc k))), mw1)"
      using less.prems sp n
      by (intro inner_lookup [where valid = valid and d = "[]", OF wf len e s sn _ n(1)]) (auto simp: node_of_path_def)
    then show ?thesis using sp True by (simp del: of_nat_Suc)
  next
    case False
    have mem: "m_files m ! k \<in> set (m_files m)" using less.prems(1) by simp
    then have "?d \<in> f_path ` set (m_files m)"
      using dl False less.prems(2) by (auto simp: dirs_listed_def list_all_iff)
    then obtain q where q: "q < length (m_files m)" "f_path (m_files m ! q) = ?d"
      by (auto simp: in_set_conv_nth)
    have "length ?d < length p" using n(1) False by (subst (2) n(2)) (simp add: child_path_def)
    moreover have "list_all valid (split_on (CHR ''/'') ?d)" "valid n"
      using less.prems(3) sp False by auto
    ultimately have ih: "nfs_walk env api valid (pack s 0) (split_on (CHR ''/'') ?d) mw =
        (Ok (pack s (word_of_nat (Suc q))), mw1)"
      using less.hyps [of ?d q] q by blast
    have "node_of_path m s ?d = Some (pack s (word_of_nat (Suc q)))"
      using False q by_path_distinct [of "m_files m" ?d q] wf
      by (simp add: node_of_path_def wf_files_def)
    moreover have "nfs_snapshot_of env s mw1 = (Ok entry, mw1)"
      using snapshot_stays_open [OF sn] by (rule ready_snapshot)
    ultimately have "nfs_lookup env api valid (pack s (word_of_nat (Suc q))) n mw1 =
        (Ok (pack s (word_of_nat (Suc k))), mw1)"
      using less.prems(1,2) n \<open>valid n\<close> by (intro inner_lookup [where valid = valid, OF wf len e s _ _ n(1)]) auto
    then show ?thesis using ih sp False by (simp add: nfs_walk_append del: of_nat_Suc)
  qed
qed


section \<open>Reads that succeed\<close>

lemma nfs_read_returns:
  assumes "serves mw s m (fs_cache_store cenv dir inner)" and "k < length (m_files m)"
    and "f = m_files m ! k" and "file_ok plain api f" and "f_size f < 2 ^ 63"
    and "cache_calm cenv dir inner iinv plain (c_sha ` set (api_chunks api f)) (mw_chunks mw)"
  shows "is_ok (fst (nfs_read env api (pack s (word_of_nat (Suc k))) offset count mw))"
proof -
  have wf: "wf_files (m_files m)" and len: "length (m_files m) + 1 < 2 ^ 48"
    and s: "s \<noteq> SYNTHETIC" and sl: "slot_lookup (mw_tree mw) s =
      SlReady \<lparr>se_snapshot = depot_store_new m (fs_cache_store cenv dir inner)\<rparr>"
    using assms(1) by (auto simp: serves_def)
  note fid = file_id [OF assms(2) len]
  have f: "f \<in> set (m_files m)" and g: "get_at (m_files m) k = Some f"
    using assms(2,3) by (simp_all add: get_at_def)
  obtain i where i: "fst (build_index (m_files m)) (strip_leading_slash (f_path f)) = Some i"
    "f = m_files m ! i" using file_index [OF wf f] .
  have get: "cs_get (fs_cache_store cenv dir inner) = fs_cache_get cenv dir inner"
    by (simp add: fs_cache_store_def)
  let ?len = "min (ucast count) (f_size f - offset)"
  have size: "unat (f_size f) < 2 ^ 63" using assms(5) by (simp add: word_less_nat_alt)
  show ?thesis
  proof (cases "offset \<ge> f_size f")
    case True
    then show ?thesis
      using s sl fid g by (simp add: nfs_read_def caught_def nfs_read_inner_def nfs_snapshot_of_def
          Let_def del: of_nat_Suc)
  next
    case False
    have "unat ?len = min (unat count) (unat (f_size f) - unat offset)"
      using False by (simp add: unat_min_ucast unat_minus_le)
    then have nw: "unat offset + unat ?len < 2 ^ 64" using size False by (simp add: word_le_nat_alt)
    have le: "offset \<le> f_size f" using False by simp
    have fits: "length ([] :: bytes) + unat (f_size f) < 2 ^ 63" using size by simp
    have "fst (read_into api (depot_store_new m (fs_cache_store cenv dir inner)) (f_path f) offset ?len []
        (mw_chunks mw)) = Ok ()"
      using assms(4) by (intro cached_full.read_into_returns [OF i get _ _ _ _ nw le fits assms(6)])
        (auto simp: file_ok_def)
    then obtain buf s' where "read_into api (depot_store_new m (fs_cache_store cenv dir inner)) (f_path f)
        offset ?len [] (mw_chunks mw) = (Ok (), buf, s')" by (metis fst_conv prod_cases3)
    then show ?thesis
      using s sl fid g False by (simp add: nfs_read_def caught_def nfs_read_inner_def nfs_snapshot_of_def
          Let_def del: of_nat_Suc)
  qed
qed

section \<open>From a path to the bytes\<close>

text \<open>
  C9: From a path to the bytes.  Take a mounted snapshot, open or not, whose manifest lists the
  directories of its files.  Walking \<open>/app/depot/gid/path\<close> from the root of the NFS mount, one
  lookup for each component, opens the snapshot if needed and leads to a node whose reads give
  the bytes of the file at that path: from the offset, at most \<open>count\<close>, with the end-of-file flag
  set exactly when they reach the end.  A failure is an I/O error; on a disk that works and with
  a network that has the chunks there is none.
\<close>

theorem mounted_path_reads_file:
  assumes "tree_ok (mw_tree mw)" and "find_slot a d g (mw_tree mw) = Some (Some s)"
    and "nfs_snapshot_of env s mw =
      (Ok \<lparr>se_snapshot = depot_store_new m (fs_cache_store cenv dir inner)\<rparr>, mw1)"
    and "wf_files (m_files m)" and "length (m_files m) + 1 < 2 ^ 48" and "dirs_listed (m_files m)"
    and "k < length (m_files m)" and "f = m_files m ! k" and "file_ok plain api f" and "f_size f < 2 ^ 63"
    and "names = [to_dec a, to_dec d, to_dec g] @ split_on (CHR ''/'') (f_path f)"
    and "list_all valid names"
    and "cache_ready cenv dir inner iinv plain (mw_chunks mw1)"
  shows "\<exists>i. nfs_walk env api valid nfs_root_dir names mw = (Ok i, mw1) \<and>
    (let content = file_content plain (api_chunks api f);
         got = take (unat count) (drop (unat offset) content);
         r = fst (nfs_read env api i offset count mw1)
     in (r = Err NFS3ERR_IO \<or> r = Ok (got, length content \<le> unat offset + length got)) \<and>
        (cache_calm cenv dir inner iinv plain (c_sha ` set (api_chunks api f)) (mw_chunks mw1) \<longrightarrow>
           r \<noteq> Err NFS3ERR_IO))"
proof -
  obtain rs where wf: "tree_wf rs (mw_tree mw)" using assms(1) by (auto simp: tree_ok_def)
  have "mount_map (mw_tree mw) (a, d, g) = Some s" using assms(2) by (simp add: mount_map_def)
  then have m: "unat s \<in> mounted (mw_tree mw) a d g" using mount_map_iff [OF wf] by simp
  then have s: "s \<noteq> SYNTHETIC" using wf by (auto simp: mounted_def tree_wf_def SYNTHETIC_def)
  let ?entry = "\<lparr>se_snapshot = depot_store_new m (fs_cache_store cenv dir inner)\<rparr>"
  have "nfs_walk env api valid nfs_root_dir [to_dec a, to_dec d, to_dec g] mw = (Ok (pack s 0), mw)"
    using assms(11,12) by (intro walk_to_snapshot [OF assms(1) m]) auto
  moreover have "nfs_walk env api valid (pack s 0) (split_on (CHR ''/'') (f_path f)) mw =
      (Ok (pack s (word_of_nat (Suc k))), mw1)"
    using assms(7,8,11,12)
    by (intro walk_in_snapshot [OF assms(4,5,6) _ s assms(3)]) auto
  ultimately have w: "nfs_walk env api valid nfs_root_dir names mw = (Ok (pack s (word_of_nat (Suc k))), mw1)"
    by (simp only: assms(11) nfs_walk_append prod.case outcome.case)
  have sv: "serves mw1 s m (fs_cache_store cenv dir inner)"
    using s snapshot_stays_open [OF assms(3)] assms(4,5) by (simp add: serves_def)
  obtain r mw2 where r: "nfs_read env api (pack s (word_of_nat (Suc k))) offset count mw1 = (r, mw2)"
    by fastforce
  from nfs_read_exact [OF sv assms(7,8,9,13,10) r] nfs_read_returns [OF sv assms(7-10), of iinv env offset count]
  show ?thesis using w r by (auto simp: Let_def is_ok_iff)
qed

section \<open>A snapshot opened on the way\<close>

definition demo_unopened :: "((recency, nat) cache_world, unit) mount_tree" where
  "demo_unopened = snd (the (add_lazy 7 8 9 () 0 None mount_tree_new))"

definition demo_opener :: "((recency, nat) cache_world, unit, nat) opener_env" where
  "demo_opener =
     \<lparr>oe_open = (\<lambda>_ n. (Ok (depot_store_new demo_manifest
        (fs_cache_store std_env demo_cache_dir (mem_store demo_chunks))), Suc n)),
      oe_text = (\<lambda>_. [])\<rparr>"

definition demo_lazy_mount :: "((recency, nat) cache_world, unit, nat) mount_world" where
  "demo_lazy_mount = \<lparr>mw_tree = demo_unopened, mw_cells = Map.empty, mw_open = 0,
     mw_chunks = cache_start std_env calm_fs 0\<rparr>"

lemma demo_unopened:
  "tree_ok demo_unopened"
  "mt_slots demo_unopened = [None, Some (new_slot 7 8 9 (Pending \<lparr>le_opener = (), le_cell = 0\<rparr>) None)]"
  "find_slot 7 8 9 demo_unopened = Some (Some 1)"
proof -
  let ?st = "Pending \<lparr>le_opener = (), le_cell = 0\<rparr> :: ((recency, nat) cache_world, unit) slot_state"
  let ?t = "mount_tree_new :: ((recency, nat) cache_world, unit) mount_tree"
  have "mounted ?t 7 8 9 = {}" by (auto simp: mounted_def mount_tree_new_def)
  moreover have "length (mt_slots ?t) = 1" "mt_slots ?t = [None]" by (simp_all add: mount_tree_new_def)
  ultimately obtain rs' t' where t': "reserve_slot 7 8 9 ?st None ?t = Some (Ok (SnapshotId 1), t')"
    "tree_wf rs' t'" "mt_slots t' = [None, Some (new_slot 7 8 9 ?st None)]"
    using reserve_slot_spec [OF tree_wf_new, of 7 8 9 ?st None] by auto
  then have d: "demo_unopened = t'" by (simp add: demo_unopened_def add_lazy_def)
  show "tree_ok demo_unopened" using t'(2) by (auto simp: d tree_ok_def)
  show "mt_slots demo_unopened = [None, Some (new_slot 7 8 9 ?st None)]" using t'(3) d by simp
  have "unat (1 :: sid) \<in> mounted t' 7 8 9" by (simp add: mounted_def t'(3) new_slot_def)
  then have "mount_map t' (7, 8, 9) = Some 1" using mount_map_iff [OF t'(2)] by blast
  then show "find_slot 7 8 9 demo_unopened = Some (Some 1)"
    by (simp add: d mount_map_def split: option.splits)
qed

theorem mounted_path_reads_file_witness:
  "\<exists>i mw1. nfs_walk demo_opener std_depot_api (\<lambda>_. True) nfs_root_dir
        [to_dec (7 :: u32), to_dec (8 :: u32), to_dec (9 :: u64), ''d'', ''f''] demo_lazy_mount = (Ok i, mw1) \<and>
     mw_open mw1 = 1 \<and>
     fst (nfs_read demo_opener std_depot_api i 5 100 mw1) = Ok ([6, 7], True)"
proof -
  let ?e = "\<lparr>se_snapshot = depot_store_new demo_manifest
    (fs_cache_store std_env demo_cache_dir (mem_store demo_chunks))\<rparr>"
  have sl: "slot_lookup demo_unopened 1 = SlPending \<lparr>le_opener = (), le_cell = 0\<rparr>"
    by (simp add: slot_lookup_def slot_at_def get_at_def demo_unopened(2) new_slot_def)
  define mw1 where "mw1 = snd (nfs_snapshot_of demo_opener 1 demo_lazy_mount)"
  have op: "nfs_snapshot_of demo_opener 1 demo_lazy_mount = (Ok ?e, mw1)" "mw_open mw1 = 1"
    "mw_chunks mw1 = cache_start std_env calm_fs 0"
    by (simp_all add: mw1_def nfs_snapshot_of_def demo_lazy_mount_def sl resolve_def demo_opener_def Let_def)
  have ok: "tree_ok (mw_tree demo_lazy_mount)"
    and fs: "find_slot 7 8 9 (mw_tree demo_lazy_mount) = Some (Some 1)"
    using demo_unopened by (simp_all add: demo_lazy_mount_def)
  have len: "length (m_files demo_manifest) + 1 < 2 ^ 48" by (simp add: demo_manifest_def)
  have dl: "dirs_listed (m_files demo_manifest)" by code_simp
  have sp: "[to_dec (7 :: u32), to_dec (8 :: u32), to_dec (9 :: u64), ''d'', ''f''] =
      [to_dec (7 :: u32), to_dec (8 :: u32), to_dec (9 :: u64)] @ split_on (CHR ''/'') (f_path demo_file)"
    by (simp add: demo_file_def split_on.simps)
  have rd: "cache_ready std_env demo_cache_dir (mem_store demo_chunks) (\<lambda>_. True) demo_plain (mw_chunks mw1)"
    and calm: "cache_calm std_env demo_cache_dir (mem_store demo_chunks) (\<lambda>_. True) demo_plain
      (c_sha ` set (api_chunks std_depot_api demo_file)) (mw_chunks mw1)"
    using demo_calm op(3) by (simp_all add: cache_calm_def)
  from mounted_path_reads_file [where valid = "\<lambda>_. True" and offset = 5 and count = 100, OF ok fs op(1) demo_files(1) len dl demo_index(1,2) demo_file_ok
      demo_index(3) sp _ rd] calm
  obtain i where "nfs_walk demo_opener std_depot_api (\<lambda>_. True) nfs_root_dir
        [to_dec (7 :: u32), to_dec (8 :: u32), to_dec (9 :: u64), ''d'', ''f''] demo_lazy_mount = (Ok i, mw1)"
    "fst (nfs_read demo_opener std_depot_api i 5 100 mw1) = Ok ([6, 7], True)"
    by (auto simp: Let_def simp del: nfs_walk.simps)
  with op(2) show ?thesis by blast
qed

end
