(* ===== verification/Node_Types.thy ===== *)
theory Node_Types
  imports Mount_Paths
begin

text \<open>
  Types for node ids.  An id is opaque to the kernel, which keeps it for as long as it likes; the
  type of an id, in a tree, is the kind of node it names there.  Every id that is handed out has
  a type, and the steps of the tree preserve the types of the ids whose snapshot stays mounted.
\<close>

section \<open>The type of an id\<close>

definition node_type :: "depot_api \<Rightarrow> ('s, 'o) mount_tree \<Rightarrow> ino \<Rightarrow> node_kind option" where
  "node_type api t i =
     (case unpack i of (s, idx) \<Rightarrow>
        if s = SYNTHETIC then (if unat idx < length (mt_synthetic t) then Some NDir else None)
        else if idx = 0 then (if slot_at t s = None then None else Some NDir)
        else
          (case slot_lookup t s of
             SlReady e \<Rightarrow> map_option n_kind (snapshot_node api e i)
           | _ \<Rightarrow> None))"

fun ftype_of :: "node_kind \<Rightarrow> ftype3" where
  "ftype_of NDir = NF3DIR"
| "ftype_of (NFile x) = NF3REG"
| "ftype_of (NSymlink l) = NF3LNK"

lemma fa_ftype_attr [simp]: "fa_ftype (nfs_attr_of nd) = ftype_of (n_kind nd)"
  by (simp add: nfs_attr_of_def split: node_kind.split)

lemma fa_fileid_attr [simp]: "fa_fileid (nfs_attr_of nd) = n_ino nd"
  by (simp add: nfs_attr_of_def split: node_kind.split)

text \<open>The id is alive as long as the snapshot it belongs to is mounted.\<close>

definition alive :: "('s, 'o) mount_tree \<Rightarrow> ino \<Rightarrow> bool" where
  "alive t i \<longleftrightarrow> fst (unpack i) = SYNTHETIC \<or> slot_at t (fst (unpack i)) \<noteq> None"

lemma typed_alive: "node_type api t i = Some k \<Longrightarrow> alive t i"
  by (auto simp: node_type_def alive_def slot_lookup_def split: prod.splits if_splits option.splits)

section \<open>Progress: a typed id is served\<close>

lemma snapshot_node_ino: "snapshot_node api e i = Some nd \<Longrightarrow> n_ino nd = i"
  by (auto simp: snapshot_node_def dir_node_def Let_def split: if_splits option.splits)

lemma typed_served:
  assumes "node_type api (mw_tree mw) i = Some k"
  shows "\<exists>a. nfs_getattr env api i mw = (Ok a, mw) \<and> fa_ftype a = ftype_of k \<and> fa_fileid a = i"
proof -
  obtain s idx where u: "unpack i = (s, idx)" by fastforce
  consider (syn) "s = SYNTHETIC" | (root) "s \<noteq> SYNTHETIC" "idx = 0" | (inner) "s \<noteq> SYNTHETIC" "idx \<noteq> 0" by blast
  then show ?thesis
  proof cases
    case syn
    then show ?thesis
      using assms by (auto simp: nfs_getattr_def caught_def nfs_node_def u node_type_def synthetic_node_def
          synthetic_def dir_node_def get_at_def split: if_splits)
  next
    case root
    then show ?thesis
      using assms by (auto simp: nfs_getattr_def caught_def nfs_node_def u node_type_def split: if_splits)
  next
    case inner
    then obtain e nd where e: "slot_lookup (mw_tree mw) s = SlReady e" "snapshot_node api e i = Some nd" "k = n_kind nd"
      using assms by (auto simp: node_type_def u split: slot_lookup.splits)
    then show ?thesis
      using inner snapshot_node_ino [OF e(2)]
      by (simp add: nfs_getattr_def caught_def nfs_node_def u ready_snapshot)
  qed
qed

section \<open>Preservation\<close>

lemma ensure_synthetic_dirs:
  "ensure_synthetic p n t = Some (i, t') \<Longrightarrow> length (mt_synthetic t) \<le> length (mt_synthetic t')"
  by (auto simp: ensure_synthetic_def children_of_mut_def Let_def split: option.splits)

lemma reserve_slot_dirs:
  assumes "reserve_slot a d g st hint t = Some (r, t')"
  shows "length (mt_synthetic t) \<le> length (mt_synthetic t')"
proof -
  obtain i1 t1 where 1: "ensure_synthetic ROOT (to_dec a) t = Some (i1, t1)"
    using assms by (auto simp: reserve_slot_def split: option.splits)
  obtain i2 t2 where 2: "ensure_synthetic i1 (to_dec d) t1 = Some (i2, t2)"
    using assms 1 by (auto simp: reserve_slot_def split: option.splits)
  have "length (mt_synthetic t2) \<le> length (mt_synthetic t')"
    using assms 1 2
    by (auto simp: reserve_slot_def children_of_mut_def Let_def split: option.splits if_splits)
  then show ?thesis using ensure_synthetic_dirs [OF 1] ensure_synthetic_dirs [OF 2] by linarith
qed

lemma tree_step_dirs:
  assumes "tree_step t t'"
  shows "length (mt_synthetic t) \<le> length (mt_synthetic t')"
  using assms
proof cases
  case step_reserve
  then show ?thesis by (rule reserve_slot_dirs)
next
  case (step_remove sn r)
  then show ?thesis
    by (auto simp: remove_def children_of_mut_def Let_def split: option.splits)
next
  case (step_promote sn e)
  then show ?thesis by (simp add: promote_dirs)
qed

text \<open>A slot that is open stays open with the same snapshot until it is removed.\<close>

lemma tree_step_slot:
  assumes "tree_step t t'" and "slot_at t s = Some sl" and "slot_at t' s \<noteq> None"
  shows "\<exists>sl'. slot_at t' s = Some sl' \<and> (\<forall>e. sl_state sl = Ready e \<longrightarrow> sl_state sl' = Ready e)"
  using assms(1)
proof cases
  case (step_reserve a d g st hint r)
  then show ?thesis using reserve_slot_slots [OF step_reserve] assms(2)
    by (auto simp: slot_at_iff nth_append)
next
  case (step_remove sn r)
  then have "mt_slots t' = mt_slots t \<or> mt_slots t' = (mt_slots t)[unat (sid_raw sn) := None]"
    by (auto simp: remove_def children_of_mut_def Let_def split: option.splits)
  then show ?thesis using assms(2,3)
    by (cases "unat (sid_raw sn) = unat s") (auto simp: slot_at_iff)
next
  case (step_promote sn e)
  obtain s' where sn: "sn = SnapshotId s'" by (cases sn)
  show ?thesis using promote_cases [of s' e t] assms(2)
    by (cases "s' = s") (auto simp: step_promote sn slot_at_iff nth_list_update)
qed

lemma node_type_step:
  assumes "tree_step t t'" and ty: "node_type api t i = Some k" and al: "alive t' i"
  shows "node_type api t' i = Some k"
proof -
  obtain s idx where u: "unpack i = (s, idx)" by fastforce
  show ?thesis
  proof (cases "s = SYNTHETIC")
    case True
    then show ?thesis using ty tree_step_dirs [OF assms(1)] by (auto simp: node_type_def u split: if_splits)
  next
    case False
    then obtain sl where sl: "slot_at t s = Some sl"
      using typed_alive [OF ty] by (auto simp: alive_def u)
    have live: "slot_at t' s \<noteq> None" using al False by (auto simp: alive_def u)
    then obtain sl' where "slot_at t' s = Some sl'" "\<forall>e. sl_state sl = Ready e \<longrightarrow> sl_state sl' = Ready e"
      using tree_step_slot [OF assms(1) sl live] by blast
    then show ?thesis
      using ty False sl
      by (auto simp: node_type_def u slot_lookup_def split: if_splits slot_state.splits)
  qed
qed

lemma alive_back:
  assumes "tree_step t t'" and "alive t' i" and "unat (fst (unpack i)) < length (mt_slots t)"
  shows "alive t i"
  using tree_step_dead [OF assms(1,3)] assms(2) by (auto simp: alive_def)

lemma tree_step_slots_len:
  assumes "tree_step t t'"
  shows "length (mt_slots t) \<le> length (mt_slots t')"
  using assms
proof cases
  case (step_reserve a d g st hint r)
  then show ?thesis using reserve_slot_slots [OF step_reserve] by auto
next
  case (step_remove sn r)
  then show ?thesis by (auto simp: remove_def children_of_mut_def Let_def split: option.splits)
next
  case (step_promote sn e)
  then show ?thesis by (auto simp: promote_def split: option.split slot_state.split)
qed

lemma tree_steps_slots_len: "tree_step\<^sup>*\<^sup>* t t' \<Longrightarrow> length (mt_slots t) \<le> length (mt_slots t')"
  by (induction rule: rtranclp_induct) (auto dest: tree_step_slots_len)

lemma node_type_steps:
  assumes "tree_step\<^sup>*\<^sup>* t t'" and ty: "node_type api t i = Some k" and al: "alive t' i"
  shows "node_type api t' i = Some k"
  using assms(1) al
proof (induction rule: rtranclp_induct)
  case (step u v)
  have "alive u i"
  proof (cases "fst (unpack i) = SYNTHETIC")
    case False
    then have "unat (fst (unpack i)) < length (mt_slots t)"
      using typed_alive [OF ty] by (auto simp: alive_def slot_at_iff)
    then show ?thesis
      using alive_back [OF step.hyps(2) step.prems] tree_steps_slots_len [OF step.hyps(1)] by simp
  qed (simp add: alive_def)
  then show ?case using node_type_step [OF step.hyps(2) step.IH step.prems] by blast
qed (rule ty)

section \<open>Ids that are handed out\<close>

definition mount_wf ::
  "('s, 'o, 'w) opener_env \<Rightarrow> depot_api \<Rightarrow> ('s, 'o, 'w) mount_world \<Rightarrow> bool" where
  "mount_wf env api mw \<longleftrightarrow>
     tree_ok (mw_tree mw) \<and>
     (\<forall>s e. slot_lookup (mw_tree mw) s = SlReady e \<longrightarrow> entry_wf api e) \<and>
     (\<forall>c e. mw_cells mw c = Some (Inr e) \<longrightarrow> entry_wf api e) \<and>
     (\<forall>o' w st w'. oe_open env o' w = (Ok st, w') \<longrightarrow> entry_wf api \<lparr>se_snapshot = st\<rparr>)"

text \<open>
  The answers that carry ids: the root, a lookup, and the rows of a page, which also carry the
  attributes.
\<close>

inductive hands_out ::
  "('s, 'o, 'w) opener_env \<Rightarrow> depot_api \<Rightarrow> (string \<Rightarrow> bool) \<Rightarrow> ('s, 'o, 'w) mount_world \<Rightarrow>
     ino \<Rightarrow> fattr3 option \<Rightarrow> ('s, 'o, 'w) mount_world \<Rightarrow> bool"
  for env api valid mw where
  by_root: "hands_out env api valid mw nfs_root_dir None mw"
| by_lookup: "nfs_lookup env api valid dirid n mw = (Ok i, mw1) \<Longrightarrow> hands_out env api valid mw i None mw1"
| by_readdir: "nfs_readdir env api dirid c m mw = (Ok (page, eof), mw1) \<Longrightarrow> (i, n, a) \<in> set page \<Longrightarrow>
    hands_out env api valid mw i (Some a) mw1"

lemma opened_wf:
  assumes "mount_wf env api mw" and "nfs_snapshot_of env s mw = (Ok e, mw1)"
  shows "entry_wf api e"
proof (cases "slot_lookup (mw_tree mw) s")
  case (SlPending lz)
  obtain q mw2 where r: "resolve env lz (SnapshotId s) mw = (q, mw2)" by fastforce
  then have "q = Ok e" using assms(2) SlPending by (cases q; simp add: nfs_snapshot_of_def)
  moreover have "mw_cells mw c = Some (Inr e') \<Longrightarrow> entry_wf api e'"
    "oe_open env o' w = (Ok st, w') \<Longrightarrow> entry_wf api \<lparr>se_snapshot = st\<rparr>" for c e' o' w st w'
    using assms(1) unfolding mount_wf_def by blast+
  ultimately show ?thesis
    using r unfolding resolve_def Let_def
    by (auto split: option.splits prod.splits outcome.splits sum.splits)
qed (use assms in \<open>auto simp: nfs_snapshot_of_def mount_wf_def\<close>)

lemma inner_child_typed:
  assumes e: "entry_wf api e" and c: "snapshot_child api e i n = Some nd"
    and s: "fst (unpack i) = s" "s \<noteq> SYNTHETIC" and sl: "slot_lookup t s = SlReady e"
  shows "node_type api t (n_ino nd) = Some (n_kind nd)"
proof -
  obtain k p where k: "index_of (se_snapshot e) p = Some k"
    "snapshot_node api e (pack s (word_of_nat (Suc k))) = Some nd"
    using c s(1) by (auto simp: snapshot_child_def split: prod.splits option.splits)
  have lt: "k < length (m_files (ds_manifest (se_snapshot e)))"
    using k(1) e by (auto simp: index_of_def entry_wf_def dest!: by_path_lt)
  note f = path_of_file_node [OF e lt]
  have "(word_of_nat (Suc k) :: u64) \<noteq> 0" using f(3) by (metis nat.distinct(1) unat_0)
  then show ?thesis
    using k(2) s(2) sl f(2) snapshot_node_ino [OF k(2)] by (simp add: node_type_def del: of_nat_Suc)
qed

lemma prefix_child_typed:
  assumes wf: "tree_wf rs t" and c: "synthetic_child t i n = Some nd"
  shows "node_type api t (n_ino nd) = Some (n_kind nd)"
proof -
  obtain sd ch where sd: "synthetic t i = Some sd" "map_of (sd_children sd) n = Some ch"
    and nd: "nd = node_below_synthetic t ch"
    using c by (auto simp: synthetic_child_def split: option.splits)
  obtain k where k: "k < length rs" "sd = mt_synthetic t ! k" using synthetic_at [OF wf sd(1)] by blast
  have ch: "child_of rs (mt_slots t) (rs ! k) n ch" using children_at(2) [OF wf k(1)] sd(2) k(2) by simp
  have l: "length rs = length (mt_synthetic t)" "length rs \<le> 2 ^ 48" "mt_slots t ! 0 = None"
    using wf by (auto simp: tree_wf_def)
  have dir: "node_type api t (word_of_nat j) = Some NDir" if "j < length rs" for j
    using that l by (simp add: node_type_def unpack_synthetic unat_nat48 SYNTHETIC_def)
  have root: "node_type api t (pack (word_of_nat j) 0) = Some NDir"
    if j: "j < length (mt_slots t)" "mt_slots t ! j = Some sl" for j sl
  proof -
    have u: "unat (word_of_nat j :: sid) = j"
      using slots_bound [OF wf j(1)] by (simp add: unsigned_of_nat take_bit_nat_eq_self)
    moreover have "(word_of_nat j :: sid) \<noteq> SYNTHETIC"
      using u j(2) l(3) by (metis SYNTHETIC_def option.distinct(1) unat_0)
    ultimately show ?thesis using j by (simp add: node_type_def slot_at_def get_at_def)
  qed
  have "node_type api t ch = Some NDir"
    using ch dir root by (cases "rs ! k") auto
  then show ?thesis by (simp add: nd node_below_synthetic_def dir_node_def Let_def)
qed

lemma page_row:
  assumes "readdir_page es c m = (page, eof)" and "(i, n, a) \<in> set page"
  shows "\<exists>nd. (n, nd) \<in> set es \<and> i = n_ino nd \<and> a = nfs_attr_of nd"
proof -
  have "set page \<subseteq> nfs_row ` set es"
    using assms(1) by (auto simp: readdir_page_at dest!: in_set_takeD in_set_dropD)
  then obtain e where "e \<in> set es" "(i, n, a) = nfs_row e" using assms(2) by blast
  then show ?thesis by (intro exI [of _ "snd e"]) (simp add: nfs_row_def)
qed

lemma prefix_answers:
  assumes u: "fst (unpack dirid) = SYNTHETIC"
  shows "nfs_lookup env api valid dirid n mw = (Ok i, mw1) \<Longrightarrow>
      \<exists>nd. synthetic_child (mw_tree mw) dirid n = Some nd \<and> i = n_ino nd \<and> mw1 = mw"
    and "nfs_readdir env api dirid c m mw = (Ok (page, eof), mw1) \<Longrightarrow>
      \<exists>es. synthetic_dir_entries (mw_tree mw) dirid = Some es \<and> readdir_page es c m = (page, eof) \<and> mw1 = mw"
proof -
  assume l: "nfs_lookup env api valid dirid n mw = (Ok i, mw1)"
  show "\<exists>nd. synthetic_child (mw_tree mw) dirid n = Some nd \<and> i = n_ino nd \<and> mw1 = mw"
  proof (cases "synthetic_child (mw_tree mw) dirid n")
    case None
    then show ?thesis using l u by (simp add: nfs_lookup_def caught_def nfs_lookup_inner_def split: if_splits)
  next
    case (Some nd)
    then show ?thesis using l u by (simp add: nfs_lookup_def caught_def nfs_lookup_inner_def split: if_splits)
  qed
next
  assume l: "nfs_readdir env api dirid c m mw = (Ok (page, eof), mw1)"
  show "\<exists>es. synthetic_dir_entries (mw_tree mw) dirid = Some es \<and> readdir_page es c m = (page, eof) \<and> mw1 = mw"
    using l u by (cases "synthetic_dir_entries (mw_tree mw) dirid")
      (simp_all add: nfs_readdir_def caught_def nfs_readdir_inner_def)
qed

lemma inner_answers:
  assumes u: "unpack dirid = (s, idx)" "s \<noteq> SYNTHETIC"
  shows "nfs_lookup env api valid dirid n mw = (Ok i, mw1) \<Longrightarrow>
      \<exists>e nd. nfs_snapshot_of env s mw = (Ok e, mw1) \<and> snapshot_child api e dirid n = Some nd \<and> i = n_ino nd"
    and "nfs_readdir env api dirid c m mw = (Ok (page, eof), mw1) \<Longrightarrow>
      \<exists>e es. nfs_snapshot_of env s mw = (Ok e, mw1) \<and> snapshot_dir api e dirid = Ok es \<and>
        readdir_page es c m = (page, eof)"
proof -
  obtain q mw' where q: "nfs_snapshot_of env s mw = (q, mw')" by fastforce
  show "\<exists>e nd. nfs_snapshot_of env s mw = (Ok e, mw1) \<and> snapshot_child api e dirid n = Some nd \<and> i = n_ino nd"
    if "nfs_lookup env api valid dirid n mw = (Ok i, mw1)"
    using that q u
    by (cases q) (auto simp: nfs_lookup_def caught_def nfs_lookup_inner_def split: if_splits outcome.splits)
  show "\<exists>e es. nfs_snapshot_of env s mw = (Ok e, mw1) \<and> snapshot_dir api e dirid = Ok es \<and>
      readdir_page es c m = (page, eof)"
    if l: "nfs_readdir env api dirid c m mw = (Ok (page, eof), mw1)"
  proof (cases q)
    case (Ok e)
    then show ?thesis using l q u
      by (cases "snapshot_dir api e dirid") (auto simp: nfs_readdir_def caught_def nfs_readdir_inner_def)
  qed (use l q u in \<open>auto simp: nfs_readdir_def caught_def nfs_readdir_inner_def\<close>)
qed

lemma handed_out_typed:
  assumes mwf: "mount_wf env api mw" and h: "hands_out env api valid mw i x mw1"
  shows "\<exists>k. node_type api (mw_tree mw1) i = Some k \<and> (\<forall>a. x = Some a \<longrightarrow> fa_ftype a = ftype_of k)"
proof -
  obtain rs where wf: "tree_wf rs (mw_tree mw)" using mwf by (auto simp: mount_wf_def tree_ok_def)
  from h show ?thesis
  proof cases
    case by_root
    have "length (mt_synthetic (mw_tree mw)) \<ge> 2" using wf by (auto simp: tree_wf_def)
    then show ?thesis
      using by_root unpack_synthetic [of 1] by (simp add: node_type_def nfs_root_dir_def ROOT_def SYNTHETIC_def)
  next
    case (by_lookup dirid n)
    obtain s idx where u: "unpack dirid = (s, idx)" by fastforce
    show ?thesis
    proof (cases "s = SYNTHETIC")
      case True
      then obtain nd where nd: "synthetic_child (mw_tree mw) dirid n = Some nd" "i = n_ino nd" "mw1 = mw"
        using prefix_answers(1) [of dirid] u by_lookup(2) by fastforce
      then show ?thesis using prefix_child_typed [OF wf nd(1), of api] by_lookup(1) by simp
    next
      case False
      then obtain e nd where e: "nfs_snapshot_of env s mw = (Ok e, mw1)"
        and nd: "snapshot_child api e dirid n = Some nd" "i = n_ino nd"
        using inner_answers(1) [OF u False] by_lookup(2) by blast
      have s: "fst (unpack dirid) = s" using u by simp
      show ?thesis
        using inner_child_typed [OF opened_wf [OF mwf e] nd(1) s False snapshot_stays_open [OF e]]
          by_lookup(1) nd(2) by simp
    qed
  next
    case (by_readdir dirid c m page eof n a)
    obtain s idx where u: "unpack dirid = (s, idx)" by fastforce
    show ?thesis
    proof (cases "s = SYNTHETIC")
      case True
      then obtain es where es: "synthetic_dir_entries (mw_tree mw) dirid = Some es" "mw1 = mw"
        "readdir_page es c m = (page, eof)"
        using prefix_answers(2) [of dirid] u by_readdir(2) by fastforce
      from page_row [OF _ by_readdir(3)] es obtain nd where
        nd: "(n, nd) \<in> set es" "i = n_ino nd" "a = nfs_attr_of nd" by blast
      have "synthetic_good (mw_tree mw, dirid)" using mwf True u by (simp add: synthetic_good_def mount_wf_def)
      then have c: "synthetic_child (mw_tree mw) dirid n = Some nd"
        using synth.listed_iff [of "(mw_tree mw, dirid)" es n nd] es(1) nd(1) by simp
      then show ?thesis using prefix_child_typed [OF wf c, of api] by_readdir(1) nd es(2) by simp
    next
      case False
      then obtain e es where e: "nfs_snapshot_of env s mw = (Ok e, mw1)"
        and es: "snapshot_dir api e dirid = Ok es" "readdir_page es c m = (page, eof)"
        using inner_answers(2) [OF u False] by_readdir(2) by blast
      from page_row [OF _ by_readdir(3)] es obtain nd where
        nd: "(n, nd) \<in> set es" "i = n_ino nd" "a = nfs_attr_of nd" by blast
      note ew = opened_wf [OF mwf e]
      have s: "fst (unpack dirid) = s" using u by simp
      have c: "snapshot_child api e dirid n = Some nd"
        using snap.listed_iff [of api "(e, dirid)" es n nd] ew es(1) nd(1)
        by (simp add: snapshot_good_def snapshot_listing_def)
      then show ?thesis
        using inner_child_typed [OF ew c s False snapshot_stays_open [OF e]] nd by_readdir(1) by simp
    qed
  qed
qed

text \<open>
  C18: Node ids are well typed.  Every id the NFS server hands out, as root, from a lookup or in a
  page of a listing, names a node of a definite kind, the kind its listed attributes announce.
  Whatever is mounted, opened or unmounted afterwards, as long as the snapshot it belongs to is
  mounted the id keeps that kind, and asking for its attributes succeeds with that kind and that
  id: a handle of a client never goes stale before its snapshot is removed and never comes to
  mean something else.
\<close>

theorem handles_well_typed:
  assumes "mount_wf env api mw" and "hands_out env api valid mw i x mw1"
  shows "\<exists>k. node_type api (mw_tree mw1) i = Some k \<and> (\<forall>a. x = Some a \<longrightarrow> fa_ftype a = ftype_of k) \<and>
    (\<forall>mw2. tree_step\<^sup>*\<^sup>* (mw_tree mw1) (mw_tree mw2) \<and> alive (mw_tree mw2) i \<longrightarrow>
       node_type api (mw_tree mw2) i = Some k \<and>
       (\<exists>a. nfs_getattr env api i mw2 = (Ok a, mw2) \<and> fa_ftype a = ftype_of k \<and> fa_fileid a = i))"
  using handed_out_typed [OF assms] node_type_steps typed_served by meson


theorem handles_well_typed_witness:
  "\<exists>i mw1 a. nfs_lookup demo_opener std_depot_api (\<lambda>_. True) (pack 1 (word_of_nat (Suc 0))) ''f''
        demo_lazy_mount = (Ok i, mw1) \<and>
     nfs_getattr demo_opener std_depot_api i mw1 = (Ok a, mw1) \<and> fa_fileid a = i"
proof -
  let ?e = "\<lparr>se_snapshot = depot_store_new demo_manifest
    (fs_cache_store std_env demo_cache_dir (mem_store demo_chunks))\<rparr>"
  have e: "entry_wf std_depot_api ?e"
    using demo_files(1) unfolding entry_wf_def by (auto simp: demo_manifest_def)
  have "slot_lookup demo_unopened s \<noteq> SlReady e'" for s e'
    by (auto simp: slot_lookup_def slot_at_def get_at_def demo_unopened(2) new_slot_def nth_Cons
        split: option.splits nat.splits if_splits)
  then have mwf: "mount_wf demo_opener std_depot_api demo_lazy_mount"
    using e demo_unopened(1) by (simp add: mount_wf_def demo_lazy_mount_def demo_opener_def)
  have sl: "slot_lookup demo_unopened 1 = SlPending \<lparr>le_opener = (), le_cell = 0\<rparr>"
    by (simp add: slot_lookup_def slot_at_def get_at_def demo_unopened(2) new_slot_def)
  define mw1 where "mw1 = snd (nfs_snapshot_of demo_opener 1 demo_lazy_mount)"
  have op: "nfs_snapshot_of demo_opener 1 demo_lazy_mount = (Ok ?e, mw1)"
    by (simp add: mw1_def nfs_snapshot_of_def demo_lazy_mount_def sl resolve_def demo_opener_def Let_def)
  have len: "length (m_files demo_manifest) + 1 < 2 ^ 48" and d: "f_path (m_files demo_manifest ! 0) = ''d''"
    and f: "f_path (m_files demo_manifest ! 1) = child_path ''d'' ''f''" "plain_name ''f''"
    by (simp_all add: demo_manifest_def demo_dir_def demo_file_def child_path_def plain_name_def)
  have "m_files demo_manifest \<noteq> []" by (simp add: demo_manifest_def)
  then have "node_of_path demo_manifest 1 ''d'' = Some (pack 1 (word_of_nat (Suc 0)))"
    using by_path_distinct [of "m_files demo_manifest" "''d''" 0] demo_files(1) d
    by (simp add: node_of_path_def wf_files_def)
  from inner_lookup [where valid = "\<lambda>_. True", OF demo_files(1) len _ _ op _ f(2) this demo_index(1) f(1)]
  have l: "nfs_lookup demo_opener std_depot_api (\<lambda>_. True) (pack 1 (word_of_nat (Suc 0))) ''f'' demo_lazy_mount =
      (Ok (pack 1 (word_of_nat (Suc 1))), mw1)" by (simp add: SYNTHETIC_def)
  from handles_well_typed [OF mwf by_lookup [OF l]] typed_alive obtain a where
    "nfs_getattr demo_opener std_depot_api (pack 1 (word_of_nat (Suc 1))) mw1 = (Ok a, mw1)"
    "fa_fileid a = pack 1 (word_of_nat (Suc 1))" by (metis rtranclp.rtrancl_refl)
  with l show ?thesis by blast
qed

end
