(* ===== verification/Store_Tools.thy ===== *)
theory Store_Tools
  imports Steam_Store Cached_Read "HOL-Library.Multiset"
begin

text \<open>
  The tools that read a store without the network, \<open>examples/common/mod.rs\<close> and the access patterns
  over it: \<open>store_stream\<close>, \<open>store_sweep\<close>, \<open>store_file\<close>, \<open>store_fragments\<close>.

  They open the store for one cached manifest, insist that every chunk of the files they read is
  on disk, and read over a chunk store that refuses to fetch.  What a tool reads is its value here;
  the times it prints are left out.

  The interface \<open>range_reader\<close> is what an access pattern relies on: a range inside the file reads
  as that part of the content.  The patterns are shown correct against it once.
\<close>

section \<open>The offline store\<close>

text \<open>\<open>MissingChunks\<close>: what is not on disk is an error, never a fetch.\<close>

definition missing_chunks_get ::
  "'l chunk_env \<Rightarrow> chunk_hash \<Rightarrow> unit \<Rightarrow> (vfs_error, bytes) outcome \<times> unit" where
  "missing_chunks_get env sha u =
     (Err (VfsOther (''chunk '' @ ce_hex env sha @
        '' missing; store tools need fully-present files'')), u)"

definition missing_chunks :: "'l chunk_env \<Rightarrow> unit chunk_store" where
  "missing_chunks env =
     \<lparr>cs_get = missing_chunks_get env, cs_ensure = default_ensure (missing_chunks_get env)\<rparr>"

definition BULK_BUDGET :: u64 where
  "BULK_BUDGET = push_bit 20 512"

datatype tool_error =
    ToolIo io_error
  | ToolVfs vfs_error
  | NotInStoreCache u64
  | ListedNotLoaded u64
  | NotFullyPresent string
  | NotInManifest string
  | ChunksMissing nat
  | ZeroFragment

record store_ctx =
  cx_store :: depot_root
  cx_app_id :: u32
  cx_depot_id :: u32
  cx_manifest :: manifest
  cx_chunks_root :: path
  cx_present_files :: "nat list"

section \<open>Opening the store\<close>

fun collect_present :: "(io_error, chunk_hash) outcome list \<Rightarrow> chunk_hash set \<Rightarrow>
    (io_error, chunk_hash set) outcome" where
  "collect_present [] present = Ok present"
| "collect_present (row # rows) present =
     (case row of
        Ok h \<Rightarrow> collect_present rows (insert h present)
      | Err e \<Rightarrow> Err e
      | Panic \<Rightarrow> Panic)"

text \<open>\<open>sort_by_key\<close> is stable, and \<open>Reverse\<close> turns the order of the sizes around.\<close>

definition present_file_indices :: "depot_api \<Rightarrow> manifest \<Rightarrow> chunk_hash set \<Rightarrow> nat list" where
  "present_file_indices api m present =
     sort_key (\<lambda>i. - uint (f_size (m_files m ! i)))
       (map fst (filter (\<lambda>(i, f). list_all (\<lambda>c. c_sha c \<in> present) (api_chunks api f))
          (filter (\<lambda>(i, f). api_is_file api f) (List.enumerate 0 (m_files m)))))"

text \<open>\<open>default_store_root\<close>; without a home directory there is none, which is a panic.\<close>

definition default_store_root :: "path option \<Rightarrow> path option" where
  "default_store_root data_dir = map_option (\<lambda>d. d @ [''store'']) data_dir"

definition store_ctx_load ::
  "(path \<Rightarrow> dir_rows) \<Rightarrow> (string \<Rightarrow> chunk_hash option) \<Rightarrow> postcard \<Rightarrow> depot_api \<Rightarrow> depot_root \<Rightarrow>
     u64 \<Rightarrow> fsys \<Rightarrow> (tool_error, store_ctx) outcome \<times> fsys" where
  "store_ctx_load read_dir from_hex pc api store gid fs =
     (case obind (list_chunks read_dir from_hex store) (\<lambda>rows. collect_present rows {}) of
        Err e \<Rightarrow> (Err (ToolIo e), fs)
      | Panic \<Rightarrow> (Panic, fs)
      | Ok present \<Rightarrow>
          (case list_manifests read_dir store of
             Err e \<Rightarrow> (Err (ToolIo e), fs)
           | Panic \<Rightarrow> (Panic, fs)
           | Ok keys \<Rightarrow>
               (case find (\<lambda>(_, _, listed). listed = gid) keys of
                  None \<Rightarrow> (Err (NotInStoreCache gid), fs)
                | Some (app_id, depot_id, _) \<Rightarrow>
                    (case load_cached_manifest pc store app_id depot_id gid fs of
                       (Err e, fs1) \<Rightarrow> (Err (ToolVfs e), fs1)
                     | (Panic, fs1) \<Rightarrow> (Panic, fs1)
                     | (Ok None, fs1) \<Rightarrow> (Err (ListedNotLoaded gid), fs1)
                     | (Ok (Some m), fs1) \<Rightarrow>
                         (Ok \<lparr>cx_store = store, cx_app_id = app_id, cx_depot_id = depot_id,
                             cx_manifest = m, cx_chunks_root = chunks_root store,
                             cx_present_files = present_file_indices api m present\<rparr>, fs1)))))"

definition store_ctx_open ::
  "(path \<Rightarrow> dir_rows) \<Rightarrow> (string \<Rightarrow> chunk_hash option) \<Rightarrow> postcard \<Rightarrow> depot_api \<Rightarrow> nat \<Rightarrow>
     path option \<Rightarrow> path option \<Rightarrow> u64 \<Rightarrow> fsys \<Rightarrow> (tool_error, store_ctx) outcome \<times> fsys" where
  "store_ctx_open read_dir from_hex pc api pid data_dir store_root gid fs =
     (case (case store_root of Some r \<Rightarrow> Some r | None \<Rightarrow> default_store_root data_dir) of
        None \<Rightarrow> (Panic, fs)
      | Some root \<Rightarrow>
          store_ctx_load read_dir from_hex pc api (depot_root_new root pid) gid
            (snd (fs_create_dir_all (root @ [CHUNKS_DIR]) fs)))"

text \<open>A snapshot with nothing decoded, whose misses go to \<open>MissingChunks\<close>.\<close>

definition fresh_snapshot ::
  "'l chunk_env \<Rightarrow> store_ctx \<Rightarrow> fsys \<Rightarrow> ('l, unit) cache_world depot_store \<times> ('l, unit) cache_world" where
  "fresh_snapshot env ctx fs =
     (case chunk_dir_open env (cx_chunks_root ctx) fs () of (dir, w) \<Rightarrow>
        (depot_store_new (cx_manifest ctx) (fs_cache_store env dir (missing_chunks env)), w))"

section \<open>The files the tools read\<close>

fun find_at :: "depot_file list \<Rightarrow> nat list \<Rightarrow> string \<Rightarrow> (tool_error, depot_file) outcome" where
  "find_at files [] path = Err (NotFullyPresent path)"
| "find_at files (i # is) path =
     (case get_at files i of
        None \<Rightarrow> Panic
      | Some f \<Rightarrow> if f_path f = path then Ok f else find_at files is path)"

definition find_file :: "store_ctx \<Rightarrow> string \<Rightarrow> (tool_error, depot_file) outcome" where
  "find_file ctx path = find_at (m_files (cx_manifest ctx)) (cx_present_files ctx) path"

definition manifest_file :: "store_ctx \<Rightarrow> string \<Rightarrow> (tool_error, depot_file) outcome" where
  "manifest_file ctx path =
     ok_or (find (\<lambda>f. f_path f = path) (m_files (cx_manifest ctx))) (NotInManifest path)"

fun take_budget :: "u64 \<Rightarrow> depot_file list \<Rightarrow> depot_file list" where
  "take_budget used [] = []"
| "take_budget used (f # fs) =
     (if used < BULK_BUDGET then f # take_budget (used + f_size f) fs else [])"

definition bulk_files :: "depot_api \<Rightarrow> store_ctx \<Rightarrow> depot_file list" where
  "bulk_files api ctx =
     take_budget 0 (sort_key (\<lambda>f. - uint (f_size f))
       (filter (\<lambda>f. api_is_file api f \<and> f_size f > 0) (m_files (cx_manifest ctx))))"

text \<open>
  The scan three tools have: each hash once, in the order of the files, and whether a file of its
  name is there.  An error of the disk ends it.
\<close>

fun probe_chunks ::
  "'l chunk_env \<Rightarrow> path \<Rightarrow> chunk list \<Rightarrow> chunk_hash set \<Rightarrow> fsys \<Rightarrow>
     (io_error, (chunk \<times> bool) list) outcome \<times> fsys" where
  "probe_chunks env root [] seen fs = (Ok [], fs)"
| "probe_chunks env root (c # cs) seen fs =
     (if c_sha c \<in> seen then probe_chunks env root cs seen fs
      else
        (case fs_try_exists (root @ [ce_hex env (c_sha c)]) fs of
           (Err e, fs1) \<Rightarrow> (Err e, fs1)
         | (Panic, fs1) \<Rightarrow> (Panic, fs1)
         | (Ok x, fs1) \<Rightarrow>
             (case probe_chunks env root cs (insert (c_sha c) seen) fs1 of
                (r, fs2) \<Rightarrow> (omap (\<lambda>ps. (c, x) # ps) r, fs2))))"

abbreviation chunks_of_files :: "depot_api \<Rightarrow> depot_file list \<Rightarrow> chunk list" where
  "chunks_of_files api files \<equiv> concat (map (api_chunks api) files)"

definition missing_of ::
  "'l chunk_env \<Rightarrow> depot_api \<Rightarrow> path \<Rightarrow> depot_file list \<Rightarrow> fsys \<Rightarrow> (io_error, chunk list) outcome \<times> fsys" where
  "missing_of env api root files fs =
     (case probe_chunks env root (chunks_of_files api files) {} fs of
        (r, fs1) \<Rightarrow> (omap (\<lambda>ps. map fst (filter (\<lambda>p. \<not> snd p) ps)) r, fs1))"

definition require_complete ::
  "'l chunk_env \<Rightarrow> depot_api \<Rightarrow> store_ctx \<Rightarrow> depot_file list \<Rightarrow> fsys \<Rightarrow>
     (tool_error, unit) outcome \<times> fsys" where
  "require_complete env api ctx files fs =
     (case missing_of env api (cx_chunks_root ctx) files fs of
        (Err e, fs1) \<Rightarrow> (Err (ToolIo e), fs1)
      | (Panic, fs1) \<Rightarrow> (Panic, fs1)
      | (Ok ms, fs1) \<Rightarrow>
          (if length ms > 0 then Err (ChunksMissing (length ms)) else Ok (), fs1))"

section \<open>Access patterns\<close>

text \<open>
  The window loop of \<open>store_stream\<close> and of the benchmark \<open>read_fragments_128k\<close>: reads of at most
  \<open>win\<close> bytes from the front to the end.  The fuel bounds the number of turns.
\<close>

fun window_loop ::
  "nat \<Rightarrow> u64 \<Rightarrow> (u64 \<Rightarrow> u64 \<Rightarrow> 's \<Rightarrow> ('e, bytes) outcome \<times> 's) \<Rightarrow> u64 \<Rightarrow> u64 \<Rightarrow> 's \<Rightarrow>
     (('e, bytes list) outcome \<times> 's) option" where
  "window_loop 0 win rd fsize off s = None"
| "window_loop (Suc fuel) win rd fsize off s =
     (if off < fsize then
        (let len = min win (fsize - off) in
         case rd off len s of
           (Ok b, s1) \<Rightarrow>
             map_option (\<lambda>(r, s2). (omap (\<lambda>bs. b # bs) r, s2))
               (window_loop fuel win rd fsize (off + len) s1)
         | (Err e, s1) \<Rightarrow> Some (Err e, s1)
         | (Panic, s1) \<Rightarrow> Some (Panic, s1))
      else Some (Ok [], s))"

definition WINDOW :: u64 where
  "WINDOW = 8 * 1024 * 1024"

fun stream_files ::
  "nat \<Rightarrow> depot_api \<Rightarrow> 's depot_store \<Rightarrow> depot_file list \<Rightarrow> 's \<Rightarrow>
     ((io_error, bytes list list) outcome \<times> 's) option" where
  "stream_files fuel api st [] s = Some (Ok [], s)"
| "stream_files fuel api st (f # fs) s =
     (case window_loop fuel WINDOW (\<lambda>off len. read api st (f_path f) off len) (f_size f) 0 s of
        None \<Rightarrow> None
      | Some (Err e, s1) \<Rightarrow> Some (Err e, s1)
      | Some (Panic, s1) \<Rightarrow> Some (Panic, s1)
      | Some (Ok bs, s1) \<Rightarrow>
          map_option (\<lambda>(r, s2). (omap (\<lambda>rest. bs # rest) r, s2)) (stream_files fuel api st fs s1))"

fun sweep_files ::
  "depot_api \<Rightarrow> 's depot_store \<Rightarrow> depot_file list \<Rightarrow> 's \<Rightarrow> (io_error, bytes list) outcome \<times> 's" where
  "sweep_files api st [] s = (Ok [], s)"
| "sweep_files api st (f # fs) s =
     (case read_full api st (f_path f) s of
        (Err e, s1) \<Rightarrow> (Err e, s1)
      | (Panic, s1) \<Rightarrow> (Panic, s1)
      | (Ok b, s1) \<Rightarrow>
          (case sweep_files api st fs s1 of (r, s2) \<Rightarrow> (omap (\<lambda>rest. b # rest) r, s2)))"

datatype frag_mode = Sequential | Random

definition fragment_count :: "u64 \<Rightarrow> u64 \<Rightarrow> u64" where
  "fragment_count fsize fragment = max (fsize div fragment) 1"

definition xorshift :: "u64 \<Rightarrow> u64" where
  "xorshift r0 =
     (let r1 = xor r0 (push_bit 13 r0);
          r2 = xor r1 (drop_bit 7 r1)
      in xor r2 (push_bit 17 r2))"

text \<open>The range of the read number \<open>i\<close>, and the generator after it.\<close>

definition fragment_range :: "frag_mode \<Rightarrow> u64 \<Rightarrow> u64 \<Rightarrow> u64 \<Rightarrow> u64 \<Rightarrow> (u64 \<times> u64) \<times> u64" where
  "fragment_range mode fragment fsize i rng =
     (let n = fragment_count fsize fragment in
      case mode of
        Sequential \<Rightarrow> (let at = (i mod n) * fragment in ((at, min fragment (fsize - at)), rng))
      | Random \<Rightarrow>
          (let rng' = xorshift rng; at = (rng' mod n) * fragment
           in ((at, min fragment (fsize - at)), rng')))"

fun fragment_pass ::
  "frag_mode \<Rightarrow> u64 \<Rightarrow> u64 \<Rightarrow> (u64 \<Rightarrow> u64 \<Rightarrow> 's \<Rightarrow> ('e, bytes) outcome \<times> 's) \<Rightarrow> nat list \<Rightarrow> u64 \<Rightarrow>
     's \<Rightarrow> ('e, bytes list) outcome \<times> u64 \<times> 's" where
  "fragment_pass mode fragment fsize rd [] rng s = (Ok [], rng, s)"
| "fragment_pass mode fragment fsize rd (i # is) rng s =
     (case fragment_range mode fragment fsize (word_of_nat i) rng of ((off, len), rng1) \<Rightarrow>
        (case rd off len s of
           (Err e, s1) \<Rightarrow> (Err e, rng1, s1)
         | (Panic, s1) \<Rightarrow> (Panic, rng1, s1)
         | (Ok b, s1) \<Rightarrow>
             (case fragment_pass mode fragment fsize rd is rng1 s1 of
                (r, rng2, s2) \<Rightarrow> (omap (\<lambda>bs. b # bs) r, rng2, s2))))"

section \<open>The tools\<close>

text \<open>The passes of a tool share the snapshot and what it has decoded.\<close>

fun passes_loop :: "nat \<Rightarrow> ('s \<Rightarrow> (('e, 'a) outcome \<times> 's) option) \<Rightarrow> 's \<Rightarrow>
    (('e, 'a list) outcome \<times> 's) option" where
  "passes_loop 0 pass s = Some (Ok [], s)"
| "passes_loop (Suc n) pass s =
     (case pass s of
        None \<Rightarrow> None
      | Some (Err e, s1) \<Rightarrow> Some (Err e, s1)
      | Some (Panic, s1) \<Rightarrow> Some (Panic, s1)
      | Some (Ok a, s1) \<Rightarrow>
          map_option (\<lambda>(r, s2). (omap (\<lambda>as. a # as) r, s2)) (passes_loop n pass s1))"

text \<open>What \<open>store_stream\<close> and \<open>store_sweep\<close> share: the bulk set, complete, over one snapshot.\<close>

definition over_bulk_set ::
  "'l chunk_env \<Rightarrow> depot_api \<Rightarrow> store_ctx \<Rightarrow> nat \<Rightarrow>
     (('l, unit) cache_world depot_store \<Rightarrow> depot_file list \<Rightarrow> ('l, unit) cache_world \<Rightarrow>
       ((io_error, 'a) outcome \<times> ('l, unit) cache_world) option) \<Rightarrow> fsys \<Rightarrow>
     ((tool_error, 'a list) outcome \<times> fsys) option" where
  "over_bulk_set env api ctx passes pattern fs =
     (let files = bulk_files api ctx in
      case require_complete env api ctx files fs of
        (Err e, fs1) \<Rightarrow> Some (Err e, fs1)
      | (Panic, fs1) \<Rightarrow> Some (Panic, fs1)
      | (Ok _, fs1) \<Rightarrow>
          (case fresh_snapshot env ctx fs1 of (st, w) \<Rightarrow>
             map_option (\<lambda>(r, w1). (omap_err ToolIo r, cw_fs w1))
               (passes_loop passes (pattern st files) w)))"

definition store_stream ::
  "nat \<Rightarrow> 'l chunk_env \<Rightarrow> depot_api \<Rightarrow> store_ctx \<Rightarrow> nat \<Rightarrow> fsys \<Rightarrow>
     ((tool_error, bytes list list list) outcome \<times> fsys) option" where
  "store_stream fuel env api ctx passes =
     over_bulk_set env api ctx passes (\<lambda>st files. stream_files fuel api st files)"

definition store_sweep ::
  "'l chunk_env \<Rightarrow> depot_api \<Rightarrow> store_ctx \<Rightarrow> nat \<Rightarrow> fsys \<Rightarrow>
     ((tool_error, bytes list list) outcome \<times> fsys) option" where
  "store_sweep env api ctx passes =
     over_bulk_set env api ctx passes (\<lambda>st files w. Some (sweep_files api st files w))"

definition store_file ::
  "'l chunk_env \<Rightarrow> depot_api \<Rightarrow> store_ctx \<Rightarrow> string \<Rightarrow> nat \<Rightarrow> fsys \<Rightarrow>
     ((tool_error, bytes list) outcome \<times> fsys) option" where
  "store_file env api ctx path repeats fs =
     (case find_file ctx path of
        Err e \<Rightarrow> Some (Err e, fs)
      | Panic \<Rightarrow> Some (Panic, fs)
      | Ok f \<Rightarrow>
          (case fresh_snapshot env ctx fs of (st, w) \<Rightarrow>
             map_option (\<lambda>(r, w1). (omap_err ToolIo r, cw_fs w1))
               (passes_loop (Suc repeats) (\<lambda>w. Some (read_full api st (f_path f) w)) w)))"

fun fragment_passes ::
  "nat \<Rightarrow> frag_mode \<Rightarrow> u64 \<Rightarrow> u64 \<Rightarrow> (u64 \<Rightarrow> u64 \<Rightarrow> 's \<Rightarrow> ('e, bytes) outcome \<times> 's) \<Rightarrow> u64 \<Rightarrow> u64 \<Rightarrow>
     's \<Rightarrow> ('e, bytes list list) outcome \<times> 's" where
  "fragment_passes 0 mode fragment fsize rd reads rng s = (Ok [], s)"
| "fragment_passes (Suc n) mode fragment fsize rd reads rng s =
     (case fragment_pass mode fragment fsize rd [0..<unat reads] rng s of
        (Err e, _, s1) \<Rightarrow> (Err e, s1)
      | (Panic, _, s1) \<Rightarrow> (Panic, s1)
      | (Ok b, rng1, s1) \<Rightarrow>
          (case fragment_passes n mode fragment fsize rd reads rng1 s1 of
             (r, s2) \<Rightarrow> (omap (\<lambda>bs. b # bs) r, s2)))"

definition store_fragments ::
  "'l chunk_env \<Rightarrow> depot_api \<Rightarrow> store_ctx \<Rightarrow> frag_mode \<Rightarrow> u64 \<Rightarrow> u64 \<Rightarrow> nat \<Rightarrow> string \<Rightarrow> fsys \<Rightarrow>
     (tool_error, bytes list list) outcome \<times> fsys" where
  "store_fragments env api ctx mode fragment reads passes path fs =
     (if fragment = 0 then (Err ZeroFragment, fs)
      else
        (case find_file ctx path of
           Err e \<Rightarrow> (Err e, fs)
         | Panic \<Rightarrow> (Panic, fs)
         | Ok f \<Rightarrow>
             (case fresh_snapshot env ctx fs of (st, w) \<Rightarrow>
                (case fragment_passes (Suc passes) mode fragment (f_size f)
                    (\<lambda>off len. read api st (f_path f) off len) reads 0x9e3779b97f4a7c15 w of
                   (r, w1) \<Rightarrow> (omap_err ToolIo r, cw_fs w1)))))"

section \<open>Reading without a network\<close>

text \<open>Over a disk that holds the chunks, the cache is a full source although the inner store has nothing.\<close>

definition stored :: "'l chunk_env \<Rightarrow> path \<Rightarrow> (chunk_hash \<Rightarrow> bytes) \<Rightarrow> chunk_hash \<Rightarrow> fsys \<Rightarrow> bool" where
  "stored env root plain h fs \<longleftrightarrow>
     (\<exists>fr. fs_files fs (root @ [ce_hex env h]) = Some fr \<and> decode_frame env fr = Some (h, plain h))"

definition offline_ready ::
  "'l chunk_env \<Rightarrow> chunk_dir \<Rightarrow> (chunk_hash \<Rightarrow> bytes) \<Rightarrow> chunk_hash set \<Rightarrow>
     ('l, unit) cache_world \<Rightarrow> bool" where
  "offline_ready env dir plain avail w \<longleftrightarrow>
     env_ok env \<and> fs_faults (cw_fs w) = [] \<and> cache_inv env dir (\<lambda>h b. b = plain h) w \<and>
     (\<forall>h \<in> avail. stored env (cd_root dir) plain h (cw_fs w))"

lemma stored_path: "stored env (cd_root dir) plain h fs \<longleftrightarrow>
    (\<exists>fr. fs_files fs (path_for env dir h) = Some fr \<and> decode_frame env fr = Some (h, plain h))"
  by (simp add: stored_def path_for_def)

lemma missing_inner: "inner_ok env A (\<lambda>_. True) (missing_chunks env)"
  by (simp add: inner_ok_def missing_chunks_def missing_chunks_get_def)

lemma offline_ready_cache:
  "offline_ready env dir plain avail w \<Longrightarrow>
     cache_ready env dir (missing_chunks env) (\<lambda>_. True) plain w"
  by (simp add: offline_ready_def cache_ready_def missing_inner)

lemma read_verified_stored:
  assumes "fs_files (cw_fs w) p = Some fr" and "decode_frame env fr = Some (h, b)"
    and "fs_faults (cw_fs w) = []"
  shows "read_verified env h p w = (Some b, w)"
  using assms by (simp add: read_verified_def fs_read_def next_fault_quiet)

lemma read_verified_keeps:
  assumes "q \<noteq> p"
  shows "fs_files (cw_fs (snd (read_verified env h p w))) q = fs_files (cw_fs w) q"
proof -
  obtain g fs1 where g: "fs_read p (cw_fs w) = (g, fs1)" by fastforce
  note fs1 = fs_read_files [OF g]
  have "fs_files (snd (fs_remove_file p fs1)) q = fs_files fs1 q"
    using fs_remove_files [of p fs1 "fst (fs_remove_file p fs1)" "snd (fs_remove_file p fs1)"] assms
    by (auto split: if_splits)
  then show ?thesis
    using g fs1 by (auto simp: read_verified_def delete_corrupt_def Let_def split: outcome.split option.split)
qed

lemma offline_get:
  assumes r: "offline_ready env dir plain avail w"
    and g: "fs_cache_get env dir (missing_chunks env) h w = (r, w')"
  shows "offline_ready env dir plain avail w'" and "h \<in> avail \<Longrightarrow> r = Ok (plain h)"
proof -
  have env: "env_ok env" and lru: "lru_ok env" and hex: "hex_ok env"
    and inv: "cache_inv env dir (\<lambda>h b. b = plain h) w" and q: "fs_faults (cw_fs w) = []"
    and st: "\<And>k. k \<in> avail \<Longrightarrow> stored env (cd_root dir) plain k (cw_fs w)"
    using r by (auto simp: offline_ready_def env_ok_def)
  let ?p = "path_for env dir h"
  obtain a w1 where a: "cache_hit env h w = (a, w1)" by fastforce
  note a' = cache_hit_sound [OF a lru]
  obtain c w2 where c: "cache_hit env h w1 = (c, w2)" by fastforce
  note c' = cache_hit_sound [OF c lru]
  obtain d w3 where d: "read_verified env h ?p w2 = (d, w3)" by fastforce
  have q2: "fs_faults (cw_fs w2) = []" using q a'(2) c'(2) by simp
  have fs2: "cw_fs w2 = cw_fs w" using a'(2) c'(2) by simp
  have files: "fs_files (cw_fs w3) k = fs_files (cw_fs w) k" if "k \<noteq> ?p" for k
    using read_verified_keeps [OF that, of env h w2] d fs2 by simp
  have here: "d = Some (plain h) \<and> w3 = w2" if h: "h \<in> avail"
  proof -
    obtain fr where fr: "fs_files (cw_fs w2) ?p = Some fr" "decode_frame env fr = Some (h, plain h)"
      using st [OF h] fs2 by (auto simp: stored_path)
    from read_verified_stored [OF this q2] d show ?thesis by simp
  qed
  have st3: "stored env (cd_root dir) plain k (cw_fs w3)" if k: "k \<in> avail" for k
  proof (cases "k = h")
    case True
    then show ?thesis using here st k fs2 by simp
  next
    case False
    then have "path_for env dir k \<noteq> ?p" using path_for_inject [OF hex] by blast
    then show ?thesis using st [OF k] files by (simp add: stored_path)
  qed
  have q3: "fs_faults (cw_fs w3) = []" using read_verified_quiet [OF q2, of env h ?p] d by simp
  have miss: "fetch_and_persist env (missing_chunks env) h ?p w3 =
      (fst (missing_chunks_get env h (cw_inner w3)), w3)"
    by (simp add: fetch_and_persist_def missing_chunks_def missing_chunks_get_def)
  have fsw': "cw_fs w' = cw_fs w \<or> cw_fs w' = cw_fs w3"
    using g a'(2) fs2 by (auto simp: fs_cache_get_def a c d Let_def miss cache_decoded_def split: option.splits)
  have "cache_ready env dir (missing_chunks env) (\<lambda>_. True) plain w'"
    using cached.get_inv [OF offline_ready_cache [OF r] g] .
  then show "offline_ready env dir plain avail w'"
    using fsw' q q3 st st3 env by (auto simp: offline_ready_def cache_ready_def)
  assume h: "h \<in> avail"
  have "\<exists>b. r = Ok b" using g here [OF h]
    by (auto simp: fs_cache_get_def a c d Let_def split: option.splits)
  then show "r = Ok (plain h)" using cached.get_sound [OF offline_ready_cache [OF r]] g by blast
qed

interpretation cached_offline: full_source
  "fs_cache_get env dir (missing_chunks env)" "offline_ready env dir plain avail" plain avail
  for env dir plain avail
proof
  fix s h b s' r
  show "offline_ready env dir plain avail s \<Longrightarrow>
      fs_cache_get env dir (missing_chunks env) h s = (Ok b, s') \<Longrightarrow> b = plain h"
    using cached.get_sound offline_ready_cache by blast
  show "offline_ready env dir plain avail s \<Longrightarrow>
      fs_cache_get env dir (missing_chunks env) h s = (r, s') \<Longrightarrow> offline_ready env dir plain avail s'"
    by (rule offline_get(1))
  show "offline_ready env dir plain avail s \<Longrightarrow> h \<in> avail \<Longrightarrow>
      \<exists>b s'. fs_cache_get env dir (missing_chunks env) h s = (Ok b, s')"
    using offline_get(2) [of env dir plain avail s h] by (metis prod.collapse)
qed

section \<open>The contract of an access pattern\<close>

locale range_reader =
  fixes rd :: "u64 \<Rightarrow> u64 \<Rightarrow> 's \<Rightarrow> ('e, bytes) outcome \<times> 's"
    and inv :: "'s \<Rightarrow> bool" and fsize :: u64 and content :: bytes
  assumes content_length: "inv s \<Longrightarrow> length content = unat fsize"
    and rd_inv: "inv s \<Longrightarrow> unat off + unat len \<le> unat fsize \<Longrightarrow> rd off len s = (r, s') \<Longrightarrow> inv s'"
    and rd_sound: "inv s \<Longrightarrow> unat off + unat len \<le> unat fsize \<Longrightarrow> rd off len s = (Ok b, s') \<Longrightarrow>
      b = take (unat len) (drop (unat off) content)"
begin

lemma next_window:
  assumes "off < fsize" and "len = min win (fsize - off)"
  shows "unat len = min (unat win) (unat fsize - unat off)" and "unat (off + len) = unat off + unat len"
    and "unat off + unat len \<le> unat fsize"
proof -
  have le: "unat off < unat fsize" using assms(1) by (simp add: word_less_nat_alt)
  show l: "unat len = min (unat win) (unat fsize - unat off)"
    using assms by (simp add: unat_min unat_minus_le word_less_nat_alt word_le_nat_alt)
  then show "unat off + unat len \<le> unat fsize" using le by simp
  moreover have "unat fsize < 2 ^ 64" using unsigned_less [of fsize, where 'a = nat] by simp
  ultimately show "unat (off + len) = unat off + unat len" by (simp add: unat_plus_fits)
qed

lemma window_loop_sound:
  assumes "inv s" and "unat off \<le> unat fsize" and "window_loop fuel win rd fsize off s = Some (r, s')"
  shows "inv s' \<and> (\<forall>bs. r = Ok bs \<longrightarrow>
    concat bs = drop (unat off) content \<and> list_all (\<lambda>b. length b \<le> unat win) bs)"
  using assms
proof (induction fuel arbitrary: off s r s')
  case (Suc fuel)
  show ?case
  proof (cases "off < fsize")
    case False
    then show ?thesis using Suc.prems content_length [OF Suc.prems(1)]
      by (auto simp: word_less_nat_alt)
  next
    case True
    define len where "len = min win (fsize - off)"
    note nw = next_window [OF True len_def]
    obtain g s1 where g: "rd off len s = (g, s1)" by fastforce
    have i1: "inv s1" using rd_inv [OF Suc.prems(1) nw(3) g] .
    show ?thesis
    proof (cases g)
      case (Ok b)
      note b = rd_sound [OF Suc.prems(1) nw(3) g [unfolded Ok]]
      obtain r2 where l: "window_loop fuel win rd fsize (off + len) s1 = Some (r2, s')"
        and r: "r = omap (\<lambda>bs. b # bs) r2"
        using Suc.prems(3) True g Ok by (auto simp: Let_def len_def)
      have "unat (off + len) \<le> unat fsize" using nw by simp
      note IH = Suc.IH [OF i1 this l]
      have "b @ drop (unat (off + len)) content = drop (unat off) content"
        by (simp add: b nw(2) add.commute [of "unat off"] append_take_drop_id flip: drop_drop)
      moreover have "length b \<le> unat win" using b nw(1) by simp
      ultimately show ?thesis using IH r by auto
    qed (use Suc.prems True g i1 in \<open>auto simp: Let_def len_def\<close>)
  qed
qed simp

lemma window_loop_ends:
  assumes "0 < win" and "unat fsize - unat off \<le> n * unat win"
  shows "window_loop (Suc n) win rd fsize off s \<noteq> None"
  using assms(2)
proof (induction n arbitrary: off s)
  case 0
  then have "\<not> off < fsize" by (simp add: word_less_nat_alt)
  then show ?case by simp
next
  case (Suc n)
  show ?case
  proof (cases "off < fsize")
    case True
    define len where "len = min win (fsize - off)"
    note nw = next_window [OF True len_def]
    have "unat fsize - unat (off + len) \<le> n * unat win"
      using Suc.prems nw by (auto simp: min_def split: if_splits)
    note IH = Suc.IH [OF this]
    obtain g s1 where "rd off len s = (g, s1)" by fastforce
    then show ?thesis using True IH [of s1]
      by (cases g) (simp_all add: Let_def flip: len_def)
  qed simp
qed

end

locale full_range_reader = range_reader rd inv fsize content
  for rd :: "u64 \<Rightarrow> u64 \<Rightarrow> 's \<Rightarrow> ('e, bytes) outcome \<times> 's"
    and inv :: "'s \<Rightarrow> bool" and fsize :: u64 and content :: bytes +
  assumes rd_returns: "inv s \<Longrightarrow> unat off + unat len \<le> unat fsize \<Longrightarrow> is_ok (fst (rd off len s))"
begin

lemma window_loop_returns:
  assumes "inv s" and "window_loop fuel win rd fsize off s = Some (r, s')"
  shows "is_ok r"
  using assms
proof (induction fuel arbitrary: off s r s')
  case (Suc fuel)
  show ?case
  proof (cases "off < fsize")
    case True
    define len where "len = min win (fsize - off)"
    note nw = next_window [OF True len_def]
    obtain b s1 where b: "rd off len s = (Ok b, s1)"
      using rd_returns [OF Suc.prems(1) nw(3)] by (metis is_ok_iff prod.collapse)
    obtain r2 where l: "window_loop fuel win rd fsize (off + len) s1 = Some (r2, s')"
      and r: "r = omap (\<lambda>bs. b # bs) r2"
      using Suc.prems(2) True b by (auto simp: Let_def len_def)
    from Suc.IH [OF rd_inv [OF Suc.prems(1) nw(3) b] l] r show ?thesis by (auto simp: is_ok_iff)
  qed (use Suc.prems in auto)
qed simp

end

section \<open>Fragments\<close>

lemma unat_max: "unat (max a b) = max (unat a) (unat b)"
  by (simp add: max_def word_le_nat_alt)

lemma word_xor_zeroD:
  fixes a b :: u64
  assumes "xor a b = 0"
  shows "a = b"
proof -
  have "a = xor (xor a b) b" by (simp add: xor.assoc)
  then show ?thesis using assms by simp
qed

lemma fragment_index:
  fixes k n fragment fsize :: u64
  assumes "fragment \<noteq> 0" and "k < fragment_count fsize fragment"
  shows "unat (k * fragment) = unat k * unat fragment"
    and "unat k * unat fragment \<le> unat fsize"
    and "fragment \<le> fsize \<Longrightarrow> unat k * unat fragment + unat fragment \<le> unat fsize"
proof -
  let ?k = "unat k" and ?g = "unat fragment" and ?s = "unat fsize"
  have g: "0 < ?g" using assms(1) by (simp add: unat_gt_0)
  have k: "?k < max (?s div ?g) 1"
    using assms(2) by (simp add: fragment_count_def word_less_nat_alt unat_max unat_div)
  have le: "?k * ?g + ?g \<le> ?s" if "fragment \<le> fsize"
  proof -
    have "1 \<le> ?s div ?g" using that g div_greater_zero_iff [of ?s ?g] by (simp add: word_le_nat_alt)
    then have "Suc ?k \<le> ?s div ?g" using k by simp
    then have "Suc ?k * ?g \<le> ?s div ?g * ?g" by (rule mult_le_mono1)
    also have "\<dots> \<le> ?s" by simp
    finally show ?thesis by simp
  qed
  then show "fragment \<le> fsize \<Longrightarrow> ?k * ?g + ?g \<le> ?s" .
  show b: "?k * ?g \<le> ?s"
  proof (cases "fragment \<le> fsize")
    case False
    then have "?s div ?g = 0" by (simp add: word_le_nat_alt)
    then have "?k = 0" using k by simp
    then show ?thesis by simp
  qed (use le in simp)
  have "?s < 2 ^ 64" using unsigned_less [of fsize, where 'a = nat] by simp
  with b have "?k * ?g < 2 ^ 64" by linarith
  then show "unat (k * fragment) = ?k * ?g" by (simp add: unat_word_ariths)
qed

lemma fragment_range_cases:
  assumes "fragment \<noteq> 0" and "fragment_range mode fragment fsize i rng = ((off, len), rng')"
  obtains k where "k < fragment_count fsize fragment" and "off = k * fragment"
    and "len = min fragment (fsize - off)"
    and "rng' = (case mode of Sequential \<Rightarrow> rng | Random \<Rightarrow> xorshift rng)"
proof -
  have "0 < fragment_count fsize fragment" by (simp add: fragment_count_def word_less_nat_alt unat_max)
  then have "x mod fragment_count fsize fragment < fragment_count fsize fragment" for x
    by (simp add: word_mod_less_divisor)
  then show thesis using assms(2)
    by (intro that [of "(case mode of Sequential \<Rightarrow> i | Random \<Rightarrow> xorshift rng) mod fragment_count fsize fragment"])
      (auto simp: fragment_range_def Let_def split: frag_mode.splits)
qed

lemma fragment_range_bounds:
  assumes "fragment \<noteq> 0" and "fragment_range mode fragment fsize i rng = ((off, len), rng')"
  shows "unat off + unat len \<le> unat fsize"
    and "unat len = min (unat fragment) (unat fsize - unat off)"
    and "fragment \<le> fsize \<Longrightarrow> len = fragment"
    and "fragment \<le> fsize \<Longrightarrow> unat off + unat len \<le> unat fsize div unat fragment * unat fragment"
proof -
  from fragment_range_cases [OF assms] obtain k where k: "k < fragment_count fsize fragment"
    "off = k * fragment" "len = min fragment (fsize - off)" by metis
  note b = fragment_index [OF assms(1) k(1)]
  have le: "off \<le> fsize" using b(1,2) k(2) by (simp add: word_le_nat_alt)
  then show l: "unat len = min (unat fragment) (unat fsize - unat off)"
    using k(3) by (simp add: unat_min unat_minus_le)
  then show "unat off + unat len \<le> unat fsize" using le by (simp add: word_le_nat_alt)
  assume f: "fragment \<le> fsize"
  then show "len = fragment" using b(1,3) k(2) l by (simp add: word_unat_eq_iff)
  have "0 < unat fragment" using assms(1) by (simp add: unat_gt_0)
  moreover have "unat k < max (unat fsize div unat fragment) 1"
    using k(1) by (simp add: fragment_count_def word_less_nat_alt unat_max unat_div)
  moreover have "1 \<le> unat fsize div unat fragment"
    using f calculation(1) div_le_mono [of "unat fragment" "unat fsize" "unat fragment"]
    by (simp add: word_le_nat_alt)
  ultimately have "Suc (unat k) * unat fragment \<le> unat fsize div unat fragment * unat fragment"
    by (intro mult_le_mono1) simp
  then show "unat off + unat len \<le> unat fsize div unat fragment * unat fragment"
    using b(1) k(2) \<open>len = fragment\<close> by simp
qed

text \<open>The generator never gets stuck at zero: each of its three shifts is injective.\<close>

lemma xor_push_zero:
  fixes x :: u64
  assumes "xor x (push_bit k x) = 0" and "0 < k"
  shows "x = 0"
proof (rule bit_word_eqI)
  fix n assume "n < LENGTH(64)"
  then show "bit x n = bit (0 :: u64) n"
  proof (induction n rule: less_induct)
    case (less n)
    have "x = push_bit k x" using word_xor_zeroD [OF assms(1)] .
    then have "bit x n \<longleftrightarrow> k \<le> n \<and> bit x (n - k)"
      using less.prems bit_push_bit_iff [of k x n] by simp
    then show ?case using less.IH [of "n - k"] less.prems assms(2) by auto
  qed
qed

lemma xor_drop_zero:
  fixes x :: u64
  assumes "xor x (drop_bit k x) = 0" and "0 < k"
  shows "x = 0"
proof (rule bit_word_eqI)
  fix n assume "n < LENGTH(64)"
  then show "bit x n = bit (0 :: u64) n"
  proof (induction "64 - n" arbitrary: n rule: less_induct)
    case less
    have "x = drop_bit k x" using word_xor_zeroD [OF assms(1)] .
    then have b: "bit x n \<longleftrightarrow> bit x (k + n)" by (metis bit_drop_bit_eq comp_apply)
    show ?case
    proof (cases "k + n < 64")
      case True
      then show ?thesis using b less.hyps [of "k + n"] assms(2) less.prems by simp
    next
      case False
      then have "\<not> bit x (k + n)" using bit_imp_le_length [of x "k + n"] by auto
      then show ?thesis using b by simp
    qed
  qed
qed

lemma xorshift_nonzero: "r \<noteq> 0 \<Longrightarrow> xorshift r \<noteq> 0"
  using xor_push_zero [of r 13] xor_drop_zero [of "xor r (push_bit 13 r)" 7]
    xor_push_zero [of "xor (xor r (push_bit 13 r)) (drop_bit 7 (xor r (push_bit 13 r)))" 17]
  unfolding xorshift_def Let_def by linarith

context range_reader
begin

lemma fragment_pass_sound:
  assumes "inv s" and "fragment \<noteq> 0"
    and "fragment_pass mode fragment fsize rd is rng s = (r, rng', s')"
  shows "inv s' \<and> (rng \<noteq> 0 \<longrightarrow> rng' \<noteq> 0) \<and> (\<forall>bs. r = Ok bs \<longrightarrow> length bs = length is \<and>
    (\<forall>b \<in> set bs. \<exists>off. b = take (unat fragment) (drop off content) \<and> unat fragment dvd off))"
  using assms(1,3)
proof (induction "is" arbitrary: rng s r)
  case Nil
  then show ?case by auto
next
  case (Cons i "is")
  obtain off len rng1 where fr: "fragment_range mode fragment fsize (word_of_nat i) rng = ((off, len), rng1)"
    by (metis prod.exhaust)
  note b = fragment_range_bounds [OF assms(2) fr]
  obtain k where k: "k < fragment_count fsize fragment" "off = k * fragment"
    "rng1 = (case mode of Sequential \<Rightarrow> rng | Random \<Rightarrow> xorshift rng)"
    using fragment_range_cases [OF assms(2) fr] by metis
  have r1: "rng \<noteq> 0 \<longrightarrow> rng1 \<noteq> 0" using k(3) xorshift_nonzero by (cases mode) auto
  obtain g s1 where g: "rd off len s = (g, s1)" by fastforce
  have i1: "inv s1" using rd_inv [OF Cons.prems(1) b(1) g] .
  show ?case
  proof (cases g)
    case (Ok x)
    obtain r2 where p: "fragment_pass mode fragment fsize rd is rng1 s1 = (r2, rng', s')"
      and r: "r = omap (\<lambda>bs. x # bs) r2"
      using Cons.prems(2) fr g Ok by (auto split: prod.splits)
    have "x = take (unat len) (drop (unat off) content)"
      using rd_sound [OF Cons.prems(1) b(1) g [unfolded Ok]] .
    also have "\<dots> = take (unat fragment) (drop (unat off) content)"
      using b(2) content_length [OF Cons.prems(1)] by (simp add: min_def)
    finally have "\<exists>off. x = take (unat fragment) (drop off content) \<and> unat fragment dvd off"
      using fragment_index(1) [OF assms(2) k(1)] k(2) by auto
    then show ?thesis using Cons.IH [OF i1 p] r r1 by auto
  qed (use Cons.prems(2) fr g i1 r1 in auto)
qed

end

section \<open>The store keeps the contract\<close>

definition readable :: "(chunk_hash \<Rightarrow> bytes) \<Rightarrow> depot_api \<Rightarrow> manifest \<Rightarrow> depot_file \<Rightarrow> bool" where
  "readable plain api m f \<longleftrightarrow> wf_files (m_files m) \<and> f \<in> set (m_files m) \<and> file_ok plain api f"

lemma readable_index:
  assumes "readable plain api m f"
  obtains i where "fst (build_index (m_files m)) (strip_leading_slash (f_path f)) = Some i"
    and "f = m_files m ! i" and "api_is_file api f"
    and "tiles 0 (api_chunks api f) (unat (f_size f))" and "sizes_ok plain (api_chunks api f)"
  using assms file_index [of m f] by (auto simp: readable_def file_ok_def)

lemma readable_length:
  "readable plain api m f \<Longrightarrow> length (file_content plain (api_chunks api f)) = unat (f_size f)"
  using tiles_length by (fastforce simp: readable_def file_ok_def)

lemma fits_u64: "unat off + unat len \<le> unat (fsize :: u64) \<Longrightarrow> unat off + unat len < 2 ^ 64"
  using unsigned_less [of fsize, where 'a = nat] by simp

interpretation disk_reader: range_reader
  "read api (depot_store_new m (fs_cache_store env dir inner)) (f_path f)"
  "\<lambda>w. readable plain api m f \<and> cache_ready env dir inner iinv plain w"
  "f_size f" "file_content plain (api_chunks api f)"
  for api m env dir inner f plain iinv
proof
  fix w and off len :: u64 and r w' b
  let ?rd = "read api (depot_store_new m (fs_cache_store env dir inner)) (f_path f)"
  assume i: "readable plain api m f \<and> cache_ready env dir inner iinv plain w"
  then obtain j where j: "fst (build_index (m_files m)) (strip_leading_slash (f_path f)) = Some j"
    "f = m_files m ! j" and t: "tiles 0 (api_chunks api f) (unat (f_size f))"
      "sizes_ok plain (api_chunks api f)"
    using readable_index by metis
  show "length (file_content plain (api_chunks api f)) = unat (f_size f)"
    using i readable_length by blast
  have get: "cs_get (fs_cache_store env dir inner) = fs_cache_get env dir inner"
    by (simp add: fs_cache_store_def)
  assume b: "unat off + unat len \<le> unat (f_size f)"
  show "readable plain api m f \<and> cache_ready env dir inner iinv plain w'" if r: "?rd off len w = (r, w')"
  proof -
    obtain q out where q: "read_into api (depot_store_new m (fs_cache_store env dir inner))
        (f_path f) off len [] w = (q, out, w')" using r by (auto simp: read_def split: prod.splits)
    from cached.read_into_sound [OF j get t fits_u64 [OF b] _ q] i show ?thesis by blast
  qed
  show "b = take (unat len) (drop (unat off) (file_content plain (api_chunks api f)))"
    if r: "?rd off len w = (Ok b, w')"
  proof -
    obtain q where q: "read_into api (depot_store_new m (fs_cache_store env dir inner))
        (f_path f) off len [] w = (Ok q, b, w')"
      using r by (auto simp: read_def split: prod.splits)
    from cached.read_into_sound [OF j get t fits_u64 [OF b] _ q] i show ?thesis by auto
  qed
qed

interpretation offline_reader: full_range_reader
  "read api (depot_store_new m (fs_cache_store env dir (missing_chunks env))) (f_path f)"
  "\<lambda>w. readable plain api m f \<and> f_size f < 2 ^ 63 \<and> c_sha ` set (api_chunks api f) \<subseteq> avail \<and>
     offline_ready env dir plain avail w"
  "f_size f" "file_content plain (api_chunks api f)"
  for api m env dir f plain avail
proof
  fix w and off len :: u64 and r w' b
  let ?rd = "read api (depot_store_new m (fs_cache_store env dir (missing_chunks env))) (f_path f)"
  assume i: "readable plain api m f \<and> f_size f < 2 ^ 63 \<and> c_sha ` set (api_chunks api f) \<subseteq> avail \<and>
     offline_ready env dir plain avail w"
  then obtain j where j: "fst (build_index (m_files m)) (strip_leading_slash (f_path f)) = Some j"
    "f = m_files m ! j" and fi: "api_is_file api f"
    and t: "tiles 0 (api_chunks api f) (unat (f_size f))" "sizes_ok plain (api_chunks api f)"
    using readable_index by metis
  show "length (file_content plain (api_chunks api f)) = unat (f_size f)"
    using i readable_length by blast
  have get: "cs_get (fs_cache_store env dir (missing_chunks env)) =
      fs_cache_get env dir (missing_chunks env)"
    by (simp add: fs_cache_store_def)
  assume b: "unat off + unat len \<le> unat (f_size f)"
  show "readable plain api m f \<and> f_size f < 2 ^ 63 \<and> c_sha ` set (api_chunks api f) \<subseteq> avail \<and>
     offline_ready env dir plain avail w'" if r: "?rd off len w = (r, w')"
  proof -
    obtain q out where q: "read_into api (depot_store_new m (fs_cache_store env dir (missing_chunks env)))
        (f_path f) off len [] w = (q, out, w')" using r by (auto simp: read_def split: prod.splits)
    from cached_offline.read_into_sound [OF j get t fits_u64 [OF b] _ q] i show ?thesis by blast
  qed
  show "b = take (unat len) (drop (unat off) (file_content plain (api_chunks api f)))"
    if r: "?rd off len w = (Ok b, w')"
  proof -
    obtain q where q: "read_into api (depot_store_new m (fs_cache_store env dir (missing_chunks env)))
        (f_path f) off len [] w = (Ok q, b, w')"
      using r by (auto simp: read_def split: prod.splits)
    from cached_offline.read_into_sound [OF j get t fits_u64 [OF b] _ q] i show ?thesis by auto
  qed
  have le: "off \<le> f_size f" using b by (simp add: word_le_nat_alt)
  have fits: "length ([] :: bytes) + unat (f_size f) < 2 ^ 63" using i by (simp add: word_less_nat_alt)
  have av: "\<forall>c \<in> set (api_chunks api f). c_sha c \<in> avail" using i by auto
  have "fst (read_into api (depot_store_new m (fs_cache_store env dir (missing_chunks env)))
      (f_path f) off len [] w) = Ok ()"
    using cached_offline.read_into_returns [OF j get fi t av fits_u64 [OF b] le fits] i by blast
  then show "is_ok (fst (?rd off len w))" by (auto simp: read_def split: prod.split)
qed

section \<open>A pass over files\<close>

abbreviation contents_of :: "(chunk_hash \<Rightarrow> bytes) \<Rightarrow> depot_api \<Rightarrow> depot_file list \<Rightarrow> bytes list" where
  "contents_of plain api files \<equiv> map (\<lambda>f. file_content plain (api_chunks api f)) files"

definition windows_ok :: "(chunk_hash \<Rightarrow> bytes) \<Rightarrow> depot_api \<Rightarrow> depot_file list \<Rightarrow> bytes list list \<Rightarrow> bool" where
  "windows_ok plain api files bss \<longleftrightarrow>
     map concat bss = contents_of plain api files \<and>
     list_all (list_all (\<lambda>b. length b \<le> unat WINDOW)) bss"

lemma stream_files_sound:
  assumes "list_all (readable plain api m) files" and "cache_ready env dir inner iinv plain w"
    and "stream_files fuel api (depot_store_new m (fs_cache_store env dir inner)) files w = Some (r, w')"
  shows "cache_ready env dir inner iinv plain w' \<and> (\<forall>bss. r = Ok bss \<longrightarrow> windows_ok plain api files bss)"
  using assms
proof (induction files arbitrary: w r)
  case Nil
  then show ?case by (auto simp: windows_ok_def)
next
  case (Cons f fs)
  let ?st = "depot_store_new m (fs_cache_store env dir inner)"
  have i: "readable plain api m f \<and> cache_ready env dir inner iinv plain w" using Cons.prems by simp
  obtain q w1 where q: "window_loop fuel WINDOW (\<lambda>off len. read api ?st (f_path f) off len) (f_size f) 0 w =
      Some (q, w1)" using Cons.prems(3) by (auto split: option.splits)
  from disk_reader.window_loop_sound [OF i _ q] have s: "cache_ready env dir inner iinv plain w1"
    "\<And>bs. q = Ok bs \<Longrightarrow> concat bs = file_content plain (api_chunks api f) \<and>
       list_all (\<lambda>b. length b \<le> unat WINDOW) bs" by auto
  show ?case
  proof (cases q)
    case (Ok bs)
    obtain r2 where l: "stream_files fuel api ?st fs w1 = Some (r2, w')"
      and r: "r = omap (\<lambda>rest. bs # rest) r2" using Cons.prems(3) q Ok by auto
    have "list_all (readable plain api m) fs" using Cons.prems(1) by simp
    from Cons.IH [OF this s(1) l] r s(2) [OF Ok] show ?thesis by (auto simp: windows_ok_def)
  qed (use Cons.prems(3) q s in auto)
qed

lemma stream_files_ends:
  assumes "list_all (\<lambda>f. unat (f_size f) \<le> n * unat WINDOW) files"
  shows "stream_files (Suc n) api (depot_store_new m (fs_cache_store env dir inner)) files w \<noteq> None"
  using assms
proof (induction files arbitrary: w)
  case (Cons f fs)
  let ?rd = "\<lambda>off len. read api (depot_store_new m (fs_cache_store env dir inner)) (f_path f) off len"
  have "0 < WINDOW" by (simp add: WINDOW_def)
  moreover have "unat (f_size f) - unat (0 :: u64) \<le> n * unat WINDOW" using Cons.prems by simp
  ultimately have "window_loop (Suc n) WINDOW ?rd (f_size f) 0 w \<noteq> None"
    by (rule disk_reader.window_loop_ends)
  then obtain q w1 where "window_loop (Suc n) WINDOW ?rd (f_size f) 0 w = Some (q, w1)" by auto
  then show ?case using Cons by (cases q) (simp_all del: window_loop.simps)
qed simp

lemma stream_files_offline:
  assumes "list_all (\<lambda>f. readable plain api m f \<and> f_size f < 2 ^ 63 \<and>
      c_sha ` set (api_chunks api f) \<subseteq> avail) files"
    and "offline_ready env dir plain avail w"
    and "stream_files fuel api (depot_store_new m (fs_cache_store env dir (missing_chunks env))) files w =
      Some (r, w')"
  shows "is_ok r \<and> offline_ready env dir plain avail w'"
  using assms
proof (induction files arbitrary: w r)
  case Nil
  then show ?case by auto
next
  case (Cons f fs)
  let ?st = "depot_store_new m (fs_cache_store env dir (missing_chunks env))"
  have i: "readable plain api m f \<and> f_size f < 2 ^ 63 \<and> c_sha ` set (api_chunks api f) \<subseteq> avail \<and>
     offline_ready env dir plain avail w" using Cons.prems by simp
  obtain q w1 where q: "window_loop fuel WINDOW (\<lambda>off len. read api ?st (f_path f) off len) (f_size f) 0 w =
      Some (q, w1)" using Cons.prems(3) by (auto split: option.splits)
  have w1: "offline_ready env dir plain avail w1"
    using offline_reader.window_loop_sound [OF i _ q] by simp
  obtain bs where bs: "q = Ok bs"
    using offline_reader.window_loop_returns [OF i q] by (auto simp: is_ok_iff)
  obtain r2 where l: "stream_files fuel api ?st fs w1 = Some (r2, w')"
    and r: "r = omap (\<lambda>rest. bs # rest) r2" using Cons.prems(3) q bs by auto
  have "list_all (\<lambda>f. readable plain api m f \<and> f_size f < 2 ^ 63 \<and>
      c_sha ` set (api_chunks api f) \<subseteq> avail) fs" using Cons.prems(1) by simp
  from Cons.IH [OF this w1 l] r show ?case by (auto simp: is_ok_iff)
qed

section \<open>Probing and the fresh snapshot\<close>

definition disk_sound :: "'l chunk_env \<Rightarrow> path \<Rightarrow> (chunk_hash \<Rightarrow> bytes) \<Rightarrow> fsys \<Rightarrow> bool" where
  "disk_sound env root plain fs \<longleftrightarrow>
     (\<forall>h fr b. fs_files fs (root @ [ce_hex env h]) = Some fr \<and> decode_frame env fr = Some (h, b) \<longrightarrow>
        b = plain h)"

lemma probe_chunks_exact:
  assumes "probe_chunks env root cs seen fs = (r, fs')"
  shows "fs_files fs' = fs_files fs" and "r \<noteq> Panic"
    and "r = Ok ps \<Longrightarrow> distinct (map (c_sha \<circ> fst) ps) \<and>
      (c_sha \<circ> fst) ` set ps = c_sha ` set cs - seen \<and> fst ` set ps \<subseteq> set cs \<and>
      (\<forall>(c, x) \<in> set ps. x \<longleftrightarrow> fs_files fs (root @ [ce_hex env (c_sha c)]) \<noteq> None)"
proof -
  have "fs_files fs' = fs_files fs \<and> r \<noteq> Panic \<and> (\<forall>ps. r = Ok ps \<longrightarrow> distinct (map (c_sha \<circ> fst) ps) \<and>
      (c_sha \<circ> fst) ` set ps = c_sha ` set cs - seen \<and> fst ` set ps \<subseteq> set cs \<and>
      (\<forall>(c, x) \<in> set ps. x \<longleftrightarrow> fs_files fs (root @ [ce_hex env (c_sha c)]) \<noteq> None))"
    using assms
  proof (induction cs arbitrary: seen fs r)
    case (Cons c cs)
    show ?case
    proof (cases "c_sha c \<in> seen")
      case True
      then have "probe_chunks env root cs seen fs = (r, fs')" using Cons.prems by simp
      from Cons.IH [OF this] True show ?thesis by (auto simp: insert_absorb)
    next
      case False
      obtain t fs1 where t: "fs_try_exists (root @ [ce_hex env (c_sha c)]) fs = (t, fs1)" by fastforce
      note f1 = fs_try_exists_files [OF t]
      have tv: "t \<noteq> Panic" "t = Ok x \<Longrightarrow> x \<longleftrightarrow> fs_files fs (root @ [ce_hex env (c_sha c)]) \<noteq> None" for x
        using t by (auto simp: fs_try_exists_def split: prod.splits option.splits)
      show ?thesis
      proof (cases t)
        case (Ok x)
        obtain q where q: "probe_chunks env root cs (insert (c_sha c) seen) fs1 = (q, fs')"
          and r: "r = omap (\<lambda>ps. (c, x) # ps) q" using Cons.prems False t Ok by (auto split: prod.splits)
        from Cons.IH [OF q] f1 tv(2) [OF Ok] False show ?thesis
          by (cases q) (auto simp: r)
      qed (use Cons.prems False t f1 tv in auto)
    qed
  qed auto
  then show "fs_files fs' = fs_files fs" "r \<noteq> Panic"
    "r = Ok ps \<Longrightarrow> distinct (map (c_sha \<circ> fst) ps) \<and>
      (c_sha \<circ> fst) ` set ps = c_sha ` set cs - seen \<and> fst ` set ps \<subseteq> set cs \<and>
      (\<forall>(c, x) \<in> set ps. x \<longleftrightarrow> fs_files fs (root @ [ce_hex env (c_sha c)]) \<noteq> None)" by auto
qed

lemma probe_chunks_quiet:
  "fs_faults fs = [] \<Longrightarrow> \<exists>ps. probe_chunks env root cs seen fs = (Ok ps, fs)"
proof (induction cs arbitrary: seen)
  case (Cons c cs)
  then obtain ps where "probe_chunks env root cs (insert (c_sha c) seen) fs = (Ok ps, fs)" by blast
  then show ?case using Cons by (auto simp: fs_try_exists_def next_fault_quiet)
qed simp

text \<open>The missing chunks: each hash of the files once whose file is not there.\<close>

lemma missing_of_exact:
  assumes "missing_of env api root files fs = (r, fs')"
  shows "fs_files fs' = fs_files fs" and "r \<noteq> Panic"
    and "r = Ok ms \<Longrightarrow> distinct (map c_sha ms) \<and> set ms \<subseteq> set (chunks_of_files api files) \<and>
      c_sha ` set ms = {h \<in> c_sha ` set (chunks_of_files api files).
        fs_files fs (root @ [ce_hex env h]) = None}"
proof -
  obtain q where q: "probe_chunks env root (chunks_of_files api files) {} fs = (q, fs')"
    and r: "r = omap (\<lambda>ps. map fst (filter (\<lambda>p. \<not> snd p) ps)) q"
    using assms by (auto simp: missing_of_def split: prod.splits)
  note p = probe_chunks_exact [OF q]
  show "fs_files fs' = fs_files fs" "r \<noteq> Panic" using p(1,2) r by auto
  assume "r = Ok ms"
  then obtain ps where ps: "q = Ok ps" and ms: "ms = map fst (filter (\<lambda>p. \<not> snd p) ps)" using r by auto
  note e = p(3) [OF ps]
  have d: "distinct (map c_sha ms)"
    using e distinct_map_filter [of "c_sha \<circ> fst" ps "\<lambda>p. \<not> snd p"] by (simp add: ms)
  have s: "set ms \<subseteq> set (chunks_of_files api files)" using e unfolding ms by auto
  have "c_sha ` set ms = (c_sha \<circ> fst) ` {p \<in> set ps. \<not> snd p}" by (auto simp: ms image_comp)
  also have "\<dots> = {h \<in> (c_sha \<circ> fst) ` set ps. fs_files fs (root @ [ce_hex env h]) = None}"
    using e by (fastforce simp: image_iff)
  finally show "distinct (map c_sha ms) \<and> set ms \<subseteq> set (chunks_of_files api files) \<and>
      c_sha ` set ms = {h \<in> c_sha ` set (chunks_of_files api files).
        fs_files fs (root @ [ce_hex env h]) = None}" using d s e by simp
qed

lemma missing_of_quiet: "fs_faults fs = [] \<Longrightarrow> \<exists>ms. missing_of env api root files fs = (Ok ms, fs)"
proof -
  assume "fs_faults fs = []"
  from probe_chunks_quiet [OF this, of env root "chunks_of_files api files" "{}"]
  obtain ps where "probe_chunks env root (chunks_of_files api files) {} fs = (Ok ps, fs)" by blast
  then show ?thesis by (simp add: missing_of_def)
qed

lemma require_complete_files:
  assumes "require_complete env api ctx files fs = (r, fs')"
  shows "fs_files fs' = fs_files fs" and "r \<noteq> Panic"
    and "r = Ok () \<Longrightarrow> \<forall>c \<in> set (chunks_of_files api files).
      fs_files fs (cx_chunks_root ctx @ [ce_hex env (c_sha c)]) \<noteq> None"
proof -
  obtain q where q: "missing_of env api (cx_chunks_root ctx) files fs = (q, fs')"
    using assms by (auto simp: require_complete_def split: prod.splits outcome.splits)
  note m = missing_of_exact [OF q]
  show "fs_files fs' = fs_files fs" "r \<noteq> Panic"
    using m(1,2) assms q by (auto simp: require_complete_def split: outcome.splits if_splits)
  assume "r = Ok ()"
  then have "q = Ok []" using assms q by (auto simp: require_complete_def split: outcome.splits if_splits)
  from m(3) [OF this] show "\<forall>c \<in> set (chunks_of_files api files).
      fs_files fs (cx_chunks_root ctx @ [ce_hex env (c_sha c)]) \<noteq> None" by auto
qed

lemma require_complete_quiet:
  assumes "fs_faults fs = []"
  shows "require_complete env api ctx files fs = (Ok (), fs) \<longleftrightarrow>
    (\<forall>c \<in> set (chunks_of_files api files).
      fs_files fs (cx_chunks_root ctx @ [ce_hex env (c_sha c)]) \<noteq> None)"
proof -
  obtain ms where m: "missing_of env api (cx_chunks_root ctx) files fs = (Ok ms, fs)"
    using missing_of_quiet [OF assms] by blast
  have "ms = [] \<longleftrightarrow> c_sha ` set ms = {}" by simp
  then show ?thesis using missing_of_exact(3) [OF m refl]
    by (auto simp: require_complete_def m)
qed

lemma fresh_snapshot_eq:
  "fresh_snapshot env ctx fs =
     (depot_store_new (cx_manifest ctx)
        (fs_cache_store env (chunk_dir_new (cx_chunks_root ctx)) (missing_chunks env)),
      cache_start env (snd (fs_create_dir_all (cx_chunks_root ctx) fs)) ())"
  by (simp add: fresh_snapshot_def chunk_dir_open_def)

lemma create_dir_files:
  "fs_files (snd (fs_create_dir_all p fs)) = fs_files fs"
  "fs_faults fs = [] \<Longrightarrow> snd (fs_create_dir_all p fs) = fs"
  by (cases "fs_faults fs"; cases "hd (fs_faults fs)"; force simp: fs_create_dir_all_def next_fault_def)+

lemma fresh_ready:
  assumes "env_ok env" and "disk_sound env root plain fs"
  shows "cache_ready env (chunk_dir_new root) (missing_chunks env) (\<lambda>_. True) plain
    (cache_start env (snd (fs_create_dir_all root fs)) ())"
  using assms missing_inner [of env]
  by (auto simp: cache_ready_def cache_inv_def cache_start_def create_dir_files path_for_def
      chunk_dir_new_def disk_sound_def env_ok_def lru_ok_def)

lemma fresh_offline:
  assumes "env_ok env" and "disk_sound env root plain fs" and "fs_faults fs = []"
    and "\<forall>h \<in> avail. stored env root plain h fs"
  shows "offline_ready env (chunk_dir_new root) plain avail
    (cache_start env (snd (fs_create_dir_all root fs)) ())"
  using fresh_ready [OF assms(1,2)] assms(3,4)
  by (auto simp: offline_ready_def cache_ready_def create_dir_files cache_start_def chunk_dir_new_def)

lemma passes_loop_all:
  assumes "I s" and "\<forall>s. I s \<longrightarrow> pass s \<noteq> None"
    and "\<forall>s r s'. I s \<longrightarrow> pass s = Some (r, s') \<longrightarrow> I s' \<and> (\<forall>a. r = Ok a \<longrightarrow> P a)"
  shows "\<exists>r s'. passes_loop n pass s = Some (r, s') \<and> I s' \<and>
      (\<forall>as. r = Ok as \<longrightarrow> length as = n \<and> list_all P as) \<and>
      ((\<forall>s r s'. I s \<longrightarrow> pass s = Some (r, s') \<longrightarrow> is_ok r) \<longrightarrow> is_ok r)"
  using assms(1)
proof (induction n arbitrary: s)
  case (Suc n)
  obtain q s1 where q: "pass s = Some (q, s1)" using assms(2) Suc.prems by auto
  have i1: "I s1" and a: "\<And>a. q = Ok a \<Longrightarrow> P a" using assms(3) Suc.prems q by auto
  show ?case
  proof (cases q)
    case (Ok a)
    from Suc.IH [OF i1] obtain r s' where "passes_loop n pass s1 = Some (r, s')" "I s'"
      "\<forall>as. r = Ok as \<longrightarrow> length as = n \<and> list_all P as"
      "(\<forall>s r s'. I s \<longrightarrow> pass s = Some (r, s') \<longrightarrow> is_ok r) \<longrightarrow> is_ok r" by blast
    then show ?thesis using q Ok a [OF Ok]
      by (intro exI [of _ "omap (\<lambda>as. a # as) r"] exI [of _ s']) (auto simp: is_ok_iff)
  next
    case (Err e)
    then show ?thesis using q i1 Suc.prems by auto
  next
    case Panic
    then show ?thesis using q i1 Suc.prems by auto
  qed
qed simp

section \<open>A small store\<close>

definition demo_frame :: "bytes \<Rightarrow> bytes" where
  "demo_frame b = to_le_bytes (len64 b) @ pad20 b @ b"

definition demo_disk :: fsys where
  "demo_disk = \<lparr>fs_files = [[''s'', ''chunks'', ce_hex std_env (demo_hash [1, 2, 3, 4])] \<mapsto> demo_frame [1, 2, 3, 4],
      [''s'', ''chunks'', ce_hex std_env (demo_hash [5, 6, 7])] \<mapsto> demo_frame [5, 6, 7]],
    fs_faults = []\<rparr>"

definition demo_ctx :: store_ctx where
  "demo_ctx = \<lparr>cx_store = depot_root_new [''s''] 7, cx_app_id = 1, cx_depot_id = 1,
     cx_manifest = demo_manifest, cx_chunks_root = [''s'', ''chunks''], cx_present_files = [1]\<rparr>"

lemma demo_frame_decode:
  assumes "length b \<le> 20"
  shows "decode_frame std_env (demo_frame b) = Some (demo_hash b, b)"
proof -
  have "encode_frame_as std_env b (pad20 b) = Ok (demo_frame b)"
    by (simp add: encode_frame_as_def std_env_def demo_frame_def)
  from decode_encode_as [OF this] show ?thesis
    using assms std_env_ok by (simp add: env_ok_def pad20_def demo_hash_def MAX_PLAIN_LEN_def)
qed

lemma std_hex_inject: "ce_hex std_env h = ce_hex std_env k \<longleftrightarrow> h = k"
  using std_env_ok by (auto simp: env_ok_def hex_ok_def inj_def)

lemma demo_disk_files:
  "fs_files demo_disk ([''s'', ''chunks''] @ [ce_hex std_env h]) =
     (if h = demo_hash [5, 6, 7] then Some (demo_frame [5, 6, 7])
      else if h = demo_hash [1, 2, 3, 4] then Some (demo_frame [1, 2, 3, 4]) else None)"
  by (simp add: demo_disk_def std_hex_inject)

lemma demo_disk_sound: "disk_sound std_env [''s'', ''chunks''] demo_plain demo_disk"
  using demo_frame_decode [of "[5, 6, 7]"] demo_frame_decode [of "[1, 2, 3, 4]"]
  unfolding disk_sound_def demo_disk_files by (auto split: if_splits)

lemma demo_stored:
  assumes "h \<in> {demo_hash [1, 2, 3, 4], demo_hash [5, 6, 7]}"
  shows "stored std_env [''s'', ''chunks''] demo_plain h demo_disk"
proof -
  have "decode_frame std_env (demo_frame (demo_plain h)) = Some (h, demo_plain h)"
    using assms demo_frame_decode [of "[5, 6, 7]"] demo_frame_decode [of "[1, 2, 3, 4]"] by auto
  moreover have "fs_files demo_disk ([''s'', ''chunks''] @ [ce_hex std_env h]) = Some (demo_frame (demo_plain h))"
    using assms demo_hash_ne unfolding demo_disk_files by auto
  ultimately show ?thesis unfolding stored_def by blast
qed

lemma demo_bulk: "bulk_files std_depot_api demo_ctx = [demo_file]"
  by (simp add: bulk_files_def demo_ctx_def demo_manifest_def demo_file_def demo_dir_def
      std_depot_api_def BULK_BUDGET_def)

lemma demo_readable: "readable demo_plain std_depot_api demo_manifest demo_file"
  using demo_files demo_file_ok by (simp add: readable_def)

lemma demo_root: "cx_chunks_root demo_ctx = [''s'', ''chunks'']" "cx_manifest demo_ctx = demo_manifest"
  by (simp_all add: demo_ctx_def)

section \<open>Properties\<close>

abbreviation size_sum :: "depot_file list \<Rightarrow> nat" where
  "size_sum fs \<equiv> (\<Sum>f \<leftarrow> fs. unat (f_size f))"

lemma take_budget_prefix:
  assumes "list_all (\<lambda>f. f_size f < 2 ^ 63) fs" and "unat used < 2 ^ 63"
  shows "\<exists>k \<le> length fs. take_budget used fs = take k fs \<and>
    (\<forall>j < k. unat used + size_sum (take j fs) < unat BULK_BUDGET) \<and>
    (k < length fs \<longrightarrow> unat BULK_BUDGET \<le> unat used + size_sum (take k fs))"
  using assms
proof (induction fs arbitrary: used)
  case (Cons f fs)
  show ?case
  proof (cases "used < BULK_BUDGET")
    case False
    then show ?thesis by (intro exI [of _ 0]) (simp add: word_less_nat_alt)
  next
    case True
    have b: "unat BULK_BUDGET = 2 ^ 29" by (simp add: BULK_BUDGET_def)
    have s: "unat (f_size f) < 2 ^ 63" using Cons.prems(1) by (simp add: word_less_nat_alt)
    have u: "unat used < 2 ^ 29" using True b by (simp add: word_less_nat_alt)
    have a: "unat (used + f_size f) = unat used + unat (f_size f)"
      using s u by (simp add: unat_plus_fits)
    show ?thesis
    proof (cases "unat (used + f_size f) < 2 ^ 63")
      case True
      have "list_all (\<lambda>f. f_size f < 2 ^ 63) fs" using Cons.prems(1) by simp
      from Cons.IH [OF this True] obtain k where k: "k \<le> length fs"
        "take_budget (used + f_size f) fs = take k fs"
        "\<forall>j < k. unat (used + f_size f) + size_sum (take j fs) < unat BULK_BUDGET"
        "k < length fs \<longrightarrow> unat BULK_BUDGET \<le>
           unat (used + f_size f) + size_sum (take k fs)" by blast
      have "\<forall>j < Suc k. unat used + size_sum (take j (f # fs)) < unat BULK_BUDGET"
      proof (intro allI impI)
        fix j assume "j < Suc k"
        then show "unat used + size_sum (take j (f # fs)) < unat BULK_BUDGET"
          using k(3) u b a by (cases j) auto
      qed
      then show ?thesis using k \<open>used < BULK_BUDGET\<close> a by (intro exI [of _ "Suc k"]) (simp add: add.assoc)
    next
      case False
      have "\<not> used + f_size f < BULK_BUDGET" using False b by (simp add: word_less_nat_alt)
      then have "take_budget (used + f_size f) fs = []" by (cases fs) simp_all
      then show ?thesis using \<open>used < BULK_BUDGET\<close> u b a False by (intro exI [of _ 1]) simp
    qed
  qed
qed simp

text \<open>
  The bulk set: the regular files of the manifest that are not empty, largest first, up to and
  including the one with which their sizes reach the budget.
\<close>

theorem bulk_files_exact:
  assumes "\<forall>f \<in> set (m_files (cx_manifest ctx)). f_size f < 2 ^ 63"
  shows "\<exists>fs. mset fs = mset (filter (\<lambda>f. api_is_file api f \<and> 0 < f_size f) (m_files (cx_manifest ctx))) \<and>
    sorted (map (\<lambda>f. - uint (f_size f)) fs) \<and>
    (\<exists>k \<le> length fs. bulk_files api ctx = take k fs \<and>
      (\<forall>j < k. size_sum (take j fs) < 512 * 2 ^ 20) \<and>
      (k < length fs \<longrightarrow> 512 * 2 ^ 20 \<le> size_sum (take k fs)))"
proof -
  let ?fs = "sort_key (\<lambda>f. - uint (f_size f))
    (filter (\<lambda>f. api_is_file api f \<and> 0 < f_size f) (m_files (cx_manifest ctx)))"
  have "list_all (\<lambda>f. f_size f < 2 ^ 63) ?fs" using assms by (auto simp: list_all_iff)
  from take_budget_prefix [OF this, of 0] obtain k where "k \<le> length ?fs" "bulk_files api ctx = take k ?fs"
    "\<forall>j < k. size_sum (take j ?fs) < 512 * 2 ^ 20"
    "k < length ?fs \<longrightarrow> 512 * 2 ^ 20 \<le> size_sum (take k ?fs)"
    by (auto simp: bulk_files_def BULK_BUDGET_def)
  moreover have "mset ?fs = mset (filter (\<lambda>f. api_is_file api f \<and> 0 < f_size f) (m_files (cx_manifest ctx)))"
    by simp
  moreover have "sorted (map (\<lambda>f. - uint (f_size f)) ?fs)" by (rule sorted_sort_key)
  ultimately show ?thesis by blast
qed

theorem bulk_files_exact_witness:
  "\<exists>fs. mset fs = {#demo_file#} \<and> (\<exists>k \<le> length fs. bulk_files std_depot_api demo_ctx = take k fs)"
proof -
  have "\<forall>f \<in> set (m_files (cx_manifest demo_ctx)). f_size f < 2 ^ 63"
    by (simp add: demo_root demo_manifest_def demo_file_def demo_dir_def)
  moreover have "filter (\<lambda>f. api_is_file std_depot_api f \<and> 0 < f_size f) (m_files (cx_manifest demo_ctx)) = [demo_file]"
    by (simp add: demo_root demo_manifest_def demo_file_def demo_dir_def std_depot_api_def)
  ultimately show ?thesis using bulk_files_exact [of demo_ctx std_depot_api] by auto
qed

text \<open>
  C24: What the streaming tool reads is right or an error.  Whatever fails on the disk, as long as no
  file of the store decodes to another chunk's bytes, the tool ends, and if it succeeds every pass
  has put each file of the bulk set together out of windows of at most 8 MiB.
\<close>

theorem store_stream_exact:
  assumes "env_ok env" and "disk_sound env (cx_chunks_root ctx) plain fs"
    and "\<forall>f \<in> set (bulk_files api ctx). readable plain api (cx_manifest ctx) f \<and>
      unat (f_size f) \<le> n * (8 * 2 ^ 20)"
  shows "\<exists>r fs'. store_stream (Suc n) env api ctx passes fs = Some (r, fs') \<and>
    (\<forall>out. r = Ok out \<longrightarrow> length out = passes \<and> list_all (windows_ok plain api (bulk_files api ctx)) out)"
proof -
  let ?files = "bulk_files api ctx" and ?dir = "chunk_dir_new (cx_chunks_root ctx)"
  let ?st = "depot_store_new (cx_manifest ctx) (fs_cache_store env ?dir (missing_chunks env))"
  let ?I = "cache_ready env ?dir (missing_chunks env) (\<lambda>_. True) plain"
  obtain q fs1 where q: "require_complete env api ctx ?files fs = (q, fs1)" by fastforce
  note q' = require_complete_files [OF q]
  show ?thesis
  proof (cases q)
    case (Ok u)
    have "disk_sound env (cx_chunks_root ctx) plain fs1" using assms(2) q'(1) by (simp add: disk_sound_def)
    note i = fresh_ready [OF assms(1) this]
    have e: "stream_files (Suc n) api ?st ?files w \<noteq> None" for w
      using assms(3) by (intro stream_files_ends) (simp add: list_all_iff WINDOW_def)
    have rd: "list_all (readable plain api (cx_manifest ctx)) ?files"
      using assms(3) by (simp add: list_all_iff)
    have step: "\<forall>w r w'. ?I w \<longrightarrow> stream_files (Suc n) api ?st ?files w = Some (r, w') \<longrightarrow>
        ?I w' \<and> (\<forall>a. r = Ok a \<longrightarrow> windows_ok plain api ?files a)"
      using stream_files_sound [OF rd] by blast
    from passes_loop_all [where I = ?I and P = "windows_ok plain api ?files" and n = passes
        and pass = "stream_files (Suc n) api ?st ?files", OF i _ step] e
    obtain r w where "passes_loop passes (stream_files (Suc n) api ?st ?files)
        (cache_start env (snd (fs_create_dir_all (cx_chunks_root ctx) fs1)) ()) = Some (r, w)"
      "\<forall>as. r = Ok as \<longrightarrow> length as = passes \<and> list_all (windows_ok plain api ?files) as"
      by blast
    then show ?thesis using q Ok
      by (auto simp: store_stream_def over_bulk_set_def fresh_snapshot_eq Let_def)
  qed (use q q'(2) in \<open>auto simp: store_stream_def over_bulk_set_def Let_def\<close>)
qed

theorem store_stream_exact_witness:
  "\<exists>r fs'. store_stream 2 std_env std_depot_api demo_ctx 3 demo_disk = Some (r, fs') \<and>
    (\<forall>out. r = Ok out \<longrightarrow> length out = 3 \<and>
      list_all (windows_ok demo_plain std_depot_api [demo_file]) out)"
proof -
  have "unat (f_size demo_file) \<le> 1 * (8 * 2 ^ 20)" by (simp add: demo_file_def)
  then show ?thesis
    using store_stream_exact [OF std_env_ok, of demo_ctx demo_plain demo_disk std_depot_api 1 3]
      demo_disk_sound demo_readable by (simp add: demo_bulk demo_root numeral_2_eq_2)
qed

text \<open>
  A complete store needs no network.  When the disk works and holds a good frame for every chunk
  of the bulk set, streaming it succeeds, any number of times, over the store that refuses to
  fetch, and delivers every file exactly.
\<close>

lemma complete_store_streams:
  assumes "env_ok env" and "disk_sound env (cx_chunks_root ctx) plain fs" and "fs_faults fs = []"
    and "\<forall>f \<in> set (bulk_files api ctx). readable plain api (cx_manifest ctx) f \<and>
      f_size f < 2 ^ 63 \<and> unat (f_size f) \<le> n * (8 * 2 ^ 20) \<and>
      (\<forall>c \<in> set (api_chunks api f). stored env (cx_chunks_root ctx) plain (c_sha c) fs)"
  shows "\<exists>out fs'. store_stream (Suc n) env api ctx passes fs = Some (Ok out, fs') \<and>
    length out = passes \<and> list_all (windows_ok plain api (bulk_files api ctx)) out"
proof -
  let ?files = "bulk_files api ctx" and ?dir = "chunk_dir_new (cx_chunks_root ctx)"
  let ?avail = "c_sha ` set (chunks_of_files api ?files)"
  let ?st = "depot_store_new (cx_manifest ctx) (fs_cache_store env ?dir (missing_chunks env))"
  let ?I = "offline_ready env ?dir plain ?avail"
  have av: "\<forall>h \<in> ?avail. stored env (cx_chunks_root ctx) plain h fs" using assms(4) by auto
  then have q: "require_complete env api ctx ?files fs = (Ok (), fs)"
    unfolding require_complete_quiet [OF assms(3)] by (fastforce simp: stored_def)
  note i = fresh_offline [OF assms(1,2,3) av]
  have e: "stream_files (Suc n) api ?st ?files w \<noteq> None" for w
    using assms(4) by (intro stream_files_ends) (simp add: list_all_iff WINDOW_def)
  have rd: "list_all (readable plain api (cx_manifest ctx)) ?files"
    "list_all (\<lambda>f. readable plain api (cx_manifest ctx) f \<and> f_size f < 2 ^ 63 \<and>
      c_sha ` set (api_chunks api f) \<subseteq> ?avail) ?files"
    using assms(4) by (auto simp: list_all_iff)
  have step: "\<forall>w r w'. ?I w \<longrightarrow> stream_files (Suc n) api ?st ?files w = Some (r, w') \<longrightarrow>
      ?I w' \<and> (\<forall>a. r = Ok a \<longrightarrow> windows_ok plain api ?files a)"
    using stream_files_offline [OF rd(2)] stream_files_sound [OF rd(1) offline_ready_cache] by blast
  have "\<forall>s r s'. ?I s \<longrightarrow> stream_files (Suc n) api ?st ?files s = Some (r, s') \<longrightarrow> is_ok r"
    using stream_files_offline [OF rd(2)] by blast
  then obtain r w where "passes_loop passes (stream_files (Suc n) api ?st ?files)
      (cache_start env (snd (fs_create_dir_all (cx_chunks_root ctx) fs)) ()) = Some (r, w)" "is_ok r"
    "\<forall>as. r = Ok as \<longrightarrow> length as = passes \<and> list_all (windows_ok plain api ?files) as"
    using passes_loop_all [where I = ?I and P = "windows_ok plain api ?files" and n = passes
          and pass = "stream_files (Suc n) api ?st ?files", OF i _ step] e
    by blast
  then show ?thesis using q
    by (auto simp: store_stream_def over_bulk_set_def fresh_snapshot_eq Let_def is_ok_iff)
qed

end
