(* ===== verification/Store_Fill.thy ===== *)
theory Store_Fill
  imports Store_Tools
begin

text \<open>
  \<open>examples/store_prefetch.rs\<close>: filling the store for the offline tools of \<open>Store_Tools\<close> through the
  fetching store, thirty-two chunks at a time.

  The main loop and the tasks it spawns interleave: a run is a list of events, each naming who
  runs next.  A task's \<open>ensure\<close> is one event; how two of them interleave inside the cache is
  \<open>Single_Flight\<close>.  The login before the loop is \<open>Login\<close>, opening the manifest \<open>Steam_Store\<close>.

  The interface \<open>chunk_filler\<close> is what the loop relies on: an \<open>ensure\<close> that succeeds leaves the
  chunk there, and none takes another away.
\<close>

section \<open>What is to be fetched\<close>

definition PINNED_FILE :: string where
  "PINNED_FILE = ''Hollow Knight Silksong_Data/StreamingAssets/aa/StandaloneWindows64/tk2dcollections_assets_areacoral.bundle''"

definition prefetch_targets :: "depot_api \<Rightarrow> store_ctx \<Rightarrow> (tool_error, depot_file list) outcome" where
  "prefetch_targets api ctx =
     omap (\<lambda>f. bulk_files api ctx @ [f]) (manifest_file ctx PINNED_FILE)"

definition prefetch_missing ::
  "'l chunk_env \<Rightarrow> depot_api \<Rightarrow> store_ctx \<Rightarrow> fsys \<Rightarrow> (tool_error, chunk list) outcome \<times> fsys" where
  "prefetch_missing env api ctx fs =
     (case prefetch_targets api ctx of
        Err e \<Rightarrow> (Err e, fs)
      | Panic \<Rightarrow> (Panic, fs)
      | Ok targets \<Rightarrow>
          (case missing_of env api (cx_chunks_root ctx) targets fs of
             (r, fs1) \<Rightarrow> (omap_err ToolIo r, fs1)))"

section \<open>The waves\<close>

definition IN_FLIGHT :: nat where
  "IN_FLIGHT = 32"

text \<open>
  Where the main loop stands: about to take a permit and spawn the next task, waiting while the
  set of tasks is full, draining what is left, or at an end.  A task that panics is a join error
  while spawning, which ends the tool with an error, and a panic while draining.
\<close>

datatype fill_pc = FillSpawn | FillWait | FillDrain | FillDone
  | FillFailed vfs_error | FillJoinError | FillPanicked

record fill =
  fi_pc :: fill_pc
  fi_next :: nat
  fi_running :: "chunk_hash list"
  fi_finished :: "(vfs_error, unit) outcome list"
  fi_reports :: "nat list"

definition fill_start :: fill where
  "fill_start = \<lparr>fi_pc = FillSpawn, fi_next = 0, fi_running = [], fi_finished = [], fi_reports = []\<rparr>"

definition joins_len :: "fill \<Rightarrow> nat" where
  "joins_len s = length (fi_running s) + length (fi_finished s)"

text \<open>
  \<open>report\<close>: a line is due for every thirty-second completion, at the end, and when the last one
  is long ago.  It sums a slice of the list, which panics when it is out of range: \<open>None\<close>.
\<close>

definition report_progress :: "bool \<Rightarrow> nat \<Rightarrow> chunk list \<Rightarrow> u64 option option" where
  "report_progress late n missing =
     (if n \<noteq> length missing \<and> n mod 32 \<noteq> 0 \<and> \<not> late then Some None
      else if n \<le> length missing then
        Some (Some (sum_list (map (\<lambda>c. ucast (c_size_compressed c)) (take n missing))))
      else None)"

text \<open>One task was joined; \<open>n\<close> is the number of completions, or none if the subtraction underflows.\<close>

definition fill_joined ::
  "bool \<Rightarrow> chunk list \<Rightarrow> fill_pc \<Rightarrow> (vfs_error, unit) outcome \<Rightarrow> nat option \<Rightarrow> fill \<Rightarrow> fill" where
  "fill_joined late missing panicked r n s =
     (case r of
        Err e \<Rightarrow> s\<lparr>fi_pc := FillFailed e\<rparr>
      | Panic \<Rightarrow> s\<lparr>fi_pc := panicked\<rparr>
      | Ok _ \<Rightarrow>
          (case Option.bind n (\<lambda>k. map_option (\<lambda>_. k) (report_progress late k missing)) of
             None \<Rightarrow> s\<lparr>fi_pc := FillPanicked\<rparr>
           | Some k \<Rightarrow> s\<lparr>fi_reports := fi_reports s @ [k]\<rparr>))"

text \<open>One step of the main loop, \<open>None\<close> where it has to wait or has ended.\<close>

definition fill_main :: "bool \<Rightarrow> chunk list \<Rightarrow> fill \<Rightarrow> fill option" where
  "fill_main late missing s =
     (case fi_pc s of
        FillSpawn \<Rightarrow>
          (case get_at missing (fi_next s) of
             None \<Rightarrow> Some (s\<lparr>fi_pc := FillDrain\<rparr>)
           | Some c \<Rightarrow>
               if length (fi_running s) < IN_FLIGHT then
                 Some (s\<lparr>fi_running := fi_running s @ [c_sha c], fi_next := Suc (fi_next s),
                         fi_pc := FillWait\<rparr>)
               else None)
      | FillWait \<Rightarrow>
          if joins_len s \<ge> IN_FLIGHT then
            (case fi_finished s of
               [] \<Rightarrow> None
             | r # rs \<Rightarrow>
                 (let s1 = s\<lparr>fi_finished := rs\<rparr>
                  in Some (fill_joined late missing FillJoinError r
                       (checked_sub (fi_next s) (joins_len s1)) s1)))
          else Some (s\<lparr>fi_pc := FillSpawn\<rparr>)
      | FillDrain \<Rightarrow>
          (case fi_finished s of
             [] \<Rightarrow> if fi_running s = [] then Some (s\<lparr>fi_pc := FillDone\<rparr>) else None
           | r # rs \<Rightarrow>
               (let s1 = s\<lparr>fi_finished := rs\<rparr>
                in Some (fill_joined late missing FillPanicked r
                     (checked_sub (length missing) (joins_len s1)) s1)))
      | _ \<Rightarrow> None)"

definition fill_ended :: "fill \<Rightarrow> bool" where
  "fill_ended s \<longleftrightarrow> fi_pc s \<notin> {FillSpawn, FillWait, FillDrain}"

text \<open>
  The scheduler picks who runs: the main loop, or one of the tasks, whose \<open>ensure\<close> then runs to
  its end and gives the permit back.  When the tool has ended the set is dropped and its tasks
  are aborted.
\<close>

datatype fill_event = MainRuns bool | TaskEnds nat

definition fill_step ::
  "'s chunk_store \<Rightarrow> chunk list \<Rightarrow> fill_event \<Rightarrow> fill \<times> 's \<Rightarrow> (fill \<times> 's) option" where
  "fill_step ch missing ev sw =
     (case sw of (s, w) \<Rightarrow>
        (case ev of
           MainRuns late \<Rightarrow> map_option (\<lambda>s'. (s', w)) (fill_main late missing s)
         | TaskEnds j \<Rightarrow>
             if fill_ended s then None
             else
               (case get_at (fi_running s) j of
                  None \<Rightarrow> None
                | Some h \<Rightarrow>
                    (case cs_ensure ch h w of (r, w') \<Rightarrow>
                       Some (s\<lparr>fi_running := take j (fi_running s) @ drop (Suc j) (fi_running s),
                               fi_finished := fi_finished s @ [r]\<rparr>, w')))))"

fun fill_run :: "'s chunk_store \<Rightarrow> chunk list \<Rightarrow> fill_event list \<Rightarrow> fill \<times> 's \<Rightarrow> (fill \<times> 's) option" where
  "fill_run ch missing [] sw = Some sw"
| "fill_run ch missing (ev # evs) sw =
     (case fill_step ch missing ev sw of None \<Rightarrow> None | Some sw' \<Rightarrow> fill_run ch missing evs sw')"

section \<open>Accounting\<close>

definition fill_inv :: "chunk list \<Rightarrow> fill \<Rightarrow> bool" where
  "fill_inv missing s \<longleftrightarrow>
     fi_next s \<le> length missing \<and> joins_len s \<le> fi_next s \<and> joins_len s \<le> IN_FLIGHT \<and>
     (fi_pc s = FillSpawn \<longrightarrow> joins_len s < IN_FLIGHT) \<and>
     (fi_pc s \<in> {FillDrain, FillDone} \<longrightarrow> fi_next s = length missing) \<and>
     (fi_pc s = FillDone \<longrightarrow> fi_running s = [] \<and> fi_finished s = []) \<and>
     list_all (\<lambda>n. n \<le> length missing) (fi_reports s)"

definition fill_weight :: "chunk list \<Rightarrow> fill \<Rightarrow> nat" where
  "fill_weight missing s =
     6 * (length missing - fi_next s) + 3 * length (fi_running s) + 2 * length (fi_finished s) +
     (case fi_pc s of FillWait \<Rightarrow> 3 | FillSpawn \<Rightarrow> 2 | FillDrain \<Rightarrow> 1 | _ \<Rightarrow> 0)"

lemma fill_start_inv: "fill_inv missing fill_start"
  by (simp add: fill_inv_def fill_start_def joins_len_def IN_FLIGHT_def)

lemma report_progress_Some: "n \<le> length missing \<Longrightarrow> \<exists>x. report_progress late n missing = Some x"
  by (simp add: report_progress_def)

lemma fill_joined_inv:
  assumes "fill_inv missing s" and "fi_finished s = r # rs" and "fi_pc s \<in> {FillWait, FillDrain}"
    and "k \<le> length missing" and "p \<in> {FillJoinError, FillPanicked}"
  shows "fill_inv missing (fill_joined late missing p r (Some k) (s\<lparr>fi_finished := rs\<rparr>))"
    and "fill_weight missing (fill_joined late missing p r (Some k) (s\<lparr>fi_finished := rs\<rparr>)) <
      fill_weight missing s"
    and "r \<noteq> Panic \<Longrightarrow> fi_pc (fill_joined late missing p r (Some k) (s\<lparr>fi_finished := rs\<rparr>)) \<in>
      {fi_pc s} \<union> range FillFailed"
proof -
  obtain x where x: "report_progress late k missing = Some x"
    using report_progress_Some [OF assms(4)] by blast
  let ?s1 = "s\<lparr>fi_finished := rs\<rparr>"
  have j: "fill_joined late missing p r (Some k) ?s1 =
      (case r of Ok _ \<Rightarrow> ?s1\<lparr>fi_reports := fi_reports s @ [k]\<rparr>
       | Err e \<Rightarrow> ?s1\<lparr>fi_pc := FillFailed e\<rparr> | Panic \<Rightarrow> ?s1\<lparr>fi_pc := p\<rparr>)"
    by (simp add: fill_joined_def x split: outcome.split)
  show "fill_inv missing (fill_joined late missing p r (Some k) ?s1)"
    unfolding j using assms by (cases r) (simp_all add: fill_inv_def joins_len_def, auto)
  show "fill_weight missing (fill_joined late missing p r (Some k) ?s1) < fill_weight missing s"
    unfolding j using assms(2,3,5) by (cases r) (auto simp: fill_weight_def)
  show "r \<noteq> Panic \<Longrightarrow> fi_pc (fill_joined late missing p r (Some k) ?s1) \<in> {fi_pc s} \<union> range FillFailed"
    unfolding j by (cases r) auto
qed

lemma fill_main_inv:
  assumes "fill_inv missing s" and "fill_main late missing s = Some s'"
  shows "fill_inv missing s'" and "fill_weight missing s' < fill_weight missing s"
proof -
  have "fill_inv missing s' \<and> fill_weight missing s' < fill_weight missing s"
  proof (cases "fi_pc s")
    case FillSpawn
    then show ?thesis using assms
      by (auto simp: fill_main_def fill_inv_def fill_weight_def joins_len_def get_at_def
          split: option.splits if_splits)
  next
    case FillWait
    show ?thesis
    proof (cases "joins_len s \<ge> IN_FLIGHT")
      case True
      then obtain r rs where f: "fi_finished s = r # rs"
        and s': "s' = fill_joined late missing FillJoinError r
          (checked_sub (fi_next s) (joins_len (s\<lparr>fi_finished := rs\<rparr>))) (s\<lparr>fi_finished := rs\<rparr>)"
        using assms(2) FillWait by (auto simp: fill_main_def Let_def split: list.splits)
      have "checked_sub (fi_next s) (joins_len (s\<lparr>fi_finished := rs\<rparr>)) =
          Some (fi_next s - joins_len (s\<lparr>fi_finished := rs\<rparr>))"
        using assms(1) f by (simp add: checked_sub_def fill_inv_def joins_len_def)
      moreover have "fi_next s - joins_len (s\<lparr>fi_finished := rs\<rparr>) \<le> length missing"
        using assms(1) unfolding fill_inv_def by linarith
      ultimately show ?thesis using fill_joined_inv(1,2) [OF assms(1) f] FillWait s' by simp
    next
      case False
      then have "s' = s\<lparr>fi_pc := FillSpawn\<rparr>" using assms(2) FillWait by (simp add: fill_main_def)
      then show ?thesis using assms(1) FillWait False
        by (simp add: fill_inv_def fill_weight_def joins_len_def)
    qed
  next
    case FillDrain
    show ?thesis
    proof (cases "fi_finished s")
      case Nil
      then show ?thesis using assms FillDrain
        by (auto simp: fill_main_def fill_inv_def fill_weight_def joins_len_def split: if_splits)
    next
      case f: (Cons r rs)
      have "checked_sub (length missing) (joins_len (s\<lparr>fi_finished := rs\<rparr>)) =
          Some (length missing - joins_len (s\<lparr>fi_finished := rs\<rparr>))"
        using assms(1) f by (simp add: checked_sub_def fill_inv_def joins_len_def)
      then show ?thesis using fill_joined_inv(1,2) [OF assms(1) f] FillDrain assms(2) f
        by (auto simp: fill_main_def Let_def)
    qed
  qed (use assms in \<open>simp_all add: fill_main_def\<close>)
  then show "fill_inv missing s'" "fill_weight missing s' < fill_weight missing s" by auto
qed

lemma fill_step_inv:
  assumes "fill_inv missing s" and "fill_step ch missing ev (s, w) = Some (s', w')"
  shows "fill_inv missing s'" and "fill_weight missing s' < fill_weight missing s"
proof -
  have "fill_inv missing s' \<and> fill_weight missing s' < fill_weight missing s"
  proof (cases ev)
    case (MainRuns late)
    then show ?thesis using assms fill_main_inv by (auto simp: fill_step_def)
  next
    case (TaskEnds j)
    then obtain h r where j: "j < length (fi_running s)" and e: "\<not> fill_ended s"
      and s': "s' = s\<lparr>fi_running := take j (fi_running s) @ drop (Suc j) (fi_running s),
        fi_finished := fi_finished s @ [r]\<rparr>"
      using assms(2) by (auto simp: fill_step_def get_at_def split: if_splits option.splits prod.splits)
    have l: "Suc (length (fi_running s')) = length (fi_running s)"
      "length (fi_finished s') = Suc (length (fi_finished s))" using j s' by auto
    moreover have "fi_pc s' = fi_pc s" "fi_next s' = fi_next s" "fi_reports s' = fi_reports s"
      using s' by simp_all
    moreover have "joins_len s' = joins_len s" using l by (simp add: joins_len_def)
    moreover have "fi_pc s \<noteq> FillDone" using e by (auto simp: fill_ended_def)
    ultimately show ?thesis using assms(1) by (simp add: fill_inv_def fill_weight_def)
  qed
  then show "fill_inv missing s'" "fill_weight missing s' < fill_weight missing s" by auto
qed

lemma fill_run_inv:
  assumes "fill_inv missing s" and "fill_run ch missing evs (s, w) = Some (s', w')"
  shows "fill_inv missing s' \<and> length evs + fill_weight missing s' \<le> fill_weight missing s"
  using assms
proof (induction evs arbitrary: s w)
  case (Cons ev evs)
  obtain s1 w1 where st: "fill_step ch missing ev (s, w) = Some (s1, w1)"
    and rest: "fill_run ch missing evs (s1, w1) = Some (s', w')"
    using Cons.prems(2) by (auto split: option.splits)
  note i = fill_step_inv [OF Cons.prems(1) st]
  show ?case using Cons.IH [OF i(1) rest] i(2) by simp
qed simp

text \<open>Nobody waits for ever: as long as the tool has not ended, someone can run.\<close>

lemma fill_progress:
  assumes "fill_inv missing s" and "\<not> fill_ended s"
  shows "\<exists>ev. fill_step ch missing ev (s, w) \<noteq> None"
proof (cases "fi_running s = []")
  case True
  then have "fill_main True missing s \<noteq> None"
    using assms by (auto simp: fill_main_def fill_ended_def fill_inv_def joins_len_def IN_FLIGHT_def
        Let_def split: option.split list.split)
  then show ?thesis by (intro exI [of _ "MainRuns True"]) (auto simp: fill_step_def)
next
  case False
  then show ?thesis using assms(2)
    by (intro exI [of _ "TaskEnds 0"]) (auto simp: fill_step_def get_at_def split: prod.split)
qed

section \<open>The contract of an ensuring store\<close>

locale chunk_filler =
  fixes ensure :: "chunk_hash \<Rightarrow> 's \<Rightarrow> (vfs_error, unit) outcome \<times> 's"
    and inv :: "'s \<Rightarrow> bool" and there :: "chunk_hash \<Rightarrow> 's \<Rightarrow> bool" and want :: "chunk_hash set"
  assumes ensure_inv: "inv w \<Longrightarrow> h \<in> want \<Longrightarrow> ensure h w = (r, w') \<Longrightarrow> inv w'"
    and ensure_there: "inv w \<Longrightarrow> h \<in> want \<Longrightarrow> ensure h w = (Ok (), w') \<Longrightarrow> there h w'"
    and ensure_keeps: "inv w \<Longrightarrow> h \<in> want \<Longrightarrow> ensure h w = (r, w') \<Longrightarrow> there k w \<Longrightarrow> there k w'"
begin

definition tracks :: "chunk list \<Rightarrow> fill \<Rightarrow> 's \<Rightarrow> bool" where
  "tracks missing s w \<longleftrightarrow>
     inv w \<and> set (fi_running s) \<subseteq> want \<and>
     (fi_pc s \<in> {FillSpawn, FillWait, FillDrain, FillDone} \<longrightarrow>
       (\<forall>i < fi_next s. c_sha (missing ! i) \<in> set (fi_running s) \<or> there (c_sha (missing ! i)) w \<or>
          (\<exists>r \<in> set (fi_finished s). r \<noteq> Ok ())))"

lemma tracks_joined:
  assumes "tracks missing s w" and "fi_finished s = r # rs" and "fi_pc s \<in> {FillWait, FillDrain}"
    and "p \<in> {FillJoinError, FillPanicked}"
  shows "tracks missing (fill_joined late missing p r n (s\<lparr>fi_finished := rs\<rparr>)) w"
  using assms by (cases r) (auto simp: tracks_def fill_joined_def split: option.split)

lemma tracks_main:
  assumes "tracks missing s w" and "c_sha ` set missing \<subseteq> want" and "fill_main late missing s = Some s'"
  shows "tracks missing s' w"
proof (cases "fi_pc s")
  case FillSpawn
  show ?thesis
  proof (cases "get_at missing (fi_next s)")
    case None
    then have "s' = s\<lparr>fi_pc := FillDrain\<rparr>" using assms(3) FillSpawn by (simp add: fill_main_def)
    then show ?thesis using assms(1) FillSpawn by (simp add: tracks_def)
  next
    case (Some c)
    then have s': "s' = s\<lparr>fi_running := fi_running s @ [c_sha c], fi_next := Suc (fi_next s), fi_pc := FillWait\<rparr>"
      using assms(3) FillSpawn by (simp add: fill_main_def split: if_splits)
    have c: "missing ! fi_next s = c" "c \<in> set missing"
      using Some by (auto simp: get_at_Some_iff)
    then have "c_sha c \<in> want" using assms(2) by auto
    then show ?thesis using assms(1) FillSpawn c
      by (auto simp: s' tracks_def less_Suc_eq)
  qed
next
  case FillWait
  show ?thesis
  proof (cases "joins_len s \<ge> IN_FLIGHT")
    case True
    then obtain r rs n where "fi_finished s = r # rs"
      "s' = fill_joined late missing FillJoinError r n (s\<lparr>fi_finished := rs\<rparr>)"
      using assms(3) FillWait by (auto simp: fill_main_def Let_def split: list.splits)
    then show ?thesis using tracks_joined [OF assms(1)] FillWait by simp
  next
    case False
    then have "s' = s\<lparr>fi_pc := FillSpawn\<rparr>" using assms(3) FillWait by (simp add: fill_main_def)
    then show ?thesis using assms(1) FillWait by (simp add: tracks_def)
  qed
next
  case FillDrain
  show ?thesis
  proof (cases "fi_finished s")
    case Nil
    then have "s' = s\<lparr>fi_pc := FillDone\<rparr>"
      using assms(3) FillDrain by (simp add: fill_main_def split: if_splits)
    then show ?thesis using assms(1) FillDrain by (simp add: tracks_def)
  next
    case (Cons r rs)
    then obtain n where "s' = fill_joined late missing FillPanicked r n (s\<lparr>fi_finished := rs\<rparr>)"
      using assms(3) FillDrain by (auto simp: fill_main_def Let_def)
    then show ?thesis using tracks_joined [OF assms(1) Cons] FillDrain by simp
  qed
qed (use assms(3) in \<open>simp_all add: fill_main_def\<close>)

lemma tracks_step:
  assumes "tracks missing s w" and "c_sha ` set missing \<subseteq> want"
    and "cs_ensure ch = ensure" and "fill_step ch missing ev (s, w) = Some (s', w')"
  shows "tracks missing s' w'"
proof (cases ev)
  case (MainRuns late)
  then show ?thesis using assms(4) tracks_main [OF assms(1,2)] by (auto simp: fill_step_def)
next
  case (TaskEnds j)
  then obtain h r where j: "j < length (fi_running s)" "fi_running s ! j = h"
    and r: "ensure h w = (r, w')"
    and s': "s' = s\<lparr>fi_running := take j (fi_running s) @ drop (Suc j) (fi_running s),
        fi_finished := fi_finished s @ [r]\<rparr>"
    using assms(3,4)
    by (auto simp: fill_step_def get_at_Some_iff split: if_splits option.splits prod.splits)
  have i: "inv w" and h: "h \<in> want" using assms(1) j nth_mem [of j "fi_running s"] by (auto simp: tracks_def)
  note e = ensure_inv [OF i h r] ensure_keeps [OF i h r]
  have set: "set (fi_running s) \<subseteq> insert h (set (fi_running s'))" "set (fi_running s') \<subseteq> set (fi_running s)"
    using j id_take_nth_drop [of j "fi_running s"] set_take_subset [of j "fi_running s"]
      set_drop_subset [of "Suc j" "fi_running s"] by (auto simp: s') (metis Un_iff list.set(2) insert_iff set_append)
  have here: "there h w' \<or> r \<noteq> Ok ()" using ensure_there [OF i h] r by blast
  show ?thesis unfolding tracks_def
  proof (intro conjI impI allI)
    show "inv w'" by (rule e(1))
    show "set (fi_running s') \<subseteq> want" using set(2) assms(1) by (auto simp: tracks_def)
    fix k assume "fi_pc s' \<in> {FillSpawn, FillWait, FillDrain, FillDone}" and k: "k < fi_next s'"
    then have "c_sha (missing ! k) \<in> set (fi_running s) \<or> there (c_sha (missing ! k)) w \<or>
        (\<exists>r \<in> set (fi_finished s). r \<noteq> Ok ())"
      using assms(1) by (simp add: tracks_def s')
    moreover have "set (fi_finished s') = insert r (set (fi_finished s))" by (simp add: s')
    ultimately show "c_sha (missing ! k) \<in> set (fi_running s') \<or> there (c_sha (missing ! k)) w' \<or>
        (\<exists>r \<in> set (fi_finished s'). r \<noteq> Ok ())"
      using set(1) here e(2) by (metis insertCI insertE subsetD)
  qed
qed

lemma fill_run_tracks:
  assumes "tracks missing s w" and "c_sha ` set missing \<subseteq> want"
    and "cs_ensure ch = ensure" and "fill_run ch missing evs (s, w) = Some (s', w')"
  shows "tracks missing s' w'"
  using assms(1,4)
proof (induction evs arbitrary: s w)
  case (Cons ev evs)
  obtain s1 w1 where st: "fill_step ch missing ev (s, w) = Some (s1, w1)"
    and rest: "fill_run ch missing evs (s1, w1) = Some (s', w')"
    using Cons.prems(2) by (auto split: option.splits)
  show ?case using Cons.IH [OF tracks_step [OF Cons.prems(1) assms(2,3) st] rest] .
qed simp

lemma fill_keeps:
  assumes "tracks missing s w" and "c_sha ` set missing \<subseteq> want"
    and "cs_ensure ch = ensure" and "fill_run ch missing evs (s, w) = Some (s', w')" and "there k w"
  shows "there k w'"
  using assms(1,4,5)
proof (induction evs arbitrary: s w)
  case (Cons ev evs)
  obtain s1 w1 where st: "fill_step ch missing ev (s, w) = Some (s1, w1)"
    and rest: "fill_run ch missing evs (s1, w1) = Some (s', w')"
    using Cons.prems(2) by (auto split: option.splits)
  have "there k w1"
  proof (cases ev)
    case (TaskEnds j)
    then obtain r where j: "j < length (fi_running s)" and r: "ensure (fi_running s ! j) w = (r, w1)"
      using st assms(3)
      by (auto simp: fill_step_def get_at_Some_iff split: if_splits option.splits prod.splits)
    have "fi_running s ! j \<in> want" using nth_mem [OF j] Cons.prems(1) by (auto simp: tracks_def)
    then show ?thesis using ensure_keeps [OF _ _ r Cons.prems(3)] Cons.prems(1) by (simp add: tracks_def)
  qed (use st Cons.prems(3) in \<open>auto simp: fill_step_def\<close>)
  from Cons.IH [OF tracks_step [OF Cons.prems(1) assms(2,3) st] rest this] show ?case .
qed simp

lemma tracks_start: "inv w \<Longrightarrow> tracks missing fill_start w"
  by (simp add: tracks_def fill_start_def)

text \<open>When the tool is through, every chunk it was to fetch is there.\<close>

lemma fill_done_there:
  assumes "inv w" and "c_sha ` set missing \<subseteq> want" and "cs_ensure ch = ensure"
    and "fill_run ch missing evs (fill_start, w) = Some (s', w')" and "fi_pc s' = FillDone"
  shows "inv w'" and "c \<in> set missing \<Longrightarrow> there (c_sha c) w'"
proof -
  note t = fill_run_tracks [OF tracks_start [OF assms(1)] assms(2-4)]
  then show "inv w'" by (simp add: tracks_def)
  assume "c \<in> set missing"
  then obtain i where "i < length missing" "missing ! i = c" by (auto simp: in_set_conv_nth)
  moreover have "fill_inv missing s'" using fill_run_inv [OF fill_start_inv assms(4)] by simp
  ultimately show "there (c_sha c) w'" using t assms(5) by (force simp: fill_inv_def tracks_def)
qed

end

text \<open>A store that never fails to ensure: then no run of the tool fails.\<close>

locale full_filler = chunk_filler ensure inv there want
  for ensure :: "chunk_hash \<Rightarrow> 's \<Rightarrow> (vfs_error, unit) outcome \<times> 's"
    and inv :: "'s \<Rightarrow> bool" and there :: "chunk_hash \<Rightarrow> 's \<Rightarrow> bool" and want :: "chunk_hash set" +
  assumes ensure_returns: "inv w \<Longrightarrow> h \<in> want \<Longrightarrow> is_ok (fst (ensure h w))"
begin

definition unfailed :: "chunk list \<Rightarrow> fill \<Rightarrow> bool" where
  "unfailed missing s \<longleftrightarrow> fill_inv missing s \<and> list_all is_ok (fi_finished s) \<and>
     fi_pc s \<in> {FillSpawn, FillWait, FillDrain, FillDone}"

lemma unfailed_main:
  assumes "unfailed missing s" and "fill_main late missing s = Some s'"
  shows "unfailed missing s'"
proof -
  have i: "fill_inv missing s" and ok: "list_all is_ok (fi_finished s)" using assms(1) by (simp_all add: unfailed_def)
  have joined: "list_all is_ok rs \<and> fi_pc (fill_joined late missing p r (Some k) (s\<lparr>fi_finished := rs\<rparr>)) = fi_pc s \<and>
      fi_finished (fill_joined late missing p r (Some k) (s\<lparr>fi_finished := rs\<rparr>)) = rs"
    if f: "fi_finished s = r # rs" and k: "k \<le> length missing" for r rs p k
  proof -
    obtain u where "r = Ok u" using ok f by (auto simp: is_ok_iff)
    moreover obtain x where "report_progress late k missing = Some x" using report_progress_Some [OF k] by blast
    ultimately show ?thesis using ok f by (simp add: fill_joined_def)
  qed
  have "list_all is_ok (fi_finished s') \<and> fi_pc s' \<in> {FillSpawn, FillWait, FillDrain, FillDone}"
  proof (cases "fi_finished s")
    case Nil
    then show ?thesis using assms
      by (auto simp: fill_main_def unfailed_def split: option.splits if_splits fill_pc.splits)
  next
    case f: (Cons r rs)
    let ?n = "fi_next s - joins_len (s\<lparr>fi_finished := rs\<rparr>)"
      and ?m = "length missing - joins_len (s\<lparr>fi_finished := rs\<rparr>)"
    have c: "checked_sub (fi_next s) (joins_len (s\<lparr>fi_finished := rs\<rparr>)) = Some ?n"
      "checked_sub (length missing) (joins_len (s\<lparr>fi_finished := rs\<rparr>)) = Some ?m"
      using i f by (simp_all add: checked_sub_def fill_inv_def joins_len_def)
    have "?n \<le> length missing" using i unfolding fill_inv_def by linarith
    note j = joined [OF f this] joined [OF f, of ?m]
    show ?thesis using assms(2) j ok f assms(1)
      by (auto simp: fill_main_def Let_def unfailed_def c split: option.splits if_splits fill_pc.splits)
  qed
  then show ?thesis using fill_main_inv(1) [OF i assms(2)] by (simp add: unfailed_def)
qed

lemma fill_run_unfailed:
  assumes "tracks missing s w" and "unfailed missing s" and "c_sha ` set missing \<subseteq> want"
    and "cs_ensure ch = ensure" and "fill_run ch missing evs (s, w) = Some (s', w')"
  shows "unfailed missing s'"
  using assms(1,2,5)
proof (induction evs arbitrary: s w)
  case (Cons ev evs)
  obtain s1 w1 where st: "fill_step ch missing ev (s, w) = Some (s1, w1)"
    and rest: "fill_run ch missing evs (s1, w1) = Some (s', w')"
    using Cons.prems(3) by (auto split: option.splits)
  have "unfailed missing s1"
  proof (cases ev)
    case (MainRuns late)
    then show ?thesis using st unfailed_main [OF Cons.prems(2)] by (auto simp: fill_step_def)
  next
    case (TaskEnds j)
    then obtain r where j: "j < length (fi_running s)" and r: "ensure (fi_running s ! j) w = (r, w1)"
      and s1: "s1 = s\<lparr>fi_running := take j (fi_running s) @ drop (Suc j) (fi_running s),
          fi_finished := fi_finished s @ [r]\<rparr>"
      using st assms(4)
      by (auto simp: fill_step_def get_at_Some_iff split: if_splits option.splits prod.splits)
    have "fi_running s ! j \<in> want" using nth_mem [OF j] Cons.prems(1) by (auto simp: tracks_def)
    then have "is_ok r" using ensure_returns [of w "fi_running s ! j"] Cons.prems(1) r by (simp add: tracks_def)
    moreover have "fill_inv missing s1"
      using fill_step_inv(1) [OF _ st] Cons.prems(2) by (simp add: unfailed_def)
    ultimately show ?thesis using Cons.prems(2) s1 by (simp add: unfailed_def)
  qed
  from Cons.IH [OF tracks_step [OF Cons.prems(1) assms(3,4) st] this rest] show ?case .
qed simp

lemma fill_ends_done:
  assumes "inv w" and "c_sha ` set missing \<subseteq> want" and "cs_ensure ch = ensure"
    and "fill_run ch missing evs (fill_start, w) = Some (s', w')" and "fill_ended s'"
  shows "fi_pc s' = FillDone"
proof -
  have "unfailed missing fill_start"
    using fill_start_inv [of missing] by (simp add: unfailed_def) (simp add: fill_start_def)
  from fill_run_unfailed [OF tracks_start [OF assms(1)] this assms(2-4)] assms(5)
  show ?thesis by (auto simp: unfailed_def fill_ended_def)
qed

end

section \<open>The cache keeps the contract\<close>

lemma fetch_and_persist_files:
  assumes f: "fetch_and_persist env inner h (path_for env dir h) w = (r, w')" and hex: "hex_ok env"
  shows "(\<exists>b fr. r = Ok b \<and> ce_sha1 env b = hash_bytes h \<and> encode_frame_as env b (hash_bytes h) = Ok fr \<and>
        (\<exists>i i'. cs_get inner h i = (Ok b, i') \<and> i = cw_inner w) \<and>
        (\<forall>k. fs_files (cw_fs w') (path_for env dir k) =
           (if k = h then Some fr else fs_files (cw_fs w) (path_for env dir k)))) \<or>
     (\<not> is_ok r \<and> (\<forall>k. fs_files (cw_fs w') (path_for env dir k) = fs_files (cw_fs w) (path_for env dir k)))"
proof -
  let ?p = "path_for env dir h"
  obtain g i1 where g: "cs_get inner h (cw_inner w) = (g, i1)" by fastforce
  let ?w1 = "w\<lparr>cw_inner := i1\<rparr>"
  show ?thesis
  proof (cases "\<exists>b fr. g = Ok b \<and> ce_sha1 env b = hash_bytes h \<and> encode_frame_as env b (hash_bytes h) = Ok fr")
    case False
    then have "\<not> is_ok r \<and> w' = ?w1" using f g
      by (auto simp: fetch_and_persist_def Let_def is_ok_iff split: outcome.splits if_splits)
    then show ?thesis by simp
  next
    case True
    then obtain b fr where b: "g = Ok b" "ce_sha1 env b = hash_bytes h"
      and fr: "encode_frame_as env b (hash_bytes h) = Ok fr" by blast
    obtain q w2 where q: "write_atomic env ?p fr ?w1 = (q, w2)" by fastforce
    have files: "fs_files (cw_fs w2) (path_for env dir k) =
        (if q = Ok () \<and> k = h then Some fr else fs_files (cw_fs w) (path_for env dir k))" for k
      using write_atomic_files(1) [OF q tmp_not_chunk [OF hex, symmetric], of dir k]
        path_for_inject [OF hex, of dir k h] by simp
    have eq: "(r, w') = (case q of Err e \<Rightarrow> (Err e, w2) | Panic \<Rightarrow> (Panic, w2)
        | Ok _ \<Rightarrow> (Ok b, cache_decoded env h b w2))"
      using f g b fr q by (simp add: fetch_and_persist_def Let_def)
    show ?thesis
    proof (cases q)
      case (Ok u)
      then have "r = Ok b" "w' = cache_decoded env h b w2" using eq by simp_all
      then show ?thesis using b fr g files Ok by (auto simp: cache_decoded_def)
    qed (use eq files in auto)
  qed
qed

definition present :: "'l chunk_env \<Rightarrow> chunk_dir \<Rightarrow> chunk_hash \<Rightarrow> ('l, 'i) cache_world \<Rightarrow> bool" where
  "present env dir h w \<longleftrightarrow> fs_files (cw_fs w) (path_for env dir h) \<noteq> None"

lemma ensure_files:
  assumes f: "fs_cache_ensure env dir inner h w = (r, w')" and hex: "hex_ok env"
  shows "present env dir k w \<Longrightarrow> present env dir k w'" and "r = Ok () \<Longrightarrow> present env dir h w'"
proof -
  let ?p = "path_for env dir h"
  obtain a w1 where a: "exists_or_false ?p w = (a, w1)" by fastforce
  note a' = exists_or_false_inv [OF a]
  obtain b w2 where b: "exists_or_false ?p w1 = (b, w2)" by fastforce
  note b' = exists_or_false_inv [OF b]
  obtain e w3 where e: "fetch_and_persist env inner h ?p w2 = (e, w3)" by fastforce
  have "(present env dir k w \<longrightarrow> present env dir k w') \<and> (r = Ok () \<longrightarrow> present env dir h w')"
    using f a b e a'(3,4) b'(3,4) fetch_and_persist_files [OF e hex]
    by (cases a; cases b) (auto simp: fs_cache_ensure_def Let_def present_def split: if_splits)
  then show "present env dir k w \<Longrightarrow> present env dir k w'" "r = Ok () \<Longrightarrow> present env dir h w'"
    by blast+
qed

interpretation cache_filler: chunk_filler
  "fs_cache_ensure env dir inner" "\<lambda>w. hex_ok env" "present env dir" UNIV
  for env dir inner
  by unfold_locales (auto dest: ensure_files)

text \<open>
  A disk whose chunk files are all good stays so: every file written under a chunk's name is the
  frame of that chunk.  The capacity of a frame bounds the chunks.
\<close>

definition clean_disk ::
  "'l chunk_env \<Rightarrow> chunk_dir \<Rightarrow> (chunk_hash \<Rightarrow> bytes) \<Rightarrow> ('l, 'i) cache_world \<Rightarrow> bool" where
  "clean_disk env dir plain w \<longleftrightarrow>
     (\<forall>h fr. fs_files (cw_fs w) (path_for env dir h) = Some fr \<longrightarrow> decode_frame env fr = Some (h, plain h))"

lemma clean_present:
  "clean_disk env dir plain w \<Longrightarrow> present env dir h w \<longleftrightarrow> stored env (cd_root dir) plain h (cw_fs w)"
  by (auto simp: clean_disk_def present_def stored_path)

lemma ensure_clean:
  assumes f: "fs_cache_ensure env dir inner h w = (r, w')"
    and ready: "cache_ready env dir inner iinv plain w" and clean: "clean_disk env dir plain w"
    and small: "length (plain h) \<le> MAX_PLAIN_LEN"
  shows "cache_ready env dir inner iinv plain w'" and "clean_disk env dir plain w'"
proof -
  have env: "env_ok env" and hex: "hex_ok env" and inner: "inner_ok env (\<lambda>h b. b = plain h) iinv inner"
    and iinv: "iinv (cw_inner w)" using ready by (simp_all add: cache_ready_def env_ok_def)
  show "cache_ready env dir inner iinv plain w'"
    using fs_cache_ensure_sound [OF f env inner _ iinv] ready by (simp add: cache_ready_def)
  let ?p = "path_for env dir h"
  obtain a w1 where a: "exists_or_false ?p w = (a, w1)" by fastforce
  note a' = exists_or_false_inv [OF a]
  obtain b w2 where b: "exists_or_false ?p w1 = (b, w2)" by fastforce
  note b' = exists_or_false_inv [OF b]
  obtain e w3 where e: "fetch_and_persist env inner h ?p w2 = (e, w3)" by fastforce
  have files2: "fs_files (cw_fs w2) = fs_files (cw_fs w)" "cw_inner w2 = cw_inner w"
    using a' b' by simp_all
  have c3: "clean_disk env dir plain w3"
    using fetch_and_persist_files [OF e hex]
  proof (elim disjE exE conjE)
    fix x fr i i'
    assume x: "ce_sha1 env x = hash_bytes h" and fr: "encode_frame_as env x (hash_bytes h) = Ok fr"
      and g: "cs_get inner h i = (Ok x, i')" "i = cw_inner w2"
      and files: "\<forall>k. fs_files (cw_fs w3) (path_for env dir k) =
          (if k = h then Some fr else fs_files (cw_fs w2) (path_for env dir k))"
    have "x = plain h \<and> length x < 2 ^ 64"
      using inner iinv g x files2(2) unfolding inner_ok_def by metis
    then have p: "x = plain h" "length x < 2 ^ 64" by blast+
    have "zstd_ok env" using env by (simp add: env_ok_def)
    moreover have "length (hash_bytes h) = 20" using env x by (simp add: env_ok_def) (metis)
    ultimately have "decode_frame env fr = Some (h, plain h)"
      using decode_encode_as [OF fr _ _ p(2)] p(1) small by simp
    then show ?thesis using clean files files2(1) by (simp add: clean_disk_def)
  next
    assume "\<forall>k. fs_files (cw_fs w3) (path_for env dir k) = fs_files (cw_fs w2) (path_for env dir k)"
    then show ?thesis using clean files2(1) by (simp add: clean_disk_def)
  qed
  show "clean_disk env dir plain w'"
    using f a b e a'(4) b'(4) c3 clean
    by (cases a; cases b) (auto simp: fs_cache_ensure_def Let_def clean_disk_def)
qed

definition fill_calm ::
  "'l chunk_env \<Rightarrow> chunk_dir \<Rightarrow> 'i chunk_store \<Rightarrow> ('i \<Rightarrow> bool) \<Rightarrow> (chunk_hash \<Rightarrow> bytes) \<Rightarrow>
     chunk_hash set \<Rightarrow> ('l, 'i) cache_world \<Rightarrow> bool" where
  "fill_calm env dir inner iinv plain avail w \<longleftrightarrow>
     cache_calm env dir inner iinv plain avail w \<and> clean_disk env dir plain w"

lemma ensure_calm:
  assumes f: "fs_cache_ensure env dir inner h w = (r, w')"
    and c: "fill_calm env dir inner iinv plain avail w" and h: "h \<in> avail"
    and small: "length (plain h) \<le> MAX_PLAIN_LEN"
  shows "fill_calm env dir inner iinv plain avail w'" and "is_ok r"
proof -
  have q: "fs_faults (cw_fs w) = []" and ih: "inner_has env iinv inner avail"
    and ready: "cache_ready env dir inner iinv plain w" and clean: "clean_disk env dir plain w"
    and iinv: "iinv (cw_inner w)"
    using c by (simp_all add: fill_calm_def cache_calm_def cache_ready_def)
  have ex: "exists_or_false (path_for env dir h) w = (present env dir h w, w)"
    using q by (auto simp: exists_or_false_def fs_try_exists_def next_fault_quiet present_def)
  have "fs_faults (cw_fs w') = [] \<and> is_ok r"
  proof (cases "present env dir h w")
    case True
    then show ?thesis using f ex q by (auto simp: fs_cache_ensure_def is_ok_iff)
  next
    case False
    obtain e w3 where e: "fetch_and_persist env inner h (path_for env dir h) w = (e, w3)" by fastforce
    have "is_ok e" using fetch_and_persist_quiet(2) [OF q ih iinv h] e by (metis fst_conv)
    then show ?thesis using f ex False e fetch_and_persist_quiet(1) [OF q, of env inner h "path_for env dir h"]
      by (auto simp: fs_cache_ensure_def is_ok_iff)
  qed
  then show "fill_calm env dir inner iinv plain avail w'" "is_ok r"
    using ensure_clean [OF f ready clean small] ih by (simp_all add: fill_calm_def cache_calm_def)
qed

interpretation sound_filler: full_filler
  "fs_cache_ensure env dir inner" "fill_calm env dir inner iinv plain avail"
  "\<lambda>h w. stored env (cd_root dir) plain h (cw_fs w) \<and> clean_disk env dir plain w"
  "{h \<in> avail. length (plain h) \<le> MAX_PLAIN_LEN}"
  for env dir inner iinv plain avail
proof
  fix w h r w' k
  let ?I = "fill_calm env dir inner iinv plain avail"
  assume i: "?I w" and h: "h \<in> {h \<in> avail. length (plain h) \<le> MAX_PLAIN_LEN}"
  have hex: "hex_ok env" using i by (simp add: fill_calm_def cache_calm_def cache_ready_def env_ok_def)
  note c = ensure_calm [OF _ i, of h]
  show I: "?I w'" if "fs_cache_ensure env dir inner h w = (r, w')" using c(1) [OF that] h by simp
  have cl: "clean_disk env dir plain w" using i by (simp add: fill_calm_def)
  have cl': "clean_disk env dir plain w'" if "fs_cache_ensure env dir inner h w = (r, w')" for r
    using c(1) [OF that] h by (simp add: fill_calm_def)
  show "stored env (cd_root dir) plain h (cw_fs w') \<and> clean_disk env dir plain w'"
    if e: "fs_cache_ensure env dir inner h w = (Ok (), w')"
    using ensure_files(2) [OF e hex refl] clean_present [OF cl' [OF e]] cl' [OF e] by blast
  show "stored env (cd_root dir) plain k (cw_fs w') \<and> clean_disk env dir plain w'"
    if e: "fs_cache_ensure env dir inner h w = (r, w')"
      and "stored env (cd_root dir) plain k (cw_fs w) \<and> clean_disk env dir plain w"
    using that ensure_files(1) [OF e hex] clean_present [OF cl, of k] clean_present [OF cl' [OF e], of k] cl' [OF e]
    by blast
  show "is_ok (fst (fs_cache_ensure env dir inner h w))"
    using c(2) [of "fst (fs_cache_ensure env dir inner h w)" "snd (fs_cache_ensure env dir inner h w)"] h by simp
qed

section \<open>Runs\<close>

lemma fill_run_snoc:
  "fill_run ch missing (evs @ [ev]) sw =
     Option.bind (fill_run ch missing evs sw) (fill_step ch missing ev)"
  by (induction evs arbitrary: sw) (auto split: option.split)

text \<open>Some run comes to an end, because every step lowers the weight and none is the last before it.\<close>

lemma fill_run_ends:
  assumes "fill_inv missing s"
  shows "\<exists>evs s' w'. fill_run ch missing evs (s, w) = Some (s', w') \<and> fill_ended s'"
  using assms
proof (induction "fill_weight missing s" arbitrary: s w rule: less_induct)
  case less
  show ?case
  proof (cases "fill_ended s")
    case True
    then show ?thesis by (intro exI [of _ "[]"]) simp
  next
    case False
    obtain ev s1 w1 where st: "fill_step ch missing ev (s, w) = Some (s1, w1)"
      using fill_progress [OF less.prems False, of ch w] by auto
    note i = fill_step_inv [OF less.prems st]
    obtain evs s' w' where "fill_run ch missing evs (s1, w1) = Some (s', w')" "fill_ended s'"
      using less.hyps [OF i(2,1)] by blast
    then show ?thesis using st by (intro exI [of _ "ev # evs"]) simp
  qed
qed

section \<open>A small store to fill\<close>

text \<open>The manifest of \<open>Cached_Read\<close> with the pinned file added, over an empty disk.\<close>

definition demo_pinned :: depot_file where
  "demo_pinned = demo_file\<lparr>f_path := PINNED_FILE\<rparr>"

definition demo_fill_ctx :: store_ctx where
  "demo_fill_ctx = demo_ctx\<lparr>cx_chunks_root := [''chunks''],
     cx_manifest := demo_manifest\<lparr>m_files := [demo_dir, demo_file, demo_pinned]\<rparr>\<rparr>"

abbreviation demo_fill_store :: "(recency, nat) cache_world chunk_store" where
  "demo_fill_store \<equiv> fs_cache_store std_env (chunk_dir_new (cx_chunks_root demo_fill_ctx)) (mem_store demo_chunks)"

lemma demo_pinned_simps [simp]:
  "f_path demo_pinned = PINNED_FILE" "f_size demo_pinned = 7"
  "api_chunks std_depot_api demo_pinned = api_chunks std_depot_api demo_file"
  "api_is_file std_depot_api demo_pinned"
  by (simp_all add: demo_pinned_def demo_file_def std_depot_api_def)

lemma demo_fill_root:
  "chunk_dir_new (cx_chunks_root demo_fill_ctx) = demo_cache_dir"
  "cx_chunks_root demo_fill_ctx = [''chunks'']"
  "m_files (cx_manifest demo_fill_ctx) = [demo_dir, demo_file, demo_pinned]"
  by (simp_all add: demo_fill_ctx_def demo_cache_dir_def)

lemma demo_fill_bulk: "bulk_files std_depot_api demo_fill_ctx = [demo_file, demo_pinned]"
proof -
  have "filter (\<lambda>f. api_is_file std_depot_api f \<and> 0 < f_size f) [demo_dir, demo_file, demo_pinned] = [demo_file, demo_pinned]"
    by (simp add: demo_file_def demo_dir_def demo_pinned_def std_depot_api_def)
  then show ?thesis
    by (simp add: bulk_files_def demo_fill_root BULK_BUDGET_def) (simp add: demo_file_def)
qed

lemma demo_fill_targets:
  "prefetch_targets std_depot_api demo_fill_ctx = Ok [demo_file, demo_pinned, demo_pinned]"
  by (simp add: prefetch_targets_def manifest_file_def demo_fill_root demo_fill_bulk)
    (simp add: demo_dir_def demo_file_def PINNED_FILE_def)

lemma demo_fill_readable:
  assumes "f \<in> {demo_file, demo_pinned}"
  shows "readable demo_plain std_depot_api (cx_manifest demo_fill_ctx) f"
proof -
  have "wf_path PINNED_FILE" by (simp add: wf_path_def PINNED_FILE_def split_on.simps plain_name_def)
  moreover have "PINNED_FILE \<noteq> ''d/f''" "PINNED_FILE \<noteq> ''d''" by (simp_all add: PINNED_FILE_def)
  ultimately have "wf_files [demo_dir, demo_file, demo_pinned]"
    using demo_files by (auto simp: wf_files_def demo_manifest_def) (auto simp: demo_file_def demo_dir_def)
  moreover have "file_ok demo_plain std_depot_api demo_pinned"
    using demo_file_ok by (auto simp: file_ok_def) (simp add: demo_file_def)
  ultimately show ?thesis using assms demo_file_ok by (auto simp: readable_def demo_fill_root)
qed

lemma demo_fill_calm:
  "fill_calm std_env (chunk_dir_new (cx_chunks_root demo_fill_ctx)) (mem_store demo_chunks) (\<lambda>_. True)
     demo_plain (c_sha ` set (api_chunks std_depot_api demo_file)) (cache_start std_env calm_fs 0)"
  using demo_calm unfolding demo_fill_root
  by (simp add: fill_calm_def clean_disk_def cache_start_def calm_fs_def demo_cache_dir_def)

lemma demo_fill_chunks:
  assumes "c \<in> set (api_chunks std_depot_api demo_file)"
  shows "length (demo_plain (c_sha c)) \<le> 64 * 2 ^ 20"
  using assms by (auto simp: demo_file_def std_depot_api_def)

lemma demo_fill_run:
  obtains ms evs s w' where
    "prefetch_missing std_env std_depot_api demo_fill_ctx calm_fs = (Ok ms, calm_fs)"
    "fill_run demo_fill_store ms evs (fill_start, cache_start std_env calm_fs 0) = Some (s, w')"
    "fill_ended s" "fi_pc s = FillDone"
proof -
  have q: "fs_faults calm_fs = []" by (simp add: calm_fs_def)
  obtain ms where m: "missing_of std_env std_depot_api (cx_chunks_root demo_fill_ctx)
      [demo_file, demo_pinned, demo_pinned] calm_fs = (Ok ms, calm_fs)"
    using missing_of_quiet [OF q] by blast
  have p: "prefetch_missing std_env std_depot_api demo_fill_ctx calm_fs = (Ok ms, calm_fs)"
    by (simp add: prefetch_missing_def demo_fill_targets m)
  obtain evs s w' where r: "fill_run demo_fill_store ms evs
      (fill_start, cache_start std_env calm_fs 0) = Some (s, w')" "fill_ended s"
    using fill_run_ends [OF fill_start_inv, of demo_fill_store ms "cache_start std_env calm_fs 0"] by blast
  have "set ms \<subseteq> set (api_chunks std_depot_api demo_file)"
    using missing_of_exact(3) [OF m refl] by auto
  then have want: "c_sha ` set ms \<subseteq> {h \<in> c_sha ` set (api_chunks std_depot_api demo_file).
      length (demo_plain h) \<le> MAX_PLAIN_LEN}"
    using demo_fill_chunks by (auto simp: MAX_PLAIN_LEN_def)
  have "fi_pc s = FillDone"
    by (rule sound_filler.fill_ends_done [OF demo_fill_calm want _ r])
      (simp add: fs_cache_store_def)
  then show thesis using that p r by blast
qed

section \<open>The progress lines\<close>

text \<open>
  The completions that were reported count up one by one, and they are the tasks spawned but for those
  that are still in the set.
\<close>

definition progress_ok :: "fill \<Rightarrow> bool" where
  "progress_ok s \<longleftrightarrow>
     fi_reports s = [1..<Suc (length (fi_reports s))] \<and>
     (fi_pc s \<in> {FillSpawn, FillWait, FillDrain, FillDone} \<longrightarrow>
        length (fi_reports s) + joins_len s = fi_next s)"

definition calm_tasks :: "fill \<Rightarrow> bool" where
  "calm_tasks s \<longleftrightarrow> Panic \<notin> set (fi_finished s) \<and> fi_pc s \<notin> {FillPanicked, FillJoinError}"

lemma joined_progress:
  assumes inv: "fill_inv missing s" and p: "progress_ok s" and f: "fi_finished s = r # rs"
    and pc: "fi_pc s \<in> {FillWait, FillDrain}" and k: "k = Suc (length (fi_reports s))" "k \<le> length missing"
    and q: "q \<in> {FillJoinError, FillPanicked}"
    and s': "s' = fill_joined late missing q r (Some k) (s\<lparr>fi_finished := rs\<rparr>)"
  shows "progress_ok s'" and "calm_tasks s \<Longrightarrow> calm_tasks s'"
proof -
  obtain x where x: "report_progress late k missing = Some x" using report_progress_Some [OF k(2)] by blast
  have e: "s' = (case r of Ok _ \<Rightarrow> s\<lparr>fi_finished := rs, fi_reports := fi_reports s @ [k]\<rparr>
      | Err e \<Rightarrow> s\<lparr>fi_finished := rs, fi_pc := FillFailed e\<rparr> | Panic \<Rightarrow> s\<lparr>fi_finished := rs, fi_pc := q\<rparr>)"
    by (simp add: s' fill_joined_def x split: outcome.split)
  show "progress_ok s'" unfolding e using p f pc q k(1)
    by (cases r) (auto simp: progress_ok_def joins_len_def)
  show "calm_tasks s \<Longrightarrow> calm_tasks s'" unfolding e using f pc
    by (cases r) (auto simp: calm_tasks_def)
qed

lemma main_progress:
  assumes inv: "fill_inv missing s" and p: "progress_ok s" and m: "fill_main late missing s = Some s'"
  shows "progress_ok s'" and "calm_tasks s \<Longrightarrow> calm_tasks s'"
proof -
  have "progress_ok s' \<and> (calm_tasks s \<longrightarrow> calm_tasks s')"
  proof (cases "fi_pc s \<in> {FillWait, FillDrain} \<and> s' \<noteq> s\<lparr>fi_pc := FillSpawn\<rparr> \<and> s' \<noteq> s\<lparr>fi_pc := FillDone\<rparr>")
    case False
    then show ?thesis using m p
      by (auto simp: fill_main_def progress_ok_def calm_tasks_def joins_len_def Let_def
          split: fill_pc.splits option.splits if_splits list.splits)
  next
    case True
    then obtain r rs q n where f: "fi_finished s = r # rs" and q: "q \<in> {FillJoinError, FillPanicked}"
      and s': "s' = fill_joined late missing q r (checked_sub n (joins_len (s\<lparr>fi_finished := rs\<rparr>))) (s\<lparr>fi_finished := rs\<rparr>)"
      and n: "n = fi_next s"
      using m inv by (auto simp: fill_main_def fill_inv_def Let_def split: fill_pc.splits if_splits list.splits)
    have j: "Suc (joins_len (s\<lparr>fi_finished := rs\<rparr>)) = joins_len s" by (simp add: joins_len_def f)
    have l: "length (fi_reports s) + joins_len s = fi_next s" using p True by (auto simp: progress_ok_def)
    have nm: "fi_next s \<le> length missing" using inv by (simp add: fill_inv_def)
    have c: "checked_sub n (joins_len (s\<lparr>fi_finished := rs\<rparr>)) = Some (Suc (length (fi_reports s)))"
      using j l by (auto simp: checked_sub_def n)
    show ?thesis
      using joined_progress [OF inv p f _ refl _ q s' [unfolded c]] True j l nm by auto
  qed
  then show "progress_ok s'" "calm_tasks s \<Longrightarrow> calm_tasks s'" by auto
qed

lemma run_progress:
  assumes "fill_inv missing s" and "progress_ok s" and "fill_run ch missing evs (s, w) = Some (s', w')"
  shows "progress_ok s' \<and> ((\<forall>h w. fst (cs_ensure ch h w) \<noteq> Panic) \<longrightarrow> calm_tasks s \<longrightarrow> calm_tasks s')"
  using assms
proof (induction evs arbitrary: s w)
  case (Cons ev evs)
  obtain s1 w1 where st: "fill_step ch missing ev (s, w) = Some (s1, w1)"
    and rest: "fill_run ch missing evs (s1, w1) = Some (s', w')"
    using Cons.prems(3) by (auto split: option.splits)
  have "progress_ok s1 \<and> ((\<forall>h w. fst (cs_ensure ch h w) \<noteq> Panic) \<longrightarrow> calm_tasks s \<longrightarrow> calm_tasks s1)"
  proof (cases ev)
    case (MainRuns late)
    then show ?thesis using st main_progress [OF Cons.prems(1,2)] by (auto simp: fill_step_def)
  next
    case (TaskEnds j)
    then obtain h r where j: "j < length (fi_running s)" and e: "cs_ensure ch h w = (r, w1)"
      and s1: "s1 = s\<lparr>fi_running := take j (fi_running s) @ drop (Suc j) (fi_running s),
        fi_finished := fi_finished s @ [r]\<rparr>"
      using st by (auto simp: fill_step_def get_at_def split: if_splits option.splits prod.splits)
    have "joins_len s1 = joins_len s" using j by (simp add: s1 joins_len_def)
    moreover have "r \<noteq> Panic" if "\<forall>h w. fst (cs_ensure ch h w) \<noteq> Panic" using that e by (metis fst_conv)
    ultimately show ?thesis using Cons.prems(2) by (auto simp: s1 progress_ok_def calm_tasks_def)
  qed
  then show ?case using Cons.IH [OF fill_step_inv(1) [OF Cons.prems(1) st] _ rest] by blast
qed simp

section \<open>Properties\<close>

text \<open>
  C25: The waves are bounded and end, and their progress lines are right.  Whatever the chunk store
  does and in whatever order the tasks finish: at most thirty-two tasks exist at a time, every run
  has at most six steps for a chunk and two more, and some step is possible until the tool has
  ended.  The completions reported count up one by one, never past the length of the list, and at
  the end every chunk has been reported.  The tool never panics by itself, neither where it
  subtracts the tasks left nor where the progress line slices the list: as long as no task panics,
  no run ends in a panic or a join error.
\<close>

theorem fill_run_bounded:
  assumes "fill_run ch missing evs (fill_start, w) = Some (s, w')"
  shows "joins_len s \<le> 32 \<and> length evs \<le> 6 * length missing + 2 \<and>
    (fill_ended s \<or> (\<exists>ev. fill_step ch missing ev (s, w') \<noteq> None)) \<and>
    fi_reports s = [1..<Suc (length (fi_reports s))] \<and> length (fi_reports s) \<le> length missing \<and>
    (fi_pc s = FillDone \<longrightarrow> length (fi_reports s) = length missing) \<and>
    ((\<forall>h w. fst (cs_ensure ch h w) \<noteq> Panic) \<longrightarrow> fi_pc s \<notin> {FillPanicked, FillJoinError})"
proof -
  note i = fill_run_inv [OF fill_start_inv assms]
  have st: "progress_ok fill_start" "calm_tasks fill_start"
    by (simp_all add: progress_ok_def calm_tasks_def fill_start_def joins_len_def)
  note p = run_progress [OF fill_start_inv st(1) assms]
  have w: "fill_weight missing fill_start = 6 * length missing + 2"
    by (simp add: fill_weight_def fill_start_def)
  have "length (fi_reports s) \<le> length missing"
  proof (cases "fi_reports s = []")
    case False
    have "length (fi_reports s) \<in> set [1..<Suc (length (fi_reports s))]"
      using False by (cases "fi_reports s") auto
    then have "length (fi_reports s) \<in> set (fi_reports s)" using p unfolding progress_ok_def by metis
    then show ?thesis using i by (auto simp: fill_inv_def list_all_iff)
  qed simp
  moreover have "fi_pc s = FillDone \<longrightarrow> length (fi_reports s) = length missing"
    using i p by (auto simp: fill_inv_def progress_ok_def joins_len_def)
  moreover have "joins_len s \<le> 32" "length evs \<le> 6 * length missing + 2"
    using i w by (simp_all add: fill_inv_def IN_FLIGHT_def)
  moreover have "fi_reports s = [1..<Suc (length (fi_reports s))]"
    using p unfolding progress_ok_def by blast
  moreover have "(\<forall>h w. fst (cs_ensure ch h w) \<noteq> Panic) \<longrightarrow> fi_pc s \<notin> {FillPanicked, FillJoinError}"
    using p st(2) unfolding calm_tasks_def by blast
  ultimately show ?thesis using i fill_progress [of missing s ch w'] by blast
qed

definition demo_calm_store :: "nat chunk_store" where
  "demo_calm_store = mem_store demo_chunks"

text \<open>Two chunks, fetched in the order they were asked for, up to the end of the tool.\<close>

theorem fill_run_bounded_witness:
  "\<exists>s w'. fill_run demo_calm_store (api_chunks std_depot_api demo_file)
      [MainRuns True, MainRuns True, MainRuns False, TaskEnds 0, MainRuns False, MainRuns False,
       TaskEnds 0, MainRuns False, MainRuns True, MainRuns False] (fill_start, 0) = Some (s, w') \<and>
     fi_pc s = FillDone \<and> fi_reports s = [1, 2]"
proof -
  let ?evs = "[MainRuns True, MainRuns True, MainRuns False, TaskEnds 0, MainRuns False, MainRuns False,
    TaskEnds 0, MainRuns False, MainRuns True, MainRuns False]"
  let ?cs = "api_chunks std_depot_api demo_file"
  let ?h = "demo_hash [1, 2, 3, 4]" and ?g = "demo_hash [5, 6, 7]"
  have cs: "length ?cs = 2" "get_at ?cs 0 = Some (?cs ! 0)" "get_at ?cs 1 = Some (?cs ! 1)" "get_at ?cs 2 = None"
    "c_sha (?cs ! 0) = ?h" "c_sha (?cs ! 1) = ?g"
    by (simp_all add: demo_file_def std_depot_api_def get_at_def)
  have e: "cs_ensure demo_calm_store ?h n = (Ok (), n + 1)" "cs_ensure demo_calm_store ?g n = (Ok (), n + 1)" for n
    using demo_hash_ne by (simp_all add: demo_calm_store_def mem_store_def default_ensure_def Let_def demo_chunks_def)
  have rp: "n \<le> 2 \<Longrightarrow> \<exists>x. report_progress late n ?cs = Some x" for late n
    using report_progress_Some [of n ?cs late] cs(1) by simp
  obtain x y where x: "report_progress False 1 ?cs = Some x" "report_progress True 2 ?cs = Some y"
    using rp [of 1 False] rp [of 2 True] by auto
  have "\<exists>s w'. fill_run demo_calm_store ?cs ?evs (fill_start, 0) = Some (s, w') \<and> fi_pc s = FillDone"
    using cs e x by (simp add: fill_step_def fill_main_def fill_start_def joins_len_def IN_FLIGHT_def
        fill_ended_def fill_joined_def checked_sub_def get_at_def numeral_2_eq_2)
  then obtain s w' where r: "fill_run demo_calm_store ?cs ?evs (fill_start, 0) = Some (s, w')" "fi_pc s = FillDone"
    by blast
  note t = fill_run_bounded [OF r(1)]
  have l: "length (fi_reports s) = 2" using t r(2) cs(1) by metis
  have "fi_reports s = [1..<Suc (length (fi_reports s))]" using t by blast
  then have "fi_reports s = [1..<Suc 2]" by (simp only: l)
  then have "fi_reports s = [1, 2]" by (simp add: upt_rec)
  with r show ?thesis by blast
qed

text \<open>
  A filled store is complete.  When the tool has come to its end without an error, the check the
  measuring tools make first does not find a chunk of the fetched files missing, whatever the
  disk and the network did meanwhile.
\<close>

theorem filled_store_complete:
  assumes "hex_ok env" and "prefetch_missing env api ctx fs = (Ok ms, fs1)"
    and "fs_files (cw_fs w) = fs_files fs"
    and "fill_run (fs_cache_store env (chunk_dir_new (cx_chunks_root ctx)) inner) ms evs
      (fill_start, w) = Some (s, w')"
    and "fi_pc s = FillDone"
  shows "fst (require_complete env api ctx (bulk_files api ctx) (cw_fs w')) \<noteq> Err (ChunksMissing k)"
proof -
  let ?dir = "chunk_dir_new (cx_chunks_root ctx)" and ?ch = "fs_cache_store env (chunk_dir_new (cx_chunks_root ctx)) inner"
  have ens: "cs_ensure ?ch = fs_cache_ensure env ?dir inner" by (simp add: fs_cache_store_def)
  have path: "path_for env ?dir h = cx_chunks_root ctx @ [ce_hex env h]" for h
    by (simp add: path_for_def chunk_dir_new_def)
  obtain targets where t: "prefetch_targets api ctx = Ok targets"
    and m: "missing_of env api (cx_chunks_root ctx) targets fs = (Ok ms, fs1)"
    using assms(2) by (auto simp: prefetch_missing_def split: outcome.splits prod.splits)
  have sub: "set (bulk_files api ctx) \<subseteq> set targets" using t by (auto simp: prefetch_targets_def)
  have there: "present env ?dir (c_sha c) w'" if c: "c \<in> set (chunks_of_files api targets)" for c
  proof (cases "present env ?dir (c_sha c) w")
    case True
    show ?thesis
      using cache_filler.fill_keeps [OF cache_filler.tracks_start _ ens assms(4) True] assms(1) by simp
  next
    case False
    then have "c_sha c \<in> c_sha ` set ms"
      using missing_of_exact(3) [OF m refl] c assms(3) by (auto simp: present_def path)
    then show ?thesis
      using cache_filler.fill_done_there(2) [OF _ _ ens assms(4,5)] assms(1) by auto
  qed
  obtain q fs2 where q: "missing_of env api (cx_chunks_root ctx) (bulk_files api ctx) (cw_fs w') = (q, fs2)"
    by fastforce
  have "ls = []" if "q = Ok ls" for ls
  proof -
    have "h \<notin> c_sha ` set ls" for h
    proof
      assume "h \<in> c_sha ` set ls"
      then have h: "h \<in> c_sha ` set (chunks_of_files api (bulk_files api ctx))"
        "fs_files (cw_fs w') (cx_chunks_root ctx @ [ce_hex env h]) = None"
        unfolding conjunct2 [OF conjunct2 [OF missing_of_exact(3) [OF q that]]] by (simp_all only: mem_Collect_eq)
      from h(1) obtain c where "c \<in> set (chunks_of_files api (bulk_files api ctx))" "h = c_sha c" by blast
      then have "present env ?dir h w'" using there [of c] sub by auto
      then show False using h(2) by (simp add: present_def path)
    qed
    then show ?thesis by (cases ls) auto
  qed
  then show ?thesis by (cases q) (auto simp: require_complete_def q)
qed

theorem filled_store_complete_witness:
  "\<exists>ms evs s w'. prefetch_missing std_env std_depot_api demo_fill_ctx calm_fs = (Ok ms, calm_fs) \<and>
    fill_run demo_fill_store ms evs (fill_start, cache_start std_env calm_fs 0) = Some (s, w') \<and>
    fi_pc s = FillDone \<and>
    fst (require_complete std_env std_depot_api demo_fill_ctx
      (bulk_files std_depot_api demo_fill_ctx) (cw_fs w')) \<noteq> Err (ChunksMissing 1)"
proof -
  obtain ms evs s w' where d:
    "prefetch_missing std_env std_depot_api demo_fill_ctx calm_fs = (Ok ms, calm_fs)"
    "fill_run demo_fill_store ms evs (fill_start, cache_start std_env calm_fs 0) = Some (s, w')"
    "fi_pc s = FillDone" by (rule demo_fill_run)
  have "hex_ok std_env" using std_env_ok by (simp add: env_ok_def)
  moreover have "fs_files (cw_fs (cache_start std_env calm_fs (0 :: nat))) = fs_files calm_fs"
    by (simp add: cache_start_def)
  ultimately show ?thesis using filled_store_complete [OF _ d(1) _ d(2,3)] d by blast
qed

text \<open>
  C23: Filling the store makes the tools independent of the network.  With a disk that works and holds
  only good frames, and a network that has every chunk of the targets, every run that ends has
  come through without an error, and what it leaves on disk streams over the store that refuses to
  fetch, in any number of passes, each delivering every file of the bulk set exactly.
\<close>

theorem filled_store_streams:
  assumes "prefetch_targets api ctx = Ok targets"
    and "prefetch_missing env api ctx (cw_fs w) = (Ok ms, fs1)"
    and "fill_calm env (chunk_dir_new (cx_chunks_root ctx)) inner iinv plain avail w"
    and "\<forall>c \<in> set (chunks_of_files api targets). c_sha c \<in> avail \<and> length (plain (c_sha c)) \<le> 64 * 2 ^ 20"
    and "\<forall>f \<in> set (bulk_files api ctx). readable plain api (cx_manifest ctx) f \<and>
      f_size f < 2 ^ 63 \<and> unat (f_size f) \<le> n * (8 * 2 ^ 20)"
    and "fill_run (fs_cache_store env (chunk_dir_new (cx_chunks_root ctx)) inner) ms evs
      (fill_start, w) = Some (s, w')"
    and "fill_ended s"
  shows "fi_pc s = FillDone \<and>
    (\<exists>out fs'. store_stream (Suc n) env api ctx passes (cw_fs w') = Some (Ok out, fs') \<and>
      length out = passes \<and> list_all (windows_ok plain api (bulk_files api ctx)) out)"
proof -
  let ?dir = "chunk_dir_new (cx_chunks_root ctx)" and ?ch = "fs_cache_store env (chunk_dir_new (cx_chunks_root ctx)) inner"
  have ens: "cs_ensure ?ch = fs_cache_ensure env ?dir inner" by (simp add: fs_cache_store_def)
  have dir: "cd_root ?dir = cx_chunks_root ctx" by (simp add: chunk_dir_new_def)
  have m: "missing_of env api (cx_chunks_root ctx) targets (cw_fs w) = (Ok ms, fs1)"
    using assms(1,2) by (auto simp: prefetch_missing_def split: prod.splits)
  note m' = missing_of_exact(3) [OF m refl]
  have want: "c_sha ` set ms \<subseteq> {h \<in> avail. length (plain h) \<le> MAX_PLAIN_LEN}"
    using m' assms(4) by (auto simp: MAX_PLAIN_LEN_def)
  show ?thesis
  proof
    show d: "fi_pc s = FillDone" by (rule sound_filler.fill_ends_done [OF assms(3) want ens assms(6,7)])
    note calm' = sound_filler.fill_done_there(1) [OF assms(3) want ens assms(6) d]
    have clean: "clean_disk env ?dir plain w" "clean_disk env ?dir plain w'"
      using assms(3) calm' by (simp_all add: fill_calm_def)
    have there: "stored env (cx_chunks_root ctx) plain (c_sha c) (cw_fs w')"
      if c: "c \<in> set (chunks_of_files api targets)" for c
    proof (cases "c \<in> set ms \<or> c_sha c \<in> c_sha ` set ms")
      case True
      then obtain c' where "c' \<in> set ms" "c_sha c' = c_sha c" by auto
      then show ?thesis
        using sound_filler.fill_done_there(2) [OF assms(3) want ens assms(6) d, of c'] dir by simp
    next
      case False
      then have "fs_files (cw_fs w) (cx_chunks_root ctx @ [ce_hex env (c_sha c)]) \<noteq> None"
        using m' c by auto
      then have "present env ?dir (c_sha c) w" by (simp add: present_def path_for_def dir)
      then have "stored env (cd_root ?dir) plain (c_sha c) (cw_fs w) \<and> clean_disk env ?dir plain w"
        using clean_present [OF clean(1)] clean(1) by blast
      from sound_filler.fill_keeps [OF sound_filler.tracks_start [OF assms(3)] want ens assms(6) this] dir
      show ?thesis by simp
    qed
    have sub: "set (bulk_files api ctx) \<subseteq> set targets" using assms(1) by (auto simp: prefetch_targets_def)
    have env: "env_ok env" and q: "fs_faults (cw_fs w') = []"
      using calm' by (simp_all add: fill_calm_def cache_calm_def cache_ready_def)
    have sound: "disk_sound env (cx_chunks_root ctx) plain (cw_fs w')"
      using clean(2) by (auto simp: disk_sound_def clean_disk_def path_for_def dir)
    have all: "\<forall>f \<in> set (bulk_files api ctx). readable plain api (cx_manifest ctx) f \<and>
        f_size f < 2 ^ 63 \<and> unat (f_size f) \<le> n * (8 * 2 ^ 20) \<and>
        (\<forall>c \<in> set (api_chunks api f). stored env (cx_chunks_root ctx) plain (c_sha c) (cw_fs w'))"
      using assms(5) there sub by auto
    show "\<exists>out fs'. store_stream (Suc n) env api ctx passes (cw_fs w') = Some (Ok out, fs') \<and>
        length out = passes \<and> list_all (windows_ok plain api (bulk_files api ctx)) out"
      by (rule complete_store_streams [OF env sound q all])
  qed
qed

theorem filled_store_streams_witness:
  "\<exists>ms evs s w' out fs'. prefetch_missing std_env std_depot_api demo_fill_ctx calm_fs = (Ok ms, calm_fs) \<and>
    fill_run demo_fill_store ms evs (fill_start, cache_start std_env calm_fs 0) = Some (s, w') \<and>
    fi_pc s = FillDone \<and>
    store_stream (Suc 1) std_env std_depot_api demo_fill_ctx 3 (cw_fs w') = Some (Ok out, fs') \<and>
    length out = 3 \<and> list_all (windows_ok demo_plain std_depot_api [demo_file, demo_pinned]) out"
proof -
  obtain ms evs s w' where d:
    "prefetch_missing std_env std_depot_api demo_fill_ctx calm_fs = (Ok ms, calm_fs)"
    "fill_run demo_fill_store ms evs (fill_start, cache_start std_env calm_fs 0) = Some (s, w')"
    "fill_ended s" by (rule demo_fill_run)
  have p: "prefetch_missing std_env std_depot_api demo_fill_ctx (cw_fs (cache_start std_env calm_fs (0 :: nat))) =
      (Ok ms, calm_fs)" using d(1) by (simp add: cache_start_def)
  have av: "\<forall>c \<in> set (chunks_of_files std_depot_api [demo_file, demo_pinned, demo_pinned]).
      c_sha c \<in> c_sha ` set (api_chunks std_depot_api demo_file) \<and> length (demo_plain (c_sha c)) \<le> 64 * 2 ^ 20"
    using demo_fill_chunks by auto
  have "f_size demo_file = 7" by (simp add: demo_file_def)
  then have rd: "\<forall>f \<in> set (bulk_files std_depot_api demo_fill_ctx).
      readable demo_plain std_depot_api (cx_manifest demo_fill_ctx) f \<and>
      f_size f < 2 ^ 63 \<and> unat (f_size f) \<le> 1 * (8 * 2 ^ 20)"
    using demo_fill_readable by (auto simp: demo_fill_bulk)
  from filled_store_streams [OF demo_fill_targets p demo_fill_calm av rd d(2,3), of 3] d
  show ?thesis unfolding demo_fill_bulk by blast
qed

end
