(* ===== verification/Bench_Setup.thy ===== *)
theory Bench_Setup
  imports Store_Tools
begin

text \<open>
  \<open>examples/bench_setup.rs\<close> and the container formats of \<open>benches/support.rs\<close>: a sample of the chunks
  on disk is fetched from the CDN again, taken apart, and kept as fixtures once every decoder agrees
  with the store.  Ciphers, decoders and the compressor are the parameter \<open>codec_env\<close>.
\<close>

section \<open>Containers\<close>

text \<open>The block cipher, the decoders and the compressor are other crates' code.\<close>

record codec_env =
  be_ecb :: "bytes \<Rightarrow> bytes \<Rightarrow> bytes"
  be_cbc :: "bytes \<Rightarrow> bytes \<Rightarrow> bytes \<Rightarrow> bytes option"   \<comment> \<open>key, IV, body; \<open>None\<close> on bad padding\<close>
  be_lzma :: "bytes \<Rightarrow> bytes option"
  be_zstd :: "bytes \<Rightarrow> nat \<Rightarrow> bytes option"
  be_zip :: "bytes \<Rightarrow> bytes option"
  be_compress :: "bytes \<Rightarrow> nat \<Rightarrow> bytes option"

datatype codec = Lzma | Zstd | Zip

fun codec_str :: "codec \<Rightarrow> string" where
  "codec_str Lzma = ''lzma''"
| "codec_str Zstd = ''zstd''"
| "codec_str Zip = ''zip''"

datatype bench_error =
    NotChunkShaped nat
  | CbcFailed
  | ContainerTooSmall nat
  | UnknownMagic bytes
  | VzaTooSmall nat
  | NotVza
  | BadVzaFooter
  | NotVsza
  | BadVszaFooter
  | VszaClaims nat
  | DecoderFailed codec
  | EncoderFailed
  | NoHost string string
  | BodyFailed string
  | FrameUnreadable io_error
  | FrameUndecodable chunk_hash
  | FrameNames chunk_hash chunk_hash
  | ManifestMismatch chunk_hash
  | DecodersDisagree chunk_hash
  | FixtureIo io_error
  | ProbeFailed io_error
  | SetupFailed string
  | IndexUnprintable string
  | NonePresent

definition ascii_bytes :: "string \<Rightarrow> bytes" where
  "ascii_bytes s = map (\<lambda>c. word_of_nat (of_char c)) s"

definition u32_le :: "bytes \<Rightarrow> nat" where
  "u32_le b = unat (word_of_nat (le_value b) :: u32)"

text \<open>Slicing panics out of range: \<open>slice_or_panic\<close> is \<open>&b[i..j]\<close>.\<close>

definition slice_or_panic :: "bytes \<Rightarrow> nat \<Rightarrow> nat \<Rightarrow> ('e, bytes) outcome" where
  "slice_or_panic b i j = (case sub_slice b i j of None \<Rightarrow> Panic | Some x \<Rightarrow> Ok x)"

definition decrypt_chunk :: "codec_env \<Rightarrow> bytes \<Rightarrow> bytes \<Rightarrow> (bench_error, bytes) outcome" where
  "decrypt_chunk be raw key =
     (if length raw < 32 \<or> (length raw - 16) mod 16 \<noteq> 0 then Err (NotChunkShaped (length raw))
      else
        obind (slice_or_panic raw 0 16) (\<lambda>first.
        obind (slice_or_panic raw 16 (length raw)) (\<lambda>body.
        ok_or (be_cbc be key (be_ecb be key first) body) CbcFailed)))"

definition classify :: "bytes \<Rightarrow> (bench_error, codec) outcome" where
  "classify container =
     (if length container < 4 then Err (ContainerTooSmall (length container))
      else
        obind (slice_or_panic container 0 4) (\<lambda>magic.
        obind (slice_or_panic container 0 3) (\<lambda>magic3.
        if magic = ascii_bytes ''VSZa'' then Ok Zstd
        else if magic = [0x50, 0x4B, 3, 4] then Ok Zip
        else if magic3 = ascii_bytes ''VZa'' then Ok Lzma
        else Err (UnknownMagic magic))))"

text \<open>\<open>VZa\<close>: seven bytes of header, five of LZMA properties, the body, ten of footer.\<close>

definition vza_to_lzma_alone :: "bytes \<Rightarrow> (bench_error, bytes) outcome" where
  "vza_to_lzma_alone container =
     (let header_len = 2 + 1 + 4; props_len = 5; footer_len = 4 + 4 + 2; n = length container in
      if n < header_len + props_len + footer_len then Err (VzaTooSmall n)
      else
        obind (slice_or_panic container 0 3) (\<lambda>magic.
        if magic \<noteq> ascii_bytes ''VZa'' then Err NotVza
        else
          obind (slice_or_panic container (n - footer_len) n) (\<lambda>footer.
          obind (slice_or_panic footer 8 (length footer)) (\<lambda>tail.
          if tail \<noteq> ascii_bytes ''zv'' then Err BadVzaFooter
          else
            obind (slice_or_panic footer 4 8) (\<lambda>len_bytes.
            obind (slice_or_panic container header_len (header_len + props_len)) (\<lambda>props.
            obind (slice_or_panic container (header_len + props_len) (n - footer_len)) (\<lambda>body.
            Ok (props @ to_le_bytes (word_of_nat (u32_le len_bytes)) @ body))))))))"

definition decode_vza_lzma_rs :: "codec_env \<Rightarrow> bytes \<Rightarrow> (bench_error, bytes) outcome" where
  "decode_vza_lzma_rs be container =
     obind (vza_to_lzma_alone container) (\<lambda>alone. ok_or (be_lzma be alone) (DecoderFailed Lzma))"

definition decode_vsza :: "codec_env \<Rightarrow> bytes \<Rightarrow> (bench_error, bytes) outcome" where
  "decode_vsza be container =
     (let header_len = 4 + 4; footer_len = 4 + 4 + 4 + 3; n = length container in
      if n < header_len + footer_len then Err NotVsza
      else
        obind (slice_or_panic container 0 4) (\<lambda>magic.
        if magic \<noteq> ascii_bytes ''VSZa'' then Err NotVsza
        else
          obind (slice_or_panic container (n - footer_len) n) (\<lambda>footer.
          obind (slice_or_panic footer (footer_len - 3) (length footer)) (\<lambda>tail.
          if tail \<noteq> ascii_bytes ''zsv'' then Err BadVszaFooter
          else
            obind (slice_or_panic footer 4 8) (\<lambda>len_bytes.
            let plain_len = u32_le len_bytes in
            if plain_len > 64 * 2 ^ 20 then Err (VszaClaims plain_len)
            else
              obind (slice_or_panic container header_len (n - footer_len)) (\<lambda>body.
              ok_or (be_zstd be body plain_len) (DecoderFailed Zstd)))))))"

definition decode_zip :: "codec_env \<Rightarrow> bytes \<Rightarrow> (bench_error, bytes) outcome" where
  "decode_zip be container = ok_or (be_zip be container) (DecoderFailed Zip)"

definition encode_zstd :: "codec_env \<Rightarrow> bytes \<Rightarrow> nat \<Rightarrow> (bench_error, bytes) outcome" where
  "encode_zstd be plain level = ok_or (be_compress be plain level) EncoderFailed"

section \<open>Sampling and fetching\<close>

text \<open>The chunks of the manifest that are on disk, each once.\<close>

definition present_of ::
  "'l chunk_env \<Rightarrow> depot_api \<Rightarrow> path \<Rightarrow> depot_file list \<Rightarrow> fsys \<Rightarrow> (io_error, chunk list) outcome \<times> fsys" where
  "present_of env api root files fs =
     (case probe_chunks env root (chunks_of_files api files) {} fs of
        (r, fs1) \<Rightarrow> (omap (\<lambda>ps. map fst (filter snd ps)) r, fs1))"

text \<open>\<open>Iterator::step_by\<close>: the first element, then every \<open>stride\<close>-th.\<close>

definition step_by :: "nat \<Rightarrow> 'a list \<Rightarrow> 'a list" where
  "step_by stride xs = map (\<lambda>k. xs ! (k * stride)) [0..<(length xs + stride - 1) div stride]"

text \<open>The stride of a sample of none is a division by zero.\<close>

definition sample_chunks :: "nat \<Rightarrow> 'a list \<Rightarrow> ('e, 'a list) outcome" where
  "sample_chunks sample present =
     (if sample = 0 then Panic
      else Ok (take sample (step_by (max (length present div sample) 1) present)))"

text \<open>
  One host after the other: \<open>http\<close> is a request, which fails, or answers with whether the status is
  a success, the status, and the body if it can be read.
\<close>

record http_reply =
  hr_success :: bool
  hr_status :: string
  hr_body :: "string + bytes"

fun fetch_raw ::
  "('v \<Rightarrow> string) \<Rightarrow> ('v \<Rightarrow> string \<Rightarrow> 'w \<Rightarrow> (string, http_reply) outcome \<times> 'w) \<Rightarrow> string \<Rightarrow> 'v list \<Rightarrow> string \<Rightarrow>
     'w \<Rightarrow> (bench_error, bytes) outcome \<times> 'w" where
  "fetch_raw host http sha_hex [] last_err w = (Err (NoHost sha_hex last_err), w)"
| "fetch_raw host http sha_hex (v # vs) last_err w =
     (case http v sha_hex w of
        (Ok resp, w1) \<Rightarrow>
          if hr_success resp then
            ((case hr_body resp of Inl e \<Rightarrow> Err (BodyFailed e) | Inr b \<Rightarrow> Ok b), w1)
          else fetch_raw host http sha_hex vs (host v @ '': HTTP '' @ hr_status resp) w1
      | (Err e, w1) \<Rightarrow> fetch_raw host http sha_hex vs (host v @ '': '' @ e) w1
      | (Panic, w1) \<Rightarrow> (Panic, w1))"

section \<open>A fixture\<close>

record fixture =
  fx_sha :: chunk_hash
  fx_codec :: codec
  fx_size_uncompressed :: nat
  fx_raw_len :: nat
  fx_container_len :: nat
  fx_zstd_sizes :: "nat list"

definition decode_container :: "codec_env \<Rightarrow> codec \<Rightarrow> bytes \<Rightarrow> (bench_error, bytes) outcome" where
  "decode_container be codec container =
     (case codec of
        Lzma \<Rightarrow> decode_vza_lzma_rs be container
      | Zstd \<Rightarrow> decode_vsza be container
      | Zip \<Rightarrow> decode_zip be container)"

text \<open>The checks on one chunk, once its ciphertext and its stored frame are read.\<close>

definition check_fixture ::
  "'l chunk_env \<Rightarrow> codec_env \<Rightarrow> bytes \<Rightarrow> chunk \<Rightarrow> bytes \<Rightarrow> codec \<Rightarrow> (bench_error, bytes) outcome" where
  "check_fixture env be container chunk frame codec =
     (case decode_frame env frame of
        None \<Rightarrow> Err (FrameUndecodable (c_sha chunk))
      | Some (claimed, plain) \<Rightarrow>
          if claimed \<noteq> c_sha chunk then Err (FrameNames (c_sha chunk) claimed)
          else if ce_sha1 env plain \<noteq> hash_bytes (c_sha chunk) \<or>
              length plain \<noteq> unat (c_size_uncompressed chunk) then Err (ManifestMismatch (c_sha chunk))
          else
            obind (decode_container be codec container) (\<lambda>decoded.
            if decoded \<noteq> plain then Err (DecodersDisagree (c_sha chunk)) else Ok plain))"

fun zstd_study :: "codec_env \<Rightarrow> bytes \<Rightarrow> nat list \<Rightarrow> (bench_error, nat list) outcome" where
  "zstd_study be plain [] = Ok []"
| "zstd_study be plain (l # ls) =
     obind (encode_zstd be plain l) (\<lambda>z. omap (\<lambda>ns. length z # ns) (zstd_study be plain ls))"

definition write_fixture ::
  "'l chunk_env \<Rightarrow> path \<Rightarrow> chunk_hash \<Rightarrow> bytes \<Rightarrow> bytes \<Rightarrow> bytes \<Rightarrow> fsys \<Rightarrow> (bench_error, unit) outcome \<times> fsys" where
  "write_fixture env dir sha raw container plain fs =
     (case fs_write (dir @ [ce_hex env sha @ ''.raw'']) raw fs of
        (Err e, fs1) \<Rightarrow> (Err (FixtureIo e), fs1)
      | (Panic, fs1) \<Rightarrow> (Panic, fs1)
      | (Ok _, fs1) \<Rightarrow>
          (case fs_write (dir @ [ce_hex env sha @ ''.con'']) container fs1 of
             (Err e, fs2) \<Rightarrow> (Err (FixtureIo e), fs2)
           | (Panic, fs2) \<Rightarrow> (Panic, fs2)
           | (Ok _, fs2) \<Rightarrow>
               (case fs_write (dir @ [ce_hex env sha @ ''.plain'']) plain fs2 of
                  (r, fs3) \<Rightarrow> (omap_err FixtureIo r, fs3))))"

text \<open>The body of the loop of \<open>bench_setup\<close> after the fetch.\<close>

definition make_fixture ::
  "'l chunk_env \<Rightarrow> codec_env \<Rightarrow> path \<Rightarrow> path \<Rightarrow> bytes \<Rightarrow> chunk \<Rightarrow> bytes \<Rightarrow> fsys \<Rightarrow>
     (bench_error, fixture) outcome \<times> fsys" where
  "make_fixture env be root dir key chunk raw fs =
     (case obind (decrypt_chunk be raw key) (\<lambda>container. omap (\<lambda>codec. (container, codec)) (classify container)) of
        Err e \<Rightarrow> (Err e, fs)
      | Panic \<Rightarrow> (Panic, fs)
      | Ok (container, codec) \<Rightarrow>
          (case fs_read (root @ [ce_hex env (c_sha chunk)]) fs of
             (Err e, fs1) \<Rightarrow> (Err (FrameUnreadable e), fs1)
           | (Panic, fs1) \<Rightarrow> (Panic, fs1)
           | (Ok frame, fs1) \<Rightarrow>
               (case check_fixture env be container chunk frame codec of
                  Err e \<Rightarrow> (Err e, fs1)
                | Panic \<Rightarrow> (Panic, fs1)
                | Ok plain \<Rightarrow>
                    (case write_fixture env dir (c_sha chunk) raw container plain fs1 of
                       (Err e, fs2) \<Rightarrow> (Err e, fs2)
                     | (Panic, fs2) \<Rightarrow> (Panic, fs2)
                     | (Ok _, fs2) \<Rightarrow>
                         (omap (\<lambda>sizes. \<lparr>fx_sha = c_sha chunk, fx_codec = codec,
                             fx_size_uncompressed = length plain, fx_raw_len = length raw,
                             fx_container_len = length container, fx_zstd_sizes = sizes\<rparr>)
                            (zstd_study be plain [1, 3, 9, 19]), fs2)))))"

section \<open>Properties of the containers\<close>

lemma slice_or_panic_Ok: "i \<le> j \<Longrightarrow> j \<le> length b \<Longrightarrow> slice_or_panic b i j = Ok (take (j - i) (drop i b))"
  by (simp add: slice_or_panic_def sub_slice_def)

lemma decrypt_chunk_no_panic: "decrypt_chunk be raw key \<noteq> Panic"
  by (auto simp: decrypt_chunk_def slice_or_panic_Ok)

lemma classify_no_panic: "classify container \<noteq> Panic"
  by (auto simp: classify_def slice_or_panic_Ok)

lemma vza_no_panic: "vza_to_lzma_alone container \<noteq> Panic"
  by (auto simp: vza_to_lzma_alone_def slice_or_panic_Ok Let_def)

lemma vsza_no_panic: "decode_vsza be container \<noteq> Panic"
  by (auto simp: decode_vsza_def slice_or_panic_Ok Let_def)

lemma decode_container_no_panic: "decode_container be codec container \<noteq> Panic"
  using vza_no_panic vsza_no_panic
  by (auto simp: decode_container_def decode_vza_lzma_rs_def decode_zip_def obind_Panic_iff split: codec.split)

text \<open>
  Whatever a CDN answers, taking it apart never slices out of range: decrypting, recognising and
  decoding a container return a value or an error for every sequence of bytes.
\<close>

theorem containers_never_panic:
  "decrypt_chunk be raw key \<noteq> Panic \<and> classify container \<noteq> Panic \<and>
   vza_to_lzma_alone container \<noteq> Panic \<and> decode_container be codec container \<noteq> Panic"
  using decrypt_chunk_no_panic classify_no_panic vza_no_panic decode_container_no_panic by blast

lemma drop_front: "xs = ys @ zs \<Longrightarrow> n = length ys \<Longrightarrow> drop n xs = zs"
  by simp

lemma vza_exact:
  assumes "length ts = 4" and "length props = 5" and "length crc = 4" and "length len_le = 4"
  shows "vza_to_lzma_alone (ascii_bytes ''VZa'' @ ts @ props @ body @ crc @ len_le @ ascii_bytes ''zv'') =
    Ok (props @ to_le_bytes (word_of_nat (u32_le len_le)) @ body)"
proof -
  define footer where "footer = crc @ len_le @ ascii_bytes ''zv''"
  define c where "c = (ascii_bytes ''VZa'' @ ts @ props @ body) @ footer"
  have f: "length footer = 10" "drop 8 footer = ascii_bytes ''zv''" "take 4 (drop 4 footer) = len_le"
    using assms by (simp_all add: footer_def ascii_bytes_def)
  have n: "length c = 22 + length body" using assms f by (simp add: c_def ascii_bytes_def)
  have p: "take 3 c = ascii_bytes ''VZa''" "take 5 (drop 7 c) = props" "take (length body) (drop 12 c) = body"
    using assms by (simp_all add: c_def ascii_bytes_def)
  have l: "drop (12 + length body) c = footer"
    by (rule drop_front [OF c_def]) (use assms in \<open>simp add: ascii_bytes_def\<close>)
  have "length (ascii_bytes ''zv'') = 2" by (simp add: ascii_bytes_def)
  then have "vza_to_lzma_alone c = Ok (props @ to_le_bytes (word_of_nat (u32_le len_le)) @ body)"
    by (simp add: vza_to_lzma_alone_def Let_def slice_or_panic_Ok n p l f)
  then show ?thesis by (simp add: c_def footer_def)
qed

lemma vsza_exact:
  assumes "length crc = 4" and "length crc' = 4" and "length len_le = 4" and "length unknown = 4"
    and "u32_le len_le \<le> 64 * 2 ^ 20"
  shows "decode_vsza be (ascii_bytes ''VSZa'' @ crc @ body @ crc' @ len_le @ unknown @ ascii_bytes ''zsv'') =
    ok_or (be_zstd be body (u32_le len_le)) (DecoderFailed Zstd)"
proof -
  define footer where "footer = crc' @ len_le @ unknown @ ascii_bytes ''zsv''"
  define c where "c = (ascii_bytes ''VSZa'' @ crc @ body) @ footer"
  have f: "length footer = 15" "drop 12 footer = ascii_bytes ''zsv''" "take 4 (drop 4 footer) = len_le"
    using assms by (simp_all add: footer_def ascii_bytes_def)
  have n: "length c = 23 + length body" using assms f by (simp add: c_def ascii_bytes_def)
  have p: "take 4 c = ascii_bytes ''VSZa''" "take (length body) (drop 8 c) = body"
    using assms by (simp_all add: c_def ascii_bytes_def)
  have l: "drop (8 + length body) c = footer"
    by (rule drop_front [OF c_def]) (use assms in \<open>simp add: ascii_bytes_def\<close>)
  have "length (ascii_bytes ''zsv'') = 3" by (simp add: ascii_bytes_def)
  then have "decode_vsza be c = ok_or (be_zstd be body (u32_le len_le)) (DecoderFailed Zstd)"
    using assms(5) by (simp add: decode_vsza_def Let_def slice_or_panic_Ok n p l f not_less)
  then show ?thesis by (simp add: c_def footer_def)
qed

section \<open>Properties of the sample\<close>

lemma step_by_length: "0 < stride \<Longrightarrow> length (step_by stride xs) = (length xs + stride - 1) div stride"
  by (simp add: step_by_def)

lemma step_by_in:
  assumes "0 < stride" and "k < length (step_by stride xs)"
  shows "k * stride < length xs" and "step_by stride xs ! k = xs ! (k * stride)"
proof -
  have k: "k < (length xs + stride - 1) div stride" using assms by (simp add: step_by_length)
  then have "Suc k * stride \<le> (length xs + stride - 1) div stride * stride"
    by (intro mult_le_mono1) simp
  also have "\<dots> \<le> length xs + stride - 1" by simp
  finally show "k * stride < length xs" using assms(1) by simp
  show "step_by stride xs ! k = xs ! (k * stride)" using k by (simp add: step_by_def)
qed

text \<open>
  The sample is as large as asked for or as there are chunks, and spread evenly: its \<open>k\<close>-th chunk
  is the one \<open>k\<close> strides in.  A sample of none divides by zero.
\<close>

theorem sample_exact:
  "(case sample_chunks sample present of
      Panic \<Rightarrow> sample = 0
    | Err e \<Rightarrow> False
    | Ok xs \<Rightarrow> 0 < sample \<and> length xs = min sample (length present) \<and>
        (\<forall>k < length xs. k * max (length present div sample) 1 < length present \<and>
           xs ! k = present ! (k * max (length present div sample) 1)))"
proof (cases "sample = 0")
  case True
  then show ?thesis by (simp add: sample_chunks_def)
next
  case False
  let ?stride = "max (length present div sample) 1"
  let ?xs = "take sample (step_by ?stride present)"
  have s: "0 < ?stride" by simp
  have "min sample (length (step_by ?stride present)) = min sample (length present)"
  proof (cases "sample \<le> length present")
    case True
    then have "0 < length present div sample" using False by (simp add: div_greater_zero_iff)
    then have st: "?stride = length present div sample" by simp
    have "sample * ?stride \<le> length present" using st by (simp add: mult.commute)
    then have "sample * ?stride \<le> length present + ?stride - 1" using s by linarith
    then have "sample \<le> (length present + ?stride - 1) div ?stride" using s by (simp add: less_eq_div_iff_mult_less_eq)
    then show ?thesis using True step_by_length [OF s, of present] by linarith
  next
    case small: False
    then have "?stride = 1" by simp
    then show ?thesis by (simp add: step_by_length)
  qed
  then have "length ?xs = min sample (length present)" by simp
  moreover have "k * ?stride < length present \<and> ?xs ! k = present ! (k * ?stride)" if "k < length ?xs" for k
    using that step_by_in [OF s, of k present] by simp
  ultimately show ?thesis using False by (simp add: sample_chunks_def)
qed

section \<open>Properties of the fixtures\<close>

lemma fs_write_Ok:
  assumes "fs_write p data fs = (Ok u, fs')"
  shows "fs_files fs' = (fs_files fs)(p \<mapsto> data)"
  using fs_write_files(1,3) [OF assms] by (intro ext) simp

lemma check_fixture_Ok:
  assumes "check_fixture env be container chunk frame codec = Ok plain"
  shows "decode_frame env frame = Some (c_sha chunk, plain)" and "ce_sha1 env plain = hash_bytes (c_sha chunk)"
    and "length plain = unat (c_size_uncompressed chunk)" and "decode_container be codec container = Ok plain"
  using assms by (auto simp: check_fixture_def split: option.splits if_splits)

lemma write_fixture_Ok:
  assumes "write_fixture env dir sha raw container plain fs = (Ok u, fs')"
  shows "fs_files fs' = (fs_files fs)(dir @ [ce_hex env sha @ ''.raw''] \<mapsto> raw,
    dir @ [ce_hex env sha @ ''.con''] \<mapsto> container, dir @ [ce_hex env sha @ ''.plain''] \<mapsto> plain)"
  using assms by (auto simp: write_fixture_def dest!: fs_write_Ok split: prod.splits outcome.splits)

text \<open>
  A fixture is only kept when everything agrees.  If the loop body of the bootstrap succeeds for a
  chunk, the three files it wrote belong together: the plaintext hashes to the chunk's name and has
  the length of the manifest, the stored frame decodes to it, and so does the container the
  ciphertext decrypts to.
\<close>

lemma fixtures_verified:
  assumes "make_fixture env be root dir key chunk raw fs = (Ok fx, fs')"
  shows "\<exists>container plain.
    fs_files fs' (dir @ [ce_hex env (c_sha chunk) @ ''.raw'']) = Some raw \<and>
    fs_files fs' (dir @ [ce_hex env (c_sha chunk) @ ''.con'']) = Some container \<and>
    fs_files fs' (dir @ [ce_hex env (c_sha chunk) @ ''.plain'']) = Some plain \<and>
    decrypt_chunk be raw key = Ok container \<and> classify container = Ok (fx_codec fx) \<and>
    decode_container be (fx_codec fx) container = Ok plain \<and>
    (\<exists>frame. fs_files fs (root @ [ce_hex env (c_sha chunk)]) = Some frame \<and>
       decode_frame env frame = Some (c_sha chunk, plain)) \<and>
    ce_sha1 env plain = hash_bytes (c_sha chunk) \<and> length plain = unat (c_size_uncompressed chunk) \<and>
    fx_size_uncompressed fx = length plain \<and> fx_container_len fx = length container"
proof -
  obtain container codec where c: "decrypt_chunk be raw key = Ok container" "classify container = Ok codec"
    using assms by (auto simp: make_fixture_def split: outcome.splits elim!: obind.elims)
  obtain frame fs1 where rd: "fs_read (root @ [ce_hex env (c_sha chunk)]) fs = (Ok frame, fs1)"
    using assms c by (auto simp: make_fixture_def split: prod.splits outcome.splits)
  obtain plain where ch: "check_fixture env be container chunk frame codec = Ok plain"
    using assms c rd by (auto simp: make_fixture_def split: prod.splits outcome.splits)
  obtain fs2 where wr: "write_fixture env dir (c_sha chunk) raw container plain fs1 = (Ok (), fs2)"
    using assms c rd ch by (auto simp: make_fixture_def split: prod.splits outcome.splits)
  have fx: "fs' = fs2" "fx_codec fx = codec" "fx_size_uncompressed fx = length plain"
    "fx_container_len fx = length container"
    using assms c rd ch wr by (auto simp: make_fixture_def)
  show ?thesis
    using c fs_read_Ok [OF rd] check_fixture_Ok [OF ch] write_fixture_Ok [OF wr] fx
    by (intro exI [of _ container] exI [of _ plain]) simp
qed

text \<open>A cipher that does nothing and a zip that stores; the witness runs the loop body on them.\<close>

definition demo_codec_env :: codec_env where
  "demo_codec_env = \<lparr>be_ecb = (\<lambda>k b. b), be_cbc = (\<lambda>k iv body. Some body), be_lzma = (\<lambda>b. None),
     be_zstd = (\<lambda>b n. None), be_zip = (\<lambda>b. Some (take 4 (drop 4 b))), be_compress = (\<lambda>b l. Some b)\<rparr>"

definition demo_raw :: bytes where
  "demo_raw = replicate 16 0 @ [0x50, 0x4B, 3, 4, 1, 2, 3, 4] @ replicate 8 0"

lemma demo_fixture:
  "\<exists>fx fs'. make_fixture std_env demo_codec_env [''s'', ''chunks''] [''f''] []
      (hd (api_chunks std_depot_api demo_file)) demo_raw demo_disk = (Ok fx, fs') \<and> fs_faults fs' = []"
proof -
  let ?c = "hd (api_chunks std_depot_api demo_file)"
  let ?m = "make_fixture std_env demo_codec_env [''s'', ''chunks''] [''f''] [] ?c demo_raw demo_disk"
  have c: "c_sha ?c = demo_hash [1, 2, 3, 4]" "c_size_uncompressed ?c = 4"
    by (simp_all add: demo_file_def std_depot_api_def)
  have con: "decrypt_chunk demo_codec_env demo_raw [] = Ok ([0x50, 0x4B, 3, 4, 1, 2, 3, 4] @ replicate 8 0)"
    by (simp add: decrypt_chunk_def demo_raw_def demo_codec_env_def slice_or_panic_Ok)
  have cl: "classify ([0x50, 0x4B, 3, 4, 1, 2, 3, 4] @ replicate 8 0) = Ok Zip"
    by (simp add: classify_def slice_or_panic_Ok ascii_bytes_def)
  have q: "fs_faults demo_disk = []" by (simp add: demo_disk_def)
  have rd: "fs_read ([''s'', ''chunks''] @ [ce_hex std_env (demo_hash [1, 2, 3, 4])]) demo_disk =
      (Ok (demo_frame [1, 2, 3, 4]), demo_disk)"
    using demo_disk_files [of "demo_hash [1, 2, 3, 4]"] demo_hash_ne
    by (simp add: fs_read_def next_fault_quiet [OF q])
  have sha: "ce_sha1 std_env [1, 2, 3, 4] = hash_bytes (demo_hash [1, 2, 3, 4])"
    by (simp add: std_env_def demo_hash_def)
  have ch: "check_fixture std_env demo_codec_env ([0x50, 0x4B, 3, 4, 1, 2, 3, 4] @ replicate 8 0) ?c
      (demo_frame [1, 2, 3, 4]) Zip = Ok [1, 2, 3, 4]"
    using demo_frame_decode [of "[1, 2, 3, 4]"] sha
    by (simp add: check_fixture_def c decode_container_def decode_zip_def demo_codec_env_def)
  have w: "\<exists>fs'. fs_write p d fs = (Ok (), fs') \<and> fs_faults fs' = []" if "fs_faults fs = []" for p d fs
    using that by (simp add: fs_write_def fs_create_def fs_write_all_def next_fault_quiet)
  obtain fs1 where w1: "fs_write ([''f''] @ [ce_hex std_env (c_sha ?c) @ ''.raw'']) demo_raw demo_disk = (Ok (), fs1)"
    "fs_faults fs1 = []" using w [OF q] by blast
  obtain fs2 where w2: "fs_write ([''f''] @ [ce_hex std_env (c_sha ?c) @ ''.con''])
      ([0x50, 0x4B, 3, 4, 1, 2, 3, 4] @ replicate 8 0) fs1 = (Ok (), fs2)"
    "fs_faults fs2 = []" using w [OF w1(2)] by blast
  obtain fs3 where w3: "fs_write ([''f''] @ [ce_hex std_env (c_sha ?c) @ ''.plain'']) [1, 2, 3, 4] fs2 = (Ok (), fs3)"
    "fs_faults fs3 = []" using w [OF w2(2)] by blast
  have wf: "write_fixture std_env [''f''] (c_sha ?c) demo_raw
      ([0x50, 0x4B, 3, 4, 1, 2, 3, 4] @ replicate 8 0) [1, 2, 3, 4] demo_disk = (Ok (), fs3)"
    unfolding write_fixture_def w1(1) prod.case outcome.case w2(1) w3(1) by simp
  have rd': "fs_read ([''s'', ''chunks''] @ [ce_hex std_env (c_sha ?c)]) demo_disk =
      (Ok (demo_frame [1, 2, 3, 4]), demo_disk)" using rd unfolding c(1) .
  have zs: "\<exists>ns. zstd_study demo_codec_env [1, 2, 3, 4] [1, 3, 9, 19] = Ok ns"
    by (simp add: encode_zstd_def demo_codec_env_def)
  then obtain fx where m: "?m = (Ok fx, fs3)"
    unfolding make_fixture_def con obind.simps cl omap.simps outcome.case prod.case rd' ch wf by auto
  with w3(2) show ?thesis by blast
qed

end
