(* ===== verification/Bench_Run.thy ===== *)
theory Bench_Run
  imports Bench_Setup
begin

text \<open>
  \<open>examples/bench_setup.rs\<close> from the opened store to its index: the sample, the login, the loop that
  fetches and keeps a fixture for each chunk (\<open>Bench_Setup\<close>), and \<open>index.json\<close>.
\<close>

section \<open>The whole tool\<close>

fun make_fixtures ::
  "'l chunk_env \<Rightarrow> codec_env \<Rightarrow> ('v \<Rightarrow> string) \<Rightarrow> ('v \<Rightarrow> string \<Rightarrow> 'w \<Rightarrow> (string, http_reply) outcome \<times> 'w) \<Rightarrow>
     'v list \<Rightarrow> path \<Rightarrow> path \<Rightarrow> bytes \<Rightarrow> chunk list \<Rightarrow> fsys \<Rightarrow> 'w \<Rightarrow>
     (bench_error, fixture list) outcome \<times> fsys \<times> 'w" where
  "make_fixtures env be host http servers root dir key [] fs w = (Ok [], fs, w)"
| "make_fixtures env be host http servers root dir key (chunk # chunks) fs w =
     (case fetch_raw host http (ce_hex env (c_sha chunk)) servers [] w of
        (Err e, w1) \<Rightarrow> (Err e, fs, w1)
      | (Panic, w1) \<Rightarrow> (Panic, fs, w1)
      | (Ok raw, w1) \<Rightarrow>
          (case make_fixture env be root dir key chunk raw fs of
             (Err e, fs1) \<Rightarrow> (Err e, fs1, w1)
           | (Panic, fs1) \<Rightarrow> (Panic, fs1, w1)
           | (Ok fx, fs1) \<Rightarrow>
               (case make_fixtures env be host http servers root dir key chunks fs1 w1 of
                  (r, s) \<Rightarrow> (omap (\<lambda>fxs. fx # fxs) r, s))))"

record bench_index =
  bx_app_id :: u32
  bx_depot_id :: u32
  bx_manifest_gid :: u64
  bx_chunks :: "fixture list"

text \<open>
  \<open>main\<close> after the store is open: \<open>login\<close> is the environment, the session and the depot key,
  \<open>to_json\<close> is \<open>serde_json::to_string_pretty\<close>.
\<close>

definition bench_setup ::
  "'l chunk_env \<Rightarrow> codec_env \<Rightarrow> depot_api \<Rightarrow> ('v \<Rightarrow> string) \<Rightarrow>
     ('v \<Rightarrow> string \<Rightarrow> 'w \<Rightarrow> (string, http_reply) outcome \<times> 'w) \<Rightarrow>
     ('w \<Rightarrow> (string, 'v list \<times> bytes) outcome \<times> 'w) \<Rightarrow> (bench_index \<Rightarrow> (string, bytes) outcome) \<Rightarrow>
     store_ctx \<Rightarrow> path \<Rightarrow> nat \<Rightarrow> fsys \<Rightarrow> 'w \<Rightarrow> (bench_error, bench_index) outcome \<times> fsys \<times> 'w" where
  "bench_setup env be api host http login to_json ctx dir sample fs w =
     (case present_of env api (cx_chunks_root ctx) (m_files (cx_manifest ctx)) fs of
        (Err e, fs1) \<Rightarrow> (Err (ProbeFailed e), fs1, w)
      | (Panic, fs1) \<Rightarrow> (Panic, fs1, w)
      | (Ok present, fs1) \<Rightarrow>
     (if present = [] then (Err NonePresent, fs1, w) else
     (case sample_chunks sample present of
        Err e \<Rightarrow> (Err e, fs1, w)
      | Panic \<Rightarrow> (Panic, fs1, w)
      | Ok sampled \<Rightarrow>
     (case login w of
        (Err e, w1) \<Rightarrow> (Err (SetupFailed e), fs1, w1)
      | (Panic, w1) \<Rightarrow> (Panic, fs1, w1)
      | (Ok (servers, key), w1) \<Rightarrow>
     (case fs_create_dir_all dir fs1 of
        (Err e, fs2) \<Rightarrow> (Err (FixtureIo e), fs2, w1)
      | (Panic, fs2) \<Rightarrow> (Panic, fs2, w1)
      | (Ok _, fs2) \<Rightarrow>
     (case make_fixtures env be host http servers (cx_chunks_root ctx) dir key sampled fs2 w1 of
        (Err e, fs3, w2) \<Rightarrow> (Err e, fs3, w2)
      | (Panic, fs3, w2) \<Rightarrow> (Panic, fs3, w2)
      | (Ok chunks, fs3, w2) \<Rightarrow>
          (let index = \<lparr>bx_app_id = cx_app_id ctx, bx_depot_id = cx_depot_id ctx,
                bx_manifest_gid = m_manifest_id (cx_manifest ctx), bx_chunks = chunks\<rparr> in
           case to_json index of
             Err e \<Rightarrow> (Err (IndexUnprintable e), fs3, w2)
           | Panic \<Rightarrow> (Panic, fs3, w2)
           | Ok text \<Rightarrow>
               (case fs_write (dir @ [''index.json'']) text fs3 of
                  (r, fs4) \<Rightarrow> (omap (\<lambda>_. index) (omap_err FixtureIo r), fs4, w2)))))))))"

section \<open>What the index lists is on disk\<close>

abbreviation fixture_path :: "'l chunk_env \<Rightarrow> path \<Rightarrow> chunk_hash \<Rightarrow> string \<Rightarrow> path" where
  "fixture_path env dir h ext \<equiv> dir @ [ce_hex env h @ ext]"

definition fixture_kept ::
  "'l chunk_env \<Rightarrow> codec_env \<Rightarrow> path \<Rightarrow> path \<Rightarrow> bytes \<Rightarrow> fsys \<Rightarrow> chunk \<Rightarrow> fixture \<Rightarrow> bool" where
  "fixture_kept env be root dir key fs chunk fx \<longleftrightarrow>
     (\<exists>raw container plain frame.
        fs_files fs (fixture_path env dir (c_sha chunk) ''.raw'') = Some raw \<and>
        fs_files fs (fixture_path env dir (c_sha chunk) ''.con'') = Some container \<and>
        fs_files fs (fixture_path env dir (c_sha chunk) ''.plain'') = Some plain \<and>
        fs_files fs (root @ [ce_hex env (c_sha chunk)]) = Some frame \<and>
        decode_frame env frame = Some (c_sha chunk, plain) \<and>
        decrypt_chunk be raw key = Ok container \<and> classify container = Ok (fx_codec fx) \<and>
        decode_container be (fx_codec fx) container = Ok plain \<and>
        ce_sha1 env plain = hash_bytes (c_sha chunk) \<and> length plain = unat (c_size_uncompressed chunk) \<and>
        fx_sha fx = c_sha chunk \<and> fx_size_uncompressed fx = length plain \<and>
        fx_raw_len fx = length raw \<and> fx_container_len fx = length container)"

lemma dot_split:
  assumes "CHR ''.'' \<notin> set a" and "CHR ''.'' \<notin> set b"
  shows "a @ CHR ''.'' # s = b @ CHR ''.'' # t \<longleftrightarrow> a = b \<and> s = t"
  using assms
proof (induction a arbitrary: b)
  case Nil
  then show ?case by (cases b) auto
next
  case (Cons x a)
  then show ?case by (cases b) auto
qed

lemma fixture_names:
  assumes "hex_ok env"
  shows "ce_hex env h @ CHR ''.'' # s = ce_hex env k @ CHR ''.'' # t \<longleftrightarrow> h = k \<and> s = t"
    and "ce_hex env h @ CHR ''.'' # s \<noteq> ce_hex env k"
    and "ce_hex env h @ CHR ''.'' # s = ''index.json'' \<longrightarrow> s = ''json''"
proof -
  have d: "CHR ''.'' \<notin> set (ce_hex env k)" for k using assms by (simp add: hex_ok_def)
  show "ce_hex env h @ CHR ''.'' # s = ce_hex env k @ CHR ''.'' # t \<longleftrightarrow> h = k \<and> s = t"
    using dot_split [OF d d] assms by (auto simp: hex_ok_def inj_eq)
  show "ce_hex env h @ CHR ''.'' # s \<noteq> ce_hex env k" using d [of k] by (metis in_set_conv_decomp)
  show "ce_hex env h @ CHR ''.'' # s = ''index.json'' \<longrightarrow> s = ''json''"
    using dot_split [OF d, of "''index''" h s "''json''"] by simp
qed

lemma make_fixture_disk:
  assumes "make_fixture env be root dir key chunk raw fs = (Ok fx, fs')"
  obtains container plain where "fs_files fs' = (fs_files fs)(fixture_path env dir (c_sha chunk) ''.raw'' \<mapsto> raw,
    fixture_path env dir (c_sha chunk) ''.con'' \<mapsto> container, fixture_path env dir (c_sha chunk) ''.plain'' \<mapsto> plain)"
    and "fx_sha fx = c_sha chunk" and "fx_raw_len fx = length raw"
proof -
  obtain container codec where c: "decrypt_chunk be raw key = Ok container" "classify container = Ok codec"
    using assms by (auto simp: make_fixture_def split: outcome.splits elim!: obind.elims)
  obtain frame fs1 where rd: "fs_read (root @ [ce_hex env (c_sha chunk)]) fs = (Ok frame, fs1)"
    using assms c by (auto simp: make_fixture_def split: prod.splits outcome.splits)
  obtain plain where ch: "check_fixture env be container chunk frame codec = Ok plain"
    using assms c rd by (auto simp: make_fixture_def split: prod.splits outcome.splits)
  obtain fs2 where wr: "write_fixture env dir (c_sha chunk) raw container plain fs1 = (Ok (), fs2)"
    using assms c rd ch by (auto simp: make_fixture_def split: prod.splits outcome.splits)
  have "fs' = fs2" "fx_sha fx = c_sha chunk" "fx_raw_len fx = length raw"
    using assms c rd ch wr by (auto simp: make_fixture_def)
  then show ?thesis using write_fixture_Ok [OF wr] fs_read_files [OF rd] that by simp
qed

text \<open>One turn of the loop keeps what it made, and touches no other file.\<close>

lemma make_fixture_kept:
  assumes "make_fixture env be root dir key chunk raw fs = (Ok fx, fs')" and "hex_ok env" and "dir \<noteq> root"
  shows "fixture_kept env be root dir key fs' chunk fx"
    and "(\<forall>e. p \<noteq> fixture_path env dir (c_sha chunk) (CHR ''.'' # e)) \<Longrightarrow> fs_files fs' p = fs_files fs p"
proof -
  obtain container plain where d: "fs_files fs' = (fs_files fs)(fixture_path env dir (c_sha chunk) ''.raw'' \<mapsto> raw,
      fixture_path env dir (c_sha chunk) ''.con'' \<mapsto> container, fixture_path env dir (c_sha chunk) ''.plain'' \<mapsto> plain)"
    and fx: "fx_sha fx = c_sha chunk" "fx_raw_len fx = length raw" by (rule make_fixture_disk [OF assms(1)])
  have "fs_files fs' (root @ [ce_hex env (c_sha chunk)]) = fs_files fs (root @ [ce_hex env (c_sha chunk)])"
    using assms(3) by (simp add: d)
  then show "fixture_kept env be root dir key fs' chunk fx"
    using fixtures_verified [OF assms(1)] fx unfolding fixture_kept_def by metis
  assume "\<forall>e. p \<noteq> fixture_path env dir (c_sha chunk) (CHR ''.'' # e)"
  then show "fs_files fs' p = fs_files fs p" unfolding d by simp
qed

lemma fixture_kept_cong:
  assumes "fixture_kept env be root dir key fs chunk fx"
    and "\<forall>e \<in> {''raw'', ''con'', ''plain''}. fs_files fs' (fixture_path env dir (c_sha chunk) (CHR ''.'' # e)) =
      fs_files fs (fixture_path env dir (c_sha chunk) (CHR ''.'' # e))"
    and "fs_files fs' (root @ [ce_hex env (c_sha chunk)]) = fs_files fs (root @ [ce_hex env (c_sha chunk)])"
  shows "fixture_kept env be root dir key fs' chunk fx"
  using assms unfolding fixture_kept_def by simp

lemma make_fixtures_kept:
  assumes "make_fixtures env be host http servers root dir key chunks fs w = (Ok fxs, fs', w')"
    and "hex_ok env" and "dir \<noteq> root" and "distinct (map c_sha chunks)"
  shows "list_all2 (fixture_kept env be root dir key fs') chunks fxs" and
    "\<And>p. \<forall>h \<in> c_sha ` set chunks. \<forall>e. p \<noteq> fixture_path env dir h (CHR ''.'' # e) \<Longrightarrow> fs_files fs' p = fs_files fs p"
proof -
  have "list_all2 (fixture_kept env be root dir key fs') chunks fxs \<and>
    (\<forall>p. (\<forall>h \<in> c_sha ` set chunks. \<forall>e. p \<noteq> fixture_path env dir h (CHR ''.'' # e)) \<longrightarrow>
      fs_files fs' p = fs_files fs p)"
    using assms
  proof (induction chunks arbitrary: fs w fxs)
    case (Cons chunk chunks)
    obtain raw w1 fx fs1 gs where f: "make_fixture env be root dir key chunk raw fs = (Ok fx, fs1)"
      and r: "make_fixtures env be host http servers root dir key chunks fs1 w1 = (Ok gs, fs', w')"
      and fxs: "fxs = fx # gs"
      using Cons.prems(1) by (auto split: prod.splits outcome.splits)
    note one = make_fixture_kept [OF f Cons.prems(2,3)]
    have ih: "list_all2 (fixture_kept env be root dir key fs') chunks gs"
      "\<And>p. \<forall>h \<in> c_sha ` set chunks. \<forall>e. p \<noteq> fixture_path env dir h (CHR ''.'' # e) \<Longrightarrow> fs_files fs' p = fs_files fs1 p"
      using Cons.IH [OF r] Cons.prems by auto
    have new: "c_sha chunk \<notin> c_sha ` set chunks" using Cons.prems(4) by simp
    have "fixture_kept env be root dir key fs' chunk fx"
    proof (rule fixture_kept_cong [OF one(1)])
      show "\<forall>e \<in> {''raw'', ''con'', ''plain''}. fs_files fs' (fixture_path env dir (c_sha chunk) (CHR ''.'' # e)) =
          fs_files fs1 (fixture_path env dir (c_sha chunk) (CHR ''.'' # e))"
        using new fixture_names(1) [OF Cons.prems(2)] by (intro ballI ih(2)) auto
      show "fs_files fs' (root @ [ce_hex env (c_sha chunk)]) = fs_files fs1 (root @ [ce_hex env (c_sha chunk)])"
        using Cons.prems(3) by (intro ih(2)) simp
    qed
    moreover have "fs_files fs' p = fs_files fs p"
      if "\<forall>h \<in> c_sha ` set (chunk # chunks). \<forall>e. p \<noteq> fixture_path env dir h (CHR ''.'' # e)" for p
      using that one(2) [of p] ih(2) [of p] by simp
    ultimately show ?case using ih(1) fxs by blast
  qed simp
  then show "list_all2 (fixture_kept env be root dir key fs') chunks fxs" and
    "\<And>p. \<forall>h \<in> c_sha ` set chunks. \<forall>e. p \<noteq> fixture_path env dir h (CHR ''.'' # e) \<Longrightarrow> fs_files fs' p = fs_files fs p"
    by blast+
qed

lemma present_of_exact:
  assumes "present_of env api root files fs = (Ok ps, fs')"
  shows "fs_files fs' = fs_files fs" and "distinct (map c_sha ps)"
    and "c_sha ` set ps = {h \<in> c_sha ` set (chunks_of_files api files). fs_files fs (root @ [ce_hex env h]) \<noteq> None}"
    and "set ps \<subseteq> set (chunks_of_files api files)"
proof -
  obtain qs where q: "probe_chunks env root (chunks_of_files api files) {} fs = (Ok qs, fs')"
    and ps: "ps = map fst (filter snd qs)"
    using assms by (auto simp: present_of_def split: prod.splits elim: omap.elims)
  note p = probe_chunks_exact [OF q]
  note e = p(3) [OF refl]
  show "fs_files fs' = fs_files fs" by (rule p(1))
  show "distinct (map c_sha ps)"
    using e distinct_map_filter [of "c_sha \<circ> fst" qs snd] by (simp add: ps)
  show "set ps \<subseteq> set (chunks_of_files api files)" using e unfolding ps by auto
  have "c_sha ` set ps = (c_sha \<circ> fst) ` {p \<in> set qs. snd p}" by (auto simp: ps image_comp)
  also have "\<dots> = {h \<in> (c_sha \<circ> fst) ` set qs. fs_files fs (root @ [ce_hex env h]) \<noteq> None}"
    using e by (fastforce simp: image_iff)
  finally show "c_sha ` set ps =
      {h \<in> c_sha ` set (chunks_of_files api files). fs_files fs (root @ [ce_hex env h]) \<noteq> None}"
    using e by simp
qed

text \<open>
  C37: The index of the fixtures can be trusted.  If \<open>bench_setup\<close> succeeds, it has listed one entry for
  each chunk of an even sample of those on disk, in order, and for every entry the three files are
  there in the end: the ciphertext decrypts to the container, the container decodes to the
  plaintext, and so does the chunk file of the store, which is as it was; the plaintext hashes to
  the chunk's name and has the manifest's length.  No fixture has overwritten another.
\<close>

theorem bench_index_verified:
  assumes "bench_setup env be api host http login to_json ctx dir sample fs w = (Ok index, fs', w')"
    and "hex_ok env" and "dir \<noteq> cx_chunks_root ctx"
  shows "\<exists>present servers key w1 js.
    distinct (map c_sha present) \<and> c_sha ` set present =
      {h \<in> c_sha ` set (chunks_of_files api (m_files (cx_manifest ctx))).
         fs_files fs (cx_chunks_root ctx @ [ce_hex env h]) \<noteq> None} \<and>
    login w = (Ok (servers, key), w1) \<and>
    list_all2 (fixture_kept env be (cx_chunks_root ctx) dir key fs')
      (map (\<lambda>k. present ! (k * max (length present div sample) 1)) [0..<min sample (length present)])
      (bx_chunks index) \<and>
    to_json index = Ok js \<and> fs_files fs' (dir @ [''index.json'']) = Some js \<and>
    (\<forall>h. fs_files fs' (cx_chunks_root ctx @ [ce_hex env h]) = fs_files fs (cx_chunks_root ctx @ [ce_hex env h]))"
proof -
  let ?root = "cx_chunks_root ctx"
  obtain present fs1 where p: "present_of env api ?root (m_files (cx_manifest ctx)) fs = (Ok present, fs1)"
    using assms(1) by (auto simp: bench_setup_def split: prod.splits outcome.splits)
  obtain sampled where s: "sample_chunks sample present = (Ok sampled :: (bench_error, chunk list) outcome)"
    using assms(1) p by (auto simp: bench_setup_def split: prod.splits outcome.splits if_splits)
  obtain servers key w1 where l: "login w = (Ok (servers, key), w1)"
    using assms(1) p s by (auto simp: bench_setup_def split: prod.splits outcome.splits if_splits)
  obtain fs2 where d: "fs_create_dir_all dir fs1 = (Ok (), fs2)"
    using assms(1) p s l by (auto simp: bench_setup_def split: prod.splits outcome.splits if_splits)
  obtain fxs fs3 w2 where m: "make_fixtures env be host http servers ?root dir key sampled fs2 w1 = (Ok fxs, fs3, w2)"
    using assms(1) p s l d by (auto simp: bench_setup_def split: prod.splits outcome.splits if_splits)
  obtain js where t: "to_json index = Ok js" "fs_write (dir @ [''index.json'']) js fs3 = (Ok (), fs')"
      "bx_chunks index = fxs"
    using assms(1) p s l d m by (auto simp: bench_setup_def Let_def split: prod.splits outcome.splits if_splits)
  note pe = present_of_exact [OF p]
  have sample_all: "case sample_chunks sample present :: (bench_error, chunk list) outcome of
      Panic \<Rightarrow> sample = 0 | Err e \<Rightarrow> False
    | Ok xs \<Rightarrow> 0 < sample \<and> length xs = min sample (length present) \<and>
        (\<forall>k < length xs. k * max (length present div sample) 1 < length present \<and>
           xs ! k = present ! (k * max (length present div sample) 1))" by (rule sample_exact)
  have se: "length sampled = min sample (length present)"
    "\<forall>k < length sampled. k * max (length present div sample) 1 < length present \<and>
      sampled ! k = present ! (k * max (length present div sample) 1)"
    using sample_all s by auto
  have sm: "sampled = map (\<lambda>k. present ! (k * max (length present div sample) 1)) [0..<min sample (length present)]"
    using se by (intro nth_equalityI) auto
  have "distinct (map c_sha sampled)"
    using pe(2) se(2) by (auto simp: distinct_conv_nth)
  note k = make_fixtures_kept [OF m assms(2,3) this]
  have files: "fs_files fs2 = fs_files fs" using fs_create_dir_all_files(1) [OF d] pe(1) by simp
  note w = fs_write_Ok [OF t(2)]
  have root: "fs_files fs' (?root @ [ce_hex env h]) = fs_files fs (?root @ [ce_hex env h])" for h
    using k(2) [of "?root @ [ce_hex env h]"] assms(3) files by (simp add: w)
  have "fixture_kept env be ?root dir key fs' c fx" if "fixture_kept env be ?root dir key fs3 c fx" for c fx
    using that assms(3) fixture_names(3) [OF assms(2)]
    by (rule_tac fixture_kept_cong [OF that]) (auto simp: w)
  then have "list_all2 (fixture_kept env be ?root dir key fs') sampled fxs"
    using k(1) by (rule_tac list_all2_mono)
  moreover have "fs_files fs' (dir @ [''index.json'']) = Some js" by (simp add: w)
  ultimately show ?thesis using pe(2,3) l t(1,3) root sm by blast
qed

lemma demo_present:
  "present_of std_env std_depot_api [''s'', ''chunks''] (m_files demo_manifest) demo_disk =
    (Ok (api_chunks std_depot_api demo_file), demo_disk)"
proof -
  have q: "fs_faults demo_disk = []" by (simp add: demo_disk_def)
  have c: "chunks_of_files std_depot_api (m_files demo_manifest) = api_chunks std_depot_api demo_file"
    by (simp add: demo_manifest_def std_depot_api_def demo_file_def demo_dir_def)
  have f: "fs_try_exists ([''s'', ''chunks''] @ [ce_hex std_env h]) demo_disk =
      (Ok (h \<in> {demo_hash [1, 2, 3, 4], demo_hash [5, 6, 7]}), demo_disk)" for h
    using demo_disk_files [of h] by (simp add: fs_try_exists_def next_fault_quiet [OF q])
  show ?thesis unfolding present_of_def c
    using demo_hash_ne by (simp add: std_depot_api_def demo_file_def f del: append.simps)
qed

definition demo_http :: "string \<Rightarrow> string \<Rightarrow> unit \<Rightarrow> (string, http_reply) outcome \<times> unit" where
  "demo_http v sha w = (Ok \<lparr>hr_success = True, hr_status = ''200'', hr_body = Inr demo_raw\<rparr>, w)"

theorem bench_index_verified_witness:
  "\<exists>index fs'. bench_setup std_env demo_codec_env std_depot_api (\<lambda>v. v) demo_http
      (\<lambda>w. (Ok ([''cdn''], []), w)) (\<lambda>_. Ok [1]) demo_ctx [''f''] 1 demo_disk () = (Ok index, fs', ()) \<and>
    length (bx_chunks index) = 1 \<and> fs_files fs' [''f'', ''index.json''] = Some [1]"
proof -
  let ?c = "hd (api_chunks std_depot_api demo_file)"
  let ?run = "bench_setup std_env demo_codec_env std_depot_api (\<lambda>v. v) demo_http
      (\<lambda>w. (Ok ([''cdn''], []), w)) (\<lambda>_. Ok [1]) demo_ctx [''f''] 1 demo_disk ()"
  obtain fx fs1 where f: "make_fixture std_env demo_codec_env [''s'', ''chunks''] [''f''] [] ?c demo_raw demo_disk =
      (Ok fx, fs1)" "fs_faults fs1 = []" using demo_fixture by blast
  have q: "fs_create_dir_all [''f''] demo_disk = (Ok (), demo_disk)"
    by (simp add: fs_create_dir_all_def next_fault_def demo_disk_def)
  have div: "Suc (Suc (Suc 0)) div Suc (Suc 0) = Suc 0"
    by (simp add: numeral_2_eq_2 [symmetric] numeral_3_eq_3 [symmetric])
  have s: "sample_chunks 1 (api_chunks std_depot_api demo_file) = Ok [?c]"
    using div by (simp add: sample_chunks_def step_by_def std_depot_api_def demo_file_def)
  have ne: "api_chunks std_depot_api demo_file \<noteq> []" by (simp add: std_depot_api_def demo_file_def)
  have m: "make_fixtures std_env demo_codec_env (\<lambda>v. v) demo_http [''cdn''] [''s'', ''chunks''] [''f''] [] [?c]
      demo_disk () = (Ok [fx], fs1, ())"
    by (simp add: demo_http_def f(1))
  obtain fs2 where w: "fs_write ([''f''] @ [''index.json'']) [1] fs1 = (Ok (), fs2)"
    using f(2) by (simp add: fs_write_def fs_create_def fs_write_all_def next_fault_quiet)
  have r: "?run = (Ok \<lparr>bx_app_id = 1, bx_depot_id = 1, bx_manifest_gid = 2, bx_chunks = [fx]\<rparr>, fs2, ())"
    unfolding bench_setup_def demo_root demo_present prod.case outcome.case s q m Let_def w
    using ne by (simp add: demo_ctx_def demo_manifest_def)
  have hex: "hex_ok std_env" using std_env_ok by (simp add: env_ok_def)
  from bench_index_verified [OF r hex] have "fs_files fs2 ([''f''] @ [''index.json'']) = Some [1]"
    by (auto simp: demo_root)
  then show ?thesis using r by auto
qed

end
