(* ===== verification/Probe_Tools.thy ===== *)
theory Probe_Tools
  imports Store_Tools
begin

text \<open>
  The tools that measure a mount, \<open>nfs-live\<close> and \<open>nfs-probe\<close>, and those that print a depot,
  \<open>manifest-chunks\<close> and the example \<open>cat\<close>: the chunk stores they wrap and count with, their
  arguments, the lines they print.  What they do besides is mounting (\<open>Nfs_Session\<close>) and reading
  a file through the kernel.
\<close>

section \<open>Counting what leaves the CDN\<close>

record counters =
  ct_fetches :: nat
  ct_bytes :: u64
  ct_inflight :: nat
  ct_max_inflight :: nat

definition counters_zero :: counters where
  "counters_zero = \<lparr>ct_fetches = 0, ct_bytes = 0, ct_inflight = 0, ct_max_inflight = 0\<rparr>"

text \<open>\<open>CountingCdn::get\<close> before and after it waits for the store inside.\<close>

definition count_begin :: "counters \<Rightarrow> counters" where
  "count_begin c =
     c\<lparr>ct_fetches := ct_fetches c + 1, ct_inflight := ct_inflight c + 1,
       ct_max_inflight := max (ct_max_inflight c) (ct_inflight c + 1)\<rparr>"

definition count_end :: "(vfs_error, bytes) outcome \<Rightarrow> counters \<Rightarrow> counters" where
  "count_end r c =
     (let c1 = c\<lparr>ct_inflight := ct_inflight c - 1\<rparr>
      in case r of Ok b \<Rightarrow> c1\<lparr>ct_bytes := ct_bytes c1 + len64 b\<rparr> | _ \<Rightarrow> c1)"

text \<open>A call run on its own; a panic inside passes by the second half.\<close>

definition counting_get ::
  "'s chunk_store \<Rightarrow> chunk_hash \<Rightarrow> counters \<times> 's \<Rightarrow> (vfs_error, bytes) outcome \<times> counters \<times> 's" where
  "counting_get inner sha cs =
     (case cs of (c, s) \<Rightarrow>
        (case cs_get inner sha s of
           (Panic, s1) \<Rightarrow> (Panic, count_begin c, s1)
         | (r, s1) \<Rightarrow> (r, count_end r (count_begin c), s1)))"

definition counting_cdn :: "'s chunk_store \<Rightarrow> (counters \<times> 's) chunk_store" where
  "counting_cdn inner =
     \<lparr>cs_get = counting_get inner, cs_ensure = default_ensure (counting_get inner)\<rparr>"

text \<open>
  Calls that overlap: one begins, or one of those that wait ends, with what the store inside
  answered.
\<close>

datatype count_event = FetchBegins | FetchEnds "(vfs_error, bytes) outcome"

record count_state =
  cn_counters :: counters
  cn_waiting :: nat
  cn_answers :: "(vfs_error, bytes) outcome list"

definition count_step :: "count_event \<Rightarrow> count_state \<Rightarrow> count_state option" where
  "count_step ev s =
     (case ev of
        FetchBegins \<Rightarrow>
          Some (s\<lparr>cn_counters := count_begin (cn_counters s), cn_waiting := cn_waiting s + 1\<rparr>)
      | FetchEnds r \<Rightarrow>
          if cn_waiting s = 0 \<or> r = Panic then None
          else Some (s\<lparr>cn_counters := count_end r (cn_counters s), cn_waiting := cn_waiting s - 1,
                      cn_answers := cn_answers s @ [r]\<rparr>))"

fun count_run :: "count_event list \<Rightarrow> count_state \<Rightarrow> count_state option" where
  "count_run [] s = Some s"
| "count_run (ev # evs) s = Option.bind (count_step ev s) (count_run evs)"

definition count_start :: count_state where
  "count_start = \<lparr>cn_counters = counters_zero, cn_waiting = 0, cn_answers = []\<rparr>"

text \<open>
  The wait for the readahead that outlives a read: looks at the calls in flight and the
  milliseconds gone by, until nothing is in flight (\<open>Some True\<close>) or two minutes are over.
\<close>

fun drain_looks :: "(nat \<times> nat) list \<Rightarrow> bool option" where
  "drain_looks [] = None"
| "drain_looks ((inflight, ms) # rest) =
     (if inflight = 0 then Some True else if ms > 120 * 1000 then Some False else drain_looks rest)"

section \<open>The probe's chunks\<close>

text \<open>\<open>CountingChunks\<close> of \<open>nfs-probe\<close>; the times it keeps are left out.\<close>

record probe_stats =
  pb_per_chunk :: "chunk_hash \<rightharpoonup> nat"
  pb_inflight :: nat
  pb_max_inflight :: nat

definition probe_get ::
  "(chunk_hash \<rightharpoonup> bytes) \<Rightarrow> chunk_hash \<Rightarrow> probe_stats \<Rightarrow> (vfs_error, bytes) outcome \<times> probe_stats" where
  "probe_get chunks sha st =
     (let n = (case pb_per_chunk st sha of Some n \<Rightarrow> n | None \<Rightarrow> 0);
          st1 = st\<lparr>pb_per_chunk := (pb_per_chunk st)(sha \<mapsto> n + 1), pb_inflight := pb_inflight st + 1,
                   pb_max_inflight := max (pb_max_inflight st) (pb_inflight st + 1)\<rparr>;
          st2 = st1\<lparr>pb_inflight := pb_inflight st1 - 1\<rparr>
      in (ok_or (chunks sha) (ChunkNotInManifest sha), st2))"

text \<open>\<open>MemChunks\<close> of \<open>nfs-demo\<close>.\<close>

definition mem_chunks_get ::
  "(chunk_hash \<rightharpoonup> bytes) \<Rightarrow> chunk_hash \<Rightarrow> unit \<Rightarrow> (vfs_error, bytes) outcome \<times> unit" where
  "mem_chunks_get chunks sha u = (ok_or (chunks sha) (ChunkNotInManifest sha), u)"

section \<open>The command line of \<open>nfs-live\<close>\<close>

record live_args =
  la_account :: string
  la_app_id :: u32
  la_depot_id :: u32
  la_manifest_gid :: u64
  la_path :: string
  la_mountpoint :: path
  la_bytes :: "u64 option"

datatype args_error = ArgMissing string | ArgBad string

fun next_arg :: "string \<Rightarrow> string list \<Rightarrow> (args_error, string \<times> string list) outcome" where
  "next_arg what [] = Err (ArgMissing what)"
| "next_arg what (a # as) = Ok (a, as)"

text \<open>\<open>path_of\<close> turns an argument into a path; the default lies in the temporary directory.\<close>

definition parse_live_args ::
  "(string \<Rightarrow> path) \<Rightarrow> path \<Rightarrow> string list \<Rightarrow> (args_error, live_args) outcome" where
  "parse_live_args path_of temp_dir argv =
     obind (next_arg ''account'' argv) (\<lambda>(account, as1).
     obind (next_arg ''app_id'' as1) (\<lambda>(a, as2).
     obind (ok_or (parse_u32 a) (ArgBad ''app_id'')) (\<lambda>app_id.
     obind (next_arg ''depot_id'' as2) (\<lambda>(d, as3).
     obind (ok_or (parse_u32 d) (ArgBad ''depot_id'')) (\<lambda>depot_id.
     obind (next_arg ''manifest_gid'' as3) (\<lambda>(g, as4).
     obind (ok_or (parse_u64 g) (ArgBad ''manifest_gid'')) (\<lambda>gid.
     obind (next_arg ''path-in-depot'' as4) (\<lambda>(p, as5).
     Ok \<lparr>la_account = account, la_app_id = app_id, la_depot_id = depot_id, la_manifest_gid = gid,
         la_path = p,
         la_mountpoint = (case as5 of [] \<Rightarrow> temp_dir @ [''nfs-live''] | m # _ \<Rightarrow> path_of m),
         la_bytes = (case as5 of _ # b # _ \<Rightarrow> parse_u64 b | _ \<Rightarrow> None)\<rparr>))))))))"

section \<open>Listings\<close>

text \<open>What \<open>cat ls\<close> prints of an entry: the marker, the size of a file, the name.\<close>

definition ls_rows ::
  "depot_api \<Rightarrow> 's depot_store \<Rightarrow> string \<Rightarrow> (io_error, (char \<times> u64 option \<times> string) list) outcome" where
  "ls_rows api st path =
     omap (\<lambda>entries. map (\<lambda>e.
         (case fm_kind (e_meta e) of FtDirectory \<Rightarrow> CHR ''d'' | FtSymlink \<Rightarrow> CHR ''l'' | FtFile \<Rightarrow> CHR ''f'',
          if fm_kind (e_meta e) = FtFile then Some (fm_size (e_meta e)) else None, e_name e))
       (sort_key e_name entries))
     (list_dir api st path)"

text \<open>A line of \<open>manifest-chunks\<close>.\<close>

definition chunk_line :: "'l chunk_env \<Rightarrow> depot_file \<Rightarrow> chunk \<Rightarrow> string" where
  "chunk_line env f c =
     ce_hex env (c_sha c) @ '' '' @ to_dec (c_offset c) @ '' '' @ to_dec (c_size_uncompressed c) @ '' '' @ f_path f"

definition manifest_chunk_lines :: "'l chunk_env \<Rightarrow> depot_api \<Rightarrow> manifest \<Rightarrow> string list" where
  "manifest_chunk_lines env api m =
     concat (map (\<lambda>f. map (chunk_line env f) (api_chunks api f)) (m_files m))"

section \<open>Counting changes nothing\<close>

definition uncounted :: "('l, counters \<times> 's) cache_world \<Rightarrow> ('l, 's) cache_world" where
  "uncounted w = \<lparr>cw_fs = cw_fs w, cw_decoded = cw_decoded w, cw_nonce = cw_nonce w,
     cw_inner = snd (cw_inner w)\<rparr>"

lemma uncounted_simps [simp]:
  "cw_fs (uncounted w) = cw_fs w" "cw_decoded (uncounted w) = cw_decoded w"
  "cw_nonce (uncounted w) = cw_nonce w" "cw_inner (uncounted w) = snd (cw_inner w)"
  "uncounted (w\<lparr>cw_fs := fs\<rparr>) = (uncounted w)\<lparr>cw_fs := fs\<rparr>"
  "uncounted (w\<lparr>cw_decoded := l\<rparr>) = (uncounted w)\<lparr>cw_decoded := l\<rparr>"
  "uncounted (w\<lparr>cw_nonce := n\<rparr>) = (uncounted w)\<lparr>cw_nonce := n\<rparr>"
  "uncounted (w\<lparr>cw_inner := i\<rparr>) = (uncounted w)\<lparr>cw_inner := snd i\<rparr>"
  by (simp_all add: uncounted_def)

lemma counting_get_inner:
  "counting_get inner h i = (r, i') \<Longrightarrow> cs_get inner h (snd i) = (r, snd i')"
  by (auto simp: counting_get_def split: prod.splits outcome.splits)

lemma uncounted_hit:
  "cache_hit env h w = (r, w') \<Longrightarrow> cache_hit env h (uncounted w) = (r, uncounted w')"
  by (auto simp: cache_hit_def split: prod.splits)

lemma uncounted_read:
  "read_verified env h p w = (r, w') \<Longrightarrow> read_verified env h p (uncounted w) = (r, uncounted w')"
  by (auto simp: read_verified_def delete_corrupt_def Let_def split: prod.splits outcome.splits option.splits if_splits)

lemma uncounted_write:
  assumes "write_atomic env p d w = (r, w')"
  shows "write_atomic env p d (uncounted w) = (r, uncounted w')"
proof -
  define tmp where "tmp = fst (tmp_path env p w)"
  have t: "tmp_path env p w = (tmp, w\<lparr>cw_nonce := cw_nonce w + 1\<rparr>)"
    "tmp_path env p (uncounted w) = (tmp, (uncounted w)\<lparr>cw_nonce := cw_nonce w + 1\<rparr>)"
    by (simp_all add: tmp_def tmp_path_def Let_def)
  obtain q1 fs1 where c: "fs_create tmp (cw_fs w) = (q1, fs1)" by fastforce
  obtain q2 fs2 where wr: "fs_write_all tmp d fs1 = (q2, fs2)" by fastforce
  obtain q3 fs3 where rn: "fs_rename tmp p fs2 = (q3, fs3)" by fastforce
  show ?thesis using assms
    by (cases q1; cases q2) (auto simp: write_atomic_def t c wr rn)
qed

lemma uncounted_decoded: "uncounted (cache_decoded env h b w) = cache_decoded env h b (uncounted w)"
  by (simp add: cache_decoded_def)

lemma uncounted_fetch:
  assumes "fetch_and_persist env (counting_cdn inner) h p w = (r, w')"
  shows "fetch_and_persist env inner h p (uncounted w) = (r, uncounted w')"
proof -
  obtain g i1 where g: "counting_get inner h (cw_inner w) = (g, i1)" by (metis surj_pair)
  note g' = counting_get_inner [OF g]
  show ?thesis
  proof (cases g)
    case (Ok b)
    show ?thesis
    proof (cases "encode_frame_as env b (ce_sha1 env b)")
      case (Ok fr)
      obtain q w2 where q: "write_atomic env p fr (w\<lparr>cw_inner := i1\<rparr>) = (q, w2)" by fastforce
      from uncounted_write [OF q] show ?thesis
        using assms g g' q Ok \<open>g = Ok b\<close>
        by (cases q) (auto simp: fetch_and_persist_def counting_cdn_def Let_def uncounted_decoded split: if_splits)
    next
      case e: (Err e)
      show ?thesis
      proof (cases "ce_sha1 env b = hash_bytes h")
        case True
        then have e': "encode_frame_as env b (hash_bytes h) = Err e" using e by simp
        have "(r, w') = (Err e, w\<lparr>cw_inner := i1\<rparr>)"
          using assms g Ok True by (simp add: fetch_and_persist_def counting_cdn_def Let_def e')
        then show ?thesis using g' Ok True by (simp add: fetch_and_persist_def Let_def e')
      qed (use assms g g' Ok in \<open>auto simp: fetch_and_persist_def counting_cdn_def Let_def\<close>)
    qed (simp add: encode_frame_as_no_panic)
  qed (use assms g g' in \<open>auto simp: fetch_and_persist_def counting_cdn_def\<close>)
qed

text \<open>
  Measuring does not disturb.  A chunk read through the cache over the counting store gives the
  result, the disk and the decoded chunks it gives over the store inside.
\<close>

theorem counted_cache_same:
  assumes "fs_cache_get env dir (counting_cdn inner) h w = (r, w')"
  shows "fs_cache_get env dir inner h (uncounted w) = (r, uncounted w')"
proof -
  obtain a w1 where a: "cache_hit env h w = (a, w1)" by fastforce
  obtain b w2 where b: "cache_hit env h w1 = (b, w2)" by fastforce
  obtain d w3 where d: "read_verified env h (path_for env dir h) w2 = (d, w3)" by fastforce
  obtain e w4 where e: "fetch_and_persist env (counting_cdn inner) h (path_for env dir h) w3 = (e, w4)" by fastforce
  show ?thesis
    using assms a b d e uncounted_hit [OF a] uncounted_hit [OF b] uncounted_read [OF d] uncounted_fetch [OF e]
    by (auto simp: fs_cache_get_def Let_def uncounted_decoded split: option.splits)
qed

theorem counted_cache_same_witness:
  "fst (fs_cache_get std_env demo_cache_dir (counting_cdn (mem_store demo_chunks)) (demo_hash [5, 6, 7])
      (cache_start std_env bad_fs (counters_zero, 0))) =
    fst (fs_cache_get std_env demo_cache_dir (mem_store demo_chunks) (demo_hash [5, 6, 7])
      (cache_start std_env bad_fs 0))"
proof -
  let ?w = "cache_start std_env bad_fs (counters_zero, 0 :: nat)"
  let ?r = "fs_cache_get std_env demo_cache_dir (counting_cdn (mem_store demo_chunks)) (demo_hash [5, 6, 7]) ?w"
  have u: "uncounted ?w = cache_start std_env bad_fs 0" by (simp add: uncounted_def cache_start_def)
  obtain r w' where r: "?r = (r, w')" by (rule prod.exhaust)
  from counted_cache_same [OF r] show ?thesis unfolding r u by simp
qed

lemma fetch_remembers:
  assumes "fetch_and_persist env inner h p w = (Ok b, w')"
  shows "\<exists>v. w' = cache_decoded env h b v"
proof -
  obtain i1 where g: "cs_get inner h (cw_inner w) = (Ok b, i1)" and sha: "ce_sha1 env b = hash_bytes h"
    and e: "is_ok (encode_frame_as env b (hash_bytes h))"
    using assms by (auto simp: fetch_and_persist_def Let_def is_ok_iff split: prod.splits outcome.splits if_splits)
  then obtain fr where "encode_frame_as env b (hash_bytes h) = Ok fr" by (auto simp: is_ok_iff)
  then show ?thesis using assms g sha
    by (auto simp: fetch_and_persist_def Let_def split: prod.splits outcome.splits)
qed

text \<open>A chunk that was read once does not reach the CDN again while it is decoded.\<close>

lemma warm_get_counts_nothing:
  assumes "lru_ok env" and "fs_cache_get env dir inner h w = (Ok b, w1)"
    and "fs_cache_get env dir inner h w1 = (r, w2)"
  shows "is_ok r \<and> cw_inner w2 = cw_inner w1 \<and> cw_fs w2 = cw_fs w1"
proof -
  have put: "ce_lru_map env (ce_lru_put env h x l) h = Some x" for x l by (rule lruD(3) [OF assms(1)])
  have "ce_lru_map env (cw_decoded w1) h \<noteq> None"
  proof -
    obtain a v1 where a: "cache_hit env h w = (a, v1)" by fastforce
    note a' = cache_hit_sound [OF a assms(1)]
    obtain c v2 where c: "cache_hit env h v1 = (c, v2)" by fastforce
    note c' = cache_hit_sound [OF c assms(1)]
    obtain d v3 where d: "read_verified env h (path_for env dir h) v2 = (d, v3)" by fastforce
    have fetched: "\<exists>v. w1 = cache_decoded env h b v"
      if "fetch_and_persist env inner h (path_for env dir h) v3 = (Ok b, w1)"
      using fetch_remembers [OF that] .
    show ?thesis
    proof (cases "a = None \<and> c = None")
      case True
      then have "\<exists>v. w1 = cache_decoded env h b v"
        using assms(2) a c d fetched by (cases d) (auto simp: fs_cache_get_def Let_def)
      then show ?thesis using put by (auto simp: cache_decoded_def)
    next
      case False
      then show ?thesis using assms(2) a c a'(1,4) c'(1,4)
        by (cases a; cases c) (auto simp: fs_cache_get_def Let_def)
    qed
  qed
  then obtain x where x: "ce_lru_map env (cw_decoded w1) h = Some x" by blast
  obtain a v1 where a: "cache_hit env h w1 = (a, v1)" by fastforce
  note a' = cache_hit_sound [OF a assms(1)]
  show ?thesis using assms(3) a a'(1-3) x by (auto simp: fs_cache_get_def is_ok_iff)
qed

text \<open>A call that panics stays in flight for the counters, and a later wait runs into its limit.\<close>

lemma counting_panic_leaks:
  "counting_get inner h (c, s) = (Panic, c', s') \<Longrightarrow> ct_inflight c' = ct_inflight c + 1"
  by (auto simp: counting_get_def count_begin_def split: prod.splits outcome.splits)

lemma drain_gives_up:
  "list_all (\<lambda>(n, ms). 0 < n) looks \<Longrightarrow> drain_looks looks \<noteq> Some True"
  by (induction looks rule: drain_looks.induct) auto

definition count_inv :: "count_state \<Rightarrow> bool" where
  "count_inv s \<longleftrightarrow>
     ct_fetches (cn_counters s) = cn_waiting s + length (cn_answers s) \<and>
     ct_inflight (cn_counters s) = cn_waiting s \<and>
     cn_waiting s \<le> ct_max_inflight (cn_counters s) \<and>
     ct_max_inflight (cn_counters s) \<le> ct_fetches (cn_counters s) \<and>
     ct_bytes (cn_counters s) =
       (\<Sum>r \<leftarrow> cn_answers s. case r of Ok b \<Rightarrow> len64 b | _ \<Rightarrow> 0)"

lemma count_step_inv: "count_inv s \<Longrightarrow> count_step ev s = Some s' \<Longrightarrow> count_inv s'"
  by (cases ev) (auto simp: count_step_def count_inv_def count_begin_def count_end_def Let_def
      split: if_splits outcome.splits)

lemma count_run_inv: "count_inv s \<Longrightarrow> count_run evs s = Some s' \<Longrightarrow> count_inv s'"
proof (induction evs arbitrary: s)
  case (Cons ev evs)
  obtain s1 where "count_step ev s = Some s1" "count_run evs s1 = Some s'"
    using Cons.prems(2) by (cases "count_step ev s") auto
  then show ?case using Cons.IH count_step_inv [OF Cons.prems(1)] by blast
qed simp

text \<open>
  The counters are right however the calls overlap: every call is counted once, those in flight
  are those that have not ended, the peak lies between the two, and the bytes are those of the
  calls that succeeded.
\<close>

theorem counters_exact:
  assumes "count_run evs count_start = Some s"
  shows "ct_fetches (cn_counters s) = ct_inflight (cn_counters s) + length (cn_answers s) \<and>
    ct_inflight (cn_counters s) \<le> ct_max_inflight (cn_counters s) \<and>
    ct_max_inflight (cn_counters s) \<le> ct_fetches (cn_counters s) \<and>
    ct_bytes (cn_counters s) = (\<Sum>r \<leftarrow> cn_answers s. case r of Ok b \<Rightarrow> len64 b | _ \<Rightarrow> 0)"
  using count_run_inv [OF _ assms]
  by (simp add: count_inv_def count_start_def counters_zero_def)

theorem counters_exact_witness:
  "\<exists>s. count_run [FetchBegins, FetchBegins, FetchEnds (Ok [1, 2, 3]), FetchBegins, FetchEnds (Err (VfsOther ''x''))]
      count_start = Some s \<and> ct_fetches (cn_counters s) = ct_inflight (cn_counters s) + 2 \<and>
    ct_bytes (cn_counters s) = len64 [1, 2, 3 :: u8]"
proof -
  let ?evs = "[FetchBegins, FetchBegins, FetchEnds (Ok [1, 2, 3]), FetchBegins, FetchEnds (Err (VfsOther ''x''))]"
  obtain s where s: "count_run ?evs count_start = Some s" and a: "cn_answers s = [Ok [1, 2, 3], Err (VfsOther ''x'')]"
    by (simp add: count_step_def count_start_def)
  from counters_exact [OF s] s a show ?thesis by auto
qed

end
