(* ===== verification/Mount_Handles.thy ===== *)
theory Mount_Handles
  imports Mount_Session Nfs_Session Projfs
begin

text \<open>
  The handles a program holds of a live mount: \<open>Mount\<close> (\<open>session.rs\<close>), \<open>NfsMount\<close>
  (\<open>nfs_session.rs\<close>) and \<open>ProjFsMount\<close> (\<open>projfs_session.rs\<close>), each of which says it mirrors the
  first one's surface.  A handle and the file system that is being served share one tree, behind a
  lock: the state of a handle is therefore the world the back end reads, and what is registered is
  there for the next request.  How a mount starts and ends is in \<open>Mount_Session\<close> and
  \<open>Nfs_Session\<close>; that of ProjFS is here.
\<close>

section \<open>The handles\<close>

text \<open>
  The lock of a tree is taken for one operation; a panic under it does not poison the lock, and
  \<open>None\<close> is a panic here as in \<open>Mount_Tree\<close>.
\<close>

definition tree_write ::
  "(('s, 'o) mount_tree \<Rightarrow> ('a \<times> ('s, 'o) mount_tree) option) \<Rightarrow> ('s, 'o, 'w) mount_world \<Rightarrow>
     ('a \<times> ('s, 'o, 'w) mount_world) option" where
  "tree_write f mw = map_option (\<lambda>(r, t). (r, mw\<lparr>mw_tree := t\<rparr>)) (f (mw_tree mw))"

record ('s, 'o, 'w) fuse_handle =
  hf_world :: "('s, 'o, 'w) mount_world"

definition mount_add ::
  "u32 \<Rightarrow> u32 \<Rightarrow> u64 \<Rightarrow> 's depot_store \<Rightarrow> ('s, 'o, 'w) fuse_handle \<Rightarrow>
     ((add_error, snapshot_id) outcome \<times> ('s, 'o, 'w) fuse_handle) option" where
  "mount_add app_id depot_id gid snapshot h =
     map_option (\<lambda>(r, mw). (r, h\<lparr>hf_world := mw\<rparr>)) (tree_write (add app_id depot_id gid snapshot) (hf_world h))"

definition mount_add_lazy ::
  "u32 \<Rightarrow> u32 \<Rightarrow> u64 \<Rightarrow> 'o \<Rightarrow> nat \<Rightarrow> u32 option \<Rightarrow> ('s, 'o, 'w) fuse_handle \<Rightarrow>
     ((add_error, snapshot_id) outcome \<times> ('s, 'o, 'w) fuse_handle) option" where
  "mount_add_lazy app_id depot_id gid opener cell creation_time h =
     map_option (\<lambda>(r, mw). (r, h\<lparr>hf_world := mw\<rparr>))
       (tree_write (add_lazy app_id depot_id gid opener cell creation_time) (hf_world h))"

definition mount_detach ::
  "snapshot_id \<Rightarrow> ('s, 'o, 'w) fuse_handle \<Rightarrow> (bool \<times> ('s, 'o, 'w) fuse_handle) option" where
  "mount_detach sn h =
     map_option (\<lambda>(r, mw). (r, h\<lparr>hf_world := mw\<rparr>)) (tree_write (mount_remove sn) (hf_world h))"

record ('s, 'o, 'w) nfs_handle = nfs_mount +
  hn_world :: "('s, 'o, 'w) mount_world"

definition nfs_add ::
  "u32 \<Rightarrow> u32 \<Rightarrow> u64 \<Rightarrow> 's depot_store \<Rightarrow> ('s, 'o, 'w) nfs_handle \<Rightarrow>
     ((add_error, snapshot_id) outcome \<times> ('s, 'o, 'w) nfs_handle) option" where
  "nfs_add app_id depot_id gid snapshot h =
     map_option (\<lambda>(r, mw). (r, h\<lparr>hn_world := mw\<rparr>)) (tree_write (add app_id depot_id gid snapshot) (hn_world h))"

definition nfs_add_lazy ::
  "u32 \<Rightarrow> u32 \<Rightarrow> u64 \<Rightarrow> 'o \<Rightarrow> nat \<Rightarrow> u32 option \<Rightarrow> ('s, 'o, 'w) nfs_handle \<Rightarrow>
     ((add_error, snapshot_id) outcome \<times> ('s, 'o, 'w) nfs_handle) option" where
  "nfs_add_lazy app_id depot_id gid opener cell creation_time h =
     map_option (\<lambda>(r, mw). (r, h\<lparr>hn_world := mw\<rparr>))
       (tree_write (add_lazy app_id depot_id gid opener cell creation_time) (hn_world h))"

definition nfs_detach ::
  "snapshot_id \<Rightarrow> ('s, 'o, 'w) nfs_handle \<Rightarrow> (bool \<times> ('s, 'o, 'w) nfs_handle) option" where
  "nfs_detach sn h =
     map_option (\<lambda>(r, mw). (r, h\<lparr>hn_world := mw\<rparr>))
       (tree_write (\<lambda>t. map_option (\<lambda>(r, t1). (r \<noteq> None, t1)) (remove sn t)) (hn_world h))"

text \<open>The tree of a ProjFS mount is the one its source reads: the handle reaches it there.\<close>

record ('s, 'o, 'w) projfs_handle =
  hp_pfs :: "('s, 'o, 'w) mount_world proj_context"

datatype projfs_mount_error = ProjFsStart io_error

definition projfs_start ::
  "bool \<Rightarrow> (io_error, unit) outcome \<Rightarrow> (io_error, guid) outcome \<Rightarrow> (io_error, unit) outcome \<Rightarrow>
     ('s, 'o, 'w) mount_world \<Rightarrow> (projfs_mount_error, ('s, 'o, 'w) projfs_handle) outcome" where
  "projfs_start available dir_made new_guid started mw =
     omap_err ProjFsStart
       (omap (\<lambda>pfs. \<lparr>hp_pfs = pfs\<rparr>)
         (projfs_new available dir_made new_guid started (mw\<lparr>mw_tree := mount_tree_new\<rparr>)))"

definition projfs_write ::
  "(('s, 'o) mount_tree \<Rightarrow> ('a \<times> ('s, 'o) mount_tree) option) \<Rightarrow> ('s, 'o, 'w) projfs_handle \<Rightarrow>
     ('a \<times> ('s, 'o, 'w) projfs_handle) option" where
  "projfs_write f h =
     map_option (\<lambda>(r, mw). (r, h\<lparr>hp_pfs := (hp_pfs h)\<lparr>px_source := mw\<rparr>\<rparr>)) (tree_write f (px_source (hp_pfs h)))"

definition projfs_add ::
  "u32 \<Rightarrow> u32 \<Rightarrow> u64 \<Rightarrow> 's depot_store \<Rightarrow> ('s, 'o, 'w) projfs_handle \<Rightarrow>
     ((add_error, snapshot_id) outcome \<times> ('s, 'o, 'w) projfs_handle) option" where
  "projfs_add app_id depot_id gid snapshot = projfs_write (add app_id depot_id gid snapshot)"

definition projfs_add_lazy ::
  "u32 \<Rightarrow> u32 \<Rightarrow> u64 \<Rightarrow> 'o \<Rightarrow> nat \<Rightarrow> u32 option \<Rightarrow> ('s, 'o, 'w) projfs_handle \<Rightarrow>
     ((add_error, snapshot_id) outcome \<times> ('s, 'o, 'w) projfs_handle) option" where
  "projfs_add_lazy app_id depot_id gid opener cell creation_time =
     projfs_write (add_lazy app_id depot_id gid opener cell creation_time)"

definition projfs_detach ::
  "snapshot_id \<Rightarrow> ('s, 'o, 'w) projfs_handle \<Rightarrow> (bool \<times> ('s, 'o, 'w) projfs_handle) option" where
  "projfs_detach sn = projfs_write (\<lambda>t. map_option (\<lambda>(r, t1). (r \<noteq> None, t1)) (remove sn t))"

text \<open>
  \<open>unmount\<close> takes the handle and drops the projection first: \<open>stop\<close> is \<open>PrjStopVirtualizing\<close>, after
  which no callback can reach the source, and nothing is left of the handle.
\<close>

definition projfs_unmount :: "('k \<Rightarrow> 'k) \<Rightarrow> ('s, 'o, 'w) projfs_handle \<Rightarrow> 'k \<Rightarrow> 'k" where
  "projfs_unmount stop h k = stop k"

section \<open>The surface they share\<close>

text \<open>What a program does with a handle between its start and its end.\<close>

datatype ('s, 'o) handle_op =
    AddOpen u32 u32 u64 "'s depot_store"
  | AddLazy u32 u32 u64 'o nat "u32 option"
  | Detach snapshot_id

datatype handle_answer = Added "(add_error, snapshot_id) outcome" | Detached bool

record ('h, 's, 'o) surface =
  su_add :: "u32 \<Rightarrow> u32 \<Rightarrow> u64 \<Rightarrow> 's depot_store \<Rightarrow> 'h \<Rightarrow> ((add_error, snapshot_id) outcome \<times> 'h) option"
  su_add_lazy :: "u32 \<Rightarrow> u32 \<Rightarrow> u64 \<Rightarrow> 'o \<Rightarrow> nat \<Rightarrow> u32 option \<Rightarrow> 'h \<Rightarrow>
    ((add_error, snapshot_id) outcome \<times> 'h) option"
  su_detach :: "snapshot_id \<Rightarrow> 'h \<Rightarrow> (bool \<times> 'h) option"

fun surface_do :: "('h, 's, 'o) surface \<Rightarrow> ('s, 'o) handle_op \<Rightarrow> 'h \<Rightarrow> (handle_answer \<times> 'h) option" where
  "surface_do su (AddOpen a d g s) h = map_option (\<lambda>(r, h1). (Added r, h1)) (su_add su a d g s h)"
| "surface_do su (AddLazy a d g op cell ct) h =
     map_option (\<lambda>(r, h1). (Added r, h1)) (su_add_lazy su a d g op cell ct h)"
| "surface_do su (Detach sn) h = map_option (\<lambda>(r, h1). (Detached r, h1)) (su_detach su sn h)"

fun surface_run ::
  "('h, 's, 'o) surface \<Rightarrow> ('s, 'o) handle_op list \<Rightarrow> 'h \<Rightarrow> (handle_answer list \<times> 'h) option" where
  "surface_run su [] h = Some ([], h)"
| "surface_run su (op # ops) h =
     Option.bind (surface_do su op h) (\<lambda>(r, h1). map_option (\<lambda>(rs, h2). (r # rs, h2)) (surface_run su ops h1))"

definition fuse_surface :: "(('s, 'o, 'w) fuse_handle, 's, 'o) surface" where
  "fuse_surface = \<lparr>su_add = mount_add, su_add_lazy = mount_add_lazy, su_detach = mount_detach\<rparr>"

definition nfs_surface :: "(('s, 'o, 'w) nfs_handle, 's, 'o) surface" where
  "nfs_surface = \<lparr>su_add = nfs_add, su_add_lazy = nfs_add_lazy, su_detach = nfs_detach\<rparr>"

definition projfs_surface :: "(('s, 'o, 'w) projfs_handle, 's, 'o) surface" where
  "projfs_surface = \<lparr>su_add = projfs_add, su_add_lazy = projfs_add_lazy, su_detach = projfs_detach\<rparr>"

section \<open>The specification: a register of places\<close>

text \<open>
  A register is a list: the position is the snapshot id, the entry the place it is mounted at, or
  nothing once it is gone.
\<close>

type_synonym place = "u32 \<times> u32 \<times> u64"

fun register_add :: "place \<Rightarrow> place option list \<Rightarrow> (add_error, snapshot_id) outcome \<times> place option list" where
  "register_add (a, d, g) reg =
     (if Some (a, d, g) \<in> set reg then (Err (AlreadyMounted a d g), reg)
      else if length reg = 2 ^ 16 then (Err TooManySnapshots, reg)
      else (Ok (SnapshotId (word_of_nat (length reg))), reg @ [Some (a, d, g)]))"

definition register_detach :: "snapshot_id \<Rightarrow> place option list \<Rightarrow> bool \<times> place option list" where
  "register_detach sn reg =
     (let i = unat (sid_raw sn) in (i < length reg \<and> reg ! i \<noteq> None, reg[i := None]))"

fun register_do :: "('s, 'o) handle_op \<Rightarrow> place option list \<Rightarrow> handle_answer \<times> place option list" where
  "register_do (AddOpen a d g s) reg = (case register_add (a, d, g) reg of (r, reg1) \<Rightarrow> (Added r, reg1))"
| "register_do (AddLazy a d g op cell ct) reg = (case register_add (a, d, g) reg of (r, reg1) \<Rightarrow> (Added r, reg1))"
| "register_do (Detach sn) reg = (case register_detach sn reg of (r, reg1) \<Rightarrow> (Detached r, reg1))"

fun register_run :: "('s, 'o) handle_op list \<Rightarrow> place option list \<Rightarrow> handle_answer list \<times> place option list" where
  "register_run [] reg = ([], reg)"
| "register_run (op # ops) reg =
     (case register_do op reg of (r, reg1) \<Rightarrow> case register_run ops reg1 of (rs, reg2) \<Rightarrow> (r # rs, reg2))"

definition register_of :: "('s, 'o) mount_tree \<Rightarrow> place option list" where
  "register_of t = map (map_option (\<lambda>sl. (sl_app_id sl, sl_depot_id sl, sl_manifest_gid sl))) (mt_slots t)"

section \<open>Each operation implements the register\<close>

lemma mounted_register: "mounted t a d g \<noteq> {} \<longleftrightarrow> Some (a, d, g) \<in> set (register_of t)"
proof
  assume "mounted t a d g \<noteq> {}"
  then show "Some (a, d, g) \<in> set (register_of t)"
    by (force simp: mounted_def register_of_def in_set_conv_nth)
next
  assume "Some (a, d, g) \<in> set (register_of t)"
  then obtain i where i: "i < length (mt_slots t)" "register_of t ! i = Some (a, d, g)"
    unfolding in_set_conv_nth by (auto simp: register_of_def)
  then have "map_option (\<lambda>sl. (sl_app_id sl, sl_depot_id sl, sl_manifest_gid sl)) (mt_slots t ! i) = Some (a, d, g)"
    by (simp add: register_of_def)
  then have "i \<in> mounted t a d g" using i(1) by (auto simp: mounted_def)
  then show "mounted t a d g \<noteq> {}" by blast
qed

definition tree_room :: "('s, 'o) mount_tree \<Rightarrow> nat \<Rightarrow> bool" where
  "tree_room t n \<longleftrightarrow> tree_ok t \<and> length (mt_synthetic t) + 2 * n \<le> 2 ^ 48"

lemma reserve_register:
  assumes "tree_room t (Suc n)" and "register_add (a, d, g) (register_of t) = (r, reg)"
  shows "\<exists>t'. reserve_slot a d g st hint t = Some (r, t') \<and> tree_room t' n \<and> register_of t' = reg"
proof -
  obtain rs where wf: "tree_wf rs t" using assms(1) by (auto simp: tree_room_def tree_ok_def)
  note len = tree_wf_len [OF wf]
  have room: "length rs + 2 \<le> 2 ^ 48" using assms(1) len by (simp add: tree_room_def)
  have l: "length (register_of t) = length (mt_slots t)" by (simp add: register_of_def)
  from reserve_slot_spec [OF wf room, of a d g st hint] obtain rs' t' r' where
    s: "reserve_slot a d g st hint t = Some (r', t')" "tree_wf rs' t'" "length rs' \<le> length rs + 2"
    and c: "if mounted t a d g \<noteq> {} then r' = Err (AlreadyMounted a d g) \<and> mt_slots t' = mt_slots t
     else if length (mt_slots t) = 2 ^ 16 then r' = Err TooManySnapshots \<and> mt_slots t' = mt_slots t
     else r' = Ok (SnapshotId (word_of_nat (length (mt_slots t)))) \<and>
       mt_slots t' = mt_slots t @ [Some (new_slot a d g st hint)]" by blast
  have "tree_room t' n"
    using assms(1) s(2,3) len tree_wf_len [OF s(2)] by (auto simp: tree_room_def tree_ok_def)
  moreover have "r' = r \<and> register_of t' = reg"
    using c assms(2) l unfolding mounted_register [of t a d g]
    by (auto simp: register_of_def new_slot_def split: if_splits)
  ultimately show ?thesis using s(1) by blast
qed

lemma remove_register:
  assumes "tree_room t (Suc n)"
  shows "\<exists>r t'. remove sn t = Some (r, t') \<and> tree_room t' n \<and>
    (r \<noteq> None, register_of t') = register_detach sn (register_of t)"
proof -
  obtain rs s where wf: "tree_wf rs t" and sn: "sn = SnapshotId s"
    using assms by (cases sn) (auto simp: tree_room_def tree_ok_def)
  note len = tree_wf_len [OF wf]
  show ?thesis
  proof (cases "slot_at t s")
    case None
    have "(register_of t)[unat s := None] = register_of t"
      using None by (cases "unat s < length (mt_slots t)")
        (auto simp: slot_at_def get_at_def register_of_def intro!: nth_equalityI simp: nth_list_update)
    moreover have "\<not> (unat s < length (register_of t) \<and> register_of t ! unat s \<noteq> None)"
      using None by (auto simp: slot_at_def get_at_def register_of_def split: if_splits)
    ultimately show ?thesis using assms sn remove_missing [OF None]
      by (auto simp: register_detach_def tree_room_def)
  next
    case (Some sl)
    from remove_spec [OF wf Some] obtain t' where
      r: "remove (SnapshotId s) t = Some (Some sl, t')" "tree_wf rs t'" "mt_slots t' = (mt_slots t)[unat s := None]"
      by blast
    then have "tree_room t' n" using assms len tree_wf_len [OF r(2)] by (auto simp: tree_room_def tree_ok_def)
    then show ?thesis using r sn Some
      by (auto simp: register_detach_def register_of_def map_update slot_at_iff)
  qed
qed

section \<open>A handle is a tree and the rest\<close>

locale mount_handle =
  fixes su :: "('h, 's, 'o) surface"
    and tree :: "'h \<Rightarrow> ('s, 'o) mount_tree"
    and put :: "('s, 'o) mount_tree \<Rightarrow> 'h \<Rightarrow> 'h"
    and rest :: "'h \<Rightarrow> 'r"
  assumes tree_put: "tree (put t h) = t"
    and rest_put: "rest (put t h) = rest h"
    and add_tree: "su_add su a d g s h = map_option (\<lambda>(r, t). (r, put t h)) (add a d g s (tree h))"
    and add_lazy_tree:
      "su_add_lazy su a d g op cell ct h = map_option (\<lambda>(r, t). (r, put t h)) (add_lazy a d g op cell ct (tree h))"
    and detach_tree:
      "su_detach su sn h = map_option (\<lambda>(r, t). (r \<noteq> None, put t h)) (remove sn (tree h))"
begin

lemma do_refines:
  assumes "tree_room (tree h) (Suc n)" and "register_do op (register_of (tree h)) = (r, reg)"
  shows "\<exists>h'. surface_do su op h = Some (r, h') \<and> tree_room (tree h') n \<and> register_of (tree h') = reg \<and>
    rest h' = rest h"
proof (cases op)
  case (AddOpen a d g s)
  obtain x where x: "register_add (a, d, g) (register_of (tree h)) = (x, reg)" "r = Added x"
    using assms(2) AddOpen by (auto split: prod.splits)
  from reserve_register [OF assms(1) x(1), of "Ready \<lparr>se_snapshot = s\<rparr>" None] obtain t' where
    "add a d g s (tree h) = Some (x, t')" "tree_room t' n" "register_of t' = reg" by (auto simp: add_def)
  then show ?thesis using AddOpen x(2) by (simp add: add_tree tree_put rest_put)
next
  case (AddLazy a d g l cell ct)
  obtain x where x: "register_add (a, d, g) (register_of (tree h)) = (x, reg)" "r = Added x"
    using assms(2) AddLazy by (auto split: prod.splits)
  from reserve_register [OF assms(1) x(1), of "Pending \<lparr>le_opener = l, le_cell = cell\<rparr>" ct] obtain t' where
    "add_lazy a d g l cell ct (tree h) = Some (x, t')" "tree_room t' n" "register_of t' = reg" by (auto simp: add_lazy_def)
  then show ?thesis using AddLazy x(2) by (simp add: add_lazy_tree tree_put rest_put)
next
  case (Detach sn)
  from remove_register [OF assms(1), of sn] obtain x t' where
    x: "remove sn (tree h) = Some (x, t')" "tree_room t' n"
    "(x \<noteq> None, register_of t') = register_detach sn (register_of (tree h))" by blast
  have "r = Detached (x \<noteq> None)" "register_of t' = reg"
    using assms(2) Detach unfolding Detach register_do.simps x(3) [symmetric] by simp_all
  then show ?thesis using Detach x(1,2) by (simp add: detach_tree tree_put rest_put)
qed

lemma run_refines:
  assumes "tree_room (tree h) (length ops)" and "register_run ops (register_of (tree h)) = (rs, reg)"
  shows "\<exists>h'. surface_run su ops h = Some (rs, h') \<and> tree_ok (tree h') \<and> register_of (tree h') = reg \<and>
    rest h' = rest h"
  using assms
proof (induction ops arbitrary: h rs)
  case Nil
  then show ?case by (auto simp: tree_room_def)
next
  case (Cons op ops)
  obtain r reg1 rs1 where r: "register_do op (register_of (tree h)) = (r, reg1)"
    and run: "register_run ops reg1 = (rs1, reg)" and rs: "rs = r # rs1"
    using Cons.prems(2) by (auto split: prod.splits)
  from do_refines [OF _ r] Cons.prems(1) obtain h1 where
    h1: "surface_do su op h = Some (r, h1)" "tree_room (tree h1) (length ops)" "register_of (tree h1) = reg1"
      "rest h1 = rest h" by auto
  from Cons.IH [OF h1(2)] run h1(3) obtain h' where
    "surface_run su ops h1 = Some (rs1, h')" "tree_ok (tree h')" "register_of (tree h') = reg" "rest h' = rest h1"
    by auto
  then show ?case using h1 rs by auto
qed

end

interpretation fuse_mount: mount_handle fuse_surface "\<lambda>h. mw_tree (hf_world h)"
  "\<lambda>t h. h\<lparr>hf_world := (hf_world h)\<lparr>mw_tree := t\<rparr>\<rparr>"
  "\<lambda>h. (mw_cells (hf_world h), mw_open (hf_world h), mw_chunks (hf_world h))"
  by unfold_locales
    (auto simp: fuse_surface_def mount_add_def mount_add_lazy_def mount_detach_def mount_remove_def tree_write_def
      option.map_comp comp_def split_def)

interpretation nfs_mounted: mount_handle nfs_surface "\<lambda>h. mw_tree (hn_world h)"
  "\<lambda>t h. h\<lparr>hn_world := (hn_world h)\<lparr>mw_tree := t\<rparr>\<rparr>"
  "\<lambda>h. (nm_mountpoint h, nm_serving h, nm_mounted h, mw_cells (hn_world h), mw_open (hn_world h), mw_chunks (hn_world h))"
  by unfold_locales
    (auto simp: nfs_surface_def nfs_add_def nfs_add_lazy_def nfs_detach_def tree_write_def
      option.map_comp comp_def split_def)

interpretation projfs_mounted: mount_handle projfs_surface "\<lambda>h. mw_tree (px_source (hp_pfs h))"
  "\<lambda>t h. h\<lparr>hp_pfs := (hp_pfs h)\<lparr>px_source := (px_source (hp_pfs h))\<lparr>mw_tree := t\<rparr>\<rparr>\<rparr>"
  "\<lambda>h. (px_enums (hp_pfs h), mw_cells (px_source (hp_pfs h)), mw_open (px_source (hp_pfs h)), mw_chunks (px_source (hp_pfs h)))"
  by unfold_locales
    (auto simp: projfs_surface_def projfs_add_def projfs_add_lazy_def projfs_detach_def projfs_write_def
      tree_write_def option.map_comp comp_def split_def)

section \<open>The register, whatever the back end\<close>

lemma fresh_tree:
  "2 * n + 2 \<le> 2 ^ 48 \<Longrightarrow> tree_room mount_tree_new n" "register_of mount_tree_new = [None]"
  using tree_wf_new by (auto simp: tree_room_def tree_ok_def mount_tree_new_def register_of_def)

text \<open>
  C7: A back end can be chosen without changing how snapshots are registered.  From a fresh mount,
  whatever is added, added lazily and detached, in whatever order, the handles of FUSE, NFS and
  ProjFS give the answers of a register of places: a place is taken once, ids count up and are not
  given again, a full id space is refused, a detached id is free for nobody.  No call panics, and
  apart from the tree a handle stays as it was.
\<close>

theorem handles_keep_register:
  assumes "2 * length ops + 2 \<le> 2 ^ 48" and "register_run ops [None] = (answers, reg)"
  shows "(mw_tree (hf_world f) = mount_tree_new \<longrightarrow>
      (\<exists>f'. surface_run fuse_surface ops f = Some (answers, f') \<and>
         tree_ok (mw_tree (hf_world f')) \<and> register_of (mw_tree (hf_world f')) = reg)) \<and>
    (mw_tree (hn_world n) = mount_tree_new \<longrightarrow>
      (\<exists>n'. surface_run nfs_surface ops n = Some (answers, n') \<and>
         tree_ok (mw_tree (hn_world n')) \<and> register_of (mw_tree (hn_world n')) = reg \<and>
         nm_mountpoint n' = nm_mountpoint n \<and> nm_serving n' = nm_serving n \<and> nm_mounted n' = nm_mounted n)) \<and>
    (mw_tree (px_source (hp_pfs p)) = mount_tree_new \<longrightarrow>
      (\<exists>p'. surface_run projfs_surface ops p = Some (answers, p') \<and>
         tree_ok (mw_tree (px_source (hp_pfs p'))) \<and> register_of (mw_tree (px_source (hp_pfs p'))) = reg \<and>
         px_enums (hp_pfs p') = px_enums (hp_pfs p)))"
proof -
  have run: "register_run ops (register_of t) = (answers, reg)" if "t = mount_tree_new" for t
    by (simp add: that fresh_tree(2) assms(2))
  show ?thesis
  proof (intro conjI impI)
    assume "mw_tree (hf_world f) = mount_tree_new"
    with fuse_mount.run_refines [of f ops, OF _ run] fresh_tree(1) [OF assms(1)]
    show "\<exists>f'. surface_run fuse_surface ops f = Some (answers, f') \<and>
         tree_ok (mw_tree (hf_world f')) \<and> register_of (mw_tree (hf_world f')) = reg" by auto
  next
    assume "mw_tree (hn_world n) = mount_tree_new"
    with nfs_mounted.run_refines [of n ops, OF _ run] fresh_tree(1) [OF assms(1)]
    show "\<exists>n'. surface_run nfs_surface ops n = Some (answers, n') \<and>
         tree_ok (mw_tree (hn_world n')) \<and> register_of (mw_tree (hn_world n')) = reg \<and>
         nm_mountpoint n' = nm_mountpoint n \<and> nm_serving n' = nm_serving n \<and> nm_mounted n' = nm_mounted n" by auto
  next
    assume "mw_tree (px_source (hp_pfs p)) = mount_tree_new"
    with projfs_mounted.run_refines [of p ops, OF _ run] fresh_tree(1) [OF assms(1)]
    show "\<exists>p'. surface_run projfs_surface ops p = Some (answers, p') \<and>
         tree_ok (mw_tree (px_source (hp_pfs p'))) \<and> register_of (mw_tree (px_source (hp_pfs p'))) = reg \<and>
         px_enums (hp_pfs p') = px_enums (hp_pfs p)" by auto
  qed
qed

definition demo_register_ops :: "(unit, unit) handle_op list" where
  "demo_register_ops =
     [AddLazy 7 8 9 () 0 None, AddLazy 7 8 9 () 1 None, Detach (SnapshotId 1), AddLazy 7 8 9 () 2 (Some 5),
      Detach (SnapshotId 1)]"

definition demo_nfs_handle :: "(unit, unit, unit) nfs_handle" where
  "demo_nfs_handle =
     \<lparr>nm_mountpoint = \<lparr>op_absolute = True, op_components = [''m'']\<rparr>, nm_serving = True, nm_mounted = True,
      hn_world = \<lparr>mw_tree = mount_tree_new, mw_cells = (\<lambda>_. None), mw_open = (), mw_chunks = ()\<rparr>\<rparr>"

theorem handles_keep_register_witness:
  "\<exists>h. surface_run nfs_surface demo_register_ops demo_nfs_handle =
    Some ([Added (Ok (SnapshotId 1)), Added (Err (AlreadyMounted 7 8 9)), Detached True,
      Added (Ok (SnapshotId 2)), Detached False], h) \<and> nm_serving h"
proof -
  have ops: "register_run demo_register_ops [None] =
      ([Added (Ok (SnapshotId 1)), Added (Err (AlreadyMounted 7 8 9)), Detached True,
        Added (Ok (SnapshotId 2)), Detached False], [None, None, Some (7, 8, 9)])"
    by (simp add: demo_register_ops_def register_detach_def)
  have len: "2 * length demo_register_ops + 2 \<le> 2 ^ 48" by (simp add: demo_register_ops_def)
  have "mw_tree (hn_world demo_nfs_handle) = mount_tree_new" "nm_serving demo_nfs_handle"
    by (simp_all add: demo_nfs_handle_def)
  with handles_keep_register [OF len ops, of undefined demo_nfs_handle undefined] show ?thesis by blast
qed

end
