(* ===== verification/Cli_Login.thy ===== *)
theory Cli_Login
  imports Login
begin

text \<open>
  \<open>steam-depot/src/auth.rs\<close>: the command line has a login of its own, \<open>Auth\<close>, which repeats
  \<open>LazyCachedAuth\<close> and the module \<open>login\<close> of the library, with \<open>anyhow\<close> errors and the token file
  at a fixed place.  It is translated here as it stands, and shown to be the library's.
\<close>

section \<open>Where the tokens are\<close>

text \<open>
  \<open>ProjectDirs::from("", "steam-vent", "steam-vent")\<close> is the user's cache directory, or nothing,
  and then \<open>expect\<close> panics.  The library has the path twice, the command a third time.
\<close>

definition default_refresh_token_cache :: "path option \<Rightarrow> path option" where
  "default_refresh_token_cache cache_dir = map_option (\<lambda>d. d @ [''refresh_tokens.json'']) cache_dir"

definition default_refresh_token_path :: "path option \<Rightarrow> path option" where
  "default_refresh_token_path cache_dir = map_option (\<lambda>d. d @ [''refresh_tokens.json'']) cache_dir"

definition cli_token_path :: "path option \<Rightarrow> path option" where
  "cli_token_path cache_dir = map_option (\<lambda>d. d @ [''refresh_tokens.json'']) cache_dir"

text \<open>
  What an \<open>anyhow::Error\<close> is made from here; of an error of \<open>steam_vent\<close> the text is kept.  The
  printer's error, which the library turns into an I/O error, is among those.
\<close>

datatype cli_error = CliIo io_error | CliDiscovery string | CliConnection string | CliDepot string

definition cli_load :: "json \<Rightarrow> path option \<Rightarrow> string \<Rightarrow> fsys \<Rightarrow> (cli_error, string option) outcome \<times> fsys" where
  "cli_load js cd account fs =
     (case cli_token_path cd of
        None \<Rightarrow> (Panic, fs)
      | Some p \<Rightarrow>
          (case fs_read p fs of
             (Ok raw, fs1) \<Rightarrow>
               (Ok (case (if js_utf8 js raw then js_parse js raw else None) of
                      None \<Rightarrow> None
                    | Some m \<Rightarrow> (case m account of Some t \<Rightarrow> if t \<noteq> [] then Some t else None | None \<Rightarrow> None)), fs1)
           | (_, fs1) \<Rightarrow> (Ok None, fs1)))"

definition cli_has_refresh_token ::
  "json \<Rightarrow> path option \<Rightarrow> string \<Rightarrow> fsys \<Rightarrow> (cli_error, bool) outcome \<times> fsys" where
  "cli_has_refresh_token js cd account fs =
     (case cli_load js cd account fs of (r, fs1) \<Rightarrow> (omap (\<lambda>t. t \<noteq> None) r, fs1))"

definition cli_save ::
  "json \<Rightarrow> path option \<Rightarrow> string \<Rightarrow> string \<Rightarrow> fsys \<Rightarrow> (cli_error, unit) outcome \<times> fsys" where
  "cli_save js cd account token fs =
     (case cli_token_path cd of
        None \<Rightarrow> (Panic, fs)
      | Some p \<Rightarrow>
          (case (if p = [] then (Ok (), fs) else fs_create_dir_all (butlast p) fs) of
             (Err e, fs1) \<Rightarrow> (Err (CliIo e), fs1)
           | (Panic, fs1) \<Rightarrow> (Panic, fs1)
           | (Ok _, fs1) \<Rightarrow>
               (case fs_read p fs1 of
                  (r, fs2) \<Rightarrow>
                    (let m = (case r of
                                Ok raw \<Rightarrow>
                                  (case (if js_utf8 js raw then js_parse js raw else None) of
                                     Some m \<Rightarrow> m | None \<Rightarrow> Map.empty)
                              | _ \<Rightarrow> Map.empty) in
                     case js_print js (m(account \<mapsto> token)) of
                       Err e \<Rightarrow> (Err (CliIo e), fs2)
                     | Panic \<Rightarrow> (Panic, fs2)
                     | Ok b \<Rightarrow> (case fs_write p b fs2 of (r, fs3) \<Rightarrow> (omap_err CliIo r, fs3))))))"

section \<open>Logging in\<close>

text \<open>The client library, with its errors as texts.\<close>

record ('s, 'n, 'c, 'w) cli_steam =
  cl_discover :: "'w \<Rightarrow> (string, 's) outcome \<times> 'w"
  cl_access :: "'s \<Rightarrow> string \<Rightarrow> string \<Rightarrow> 'w \<Rightarrow> (string, 'n) outcome \<times> 'w"
  cl_password :: "'s \<Rightarrow> string \<Rightarrow> string \<Rightarrow> 'w \<Rightarrow> (string, 'n) outcome \<times> 'w"
  cl_token :: "'n \<Rightarrow> string option"
  cl_cdn_servers :: "'n \<Rightarrow> 'w \<Rightarrow> (string, 'c) outcome \<times> 'w"

type_synonym ('w, 'a) cli_login_op = "'w login_world \<Rightarrow> (cli_error, 'a) outcome \<times> 'w login_world"

definition cli_password_login ::
  "json \<Rightarrow> ('s, 'n, 'c, 'w) cli_steam \<Rightarrow> path option \<Rightarrow> 's \<Rightarrow> string \<Rightarrow> string \<Rightarrow> ('w, 'n) cli_login_op" where
  "cli_password_login js st cd server_list account password w =
     (case cl_password st server_list account password (lw_net w) of
        (Err e, n) \<Rightarrow> (Err (CliConnection e), w\<lparr>lw_net := n\<rparr>)
      | (Panic, n) \<Rightarrow> (Panic, w\<lparr>lw_net := n\<rparr>)
      | (Ok c, n) \<Rightarrow>
          (case cl_token st c of
             None \<Rightarrow> (Ok c, w\<lparr>lw_net := n\<rparr>)
           | Some t \<Rightarrow>
               (case cli_save js cd account t (lw_fs w) of
                  (r, fs1) \<Rightarrow> (omap (\<lambda>_. c) r, \<lparr>lw_fs = fs1, lw_net = n\<rparr>))))"

definition cli_establish_connection ::
  "json \<Rightarrow> ('s, 'n, 'c, 'w) cli_steam \<Rightarrow> path option \<Rightarrow> string \<Rightarrow> string \<Rightarrow> ('w, 'n) cli_login_op" where
  "cli_establish_connection js st cd account password w =
     (case cl_discover st (lw_net w) of
        (Err e, n) \<Rightarrow> (Err (CliDiscovery e), w\<lparr>lw_net := n\<rparr>)
      | (Panic, n) \<Rightarrow> (Panic, w\<lparr>lw_net := n\<rparr>)
      | (Ok server_list, n) \<Rightarrow>
          (case cli_load js cd account (lw_fs w) of
             (Err e, fs1) \<Rightarrow> (Err e, \<lparr>lw_fs = fs1, lw_net = n\<rparr>)
           | (Panic, fs1) \<Rightarrow> (Panic, \<lparr>lw_fs = fs1, lw_net = n\<rparr>)
           | (Ok None, fs1) \<Rightarrow> cli_password_login js st cd server_list account password \<lparr>lw_fs = fs1, lw_net = n\<rparr>
           | (Ok (Some t), fs1) \<Rightarrow>
               (case cl_access st server_list account t n of
                  (Ok c, n1) \<Rightarrow> (Ok c, \<lparr>lw_fs = fs1, lw_net = n1\<rparr>)
                | (Panic, n1) \<Rightarrow> (Panic, \<lparr>lw_fs = fs1, lw_net = n1\<rparr>)
                | (Err _, n1) \<Rightarrow>
                    cli_password_login js st cd server_list account password \<lparr>lw_fs = fs1, lw_net = n1\<rparr>)))"

definition cli_authenticate ::
  "json \<Rightarrow> ('s, 'n, 'c, 'w) cli_steam \<Rightarrow> path option \<Rightarrow> string \<Rightarrow> string \<Rightarrow> ('w, 'c) cli_login_op" where
  "cli_authenticate js st cd account password w =
     (case cli_establish_connection js st cd account password w of
        (Err e, w1) \<Rightarrow> (Err e, w1)
      | (Panic, w1) \<Rightarrow> (Panic, w1)
      | (Ok connection, w1) \<Rightarrow>
          (case cl_cdn_servers st connection (lw_net w1) of
             (r, n) \<Rightarrow> (omap_err CliDepot r, w1\<lparr>lw_net := n\<rparr>)))"

record 'c cli_auth =
  ca_account :: string
  ca_password :: string
  ca_inner :: "'c option"

definition cli_auth_prepare ::
  "json \<Rightarrow> ('s, 'n, 'c, 'w) cli_steam \<Rightarrow> path option \<Rightarrow> string \<Rightarrow> string \<Rightarrow> ('w, 'c cli_auth) cli_login_op" where
  "cli_auth_prepare js st cd account password w =
     (case cli_has_refresh_token js cd account (lw_fs w) of
        (Err e, fs1) \<Rightarrow> (Err e, w\<lparr>lw_fs := fs1\<rparr>)
      | (Panic, fs1) \<Rightarrow> (Panic, w\<lparr>lw_fs := fs1\<rparr>)
      | (Ok True, fs1) \<Rightarrow>
          (Ok \<lparr>ca_account = account, ca_password = password, ca_inner = None\<rparr>, w\<lparr>lw_fs := fs1\<rparr>)
      | (Ok False, fs1) \<Rightarrow>
          (case cli_authenticate js st cd account password (w\<lparr>lw_fs := fs1\<rparr>) of
             (r, w1) \<Rightarrow>
               (omap (\<lambda>ctx. \<lparr>ca_account = account, ca_password = password, ca_inner = Some ctx\<rparr>) r, w1)))"

definition cli_resolve ::
  "json \<Rightarrow> ('s, 'n, 'c, 'w) cli_steam \<Rightarrow> (cli_error \<Rightarrow> string) \<Rightarrow> path option \<Rightarrow> 'c cli_auth \<Rightarrow> 'w login_world \<Rightarrow>
     (vfs_error, 'c) outcome \<times> 'c cli_auth \<times> 'w login_world" where
  "cli_resolve js st text_of cd ca w =
     (case ca_inner ca of
        Some c \<Rightarrow> (Ok c, ca, w)
      | None \<Rightarrow>
          (case cli_authenticate js st cd (ca_account ca) (ca_password ca) w of
             (Ok c, w1) \<Rightarrow> (Ok c, ca\<lparr>ca_inner := Some c\<rparr>, w1)
           | (Err e, w1) \<Rightarrow> (Err (VfsOther (text_of e)), ca, w1)
           | (Panic, w1) \<Rightarrow> (Panic, ca, w1)))"

section \<open>The two are one\<close>

text \<open>The library's view of the same client: it names the error by the call that had it.\<close>

definition library_login :: "('s, 'n, 'c, 'w) cli_steam \<Rightarrow> ('s, 'n, 'c, 'w) steam_login" where
  "library_login st =
     \<lparr>lg_discover = (\<lambda>w. map_prod (omap_err ServerDiscoveryError) (\<lambda>x. x) (cl_discover st w)),
      lg_access = (\<lambda>s a t w. map_prod (omap_err ConnectionError) (\<lambda>x. x) (cl_access st s a t w)),
      lg_password = (\<lambda>s a t w. map_prod (omap_err ConnectionError) (\<lambda>x. x) (cl_password st s a t w)),
      lg_token = cl_token st,
      lg_cdn_servers = (\<lambda>c w. map_prod (omap_err VfsDepot) (\<lambda>x. x) (cl_cdn_servers st c w))\<rparr>"

fun vfs_of_cli :: "cli_error \<Rightarrow> vfs_error" where
  "vfs_of_cli (CliIo e) = VfsIo e"
| "vfs_of_cli (CliDiscovery e) = ServerDiscoveryError e"
| "vfs_of_cli (CliConnection e) = ConnectionError e"
| "vfs_of_cli (CliDepot e) = VfsDepot e"

text \<open>Every error here is \<open>transparent\<close> in error.rs, so an error of the library has the text of what it wraps.\<close>

definition library_auth :: "path \<Rightarrow> 'c cli_auth \<Rightarrow> 'c lazy_auth" where
  "library_auth p ca =
     \<lparr>la_cache_path = p, la_account = ca_account ca, la_password = ca_password ca, la_inner = ca_inner ca\<rparr>"

lemma library_login_simps [simp]:
  "lg_discover (library_login st) w = map_prod (omap_err ServerDiscoveryError) (\<lambda>x. x) (cl_discover st w)"
  "lg_access (library_login st) s a t w = map_prod (omap_err ConnectionError) (\<lambda>x. x) (cl_access st s a t w)"
  "lg_password (library_login st) s a t w = map_prod (omap_err ConnectionError) (\<lambda>x. x) (cl_password st s a t w)"
  "lg_token (library_login st) = cl_token st"
  "lg_cdn_servers (library_login st) c w = map_prod (omap_err VfsDepot) (\<lambda>x. x) (cl_cdn_servers st c w)"
  by (simp_all add: library_login_def)

lemma omap_err_Err_iff: "omap_err g x = Err e \<longleftrightarrow> (\<exists>e'. x = Err e' \<and> e = g e')"
  by (cases x) auto

lemma cdn_errors: "omap_err vfs_of_cli (omap_err CliDepot r) = omap_err VfsDepot r"
  by (cases r) simp_all

lemma load_is_library:
  assumes "cli_token_path cd = Some p"
  shows "cli_load js cd account fs = (case token_load js p account fs of (t, fs1) \<Rightarrow> (Ok t, fs1))"
  using assms
  by (auto simp: cli_load_def token_load_def read_tokens_def split: prod.splits outcome.splits option.splits)

lemma save_is_library:
  assumes "cli_token_path cd = Some p"
  shows "cli_save js cd account t fs = map_prod (omap_err CliIo) (\<lambda>x. x) (token_save js p account t fs)"
  using assms
  by (auto simp: cli_save_def token_save_def read_tokens_def Let_def split: prod.splits outcome.splits option.splits)

lemma password_login_is_library:
  assumes "cli_token_path cd = Some p"
  shows "password_login js (library_login st) s p account password w =
    map_prod (omap_err vfs_of_cli) (\<lambda>x. x) (cli_password_login js st cd s account password w)"
  by (auto simp: password_login_def cli_password_login_def save_is_library [OF assms]
      split: prod.splits outcome.splits option.splits)

lemma establish_is_library:
  assumes "cli_token_path cd = Some p"
  shows "establish_connection js (library_login st) p account password w =
    map_prod (omap_err vfs_of_cli) (\<lambda>x. x) (cli_establish_connection js st cd account password w)"
  by (auto simp: establish_connection_def cli_establish_connection_def load_is_library [OF assms]
      password_login_is_library [OF assms]
      split: prod.splits outcome.splits option.splits)

lemma authenticate_is_library:
  assumes "cli_token_path cd = Some p"
  shows "authenticate js (library_login st) p account password w =
    map_prod (omap_err vfs_of_cli) (\<lambda>x. x) (cli_authenticate js st cd account password w)"
  by (auto simp: authenticate_def cli_authenticate_def establish_is_library [OF assms] cdn_errors
      split: prod.splits outcome.splits option.splits)

lemma prepare_is_library:
  assumes "cli_token_path cd = Some p"
  shows "auth_prepare js (library_login st) p account password w =
    map_prod (\<lambda>r. omap_err vfs_of_cli (omap (library_auth p) r)) (\<lambda>x. x)
      (cli_auth_prepare js st cd account password w)"
  by (auto simp: auth_prepare_def cli_auth_prepare_def has_refresh_token_def cli_has_refresh_token_def
      load_is_library [OF assms] authenticate_is_library [OF assms] library_auth_def
      omap_err_Err_iff split: prod.splits outcome.splits bool.splits)

lemma resolve_is_library:
  assumes "cli_token_path cd = Some p"
  shows "lazy_resolve js (library_login st) text_of (library_auth p ca) w =
    (case cli_resolve js st (\<lambda>e. text_of (vfs_of_cli e)) cd ca w of (r, ca1, w1) \<Rightarrow> (r, library_auth p ca1, w1))"
  by (auto simp: lazy_resolve_def cli_resolve_def authenticate_is_library [OF assms] library_auth_def
      split: prod.splits outcome.splits option.splits)

text \<open>
  The command's own login is the library's.  Over the same client and the same token file, which
  both look for in the same place, \<open>prepare\<close> and \<open>resolve\<close> of the two ask the same questions,
  write the same file and end alike, with the same text where they fail; so a token that one saved
  is found by the other.  Without a cache directory neither has a path.
\<close>

theorem cli_login_is_library:
  "let p = d @ [''refresh_tokens.json'']
   in default_refresh_token_cache (Some d) = Some p \<and> default_refresh_token_path (Some d) = Some p \<and>
      default_refresh_token_cache None = None \<and> cli_auth_prepare js st None account password w = (Panic, w) \<and>
      auth_prepare js (library_login st) p account password w =
        (case cli_auth_prepare js st (Some d) account password w of
           (r, w1) \<Rightarrow> (omap_err vfs_of_cli (omap (library_auth p) r), w1)) \<and>
      lazy_resolve js (library_login st) text_of (library_auth p ca) w =
        (case cli_resolve js st (\<lambda>e. text_of (vfs_of_cli e)) (Some d) ca w of
           (r, ca1, w1) \<Rightarrow> (r, library_auth p ca1, w1)) \<and>
      cli_load js (Some d) account fs = (case token_load js p account fs of (t, fs1) \<Rightarrow> (Ok t, fs1))"
proof -
  have p: "cli_token_path (Some d) = Some (d @ [''refresh_tokens.json''])" by (simp add: cli_token_path_def)
  have none: "cli_auth_prepare js st None account password w = (Panic, w)"
    by (simp add: cli_auth_prepare_def cli_has_refresh_token_def cli_load_def cli_token_path_def)
  show ?thesis
    unfolding Let_def prepare_is_library [OF p] resolve_is_library [OF p] load_is_library [OF p]
    using none
    by (simp add: default_refresh_token_cache_def default_refresh_token_path_def split: prod.split)
qed

end
