(* ===== verification/Cat_Tool.thy ===== *)
theory Cat_Tool
  imports Probe_Tools
begin

text \<open>
  \<open>examples/cat.rs\<close>, the smallest program over the whole library: a store is opened, a manifest
  taken from its cache or from Steam, a directory listed or a file read through the chunk cache
  and the CDN.  The login (\<open>Login\<close>) has been prepared; a failing standard output is left out.
\<close>

section \<open>The tool\<close>

datatype cat_cmd = CatLs string | CatFile string

datatype cat_output = Listing "(char \<times> u64 option \<times> string) list" | Stdout bytes

datatype cat_error = CatOpen vfs_error | CatFs io_error

text \<open>
  \<open>main\<close> after the login was prepared: the store is made at its root, the manifest opened, and the
  command run over the snapshot, which has the process's disk and Steam world.
\<close>

definition cat_main ::
  "('c, 'k, 'w) steam_client \<Rightarrow> postcard \<Rightarrow> 'l chunk_env \<Rightarrow> depot_api \<Rightarrow> path \<Rightarrow> nat \<Rightarrow> u32 \<Rightarrow> u32 \<Rightarrow> u64 \<Rightarrow>
     string \<Rightarrow> cat_cmd \<Rightarrow> fsys \<Rightarrow> ('c, 'k, 'w) steam_world \<Rightarrow>
     (cat_error, cat_output) outcome \<times> ('l, ('c, 'k, 'w) steam_world) cache_world" where
  "cat_main sc pc env api store_root pid app_id depot_id gid branch cmd fs sw =
     (case depot_root_open env store_root pid fs sw of
        (vfs, cw) \<Rightarrow>
          (case open_depot_manifest sc pc env api vfs app_id depot_id gid branch
              \<lparr>mcw_fs = cw_fs cw, mcw_in_flight = [], mcw_net = cw_inner cw\<rparr> of
             (r, mw) \<Rightarrow>
               (let cw1 = cw\<lparr>cw_fs := mcw_fs mw, cw_inner := mcw_net mw\<rparr> in
                case r of
                  Err e \<Rightarrow> (Err (CatOpen e), cw1)
                | Panic \<Rightarrow> (Panic, cw1)
                | Ok st \<Rightarrow>
                    (case cmd of
                       CatLs p \<Rightarrow> (omap Listing (omap_err CatFs (ls_rows api st p)), cw1)
                     | CatFile p \<Rightarrow>
                         (case read_full api st p cw1 of (q, cw2) \<Rightarrow> (omap Stdout (omap_err CatFs q), cw2))))))"

section \<open>Opening a manifest leaves the chunks alone\<close>

lemma manifest_load_chunks:
  assumes "manifest_load pc mc key fs = (r, fs')" and "p \<noteq> manifest_path mc key"
  shows "fs_files fs' p = fs_files fs p"
proof -
  obtain g fs1 where g: "fs_read (manifest_path mc key) fs = (g, fs1)" by fastforce
  obtain q fs2 where q: "fs_remove_file (manifest_path mc key) fs1 = (q, fs2)" by fastforce
  have f: "fs_files fs1 = fs_files fs" "fs_files fs2 p = fs_files fs p"
    using fs_read_files [OF g] fs_remove_files [OF q] assms(2) by auto
  have "fs' = fs1 \<or> fs' = fs2"
    using assms(1) g q by (auto simp: manifest_load_def Let_def split: outcome.splits option.splits if_splits)
  then show ?thesis using f by auto
qed

lemma manifest_save_chunks:
  assumes "manifest_save pc mc a m fs = (r, fs')"
    and "\<forall>key x. p \<noteq> manifest_path mc key \<and> p \<noteq> with_extension (manifest_path mc key) x"
  shows "fs_files fs' p = fs_files fs p"
proof -
  let ?p = "manifest_path mc (a, m_depot_id m, m_manifest_id m)"
  let ?t = "with_extension ?p (''tmp.'' @ dec_digits (mc_pid mc))"
  obtain q1 fs1 where c: "fs_create_dir_all (butlast ?p) fs = (q1, fs1)" by fastforce
  note f1 = fs_create_dir_all_files(1) [OF c]
  show ?thesis
  proof (cases "is_ok q1 \<and> pc_encode pc (cached_of_manifest m) \<noteq> None")
    case False
    then have "fs' = fs1" using assms(1) c
      by (cases q1) (auto simp: manifest_save_def Let_def split: option.splits)
    then show ?thesis using f1 by simp
  next
    case True
    then obtain bs where bs: "pc_encode pc (cached_of_manifest m) = Some bs" and q1: "q1 = Ok ()"
      by (auto simp: is_ok_iff)
    obtain q2 fs2 where w: "fs_write ?t bs fs1 = (q2, fs2)" by fastforce
    obtain q3 fs3 where n: "fs_rename ?t ?p fs2 = (q3, fs3)" by fastforce
    have f2: "fs_files fs2 p = fs_files fs1 p" using assms(2) fs_write_files(1) [OF w] by auto
    have f3: "fs_files fs3 p = fs_files fs2 p"
      using assms(2) fs_rename_files [OF n] by (cases q3) auto
    have "fs' = fs2 \<or> fs' = fs3"
      using assms(1) c q1 bs w n by (cases q2) (auto simp: manifest_save_def Let_def)
    then show ?thesis using f1 f2 f3 by auto
  qed
qed

lemma get_or_fetch_chunks:
  assumes "get_or_fetch pc mc key fetch w = (r, w')"
    and "\<forall>key x. p \<noteq> manifest_path mc key \<and> p \<noteq> with_extension (manifest_path mc key) x"
  shows "fs_files (mcw_fs w') p = fs_files (mcw_fs w) p"
proof -
  obtain g1 fs1 where g1: "manifest_load pc mc key (mcw_fs w) = (g1, fs1)" by fastforce
  obtain g2 fs2 where g2: "manifest_load pc mc key fs1 = (g2, fs2)" by fastforce
  obtain f n where f: "fetch (mcw_net w) = (f, n)" by fastforce
  have l: "fs_files fs1 p = fs_files (mcw_fs w) p" "fs_files fs2 p = fs_files fs1 p"
    using manifest_load_chunks [OF g1, of p] manifest_load_chunks [OF g2, of p] assms(2) by auto
  have s: "fs_files fs3 p = fs_files fs2 p" if "manifest_save pc mc (fst key) m fs2 = (q, fs3)" for m q fs3
    using manifest_save_chunks [OF that assms(2)] .
  have "mcw_fs w' \<in> {fs1, fs2} \<or> (\<exists>m q. manifest_save pc mc (fst key) m fs2 = (q, mcw_fs w'))"
    using assms(1) g1 g2 f
    by (auto simp: get_or_fetch_def Let_def split: outcome.splits option.splits prod.splits)
  then show ?thesis using l s by auto
qed

lemma chunk_not_manifest:
  assumes "mc = dr_manifests (depot_root_new root pid)"
  shows "root @ [CHUNKS_DIR, h] \<noteq> manifest_path mc key \<and> root @ [CHUNKS_DIR, h] \<noteq> with_extension (manifest_path mc key) x"
proof -
  obtain a d g where k: "key = (a, d, g)" by (cases key)
  have "mc_root mc = root @ [''manifests'']"
    using assms by (simp add: depot_root_new_def manifest_cache_new_def)
  then have "length (manifest_path mc key) = length root + 4" "length (with_extension (manifest_path mc key) x) = length root + 4"
    by (simp_all add: k manifest_tmp) (simp add: manifest_path_def)
  moreover have "length (root @ [CHUNKS_DIR, h]) = length root + 2" by simp
  ultimately have "length (root @ [CHUNKS_DIR, h]) \<noteq> length (manifest_path mc key)"
    "length (root @ [CHUNKS_DIR, h]) \<noteq> length (with_extension (manifest_path mc key) x)" by linarith+
  then show ?thesis by metis
qed

lemma read_full_calm:
  assumes "readable plain api m f" and "api_file_type api f = FtFile" and "f_size f < 2 ^ 63"
    and "cache_calm env dir inner iinv plain (c_sha ` set (api_chunks api f)) w"
    and "read_full api (depot_store_new m (fs_cache_store env dir inner)) (f_path f) w = (r, w')"
  shows "is_ok r"
proof -
  let ?st = "depot_store_new m (fs_cache_store env dir inner)"
  obtain i where i: "fst (build_index (m_files m)) (strip_leading_slash (f_path f)) = Some i" "f = m_files m ! i"
    using assms(1) readable_index by blast
  have wf: "wf_files (m_files m)" "f \<in> set (m_files m)" "file_ok plain api f"
    using assms(1) by (simp_all add: readable_def)
  have ne: "f_path f \<noteq> []" "f_path f \<noteq> ''/''"
    using wf wf_path_no_lead(2,3) by (auto simp: wf_files_def list_all_iff)
  have il: "i < length (m_files m)" using i(1) by (rule by_path_lt)
  have "metadata api ?st (f_path f) = Ok (meta_of api f)"
    using ne i(1) il unfolding i(2) [symmetric] by (simp add: metadata_def get_at_def Let_def i(2) [symmetric])
  then have rd: "read api ?st (f_path f) 0 (f_size f) w = (r, w')"
    using assms(2,5) by (simp add: read_full_def meta_of_def)
  have get: "cs_get (fs_cache_store env dir inner) = fs_cache_get env dir inner" by (simp add: fs_cache_store_def)
  obtain q out w1 where q: "read_into api ?st (f_path f) 0 (f_size f) [] w = (q, out, w1)" by (metis prod_cases3)
  have fits: "length ([] :: bytes) + unat (f_size f) < 2 ^ 63" using assms(3) by (simp add: word_less_nat_alt)
  have "unat (0 :: u64) + unat (f_size f) < 2 ^ 64" using unsigned_less [of "f_size f", where 'a = nat] by simp
  then have "fst (read_into api ?st (f_path f) 0 (f_size f) [] w) = Ok ()"
    using wf(3) by (intro cached_full.read_into_returns [OF i get _ _ _ _ _ _ fits assms(4)]) (auto simp: file_ok_def)
  then show ?thesis using rd q by (auto simp: read_def)
qed

lemma read_full_exact:
  assumes "readable plain api m f \<and> cache_ready env dir inner iinv plain w"
    and "read_full api (depot_store_new m (fs_cache_store env dir inner)) (f_path f) w = (r, w')"
  shows "cache_ready env dir inner iinv plain w' \<and>
    (\<forall>b. r = Ok b \<longrightarrow> b = file_content plain (api_chunks api f))"
proof -
  let ?st = "depot_store_new m (fs_cache_store env dir inner)"
  obtain i where i: "fst (build_index (m_files m)) (strip_leading_slash (f_path f)) = Some i" "f = m_files m ! i"
    using assms(1) readable_index by blast
  show ?thesis
  proof (cases "\<exists>meta. metadata api ?st (f_path f) = Ok meta \<and> fm_kind meta = FtFile")
    case False
    then show ?thesis using assms by (auto simp: read_full_def split: outcome.splits if_splits)
  next
    case True
    then obtain meta where meta: "metadata api ?st (f_path f) = Ok meta" "fm_kind meta = FtFile" by blast
    have st: "ds_by_path ?st = fst (build_index (m_files m))" "ds_manifest ?st = m"
      by (simp_all add: depot_store_new_def split: prod.split)
    have "fm_size meta = f_size f"
      using meta i by (auto simp: metadata_def st get_at_def meta_of_def Let_def split: if_splits)
    then have rd: "read api ?st (f_path f) 0 (f_size f) w = (r, w')"
      using assms(2) meta by (simp add: read_full_def)
    have b: "unat (0 :: u64) + unat (f_size f) \<le> unat (f_size f)" by simp
    show ?thesis
      using disk_reader.rd_inv [OF assms(1) b rd] disk_reader.content_length [OF assms(1)]
        disk_reader.rd_sound [OF assms(1) b] rd by auto
  qed
qed

text \<open>On a disk that works, with a service that answers, opening succeeds.\<close>

lemma manifest_load_calm:
  assumes "fs_faults fs = []" and "manifest_load pc mc key fs = (r, fs')"
  shows "is_ok r" and "fs_faults fs' = []"
  using assms
  by (cases "fs_files fs (manifest_path mc key)";
      auto simp: manifest_load_def fs_read_def fs_remove_file_def next_fault_quiet Let_def split: option.splits)+

lemma manifest_save_calm:
  assumes "fs_faults fs = []" and "manifest_save pc mc a m fs = (r, fs')"
    and "pc_encode pc (cached_of_manifest m) \<noteq> None"
  shows "is_ok r" and "fs_faults fs' = []"
  using assms
  by (auto simp: manifest_save_def fs_create_dir_all_def fs_write_def fs_create_def fs_write_all_def fs_rename_def
      next_fault_quiet Let_def split: option.splits if_splits)

lemma get_or_fetch_calm:
  assumes "fs_faults (mcw_fs w) = []" and "get_or_fetch pc mc key fetch w = (r, w')"
    and "\<forall>n. \<exists>n'. fetch n = (Ok m, n')" and "pc_encode pc (cached_of_manifest m) \<noteq> None"
  shows "is_ok r" and "fs_faults (mcw_fs w') = []"
proof -
  obtain g1 fs1 where g1: "manifest_load pc mc key (mcw_fs w) = (g1, fs1)" by fastforce
  note l1 = manifest_load_calm [OF assms(1) g1]
  obtain g2 fs2 where g2: "manifest_load pc mc key fs1 = (g2, fs2)" by fastforce
  note l2 = manifest_load_calm [OF l1(2) g2]
  obtain q fs3 where q: "manifest_save pc mc (fst key) m fs2 = (q, fs3)" by fastforce
  note s = manifest_save_calm [OF l2(2) q assms(4)]
  obtain n where f: "fetch (mcw_net w) = (Ok m, n)" using assms(3) by blast
  have "is_ok r \<and> fs_faults (mcw_fs w') = []"
    using assms(2) g1 g2 q f l1 l2 s
    by (auto simp: get_or_fetch_def Let_def is_ok_iff split: option.splits)
  then show "is_ok r" and "fs_faults (mcw_fs w') = []" by blast+
qed

section \<open>What is printed\<close>

text \<open>
  C2: From the name of a manifest to the bytes of a file.  Let Steam keep its manifests, and the disk
  hold of manifests and chunks nothing that decodes to something else; whatever fails besides,
  however much of it is cached, if \<open>cat\<close> succeeds for a file of the manifest it has printed the
  content the manifest gives that file, all of it, and the cache is left fit for the next.  And it
  succeeds when the disk works, Steam answers and has the chunks.
\<close>

theorem cat_prints_file:
  assumes "env_ok env" and "postcard_ok pc"
    and "fetch_ok truth (a, d, g) (manifest_fetch sc a d g branch)"
    and "manifests_inv pc (dr_manifests (depot_root_new root pid)) truth fs"
    and "disk_sound env (root @ [CHUNKS_DIR]) plain fs"
    and "inner_ok env (\<lambda>h b. b = plain h) (\<lambda>_. True) (cdn_chunk_store sc (cdn_store_new api a d (truth (a, d, g))))"
    and "readable plain api (truth (a, d, g)) f"
    and "cat_main sc pc env api root pid a d g branch (CatFile (f_path f)) fs sw = (r, cw)"
  shows "(\<forall>out. r = Ok out \<longrightarrow> out = Stdout (file_content plain (api_chunks api f))) \<and>
    disk_sound env (root @ [CHUNKS_DIR]) plain (cw_fs cw) \<and>
    (fs_faults fs = [] \<and> (\<forall>n. \<exists>n'. manifest_fetch sc a d g branch n = (Ok (truth (a, d, g)), n')) \<and>
       pc_encode pc (cached_of_manifest (truth (a, d, g))) \<noteq> None \<and>
       inner_has env (\<lambda>_. True) (cdn_chunk_store sc (cdn_store_new api a d (truth (a, d, g))))
         (c_sha ` set (api_chunks api f)) \<and> api_file_type api f = FtFile \<and> f_size f < 2 ^ 63 \<longrightarrow> is_ok r)"
proof -
  let ?dr = "depot_root_new root pid" and ?m = "truth (a, d, g)"
  let ?inner = "cdn_chunk_store sc (cdn_store_new api a d ?m)"
  define fs0 where "fs0 = snd (fs_create_dir_all (root @ [CHUNKS_DIR]) fs)"
  have fs0: "fs_files fs0 = fs_files fs"
    by (simp add: fs0_def create_dir_files)
  have op: "depot_root_open env root pid fs sw = (?dr, cache_start env fs0 sw)"
    by (simp add: depot_root_open_def chunk_dir_open_def fs0_def)
  let ?w = "\<lparr>mcw_fs = fs0, mcw_in_flight = [], mcw_net = get_lazy a d sw\<rparr>"
  obtain q mw where g: "get_or_fetch pc (dr_manifests ?dr) (a, d, g) (manifest_fetch sc a d g branch) ?w = (q, mw)"
    by fastforce
  have inv: "manifests_inv pc (dr_manifests ?dr) truth (mcw_fs ?w)"
    using assms(4) fs0 by (simp add: manifests_inv_def)
  note gs = get_or_fetch_sound [OF g assms(2) inv assms(3)]
  have ch: "fs_files (mcw_fs mw) (root @ [CHUNKS_DIR, h]) = fs_files fs (root @ [CHUNKS_DIR, h])" for h
    using get_or_fetch_chunks [OF g, of "root @ [CHUNKS_DIR, h]"] chunk_not_manifest [OF refl] fs0 by auto
  then have ds: "disk_sound env (root @ [CHUNKS_DIR]) plain (mcw_fs mw)"
    using assms(5) by (simp add: disk_sound_def)
  have q0: "fs_faults fs0 = []" if "fs_faults fs = []"
    using that by (simp add: fs0_def fs_create_dir_all_def next_fault_quiet)
  note calm = get_or_fetch_calm [OF _ g]
  have opn: "open_depot_manifest sc pc env api ?dr a d g branch \<lparr>mcw_fs = fs0, mcw_in_flight = [], mcw_net = sw\<rparr> =
      (omap (\<lambda>m. depot_store_new m (fs_cache_store env (dr_chunks ?dr) (cdn_chunk_store sc (cdn_store_new api a d m)))) q, mw)"
    using g by (cases q) (simp_all add: open_depot_manifest_def open_depot_manifest_with_chunks_def get_manifest_def Let_def)
  let ?cw = "(cache_start env fs0 sw)\<lparr>cw_fs := mcw_fs mw, cw_inner := mcw_net mw\<rparr>"
  show ?thesis
  proof (cases q)
    case (Ok m)
    then have m: "m = ?m" using gs by blast
    let ?st = "depot_store_new ?m (fs_cache_store env (dr_chunks ?dr) ?inner)"
    have dir: "dr_chunks ?dr = chunk_dir_new (root @ [CHUNKS_DIR])" by (simp add: depot_root_new_def)
    have i: "readable plain api ?m f \<and> cache_ready env (dr_chunks ?dr) ?inner (\<lambda>_. True) plain ?cw"
      using assms(1,6,7) ds
      by (auto simp: cache_ready_def cache_inv_def cache_start_def path_for_def dir chunk_dir_new_def disk_sound_def
          env_ok_def lru_ok_def)
    obtain b cw2 where rf: "read_full api ?st (f_path f) ?cw = (b, cw2)" by fastforce
    have res: "r = omap Stdout (omap_err CatFs b)" "cw = cw2"
      using assms(8) op opn Ok m rf by (simp_all add: cat_main_def cache_start_def Let_def)
    have "cache_ready env (dr_chunks ?dr) ?inner (\<lambda>_. True) plain cw2 \<and>
        (\<forall>x. b = Ok x \<longrightarrow> x = file_content plain (api_chunks api f))"
      by (rule read_full_exact [OF i rf])
    moreover have "is_ok r" if c: "fs_faults fs = []" "\<forall>n. \<exists>n'. manifest_fetch sc a d g branch n = (Ok ?m, n')"
      "pc_encode pc (cached_of_manifest ?m) \<noteq> None" "inner_has env (\<lambda>_. True) ?inner (c_sha ` set (api_chunks api f))"
      "api_file_type api f = FtFile" "f_size f < 2 ^ 63"
    proof -
      have "fs_faults (mcw_fs mw) = []" using calm(2) [OF _ c(2,3)] q0 [OF c(1)] by simp
      then have "cache_calm env (dr_chunks ?dr) ?inner (\<lambda>_. True) plain (c_sha ` set (api_chunks api f)) ?cw"
        using i c(4) by (simp add: cache_calm_def)
      from read_full_calm [OF assms(7) c(5,6) this rf] show ?thesis using res(1) by (auto simp: is_ok_iff)
    qed
    ultimately show ?thesis using res
      by (auto simp: cache_ready_def cache_inv_def path_for_def dir chunk_dir_new_def disk_sound_def)
  next
    case (Err e)
    then have "\<not> (fs_faults fs = [] \<and> (\<forall>n. \<exists>n'. manifest_fetch sc a d g branch n = (Ok ?m, n')) \<and>
        pc_encode pc (cached_of_manifest ?m) \<noteq> None)"
      using calm(1) [of ?m] q0 by (auto simp: is_ok_iff)
    moreover have "r = Err (CatOpen e)" "cw_fs cw = mcw_fs mw"
      using Err assms(8) op opn by (auto simp: cat_main_def cache_start_def Let_def)
    ultimately show ?thesis using ds by auto
  next
    case Panic
    then show ?thesis using gs by simp
  qed
qed

section \<open>A run\<close>

definition cat_client :: "(unit, nat, nat) steam_client" where
  "cat_client =
     \<lparr>sc_login = (\<lambda>n. (Ok (), n + 1)), sc_depot_key = (\<lambda>_ _ _ n. (Ok 3, n + 1)),
      sc_manifest = (\<lambda>_ _ _ _ _ _ n. (Ok demo_manifest, n + 1)),
      sc_chunk = (\<lambda>_ _ c _ n. (Ok (demo_plain (c_sha c)), n + 1)), sc_text = (\<lambda>_. [])\<rparr>"

definition cat_postcard :: postcard where
  "cat_postcard =
     \<lparr>pc_encode = (\<lambda>c. if c = cached_of_manifest demo_manifest then Some [1] else None),
      pc_decode = (\<lambda>b. if b = [1] then Some (cached_of_manifest demo_manifest) else None)\<rparr>"

lemma cat_client_answers:
  "\<exists>n'. auth_resolve cat_client n = (Ok (), n')"
  "\<exists>k n'. lazy_key_get cat_client a d n = (Ok k, n')"
  "\<exists>n'. manifest_fetch cat_client a d g branch n = (Ok demo_manifest, n')"
proof -
  show a: "\<exists>n'. auth_resolve cat_client n = (Ok (), n')" for n
    by (cases "sw_session n") (simp_all add: auth_resolve_def cat_client_def)
  show l: "\<exists>k n'. lazy_key_get cat_client a d n = (Ok k, n')" for n
    using a [of n] by (auto simp: lazy_key_get_def cat_client_def split: option.split)
  obtain k n1 where k: "lazy_key_get cat_client a d n = (Ok k, n1)" using l by blast
  obtain n2 where "auth_resolve cat_client n1 = (Ok (), n2)" using a by blast
  with k show "\<exists>n'. manifest_fetch cat_client a d g branch n = (Ok demo_manifest, n')"
    by (simp add: manifest_fetch_def) (simp add: cat_client_def)
qed

lemma cat_cdn_get:
  "\<exists>n'. cs_get (cdn_chunk_store cat_client (cdn_store_new std_depot_api a d demo_manifest)) h n =
    ((if h \<in> c_sha ` set (api_chunks std_depot_api demo_file) then Ok (demo_plain h) else Err (ChunkNotInManifest h)), n')"
proof -
  let ?cdn = "cdn_store_new std_depot_api a d demo_manifest"
  have ix: "cdn_chunk_index ?cdn h =
      (if h \<in> c_sha ` set (api_chunks std_depot_api demo_file)
       then find (\<lambda>c. c_sha c = h) (api_chunks std_depot_api demo_file) else None)"
    using demo_hash_ne
    by (auto simp: cdn_store_new_def demo_manifest_def demo_dir_def demo_file_def std_depot_api_def)
  show ?thesis
  proof (cases "cdn_chunk_index ?cdn h")
    case None
    then show ?thesis using ix by (auto simp: cdn_chunk_store_def cdn_get_def find_None_iff split: if_splits)
  next
    case (Some c)
    then have c: "c_sha c = h" "h \<in> c_sha ` set (api_chunks std_depot_api demo_file)"
      using ix by (auto simp: find_Some_iff split: if_splits)
    obtain k n1 where k: "lazy_key_get cat_client (cdn_app_id ?cdn) (cdn_depot_id ?cdn) n = (Ok k, n1)"
      using cat_client_answers(2) by blast
    obtain n2 where a: "auth_resolve cat_client n1 = (Ok (), n2)" using cat_client_answers(1) by blast
    have "\<exists>n3. sc_chunk cat_client () (cdn_depot_id ?cdn) c k (sw_net n2) = (Ok (demo_plain h), n3)"
      by (simp add: cat_client_def c(1))
    then show ?thesis using k a c(2) Some by (auto simp: cdn_chunk_store_def cdn_get_def)
  qed
qed

text \<open>An empty disk: the manifest and both chunks come from Steam, and the file is printed whole.\<close>

theorem cat_prints_file_witness:
  "fst (cat_main cat_client cat_postcard std_env std_depot_api [''s''] 7 9 1 2 ''public'' (CatFile ''d/f'')
      \<lparr>fs_files = Map.empty, fs_faults = []\<rparr> demo_steam) = Ok (Stdout [1, 2, 3, 4, 5, 6, 7])"
proof -
  let ?fs = "\<lparr>fs_files = Map.empty, fs_faults = []\<rparr> :: fsys"
  let ?truth = "\<lambda>_ :: manifest_key. demo_manifest"
  let ?cdn = "cdn_chunk_store cat_client (cdn_store_new std_depot_api 9 1 demo_manifest)"
  obtain r cw where run: "cat_main cat_client cat_postcard std_env std_depot_api [''s''] 7 9 1 2 ''public''
      (CatFile (f_path demo_file)) ?fs demo_steam = (r, cw)" by fastforce
  have pc: "postcard_ok cat_postcard" by (simp add: postcard_ok_def cat_postcard_def)
  have fetch: "fetch_ok ?truth (9, 1, 2) (manifest_fetch cat_client 9 1 2 ''public'')"
    unfolding fetch_ok_def
  proof (intro allI impI)
    fix n r n'
    assume "manifest_fetch cat_client 9 1 2 ''public'' n = (r, n')"
    then have "r = Ok demo_manifest" using cat_client_answers(3) [of 9 1 2 "''public''" n] by auto
    then show "r \<noteq> Panic \<and> (\<forall>m. r = Ok m \<longrightarrow> m = demo_manifest \<and> snd (9, 1, 2) = (m_depot_id m, m_manifest_id m))"
      by (simp add: demo_manifest_def)
  qed
  have len: "length (demo_plain h) < 2 ^ 64" for h by (auto simp: demo_plain_def demo_chunks_def)
  have inner: "inner_ok std_env (\<lambda>h b. b = demo_plain h) (\<lambda>_. True) ?cdn"
    unfolding inner_ok_def
  proof (intro allI impI)
    fix h n r n'
    assume "True \<and> cs_get ?cdn h n = (r, n')"
    then have "r = (if h \<in> c_sha ` set (api_chunks std_depot_api demo_file) then Ok (demo_plain h) else Err (ChunkNotInManifest h))"
      using cat_cdn_get [of 9 1 h n] by auto
    then show "True \<and> (\<forall>b. r = Ok b \<and> ce_sha1 std_env b = hash_bytes h \<longrightarrow> b = demo_plain h \<and> length b < 2 ^ 64)"
      using len [of h] by (simp split: if_splits)
  qed
  have has: "inner_has std_env (\<lambda>_. True) ?cdn (c_sha ` set (api_chunks std_depot_api demo_file))"
    unfolding inner_has_def
  proof (intro allI impI)
    fix h and n :: "(unit, nat, nat) steam_world"
    assume h: "True \<and> h \<in> c_sha ` set (api_chunks std_depot_api demo_file)"
    then have "ce_sha1 std_env (demo_plain h) = hash_bytes h"
      by (auto simp: demo_file_def std_depot_api_def std_env_def demo_hash_def [symmetric]) (simp_all add: demo_hash_def)
    with h show "\<exists>b n'. cs_get ?cdn h n = (Ok b, n') \<and> ce_sha1 std_env b = hash_bytes h \<and> (\<exists>c. ce_compress std_env b = Inr c)"
      using cat_cdn_get [of 9 1 h n] by (auto simp: std_env_def)
  qed
  have rd: "readable demo_plain std_depot_api demo_manifest demo_file"
    using demo_files demo_file_ok by (simp add: readable_def)
  from cat_prints_file [OF std_env_ok pc fetch _ _ inner rd run]
  have sound: "\<forall>out. r = Ok out \<longrightarrow> out = Stdout (file_content demo_plain (api_chunks std_depot_api demo_file))"
    and "is_ok r"
    using cat_client_answers(3) has
    by (auto simp: manifests_inv_def disk_sound_def cat_postcard_def demo_file_def std_depot_api_def)
  then show ?thesis using run by (auto simp: is_ok_iff demo_file_def [symmetric]) (simp add: demo_file_def)
qed

end
