(* ===== verification/Projfs_Demo.thy ===== *)
theory Projfs_Demo
  imports Projfs
begin

text \<open>
  \<open>examples/static_demo.rs\<close> of the crate \<open>projfs\<close>: a source with one directory and one file, and
  what the example asserts when it reads them back through Windows.  ProjFS hands paths out
  relative and normalised, so a path here is its components.
\<close>

section \<open>The tree\<close>

definition FILE_BODY :: bytes where
  "FILE_BODY = map (\<lambda>c. word_of_nat (of_char c)) (''hello from projfs'' @ [CHR 0x0A])"

definition demo_list_directory :: "path_component list \<Rightarrow> (string \<times> proj_meta) list" where
  "demo_list_directory p =
     (if p = [] then
        [(''sub'', \<lparr>pm_is_dir = True, pm_size = 0, pm_creation_time = 0, pm_last_write_time = 0\<rparr>),
         (''hello.txt'', \<lparr>pm_is_dir = False, pm_size = len64 FILE_BODY, pm_creation_time = 0,
            pm_last_write_time = 0\<rparr>)]
      else [])"

definition demo_get_metadata :: "path_component list \<Rightarrow> proj_meta option" where
  "demo_get_metadata p =
     (if p = [] \<or> p = [Normal ''sub''] then
        Some \<lparr>pm_is_dir = True, pm_size = 0, pm_creation_time = 0, pm_last_write_time = 0\<rparr>
      else if p = [Normal ''hello.txt''] then
        Some \<lparr>pm_is_dir = False, pm_size = len64 FILE_BODY, pm_creation_time = 0, pm_last_write_time = 0\<rparr>
      else None)"

definition demo_read_file :: "path_component list \<Rightarrow> u64 \<Rightarrow> u32 \<Rightarrow> (io_error, bytes) outcome" where
  "demo_read_file p offset len =
     (if p \<noteq> [Normal ''hello.txt''] then Ok []
      else
        (let start = min (unat offset) (length FILE_BODY);
             stop = min (start + unat len) (length FILE_BODY)
         in Ok (take (stop - start) (drop start FILE_BODY))))"

definition static_demo :: "unit filesystem" where
  "static_demo =
     \<lparr>sf_list_directory = (\<lambda>p w. (Some (demo_list_directory p), w)),
      sf_get_metadata = (\<lambda>p w. (Some (demo_get_metadata p), w)),
      sf_read_file = (\<lambda>p offset len w. (demo_read_file p offset len, w))\<rparr>"

lemma body_length: "length FILE_BODY = 18"
  by (simp add: FILE_BODY_def)

text \<open>
  The assertions of the example hold on any Windows that behaves: enumerating the root brings
  \<open>hello.txt\<close> and \<open>sub\<close> and nothing else, and pieces of the file put together are its body.
\<close>

theorem static_demo_runs:
  assumes "honest_buffer we contents fresh" and "compare (we_compare we) ''hello.txt'' ''sub'' = Less"
    and "we_components we [] = []"
    and "start_dir_enum we static_demo \<lparr>cb_path = WideStr [], cb_flags = 0\<rparr> g ctx = (hr, ctx')"
  shows "hr = S_OK \<and> map_option (map fst) (enum_loop 3 we contents fresh g NullStr ctx') = Some [''hello.txt'', ''sub''] \<and>
    demo_read_file [Normal ''hello.txt''] offset len = Ok (take (unat len) (drop (unat offset) FILE_BODY)) \<and>
    (\<forall>(n, m) \<in> set (demo_list_directory []). demo_get_metadata [Normal n] = Some m)"
proof -
  have gt: "compare (we_compare we) ''sub'' ''hello.txt'' = Greater"
    using assms(2) by (simp add: compare.greater_iff_sym_less)
  define entries where "entries = Sorting_Algorithms.sort (key fst (we_compare we))
      (map (\<lambda>(n, m). (n, basic_info m)) (demo_list_directory []))"
  have names: "map fst entries = [''hello.txt'', ''sub'']"
    using assms(2) gt by (simp add: entries_def demo_list_directory_def)
  let ?sess = "\<lparr>es_entries = entries, es_index = 0, es_search = None, es_search_captured = False\<rparr>"
  have st: "hr = S_OK" "px_enums ctx' (guid_key g) = Some ?sess"
    using assms(3,4)
    by (auto simp: start_dir_enum_def static_demo_def path_from_pcwstr_def guard_def entries_def Let_def)
  have len: "length entries = 2" using arg_cong [OF names, of length] by simp
  have "enum_loop 3 we contents fresh g NullStr ctx' = Some (wanted we None (drop 0 entries))"
    using enum_loop_spec [OF assms(1) st(2), of NullStr None 3] len by (simp add: capture_search_def)
  moreover have "wanted we None entries = entries" by (simp add: wanted_def name_wanted_def)
  ultimately have e: "map_option (map fst) (enum_loop 3 we contents fresh g NullStr ctx') = Some [''hello.txt'', ''sub'']"
    using names by simp
  have r: "demo_read_file [Normal ''hello.txt''] offset len = Ok (take (unat len) (drop (unat offset) FILE_BODY))"
    using body_length by (cases "unat offset \<le> 18") (auto simp: demo_read_file_def Let_def min_def)
  have "\<forall>(n, m) \<in> set (demo_list_directory []). demo_get_metadata [Normal n] = Some m"
    by (simp add: demo_list_directory_def demo_get_metadata_def)
  with st(1) e r show ?thesis by blast
qed

end
