(* ===== verification/Spec2Isabelle.thy ===== *)
theory Spec2Isabelle
  imports Manifest_Race Steam_Store Flight_Properties Chunk_Audit Cli_Config Prefetch Projfs_Source Projfs
    Nfs_Session Login Stats Mount_Session Depot_Fs Depot_Read Chunk_Cache Cached_Read Cache_Properties
    Mount_Tree View Open_Race Nfs Fuse Node_Types Store_Fill Bench_Run Probe_Tools
    Mount_Handles Cli_Login Cat_Tool Projfs_Demo
begin

text \<open>
  Verification of steam-depot-vfs: depots of the Steam CDN as a file system.

  \<^bold>\<open>The program.\<close>  A depot manifest lists files; a file is a sequence of chunks, each named by the
  SHA-1 of its plaintext.  \<open>DepotStore\<close> (steam-depot-vfs/src/context.rs) opens a manifest, from a
  disk cache (manifest_cache.rs) or from Steam (chunk_store/cdn.rs, depot_key_cache.rs,
  session.rs), and puts a disk cache of chunks (chunk_store/cache.rs) in front of the CDN.
  \<open>DepotManifestStore\<close> (fs.rs) is the file system of one manifest: lookups, listings, reads of byte
  ranges.  steam-depot-mount keeps many of them in one tree (tree.rs, inode.rs), opened on first
  access (view.rs), and serves the tree through FUSE (fuse.rs, session.rs), NFS (nfs.rs,
  nfs_session.rs) and ProjFS (projfs.rs over the crate projfs).  The command line (steam-depot)
  mounts a configuration, prefetches it, and audits the cache (main.rs, config.rs, prefetch.rs,
  stats.rs, verify.rs, prune.rs).

  \<^bold>\<open>Conventions.\<close>  A Rust call is an \<open>outcome\<close>: \<open>Ok\<close>, \<open>Err\<close>, or \<open>Panic\<close>, which an unwinding
  boundary (\<open>caught\<close>, \<open>guard\<close>) can see.  Integers keep their width (\<open>u64\<close> is \<open>64 word\<close>) and wrap
  as a release build does.  A string is its UTF-8 bytes.  State is passed explicitly in records;
  where a function returns an option of a result, \<open>None\<close> is a panic (tree and registration) or
  fuel that ran out (the NFS wait).  What is outside the repository is a parameter: the Steam
  client, zstd, SHA-1 and the LRU cache (\<open>chunk_env\<close>), postcard, JSON and TOML, the kernel, fuser,
  the Windows API, the openers of lazy snapshots.  What the proofs need of them is a named
  hypothesis (\<open>env_ok\<close>, \<open>postcard_ok\<close>, \<open>postcard_cut\<close>, \<open>json_ok\<close>, \<open>host_ok\<close>, \<open>clock_ok\<close>,
  \<open>service_ok\<close>), which \<open>Reference_Env\<close> or a definition beside the witness shows to be satisfiable.

  \<^bold>\<open>Theories and sources.\<close>
  \<^item> \<open>Depot_Prelude\<close>, \<open>Rust_Std\<close>, \<open>Rust_Fs\<close>: outcomes, words, slices; strings, number parsing and
    paths as the standard library has them; a file system whose every operation may fail, a write
    leaving any prefix behind.
  \<^item> \<open>Manifest_Types\<close>: errors (error.rs, manifest_cache.rs) and the manifest's data.
  \<^item> \<open>Chunk_Store\<close>: the trait of chunk_store/mod.rs, and its contracts as locales.
  \<^item> \<open>Depot_Fs\<close>, \<open>Depot_Read\<close>: fs.rs, indexes and listings, then reads and the synchronous reader.
  \<^item> \<open>Chunk_Cache\<close>, \<open>Cache_Properties\<close>, \<open>Cached_Read\<close>: chunk_store/cache.rs for one caller, and
    fs.rs over it.  \<open>Reference_Env\<close> has a concrete compression, hash and LRU cache.
  \<^item> \<open>Single_Flight\<close>, \<open>Flight_Properties\<close>: the same cache for any number of racing callers, one
    step between two awaits, with the table of per-chunk locks.
  \<^item> \<open>Manifest_Cache\<close>, \<open>Manifest_Race\<close>: manifest_cache.rs for one caller, and for any number of
    racing callers, one file operation, fetch or visit to the in-flight table at a time.
  \<^item> \<open>Steam_Store\<close>, \<open>Login\<close>: context.rs, depot_key_cache.rs, chunk_store/cdn.rs; session.rs with
    the token file.
  \<^item> \<open>Mount_Tree\<close>, \<open>View\<close>: inode.rs, tree.rs; view.rs.
  \<^item> \<open>Open_Race\<close>: \<open>slot_lookup\<close> and \<open>resolve\<close> of view.rs for any number of requests that race to open
    a snapshot, with requests dropped, openers that panic and snapshots added and removed.
  \<^item> \<open>Nfs\<close>, \<open>Fuse\<close>, \<open>Mount_Read\<close>: nfs.rs, fuse.rs, and reads through both.
  \<^item> \<open>Mount_Paths\<close>, \<open>Node_Types\<close>: the operations of nfs.rs as a client composes them: walking a
    path and reading; the kind of node an id names and that it stays so.
  \<^item> \<open>Mount_Session\<close>, \<open>Nfs_Session\<close>: session.rs with the command \<open>mount\<close> of main.rs; nfs_session.rs.
  \<^item> \<open>Projfs_Source\<close>, \<open>Projfs\<close>, \<open>Projfs_Demo\<close>: projfs.rs of the mount; the callbacks of the crate
    projfs; its example.
  \<^item> \<open>Cli_Config\<close>, \<open>Prefetch\<close>, \<open>Chunk_Audit\<close>, \<open>Stats\<close>: config.rs and main.rs; prefetch.rs;
    verify.rs, prune.rs and the scans; stats.rs.
  \<^item> \<open>Cli_Login\<close>: the command's own login, steam-depot/src/auth.rs, against the library's.
  \<^item> \<open>Mount_Handles\<close>: the handles \<open>Mount\<close>, \<open>NfsMount\<close> and \<open>ProjFsMount\<close> between start and end
    (session.rs, nfs_session.rs, projfs_session.rs).
  \<^item> \<open>Cat_Tool\<close>: examples/cat.rs, the library from the name of a manifest to printed bytes.
  \<^item> \<open>Store_Tools\<close>, \<open>Store_Fill\<close>: the examples over a store, common/mod.rs, store_stream.rs,
    store_sweep.rs, store_file.rs and store_fragments.rs offline, store_prefetch.rs to fill it.
  \<^item> \<open>Bench_Setup\<close>, \<open>Bench_Run\<close>: examples/bench_setup.rs with the containers of
    benches/support.rs.  \<open>Probe_Tools\<close>: the counting stores, arguments and lines of the binaries
    nfs-live, nfs-probe, nfs-demo and manifest-chunks.

  \<^bold>\<open>What is shown.\<close>
  \<^item> The whole: walking \<open>/app/depot/gid/path\<close> over NFS opens the snapshot and leads to a node that
    reads as the file at that path (\<open>mounted_path_reads_file\<close>).
  \<^item> Content: a read, through the file system, the cache, NFS or ProjFS, gives the bytes of
    the file in the range whatever the disk and the network do, or an error; with a disk and a
    network that work it gives the bytes.  The cache never hands out a chunk that does not hash to
    its name, heals corrupt files, and fetches a chunk once however many callers race.  The manifest
    cache never hands out a manifest of another key, whatever fails and whatever stale files it
    starts with (\<open>racing_gets_sound\<close>); if it starts with whole files only, at most one caller of a
    key fetches and saves at a time (\<open>racing_saves_exclusive\<close>), and on a disk that works a manifest
    is fetched once (\<open>racing_gets_fetch_once\<close>).
  \<^item> Names: listings, lookups, attributes and ids agree in every back end; paging gives every
    entry once; the mount tree refines a map from paths to snapshots, and ids are not reused.
    Ids are typed: every id handed out names a node of the announced kind until its snapshot is
    removed (\<open>handles_well_typed\<close>).
  \<^item> Life cycles: a lazy snapshot is opened once however many requests race for it, and all get the
    same answer (\<open>racing_opens_once\<close>, \<open>racing_opens_finish\<close>); races, waits and drains end; a failed
    start, \<open>unmount\<close> and a dropped handle leave no NFS server (\<open>nfs_server_lifecycle\<close>), the command
    \<open>mount\<close> no mount, and an atomic write no half-written target.
  \<^item> The tools: a prefetch that nobody interrupts stores every chunk on a disk and a network that
    work, its counters add up; the statistics count shared chunks once; pruning touches only
    chunk files.
  \<^item> Composition: \<open>cat\<close> prints the content the manifest gives a file, through the manifest cache,
    the chunk cache and the CDN (\<open>cat_prints_file\<close>); the handles of the three back ends answer
    like a register of places (\<open>handles_keep_register\<close>); what \<open>store_prefetch\<close> fills, the
    offline tools read (\<open>filled_store_streams\<close>); the command's login is the library's
    (\<open>cli_login_is_library\<close>).
  \<^item> Bounds: at most 32 tasks of \<open>store_prefetch\<close> exist at a time, its runs end and its progress
    lines never panic (\<open>fill_run_bounded\<close>); a malformed container is an error and not a panic
    (\<open>containers_never_panic\<close>); an index of fixtures lists only what is on disk and agrees
    (\<open>bench_index_verified\<close>).
  \<^item> Faults of the code, proved as they are: an unguarded sum panics (\<open>read_overflow_panics\<close>), an
    empty directory cannot be listed (\<open>empty_directory_not_listed\<close>), the verification condemns
    good chunks and the prefetch then deletes them (\<open>verify_condemns_good_chunks\<close>,
    \<open>verify_pass_empties_good_cache\<close>), panicking fetches starve the rest
    (\<open>panicking_fetches_starve\<close>), hash names are parsed too freely (\<open>parse_sha_not_only_hex\<close>), a
    mountpoint with a space is never found on Linux (\<open>spaces_never_mounted\<close>), snapshots answer to
    numbers with leading zeros (\<open>projfs_leading_zeros\<close>), and a caller that read a stale manifest
    file deletes its replacement (\<open>stale_load_deletes_fresh\<close>).

  \<^bold>\<open>Structure.\<close>  The locales are the interfaces between parts: \<open>chunk_source\<close> and
  \<open>full_source\<close> (what a chunk store promises a reader), \<open>directory_view\<close> (what a directory promises
  a back end), \<open>range_reader\<close> and \<open>full_range_reader\<close> (what a file promises a loop that reads it
  in pieces), \<open>chunk_filler\<close> and \<open>full_filler\<close> (what \<open>ensure\<close> promises who fills a store),
  \<open>mount_handle\<close> (what a handle of a mount does to the tree); each is interpreted on the model's own
  definitions where they are provided, and the properties rest on the interpreted facts.

  \<^bold>\<open>Bounds and fuel.\<close>  The wait for a forced unmount has fuel, which counts its looks at the mount
  table and not the one before it; 201 are enough, because the clock advances by 50 ms between two
  and the deadline is 10 s away.  What a look says is what the code's \<open>is_mounted\<close> says.  The
  pipeline of a prefetch (\<open>drain\<close>) ends because every turn lowers the work left or uses up the one
  interruption.  The window loop of the examples has fuel, one more than the windows of the largest
  file.  Races end because every step of a task lowers the work it has left.  Node indexes
  have 48 bits and snapshot ids 16: hypotheses on the number of files and snapshots say where that
  matters.

  \<^bold>\<open>Not modelled.\<close>  Logging, progress bars and printed summaries; percentages, timings and
  \<open>human_bytes\<close>, which are floating point; the wire formats of FUSE and NFS (fuser, nfsserve); raw
  pointers and buffers of the ProjFS callbacks; the inside of tokio (a step between two awaits is
  atomic; of its \<open>OnceCell\<close> and its locks the documented behaviour is taken).  Of the developer binaries nfs-live and nfs-probe the mounting and
  the reading through the kernel, and the manifests nfs-demo and nfs-probe build with fields that
  the manifest types do not have; the divan harness of the benchmarks, which times what is
  modelled; the integration tests.
\<close>

end
